(* ===== verification/Redis_Prelude.thy ===== *)
theory Redis_Prelude
  imports Main "HOL-Library.Word" "HOL-Library.Monad_Syntax"
begin

unbundle bit_operations_syntax

section \<open>Prelude: bytes, memory blocks, byte order of integers\<close>

text \<open>
  What every component shares: the machine integer types, blocks of C memory as byte lists
  with bounds-checked reads, writes and moves (an access outside the block is \<open>None\<close>, so
  that a theorem that an operation returns \<open>Some\<close> is a memory-safety statement),
  \<open>realloc\<close> with unspecified fresh bytes, and the object representation of integers in
  little and big endian order.
\<close>

type_synonym byte = "8 word"
type_synonym u16 = "16 word"
type_synonym u32 = "32 word"
type_synonym u64 = "64 word"

named_theorems mem_simps \<open>evaluation of in-bounds memory accesses\<close>
named_theorems le_simps \<open>little endian encoding and decoding\<close>

subsection \<open>Blocks of memory\<close>

definition mem_read :: "'a list \<Rightarrow> int \<Rightarrow> nat \<Rightarrow> 'a list option" where
  "mem_read m off n =
     (if 0 \<le> off \<and> nat off + n \<le> length m then Some (take n (drop (nat off) m)) else None)"

definition mem_write :: "'a list \<Rightarrow> int \<Rightarrow> 'a list \<Rightarrow> 'a list option" where
  "mem_write m off bs =
     (if 0 \<le> off \<and> nat off + length bs \<le> length m
      then Some (take (nat off) m @ bs @ drop (nat off + length bs) m) else None)"

definition mem_move :: "'a list \<Rightarrow> int \<Rightarrow> int \<Rightarrow> nat \<Rightarrow> 'a list option" where
  \<comment> \<open>memmove(dst, src, n): the source is read before the destination is written\<close>
  "mem_move m dst src n = do { bs \<leftarrow> mem_read m src n; mem_write m dst bs }"

definition mem_resize :: "(nat \<Rightarrow> 'a) \<Rightarrow> 'a list \<Rightarrow> nat \<Rightarrow> 'a list" where
  \<comment> \<open>realloc: the common prefix is kept, new bytes are whatever the allocator returns\<close>
  "mem_resize junk m n = take n m @ map junk [length m..<n]"

definition mem_swap :: "'a list \<Rightarrow> nat \<Rightarrow> nat \<Rightarrow> 'a list option" where
  \<comment> \<open>t = x[i]; x[i] = x[j]; x[j] = t\<close>
  "mem_swap m i j = (if i < length m \<and> j < length m then Some (m[i := m ! j, j := m ! i]) else None)"

lemma mem_read_Some [mem_simps]:
  "k + n \<le> length m \<Longrightarrow> mem_read m (int k) n = Some (take n (drop k m))"
  by (simp add: mem_read_def)

lemma mem_write_Some [mem_simps]:
  "k + length bs \<le> length m \<Longrightarrow>
     mem_write m (int k) bs = Some (take k m @ bs @ drop (k + length bs) m)"
  by (simp add: mem_write_def)

lemma mem_write_length: "mem_write m off bs = Some m' \<Longrightarrow> length m' = length m"
  by (auto simp: mem_write_def split: if_splits)

lemma mem_write_append [mem_simps]:
  "length ys = length bs \<Longrightarrow> mem_write (xs @ ys @ zs) (int (length xs)) bs = Some (xs @ bs @ zs)"
  by (simp add: mem_write_def)

lemma mem_read_append [mem_simps]:
  "length ys = n \<Longrightarrow> mem_read (xs @ ys @ zs) (int (length xs)) n = Some ys"
  by (simp add: mem_read_def)

lemma length_mem_resize [simp]: "length (mem_resize junk m n) = n"
  by (simp add: mem_resize_def)

lemma mem_resize_id [simp]: "mem_resize junk m (length m) = m"
  by (simp add: mem_resize_def)

lemma mem_resize_grow: "length m \<le> n \<Longrightarrow> mem_resize junk m n = m @ map junk [length m..<n]"
  by (simp add: mem_resize_def)

lemma mem_resize_shrink: "n \<le> length m \<Longrightarrow> mem_resize junk m n = take n m"
  by (simp add: mem_resize_def)

subsection \<open>Integers as bytes\<close>

datatype byte_order = LittleEndian | BigEndian

definition le_encode :: "nat \<Rightarrow> 'a::len word \<Rightarrow> byte list" where
  "le_encode n w = map (\<lambda>i. ucast (drop_bit (8 * i) w)) [0..<n]"

fun le_decode :: "byte list \<Rightarrow> 'a::len word" where
  "le_decode [] = 0"
| "le_decode (b # bs) = ucast b OR push_bit 8 (le_decode bs)"

definition obj_bytes :: "byte_order \<Rightarrow> nat \<Rightarrow> 'a::len word \<Rightarrow> byte list" where
  \<comment> \<open>the object representation of an n-byte integer on a host of the given order\<close>
  "obj_bytes he n w = (case he of LittleEndian \<Rightarrow> le_encode n w | BigEndian \<Rightarrow> rev (le_encode n w))"

definition obj_value :: "byte_order \<Rightarrow> byte list \<Rightarrow> 'a::len word" where
  "obj_value he bs = (case he of LittleEndian \<Rightarrow> le_decode bs | BigEndian \<Rightarrow> le_decode (rev bs))"

lemma length_le_encode [simp]: "length (le_encode n w) = n"
  by (simp add: le_encode_def)

lemma length_obj_bytes [simp]: "length (obj_bytes he n w) = n"
  by (cases he) (simp_all add: obj_bytes_def)

lemma bit_le_decode:
  "bit (le_decode bs :: 'a::len word) k \<longleftrightarrow>
     k < LENGTH('a) \<and> k div 8 < length bs \<and> bit (bs ! (k div 8)) (k mod 8)"
proof (induction bs arbitrary: k)
  case Nil
  then show ?case by simp
next
  case (Cons b bs)
  show ?case
  proof (cases "k < 8")
    case True
    then show ?thesis
      by (auto simp: bit_or_iff bit_push_bit_iff bit_ucast_iff)
  next
    case False
    then have k: "k div 8 = Suc ((k - 8) div 8)" "(k - 8) mod 8 = k mod 8"
      by (simp_all add: le_div_geq le_mod_geq)
    have "\<not> bit b k" using False bit_imp_le_length [of b k] by auto
    then show ?thesis
      using False k Cons.IH [of "k - 8"]
      by (auto simp: bit_or_iff bit_push_bit_iff bit_ucast_iff)
  qed
qed

lemma nth_le_encode: "i < n \<Longrightarrow> le_encode n w ! i = ucast (drop_bit (8 * i) w)"
  by (simp add: le_encode_def)

lemma le_decode_encode_ucast:
  "LENGTH('b::len) \<le> 8 * n \<Longrightarrow> (le_decode (le_encode n (w :: 'a::len word)) :: 'b word) = ucast w"
  by (rule bit_word_eqI)
     (auto simp: bit_le_decode nth_le_encode bit_ucast_iff bit_drop_bit_eq less_mult_imp_div_less mult.commute)

lemma le_decode_encode [le_simps]:
  "LENGTH('a::len) \<le> 8 * n \<Longrightarrow> le_decode (le_encode n w) = (w :: 'a word)"
  using le_decode_encode_ucast [of n w, where 'b = 'a] by simp

lemma obj_value_bytes [simp]:
  "LENGTH('a::len) \<le> 8 * n \<Longrightarrow> obj_value he (obj_bytes he n w) = (w :: 'a word)"
  by (cases he) (simp_all add: obj_value_def obj_bytes_def le_simps)

lemma le_encode_decode:
  assumes "length bs = n" and "8 * n \<le> LENGTH('a::len)"
  shows "le_encode n (le_decode bs :: 'a word) = bs"
proof (rule nth_equalityI)
  fix i assume "i < length (le_encode n (le_decode bs :: 'a word))"
  then have i: "i < n" by simp
  show "le_encode n (le_decode bs :: 'a word) ! i = bs ! i"
  proof (rule bit_word_eqI)
    fix k assume "k < LENGTH(8)"
    then have k: "k < 8" by simp
    have "8 * i + k < 8 * n" using i k by linarith
    moreover have "(8 * i + k) div 8 = i" "(8 * i + k) mod 8 = k" using k by simp_all
    ultimately show "bit (le_encode n (le_decode bs :: 'a word) ! i) k = bit (bs ! i) k"
      using i k assms
      by (simp add: nth_le_encode bit_ucast_iff bit_drop_bit_eq bit_le_decode add.commute)
  qed
qed (use assms in simp)

lemma le_encode_cong_ucast:
  "8 * n \<le> LENGTH('b::len) \<Longrightarrow> le_encode n (ucast (w :: 'a::len word) :: 'b word) = le_encode n w"
  by (rule nth_equalityI)
     (auto intro!: bit_word_eqI simp: nth_le_encode bit_ucast_iff bit_drop_bit_eq dest: bit_imp_le_length)

subsection \<open>Lists of equally long chunks\<close>

lemma length_concat_chunks: "(\<And>x. x \<in> set xs \<Longrightarrow> length (f x) = e) \<Longrightarrow> length (concat (map f xs)) = length xs * e"
  by (induction xs) auto

lemma drop_concat_chunks:
  "(\<And>x. x \<in> set xs \<Longrightarrow> length (f x) = e) \<Longrightarrow> drop (k * e) (concat (map f xs)) = concat (map f (drop k xs))"
proof (induction xs arbitrary: k)
  case (Cons x xs)
  then show ?case by (cases k) auto
qed simp

lemma take_concat_chunks:
  "(\<And>x. x \<in> set xs \<Longrightarrow> length (f x) = e) \<Longrightarrow> take (k * e) (concat (map f xs)) = concat (map f (take k xs))"
proof (induction xs arbitrary: k)
  case (Cons x xs)
  then show ?case by (cases k) auto
qed simp

lemma read_chunk:
  assumes "\<And>x. x \<in> set xs \<Longrightarrow> length (f x) = e" and "i < length xs"
  shows "take e (drop (i * e) (concat (map f xs) @ zs)) = f (xs ! i)"
proof -
  have "i * e \<le> length xs * e" using assms(2) by simp
  then have "drop (i * e) (concat (map f xs) @ zs) = concat (map f (drop i xs)) @ zs"
    using assms(1) by (simp add: drop_concat_chunks length_concat_chunks)
  also have "drop i xs = xs ! i # drop (Suc i) xs"
    using assms(2) by (simp add: Cons_nth_drop_Suc)
  finally show ?thesis using assms by simp
qed

subsection \<open>Conversions between words and numbers\<close>

lemma sint_word_of_int_id:
  assumes "- (2 ^ (LENGTH('a::len) - 1)) \<le> x" and "x < 2 ^ (LENGTH('a) - 1)"
  shows "sint (word_of_int x :: 'a word) = x"
proof -
  have "(2::int) ^ LENGTH('a) = 2 * 2 ^ (LENGTH('a) - 1)"
    by (metis len_gt_0 power_Suc Suc_pred')
  with assms show ?thesis by (simp add: int_word_sint)
qed

lemma uint_word_of_int_id:
  "0 \<le> x \<Longrightarrow> x < 2 ^ LENGTH('a::len) \<Longrightarrow> uint (word_of_int x :: 'a word) = x"
  by (simp add: uint_word_of_int)

lemma scast_eq_word_of_int: "(scast w :: 'b::len word) = word_of_int (sint (w :: 'a::len word))"
  by (rule scast_eq)

lemma unat_of_nat32: "n < 2 ^ 32 \<Longrightarrow> unat (of_nat n :: u32) = n"
  by (simp add: unat_of_nat)

lemma sint_of_nat32: "n < 2 ^ 31 \<Longrightarrow> sint (of_nat n :: u32) = int n"
  using sint_word_of_int_id [of "int n", where 'a = 32] by simp

lemma of_nat_mult_unat32: "a * b < 2 ^ 32 \<Longrightarrow> unat (of_nat a * of_nat b :: u32) = a * b"
  by (metis of_nat_mult unat_of_nat32)

lemma set_take_drop: "set (take pos xs) \<union> set (drop pos xs) = set xs"
  by (metis append_take_drop_id set_append)

lemma sorted_insert_at:
  assumes "sorted_wrt (<) xs" and "\<forall>i<pos. xs ! i < (x::int)" and "\<forall>i<length xs. pos \<le> i \<longrightarrow> x < xs ! i"
    and "pos \<le> length xs"
  shows "sorted_wrt (<) (take pos xs @ x # drop pos xs)"
proof -
  have "y < x" if "y \<in> set (take pos xs)" for y
    using that assms(2) by (auto simp: in_set_conv_nth)
  moreover have "x < y" if "y \<in> set (drop pos xs)" for y
    using that assms(3) by (auto simp: in_set_conv_nth)
  moreover have "sorted_wrt (<) (take pos xs @ drop pos xs)" using assms(1) by simp
  ultimately show ?thesis
    using sorted_wrt_take [OF assms(1)] sorted_wrt_drop [OF assms(1)]
    by (auto simp: sorted_wrt_append) (meson order.strict_trans)
qed

end
