(* ===== verification/Endianconv.thy ===== *)
theory Endianconv
  imports Redis_Prelude
begin

section \<open>Byte order conversion (endianconv.c)\<close>

text \<open>
  \<open>memrev16/32/64\<close> swap bytes in place at an address of a block, \<open>intrev16/32/64\<close> do it
  on a value through its object representation, and the \<open>ifbe\<close> macros of endianconv.h do
  it on big endian hosts only. The lemmas show that what is written with
  \<open>memrevNifbe\<close> is little endian on every host.
\<close>

definition memrev16 :: "byte list \<Rightarrow> nat \<Rightarrow> byte list option" where
  "memrev16 m p = mem_swap m p (p + 1)"

definition memrev32 :: "byte list \<Rightarrow> nat \<Rightarrow> byte list option" where
  "memrev32 m p = do { m \<leftarrow> mem_swap m p (p + 3); mem_swap m (p + 1) (p + 2) }"

definition memrev64 :: "byte list \<Rightarrow> nat \<Rightarrow> byte list option" where
  "memrev64 m p = do {
     m \<leftarrow> mem_swap m p (p + 7);
     m \<leftarrow> mem_swap m (p + 1) (p + 6);
     m \<leftarrow> mem_swap m (p + 2) (p + 5);
     mem_swap m (p + 3) (p + 4) }"

definition intrev16 :: "byte_order \<Rightarrow> u16 \<Rightarrow> u16" where
  "intrev16 he v = (case memrev16 (obj_bytes he 2 v) 0 of Some m \<Rightarrow> obj_value he m | None \<Rightarrow> v)"

definition intrev32 :: "byte_order \<Rightarrow> u32 \<Rightarrow> u32" where
  "intrev32 he v = (case memrev32 (obj_bytes he 4 v) 0 of Some m \<Rightarrow> obj_value he m | None \<Rightarrow> v)"

definition intrev64 :: "byte_order \<Rightarrow> u64 \<Rightarrow> u64" where
  "intrev64 he v = (case memrev64 (obj_bytes he 8 v) 0 of Some m \<Rightarrow> obj_value he m | None \<Rightarrow> v)"

definition memrev16ifbe :: "byte_order \<Rightarrow> byte list \<Rightarrow> nat \<Rightarrow> byte list option" where
  "memrev16ifbe he m p = (case he of LittleEndian \<Rightarrow> Some m | BigEndian \<Rightarrow> memrev16 m p)"

definition memrev32ifbe :: "byte_order \<Rightarrow> byte list \<Rightarrow> nat \<Rightarrow> byte list option" where
  "memrev32ifbe he m p = (case he of LittleEndian \<Rightarrow> Some m | BigEndian \<Rightarrow> memrev32 m p)"

definition memrev64ifbe :: "byte_order \<Rightarrow> byte list \<Rightarrow> nat \<Rightarrow> byte list option" where
  "memrev64ifbe he m p = (case he of LittleEndian \<Rightarrow> Some m | BigEndian \<Rightarrow> memrev64 m p)"

definition intrev32ifbe :: "byte_order \<Rightarrow> u32 \<Rightarrow> u32" where
  "intrev32ifbe he v = (case he of LittleEndian \<Rightarrow> v | BigEndian \<Rightarrow> intrev32 he v)"

definition intrev64ifbe :: "byte_order \<Rightarrow> u64 \<Rightarrow> u64" where
  "intrev64ifbe he v = (case he of LittleEndian \<Rightarrow> v | BigEndian \<Rightarrow> intrev64 he v)"

subsection \<open>Reversal of a chunk inside a block\<close>

lemma mem_swap_append:
  "i < length bs \<Longrightarrow> j < length bs \<Longrightarrow>
     mem_swap (xs @ bs @ zs) (length xs + i) (length xs + j) = Some (xs @ bs[i := bs ! j, j := bs ! i] @ zs)"
  by (simp add: mem_swap_def nth_append list_update_append)

lemma length2_conv: "length bs = 2 \<longleftrightarrow> (\<exists>a b. bs = [a, b])"
  by (auto simp: numeral_eq_Suc length_Suc_conv)

lemma length4_conv: "length bs = 4 \<longleftrightarrow> (\<exists>a b c d. bs = [a, b, c, d])"
  by (auto simp: numeral_eq_Suc length_Suc_conv)

lemma length8_conv: "length bs = 8 \<longleftrightarrow> (\<exists>a b c d e f g h. bs = [a, b, c, d, e, f, g, h])"
  by (auto simp: numeral_eq_Suc length_Suc_conv)

lemma memrev16_append:
  "length bs = 2 \<Longrightarrow> memrev16 (xs @ bs @ zs) (length xs) = Some (xs @ rev bs @ zs)"
  using mem_swap_append [of 0 bs 1 xs zs] by (auto simp: memrev16_def length2_conv)

lemma memrev32_append:
  assumes "length bs = 4"
  shows "memrev32 (xs @ bs @ zs) (length xs) = Some (xs @ rev bs @ zs)"
proof -
  obtain a b c d where bs: "bs = [a, b, c, d]" using assms by (auto simp: length4_conv)
  show ?thesis
    unfolding memrev32_def bs
    using mem_swap_append [of 0 "[a, b, c, d]" 3 xs zs] mem_swap_append [of 1 "[d, b, c, a]" 2 xs zs]
    by simp
qed

lemma memrev64_append:
  assumes "length bs = 8"
  shows "memrev64 (xs @ bs @ zs) (length xs) = Some (xs @ rev bs @ zs)"
proof -
  obtain a b c d e f g h where bs: "bs = [a, b, c, d, e, f, g, h]" using assms by (auto simp: length8_conv)
  show ?thesis
    unfolding memrev64_def bs
    using mem_swap_append [of 0 "[a, b, c, d, e, f, g, h]" 7 xs zs]
      mem_swap_append [of 1 "[h, b, c, d, e, f, g, a]" 6 xs zs]
      mem_swap_append [of 2 "[h, g, c, d, e, f, b, a]" 5 xs zs]
      mem_swap_append [of 3 "[h, g, f, d, e, c, b, a]" 4 xs zs]
    by simp
qed

lemmas memrev_append = memrev16_append memrev32_append memrev64_append

lemma memrevifbe_obj_bytes:
  "memrev16ifbe he (xs @ obj_bytes he 2 w @ zs) (length xs) = Some (xs @ le_encode 2 w @ zs)"
  "memrev32ifbe he (xs @ obj_bytes he 4 w @ zs) (length xs) = Some (xs @ le_encode 4 w @ zs)"
  "memrev64ifbe he (xs @ obj_bytes he 8 w @ zs) (length xs) = Some (xs @ le_encode 8 w @ zs)"
  by (cases he; simp add: memrev16ifbe_def memrev32ifbe_def memrev64ifbe_def obj_bytes_def memrev_append)+

lemma memrevifbe_read:
  fixes v16 :: u16 and v32 :: u32 and v64 :: u64
  shows "length bs = 2 \<Longrightarrow> memrev16ifbe he bs 0 = Some m \<Longrightarrow> obj_value he m = (le_decode bs :: u16)"
    and "length bs = 4 \<Longrightarrow> memrev32ifbe he bs 0 = Some m \<Longrightarrow> obj_value he m = (le_decode bs :: u32)"
    and "length bs = 8 \<Longrightarrow> memrev64ifbe he bs 0 = Some m \<Longrightarrow> obj_value he m = (le_decode bs :: u64)"
  using memrev16_append [of bs "[]" "[]"] memrev32_append [of bs "[]" "[]"] memrev64_append [of bs "[]" "[]"]
  by (cases he; simp add: memrev16ifbe_def memrev32ifbe_def memrev64ifbe_def obj_value_def)+

lemma memrevifbe_Some:
  "length bs = 2 \<Longrightarrow> \<exists>m. memrev16ifbe he bs 0 = Some m"
  "length bs = 4 \<Longrightarrow> \<exists>m. memrev32ifbe he bs 0 = Some m"
  "length bs = 8 \<Longrightarrow> \<exists>m. memrev64ifbe he bs 0 = Some m"
  using memrev16_append [of bs "[]" "[]"] memrev32_append [of bs "[]" "[]"] memrev64_append [of bs "[]" "[]"]
  by (cases he; simp add: memrev16ifbe_def memrev32ifbe_def memrev64ifbe_def)+

lemma intrev_eq:
  "intrev16 he v2 = le_decode (rev (le_encode 2 v2))"
  "intrev32 he v4 = le_decode (rev (le_encode 4 v4))"
  "intrev64 he v8 = le_decode (rev (le_encode 8 v8))"
  using memrev_append(1) [of "obj_bytes he 2 v2" "[]" "[]"] memrev_append(2) [of "obj_bytes he 4 v4" "[]" "[]"]
    memrev_append(3) [of "obj_bytes he 8 v8" "[]" "[]"]
  by (cases he; simp add: intrev16_def intrev32_def intrev64_def obj_value_def obj_bytes_def)+

lemma intrev32_intrev32 [simp]: "intrev32 he (intrev32 he' v) = v"
  by (simp add: intrev_eq le_encode_decode le_simps)

lemma intrev64_intrev64 [simp]: "intrev64 he (intrev64 he' v) = v"
  by (simp add: intrev_eq le_encode_decode le_simps)

lemma intrev32ifbe_twice [simp]: "intrev32ifbe he (intrev32ifbe he v) = v"
  by (cases he) (simp_all add: intrev32ifbe_def)

end
