(* ===== verification/Containers.thy ===== *)
theory Containers
  imports Redis_Prelude
begin

section \<open>Interfaces of the containers\<close>

text \<open>
  The contracts the data structures of Redis offer to the code above them, as locales. A
  structure of bounded capacity promises its laws as long as \<open>cap\<close> elements fit; an
  operation that leaves its memory blocks or fails to return is \<open>None\<close>.
\<close>

text \<open>Feeding a list of elements to an insertion function, counting the ones that were new:
  the loop every variadic command and every loader has.\<close>

primrec add_all :: "('s \<Rightarrow> 'a \<Rightarrow> ('s \<times> bool) option) \<Rightarrow> 's \<Rightarrow> 'a list \<Rightarrow> ('s \<times> nat) option" where
  "add_all add s [] = Some (s, 0)"
| "add_all add s (x # xs) = do {
     (s, fresh) \<leftarrow> add s x;
     (s, n) \<leftarrow> add_all add s xs;
     Some (s, (if fresh then 1 else 0) + n) }"

locale bounded_set =
  fixes inv :: "'s \<Rightarrow> bool"
    and elems :: "'s \<Rightarrow> 'a set"
    and cap :: nat
    and add :: "'s \<Rightarrow> 'a \<Rightarrow> ('s \<times> bool) option"
    and remove :: "'s \<Rightarrow> 'a \<Rightarrow> ('s \<times> bool) option"
    and find :: "'s \<Rightarrow> 'a \<Rightarrow> bool option"
  assumes finite_elems: "inv s \<Longrightarrow> finite (elems s)"
    and add_law: "inv s \<Longrightarrow> card (elems s) < cap \<Longrightarrow>
      \<exists>s'. add s x = Some (s', x \<notin> elems s) \<and> inv s' \<and> elems s' = insert x (elems s)"
    and remove_law: "inv s \<Longrightarrow>
      \<exists>s'. remove s x = Some (s', x \<in> elems s) \<and> inv s' \<and> elems s' = elems s - {x}"
    and find_law: "inv s \<Longrightarrow> find s x = Some (x \<in> elems s)"
begin

lemma add_all_law:
  "inv s \<Longrightarrow> card (elems s) + length xs \<le> cap \<Longrightarrow>
     \<exists>s'. add_all add s xs = Some (s', card (elems s') - card (elems s)) \<and> inv s' \<and>
       elems s' = elems s \<union> set xs"
proof (induction xs arbitrary: s)
  case Nil
  then show ?case by simp
next
  case (Cons x xs)
  obtain s1 where s1: "add s x = Some (s1, x \<notin> elems s)" "inv s1" "elems s1 = insert x (elems s)"
    using add_law [OF Cons.prems(1), of x] Cons.prems(2) by auto
  have fin: "finite (elems s)" using Cons.prems(1) by (rule finite_elems)
  then have c1: "card (elems s1) = card (elems s) + (if x \<in> elems s then 0 else 1)"
    using s1(3) by (simp add: insert_absorb)
  then have "card (elems s1) + length xs \<le> cap" using Cons.prems(2) by (simp split: if_splits)
  then obtain s' where s': "add_all add s1 xs = Some (s', card (elems s') - card (elems s1))" "inv s'"
    "elems s' = elems s1 \<union> set xs"
    using Cons.IH [OF s1(2)] by blast
  have "card (elems s1) \<le> card (elems s')"
    using s'(3) finite_elems [OF s'(2)] by (intro card_mono) auto
  then show ?case
    using s1 s' c1 by (auto split: if_splits)
qed

lemma find_after_add_all:
  assumes "inv s" and "card (elems s) + length xs \<le> cap" and "add_all add s xs = Some (s', n)"
  shows "find s' x = Some (x \<in> elems s \<or> x \<in> set xs)"
  using add_all_law [OF assms(1,2)] assms(3) find_law by fastforce

lemma remove_undoes_add:
  assumes "inv s" and "card (elems s) < cap" and "x \<notin> elems s"
    and "add s x = Some (s1, b)" and "remove s1 x = Some (s2, b')"
  shows "b \<and> b' \<and> inv s2 \<and> elems s2 = elems s"
proof -
  from add_law [OF assms(1,2), of x] assms(3,4) have "b" "inv s1" "elems s1 = insert x (elems s)"
    by auto
  with remove_law [of s1 x] assms(3,5) show ?thesis by auto
qed

end

subsection \<open>Maps\<close>

text \<open>The operations of a dictionary as a client issues them, and their meaning on a map. A
  maintenance task (rehashing, resizing) has no effect a client can observe.\<close>

datatype ('k, 'v, 't) map_op = Add 'k 'v | Replace 'k 'v | Delete 'k | Fetch 'k | Task 't

datatype 'v map_reply = Flag bool | Found "'v option" | Done

fun spec_op :: "('k, 'v, 't) map_op \<Rightarrow> ('k \<rightharpoonup> 'v) \<Rightarrow> ('k \<rightharpoonup> 'v) \<times> 'v map_reply" where
  "spec_op (Add k v) m = (if m k = None then m(k \<mapsto> v) else m, Flag (m k = None))"
| "spec_op (Replace k v) m = (m(k \<mapsto> v), Flag (m k = None))"
| "spec_op (Delete k) m = (m(k := None), Flag (m k \<noteq> None))"
| "spec_op (Fetch k) m = (m, Found (m k))"
| "spec_op (Task t) m = (m, Done)"

primrec runs :: "('c \<Rightarrow> 'm \<Rightarrow> 'm \<times> 'r) \<Rightarrow> 'c list \<Rightarrow> 'm \<Rightarrow> 'm \<times> 'r list" where
  \<comment> \<open>a sequence of operations of a specification\<close>
  "runs spec [] m = (m, [])"
| "runs spec (c # cs) m =
     (let (m1, r) = spec c m; (m2, rs) = runs spec cs m1 in (m2, r # rs))"

abbreviation spec_run :: "('k, 'v, 't) map_op list \<Rightarrow> ('k \<rightharpoonup> 'v) \<Rightarrow> ('k \<rightharpoonup> 'v) \<times> 'v map_reply list" where
  "spec_run \<equiv> runs spec_op"

primrec run_ops :: "('s \<Rightarrow> 'c \<Rightarrow> ('s \<times> 'r) option) \<Rightarrow> 'c list \<Rightarrow> 's \<Rightarrow> ('s \<times> 'r list) option" where
  "run_ops exec [] s = Some (s, [])"
| "run_ops exec (c # cs) s = do {
     (s, r) \<leftarrow> exec s c;
     (s, rs) \<leftarrow> run_ops exec cs s;
     Some (s, r # rs) }"

text \<open>An implementation of a finite map under operations of any kind: as long as the capacity is
  not reached an admissible operation returns, gives the reply of the specification and keeps the
  invariant; an operation adds at most one key.\<close>

locale bounded_machine =
  fixes inv :: "'s \<Rightarrow> bool"
    and abs :: "'s \<Rightarrow> 'k \<rightharpoonup> 'v"
    and cap :: nat
    and ok :: "'c \<Rightarrow> bool"
    and exec :: "'s \<Rightarrow> 'c \<Rightarrow> ('s \<times> 'r) option"
    and spec :: "'c \<Rightarrow> ('k \<rightharpoonup> 'v) \<Rightarrow> ('k \<rightharpoonup> 'v) \<times> 'r"
  assumes finite_abs: "inv s \<Longrightarrow> finite (dom (abs s))"
    and exec_law: "inv s \<Longrightarrow> ok c \<Longrightarrow> card (dom (abs s)) < cap \<Longrightarrow>
      \<exists>s'. exec s c = Some (s', snd (spec c (abs s))) \<and> inv s' \<and> abs s' = fst (spec c (abs s))"
    and spec_card: "finite (dom m) \<Longrightarrow> card (dom (fst (spec c m))) \<le> Suc (card (dom m))"
begin

lemma run_ops_law:
  "inv s \<Longrightarrow> \<forall>c \<in> set cs. ok c \<Longrightarrow> card (dom (abs s)) + length cs \<le> cap \<Longrightarrow>
     \<exists>s'. run_ops exec cs s = Some (s', snd (runs spec cs (abs s))) \<and> inv s' \<and> abs s' = fst (runs spec cs (abs s))"
proof (induction cs arbitrary: s)
  case (Cons c cs)
  obtain s1 where s1: "exec s c = Some (s1, snd (spec c (abs s)))" "inv s1" "abs s1 = fst (spec c (abs s))"
    using exec_law [OF Cons.prems(1), of c] Cons.prems(2,3) by auto
  have "card (dom (abs s1)) + length cs \<le> cap"
    using spec_card [OF finite_abs [OF Cons.prems(1)], of c] s1(3) Cons.prems(3) by simp
  then obtain s2 where "run_ops exec cs s1 = Some (s2, snd (runs spec cs (abs s1)))" "inv s2"
    "abs s2 = fst (runs spec cs (abs s1))"
    using Cons.IH [OF s1(2)] Cons.prems(2) by auto
  then show ?case using s1 by (auto split: prod.splits)
qed simp

end

text \<open>A dictionary is such an implementation for the operations of a map.\<close>

lemma spec_op_card: "finite (dom m) \<Longrightarrow> card (dom (fst (spec_op c m))) \<le> Suc (card (dom m))"
  by (cases c) (auto intro: card_insert_le_m1 simp: card_insert_if le_SucI [OF card_mono] split: if_splits)

locale bounded_map =
  fixes inv :: "'s \<Rightarrow> bool"
    and abs :: "'s \<Rightarrow> 'k \<rightharpoonup> 'v"
    and cap :: nat
    and exec :: "'s \<Rightarrow> ('k, 'v, 't) map_op \<Rightarrow> ('s \<times> 'v map_reply) option"
  assumes finite_abs: "inv s \<Longrightarrow> finite (dom (abs s))"
    and exec_law: "inv s \<Longrightarrow> card (dom (abs s)) < cap \<Longrightarrow>
      \<exists>s'. exec s c = Some (s', snd (spec_op c (abs s))) \<and> inv s' \<and> abs s' = fst (spec_op c (abs s))"

sublocale bounded_map \<subseteq> machine: bounded_machine inv abs cap "\<lambda>_. True" exec spec_op
  by unfold_locales (auto intro: finite_abs exec_law spec_op_card)

context bounded_map
begin

lemma run_ops_law:
  "inv s \<Longrightarrow> card (dom (abs s)) + length cs \<le> cap \<Longrightarrow>
     \<exists>s'. run_ops exec cs s = Some (s', snd (spec_run cs (abs s))) \<and> inv s' \<and> abs s' = fst (spec_run cs (abs s))"
  by (rule machine.run_ops_law) simp_all

end

end
