(* ===== verification/Intset.thy ===== *)
theory Intset
  imports Endianconv Containers
begin

section \<open>Integer sets (intset.c)\<close>

text \<open>
  The byte-level model of the sorted integer array with 16, 32 or 64 bit elements. The
  header fields hold the stored (little endian) values, read through \<open>intrev32ifbe\<close>;
  \<open>contents\<close> is the flexible array member as a block of bytes. Every access is bounds
  checked; \<open>junk\<close> stands for the bytes realloc leaves uninitialised.
\<close>

record intset =
  encoding :: u32
  ilength :: u32
  contents :: "byte list"

definition INTSET_ENC_INT16 :: u32 where "INTSET_ENC_INT16 = 2"
definition INTSET_ENC_INT32 :: u32 where "INTSET_ENC_INT32 = 4"
definition INTSET_ENC_INT64 :: u32 where "INTSET_ENC_INT64 = 8"

definition priv_intsetValueEncoding :: "u64 \<Rightarrow> u32" where
  "priv_intsetValueEncoding v =
     (if sint v < - (2 ^ 31) \<or> sint v > 2 ^ 31 - 1 then INTSET_ENC_INT64
      else if sint v < - (2 ^ 15) \<or> sint v > 2 ^ 15 - 1 then INTSET_ENC_INT32
      else INTSET_ENC_INT16)"

definition priv_intsetGetEncoded :: "byte_order \<Rightarrow> intset \<Rightarrow> int \<Rightarrow> u32 \<Rightarrow> u64 option" where
  "priv_intsetGetEncoded he is pos enc =
     (if enc = INTSET_ENC_INT64 then do {
        bs \<leftarrow> mem_read (contents is) (8 * pos) 8;
        m \<leftarrow> memrev64ifbe he bs 0;
        Some (obj_value he m) }
      else if enc = INTSET_ENC_INT32 then do {
        bs \<leftarrow> mem_read (contents is) (4 * pos) 4;
        m \<leftarrow> memrev32ifbe he bs 0;
        Some (scast (obj_value he m :: u32)) }
      else do {
        bs \<leftarrow> mem_read (contents is) (2 * pos) 2;
        m \<leftarrow> memrev16ifbe he bs 0;
        Some (scast (obj_value he m :: u16)) })"

definition priv_intsetGet :: "byte_order \<Rightarrow> intset \<Rightarrow> int \<Rightarrow> u64 option" where
  "priv_intsetGet he is pos = priv_intsetGetEncoded he is pos (intrev32ifbe he (encoding is))"

definition priv_intsetSet :: "byte_order \<Rightarrow> intset \<Rightarrow> int \<Rightarrow> u64 \<Rightarrow> intset option" where
  "priv_intsetSet he is pos value =
     (let enc = intrev32ifbe he (encoding is) in
      if enc = INTSET_ENC_INT64 then do {
        m \<leftarrow> mem_write (contents is) (8 * pos) (obj_bytes he 8 value);
        m \<leftarrow> memrev64ifbe he m (nat (8 * pos));
        Some (is\<lparr>contents := m\<rparr>) }
      else if enc = INTSET_ENC_INT32 then do {
        m \<leftarrow> mem_write (contents is) (4 * pos) (obj_bytes he 4 (ucast value :: u32));
        m \<leftarrow> memrev32ifbe he m (nat (4 * pos));
        Some (is\<lparr>contents := m\<rparr>) }
      else do {
        m \<leftarrow> mem_write (contents is) (2 * pos) (obj_bytes he 2 (ucast value :: u16));
        m \<leftarrow> memrev16ifbe he m (nat (2 * pos));
        Some (is\<lparr>contents := m\<rparr>) })"

definition intsetNew :: "byte_order \<Rightarrow> intset" where
  "intsetNew he = \<lparr>encoding = intrev32ifbe he INTSET_ENC_INT16, ilength = 0, contents = []\<rparr>"

definition intsetResize :: "byte_order \<Rightarrow> (nat \<Rightarrow> byte) \<Rightarrow> intset \<Rightarrow> u32 \<Rightarrow> intset" where
  "intsetResize he junk is len =
     (let size = len * intrev32ifbe he (encoding is)
      in is\<lparr>contents := mem_resize junk (contents is) (unat size)\<rparr>)"

text \<open>The binary search loop: \<open>min\<close>, \<open>max\<close> and \<open>mid\<close> are C ints; the result is the
  values of \<open>(min, mid, cur)\<close> after the loop, or no result if the loop does not end or reads
  outside the array.\<close>

partial_function (option) intsetSearch_loop ::
  "byte_order \<Rightarrow> intset \<Rightarrow> u64 \<Rightarrow> int \<Rightarrow> int \<Rightarrow> int \<Rightarrow> u64 \<Rightarrow> (int \<times> int \<times> u64) option" where
  "intsetSearch_loop he is value mn mx mid cur =
     (if mx \<ge> mn then do {
        let mid = sint (drop_bit 1 (word_of_int mn + word_of_int mx :: u32));
        cur \<leftarrow> priv_intsetGet he is mid;
        if sint value > sint cur then intsetSearch_loop he is value (mid + 1) mx mid cur
        else if sint value < sint cur then intsetSearch_loop he is value mn (mid - 1) mid cur
        else Some (mn, mid, cur) }
      else Some (mn, mid, cur))"

definition intsetSearch :: "byte_order \<Rightarrow> intset \<Rightarrow> u64 \<Rightarrow> (bool \<times> u32) option" where
  "intsetSearch he is value =
     (let len = intrev32ifbe he (ilength is) in
      if len = 0 then Some (False, 0)
      else do {
        hi \<leftarrow> priv_intsetGet he is (sint (len - 1));
        if sint value > sint hi then Some (False, len)
        else do {
          lo \<leftarrow> priv_intsetGet he is 0;
          if sint value < sint lo then Some (False, 0)
          else do {
            (mn, mid, cur) \<leftarrow> intsetSearch_loop he is value 0 (sint (len - 1)) (- 1) (- 1);
            if value = cur then Some (True, word_of_int mid)
            else Some (False, word_of_int mn) } } })"

text \<open>\<open>while(length--) _intsetSet(is,length+prepend,_intsetGetEncoded(is,length,curenc))\<close>\<close>

primrec intsetUpgrade_loop :: "byte_order \<Rightarrow> u32 \<Rightarrow> int \<Rightarrow> nat \<Rightarrow> intset \<Rightarrow> intset option" where
  "intsetUpgrade_loop he curenc prepend 0 is = Some is"
| "intsetUpgrade_loop he curenc prepend (Suc n) is = do {
     v \<leftarrow> priv_intsetGetEncoded he is (int n) curenc;
     is \<leftarrow> priv_intsetSet he is (int n + prepend) v;
     intsetUpgrade_loop he curenc prepend n is }"

definition intsetUpgradeAndAdd :: "byte_order \<Rightarrow> (nat \<Rightarrow> byte) \<Rightarrow> intset \<Rightarrow> u64 \<Rightarrow> intset option" where
  "intsetUpgradeAndAdd he junk is value =
     (let curenc = intrev32ifbe he (encoding is);
          newenc = priv_intsetValueEncoding value;
          len = sint (intrev32ifbe he (ilength is));
          prepend = (if sint value < 0 then 1 else 0);
          is = is\<lparr>encoding := intrev32ifbe he newenc\<rparr>;
          is = intsetResize he junk is (intrev32ifbe he (ilength is) + 1)
      in if len < 0 then None \<comment> \<open>the loop starts below the array\<close>
      else do {
        is \<leftarrow> intsetUpgrade_loop he curenc prepend (nat len) is;
        is \<leftarrow> (if prepend = 1 then priv_intsetSet he is 0 value
               else priv_intsetSet he is (sint (intrev32ifbe he (ilength is))) value);
        Some (is\<lparr>ilength := intrev32ifbe he (intrev32ifbe he (ilength is) + 1)\<rparr>) })"

definition intsetMoveTail :: "byte_order \<Rightarrow> intset \<Rightarrow> u32 \<Rightarrow> u32 \<Rightarrow> intset option" where
  "intsetMoveTail he is from to =
     (let bytes = intrev32ifbe he (ilength is) - from;
          enc = intrev32ifbe he (encoding is);
          sz = (if enc = INTSET_ENC_INT64 then 8 else if enc = INTSET_ENC_INT32 then 4 else 2)
      in do {
        m \<leftarrow> mem_move (contents is) (uint to * sz) (uint from * sz) (unat (bytes * word_of_int sz));
        Some (is\<lparr>contents := m\<rparr>) })"

definition intsetAdd :: "byte_order \<Rightarrow> (nat \<Rightarrow> byte) \<Rightarrow> intset \<Rightarrow> u64 \<Rightarrow> (intset \<times> bool) option" where
  "intsetAdd he junk is value =
     (let valenc = priv_intsetValueEncoding value in
      if valenc > intrev32ifbe he (encoding is) then do {
        is \<leftarrow> intsetUpgradeAndAdd he junk is value;
        Some (is, True) }
      else do {
        (found, pos) \<leftarrow> intsetSearch he is value;
        if found then Some (is, False)
        else do {
          let is = intsetResize he junk is (intrev32ifbe he (ilength is) + 1);
          is \<leftarrow> (if pos < intrev32ifbe he (ilength is) then intsetMoveTail he is pos (pos + 1) else Some is);
          is \<leftarrow> priv_intsetSet he is (sint pos) value;
          Some (is\<lparr>ilength := intrev32ifbe he (intrev32ifbe he (ilength is) + 1)\<rparr>, True) } })"

definition intsetRemove :: "byte_order \<Rightarrow> (nat \<Rightarrow> byte) \<Rightarrow> intset \<Rightarrow> u64 \<Rightarrow> (intset \<times> bool) option" where
  "intsetRemove he junk is value =
     (let valenc = priv_intsetValueEncoding value in
      if valenc \<le> intrev32ifbe he (encoding is) then do {
        (found, pos) \<leftarrow> intsetSearch he is value;
        if found then do {
          let len = intrev32ifbe he (ilength is);
          is \<leftarrow> (if pos < len - 1 then intsetMoveTail he is (pos + 1) pos else Some is);
          let is = intsetResize he junk is (len - 1);
          Some (is\<lparr>ilength := intrev32ifbe he (len - 1)\<rparr>, True) }
        else Some (is, False) }
      else Some (is, False))"

definition intsetFind :: "byte_order \<Rightarrow> intset \<Rightarrow> u64 \<Rightarrow> bool option" where
  "intsetFind he is value =
     (if priv_intsetValueEncoding value \<le> intrev32ifbe he (encoding is)
      then map_option fst (intsetSearch he is value) else Some False)"

definition intsetRandom :: "byte_order \<Rightarrow> u32 \<Rightarrow> intset \<Rightarrow> u64 option" where
  \<comment> \<open>\<open>rnd\<close> is what rand() returns\<close>
  "intsetRandom he rnd is =
     (let len = intrev32ifbe he (ilength is)
      in if len = 0 then None else priv_intsetGet he is (sint (rnd mod len)))"

definition intsetGet :: "byte_order \<Rightarrow> intset \<Rightarrow> u32 \<Rightarrow> u64 option option" where
  \<comment> \<open>\<open>Some None\<close> is the return value 0, \<open>None\<close> an access outside the array\<close>
  "intsetGet he is pos =
     (if pos < intrev32ifbe he (ilength is) then map_option Some (priv_intsetGet he is (sint pos))
      else Some None)"

definition intsetLen :: "byte_order \<Rightarrow> intset \<Rightarrow> u32" where
  "intsetLen he is = intrev32ifbe he (ilength is)"

definition intsetBlobLen :: "byte_order \<Rightarrow> intset \<Rightarrow> u64" where
  \<comment> \<open>sizeof(intset) is 8; the product is computed in uint32_t\<close>
  "intsetBlobLen he is = 8 + ucast (intrev32ifbe he (ilength is) * intrev32ifbe he (encoding is))"

subsection \<open>Elements as chunks of bytes\<close>

definition enc_ok :: "nat \<Rightarrow> bool" where
  "enc_ok e \<longleftrightarrow> e = 2 \<or> e = 4 \<or> e = 8"

definition fits :: "nat \<Rightarrow> int \<Rightarrow> bool" where
  "fits e x \<longleftrightarrow> - (2 ^ (8 * e - 1)) \<le> x \<and> x < 2 ^ (8 * e - 1)"

definition chunk :: "nat \<Rightarrow> int \<Rightarrow> byte list" where
  "chunk e x = le_encode e (word_of_int x :: u64)"

definition dechunk :: "nat \<Rightarrow> byte list \<Rightarrow> u64" where
  "dechunk e bs = (if e = 8 then le_decode bs else if e = 4 then scast (le_decode bs :: u32)
     else scast (le_decode bs :: u16))"

lemma length_chunk [simp]: "length (chunk e x) = e"
  by (simp add: chunk_def)

lemma dechunk_chunk: "enc_ok e \<Longrightarrow> fits e x \<Longrightarrow> dechunk e (chunk e x) = word_of_int x"
  unfolding enc_ok_def dechunk_def chunk_def
  by (elim disjE)
     (simp_all add: le_decode_encode_ucast ucast_down_wi is_down scast_eq_word_of_int sint_word_of_int_id fits_def)

lemma chunk_dechunk: "enc_ok e \<Longrightarrow> length bs = e \<Longrightarrow> chunk e (sint (dechunk e bs)) = bs"
proof -
  have *: "le_encode 2 (scast w :: u64) = le_encode 2 w" for w :: u16
    by (rule nth_equalityI)
       (auto intro!: bit_word_eqI simp: nth_le_encode bit_ucast_iff bit_drop_bit_eq bit_signed_iff)
  have **: "le_encode 4 (scast w :: u64) = le_encode 4 w" for w :: u32
    by (rule nth_equalityI)
       (auto intro!: bit_word_eqI simp: nth_le_encode bit_ucast_iff bit_drop_bit_eq bit_signed_iff)
  assume "enc_ok e" "length bs = e"
  then show ?thesis
    unfolding enc_ok_def dechunk_def chunk_def
    by (elim disjE) (simp_all add: * ** le_encode_decode)
qed

lemma fits_dechunk: "enc_ok e \<Longrightarrow> length bs = e \<Longrightarrow> fits e (sint (dechunk e bs))"
  unfolding enc_ok_def dechunk_def fits_def
  using sint_greater_eq [of "le_decode bs :: u16"] sint_less [of "le_decode bs :: u16"]
    sint_greater_eq [of "le_decode bs :: u32"] sint_less [of "le_decode bs :: u32"]
    sint_greater_eq [of "le_decode bs :: u64"] sint_less [of "le_decode bs :: u64"]
  by (elim disjE) (simp_all add: sint_up_scast is_up)

lemma fits_mono: "fits e x \<Longrightarrow> e \<le> e' \<Longrightarrow> fits e' x"
proof -
  assume "fits e x" "e \<le> e'"
  moreover from \<open>e \<le> e'\<close> have "(2::int) ^ (8 * e - 1) \<le> 2 ^ (8 * e' - 1)"
    by (intro power_increasing) auto
  ultimately show "fits e' x" unfolding fits_def by linarith
qed

lemma fits8_sint: "fits 8 x \<Longrightarrow> sint (word_of_int x :: u64) = x"
  by (simp add: fits_def sint_word_of_int_id)

lemma sint_chunk: "enc_ok e \<Longrightarrow> fits e x \<Longrightarrow> sint (word_of_int x :: u64) = x"
  by (rule fits8_sint, rule fits_mono) (auto simp: enc_ok_def)

lemma value_encoding: "enc_ok e \<Longrightarrow> priv_intsetValueEncoding v \<le> of_nat e \<longleftrightarrow> fits e (sint v)"
  using sint_greater_eq [of v] sint_less [of v]
  by (auto simp: enc_ok_def priv_intsetValueEncoding_def fits_def
       INTSET_ENC_INT16_def INTSET_ENC_INT32_def INTSET_ENC_INT64_def word_le_nat_alt)

lemma value_encoding_ok: "\<exists>e. enc_ok e \<and> priv_intsetValueEncoding v = of_nat e \<and> fits e (sint v)"
proof -
  have "enc_ok 2" "enc_ok 4" "enc_ok 8" "fits 8 (sint v)"
    using sint_greater_eq [of v] sint_less [of v] by (simp_all add: enc_ok_def fits_def)
  moreover have "priv_intsetValueEncoding v = of_nat 8 \<or>
      priv_intsetValueEncoding v = of_nat 4 \<and> fits 4 (sint v) \<or>
      priv_intsetValueEncoding v = of_nat 2 \<and> fits 2 (sint v)"
    by (simp add: priv_intsetValueEncoding_def fits_def
       INTSET_ENC_INT16_def INTSET_ENC_INT32_def INTSET_ENC_INT64_def)
  ultimately show ?thesis by blast
qed

subsection \<open>Single element access\<close>

lemma get_encoded:
  assumes "enc_ok e" and "i * e + e \<le> length (contents is)"
  shows "priv_intsetGetEncoded he is (int i) (of_nat e) =
    Some (dechunk e (take e (drop (i * e) (contents is))))"
proof -
  let ?bs = "take e (drop (i * e) (contents is))"
  have read: "mem_read (contents is) (int e * int i) e = Some ?bs"
    using assms mem_read_Some [of "i * e" e "contents is"] by (simp add: mult.commute)
  have len: "length ?bs = e" using assms by simp
  show ?thesis
    using assms(1) read memrevifbe_Some [of ?bs he] memrevifbe_read [of ?bs he] len
    unfolding enc_ok_def priv_intsetGetEncoded_def INTSET_ENC_INT64_def INTSET_ENC_INT32_def dechunk_def
    by auto
qed

lemma set_at:
  assumes "enc_ok e" and "intrev32ifbe he (encoding is) = of_nat e"
    and "i * e + e \<le> length (contents is)"
  shows "priv_intsetSet he is (int i) v =
    Some (is\<lparr>contents := take (i * e) (contents is) @ chunk e (sint v) @ drop (i * e + e) (contents is)\<rparr>)"
proof -
  let ?m = "contents is"
  have w: "mem_write ?m (int e * int i) bs = Some (take (i * e) ?m @ bs @ drop (i * e + e) ?m)"
    if "length bs = e" for bs
    using that assms mem_write_Some [of "i * e" bs ?m] by (simp add: mult.commute)
  have l: "length (take (i * e) ?m) = i * e" using assms by simp
  have off: "nat (int e * int i) = i * e" by (simp add: nat_mult_distrib mult.commute)
  have "take (i * e) ?m @ obj_bytes he 2 (ucast v :: u16) @ drop (i * e + e) ?m =
      take (i * e) ?m @ obj_bytes he 2 (ucast v :: u16) @ drop (i * e + e) ?m" ..
  show ?thesis
    using assms(1,2) w [of "obj_bytes he e v"] w [of "obj_bytes he 2 (ucast v :: u16)"]
      w [of "obj_bytes he 4 (ucast v :: u32)"] off
      memrevifbe_obj_bytes(1) [of he "take (i * e) ?m" "ucast v :: u16" "drop (i * e + e) ?m", unfolded l]
      memrevifbe_obj_bytes(2) [of he "take (i * e) ?m" "ucast v :: u32" "drop (i * e + e) ?m", unfolded l]
      memrevifbe_obj_bytes(3) [of he "take (i * e) ?m" v "drop (i * e + e) ?m", unfolded l]
    unfolding enc_ok_def priv_intsetSet_def INTSET_ENC_INT64_def INTSET_ENC_INT32_def chunk_def
    by (auto simp: le_encode_cong_ucast)
qed

subsection \<open>The abstract contents\<close>

definition intset_elems :: "byte_order \<Rightarrow> intset \<Rightarrow> int list" where
  "intset_elems he is =
     map (\<lambda>i. case priv_intsetGet he is (int i) of Some v \<Rightarrow> sint v | None \<Rightarrow> 0)
       [0..<unat (intsetLen he is)]"

definition intset_ok :: "byte_order \<Rightarrow> intset \<Rightarrow> bool" where
  "intset_ok he is \<longleftrightarrow>
     (let e = unat (intrev32ifbe he (encoding is)); n = unat (intsetLen he is) in
      enc_ok e \<and> length (contents is) = n * e \<and> n * e < 2 ^ 32 \<and>
      sorted_wrt (<) (intset_elems he is))"

definition intset_rep :: "byte_order \<Rightarrow> intset \<Rightarrow> nat \<Rightarrow> int list \<Rightarrow> bool" where
  "intset_rep he is e xs \<longleftrightarrow>
     enc_ok e \<and> intrev32ifbe he (encoding is) = of_nat e \<and>
     intrev32ifbe he (ilength is) = of_nat (length xs) \<and>
     contents is = concat (map (chunk e) xs) \<and> (\<forall>x\<in>set xs. fits e x) \<and> length xs * e < 2 ^ 32"

lemma enc_ok_bounds: "enc_ok e \<Longrightarrow> 2 \<le> e \<and> e \<le> 8"
  by (auto simp: enc_ok_def)

lemma rep_length_bound: "intset_rep he is e xs \<Longrightarrow> length xs < 2 ^ 31"
  by (auto simp: intset_rep_def enc_ok_def)

lemma rep_get:
  assumes "intset_rep he is e xs" and "i < length xs"
  shows "priv_intsetGet he is (int i) = Some (word_of_int (xs ! i))"
proof -
  from assms have e: "enc_ok e" "intrev32ifbe he (encoding is) = of_nat e" "fits e (xs ! i)"
    and c: "contents is = concat (map (chunk e) xs)"
    by (auto simp: intset_rep_def)
  have "Suc i * e \<le> length xs * e" using assms(2) by (intro mult_le_mono1) simp
  then have "i * e + e \<le> length (contents is)"
    by (simp add: c length_concat_chunks [where e = e] add.commute)
  moreover have "take e (drop (i * e) (contents is)) = chunk e (xs ! i)"
    using read_chunk [of xs "chunk e" e i "[]"] assms(2) by (simp add: c)
  ultimately show ?thesis
    using e by (simp add: priv_intsetGet_def get_encoded dechunk_chunk)
qed

lemma rep_sint: "intset_rep he is e xs \<Longrightarrow> i < length xs \<Longrightarrow> sint (word_of_int (xs ! i) :: u64) = xs ! i"
  by (auto simp: intset_rep_def intro!: sint_chunk)

lemma rep_len: "intset_rep he is e xs \<Longrightarrow> unat (intsetLen he is) = length xs"
  using rep_length_bound [of he "is" e xs]
  by (simp add: intsetLen_def intset_rep_def unat_of_nat32)

lemma rep_elems: "intset_rep he is e xs \<Longrightarrow> intset_elems he is = xs"
  by (rule nth_equalityI) (simp_all add: intset_elems_def rep_len rep_get rep_sint)

lemma rep_ok: "intset_rep he is e xs \<Longrightarrow> sorted_wrt (<) xs \<Longrightarrow> intset_ok he is"
  using enc_ok_bounds [of e]
  by (auto simp: intset_ok_def rep_elems rep_len, auto simp: intset_rep_def unat_of_nat32 length_concat_chunks)

lemma ok_rep:
  assumes "intset_ok he is"
  obtains e where "intset_rep he is e (intset_elems he is)" "sorted_wrt (<) (intset_elems he is)"
    "e = unat (intrev32ifbe he (encoding is))"
proof -
  define e where "e = unat (intrev32ifbe he (encoding is))"
  define n where "n = unat (intsetLen he is)"
  define c where "c i = take e (drop (i * e) (contents is))" for i
  from assms have e: "enc_ok e" "length (contents is) = n * e" "n * e < 2 ^ 32"
    "sorted_wrt (<) (intset_elems he is)"
    by (simp_all add: intset_ok_def Let_def e_def n_def)
  have enc: "intrev32ifbe he (encoding is) = of_nat e" by (simp add: e_def)
  have fit: "i * e + e \<le> length (contents is)" if "i < n" for i
    using mult_le_mono1 [of "Suc i" n e] that e(2) by (simp add: add.commute)
  have len: "length (c i) = e" if "i < n" for i
    using fit [OF that] by (simp add: c_def)
  have elems: "intset_elems he is = map (\<lambda>i. sint (dechunk e (c i))) [0..<n]"
    using e(1) fit
    by (auto simp: intset_elems_def n_def [symmetric] priv_intsetGet_def enc get_encoded c_def)
  have "contents is = concat (map c [0..<n])"
  proof -
    have "take (k * e) (contents is) = concat (map c [0..<k])" if "k \<le> n" for k
      using that
    proof (induction k)
      case (Suc k)
      have "Suc k * e = k * e + e" by simp
      then have "take (Suc k * e) (contents is) = take (k * e) (contents is) @ c k"
        by (simp only: c_def take_add)
      with Suc show ?case by simp
    qed simp
    from this [of n] e(2) show ?thesis by simp
  qed
  also have "\<dots> = concat (map (chunk e) (intset_elems he is))"
    using e(1) len by (auto simp: elems chunk_dechunk intro!: arg_cong [where f = concat])
  finally have "intset_rep he is e (intset_elems he is)"
    using e(1,3) enc len
    by (auto simp: intset_rep_def elems fits_dechunk n_def intsetLen_def)
  then show thesis using that e(4) e_def by blast
qed

subsection \<open>Search\<close>

definition mid32 :: "int \<Rightarrow> int \<Rightarrow> int" where
  "mid32 mn mx = sint (drop_bit 1 (word_of_int mn + word_of_int mx :: u32))"

lemma mid32_eq:
  assumes "0 \<le> mn" "mn \<le> mx" "mx < 2 ^ 31"
  shows "mid32 mn mx = (mn + mx) div 2"
proof -
  have "uint (word_of_int mn :: u32) = mn" "uint (word_of_int mx :: u32) = mx"
    using assms by (simp_all add: uint_word_of_int_id)
  then have "uint (word_of_int mn + word_of_int mx :: u32) = mn + mx"
    using assms by (simp add: uint_word_ariths)
  then have "uint (drop_bit 1 (word_of_int mn + word_of_int mx :: u32)) = (mn + mx) div 2"
    by (simp add: drop_bit_eq_div uint_div)
  then have "(drop_bit 1 (word_of_int mn + word_of_int mx :: u32)) = word_of_int ((mn + mx) div 2)"
    by (metis word_of_int_uint)
  then show ?thesis unfolding mid32_def
    using assms by (simp add: sint_word_of_int_id)
qed

lemma search_loop:
  assumes rep: "intset_rep he is e xs" and sorted: "sorted_wrt (<) xs"
    and "0 \<le> mn" "mx < int (length xs)" "mn \<le> mx \<or> cur \<noteq> value" "mn \<le> mx + 1"
    and "\<And>i. i < nat mn \<Longrightarrow> xs ! i < sint value"
    and "\<And>i. int i > mx \<Longrightarrow> i < length xs \<Longrightarrow> sint value < xs ! i"
  shows "\<exists>mn' mid' cur'. intsetSearch_loop he is value mn mx mid cur = Some (mn', mid', cur') \<and>
    (if value = cur' then 0 \<le> mid' \<and> nat mid' < length xs \<and> xs ! nat mid' = sint value
     else 0 \<le> mn' \<and> nat mn' \<le> length xs \<and> (\<forall>i < nat mn'. xs ! i < sint value) \<and>
       (\<forall>i < length xs. nat mn' \<le> i \<longrightarrow> sint value < xs ! i))"
  using assms(3-)
proof (induction "nat (mx + 1 - mn)" arbitrary: mn mx mid cur rule: less_induct)
  case less
  show ?case
  proof (cases "mn \<le> mx")
    case False
    with less.prems show ?thesis
      by (subst intsetSearch_loop.simps) auto
  next
    case True
    define m where "m = (mn + mx) div 2"
    have len: "length xs < 2 ^ 31" using rep by (rule rep_length_bound)
    have mid: "sint (drop_bit 1 (word_of_int mn + word_of_int mx :: u32)) = m"
      using mid32_eq [of mn mx] less.prems True len by (simp add: mid32_def m_def)
    have m: "mn \<le> m" "m \<le> mx" "0 \<le> m" using True less.prems by (auto simp: m_def)
    then have mlen: "nat m < length xs" using less.prems(2) by linarith
    have get: "priv_intsetGet he is m = Some (word_of_int (xs ! nat m))"
      using rep_get [OF rep mlen] m by simp
    have sx: "sint (word_of_int (xs ! nat m) :: u64) = xs ! nat m" using rep_sint [OF rep mlen] .
    have mono: "xs ! i < xs ! j" if "i < j" "j < length xs" for i j
      using sorted_wrt_nth_less [OF sorted that] .
    consider "xs ! nat m < sint value" | "sint value < xs ! nat m" | "sint value = xs ! nat m"
      by linarith
    then show ?thesis
    proof cases
      case 1
      have eq: "intsetSearch_loop he is value mn mx mid cur =
          intsetSearch_loop he is value (m + 1) mx m (word_of_int (xs ! nat m))"
        using True 1 get sx by (subst intsetSearch_loop.simps) (simp add: mid [simplified])
      have lo: "xs ! i < sint value" if "i < nat (m + 1)" for i
        using that 1 mono [of i "nat m"] mlen m by (cases "i = nat m") force+
      have "word_of_int (xs ! nat m) \<noteq> value" using 1 sx by auto
      then show ?thesis unfolding eq
        using less.prems m lo by (intro less.hyps) auto
    next
      case 2
      have eq: "intsetSearch_loop he is value mn mx mid cur =
          intsetSearch_loop he is value mn (m - 1) m (word_of_int (xs ! nat m))"
        using True 2 get sx by (subst intsetSearch_loop.simps) (simp add: mid [simplified])
      have hi: "sint value < xs ! i" if "int i > m - 1" "i < length xs" for i
        using that 2 mono [of "nat m" i] mlen m by (cases "i = nat m") force+
      have "word_of_int (xs ! nat m) \<noteq> value" using 2 sx by auto
      then show ?thesis unfolding eq
        using less.prems m hi by (intro less.hyps) auto
    next
      case 3
      have "value = word_of_int (xs ! nat m)"
        by (simp flip: 3)
      then show ?thesis
        using True 3 get sx m mlen by (subst intsetSearch_loop.simps) (simp add: mid [simplified])
    qed
  qed
qed

lemma search_correct:
  assumes rep: "intset_rep he is e xs" and sorted: "sorted_wrt (<) xs"
  shows "\<exists>pos. intsetSearch he is value = Some (sint value \<in> set xs, of_nat pos) \<and>
    (if sint value \<in> set xs then pos < length xs \<and> xs ! pos = sint value
     else pos \<le> length xs \<and> (\<forall>i < pos. xs ! i < sint value) \<and>
       (\<forall>i < length xs. pos \<le> i \<longrightarrow> sint value < xs ! i))"
proof (cases "xs = []")
  case True
  with rep show ?thesis by (auto simp: intsetSearch_def intset_rep_def)
next
  case False
  define n where "n = length xs"
  have n: "0 < n" "n < 2 ^ 31" using False rep_length_bound [OF rep] by (auto simp: n_def)
  have len: "intrev32ifbe he (ilength is) = of_nat n" using rep by (simp add: intset_rep_def n_def)
  have len0: "(of_nat n :: u32) \<noteq> 0" using n unat_of_nat32 [of n] by auto
  have last: "sint (of_nat n - 1 :: u32) = int n - 1"
    using n sint_of_nat32 [of "n - 1"] by simp
  have mono: "xs ! i < xs ! j" if "i < j" "j < n" for i j
    using sorted_wrt_nth_less [OF sorted that(1)] that(2) by (simp add: n_def)
  have hi: "priv_intsetGet he is (int n - 1) = Some (word_of_int (xs ! (n - 1)))"
    using rep_get [OF rep, of "n - 1"] n by (simp add: n_def)
  have lo: "priv_intsetGet he is 0 = Some (word_of_int (xs ! 0))"
    using rep_get [OF rep, of 0] n by (simp add: n_def)
  have s: "sint (word_of_int (xs ! (n - 1)) :: u64) = xs ! (n - 1)" "sint (word_of_int (xs ! 0) :: u64) = xs ! 0"
    using rep_sint [OF rep] n by (simp_all add: n_def)
  consider (above) "sint value > xs ! (n - 1)" | (below) "\<not> sint value > xs ! (n - 1)" "sint value < xs ! 0"
    | (inside) "\<not> sint value > xs ! (n - 1)" "\<not> sint value < xs ! 0" by blast
  then show ?thesis
  proof cases
    case above
    have *: "xs ! i < sint value" if "i < n" for i
      using mono [of i "n - 1"] above that by (cases "i = n - 1") force+
    then have "sint value \<notin> set xs" by (force simp: in_set_conv_nth n_def)
    with above * show ?thesis
      by (auto simp: intsetSearch_def len len0 last hi s [simplified] n_def [symmetric] intro!: exI [of _ n])
  next
    case below
    have *: "sint value < xs ! i" if "i < n" for i
      using mono [of 0 i] below that by (cases "i = 0") force+
    then have "sint value \<notin> set xs" by (force simp: in_set_conv_nth n_def)
    with below * show ?thesis
      by (auto simp: intsetSearch_def len len0 last hi lo s [simplified] n_def [symmetric] intro!: exI [of _ 0])
  next
    case inside
    obtain mn' mid' cur' where loop:
      "intsetSearch_loop he is value 0 (int n - 1) (- 1) (- 1) = Some (mn', mid', cur')"
      and post: "if value = cur' then 0 \<le> mid' \<and> nat mid' < length xs \<and> xs ! nat mid' = sint value
         else 0 \<le> mn' \<and> nat mn' \<le> length xs \<and> (\<forall>i < nat mn'. xs ! i < sint value) \<and>
           (\<forall>i < length xs. nat mn' \<le> i \<longrightarrow> sint value < xs ! i)"
      using search_loop [OF rep sorted, of 0 "int n - 1" "- 1" "value" "- 1"] n by (auto simp: n_def)
    have S: "intsetSearch he is value =
        Some (if value = cur' then (True, word_of_int mid') else (False, word_of_int mn'))"
      using inside by (simp add: intsetSearch_def len len0 last hi lo s [simplified] loop)
    show ?thesis
    proof (cases "value = cur'")
      case True
      with post have "sint value \<in> set xs" by (metis nth_mem)
      with True post S show ?thesis by (auto intro!: exI [of _ "nat mid'"])
    next
      case False
      with post have "sint value \<notin> set xs"
        by (metis in_set_conv_nth not_le order.irrefl)
      with False post S show ?thesis by (auto intro!: exI [of _ "nat mn'"])
    qed
  qed
qed

subsection \<open>Insertion and removal\<close>

abbreviation chunks :: "nat \<Rightarrow> int list \<Rightarrow> byte list" where
  "chunks e xs \<equiv> concat (map (chunk e) xs)"

lemma length_chunks [simp]: "length (chunks e xs) = length xs * e"
  by (simp add: length_concat_chunks)

lemma resize_contents:
  assumes "intrev32ifbe he (encoding is) = of_nat e" and "n * e < 2 ^ 32"
  shows "intsetResize he junk is (of_nat n) = is\<lparr>contents := mem_resize junk (contents is) (n * e)\<rparr>"
  using assms by (simp add: intsetResize_def of_nat_mult_unat32)

lemma move_tail:
  assumes "enc_ok e" and "intrev32ifbe he (encoding is) = of_nat e"
    and "intrev32ifbe he (ilength is) = of_nat n" "n * e < 2 ^ 32" "from \<le> n" "to * e < 2 ^ 32"
  shows "intsetMoveTail he is (of_nat from) (of_nat to) =
    map_option (\<lambda>m. is\<lparr>contents := m\<rparr>) (mem_move (contents is) (int (to * e)) (int (from * e)) ((n - from) * e))"
proof -
  let ?sz = "if (of_nat e :: u32) = 8 then 8 else if (of_nat e :: u32) = 4 then 4 else (2::int)"
  have sz: "?sz = int e" using assms(1) by (auto simp: enc_ok_def)
  have "k \<le> k * e" for k using assms(1) by (auto simp: enc_ok_def)
  from this [of n] this [of to] have "from < 2 ^ 32" "to < 2 ^ 32" "n < 2 ^ 32"
    using assms(4,5,6) by linarith+
  then have u: "uint (of_nat from :: u32) = int from" "uint (of_nat to :: u32) = int to"
    by (simp_all add: uint_nat unat_of_nat32)
  have "(n - from) * e < 2 ^ 32" using assms(4) by (meson diff_le_self le_less_trans mult_le_mono1)
  then have "unat (of_nat (n - from) * of_nat e :: u32) = (n - from) * e" by (rule of_nat_mult_unat32)
  then have "unat ((of_nat n - of_nat from) * word_of_int (int e) :: u32) = (n - from) * e"
    using assms(5) by simp
  then show ?thesis
    unfolding intsetMoveTail_def Let_def INTSET_ENC_INT64_def INTSET_ENC_INT32_def assms(2,3) sz u
    by (cases "mem_move (contents is) (int (to * e)) (int (from * e)) ((n - from) * e)") simp_all
qed

lemma insert_bytes:
  assumes "length J = length c" "B \<noteq> []"
  shows "mem_move (A @ B @ J) (int (length A + length c)) (int (length A)) (length B) =
    Some (take (length A + length c) (A @ B @ J) @ B)"
  using assms by (simp add: mem_move_def mem_read_def mem_write_def flip: of_nat_add)

lemma remove_bytes:
  "mem_move (A @ c @ B) (int (length A)) (int (length A + length c)) (length B) =
    Some (A @ B @ drop (length B) (c @ B))"
  by (simp add: mem_move_def mem_read_def mem_write_def flip: of_nat_add)

lemma set_chunk_at:
  assumes "enc_ok e" "intrev32ifbe he (encoding is) = of_nat e" "length xs < 2 ^ 31"
    "contents is = m" "length m = length xs * e + e + length B"
    "take (length xs * e) m = chunks e xs" "drop (length xs * e + e) m = B"
  shows "priv_intsetSet he is (sint (of_nat (length xs) :: u32)) v =
    Some (is\<lparr>contents := chunks e xs @ chunk e (sint v) @ B\<rparr>)"
  using assms set_at [of e he "is" "length xs" v] by (simp add: sint_of_nat32)


lemma intrev32ifbe_eq_iff: "intrev32ifbe he a = intrev32ifbe he b \<longleftrightarrow> a = b"
  by (metis intrev32ifbe_twice)

lemma add_in_place:
  assumes rep: "intset_rep he is e xs" and size: "(length xs + 1) * e < 2 ^ 32"
    and fit: "fits e (sint v)" and pos: "pos \<le> length xs"
    and search: "intsetSearch he is v = Some (False, of_nat pos)"
  shows "\<exists>is'. intsetAdd he junk is v = Some (is', True) \<and>
    intset_rep he is' e (take pos xs @ sint v # drop pos xs)"
proof -
  define n A B J where "n = length xs" and "A = chunks e (take pos xs)" and "B = chunks e (drop pos xs)"
    and "J = map junk [length xs * e..<(length xs + 1) * e]"
  let ?c = "chunk e (sint v)"
  from rep have e: "enc_ok e" "intrev32ifbe he (encoding is) = of_nat e"
    "intrev32ifbe he (ilength is) = of_nat n" and cont: "contents is = A @ B"
    by (simp_all add: intset_rep_def n_def A_def B_def flip: concat_append map_append)
  have n: "n < 2 ^ 31" using rep_length_bound [OF rep] by (simp add: n_def)
  have lA: "length A = pos * e" and lB: "length B = (n - pos) * e" and lJ: "length J = e"
    using pos by (simp_all add: A_def B_def J_def n_def)
  have venc: "\<not> priv_intsetValueEncoding v > of_nat e"
    using value_encoding [OF e(1)] fit by (simp add: not_less)
  define is1 where "is1 = intsetResize he junk is (of_nat n + 1)"
  have is1: "is1 = is\<lparr>contents := A @ B @ J\<rparr>"
    using resize_contents [OF e(2), of "n + 1" junk] size cont
    by (simp add: is1_def n_def mem_resize_grow J_def A_def B_def add.commute
        flip: concat_append map_append)
  define is2 where "is2 = (if pos < n then is1\<lparr>contents := take (length A + e) (A @ B @ J) @ B\<rparr> else is1)"
  have move: "(if of_nat pos < (of_nat n :: u32) then intsetMoveTail he is1 (of_nat pos) (of_nat pos + 1)
      else Some is1) = Some is2"
  proof -
    have lt: "of_nat pos < (of_nat n :: u32) \<longleftrightarrow> pos < n"
      using n pos by (simp add: word_less_nat_alt unat_of_nat32 n_def)
    have "(pos + 1) * e \<le> (length xs + 1) * e" using pos by (intro mult_le_mono1) simp
    then have bnd2: "(pos + 1) * e < 2 ^ 32" using size by (rule le_less_trans)
    have bnd: "n * e < 2 ^ 32" using size by (simp add: n_def)
    show ?thesis
    proof (cases "pos < n")
      case True
      then have "B \<noteq> []" using lB e(1) by (auto simp: enc_ok_def)
      then have "intsetMoveTail he is1 (of_nat pos) (of_nat (pos + 1)) = Some is2"
        using move_tail [OF e(1), of he is1 n pos "pos + 1"] e bnd bnd2 True
          insert_bytes [of J ?c B A] lA lB lJ
        by (simp add: is1 is2_def add.commute)
      with True lt show ?thesis by (simp add: add.commute)
    qed (simp add: lt is2_def)
  qed
  have c2: "length (contents is2) = pos * e + e + length B"
    "take (pos * e) (contents is2) = A" "drop (pos * e + e) (contents is2) = B"
    using lA lB lJ pos by (auto simp: is2_def is1 n_def)
  have "length (take pos xs) = pos" using pos by (simp add: n_def)
  then have set: "priv_intsetSet he is2 (sint (of_nat pos :: u32)) v =
      Some (is2\<lparr>contents := A @ ?c @ B\<rparr>)"
    using set_chunk_at [OF e(1), of he is2 "take pos xs" "contents is2" B v] c2 e(2) n pos
    by (simp add: A_def is2_def is1 n_def)
  define is3 where "is3 = is\<lparr>contents := A @ ?c @ B, ilength := intrev32ifbe he (of_nat n + 1)\<rparr>"
  have "is2\<lparr>contents := A @ ?c @ B, ilength := intrev32ifbe he (intrev32ifbe he (ilength is2) + 1)\<rparr> = is3"
    by (simp add: is3_def is2_def is1 e(3))
  moreover have "intrev32ifbe he (ilength is1) = of_nat n" by (simp add: is1 e(3))
  ultimately have "intsetAdd he junk is v = Some (is3, True)"
    using venc search move set
    by (simp add: intsetAdd_def e is1_def [symmetric] Let_def)
  moreover have "intset_rep he is3 e (take pos xs @ sint v # drop pos xs)"
    using rep size fit pos
    by (auto simp: intset_rep_def is3_def A_def B_def n_def dest: in_set_takeD in_set_dropD)
  ultimately show ?thesis by blast
qed

lemma remove_at:
  assumes rep: "intset_rep he is e xs" and fit: "fits e (sint v)" and pos: "pos < length xs"
    and search: "intsetSearch he is v = Some (True, of_nat pos)"
  shows "\<exists>is'. intsetRemove he junk is v = Some (is', True) \<and>
    intset_rep he is' e (take pos xs @ drop (Suc pos) xs)"
proof -
  define n A B where "n = length xs" and "A = chunks e (take pos xs)" and "B = chunks e (drop (Suc pos) xs)"
  let ?c = "chunk e (xs ! pos)"
  have xs: "xs = take pos xs @ xs ! pos # drop (Suc pos) xs" using pos by (rule id_take_nth_drop)
  from rep have e: "enc_ok e" "intrev32ifbe he (encoding is) = of_nat e"
    "intrev32ifbe he (ilength is) = of_nat n" and "contents is = chunks e xs" and ne: "n * e < 2 ^ 32"
    by (simp_all add: intset_rep_def n_def)
  then have cont: "contents is = A @ ?c @ B" using xs unfolding A_def B_def
    by (metis concat.simps(2) concat_append list.simps(9) map_append)
  have n: "n < 2 ^ 31" using rep_length_bound [OF rep] by (simp add: n_def)
  have lA: "length A = pos * e" and lB: "length B = (n - Suc pos) * e"
    using pos by (simp_all add: A_def B_def n_def)
  have venc: "priv_intsetValueEncoding v \<le> of_nat e" using value_encoding [OF e(1)] fit by simp
  define is1 where "is1 = (if pos < n - 1 then is\<lparr>contents := A @ B @ drop (length B) (?c @ B)\<rparr> else is)"
  have move: "(if of_nat pos < (of_nat n - 1 :: u32) then intsetMoveTail he is (of_nat pos + 1) (of_nat pos)
      else Some is) = Some is1"
  proof -
    have "(of_nat n - 1 :: u32) = of_nat (n - 1)" using pos by (simp add: n_def)
    then have lt: "of_nat pos < (of_nat n - 1 :: u32) \<longleftrightarrow> pos < n - 1"
      using n pos by (simp add: word_less_nat_alt unat_of_nat32 n_def del: of_nat_diff)
    have "pos * e \<le> n * e" using pos by (intro mult_le_mono1) (simp add: n_def)
    then have bnd: "pos * e < 2 ^ 32" using ne by (rule le_less_trans)
    show ?thesis
    proof (cases "pos < n - 1")
      case True
      then have "intsetMoveTail he is (of_nat (pos + 1)) (of_nat pos) = Some is1"
        using move_tail [OF e(1), of he "is" n "pos + 1" pos] e ne bnd remove_bytes [of A ?c B] lA lB pos
        by (simp add: is1_def cont add.commute)
      with True lt show ?thesis by (simp add: add.commute)
    qed (simp add: lt is1_def)
  qed
  have "take ((n - 1) * e) (contents is1) = A @ B"
  proof -
    have "(n - 1) * e = length A + length B"
      using pos lA lB by (simp add: n_def flip: add_mult_distrib)
    moreover have "B = []" if "\<not> pos < n - 1" using that lB by simp
    ultimately show ?thesis by (auto simp: is1_def cont)
  qed
  moreover have "(n - 1) * e \<le> length (contents is1)"
    using pos lA lB e(1)
    by (auto simp: is1_def cont n_def enc_ok_def simp flip: add_mult_distrib)
  moreover have "(n - 1) * e < 2 ^ 32" using ne by (meson diff_le_self le_less_trans mult_le_mono1)
  moreover have "intrev32ifbe he (encoding is1) = of_nat e" using e(2) by (simp add: is1_def)
  ultimately have res: "intsetResize he junk is1 (of_nat n - 1) = is1\<lparr>contents := A @ B\<rparr>"
    using resize_contents [of he is1 e "n - 1" junk] pos by (simp add: mem_resize_shrink n_def)
  define is2 where "is2 = is\<lparr>contents := A @ B, ilength := intrev32ifbe he (of_nat n - 1)\<rparr>"
  have "is1\<lparr>contents := A @ B, ilength := intrev32ifbe he (of_nat n - 1)\<rparr> = is2"
    by (simp add: is1_def is2_def)
  then have "intsetRemove he junk is v = Some (is2, True)"
    using venc search move res by (simp add: intsetRemove_def e Let_def)
  moreover have "intset_rep he is2 e (take pos xs @ drop (Suc pos) xs)"
    using rep pos \<open>(n - 1) * e < 2 ^ 32\<close>
    by (auto simp: intset_rep_def is2_def A_def B_def n_def dest: in_set_takeD in_set_dropD)
  ultimately show ?thesis by blast
qed

lemma drop_mult_chunk: "drop (k * e') (drop (q * e') m) = drop ((k + q) * e') m"
  by (simp add: add_mult_distrib add.commute)

lemma upgrade_loop:
  assumes e: "enc_ok e" "enc_ok e'" "e < e'" and enc: "intrev32ifbe he (encoding is) = of_nat e'"
    and q: "q \<le> 1" and fit: "\<forall>x\<in>set xs. fits e x"
    and k: "k \<le> length xs" and len: "length (contents is) = (length xs + 1) * e'"
    and pre: "take (k * e) (contents is) = chunks e (take k xs)"
  shows "\<exists>m'. intsetUpgrade_loop he (of_nat e) (int q) k is = Some (is\<lparr>contents := m'\<rparr>) \<and>
    length m' = length (contents is) \<and>
    drop ((k + q) * e') m' = drop ((k + q) * e') (contents is) \<and>
    take (k * e') (drop (q * e') m') = chunks e' (take k xs)"
  using enc k len pre
proof (induction k arbitrary: "is")
  case 0
  then show ?case by (auto intro!: exI [of _ "contents is"])
next
  case (Suc k)
  let ?m = "contents is"
  have kx: "k < length xs" using Suc.prems by simp
  have le: "k * e \<le> (k + q) * e'" using e(3) by (intro mult_le_mono) auto
  have ke: "(Suc k + q) * e' \<le> length ?m"
    using Suc.prems(2,3) q by (simp only: Suc.prems(3)) (intro mult_le_mono1, simp)
  have "Suc k * e \<le> (Suc k + q) * e'" using e(3) by (intro mult_le_mono) auto
  with ke have fits1: "k * e + e \<le> length ?m" by simp
  have "take (k * e + e) ?m = chunks e (take k xs) @ chunk e (xs ! k)"
    using Suc.prems(4) kx by (simp add: take_Suc_conv_app_nth add.commute)
  then have "take (k * e) ?m = chunks e (take k xs)" "take e (drop (k * e) ?m) = chunk e (xs ! k)"
    using kx fits1 by (simp_all add: take_add)
  then have get: "priv_intsetGetEncoded he is (int k) (of_nat e) = Some (word_of_int (xs ! k))"
    using get_encoded [OF e(1) fits1, of he] fit kx e(1) by (simp add: dechunk_chunk)
  have sx: "sint (word_of_int (xs ! k) :: u64) = xs ! k" using fit kx e(1) by (auto intro: sint_chunk)
  define m1 where "m1 = take ((k + q) * e') ?m @ chunk e' (xs ! k) @ drop ((Suc k + q) * e') ?m"
  have "(Suc k + q) * e' = (k + q) * e' + e'" by simp
  then have set: "priv_intsetSet he is (int k + int q) (word_of_int (xs ! k)) = Some (is\<lparr>contents := m1\<rparr>)"
    using set_at [OF e(2) Suc.prems(1), of "k + q" "word_of_int (xs ! k)"] ke sx
    by (simp add: m1_def add.commute)
  have l1: "length m1 = length ?m" using ke by (simp add: m1_def)
  have "take (k * e) m1 = take (k * e) ?m" using le ke by (simp add: m1_def min_def)
  with \<open>take (k * e) ?m = _\<close> obtain m' where m':
    "intsetUpgrade_loop he (of_nat e) (int q) k (is\<lparr>contents := m1\<rparr>) = Some (is\<lparr>contents := m'\<rparr>)"
    "length m' = length ?m" "drop ((k + q) * e') m' = drop ((k + q) * e') m1"
    "take (k * e') (drop (q * e') m') = chunks e' (take k xs)"
    using Suc.IH [of "is\<lparr>contents := m1\<rparr>"] Suc.prems kx l1 by auto
  have tail: "drop ((k + q) * e') m' = chunk e' (xs ! k) @ drop ((Suc k + q) * e') ?m"
    using m'(3) ke by (simp add: m1_def)
  have "drop ((Suc k + q) * e') m' = drop e' (drop ((k + q) * e') m')"
    by (simp add: add.commute)
  then have d: "drop ((Suc k + q) * e') m' = drop ((Suc k + q) * e') ?m" by (simp add: tail)
  have "take (Suc k * e') (drop (q * e') m') = take (k * e') (drop (q * e') m') @ take e' (drop ((k + q) * e') m')"
    by (simp only: mult_Suc add.commute [of e'] take_add drop_mult_chunk)
  then have t: "take (Suc k * e') (drop (q * e') m') = chunks e' (take (Suc k) xs)"
    using m'(4) tail kx by (simp add: take_Suc_conv_app_nth)
  show ?case using get set m'(1,2) d t by auto
qed

lemma upgrade_and_add:
  assumes rep: "intset_rep he is e xs" and new: "priv_intsetValueEncoding v = of_nat e'" "enc_ok e'" "e < e'"
    and fit: "fits e' (sint v)" and size: "(length xs + 1) * e' < 2 ^ 32"
  shows "\<exists>is'. intsetUpgradeAndAdd he junk is v = Some is' \<and>
    intset_rep he is' e' (if sint v < 0 then sint v # xs else xs @ [sint v])"
proof -
  define n where "n = length xs"
  define q where "q = (if sint v < 0 then 1 else 0 :: nat)"
  from rep have e: "enc_ok e" "intrev32ifbe he (encoding is) = of_nat e"
    "intrev32ifbe he (ilength is) = of_nat n" "contents is = chunks e xs" "\<forall>x\<in>set xs. fits e x"
    by (simp_all add: intset_rep_def n_def)
  have n: "n < 2 ^ 31" using rep_length_bound [OF rep] by (simp add: n_def)
  have grow: "n * e \<le> (n + 1) * e'" using new(3) by (intro mult_le_mono) auto
  define is0 where "is0 = is\<lparr>encoding := intrev32ifbe he (of_nat e'), contents := mem_resize junk (chunks e xs) ((n + 1) * e')\<rparr>"
  have is0: "intsetResize he junk (is\<lparr>encoding := intrev32ifbe he (of_nat e')\<rparr>) (of_nat n + 1) = is0"
    using resize_contents [of he "is\<lparr>encoding := intrev32ifbe he (of_nat e')\<rparr>" e' "n + 1" junk] size e(4)
    by (simp add: is0_def n_def add.commute)
  have q: "q \<le> 1" by (simp add: q_def)
  have "take (n * e) (contents is0) = chunks e (take n xs)"
    using grow by (simp add: is0_def mem_resize_def n_def)
  then obtain m' where m': "intsetUpgrade_loop he (of_nat e) (int q) n is0 = Some (is0\<lparr>contents := m'\<rparr>)"
    "length m' = (n + 1) * e'" "take (n * e') (drop (q * e') m') = chunks e' xs"
    using upgrade_loop [OF e(1) new(2,3) _ q e(5), of he is0 n]
    by (auto simp: is0_def n_def)
  define is1 where "is1 = is0\<lparr>contents := m'\<rparr>"
  have loop: "intsetUpgrade_loop he (of_nat e) (if sint v < 0 then 1 else 0) n is0 = Some is1"
    using m'(1) by (simp add: is1_def q_def split: if_splits)
  define ys where "ys = (if sint v < 0 then sint v # xs else xs @ [sint v])"
  have set: "(if sint v < 0 then priv_intsetSet he is1 0 v else priv_intsetSet he is1 (sint (of_nat n :: u32)) v) =
      Some (is1\<lparr>contents := chunks e' ys\<rparr>)"
  proof (cases "sint v < 0")
    case True
    have "drop e' m' = chunks e' xs" using m'(2,3) True by (simp add: q_def)
    then show ?thesis
      using set_at [OF new(2), of he is1 0 v] True m'(2)
      by (simp add: is1_def is0_def ys_def)
  next
    case False
    have "take (n * e') m' = chunks e' xs" using m'(3) False by (simp add: q_def)
    then show ?thesis
      using set_chunk_at [OF new(2), of he is1 xs m' "[]" v] False m'(2) n
      by (simp add: is1_def is0_def ys_def n_def add.commute)
  qed
  define is2 where "is2 = is1\<lparr>contents := chunks e' ys, ilength := intrev32ifbe he (of_nat n + 1)\<rparr>"
  have "sint (of_nat n :: u32) = int n" using n by (rule sint_of_nat32)
  then have "intsetUpgradeAndAdd he junk is v = Some is2"
    using set loop is0
    by (auto simp: intsetUpgradeAndAdd_def e new(1) Let_def is2_def is1_def is0_def split: if_splits)
  moreover have "intset_rep he is2 e' ys"
    using new size fit e(5) fits_mono [of e _ e']
    by (auto simp: intset_rep_def is2_def is1_def is0_def ys_def n_def add.commute)
  ultimately show ?thesis by (auto simp: ys_def)
qed


subsection \<open>The set operations\<close>

lemma intsetAdd_law:
  assumes ok: "intset_ok he is"
    and size: "(unat (intsetLen he is) + 1) *
      max (unat (intrev32ifbe he (encoding is))) (unat (priv_intsetValueEncoding v)) < 2 ^ 32"
  shows "\<exists>is'. intsetAdd he junk is v = Some (is', sint v \<notin> set (intset_elems he is)) \<and>
    intset_ok he is' \<and> set (intset_elems he is') = insert (sint v) (set (intset_elems he is)) \<and>
    length (intset_elems he is') = length (intset_elems he is) + (if sint v \<in> set (intset_elems he is) then 0 else 1)"
proof -
  obtain e where rep: "intset_rep he is e (intset_elems he is)" and sorted: "sorted_wrt (<) (intset_elems he is)"
    and e: "e = unat (intrev32ifbe he (encoding is))"
    using ok by (rule ok_rep)
  let ?xs = "intset_elems he is"
  from rep have enc: "enc_ok e" "intrev32ifbe he (encoding is) = of_nat e" "\<forall>x\<in>set ?xs. fits e x"
    by (auto simp: intset_rep_def)
  obtain e' where e': "enc_ok e'" "priv_intsetValueEncoding v = of_nat e'" "fits e' (sint v)"
    using value_encoding_ok by blast
  have ue: "unat (of_nat e' :: u32) = e'" "unat (of_nat e :: u32) = e"
    using e'(1) enc(1) by (auto simp: enc_ok_def)
  have len: "unat (intsetLen he is) = length ?xs" using rep by (rule rep_len)
  show ?thesis
  proof (cases "e < e'")
    case True
    have nofit: "\<not> fits e (sint v)"
      using value_encoding [OF enc(1), of v] True e'(2) ue by (simp add: word_le_nat_alt)
    then have notin: "sint v \<notin> set ?xs" using enc(3) by blast
    have sz: "(length ?xs + 1) * e' < 2 ^ 32" using size True by (simp add: e'(2) enc(2) ue len max_def)
    obtain is' where is': "intsetUpgradeAndAdd he junk is v = Some is'"
      "intset_rep he is' e' (if sint v < 0 then sint v # ?xs else ?xs @ [sint v])"
      using upgrade_and_add [OF rep e'(2,1) True e'(3) sz] by blast
    have "sint v < x" if "sint v < 0" "x \<in> set ?xs" for x
      using that enc(3) nofit zero_less_power [of "2::int" "8 * e - 1"] unfolding fits_def by force
    moreover have "x < sint v" if "\<not> sint v < 0" "x \<in> set ?xs" for x
      using that enc(3) nofit zero_less_power [of "2::int" "8 * e - 1"] unfolding fits_def by force
    ultimately have "sorted_wrt (<) (if sint v < 0 then sint v # ?xs else ?xs @ [sint v])"
      using sorted by (simp add: sorted_wrt_append)
    with is' notin show ?thesis
      using rep_elems [OF is'(2)] rep_ok [OF is'(2)] True ue
      by (auto simp: intsetAdd_def enc(2) e'(2) word_less_nat_alt)
  next
    case False
    have fit: "fits e (sint v)" using False e'(3) fits_mono by fastforce
    have sz: "(length ?xs + 1) * e < 2 ^ 32" using size False by (simp add: e'(2) enc(2) ue len max_def)
    obtain pos where search: "intsetSearch he is v = Some (sint v \<in> set ?xs, of_nat pos)"
      and post: "if sint v \<in> set ?xs then pos < length ?xs \<and> ?xs ! pos = sint v
        else pos \<le> length ?xs \<and> (\<forall>i < pos. ?xs ! i < sint v) \<and>
          (\<forall>i < length ?xs. pos \<le> i \<longrightarrow> sint v < ?xs ! i)"
      using search_correct [OF rep sorted] by blast
    show ?thesis
    proof (cases "sint v \<in> set ?xs")
      case True
      with search False ue ok show ?thesis
        by (auto simp: intsetAdd_def enc(2) e'(2) word_less_nat_alt)
    next
      case notin: False
      obtain is' where is': "intsetAdd he junk is v = Some (is', True)"
        "intset_rep he is' e (take pos ?xs @ sint v # drop pos ?xs)"
        using add_in_place [OF rep sz fit, of pos junk] post search notin by auto
      have "sorted_wrt (<) (take pos ?xs @ sint v # drop pos ?xs)"
        using sorted post notin by (intro sorted_insert_at) auto
      with is' notin post set_take_drop [of pos ?xs] show ?thesis
        using rep_elems [OF is'(2)] rep_ok [OF is'(2)] by (auto simp: min_def)
    qed
  qed
qed

lemma intsetFind_law:
  assumes "intset_ok he is"
  shows "intsetFind he is v = Some (sint v \<in> set (intset_elems he is))"
proof -
  let ?xs = "intset_elems he is"
  obtain e where rep: "intset_rep he is e ?xs" and sorted: "sorted_wrt (<) ?xs"
    using assms by (rule ok_rep)
  from rep have enc: "enc_ok e" "intrev32ifbe he (encoding is) = of_nat e" "\<forall>x\<in>set ?xs. fits e x"
    by (auto simp: intset_rep_def)
  obtain pos where search: "intsetSearch he is v = Some (sint v \<in> set ?xs, of_nat pos)"
    using search_correct [OF rep sorted] by blast
  then show ?thesis using value_encoding [OF enc(1), of v] enc(2,3) by (auto simp: intsetFind_def)
qed

lemma intsetRemove_law:
  assumes ok: "intset_ok he is"
  shows "\<exists>is'. intsetRemove he junk is v = Some (is', sint v \<in> set (intset_elems he is)) \<and>
    intset_ok he is' \<and> set (intset_elems he is') = set (intset_elems he is) - {sint v} \<and>
    encoding is' = encoding is"
proof -
  let ?xs = "intset_elems he is"
  obtain e where rep: "intset_rep he is e ?xs" and sorted: "sorted_wrt (<) ?xs"
    using ok by (rule ok_rep)
  from rep have enc: "enc_ok e" "intrev32ifbe he (encoding is) = of_nat e" "\<forall>x\<in>set ?xs. fits e x"
    by (auto simp: intset_rep_def)
  obtain pos where search: "intsetSearch he is v = Some (sint v \<in> set ?xs, of_nat pos)"
    and post: "sint v \<in> set ?xs \<Longrightarrow> pos < length ?xs \<and> ?xs ! pos = sint v"
    using search_correct [OF rep sorted, of v] by auto
  show ?thesis
  proof (cases "sint v \<in> set ?xs")
    case False
    with search ok show ?thesis by (auto simp: intsetRemove_def)
  next
    case True
    with post have pos: "pos < length ?xs" "?xs ! pos = sint v" by auto
    obtain is' where is': "intsetRemove he junk is v = Some (is', True)"
      "intset_rep he is' e (take pos ?xs @ drop (Suc pos) ?xs)"
      using remove_at [OF rep _ pos(1), of v junk] enc(3) True search by auto
    have split: "?xs = take pos ?xs @ sint v # drop (Suc pos) ?xs"
      using id_take_nth_drop [OF pos(1)] pos(2) by simp
    then have s: "sorted_wrt (<) (take pos ?xs @ sint v # drop (Suc pos) ?xs)" using sorted by simp
    then have "sorted_wrt (<) (take pos ?xs @ drop (Suc pos) ?xs)"
      by (auto simp: sorted_wrt_append)
    moreover have "set (take pos ?xs @ drop (Suc pos) ?xs) = set ?xs - {sint v}"
      using s by (subst (3) split) (auto simp: sorted_wrt_append)
    moreover have "encoding is' = encoding is"
      using is'(2) rep by (metis intset_rep_def intrev32ifbe_eq_iff)
    ultimately show ?thesis using is' True rep_elems [OF is'(2)] rep_ok [OF is'(2)] by auto
  qed
qed

lemma le_decode_zeros: "le_decode (replicate n 0) = 0"
  by (induction n) simp_all

lemma intrev32ifbe_0 [simp]: "intrev32ifbe he 0 = 0"
  by (cases he) (simp_all add: intrev32ifbe_def intrev_eq le_encode_def map_replicate_const le_decode_zeros)

lemma intsetNew_ok: "intset_ok he (intsetNew he)" "intset_elems he (intsetNew he) = []"
proof -
  have "intset_rep he (intsetNew he) 2 []"
    by (simp add: intset_rep_def intsetNew_def enc_ok_def INTSET_ENC_INT16_def)
  then show "intset_ok he (intsetNew he)" "intset_elems he (intsetNew he) = []"
    using rep_ok rep_elems by fastforce+
qed

lemma ok_length: "intset_ok he is \<Longrightarrow> length (intset_elems he is) = unat (intsetLen he is)"
  by (simp add: intset_elems_def)

definition intset_set :: "byte_order \<Rightarrow> intset \<Rightarrow> u64 set" where
  "intset_set he is = word_of_int ` set (intset_elems he is)"

lemma mem_intset_set: "intset_ok he is \<Longrightarrow> v \<in> intset_set he is \<longleftrightarrow> sint v \<in> set (intset_elems he is)"
proof -
  assume "intset_ok he is"
  then obtain e where "intset_rep he is e (intset_elems he is)" by (rule ok_rep)
  then have "sint (word_of_int x :: u64) = x" if "x \<in> set (intset_elems he is)" for x
    using that by (auto simp: intset_rep_def intro: sint_chunk)
  moreover have "v = word_of_int (sint v)" by simp
  ultimately show ?thesis unfolding intset_set_def by (auto simp del: of_int_sint)
qed

lemma card_intset_set: "intset_ok he is \<Longrightarrow> card (intset_set he is) = unat (intsetLen he is)"
proof -
  assume ok: "intset_ok he is"
  then obtain e where rep: "intset_rep he is e (intset_elems he is)"
    and sorted: "sorted_wrt (<) (intset_elems he is)" by (rule ok_rep)
  have "inj_on (word_of_int :: int \<Rightarrow> u64) (set (intset_elems he is))"
    by (rule inj_on_inverseI [of _ sint]) (use rep in \<open>auto simp: intset_rep_def intro: sint_chunk\<close>)
  moreover have "distinct (intset_elems he is)"
    using sorted strict_sorted_iff by blast
  ultimately show ?thesis
    by (simp add: intset_set_def card_image distinct_card ok_length [OF ok])
qed

lemma small_has_room:
  assumes "intset_ok he is" and "unat (intsetLen he is) < 2 ^ 29 - 1"
  shows "(unat (intsetLen he is) + 1) *
      max (unat (intrev32ifbe he (encoding is))) (unat (priv_intsetValueEncoding v)) < 2 ^ 32"
proof -
  have "unat (intrev32ifbe he (encoding is)) \<le> 8"
    using assms(1) by (auto simp: intset_ok_def enc_ok_def Let_def)
  moreover have "unat (priv_intsetValueEncoding v) \<le> 8"
    by (simp add: priv_intsetValueEncoding_def INTSET_ENC_INT16_def INTSET_ENC_INT32_def INTSET_ENC_INT64_def)
  ultimately have "(unat (intsetLen he is) + 1) *
      max (unat (intrev32ifbe he (encoding is))) (unat (priv_intsetValueEncoding v))
    \<le> (unat (intsetLen he is) + 1) * 8" by (intro mult_le_mono) auto
  also have "\<dots> < 2 ^ 32" using assms(2) by simp
  finally show ?thesis .
qed

lemma sint_eq_iff: "sint v = sint w \<longleftrightarrow> v = w"
  by (auto intro: signed_word_eqI)

lemma intset_set_eqI:
  "intset_ok he is \<Longrightarrow> (\<And>v. sint v \<in> set (intset_elems he is) \<longleftrightarrow> v \<in> S) \<Longrightarrow> intset_set he is = S"
  using mem_intset_set by blast

interpretation iset: bounded_set "intset_ok he" "intset_set he" "2 ^ 29 - 1"
    "intsetAdd he junk" "intsetRemove he junk" "intsetFind he" for he junk
proof
  fix s and x :: u64
  assume ok: "intset_ok he s"
  show "finite (intset_set he s)" by (simp add: intset_set_def)
  show "intsetFind he s x = Some (x \<in> intset_set he s)"
    using intsetFind_law [OF ok] mem_intset_set [OF ok] by simp
  obtain s' where "intsetRemove he junk s x = Some (s', sint x \<in> set (intset_elems he s))" "intset_ok he s'"
    "set (intset_elems he s') = set (intset_elems he s) - {sint x}"
    using intsetRemove_law [OF ok] by blast
  then show "\<exists>s'. intsetRemove he junk s x = Some (s', x \<in> intset_set he s) \<and> intset_ok he s' \<and>
      intset_set he s' = intset_set he s - {x}"
    using mem_intset_set [OF ok] by (auto intro!: intset_set_eqI simp: sint_eq_iff)
  assume "card (intset_set he s) < 2 ^ 29 - 1"
  then have "unat (intsetLen he s) < 2 ^ 29 - 1" by (simp add: card_intset_set [OF ok])
  then obtain s' where "intsetAdd he junk s x = Some (s', sint x \<notin> set (intset_elems he s))" "intset_ok he s'"
    "set (intset_elems he s') = insert (sint x) (set (intset_elems he s))"
    using intsetAdd_law [OF ok small_has_room [OF ok]] by blast
  then show "\<exists>s'. intsetAdd he junk s x = Some (s', x \<notin> intset_set he s) \<and> intset_ok he s' \<and>
      intset_set he s' = insert x (intset_set he s)"
    using mem_intset_set [OF ok] by (auto intro!: intset_set_eqI simp: sint_eq_iff)
qed

subsection \<open>Properties\<close>

text \<open>Property C14. Adding a value to a well-formed set whose enlarged array still fits the
  \<open>uint32_t\<close> size computation stays inside the array, keeps it well-formed (sorted, no
  duplicates, size matching the encoding, upgraded if the value needs it), adds exactly that
  value and reports success exactly when it was new.\<close>

theorem intsetAdd_correct:
  assumes ok: "intset_ok he is"
    and size: "(unat (intsetLen he is) + 1) *
      max (unat (intrev32ifbe he (encoding is))) (unat (priv_intsetValueEncoding v)) < 2 ^ 32"
  shows "\<exists>is'. intsetAdd he junk is v = Some (is', sint v \<notin> set (intset_elems he is)) \<and>
    intset_ok he is' \<and> set (intset_elems he is') = insert (sint v) (set (intset_elems he is)) \<and>
    length (intset_elems he is') = length (intset_elems he is) + (if sint v \<in> set (intset_elems he is) then 0 else 1)"
  using assms by (rule intsetAdd_law)

definition intset_3_5 :: intset where
  "intset_3_5 = \<lparr>encoding = 2, ilength = 2, contents = [3, 0, 5, 0]\<rparr>"

lemma intset_3_5_elems: "intset_elems LittleEndian intset_3_5 = [3, 5]"
  by code_simp

lemma intset_3_5_ok: "intset_ok LittleEndian intset_3_5"
  by (simp add: intset_ok_def intset_3_5_elems)
     (simp add: intset_3_5_def intsetLen_def intrev32ifbe_def enc_ok_def)

theorem intsetAdd_correct_witness:
  "\<exists>is'. intsetAdd LittleEndian (\<lambda>_. 0) intset_3_5 70000 = Some (is', True) \<and> intset_ok LittleEndian is' \<and>
     set (intset_elems LittleEndian is') = {3, 5, 70000}"
proof -
  have room: "(unat (intsetLen LittleEndian intset_3_5) + 1) *
      max (unat (intrev32ifbe LittleEndian (encoding intset_3_5))) (unat (priv_intsetValueEncoding 70000)) < 2 ^ 32"
    by (simp add: intset_3_5_def intsetLen_def intrev32ifbe_def priv_intsetValueEncoding_def INTSET_ENC_INT32_def)
  have v: "sint (70000 :: u64) = 70000" by simp
  show ?thesis
    using intsetAdd_correct [OF intset_3_5_ok room, of "\<lambda>_. 0"] unfolding intset_3_5_elems v
    by (auto simp: insert_commute)
qed

text \<open>Removing a value from a well-formed set keeps it well-formed, removes exactly that
  value, reports whether it was there and never changes the encoding.\<close>

lemma intsetRemove_correct:
  assumes ok: "intset_ok he is"
  shows "\<exists>is'. intsetRemove he junk is v = Some (is', sint v \<in> set (intset_elems he is)) \<and>
    intset_ok he is' \<and> set (intset_elems he is') = set (intset_elems he is) - {sint v} \<and>
    encoding is' = encoding is"
  using assms by (rule intsetRemove_law)



text \<open>Adding any list of values one after the other (as a variadic command does) to a
  well-formed set of at most \<open>2^29 - 1\<close> elements in the end always succeeds, and afterwards
  exactly the old elements and the listed values are found.\<close>

lemma intset_add_all:
  assumes "intset_ok he is" and "unat (intsetLen he is) + length vs \<le> 2 ^ 29 - 1"
  shows "\<exists>is' n. add_all (intsetAdd he junk) is vs = Some (is', n) \<and> intset_ok he is' \<and>
    (\<forall>v. intsetFind he is' v = Some (v \<in> intset_set he is \<or> v \<in> set vs))"
  using iset.add_all_law [OF assms(1), of vs junk] iset.find_after_add_all [OF assms(1), of vs junk] assms
  by (auto simp: card_intset_set)

definition intset_blob :: "byte_order \<Rightarrow> intset \<Rightarrow> byte list" where
  \<comment> \<open>the struct as it lies in memory, as the RDB code writes it\<close>
  "intset_blob he is = obj_bytes he 4 (encoding is) @ obj_bytes he 4 (ilength is) @ contents is"

lemma obj_bytes_intrev32ifbe: "obj_bytes he 4 (intrev32ifbe he v) = le_encode 4 v"
  by (cases he) (simp_all add: obj_bytes_def intrev32ifbe_def intrev_eq le_encode_decode)

lemma intset_blob_law:
  assumes "intset_ok he is"
  shows "intset_blob he is = le_encode 4 (intrev32ifbe he (encoding is)) @ le_encode 4 (intsetLen he is) @
    concat (map (\<lambda>x. le_encode (unat (intrev32ifbe he (encoding is))) (word_of_int x :: u64)) (intset_elems he is))"
    and "intsetBlobLen he is = of_nat (length (intset_blob he is))"
proof -
  from assms obtain e where rep: "intset_rep he is e (intset_elems he is)"
    and e: "e = unat (intrev32ifbe he (encoding is))" by (rule ok_rep)
  have "obj_bytes he 4 (encoding is) = le_encode 4 (intrev32ifbe he (encoding is))"
    "obj_bytes he 4 (ilength is) = le_encode 4 (intrev32ifbe he (ilength is))"
    using obj_bytes_intrev32ifbe [of he "intrev32ifbe he (encoding is)"]
      obj_bytes_intrev32ifbe [of he "intrev32ifbe he (ilength is)"] by simp_all
  then show 1: "intset_blob he is = le_encode 4 (intrev32ifbe he (encoding is)) @ le_encode 4 (intsetLen he is) @
    concat (map (\<lambda>x. le_encode (unat (intrev32ifbe he (encoding is))) (word_of_int x :: u64)) (intset_elems he is))"
    using rep unfolding intset_blob_def intset_rep_def intsetLen_def e [symmetric]
    by (simp add: chunk_def [abs_def])
  let ?n = "length (intset_elems he is) * e"
  from rep have "?n < 2 ^ 32" "length (intset_blob he is) = 8 + ?n"
    and f: "intrev32ifbe he (ilength is) = of_nat (length (intset_elems he is))"
      "intrev32ifbe he (encoding is) = of_nat e"
    by (auto simp: intset_blob_def intset_rep_def)
  moreover have "ucast (of_nat ?n :: u32) = (of_nat ?n :: u64)"
    using \<open>?n < 2 ^ 32\<close> by (simp add: unsigned_of_nat take_bit_nat_eq_self del: of_nat_mult)
  ultimately show "intsetBlobLen he is = of_nat (length (intset_blob he is))"
    by (simp add: intsetBlobLen_def f)
qed

text \<open>Property C26. The memory image of a well-formed set, as it is saved to disk, is the same on
  little and big endian hosts: encoding, length and elements, each in little endian order; and
  \<open>intsetBlobLen\<close> is its size.\<close>

theorem intset_blob_portable:
  assumes "intset_ok he is"
  shows "intset_blob he is = le_encode 4 (intrev32ifbe he (encoding is)) @ le_encode 4 (intsetLen he is) @
      concat (map (\<lambda>x. le_encode (unat (intrev32ifbe he (encoding is))) (word_of_int x :: u64)) (intset_elems he is))
    \<and> intsetBlobLen he is = of_nat (length (intset_blob he is))"
  using intset_blob_law [OF assms] by blast

theorem intset_blob_portable_witness:
  "intset_blob LittleEndian intset_3_5 = [2, 0, 0, 0, 2, 0, 0, 0, 3, 0, 5, 0] \<and>
   intsetBlobLen LittleEndian intset_3_5 = 12"
proof -
  have "intset_blob LittleEndian intset_3_5 = [2, 0, 0, 0, 2, 0, 0, 0, 3, 0, 5, 0]"
    unfolding intset_blob_portable [OF intset_3_5_ok, THEN conjunct1] by code_simp
  then show ?thesis using intset_blob_portable [OF intset_3_5_ok] by simp
qed

text \<open>Property C27. The capacity bound is tight: with \<open>2^29 - 1\<close> eight-byte elements the size
  \<open>len * encoding\<close> computed in \<open>uint32_t\<close> by \<open>intsetResize\<close> wraps to 0, the array is
  reallocated to nothing and the insertion of any new value accesses memory outside it.\<close>

theorem intsetAdd_size_overflow:
  assumes ok: "intset_ok he is" and len: "intsetLen he is = 2 ^ 29 - 1"
    and enc: "intrev32ifbe he (encoding is) = INTSET_ENC_INT64"
    and new: "sint v \<notin> set (intset_elems he is)"
  shows "intsetAdd he junk is v = None"
proof -
  from ok obtain e where rep: "intset_rep he is e (intset_elems he is)"
    and sorted: "sorted_wrt (<) (intset_elems he is)" and e: "e = unat (intrev32ifbe he (encoding is))"
    by (rule ok_rep)
  have l: "length (intset_elems he is) = 2 ^ 29 - 1" using len by (simp add: ok_length [OF ok])
  obtain pos where search: "intsetSearch he is v = Some (False, of_nat pos)" and pos: "pos \<le> 2 ^ 29 - 1"
    using search_correct [OF rep sorted, of v] new l by auto
  define is1 where "is1 = intsetResize he junk is (intrev32ifbe he (ilength is) + 1)"
  have res: "intsetResize he junk is 536870912 = is\<lparr>contents := []\<rparr>"
    by (simp add: intsetResize_def enc INTSET_ENC_INT64_def mem_resize_def)
  have is1: "is1 = is\<lparr>contents := []\<rparr>"
    using len by (simp add: is1_def res intsetLen_def)
  have upos: "unat (of_nat pos :: u32) = pos" using pos by (simp add: unat_of_nat32)
  have spos: "sint (of_nat pos :: u32) = int pos" using pos by (intro sint_of_nat32) simp
  have "intsetMoveTail he is1 (of_nat pos) (of_nat pos + 1) = None" if "(of_nat pos :: u32) < 2 ^ 29 - 1"
  proof -
    have lt: "pos < 2 ^ 29 - 1" using that upos by (simp add: word_less_nat_alt)
    have "(of_nat (2 ^ 29 - 1 - pos) :: u32) = 2 ^ 29 - 1 - of_nat pos"
      using pos by simp
    then have "unat ((2 ^ 29 - 1 - of_nat pos) * 8 :: u32) = (2 ^ 29 - 1 - pos) * 8"
      using pos of_nat_mult_unat32 [of "2 ^ 29 - 1 - pos" 8] by simp
    then show ?thesis using lt len
      by (simp add: intsetMoveTail_def is1 intsetLen_def enc INTSET_ENC_INT64_def mem_move_def mem_read_def)
  qed
  moreover have "priv_intsetSet he is1 (sint (of_nat pos :: u32)) v = None"
    by (simp add: priv_intsetSet_def is1 enc INTSET_ENC_INT64_def mem_write_def spos)
  moreover have "\<not> priv_intsetValueEncoding v > INTSET_ENC_INT64"
    by (simp add: priv_intsetValueEncoding_def INTSET_ENC_INT16_def INTSET_ENC_INT32_def INTSET_ENC_INT64_def)
  ultimately show ?thesis
    using search len by (auto simp: intsetAdd_def enc Let_def is1 res intsetLen_def)
qed

lemma big_intset_rep:
  "intset_rep LittleEndian \<lparr>encoding = 8, ilength = 2 ^ 29 - 1, contents = chunks 8 (map int [0..<2 ^ 29 - 1])\<rparr> 8
     (map int [0..<2 ^ 29 - 1])"
proof -
  have "x < 2 ^ 63" if "x < 536870911" for x :: int using that by simp
  then show ?thesis
    by (auto simp: intset_rep_def enc_ok_def intrev32ifbe_def fits_def simp flip: map_map)
qed

theorem intsetAdd_size_overflow_witness:
  "intsetAdd LittleEndian (\<lambda>_. 0)
     \<lparr>encoding = 8, ilength = 2 ^ 29 - 1, contents = chunks 8 (map int [0..<2 ^ 29 - 1])\<rparr> (-1) = None"
proof (rule intsetAdd_size_overflow)
  let ?is = "\<lparr>encoding = 8, ilength = 2 ^ 29 - 1, contents = chunks 8 (map int [0..<2 ^ 29 - 1])\<rparr>"
  show "intset_ok LittleEndian ?is"
    by (rule rep_ok [OF big_intset_rep]) (simp add: sorted_wrt_map)
  show "sint (-1 :: u64) \<notin> set (intset_elems LittleEndian ?is)"
    unfolding rep_elems [OF big_intset_rep] by auto
qed (simp_all add: intsetLen_def intrev32ifbe_def INTSET_ENC_INT64_def)

end
