(* ===== verification/Dict.thy ===== *)
theory Dict
  imports Containers "HOL-Library.Multiset"
begin

section \<open>Hash tables with incremental rehashing (dict.c)\<close>

text \<open>
  A dictionary is a pair of chained hash tables, the second one in use while the first is
  being rehashed into it, one bucket at a time. Chains are lists (the \<open>next\<close> pointers),
  the bucket array is a list of chains, and a pointer to an entry is its position. The
  result \<open>None\<close> of an operation stands for an access outside a bucket array, a failed
  assertion or a loop that does not end. \<open>dict_can_resize\<close> is a parameter of the
  operations that read it.
\<close>

record ('k, 'v) dictEntry =
  key :: 'k
  val :: 'v

text \<open>The callbacks of a \<open>dictType\<close>; a NULL function pointer is \<open>None\<close>. The destructors
  act on memory the model does not represent: operations return what they pass to them.\<close>

record ('k, 'v) dictType =
  hashFunction :: "'k \<Rightarrow> u64"
  keyDup :: "('k \<Rightarrow> 'k) option"
  valDup :: "('v \<Rightarrow> 'v) option"
  keyCompare :: "('k \<Rightarrow> 'k \<Rightarrow> bool) option"

record ('k, 'v) dictht =
  table :: "('k, 'v) dictEntry list list"
  htsize :: nat
  sizemask :: u64
  used :: nat

record ('k, 'v) dict =
  dtype :: "('k, 'v) dictType"
  ht0 :: "('k, 'v) dictht"
  ht1 :: "('k, 'v) dictht"
  rehashidx :: int
  iterators :: nat

text \<open>Table number, bucket and position in the chain of an entry.\<close>

type_synonym entry_ref = "nat \<times> nat \<times> nat"

definition DICT_HT_INITIAL_SIZE :: nat where "DICT_HT_INITIAL_SIZE = 4"
definition dict_force_resize_ratio :: nat where "dict_force_resize_ratio = 5"

definition dictIsRehashing :: "('k, 'v) dict \<Rightarrow> bool" where
  "dictIsRehashing d \<longleftrightarrow> rehashidx d \<noteq> -1"

definition dictSize :: "('k, 'v) dict \<Rightarrow> nat" where
  "dictSize d = used (ht0 d) + used (ht1 d)"

definition dictSlots :: "('k, 'v) dict \<Rightarrow> nat" where
  "dictSlots d = htsize (ht0 d) + htsize (ht1 d)"

definition dictHashKey :: "('k, 'v) dict \<Rightarrow> 'k \<Rightarrow> u64" where
  "dictHashKey d k = hashFunction (dtype d) k"

definition dictCompareKeys :: "('k, 'v) dict \<Rightarrow> 'k \<Rightarrow> 'k \<Rightarrow> bool" where
  "dictCompareKeys d k1 k2 = (case keyCompare (dtype d) of Some f \<Rightarrow> f k1 k2 | None \<Rightarrow> k1 = k2)"

definition dupKey :: "('k, 'v) dict \<Rightarrow> 'k \<Rightarrow> 'k" where
  \<comment> \<open>what dictSetKey stores\<close>
  "dupKey d k = (case keyDup (dtype d) of Some f \<Rightarrow> f k | None \<Rightarrow> k)"

definition dupVal :: "('k, 'v) dict \<Rightarrow> 'v \<Rightarrow> 'v" where
  \<comment> \<open>what dictSetVal stores\<close>
  "dupVal d v = (case valDup (dtype d) of Some f \<Rightarrow> f v | None \<Rightarrow> v)"

definition bucket :: "('k, 'v) dictht \<Rightarrow> u64 \<Rightarrow> ('k, 'v) dictEntry list option" where
  \<comment> \<open>the chain at ht->table[idx]\<close>
  "bucket t idx = (if unat idx < length (table t) then Some (table t ! unat idx) else None)"

fun chain_find :: "('k \<Rightarrow> bool) \<Rightarrow> ('k, 'v) dictEntry list \<Rightarrow> nat option" where
  \<comment> \<open>\<open>while(he) { if (match) return; he = he->next; }\<close>\<close>
  "chain_find p [] = None"
| "chain_find p (he # hes) = (if p (key he) then Some 0 else map_option Suc (chain_find p hes))"

definition keyMatches :: "('k, 'v) dict \<Rightarrow> 'k \<Rightarrow> 'k \<Rightarrow> bool" where
  "keyMatches d k k' \<longleftrightarrow> k = k' \<or> dictCompareKeys d k k'"

subsection \<open>Creation and resizing\<close>

definition dictReset :: "('k, 'v) dictht" where
  "dictReset = \<lparr>table = [], htsize = 0, sizemask = 0, used = 0\<rparr>"

definition dictCreate :: "('k, 'v) dictType \<Rightarrow> ('k, 'v) dict" where
  "dictCreate ty = \<lparr>dtype = ty, ht0 = dictReset, ht1 = dictReset, rehashidx = -1, iterators = 0\<rparr>"

partial_function (option) dictNextPower_loop :: "nat \<Rightarrow> nat \<Rightarrow> nat option" where
  "dictNextPower_loop i sz = (if i \<ge> sz then Some i else dictNextPower_loop (i * 2) sz)"

definition dictNextPower :: "nat \<Rightarrow> nat option" where
  "dictNextPower sz =
     (if sz \<ge> 2 ^ 63 - 1 then Some (2 ^ 63) else dictNextPower_loop DICT_HT_INITIAL_SIZE sz)"

definition dictExpand :: "('k, 'v) dict \<Rightarrow> nat \<Rightarrow> (('k, 'v) dict \<times> bool) option" where
  \<comment> \<open>the second component is DICT_OK\<close>
  "dictExpand d sz = do {
     realsize \<leftarrow> dictNextPower sz;
     if dictIsRehashing d \<or> used (ht0 d) > sz then Some (d, False)
     else if realsize = htsize (ht0 d) then Some (d, False)
     else do {
       let n = \<lparr>table = replicate realsize [], htsize = realsize, sizemask = of_nat realsize - 1, used = 0\<rparr>;
       if table (ht0 d) = [] then Some (d\<lparr>ht0 := n\<rparr>, True)
       else Some (d\<lparr>ht1 := n, rehashidx := 0\<rparr>, True) } }"

definition dictResize :: "bool \<Rightarrow> ('k, 'v) dict \<Rightarrow> (('k, 'v) dict \<times> bool) option" where
  "dictResize can_resize d =
     (if \<not> can_resize \<or> dictIsRehashing d then Some (d, False)
      else do {
        let minimal = sint (of_nat (used (ht0 d)) :: u32); \<comment> \<open>\<open>int minimal = used\<close>\<close>
        let minimal = (if minimal < int DICT_HT_INITIAL_SIZE then int DICT_HT_INITIAL_SIZE else minimal);
        dictExpand d (nat minimal) })"

definition dictExpandIfNeeded :: "bool \<Rightarrow> ('k, 'v) dict \<Rightarrow> (('k, 'v) dict \<times> bool) option" where
  "dictExpandIfNeeded can_resize d =
     (if dictIsRehashing d then Some (d, True)
      else if htsize (ht0 d) = 0 then dictExpand d DICT_HT_INITIAL_SIZE
      else if used (ht0 d) \<ge> htsize (ht0 d) \<and>
        (can_resize \<or> used (ht0 d) div htsize (ht0 d) > dict_force_resize_ratio)
      then dictExpand d (used (ht0 d) * 2)
      else Some (d, True))"

subsection \<open>Incremental rehashing\<close>

fun rehash_skip :: "('k, 'v) dictEntry list list \<Rightarrow> int \<Rightarrow> int \<Rightarrow> (int \<times> int \<times> bool) option" where
  \<comment> \<open>\<open>while(table[rehashidx] == NULL) { rehashidx++; if (--empty_visits == 0) return 1; }\<close>,
     over the buckets from rehashidx on; the last component is the early return\<close>
  "rehash_skip [] idx ev = None"
| "rehash_skip (b # bs) idx ev =
     (if b = [] then
        if ev - 1 = 0 then Some (idx + 1, ev - 1, True) else rehash_skip bs (idx + 1) (ev - 1)
      else Some (idx, ev, False))"

fun rehash_move :: "('k, 'v) dictEntry list \<Rightarrow> ('k, 'v) dict \<Rightarrow> ('k, 'v) dict option" where
  \<comment> \<open>\<open>while(de) { ... }\<close>: relink the chain's entries at the heads of their new buckets\<close>
  "rehash_move [] d = Some d"
| "rehash_move (de # des) d = do {
     let h = dictHashKey d (key de) AND sizemask (ht1 d);
     b \<leftarrow> bucket (ht1 d) h;
     rehash_move des (d\<lparr>
       ht0 := (ht0 d)\<lparr>used := used (ht0 d) - 1\<rparr>,
       ht1 := (ht1 d)\<lparr>table := (table (ht1 d))[unat h := de # b], used := used (ht1 d) + 1\<rparr>\<rparr>) }"

fun dictRehash_loop :: "nat \<Rightarrow> int \<Rightarrow> ('k, 'v) dict \<Rightarrow> (('k, 'v) dict \<times> bool) option" where
  \<comment> \<open>\<open>while(n-- && d->ht[0].used != 0)\<close>; the flag is the early return 1\<close>
  "dictRehash_loop 0 ev d = Some (d, False)"
| "dictRehash_loop (Suc n) ev d =
     (if used (ht0 d) = 0 then Some (d, False)
      else if \<not> (0 \<le> rehashidx d \<and> nat (rehashidx d) < htsize (ht0 d)) then None \<comment> \<open>assert\<close>
      else do {
        (idx, ev, early) \<leftarrow> rehash_skip (drop (nat (rehashidx d)) (table (ht0 d))) (rehashidx d) ev;
        let d = d\<lparr>rehashidx := idx\<rparr>;
        if early then Some (d, True)
        else do {
          d \<leftarrow> rehash_move (table (ht0 d) ! nat idx) d;
          let d = d\<lparr>ht0 := (ht0 d)\<lparr>table := (table (ht0 d))[nat idx := []]\<rparr>, rehashidx := idx + 1\<rparr>;
          dictRehash_loop n ev d } })"

definition dictRehash :: "('k, 'v) dict \<Rightarrow> nat \<Rightarrow> (('k, 'v) dict \<times> bool) option" where
  \<comment> \<open>the second component is the return value: keys are left to move\<close>
  "dictRehash d n =
     (if \<not> dictIsRehashing d then Some (d, False)
      else do {
        (d, early) \<leftarrow> dictRehash_loop n (int n * 10) d;
        if early then Some (d, True)
        else if used (ht0 d) = 0
          then Some (d\<lparr>ht0 := ht1 d, ht1 := dictReset, rehashidx := -1\<rparr>, False)
          else Some (d, True) })"

partial_function (option) dictRehashMilliseconds_loop ::
  "(nat \<Rightarrow> int) \<Rightarrow> int \<Rightarrow> int \<Rightarrow> nat \<Rightarrow> ('k, 'v) dict \<Rightarrow> nat \<Rightarrow> (('k, 'v) dict \<times> nat) option" where
  \<comment> \<open>\<open>clock i\<close> is what the i-th call of timeInMilliseconds returns\<close>
  "dictRehashMilliseconds_loop clock start ms i d rehashes = do {
     (d, more) \<leftarrow> dictRehash d 100;
     if \<not> more then Some (d, rehashes)
     else if clock i - start > ms then Some (d, rehashes + 100)
     else dictRehashMilliseconds_loop clock start ms (i + 1) d (rehashes + 100) }"

definition dictRehashMilliseconds :: "(nat \<Rightarrow> int) \<Rightarrow> ('k, 'v) dict \<Rightarrow> int \<Rightarrow> (('k, 'v) dict \<times> nat) option" where
  "dictRehashMilliseconds clock d ms = dictRehashMilliseconds_loop clock (clock 0) ms 1 d 0"

definition dictRehashStep :: "('k, 'v) dict \<Rightarrow> ('k, 'v) dict option" where
  "dictRehashStep d = (if iterators d = 0 then map_option fst (dictRehash d 1) else Some d)"

definition rehash_if_needed :: "('k, 'v) dict \<Rightarrow> ('k, 'v) dict option" where
  \<comment> \<open>\<open>if (dictIsRehashing(d)) _dictRehashStep(d);\<close>\<close>
  "rehash_if_needed d = (if dictIsRehashing d then dictRehashStep d else Some d)"

subsection \<open>Insertion\<close>

definition dictKeyIndex ::
  "bool \<Rightarrow> ('k, 'v) dict \<Rightarrow> 'k \<Rightarrow> u64 \<Rightarrow> (('k, 'v) dict \<times> u64 option \<times> entry_ref option) option" where
  \<comment> \<open>the index of a free slot (None for -1) and the existing entry\<close>
  "dictKeyIndex can_resize d k hash = do {
     (d, ok) \<leftarrow> dictExpandIfNeeded can_resize d;
     if \<not> ok then Some (d, None, None)
     else do {
       let idx0 = hash AND sizemask (ht0 d);
       b0 \<leftarrow> bucket (ht0 d) idx0;
       case chain_find (keyMatches d k) b0 of
         Some p \<Rightarrow> Some (d, None, Some (0, unat idx0, p))
       | None \<Rightarrow>
           if \<not> dictIsRehashing d then Some (d, Some idx0, None)
           else do {
             let idx1 = hash AND sizemask (ht1 d);
             b1 \<leftarrow> bucket (ht1 d) idx1;
             case chain_find (keyMatches d k) b1 of
               Some p \<Rightarrow> Some (d, None, Some (1, unat idx1, p))
             | None \<Rightarrow> Some (d, Some idx1, None) } } }"

definition push_entry :: "('k, 'v) dictht \<Rightarrow> u64 \<Rightarrow> ('k, 'v) dictEntry \<Rightarrow> ('k, 'v) dictht option" where
  \<comment> \<open>\<open>entry->next = ht->table[index]; ht->table[index] = entry; ht->used++;\<close>\<close>
  "push_entry t idx e = do {
     b \<leftarrow> bucket t idx;
     Some (t\<lparr>table := (table t)[unat idx := e # b], used := used t + 1\<rparr>) }"

definition dictAddRaw ::
  "bool \<Rightarrow> 'v \<Rightarrow> ('k, 'v) dict \<Rightarrow> 'k \<Rightarrow> (('k, 'v) dict \<times> entry_ref option \<times> entry_ref option) option" where
  \<comment> \<open>the new entry, if one was added, and the existing one; \<open>junk\<close> is the value field of a
     freshly allocated entry\<close>
  "dictAddRaw can_resize junk d k = do {
     d \<leftarrow> rehash_if_needed d;
     (d, index, existing) \<leftarrow> dictKeyIndex can_resize d k (dictHashKey d k);
     case index of
       None \<Rightarrow> Some (d, None, existing)
     | Some idx \<Rightarrow>
         if dictIsRehashing d then do {
           t \<leftarrow> push_entry (ht1 d) idx \<lparr>key = dupKey d k, val = junk\<rparr>;
           Some (d\<lparr>ht1 := t\<rparr>, Some (1, unat idx, 0), existing) }
         else do {
           t \<leftarrow> push_entry (ht0 d) idx \<lparr>key = dupKey d k, val = junk\<rparr>;
           Some (d\<lparr>ht0 := t\<rparr>, Some (0, unat idx, 0), existing) } }"

definition set_val_ht :: "('k, 'v) dictht \<Rightarrow> nat \<Rightarrow> nat \<Rightarrow> 'v \<Rightarrow> ('k, 'v) dictht option" where
  "set_val_ht t i p v =
     (if i < length (table t) \<and> p < length (table t ! i)
      then Some (t\<lparr>table := (table t)[i := (table t ! i)[p := (table t ! i ! p)\<lparr>val := v\<rparr>]]\<rparr>) else None)"

definition dictSetVal :: "('k, 'v) dict \<Rightarrow> entry_ref \<Rightarrow> 'v \<Rightarrow> ('k, 'v) dict option" where
  "dictSetVal d r v =
     (case r of (tb, i, p) \<Rightarrow>
        if tb = 0 then map_option (\<lambda>t. d\<lparr>ht0 := t\<rparr>) (set_val_ht (ht0 d) i p (dupVal d v))
        else map_option (\<lambda>t. d\<lparr>ht1 := t\<rparr>) (set_val_ht (ht1 d) i p (dupVal d v)))"

definition entry_at :: "('k, 'v) dict \<Rightarrow> entry_ref \<Rightarrow> ('k, 'v) dictEntry option" where
  \<comment> \<open>reading through an entry pointer\<close>
  "entry_at d r =
     (case r of (tb, i, p) \<Rightarrow>
        let t = (if tb = 0 then ht0 d else ht1 d)
        in if i < length (table t) \<and> p < length (table t ! i) then Some (table t ! i ! p) else None)"

definition dictAdd :: "bool \<Rightarrow> 'v \<Rightarrow> ('k, 'v) dict \<Rightarrow> 'k \<Rightarrow> 'v \<Rightarrow> (('k, 'v) dict \<times> bool) option" where
  "dictAdd can_resize junk d k v = do {
     (d, entry, _) \<leftarrow> dictAddRaw can_resize junk d k;
     case entry of
       None \<Rightarrow> Some (d, False)
     | Some r \<Rightarrow> do { d \<leftarrow> dictSetVal d r v; Some (d, True) } }"

definition dictReplace ::
  "bool \<Rightarrow> 'v \<Rightarrow> ('k, 'v) dict \<Rightarrow> 'k \<Rightarrow> 'v \<Rightarrow> (('k, 'v) dict \<times> bool \<times> 'v option) option" where
  \<comment> \<open>the return value 1 as True, and the old value handed to the destructor\<close>
  "dictReplace can_resize junk d k v = do {
     (d, entry, existing) \<leftarrow> dictAddRaw can_resize junk d k;
     case entry of
       Some r \<Rightarrow> do { d \<leftarrow> dictSetVal d r v; Some (d, True, None) }
     | None \<Rightarrow> do {
         r \<leftarrow> existing;
         auxentry \<leftarrow> entry_at d r;
         d \<leftarrow> dictSetVal d r v;
         Some (d, False, Some (val auxentry)) } }"

definition dictAddOrFind ::
  "bool \<Rightarrow> 'v \<Rightarrow> ('k, 'v) dict \<Rightarrow> 'k \<Rightarrow> (('k, 'v) dict \<times> entry_ref option) option" where
  "dictAddOrFind can_resize junk d k = do {
     (d, entry, existing) \<leftarrow> dictAddRaw can_resize junk d k;
     Some (d, case entry of Some r \<Rightarrow> Some r | None \<Rightarrow> existing) }"

subsection \<open>Deletion and lookup\<close>

definition unlink_ht :: "('k, 'v) dictht \<Rightarrow> u64 \<Rightarrow> nat \<Rightarrow> ('k, 'v) dictht" where
  "unlink_ht t idx p =
     t\<lparr>table := (table t)[unat idx := take p (table t ! unat idx) @ drop (Suc p) (table t ! unat idx)],
       used := used t - 1\<rparr>"

definition dictGenericDelete ::
  "('k, 'v) dict \<Rightarrow> 'k \<Rightarrow> (('k, 'v) dict \<times> ('k, 'v) dictEntry option) option" where
  \<comment> \<open>the unlinked entry, which is freed unless \<open>nofree\<close> is set\<close>
  "dictGenericDelete d k =
     (if used (ht0 d) = 0 \<and> used (ht1 d) = 0 then Some (d, None)
      else do {
        d \<leftarrow> rehash_if_needed d;
        let h = dictHashKey d k;
        let idx0 = h AND sizemask (ht0 d);
        b0 \<leftarrow> bucket (ht0 d) idx0;
        case chain_find (keyMatches d k) b0 of
          Some p \<Rightarrow> Some (d\<lparr>ht0 := unlink_ht (ht0 d) idx0 p\<rparr>, Some (b0 ! p))
        | None \<Rightarrow>
            if \<not> dictIsRehashing d then Some (d, None)
            else do {
              let idx1 = h AND sizemask (ht1 d);
              b1 \<leftarrow> bucket (ht1 d) idx1;
              case chain_find (keyMatches d k) b1 of
                Some p \<Rightarrow> Some (d\<lparr>ht1 := unlink_ht (ht1 d) idx1 p\<rparr>, Some (b1 ! p))
              | None \<Rightarrow> Some (d, None) } })"

definition dictDelete :: "('k, 'v) dict \<Rightarrow> 'k \<Rightarrow> (('k, 'v) dict \<times> bool) option" where
  \<comment> \<open>the second component is DICT_OK\<close>
  "dictDelete d k = do { (d, e) \<leftarrow> dictGenericDelete d k; Some (d, e \<noteq> None) }"

definition dictUnlink :: "('k, 'v) dict \<Rightarrow> 'k \<Rightarrow> (('k, 'v) dict \<times> ('k, 'v) dictEntry option) option" where
  "dictUnlink d k = dictGenericDelete d k"

fun dictClear_loop :: "('k, 'v) dictEntry list list \<Rightarrow> nat \<Rightarrow> ('k, 'v) dictEntry list" where
  \<comment> \<open>\<open>for (i = 0; i < ht->size && ht->used > 0; i++)\<close>: the entries freed\<close>
  "dictClear_loop [] u = []"
| "dictClear_loop (b # bs) u = (if u = 0 then [] else b @ dictClear_loop bs (u - length b))"

definition dictClear :: "('k, 'v) dictht \<Rightarrow> ('k, 'v) dictht \<times> ('k, 'v) dictEntry list" where
  "dictClear t = (dictReset, dictClear_loop (table t) (used t))"

definition dictEmpty :: "('k, 'v) dict \<Rightarrow> ('k, 'v) dict \<times> ('k, 'v) dictEntry list" where
  "dictEmpty d =
     (let (t0, f0) = dictClear (ht0 d); (t1, f1) = dictClear (ht1 d)
      in (d\<lparr>ht0 := t0, ht1 := t1, rehashidx := -1, iterators := 0\<rparr>, f0 @ f1))"

definition dictFind :: "('k, 'v) dict \<Rightarrow> 'k \<Rightarrow> (('k, 'v) dict \<times> entry_ref option) option" where
  "dictFind d k =
     (if used (ht0 d) + used (ht1 d) = 0 then Some (d, None)
      else do {
        d \<leftarrow> rehash_if_needed d;
        let h = dictHashKey d k;
        let idx0 = h AND sizemask (ht0 d);
        b0 \<leftarrow> bucket (ht0 d) idx0;
        case chain_find (keyMatches d k) b0 of
          Some p \<Rightarrow> Some (d, Some (0, unat idx0, p))
        | None \<Rightarrow>
            if \<not> dictIsRehashing d then Some (d, None)
            else do {
              let idx1 = h AND sizemask (ht1 d);
              b1 \<leftarrow> bucket (ht1 d) idx1;
              case chain_find (keyMatches d k) b1 of
                Some p \<Rightarrow> Some (d, Some (1, unat idx1, p))
              | None \<Rightarrow> Some (d, None) } })"

definition dictFetchValue :: "('k, 'v) dict \<Rightarrow> 'k \<Rightarrow> (('k, 'v) dict \<times> 'v option) option" where
  "dictFetchValue d k = do {
     (d, he) \<leftarrow> dictFind d k;
     case he of None \<Rightarrow> Some (d, None)
     | Some r \<Rightarrow> do { e \<leftarrow> entry_at d r; Some (d, Some (val e)) } }"

subsection \<open>The global resize switch and a client's operations\<close>

text \<open>The state a client works on: a dictionary and the global \<open>dict_can_resize\<close>.\<close>

datatype dict_task = Rehash nat | Resize | EnableResize | DisableResize

definition dictEnableResize :: "bool \<Rightarrow> bool" where "dictEnableResize can_resize = True"
definition dictDisableResize :: "bool \<Rightarrow> bool" where "dictDisableResize can_resize = False"

fun dict_exec :: "'v \<Rightarrow> ('k, 'v) dict \<times> bool \<Rightarrow> ('k, 'v, dict_task) map_op \<Rightarrow>
    ((('k, 'v) dict \<times> bool) \<times> 'v map_reply) option" where
  "dict_exec junk (d, cr) (Add k v) = do { (d, b) \<leftarrow> dictAdd cr junk d k v; Some ((d, cr), Flag b) }"
| "dict_exec junk (d, cr) (Replace k v) = do { (d, b, _) \<leftarrow> dictReplace cr junk d k v; Some ((d, cr), Flag b) }"
| "dict_exec junk (d, cr) (Delete k) = do { (d, b) \<leftarrow> dictDelete d k; Some ((d, cr), Flag b) }"
| "dict_exec junk (d, cr) (Fetch k) = do { (d, r) \<leftarrow> dictFetchValue d k; Some ((d, cr), Found r) }"
| "dict_exec junk (d, cr) (Task (Rehash n)) = do { (d, _) \<leftarrow> dictRehash d n; Some ((d, cr), Done) }"
| "dict_exec junk (d, cr) (Task Resize) = do { (d, _) \<leftarrow> dictResize cr d; Some ((d, cr), Done) }"
| "dict_exec junk (d, cr) (Task EnableResize) = Some ((d, dictEnableResize cr), Done)"
| "dict_exec junk (d, cr) (Task DisableResize) = Some ((d, dictDisableResize cr), Done)"

section \<open>Correctness of the dictionary\<close>

text \<open>Callbacks a dictionary may rely on: \<open>keyCompare\<close> decides equality and the
  duplicating callbacks copy. \<open>ht_ok\<close>: the size is a power of two, every entry is in the
  bucket of its hash and \<open>used\<close> counts the entries. \<open>dict_ok\<close> adds that keys are unique over
  both tables and that the buckets before \<open>rehashidx\<close> have been emptied.\<close>

definition dictType_ok :: "('k, 'v) dictType \<Rightarrow> bool" where
  "dictType_ok ty \<longleftrightarrow>
     (\<forall>f. keyCompare ty = Some f \<longrightarrow> (\<forall>a b. f a b \<longleftrightarrow> a = b)) \<and>
     (\<forall>f. keyDup ty = Some f \<longrightarrow> (\<forall>a. f a = a)) \<and> (\<forall>f. valDup ty = Some f \<longrightarrow> (\<forall>a. f a = a))"

definition ht_ok :: "('k \<Rightarrow> u64) \<Rightarrow> ('k, 'v) dictht \<Rightarrow> bool" where
  "ht_ok h t \<longleftrightarrow>
     htsize t = length (table t) \<and> used t = length (concat (table t)) \<and>
     (if htsize t = 0 then sizemask t = 0
      else (\<exists>n<64. htsize t = 2 ^ n) \<and> sizemask t = of_nat (htsize t) - 1) \<and>
     (\<forall>i<length (table t). \<forall>e\<in>set (table t ! i). unat (h (key e) AND sizemask t) = i)"

definition entries :: "('k, 'v) dict \<Rightarrow> ('k, 'v) dictEntry list" where
  "entries d = concat (table (ht0 d)) @ concat (table (ht1 d))"

definition dict_ok :: "('k, 'v) dict \<Rightarrow> bool" where
  "dict_ok d \<longleftrightarrow>
     ht_ok (hashFunction (dtype d)) (ht0 d) \<and> ht_ok (hashFunction (dtype d)) (ht1 d) \<and>
     distinct (map key (entries d)) \<and>
     (if dictIsRehashing d
      then 0 \<le> rehashidx d \<and> nat (rehashidx d) \<le> htsize (ht0 d) \<and> htsize (ht0 d) > 0 \<and> htsize (ht1 d) > 0 \<and>
        (\<forall>i<nat (rehashidx d). table (ht0 d) ! i = [])
      else ht1 d = dictReset)"

definition dict_map :: "('k, 'v) dict \<Rightarrow> 'k \<rightharpoonup> 'v" where
  "dict_map d = map_of (map (\<lambda>e. (key e, val e)) (entries d))"

subsection \<open>Buckets\<close>

lemma keyMatches_iff: "dictType_ok (dtype d) \<Longrightarrow> keyMatches d a b \<longleftrightarrow> a = b"
  by (auto simp: keyMatches_def dictCompareKeys_def dictType_ok_def split: option.splits)

lemma dup_id [simp]: "dictType_ok (dtype d) \<Longrightarrow> dupKey d k = k" "dictType_ok (dtype d) \<Longrightarrow> dupVal d v = v"
  by (auto simp: dupKey_def dupVal_def dictType_ok_def split: option.splits)

lemma and_mask_less:
  assumes "n < 64"
  shows "unat (x AND (of_nat (2 ^ n) - 1) :: u64) < 2 ^ n"
proof -
  have "(of_nat (2 ^ n) - 1 :: u64) = mask n" by (simp add: mask_eq_exp_minus_1)
  then have "x AND (of_nat (2 ^ n) - 1) = take_bit n x" by (simp add: take_bit_eq_mask)
  then show ?thesis by (simp add: unsigned_take_bit_eq)
qed

lemma ht_index_less: "ht_ok h t \<Longrightarrow> htsize t > 0 \<Longrightarrow> unat (x AND sizemask t) < length (table t)"
proof -
  assume "ht_ok h t" "htsize t > 0"
  then obtain n where "n < 64" "length (table t) = 2 ^ n" "sizemask t = of_nat (2 ^ n) - 1"
    by (auto simp: ht_ok_def)
  with and_mask_less show ?thesis by metis
qed

lemma bucket_Some: "ht_ok h t \<Longrightarrow> htsize t > 0 \<Longrightarrow> bucket t (x AND sizemask t) = Some (table t ! unat (x AND sizemask t))"
  by (simp add: bucket_def ht_index_less)

lemma chain_find_Some: "chain_find p b = Some i \<Longrightarrow> i < length b \<and> p (key (b ! i))"
  by (induction b arbitrary: i) (auto split: if_splits)

lemma chain_find_None: "chain_find p b = None \<longleftrightarrow> (\<forall>e\<in>set b. \<not> p (key e))"
  by (induction b) auto

lemma in_concat_bucket:
  assumes "ht_ok h t" and "e \<in> set (concat (table t))"
  shows "e \<in> set (table t ! unat (h (key e) AND sizemask t))"
proof -
  from assms(2) obtain b where "b \<in> set (table t)" "e \<in> set b" by auto
  then obtain i where "i < length (table t)" "e \<in> set (table t ! i)"
    by (metis in_set_conv_nth)
  with assms(1) show ?thesis by (auto simp: ht_ok_def)
qed

lemma in_bucket_concat: "i < length (table t) \<Longrightarrow> e \<in> set (table t ! i) \<Longrightarrow> e \<in> set (concat (table t))"
  by auto

lemma empty_ht_used: "ht_ok h t \<Longrightarrow> used t > 0 \<Longrightarrow> htsize t > 0"
  by (auto simp: ht_ok_def)

lemma mset_concat_upd:
  "i < length xs \<Longrightarrow> mset (concat (xs[i := b])) + mset (xs ! i) = mset (concat xs) + mset b"
proof (induction xs arbitrary: i)
  case (Cons x xs)
  then show ?case by (cases i) (auto simp: ac_simps)
qed simp

lemma mset_concat_push:
  "i < length xs \<Longrightarrow> mset (concat (xs[i := e # xs ! i])) = add_mset e (mset (concat xs))"
  using mset_concat_upd [of i xs "e # xs ! i"] by simp

lemma ht_ok_push:
  assumes "ht_ok h t" and "htsize t > 0"
  shows "push_entry t (h (key e) AND sizemask t) e =
      Some (t\<lparr>table := (table t)[unat (h (key e) AND sizemask t) := e # table t ! unat (h (key e) AND sizemask t)],
        used := used t + 1\<rparr>)"
    and "ht_ok h (t\<lparr>table := (table t)[unat (h (key e) AND sizemask t) := e # table t ! unat (h (key e) AND sizemask t)],
        used := used t + 1\<rparr>)"
proof -
  let ?i = "unat (h (key e) AND sizemask t)"
  have i: "?i < length (table t)" using assms by (rule ht_index_less)
  show "push_entry t (h (key e) AND sizemask t) e =
      Some (t\<lparr>table := (table t)[?i := e # table t ! ?i], used := used t + 1\<rparr>)"
    using assms by (simp add: push_entry_def bucket_Some)
  have "length (concat ((table t)[?i := e # table t ! ?i])) = length (concat (table t)) + 1"
    using arg_cong [OF mset_concat_push [OF i, of e], of size] by simp
  with assms i show "ht_ok h (t\<lparr>table := (table t)[?i := e # table t ! ?i], used := used t + 1\<rparr>)"
    by (auto simp: ht_ok_def nth_list_update)
qed

lemma dict_map_iff:
  assumes "distinct (map key (entries d))"
  shows "dict_map d k = Some v \<longleftrightarrow> (\<exists>e\<in>set (entries d). key e = k \<and> val e = v)"
  using assms by (auto simp: dict_map_def comp_def)

lemma dict_map_cong:
  assumes "mset (entries d) = mset (entries d')" and "distinct (map key (entries d))"
  shows "dict_map d = dict_map d'"
proof -
  have "mset (map key (entries d)) = mset (map key (entries d'))" using assms(1) by simp
  then have "distinct (map key (entries d'))" using assms(2) by (metis mset_eq_imp_distinct_iff)
  moreover have "set (entries d) = set (entries d')" using assms(1) by (rule mset_eq_setD)
  ultimately show ?thesis using assms(2) dict_map_iff [of d] dict_map_iff [of d']
    by (intro ext) (metis not_None_eq option.inject)
qed

subsection \<open>Rehashing\<close>

lemma rehash_move_ok:
  assumes "ht_ok (hashFunction (dtype d)) (ht1 d)" and "htsize (ht1 d) > 0"
  shows "\<exists>t1. rehash_move des d = Some (d\<lparr>ht0 := (ht0 d)\<lparr>used := used (ht0 d) - length des\<rparr>, ht1 := t1\<rparr>) \<and>
    ht_ok (hashFunction (dtype d)) t1 \<and> mset (concat (table t1)) = mset des + mset (concat (table (ht1 d))) \<and>
    htsize t1 = htsize (ht1 d)"
  using assms
proof (induction des arbitrary: d)
  case Nil
  then show ?case by (auto intro!: exI [of _ "ht1 d"])
next
  case (Cons de des)
  let ?h = "hashFunction (dtype d)"
  let ?i = "unat (?h (key de) AND sizemask (ht1 d))"
  let ?t = "(ht1 d)\<lparr>table := (table (ht1 d))[?i := de # table (ht1 d) ! ?i], used := used (ht1 d) + 1\<rparr>"
  let ?d = "d\<lparr>ht0 := (ht0 d)\<lparr>used := used (ht0 d) - 1\<rparr>, ht1 := ?t\<rparr>"
  have i: "?i < length (table (ht1 d))" using Cons.prems by (rule ht_index_less)
  have ok: "ht_ok ?h ?t" using ht_ok_push(2) [OF Cons.prems] .
  have step: "rehash_move (de # des) d = rehash_move des ?d"
    using bucket_Some [OF Cons.prems] by (simp add: dictHashKey_def Let_def)
  obtain t1 where "rehash_move des ?d = Some (?d\<lparr>ht0 := (ht0 ?d)\<lparr>used := used (ht0 ?d) - length des\<rparr>, ht1 := t1\<rparr>)"
    "ht_ok ?h t1" "mset (concat (table t1)) = mset des + mset (concat (table ?t))" "htsize t1 = htsize (ht1 d)"
    using Cons.IH [of ?d] ok Cons.prems(2) by auto
  then show ?case using mset_concat_push [OF i, of de] step by auto
qed

lemma rehash_skip_ok:
  assumes "\<exists>b\<in>set bs. b \<noteq> []"
  shows "\<exists>k ev' early. rehash_skip bs idx ev = Some (idx + int k, ev', early) \<and> k < length bs + (if early then 1 else 0) \<and>
    (\<forall>i<k. bs ! i = []) \<and> (if early then k > 0 \<and> (\<exists>b\<in>set (drop k bs). b \<noteq> []) else bs ! k \<noteq> [])"
  using assms
proof (induction bs arbitrary: idx ev)
  case Nil
  then show ?case by simp
next
  case (Cons b bs)
  show ?case
  proof (cases "b = []")
    case False
    then show ?thesis by (auto intro!: exI [of _ 0])
  next
    case True
    then have ne: "\<exists>b\<in>set bs. b \<noteq> []" using Cons.prems by auto
    show ?thesis
    proof (cases "ev - 1 = 0")
      case True
      then show ?thesis using \<open>b = []\<close> ne by (auto intro!: exI [of _ 1])
    next
      case False
      obtain k ev' early where k: "rehash_skip bs (idx + 1) (ev - 1) = Some (idx + 1 + int k, ev', early)"
        "k < length bs + (if early then 1 else 0)" "\<forall>i<k. bs ! i = []"
        "if early then k > 0 \<and> (\<exists>b\<in>set (drop k bs). b \<noteq> []) else bs ! k \<noteq> []"
        using Cons.IH [OF ne, of "idx + 1" "ev - 1"] by blast
      have "\<forall>i<Suc k. (b # bs) ! i = []" using k(3) \<open>b = []\<close> by (auto simp: less_Suc_eq_0_disj)
      then show ?thesis using k False \<open>b = []\<close>
        by (intro exI [of _ "Suc k"] exI [of _ ev'] exI [of _ early]) auto
    qed
  qed
qed

lemma ht_ok_reset: "ht_ok h dictReset"
  by (simp add: ht_ok_def dictReset_def)

definition same_shell :: "('k, 'v) dict \<Rightarrow> ('k, 'v) dict \<Rightarrow> bool" where
  "same_shell d d' \<longleftrightarrow> dtype d' = dtype d \<and> iterators d' = iterators d \<and> mset (entries d') = mset (entries d)"

lemma same_shell_trans: "same_shell a b \<Longrightarrow> same_shell b c \<Longrightarrow> same_shell a c"
  by (simp add: same_shell_def)

lemma same_shell_distinct:
  "same_shell d d' \<Longrightarrow> distinct (map key (entries d)) \<Longrightarrow> distinct (map key (entries d'))"
  unfolding same_shell_def by (metis mset_eq_imp_distinct_iff mset_map)

lemma rehash_bucket:
  assumes ok: "dict_ok d" and re: "dictIsRehashing d" and u: "used (ht0 d) \<noteq> 0"
    and idx: "nat (rehashidx d) \<le> j" "j < length (table (ht0 d))" "\<forall>i<j. table (ht0 d) ! i = []"
  shows "\<exists>d1. rehash_move (table (ht0 d) ! j) (d\<lparr>rehashidx := int j\<rparr>) = Some d1 \<and>
    dict_ok (d1\<lparr>ht0 := (ht0 d1)\<lparr>table := (table (ht0 d1))[j := []]\<rparr>, rehashidx := int j + 1\<rparr>) \<and>
    same_shell d (d1\<lparr>ht0 := (ht0 d1)\<lparr>table := (table (ht0 d1))[j := []]\<rparr>, rehashidx := int j + 1\<rparr>) \<and>
    htsize (ht0 d1) = htsize (ht0 d)"
proof -
  let ?h = "hashFunction (dtype d)" and ?b = "table (ht0 d) ! j"
  from ok re have oks: "ht_ok ?h (ht0 d)" "ht_ok ?h (ht1 d)" "htsize (ht1 d) > 0" "distinct (map key (entries d))"
    "htsize (ht0 d) > 0"
    by (auto simp: dict_ok_def)
  obtain t1 where t1: "rehash_move ?b (d\<lparr>rehashidx := int j\<rparr>) =
      Some (d\<lparr>rehashidx := int j, ht0 := (ht0 d)\<lparr>used := used (ht0 d) - length ?b\<rparr>, ht1 := t1\<rparr>)"
    "ht_ok ?h t1" "mset (concat (table t1)) = mset ?b + mset (concat (table (ht1 d)))" "htsize t1 = htsize (ht1 d)"
    using rehash_move_ok [of "d\<lparr>rehashidx := int j\<rparr>" ?b] oks by auto
  let ?d2 = "d\<lparr>ht1 := t1, ht0 := (ht0 d)\<lparr>used := used (ht0 d) - length ?b, table := (table (ht0 d))[j := []]\<rparr>,
    rehashidx := int j + 1\<rparr>"
  have m0: "mset (concat ((table (ht0 d))[j := []])) + mset ?b = mset (concat (table (ht0 d)))"
    using mset_concat_upd [OF idx(2), of "[]"] by simp
  have shell: "same_shell d ?d2"
    using m0 t1(3) by (simp add: same_shell_def entries_def ac_simps)
  have "length (concat ((table (ht0 d))[j := []])) = length (concat (table (ht0 d))) - length ?b"
    using arg_cong [OF m0, of size] by simp
  then have h0: "ht_ok ?h (ht0 ?d2)"
    using oks(1) idx(2) by (auto simp: ht_ok_def nth_list_update)
  have "dict_ok ?d2"
    unfolding dict_ok_def
    using h0 t1(2,4) oks(3,5) idx same_shell_distinct [OF shell oks(4)]
    by (auto simp: dictIsRehashing_def nth_list_update less_Suc_eq nat_add_distrib ht_ok_def)
  with shell t1(1) show ?thesis by simp
qed

lemma dictRehash_loop_ok:
  assumes "dict_ok d" and "dictIsRehashing d"
  shows "\<exists>d' early. dictRehash_loop n ev d = Some (d', early) \<and> dict_ok d' \<and> same_shell d d' \<and>
    dictIsRehashing d' \<and> htsize (ht0 d') = htsize (ht0 d) \<and> rehashidx d \<le> rehashidx d' \<and>
    (n > 0 \<longrightarrow> used (ht0 d) \<noteq> 0 \<longrightarrow> rehashidx d < rehashidx d')"
  using assms
proof (induction n arbitrary: ev d)
  case 0
  then show ?case by (intro exI [of _ d]) (auto simp: same_shell_def)
next
  case (Suc n)
  let ?i = "nat (rehashidx d)" and ?T = "table (ht0 d)"
  from Suc.prems have ok: "ht_ok (hashFunction (dtype d)) (ht0 d)" "0 \<le> rehashidx d" "?i \<le> htsize (ht0 d)"
    "\<forall>i<?i. ?T ! i = []" "length ?T = htsize (ht0 d)"
    by (auto simp: dict_ok_def ht_ok_def)
  show ?case
  proof (cases "used (ht0 d) = 0")
    case True
    then show ?thesis using Suc.prems by (intro exI [of _ d]) (auto simp: same_shell_def)
  next
    case False
    then have "concat ?T \<noteq> []" using ok(1) by (auto simp: ht_ok_def)
    moreover have "concat (take ?i ?T) = []"
      using ok(3,4,5) by (auto simp: in_set_conv_nth)
    ultimately have "concat (drop ?i ?T) \<noteq> []"
      by (metis append_take_drop_id append_Nil concat_append)
    then have ne: "\<exists>b\<in>set (drop ?i ?T). b \<noteq> []" by auto
    then have lt: "?i < htsize (ht0 d)" using ok(5) by (cases "?i < length ?T") auto
    obtain k ev' early where k: "rehash_skip (drop ?i ?T) (rehashidx d) ev = Some (rehashidx d + int k, ev', early)"
      "k < length (drop ?i ?T) + (if early then 1 else 0)" "\<forall>i<k. drop ?i ?T ! i = []"
      "if early then k > 0 \<and> (\<exists>b\<in>set (drop k (drop ?i ?T)). b \<noteq> []) else drop ?i ?T ! k \<noteq> []"
      using rehash_skip_ok [OF ne] by blast
    have bef: "\<forall>i<?i + k. ?T ! i = []"
    proof (intro allI impI)
      fix i assume "i < ?i + k"
      then show "?T ! i = []" using ok(4) k(2) k(3) [rule_format, of "i - ?i"] by (cases "i < ?i") (auto split: if_splits)
    qed
    have nk: "nat (rehashidx d + int k) = ?i + k" using ok(2) by (simp add: nat_add_distrib)
    show ?thesis
    proof (cases early)
      case True
      let ?d = "d\<lparr>rehashidx := rehashidx d + int k\<rparr>"
      have "?i + k \<le> htsize (ht0 d)" using k(2) ok(5) True lt by auto
      then have "dict_ok ?d"
        using Suc.prems bef ok(2) nk unfolding dict_ok_def
        by (simp add: dictIsRehashing_def entries_def)
      moreover have "dictIsRehashing ?d" using ok(2) by (simp add: dictIsRehashing_def)
      moreover have "same_shell d ?d" by (simp add: same_shell_def entries_def)
      moreover have "dictRehash_loop (Suc n) ev d = Some (?d, True)"
        using False lt ok(2) k(1) True by (simp add: Let_def)
      moreover have "k > 0" using k(4) True by simp
      ultimately show ?thesis
        by (intro exI [of _ ?d] exI [of _ True] conjI) simp_all
    next
      case notearly: False
      let ?j = "?i + k"
      have j: "?j < length ?T" using k(2) notearly by auto
      obtain d1 where d1: "rehash_move (?T ! ?j) (d\<lparr>rehashidx := int ?j\<rparr>) = Some d1"
        "dict_ok (d1\<lparr>ht0 := (ht0 d1)\<lparr>table := (table (ht0 d1))[?j := []]\<rparr>, rehashidx := int ?j + 1\<rparr>)"
        "same_shell d (d1\<lparr>ht0 := (ht0 d1)\<lparr>table := (table (ht0 d1))[?j := []]\<rparr>, rehashidx := int ?j + 1\<rparr>)"
        "htsize (ht0 d1) = htsize (ht0 d)"
        using rehash_bucket [OF Suc.prems False _ j bef] by auto
      let ?d2 = "d1\<lparr>ht0 := (ht0 d1)\<lparr>table := (table (ht0 d1))[?j := []]\<rparr>, rehashidx := int ?j + 1\<rparr>"
      have "dictIsRehashing ?d2" by (simp add: dictIsRehashing_def)
      from Suc.IH [OF d1(2) this, of ev'] obtain d' early' where
        d': "dictRehash_loop n ev' ?d2 = Some (d', early')" "dict_ok d'" "same_shell ?d2 d'" "dictIsRehashing d'"
          "htsize (ht0 d') = htsize (ht0 ?d2)" "rehashidx ?d2 \<le> rehashidx d'"
        by blast
      have jj: "int ?j = rehashidx d + int k" using ok(2) by simp
      have "dictRehash_loop (Suc n) ev d = Some (d', early')"
        using False lt ok(2) k(1) notearly d1(1) d'(1) unfolding jj by (simp add: nk Let_def)
      then show ?thesis
        using d'(2,4,5,6) d1(4) same_shell_trans [OF d1(3) d'(3)] ok(2)
        by (intro exI [of _ d'] exI [of _ early'] conjI) simp_all
    qed
  qed
qed

definition rehash_left :: "('k, 'v) dict \<Rightarrow> nat" where
  \<comment> \<open>buckets the rehashing has still to visit, plus the switch of the tables\<close>
  "rehash_left d = (if dictIsRehashing d then htsize (ht0 d) + 1 - nat (rehashidx d) else 0)"

lemma dictRehash_ok:
  assumes "dict_ok d"
  shows "\<exists>d'. dictRehash d n = Some (d', dictIsRehashing d') \<and> dict_ok d' \<and> same_shell d d' \<and>
    rehash_left d' \<le> rehash_left d \<and> (n > 0 \<longrightarrow> dictIsRehashing d \<longrightarrow> rehash_left d' < rehash_left d)"
proof (cases "dictIsRehashing d")
  case False
  then show ?thesis using assms by (simp add: dictRehash_def same_shell_def rehash_left_def)
next
  case True
  obtain d1 early where d1: "dictRehash_loop n (int n * 10) d = Some (d1, early)" "dict_ok d1" "same_shell d d1"
    "dictIsRehashing d1" "htsize (ht0 d1) = htsize (ht0 d)" "rehashidx d \<le> rehashidx d1"
    "n > 0 \<longrightarrow> used (ht0 d) \<noteq> 0 \<longrightarrow> rehashidx d < rehashidx d1"
    using dictRehash_loop_ok [OF assms True] by blast
  from assms True have r: "0 \<le> rehashidx d" "nat (rehashidx d) \<le> htsize (ht0 d)" by (auto simp: dict_ok_def)
  show ?thesis
  proof (cases "\<not> early \<and> used (ht0 d1) = 0")
    case True
    let ?d = "d1\<lparr>ht0 := ht1 d1, ht1 := dictReset, rehashidx := -1\<rparr>"
    have nil: "concat (table (ht0 d1)) = []" using True d1(2) by (simp add: dict_ok_def ht_ok_def)
    then have e: "entries ?d = entries d1" by (simp add: entries_def dictReset_def)
    then have sh: "same_shell d ?d" using d1(3) by (simp add: same_shell_def)
    have "dict_ok ?d"
      using d1(2,4) e by (simp add: dict_ok_def dictIsRehashing_def ht_ok_reset)
    moreover have "dictRehash d n = Some (?d, False)"
      using \<open>dictIsRehashing d\<close> d1(1) True by (simp add: dictRehash_def)
    ultimately show ?thesis using sh r \<open>dictIsRehashing d\<close>
      by (intro exI [of _ ?d]) (auto simp: dictIsRehashing_def rehash_left_def)
  next
    case False
    then have "dictRehash d n = Some (d1, True)"
      using \<open>dictIsRehashing d\<close> d1(1) by (auto simp: dictRehash_def)
    moreover have "rehash_left d1 \<le> rehash_left d"
      using d1(4,5,6) \<open>dictIsRehashing d\<close> by (simp add: rehash_left_def nat_mono diff_le_mono2)
    moreover have "rehash_left d1 < rehash_left d" if "n > 0"
    proof -
      have "used (ht0 d) \<noteq> 0"
      proof
        assume "used (ht0 d) = 0"
        with d1(1) that have "d1 = d" "\<not> early" by (cases n; simp)+
        with False \<open>used (ht0 d) = 0\<close> show False by simp
      qed
      then have "nat (rehashidx d) < nat (rehashidx d1)" using d1(7) that r by simp
      with r(2) d1(4,5) \<open>dictIsRehashing d\<close> show ?thesis
        by (simp only: rehash_left_def if_True)
    qed
    ultimately show ?thesis using d1 by auto
  qed
qed

lemma rehash_if_needed_ok:
  assumes "dict_ok d"
  shows "\<exists>d'. rehash_if_needed d = Some d' \<and> dict_ok d' \<and> same_shell d d'"
  using dictRehash_ok [OF assms, of 1] assms
  by (auto simp: rehash_if_needed_def dictRehashStep_def same_shell_def)

subsection \<open>Growing\<close>

lemma dictNextPower_loop_ok:
  "j \<le> 63 \<Longrightarrow> sz \<le> 2 ^ 63 \<Longrightarrow> \<exists>n\<le>63. dictNextPower_loop (2 ^ j) sz = Some (2 ^ n) \<and> sz \<le> 2 ^ n"
proof (induction "63 - j" arbitrary: j)
  case 0
  then show ?case by (intro exI [of _ 63]) (simp add: dictNextPower_loop.simps)
next
  case (Suc m)
  show ?case
  proof (cases "2 ^ j \<ge> sz")
    case True
    then show ?thesis using Suc.prems by (intro exI [of _ j]) (simp add: dictNextPower_loop.simps)
  next
    case False
    have "dictNextPower_loop (2 ^ j) sz = dictNextPower_loop (2 ^ Suc j) sz"
      using False by (subst dictNextPower_loop.simps) (simp add: mult.commute)
    moreover have "\<exists>n\<le>63. dictNextPower_loop (2 ^ Suc j) sz = Some (2 ^ n) \<and> sz \<le> 2 ^ n"
      using Suc by (intro Suc.hyps) auto
    ultimately show ?thesis by simp
  qed
qed

lemma dictNextPower_ok: "sz \<le> 2 ^ 63 \<Longrightarrow> \<exists>n<64. dictNextPower sz = Some (2 ^ n) \<and> sz \<le> 2 ^ n"
proof (cases "sz \<ge> 2 ^ 63 - 1")
  case True
  assume "sz \<le> 2 ^ 63"
  then show ?thesis using True by (intro exI [of _ 63]) (simp add: dictNextPower_def)
next
  case False
  assume "sz \<le> 2 ^ 63"
  then obtain n where "n \<le> 63" "dictNextPower_loop (2 ^ 2) sz = Some (2 ^ n)" "sz \<le> 2 ^ n"
    using dictNextPower_loop_ok [of 2 sz] by auto
  then show ?thesis using False by (intro exI [of _ n]) (simp add: dictNextPower_def DICT_HT_INITIAL_SIZE_def)
qed

lemma new_table_ok: "n < 64 \<Longrightarrow> ht_ok h \<lparr>table = replicate (2 ^ n) [], htsize = 2 ^ n, sizemask = of_nat (2 ^ n) - 1, used = 0\<rparr>"
  by (auto simp: ht_ok_def concat_replicate_trivial)

lemma dictExpand_ok:
  assumes ok: "dict_ok d" and sz: "sz \<le> 2 ^ 63"
  shows "\<exists>d' b. dictExpand d sz = Some (d', b) \<and> dict_ok d' \<and> same_shell d d' \<and>
    (b \<longleftrightarrow> \<not> dictIsRehashing d \<and> used (ht0 d) \<le> sz \<and> dictNextPower sz \<noteq> Some (htsize (ht0 d))) \<and>
    (b \<longrightarrow> htsize (ht0 d') > 0)"
proof -
  obtain n where n: "n < 64" "dictNextPower sz = Some (2 ^ n)" using dictNextPower_ok [OF sz] by blast
  let ?n = "\<lparr>table = replicate (2 ^ n) [], htsize = 2 ^ n, sizemask = of_nat (2 ^ n) - 1, used = 0\<rparr> :: ('a, 'b) dictht"
  have nok: "ht_ok h ?n" for h using n(1) by (rule new_table_ok)
  show ?thesis
  proof (cases "dictIsRehashing d \<or> used (ht0 d) > sz \<or> 2 ^ n = htsize (ht0 d)")
    case True
    then have "dictExpand d sz = Some (d, False)" using n(2) by (auto simp: dictExpand_def)
    then show ?thesis using True ok n(2) by (auto simp: same_shell_def)
  next
    case False
    then have nr: "\<not> dictIsRehashing d" by simp
    from ok nr have o: "ht_ok (hashFunction (dtype d)) (ht0 d)" "ht1 d = dictReset"
      by (auto simp: dict_ok_def)
    let ?d = "if table (ht0 d) = [] then d\<lparr>ht0 := ?n\<rparr> else d\<lparr>ht1 := ?n, rehashidx := 0\<rparr>"
    have "dictExpand d sz = Some (?d, True)" using False n(2) by (auto simp: dictExpand_def Let_def)
    moreover have e: "entries ?d = entries d"
      using o(2) by (auto simp: entries_def concat_replicate_trivial dictReset_def)
    moreover have "htsize (ht0 ?d) > 0" using o(1) by (auto simp: ht_ok_def)
    moreover have "dict_ok ?d"
    proof (cases "table (ht0 d) = []")
      case True
      with ok nr nok o e show ?thesis by (simp add: dict_ok_def dictIsRehashing_def)
    next
      case False
      then have "htsize (ht0 d) > 0" using o(1) by (simp add: ht_ok_def)
      with False ok nr nok o e show ?thesis by (simp add: dict_ok_def dictIsRehashing_def)
    qed
    ultimately show ?thesis using False n(2) by (auto simp: same_shell_def)
  qed
qed

lemma dictExpandIfNeeded_ok:
  assumes ok: "dict_ok d" and sz: "dictSize d < 2 ^ 62"
  shows "\<exists>d'. dictExpandIfNeeded cr d = Some (d', True) \<and> dict_ok d' \<and> same_shell d d' \<and> htsize (ht0 d') > 0"
proof -
  have u: "used (ht0 d) < 2 ^ 62" using sz by (simp add: dictSize_def)
  consider (re) "dictIsRehashing d" | (empty) "\<not> dictIsRehashing d" "htsize (ht0 d) = 0"
    | (grow) "\<not> dictIsRehashing d" "htsize (ht0 d) > 0" "used (ht0 d) \<ge> htsize (ht0 d) \<and>
        (cr \<or> used (ht0 d) div htsize (ht0 d) > dict_force_resize_ratio)"
    | (keep) "\<not> dictIsRehashing d" "htsize (ht0 d) > 0" "\<not> (used (ht0 d) \<ge> htsize (ht0 d) \<and>
        (cr \<or> used (ht0 d) div htsize (ht0 d) > dict_force_resize_ratio))"
    by blast
  then show ?thesis
  proof cases
    case re
    then show ?thesis using ok by (auto simp: dictExpandIfNeeded_def same_shell_def dict_ok_def)
  next
    case empty
    have "used (ht0 d) = 0" using ok empty by (auto simp: dict_ok_def ht_ok_def)
    moreover have "dictNextPower DICT_HT_INITIAL_SIZE = Some 4"
      by (simp add: dictNextPower_def DICT_HT_INITIAL_SIZE_def dictNextPower_loop.simps)
    ultimately show ?thesis
      using dictExpand_ok [OF ok, of DICT_HT_INITIAL_SIZE] empty
      by (auto simp: dictExpandIfNeeded_def DICT_HT_INITIAL_SIZE_def)
  next
    case grow
    have b: "used (ht0 d) * 2 \<le> 2 ^ 63" using u by simp
    obtain n where "dictNextPower (used (ht0 d) * 2) = Some (2 ^ n)" "used (ht0 d) * 2 \<le> 2 ^ n"
      using dictNextPower_ok [OF b] by blast
    then have "dictNextPower (used (ht0 d) * 2) \<noteq> Some (htsize (ht0 d))" using grow by auto
    then show ?thesis using dictExpand_ok [OF ok b] grow by (auto simp: dictExpandIfNeeded_def)
  next
    case keep
    then show ?thesis using ok by (auto simp: dictExpandIfNeeded_def same_shell_def)
  qed
qed

subsection \<open>Lookup\<close>

definition locate :: "('k, 'v) dict \<Rightarrow> 'k \<Rightarrow> entry_ref option" where
  "locate d k =
     (let i0 = unat (dictHashKey d k AND sizemask (ht0 d)); i1 = unat (dictHashKey d k AND sizemask (ht1 d)) in
      case chain_find (keyMatches d k) (table (ht0 d) ! i0) of Some p \<Rightarrow> Some (0, i0, p)
      | None \<Rightarrow>
          if \<not> dictIsRehashing d then None
          else map_option (\<lambda>p. (1, i1, p)) (chain_find (keyMatches d k) (table (ht1 d) ! i1)))"

definition usable :: "('k, 'v) dict \<Rightarrow> bool" where
  "usable d \<longleftrightarrow> dict_ok d \<and> dictType_ok (dtype d) \<and> htsize (ht0 d) > 0"

lemma usableD:
  assumes "usable d"
  shows "ht_ok (hashFunction (dtype d)) (ht0 d)" "ht_ok (hashFunction (dtype d)) (ht1 d)"
    "htsize (ht0 d) > 0" "dictIsRehashing d \<Longrightarrow> htsize (ht1 d) > 0" "\<not> dictIsRehashing d \<Longrightarrow> ht1 d = dictReset"
    "distinct (map key (entries d))"
  using assms by (auto simp: usable_def dict_ok_def)

lemma usable_buckets:
  assumes "usable d"
  shows "bucket (ht0 d) (h AND sizemask (ht0 d)) = Some (table (ht0 d) ! unat (h AND sizemask (ht0 d)))"
    and "dictIsRehashing d \<Longrightarrow>
      bucket (ht1 d) (h AND sizemask (ht1 d)) = Some (table (ht1 d) ! unat (h AND sizemask (ht1 d)))"
  using bucket_Some usableD [OF assms] by blast+

lemma locate_Some:
  assumes u: "usable d" and l: "locate d k = Some r"
  shows "\<exists>e. entry_at d r = Some e \<and> key e = k \<and> e \<in> set (entries d)"
proof -
  let ?i0 = "unat (dictHashKey d k AND sizemask (ht0 d))" and ?i1 = "unat (dictHashKey d k AND sizemask (ht1 d))"
  have km: "keyMatches d a b \<longleftrightarrow> a = b" for a b using u by (simp add: usable_def keyMatches_iff)
  have i0: "?i0 < length (table (ht0 d))" using ht_index_less usableD(1,3) [OF u] by blast
  show ?thesis
  proof (cases "chain_find (keyMatches d k) (table (ht0 d) ! ?i0)")
    case (Some p)
    then have "r = (0, ?i0, p)" using l by (simp add: locate_def)
    moreover have "p < length (table (ht0 d) ! ?i0)" using chain_find_Some [OF Some] by simp
    moreover then have "table (ht0 d) ! ?i0 ! p \<in> set (concat (table (ht0 d)))"
      using in_bucket_concat [OF i0 nth_mem] by blast
    ultimately show ?thesis using chain_find_Some [OF Some] i0 km
      by (auto simp: entry_at_def entries_def Let_def)
  next
    case None
    then have re: "dictIsRehashing d" using l by (auto simp: locate_def Let_def split: if_splits)
    then have i1: "?i1 < length (table (ht1 d))" using ht_index_less usableD(2,4) [OF u] by blast
    from None re l obtain p where p: "chain_find (keyMatches d k) (table (ht1 d) ! ?i1) = Some p" "r = (1, ?i1, p)"
      by (auto simp: locate_def Let_def)
    moreover have "p < length (table (ht1 d) ! ?i1)" using chain_find_Some [OF p(1)] by simp
    moreover then have "table (ht1 d) ! ?i1 ! p \<in> set (concat (table (ht1 d)))"
      using in_bucket_concat [OF i1 nth_mem] by blast
    ultimately show ?thesis using chain_find_Some [OF p(1)] i1 km
      by (auto simp: entry_at_def entries_def Let_def)
  qed
qed

lemma locate_None:
  assumes u: "usable d" and l: "locate d k = None" and e: "e \<in> set (entries d)"
  shows "key e \<noteq> k"
proof
  assume k: "key e = k"
  have km: "keyMatches d a b \<longleftrightarrow> a = b" for a b using u by (simp add: usable_def keyMatches_iff)
  from l have n0: "chain_find (keyMatches d k) (table (ht0 d) ! unat (dictHashKey d k AND sizemask (ht0 d))) = None"
    and n1: "dictIsRehashing d \<Longrightarrow>
      chain_find (keyMatches d k) (table (ht1 d) ! unat (dictHashKey d k AND sizemask (ht1 d))) = None"
    by (auto simp: locate_def Let_def split: option.splits if_splits)
  from e consider "e \<in> set (concat (table (ht0 d)))" | "e \<in> set (concat (table (ht1 d)))"
    by (auto simp: entries_def)
  then show False
  proof cases
    case 1
    then show False using in_concat_bucket [OF usableD(1) [OF u] 1] n0 k km
      by (auto simp: chain_find_None dictHashKey_def)
  next
    case 2
    then have "dictIsRehashing d" using usableD(5) [OF u] by (cases "dictIsRehashing d") (auto simp: dictReset_def)
    then show False using in_concat_bucket [OF usableD(2) [OF u] 2] n1 k km
      by (auto simp: chain_find_None dictHashKey_def)
  qed
qed

lemma locate_map:
  assumes u: "usable d"
  shows "case locate d k of None \<Rightarrow> dict_map d k = None
    | Some r \<Rightarrow> \<exists>e. entry_at d r = Some e \<and> key e = k \<and> dict_map d k = Some (val e)"
proof (cases "locate d k")
  case None
  then have "\<forall>e\<in>set (entries d). key e \<noteq> k" using locate_None [OF u] by blast
  then have "dict_map d k = None" by (auto simp: dict_map_def map_of_eq_None_iff)
  then show ?thesis using None by simp
next
  case (Some r)
  then obtain e where "entry_at d r = Some e" "key e = k" "e \<in> set (entries d)"
    using locate_Some [OF u] by blast
  moreover then have "dict_map d k = Some (val e)" using dict_map_iff [OF usableD(6) [OF u]] by blast
  ultimately show ?thesis using Some by auto
qed

lemma same_shell_map: "dict_ok d \<Longrightarrow> same_shell d d' \<Longrightarrow> dict_map d' = dict_map d"
  using dict_map_cong [of d d'] by (auto simp: same_shell_def dict_ok_def)

lemma entries_nil: "dict_ok d \<Longrightarrow> dictSize d = 0 \<Longrightarrow> entries d = []"
  by (auto simp: dict_ok_def ht_ok_def dictSize_def entries_def)

lemma dictSize_entries: "dict_ok d \<Longrightarrow> dictSize d = length (entries d)"
  by (simp add: dict_ok_def ht_ok_def dictSize_def entries_def)

lemma nonempty_usable:
  assumes ok: "dict_ok d" and ty: "dictType_ok (dtype d)" and ne: "entries d \<noteq> []"
  shows "usable d"
proof -
  have "htsize (ht0 d) > 0"
  proof (cases "dictIsRehashing d")
    case True
    then show ?thesis using ok by (simp add: dict_ok_def)
  next
    case False
    then have "concat (table (ht0 d)) \<noteq> []" using ok ne by (auto simp: dict_ok_def entries_def dictReset_def)
    then show ?thesis using ok by (auto simp: dict_ok_def ht_ok_def)
  qed
  then show ?thesis using ok ty by (simp add: usable_def)
qed

lemma dictFind_ok:
  assumes ok: "dict_ok d" and ty: "dictType_ok (dtype d)"
  shows "\<exists>d' r. dictFind d k = Some (d', r) \<and> dict_ok d' \<and> same_shell d d' \<and>
    (case r of None \<Rightarrow> dict_map d k = None
     | Some r \<Rightarrow> \<exists>e. entry_at d' r = Some e \<and> key e = k \<and> dict_map d k = Some (val e))"
proof (cases "dictSize d = 0")
  case True
  then show ?thesis using ok entries_nil [OF ok True]
    by (auto simp: dictFind_def dictSize_def same_shell_def dict_map_def)
next
  case False
  obtain d' where d': "rehash_if_needed d = Some d'" "dict_ok d'" "same_shell d d'"
    using rehash_if_needed_ok [OF ok] by blast
  have "entries d' \<noteq> []"
    using False dictSize_entries [OF ok] d'(3) by (auto simp: same_shell_def)
  moreover have "dictType_ok (dtype d')" using ty d'(3) by (simp add: same_shell_def)
  ultimately have u: "usable d'" using d'(2) nonempty_usable by blast
  have "dictFind d k = Some (d', locate d' k)"
    using False d'(1) usable_buckets [OF u, of "dictHashKey d' k"]
    by (auto simp: dictFind_def dictSize_def locate_def Let_def split: option.splits)
  then show ?thesis using d' locate_map [OF u, of k] same_shell_map [OF ok d'(3)]
    by (auto split: option.splits)
qed

subsection \<open>Insertion and deletion\<close>

lemma mset_distinct_cons:
  assumes "mset (entries d') = add_mset e (mset (entries d))" and "distinct (map key (entries d))"
    and "key e \<notin> key ` set (entries d)"
  shows "distinct (map key (entries d'))" "dict_map d' = (dict_map d)(key e \<mapsto> val e)"
proof -
  have "mset (map key (entries d')) = mset (key e # map key (entries d))" using assms(1) by simp
  then show dist: "distinct (map key (entries d'))" using assms(2,3) by (metis distinct.simps(2) image_set mset_eq_imp_distinct_iff)
  have set: "set (entries d') = insert e (set (entries d))"
    using arg_cong [OF assms(1), of set_mset] by simp
  show "dict_map d' = (dict_map d)(key e \<mapsto> val e)"
  proof
    fix k
    show "dict_map d' k = ((dict_map d)(key e \<mapsto> val e)) k"
    proof (cases "k = key e")
      case True
      then show ?thesis using dict_map_iff [OF dist, of k "val e"] set by auto
    next
      case False
      then have "dict_map d' k = Some v \<longleftrightarrow> dict_map d k = Some v" for v
        using dict_map_iff [OF dist] dict_map_iff [OF assms(2)] set by auto
      then show ?thesis using False by (metis fun_upd_other not_None_eq)
    qed
  qed
qed

lemma dictKeyIndex_eq:
  assumes u: "usable d1" and x: "dictExpandIfNeeded cr d = Some (d1, True)"
  shows "dictKeyIndex cr d k (dictHashKey d1 k) = Some (d1,
    (case locate d1 k of Some r \<Rightarrow> None
     | None \<Rightarrow> Some (dictHashKey d1 k AND sizemask (if dictIsRehashing d1 then ht1 d1 else ht0 d1))), locate d1 k)"
  using x usable_buckets [OF u, of "dictHashKey d1 k"]
  by (auto simp: dictKeyIndex_def locate_def Let_def split: option.splits)

text \<open>\<open>dictAddRaw\<close>: either the key is there and its entry is returned, or a new entry for it is.\<close>

lemma dictAddRaw_ok:
  assumes ok: "dict_ok d" and ty: "dictType_ok (dtype d)" and sz: "dictSize d < 2 ^ 62"
  shows "\<exists>d' new old. dictAddRaw cr junk d k = Some (d', new, old) \<and> dict_ok d' \<and>
    dtype d' = dtype d \<and> iterators d' = iterators d \<and>
    (case dict_map d k of
       Some v \<Rightarrow> new = None \<and> mset (entries d') = mset (entries d) \<and>
         (\<exists>r e. old = Some r \<and> entry_at d' r = Some e \<and> key e = k \<and> val e = v)
     | None \<Rightarrow> old = None \<and> mset (entries d') = add_mset \<lparr>key = k, val = junk\<rparr> (mset (entries d)) \<and>
         (\<exists>r. new = Some r \<and> entry_at d' r = Some \<lparr>key = k, val = junk\<rparr>))"
proof -
  obtain d1 where d1: "rehash_if_needed d = Some d1" "dict_ok d1" "same_shell d d1"
    using rehash_if_needed_ok [OF ok] by blast
  have sz1: "dictSize d1 < 2 ^ 62"
    using sz d1 dictSize_entries [OF ok] dictSize_entries [OF d1(2)]
    by (metis same_shell_def size_mset)
  obtain d2 where d2: "dictExpandIfNeeded cr d1 = Some (d2, True)" "dict_ok d2" "same_shell d1 d2" "htsize (ht0 d2) > 0"
    using dictExpandIfNeeded_ok [OF d1(2) sz1] by blast
  have sh: "same_shell d d2" using same_shell_trans [OF d1(3) d2(3)] .
  have ty2: "dictType_ok (dtype d2)" "dtype d2 = dtype d" "dtype d1 = dtype d" "iterators d2 = iterators d"
    using ty sh d1(3) by (auto simp: same_shell_def)
  then have u: "usable d2" using d2 by (simp add: usable_def)
  have hk: "dictHashKey d1 k = dictHashKey d2 k" using ty2 by (simp add: dictHashKey_def)
  have map: "dict_map d2 = dict_map d" using same_shell_map [OF ok sh] .
  note ki = dictKeyIndex_eq [OF u d2(1), of k]
  show ?thesis
  proof (cases "locate d2 k")
    case (Some r)
    then obtain e where e: "entry_at d2 r = Some e" "key e = k" "dict_map d2 k = Some (val e)"
      using locate_map [OF u, of k] by auto
    have "dictAddRaw cr junk d k = Some (d2, None, Some r)"
      using d1(1) ki [folded hk] Some by (simp add: dictAddRaw_def)
    then show ?thesis using d2(2) e map sh ty2 by (cases r) (auto simp: same_shell_def)
  next
    case None
    then have mn: "dict_map d k = None" using locate_map [OF u, of k] map by simp
    have notin: "k \<notin> key ` set (entries d2)" using locate_None [OF u None] by auto
    let ?e = "\<lparr>key = k, val = junk\<rparr>"
    let ?h = "hashFunction (dtype d2)"
    define t where "t = (if dictIsRehashing d2 then ht1 d2 else ht0 d2)"
    define i where "i = ?h k AND sizemask t"
    have tok: "ht_ok ?h t" "htsize t > 0" using usableD [OF u] by (auto simp: t_def)
    define t' where "t' = t\<lparr>table := (table t)[unat i := ?e # table t ! unat i], used := used t + 1\<rparr>"
    have push: "push_entry t i ?e = Some t'" and tok': "ht_ok ?h t'"
      using ht_ok_push [OF tok, of ?e] by (simp_all add: t'_def i_def)
    have il: "unat i < length (table t)" using ht_index_less [OF tok] by (simp add: i_def)
    have mt: "mset (concat (table t')) = add_mset ?e (mset (concat (table t)))"
      using mset_concat_push [OF il, of ?e] by (simp add: t'_def)
    define d3 where "d3 = (if dictIsRehashing d2 then d2\<lparr>ht1 := t'\<rparr> else d2\<lparr>ht0 := t'\<rparr>)"
    define r where "r = (if dictIsRehashing d2 then 1 else 0 :: nat, unat i, 0 :: nat)"
    have run: "dictAddRaw cr junk d k = Some (d3, Some r, None)"
      using d1(1) ki [folded hk] None push ty2
      by (auto simp: dictAddRaw_def d3_def r_def t_def i_def dictHashKey_def)
    have me: "mset (entries d3) = add_mset ?e (mset (entries d2))"
      using mt by (auto simp: d3_def t_def entries_def)
    have at: "entry_at d3 r = Some ?e"
      using il by (auto simp: entry_at_def d3_def r_def t'_def)
    have shape: "table t' \<noteq> []" "htsize t' = htsize t" using il by (auto simp: t'_def)
    have "dict_ok d3"
    proof (cases "dictIsRehashing d2")
      case True
      have "dictIsRehashing d3" "htsize t' > 0" using True tok(2) by (auto simp: d3_def dictIsRehashing_def t'_def)
      then show ?thesis
        using d2(2) tok' mset_distinct_cons(1) [OF me usableD(6) [OF u]] notin True
        by (auto simp: dict_ok_def d3_def)
    next
      case False
      have "\<not> dictIsRehashing d3" using False by (auto simp: d3_def dictIsRehashing_def)
      then show ?thesis
        using d2(2) tok' mset_distinct_cons(1) [OF me usableD(6) [OF u]] notin False
        by (auto simp: dict_ok_def d3_def)
    qed
    moreover have "dtype d3 = dtype d" "iterators d3 = iterators d" using ty2 by (auto simp: d3_def)
    ultimately show ?thesis using run me at mn sh by (cases r) (auto simp: same_shell_def)
  qed
qed

lemma mset_distinct_remove:
  assumes "mset (entries d) = add_mset e (mset (entries d'))" and "distinct (map key (entries d))"
  shows "distinct (map key (entries d'))" "dict_map d' = (dict_map d)(key e := None)" "key e \<notin> key ` set (entries d')"
proof -
  have "mset (map key (entries d)) = mset (key e # map key (entries d'))" using assms(1) by simp
  then have *: "distinct (key e # map key (entries d'))" using assms(2) by (metis mset_eq_imp_distinct_iff)
  then show dist: "distinct (map key (entries d'))" and nin: "key e \<notin> key ` set (entries d')" by auto
  have "dict_map d = (dict_map d')(key e \<mapsto> val e)"
    using mset_distinct_cons(2) [OF assms(1) dist nin] .
  moreover have "dict_map d' (key e) = None" using nin by (auto simp: dict_map_def map_of_eq_None_iff)
  ultimately show "dict_map d' = (dict_map d)(key e := None)" by auto
qed

lemma dict_map_replace:
  assumes "mset (entries d) = add_mset e N" and "mset (entries d') = add_mset e' N"
    and "distinct (map key (entries d))" and "key e' = key e"
  shows "distinct (map key (entries d'))" "dict_map d' = (dict_map d)(key e \<mapsto> val e')"
proof -
  obtain xs where xs: "N = mset xs" by (metis ex_mset)
  have "mset (map key (entries d)) = mset (map key (e # xs))" "mset (map key (entries d')) = mset (map key (e # xs))"
    using assms xs by simp_all
  then have *: "distinct (map key (e # xs))" "distinct (map key (entries d'))"
    using assms(3) by (metis mset_eq_imp_distinct_iff)+
  then show "distinct (map key (entries d'))" by simp
  have sets: "set (entries d) = insert e (set xs)" "set (entries d') = insert e' (set xs)"
    using arg_cong [OF assms(1), of set_mset] arg_cong [OF assms(2), of set_mset] xs by simp_all
  have "dict_map d' k = Some v \<longleftrightarrow> ((dict_map d)(key e \<mapsto> val e')) k = Some v" for k v
    using dict_map_iff [OF *(2)] dict_map_iff [OF assms(3)] sets *(1) assms(4)
    by (auto simp: image_iff)
  then show "dict_map d' = (dict_map d)(key e \<mapsto> val e')"
    by (intro ext) (metis not_None_eq)
qed

lemma ht_ok_upd:
  assumes "ht_ok h t" and "htsize t' = htsize t" "sizemask t' = sizemask t" "table t' = (table t)[i := b]"
    and "used t' = length (concat (table t'))" and "\<forall>x\<in>set b. unat (h (key x) AND sizemask t) = i"
  shows "ht_ok h t'"
proof -
  have "\<forall>e\<in>set ((table t)[i := b] ! j). unat (h (key e) AND sizemask t) = j" if "j < length (table t)" for j
    using assms(1,6) that by (cases "j = i") (simp_all add: ht_ok_def)
  then show ?thesis
    using assms(1,5) unfolding ht_ok_def assms(2,3,4) length_list_update by meson
qed

lemma set_val_ht_ok:
  assumes "ht_ok h t" "i < length (table t)" "p < length (table t ! i)"
  shows "\<exists>t'. set_val_ht t i p v = Some t' \<and> ht_ok h t' \<and> htsize t' = htsize t \<and>
    (\<forall>j. table t ! j = [] \<longrightarrow> table t' ! j = []) \<and>
    (\<exists>N. mset (concat (table t)) = add_mset (table t ! i ! p) N \<and>
      mset (concat (table t')) = add_mset ((table t ! i ! p)\<lparr>val := v\<rparr>) N)"
proof -
  let ?b = "table t ! i"
  let ?b' = "?b[p := (?b ! p)\<lparr>val := v\<rparr>]"
  let ?t = "t\<lparr>table := (table t)[i := ?b']\<rparr>"
  obtain M where M: "mset ?b = add_mset (?b ! p) M"
    by (meson assms(3) mset_add nth_mem_mset)
  then have M': "mset ?b' = add_mset ((?b ! p)\<lparr>val := v\<rparr>) M"
    using assms(3) by (simp add: mset_update)
  have eq: "mset (concat ((table t)[i := ?b'])) + mset ?b = mset (concat (table t)) + mset ?b'"
    using mset_concat_upd [OF assms(2), of ?b'] .
  have "?b ! p \<in># mset (concat (table t))"
    using assms(2,3) by (auto intro!: bexI [of _ ?b])
  then obtain N where N: "mset (concat (table t)) = add_mset (?b ! p) N" by (meson mset_add)
  then have N': "mset (concat ((table t)[i := ?b'])) = add_mset ((?b ! p)\<lparr>val := v\<rparr>) N"
    using eq M M' by simp
  have "length (concat ((table t)[i := ?b'])) = length (concat (table t))"
    using arg_cong [OF N, of size] arg_cong [OF N', of size] by simp
  moreover have "unat (h (key x) AND sizemask t) = i" if x: "x \<in> set ?b'" for x
  proof -
    have "\<exists>y\<in>set ?b. key x = key y"
      using set_update_subset_insert [THEN subsetD, OF x] nth_mem [OF assms(3)] by auto
    then show ?thesis using assms(1,2) by (auto simp: ht_ok_def)
  qed
  ultimately have "ht_ok h ?t"
    using assms(1) by (intro ht_ok_upd [OF assms(1), of _ i ?b']) (simp_all add: ht_ok_def)
  moreover have "table ?t ! j = []" if "table t ! j = []" for j
    using that assms by (cases "j = i") auto
  ultimately show ?thesis using N N' assms(2,3) by (intro exI [of _ ?t]) (auto simp: set_val_ht_def)
qed

lemma dictSetVal_ok:
  assumes ok: "dict_ok d" and ty: "dictType_ok (dtype d)" and r: "entry_at d r = Some e"
  shows "\<exists>d'. dictSetVal d r v = Some d' \<and> dict_ok d' \<and> dtype d' = dtype d \<and> iterators d' = iterators d \<and>
    dict_map d' = (dict_map d)(key e \<mapsto> v) \<and> dictSize d' = dictSize d"
proof -
  obtain tb i p where r': "r = (tb, i, p)" by (cases r) auto
  define t where "t = (if tb = 0 then ht0 d else ht1 d)"
  let ?h = "hashFunction (dtype d)"
  from r r' have ip: "i < length (table t)" "p < length (table t ! i)" "e = table t ! i ! p"
    by (auto simp: entry_at_def t_def Let_def split: if_splits)
  have tok: "ht_ok ?h t" using ok by (auto simp: dict_ok_def t_def)
  obtain t' N where t': "set_val_ht t i p v = Some t'" "ht_ok ?h t'" "htsize t' = htsize t"
    "\<forall>j. table t ! j = [] \<longrightarrow> table t' ! j = []"
    "mset (concat (table t)) = add_mset e N" "mset (concat (table t')) = add_mset (e\<lparr>val := v\<rparr>) N"
    using set_val_ht_ok [OF tok ip(1,2), of v] ip(3) by blast
  define d' where "d' = (if tb = 0 then d\<lparr>ht0 := t'\<rparr> else d\<lparr>ht1 := t'\<rparr>)"
  define M where "M = (if tb = 0 then N + mset (concat (table (ht1 d))) else mset (concat (table (ht0 d))) + N)"
  have m: "mset (entries d) = add_mset e M" "mset (entries d') = add_mset (e\<lparr>val := v\<rparr>) M"
    using t'(5,6) by (auto simp: entries_def M_def d'_def t_def)
  have dist: "distinct (map key (entries d))" using ok by (simp add: dict_ok_def)
  note rep = dict_map_replace [OF m dist]
  have re: "dictIsRehashing d' = dictIsRehashing d" by (simp add: d'_def dictIsRehashing_def)
  have "ht1 d \<noteq> dictReset" if "tb \<noteq> 0" using that ip(1) by (auto simp: t_def dictReset_def)
  then have ok': "dict_ok d'"
    using ok t' rep(1) re unfolding dict_ok_def by (auto simp: d'_def t_def split: if_splits)
  moreover have "dictSetVal d r v = Some d'"
    using t'(1) ty by (auto simp: dictSetVal_def r' d'_def t_def)
  moreover have "dictSize d' = dictSize d"
    using dictSize_entries [OF ok] dictSize_entries [OF ok'] arg_cong [OF m(1), of size] arg_cong [OF m(2), of size]
    by simp
  moreover have "dtype d' = dtype d" "iterators d' = iterators d" by (simp_all add: d'_def)
  ultimately show ?thesis using rep(2) by auto
qed

lemma dictAdd_ok:
  assumes ok: "dict_ok d" and ty: "dictType_ok (dtype d)" and sz: "dictSize d < 2 ^ 62"
  shows "\<exists>d'. dictAdd cr junk d k v = Some (d', dict_map d k = None) \<and> dict_ok d' \<and> dtype d' = dtype d \<and>
    iterators d' = iterators d \<and>
    dict_map d' = (if dict_map d k = None then (dict_map d)(k \<mapsto> v) else dict_map d)"
proof -
  obtain d1 new old where d1: "dictAddRaw cr junk d k = Some (d1, new, old)" "dict_ok d1" "dtype d1 = dtype d"
      "iterators d1 = iterators d"
    and post: "case dict_map d k of
       Some v \<Rightarrow> new = None \<and> mset (entries d1) = mset (entries d) \<and>
         (\<exists>r e. old = Some r \<and> entry_at d1 r = Some e \<and> key e = k \<and> val e = v)
     | None \<Rightarrow> old = None \<and> mset (entries d1) = add_mset \<lparr>key = k, val = junk\<rparr> (mset (entries d)) \<and>
         (\<exists>r. new = Some r \<and> entry_at d1 r = Some \<lparr>key = k, val = junk\<rparr>)"
    using dictAddRaw_ok [OF ok ty sz] by blast
  have dist: "distinct (map key (entries d))" using ok by (simp add: dict_ok_def)
  show ?thesis
  proof (cases "dict_map d k")
    case (Some w)
    then have "dictAdd cr junk d k v = Some (d1, False)" "dict_map d1 = dict_map d"
      using post d1(1) dict_map_cong [of d d1] dist by (auto simp: dictAdd_def)
    then show ?thesis using Some d1 by simp
  next
    case None
    then obtain r where r: "new = Some r" "entry_at d1 r = Some \<lparr>key = k, val = junk\<rparr>"
      "mset (entries d1) = add_mset \<lparr>key = k, val = junk\<rparr> (mset (entries d))"
      using post by auto
    have "k \<notin> key ` set (entries d)" using None by (auto simp: dict_map_def map_of_eq_None_iff image_image)
    then have m1: "dict_map d1 = (dict_map d)(k \<mapsto> junk)" using mset_distinct_cons(2) [OF r(3) dist] by simp
    obtain d' where "dictSetVal d1 r v = Some d'" "dict_ok d'" "dtype d' = dtype d1" "iterators d' = iterators d1"
      "dict_map d' = (dict_map d1)(k \<mapsto> v)"
      using dictSetVal_ok [OF d1(2) _ r(2), of v] ty d1(3) by auto
    then show ?thesis using None d1 r(1) m1 by (auto simp: dictAdd_def)
  qed
qed

lemma dictReplace_ok:
  assumes ok: "dict_ok d" and ty: "dictType_ok (dtype d)" and sz: "dictSize d < 2 ^ 62"
  shows "\<exists>d'. dictReplace cr junk d k v = Some (d', dict_map d k = None, dict_map d k) \<and> dict_ok d' \<and>
    dtype d' = dtype d \<and> iterators d' = iterators d \<and> dict_map d' = (dict_map d)(k \<mapsto> v)"
proof -
  obtain d1 new old where d1: "dictAddRaw cr junk d k = Some (d1, new, old)" "dict_ok d1" "dtype d1 = dtype d"
      "iterators d1 = iterators d"
    and post: "case dict_map d k of
       Some v \<Rightarrow> new = None \<and> mset (entries d1) = mset (entries d) \<and>
         (\<exists>r e. old = Some r \<and> entry_at d1 r = Some e \<and> key e = k \<and> val e = v)
     | None \<Rightarrow> old = None \<and> mset (entries d1) = add_mset \<lparr>key = k, val = junk\<rparr> (mset (entries d)) \<and>
         (\<exists>r. new = Some r \<and> entry_at d1 r = Some \<lparr>key = k, val = junk\<rparr>)"
    using dictAddRaw_ok [OF ok ty sz] by blast
  have dist: "distinct (map key (entries d))" using ok by (simp add: dict_ok_def)
  show ?thesis
  proof (cases "dict_map d k")
    case (Some w)
    then obtain r e where r: "new = None" "old = Some r" "entry_at d1 r = Some e" "key e = k" "val e = w"
      "mset (entries d1) = mset (entries d)"
      using post by auto
    have m1: "dict_map d1 = dict_map d" using r(6) dict_map_cong [of d d1] dist by auto
    obtain d' where "dictSetVal d1 r v = Some d'" "dict_ok d'" "dtype d' = dtype d1" "iterators d' = iterators d1"
      "dict_map d' = (dict_map d1)(k \<mapsto> v)"
      using dictSetVal_ok [OF d1(2) _ r(3), of v] ty d1(3) r(4) by auto
    then show ?thesis using Some d1 r m1 by (auto simp: dictReplace_def)
  next
    case None
    then obtain r where r: "new = Some r" "entry_at d1 r = Some \<lparr>key = k, val = junk\<rparr>"
      "mset (entries d1) = add_mset \<lparr>key = k, val = junk\<rparr> (mset (entries d))"
      using post by auto
    have "k \<notin> key ` set (entries d)" using None by (auto simp: dict_map_def map_of_eq_None_iff image_image)
    then have m1: "dict_map d1 = (dict_map d)(k \<mapsto> junk)" using mset_distinct_cons(2) [OF r(3) dist] by simp
    obtain d' where "dictSetVal d1 r v = Some d'" "dict_ok d'" "dtype d' = dtype d1" "iterators d' = iterators d1"
      "dict_map d' = (dict_map d1)(k \<mapsto> v)"
      using dictSetVal_ok [OF d1(2) _ r(2), of v] ty d1(3) by auto
    then show ?thesis using None d1 r(1) m1 by (auto simp: dictReplace_def)
  qed
qed

lemma unlink_ht_ok:
  assumes "ht_ok h t" and i: "unat idx < length (table t)" and p: "p < length (table t ! unat idx)"
  shows "ht_ok h (unlink_ht t idx p)" "htsize (unlink_ht t idx p) = htsize t"
    "table t ! j = [] \<Longrightarrow> table (unlink_ht t idx p) ! j = []"
    "mset (concat (table t)) = add_mset (table t ! unat idx ! p) (mset (concat (table (unlink_ht t idx p))))"
proof -
  let ?b = "table t ! unat idx" and ?t = "unlink_ht t idx p"
  let ?b' = "take p ?b @ drop (Suc p) ?b"
  have "mset ?b = add_mset (?b ! p) (mset ?b')"
    using arg_cong [OF id_take_nth_drop [OF p], of mset] by simp
  then show m: "mset (concat (table t)) = add_mset (?b ! p) (mset (concat (table ?t)))"
    using mset_concat_upd [OF i, of ?b'] by (simp add: unlink_ht_def)
  show "htsize ?t = htsize t" by (simp add: unlink_ht_def)
  show "table t ! j = [] \<Longrightarrow> table ?t ! j = []"
    using i p by (cases "j = unat idx") (auto simp: unlink_ht_def)
  have "used ?t = length (concat (table ?t))"
    using arg_cong [OF m, of size] assms(1) by (simp add: ht_ok_def unlink_ht_def)
  moreover have "\<forall>x\<in>set ?b'. unat (h (key x) AND sizemask t) = unat idx"
    using assms(1) i by (auto simp: ht_ok_def dest: in_set_takeD in_set_dropD)
  ultimately show "ht_ok h ?t"
    by (intro ht_ok_upd [OF assms(1), of _ "unat idx" ?b']) (simp_all add: unlink_ht_def)
qed

definition unlink_at :: "('k, 'v) dict \<Rightarrow> 'k \<Rightarrow> entry_ref \<Rightarrow> ('k, 'v) dict" where
  "unlink_at d k r =
     (case r of (tb, i, p) \<Rightarrow>
        if tb = 0 then d\<lparr>ht0 := unlink_ht (ht0 d) (dictHashKey d k AND sizemask (ht0 d)) p\<rparr>
        else d\<lparr>ht1 := unlink_ht (ht1 d) (dictHashKey d k AND sizemask (ht1 d)) p\<rparr>)"

lemma dictGenericDelete_eq:
  assumes "rehash_if_needed d = Some d1" and u: "usable d1" and "dictSize d \<noteq> 0"
  shows "dictGenericDelete d k = Some (case locate d1 k of None \<Rightarrow> (d1, None)
    | Some r \<Rightarrow> (unlink_at d1 k r, entry_at d1 r))"
proof -
  let ?i0 = "unat (dictHashKey d1 k AND sizemask (ht0 d1))" and ?i1 = "unat (dictHashKey d1 k AND sizemask (ht1 d1))"
  have i: "?i0 < length (table (ht0 d1))" "dictIsRehashing d1 \<Longrightarrow> ?i1 < length (table (ht1 d1))"
    using ht_index_less usableD(1-4) [OF u] by blast+
  show ?thesis
    using assms usable_buckets [OF u, of "dictHashKey d1 k"] i
    by (auto simp: dictGenericDelete_def locate_def unlink_at_def entry_at_def dictSize_def Let_def
        dest!: chain_find_Some split: option.splits)
qed

lemma unlink_at_ok:
  assumes u: "usable d" and l: "locate d k = Some r" and e: "entry_at d r = Some e"
  shows "dict_ok (unlink_at d k r)" "mset (entries d) = add_mset e (mset (entries (unlink_at d k r)))"
    "dtype (unlink_at d k r) = dtype d" "iterators (unlink_at d k r) = iterators d"
proof -
  obtain tb i p where r: "r = (tb, i, p)" by (cases r) auto
  define t where "t = (if tb = 0 then ht0 d else ht1 d)"
  define idx where "idx = dictHashKey d k AND sizemask t"
  have tbre: "tb = 0 \<or> dictIsRehashing d" and i: "i = unat idx"
    using l r by (auto simp: locate_def Let_def idx_def t_def split: option.splits if_splits)
  have ip: "i < length (table t)" "p < length (table t ! i)" "e = table t ! i ! p"
    using e r by (auto simp: entry_at_def t_def Let_def split: if_splits)
  have tok: "ht_ok (hashFunction (dtype d)) t" using usableD(1,2) [OF u] by (simp add: t_def)
  note un = unlink_ht_ok [OF tok ip(1,2) [unfolded i]]
  define d' where "d' = unlink_at d k r"
  have d': "d' = (if tb = 0 then d\<lparr>ht0 := unlink_ht t idx p\<rparr> else d\<lparr>ht1 := unlink_ht t idx p\<rparr>)"
    by (simp add: d'_def unlink_at_def r t_def idx_def)
  show m: "mset (entries d) = add_mset e (mset (entries (unlink_at d k r)))"
    using un(4) ip(3) i unfolding d'_def [symmetric] d' by (auto simp: entries_def t_def)
  have dist: "distinct (map key (entries d'))"
    using mset_distinct_remove(1) [OF m usableD(6) [OF u]] by (simp add: d'_def)
  have re: "dictIsRehashing d' = dictIsRehashing d" by (simp add: d' dictIsRehashing_def)
  have ok: "dict_ok d" using u by (simp add: usable_def)
  have "dict_ok d'"
  proof (cases "tb = 0")
    case True
    then show ?thesis using ok un(1,2,3) dist re unfolding dict_ok_def d' t_def by auto
  next
    case False
    then show ?thesis using ok un(1,2) dist re tbre unfolding dict_ok_def d' t_def by auto
  qed
  then show "dict_ok (unlink_at d k r)" by (simp add: d'_def)
  show "dtype (unlink_at d k r) = dtype d" "iterators (unlink_at d k r) = iterators d"
    unfolding d'_def [symmetric] d' by simp_all
qed

lemma dictGenericDelete_ok:
  assumes ok: "dict_ok d" and ty: "dictType_ok (dtype d)"
  shows "\<exists>d' e. dictGenericDelete d k = Some (d', e) \<and> dict_ok d' \<and> dtype d' = dtype d \<and> iterators d' = iterators d \<and>
    dict_map d' = (dict_map d)(k := None) \<and> map_option val e = dict_map d k \<and>
    dictSize d' + (if e = None then 0 else 1) = dictSize d"
proof (cases "dictSize d = 0")
  case True
  then have "dict_map d k = None" for k using entries_nil [OF ok True] by (simp add: dict_map_def)
  then show ?thesis using ok True by (intro exI [of _ d] exI [of _ None]) (auto simp: dictGenericDelete_def dictSize_def)
next
  case False
  obtain d1 where d1: "rehash_if_needed d = Some d1" "dict_ok d1" "same_shell d d1"
    using rehash_if_needed_ok [OF ok] by blast
  have "entries d1 \<noteq> []" using False dictSize_entries [OF ok] d1(3) by (auto simp: same_shell_def)
  moreover have "dictType_ok (dtype d1)" using ty d1(3) by (simp add: same_shell_def)
  ultimately have u: "usable d1" using d1(2) nonempty_usable by blast
  have map: "dict_map d1 = dict_map d" using same_shell_map [OF ok d1(3)] .
  have sz: "dictSize d1 = dictSize d"
    using dictSize_entries [OF ok] dictSize_entries [OF d1(2)] d1(3) by (metis same_shell_def size_mset)
  note run = dictGenericDelete_eq [OF d1(1) u False, of k]
  show ?thesis
  proof (cases "locate d1 k")
    case None
    then show ?thesis using run locate_map [OF u, of k] d1 map sz by (auto simp: same_shell_def)
  next
    case (Some r)
    then obtain e where e: "entry_at d1 r = Some e" "key e = k" "dict_map d1 k = Some (val e)"
      using locate_map [OF u, of k] by auto
    note un = unlink_at_ok [OF u Some e(1)]
    have "dictSize (unlink_at d1 k r) + 1 = dictSize d"
      using arg_cong [OF un(2), of size] dictSize_entries [OF un(1)] dictSize_entries [OF d1(2)] sz by simp
    moreover have "dict_map (unlink_at d1 k r) = (dict_map d)(k := None)"
      using mset_distinct_remove(2) [OF un(2) usableD(6) [OF u]] e(2) map by simp
    ultimately show ?thesis using run Some e un d1(3) map by (auto simp: same_shell_def)
  qed
qed

lemma dictFetchValue_ok:
  assumes "dict_ok d" and "dictType_ok (dtype d)"
  shows "\<exists>d'. dictFetchValue d k = Some (d', dict_map d k) \<and> dict_ok d' \<and> same_shell d d' \<and> dict_map d' = dict_map d"
proof -
  obtain d' r where f: "dictFind d k = Some (d', r)" "dict_ok d'" "same_shell d d'"
    "case r of None \<Rightarrow> dict_map d k = None
     | Some r \<Rightarrow> \<exists>e. entry_at d' r = Some e \<and> key e = k \<and> dict_map d k = Some (val e)"
    using dictFind_ok [OF assms] by blast
  then show ?thesis using same_shell_map [OF assms(1) f(3)]
    by (auto simp: dictFetchValue_def split: option.splits)
qed

lemma dictClear_loop_all: "length (concat bs) \<le> u \<Longrightarrow> dictClear_loop bs u = concat bs"
  by (induction bs arbitrary: u) (auto simp: concat_eq_Nil_conv)

lemma dictEmpty_ok:
  assumes "dict_ok d"
  shows "\<exists>d'. dictEmpty d = (d', entries d) \<and> dict_ok d' \<and> dict_map d' = Map.empty \<and> dtype d' = dtype d \<and> dictSize d' = 0"
  using assms dictClear_loop_all [of "table (ht0 d)" "used (ht0 d)"] dictClear_loop_all [of "table (ht1 d)" "used (ht1 d)"]
  by (simp add: dictEmpty_def dictClear_def dict_ok_def ht_ok_def dictReset_def entries_def dict_map_def
      dictIsRehashing_def dictSize_def)

lemma dictCreate_ok: "dict_ok (dictCreate ty)" "dict_map (dictCreate ty) = Map.empty" "dictSize (dictCreate ty) = 0"
    "dtype (dictCreate ty) = ty"
  by (simp_all add: dictCreate_def dict_ok_def ht_ok_reset dictIsRehashing_def entries_def dict_map_def dictSize_def)
     (simp_all add: dictReset_def)

fun rehash_batches :: "nat \<Rightarrow> ('k, 'v) dict \<Rightarrow> ('k, 'v) dict option" where
  \<comment> \<open>so many calls of dictRehash with 100 buckets each\<close>
  "rehash_batches 0 d = Some d"
| "rehash_batches (Suc j) d = do { (d, _) \<leftarrow> dictRehash d 100; rehash_batches j d }"

lemma dictRehashMilliseconds_loop_ok:
  "dict_ok d \<Longrightarrow> \<exists>d' j. dictRehashMilliseconds_loop clock start ms i d rehashes = Some (d', rehashes + 100 * j) \<and>
     dict_ok d' \<and> same_shell d d' \<and> j \<le> rehash_left d \<and> (\<forall>m\<ge>i. m + 1 < i + j \<longrightarrow> clock m - start \<le> ms) \<and>
     (dictIsRehashing d' \<longleftrightarrow> j > 0 \<and> clock (i + j - 1) - start > ms) \<and>
     rehash_batches (if dictIsRehashing d' then j else j + 1) d = Some d'"
proof (induction "rehash_left d" arbitrary: d i rehashes rule: less_induct)
  case less
  obtain d1 where d1: "dictRehash d 100 = Some (d1, dictIsRehashing d1)" "dict_ok d1" "same_shell d d1"
    "dictIsRehashing d \<longrightarrow> rehash_left d1 < rehash_left d" "rehash_left d1 \<le> rehash_left d"
    using dictRehash_ok [OF less.prems, of 100] by auto
  note unf = dictRehashMilliseconds_loop.simps [of clock start ms i d rehashes]
  have busy: "dictIsRehashing d" if "dictIsRehashing d1"
    using that d1(5) d1(2) by (cases "dictIsRehashing d") (auto simp: rehash_left_def dict_ok_def)
  consider "\<not> dictIsRehashing d1" | "dictIsRehashing d1" "clock i - start > ms" | "dictIsRehashing d1" "clock i - start \<le> ms"
    by linarith
  then show ?case
  proof cases
    case 1
    then show ?thesis using d1 unf by (intro exI [of _ d1] exI [of _ 0]) simp
  next
    case 2
    then have "rehash_left d > 0" using d1(4) busy by auto
    then show ?thesis using 2 d1 unf by (intro exI [of _ d1] exI [of _ 1]) (simp add: Suc_le_eq)
  next
    case 3
    obtain d' j where r: "dictRehashMilliseconds_loop clock start ms (i + 1) d1 (rehashes + 100) = Some (d', rehashes + 100 + 100 * j)"
      "dict_ok d'" "same_shell d1 d'" "j \<le> rehash_left d1" "\<forall>m\<ge>i + 1. m + 1 < i + 1 + j \<longrightarrow> clock m - start \<le> ms"
      "dictIsRehashing d' \<longleftrightarrow> j > 0 \<and> clock (i + 1 + j - 1) - start > ms"
      "rehash_batches (if dictIsRehashing d' then j else j + 1) d1 = Some d'"
      using less.hyps [of d1 "i + 1" "rehashes + 100"] d1 busy [OF 3(1)] by blast
    have "clock m - start \<le> ms" if "m \<ge> i" "m + 1 < i + (j + 1)" for m using that r(5) 3(2) by (cases "m = i") auto
    moreover have "j + 1 \<le> rehash_left d" using r(4) d1(4) busy [OF 3(1)] by simp
    moreover have "dictIsRehashing d' \<longleftrightarrow> j + 1 > 0 \<and> clock (i + (j + 1) - 1) - start > ms" using r(6) 3(2) by (cases j) auto
    moreover have "rehash_batches (if dictIsRehashing d' then j + 1 else j + 1 + 1) d = Some d'"
      using r(7) d1(1) by (simp split: if_splits)
    ultimately show ?thesis using 3 d1 unf r(1,2) same_shell_trans [OF d1(3) r(3)]
      by (intro exI [of _ d'] exI [of _ "j + 1"]) (simp add: algebra_simps)
  qed
qed

subsection \<open>The map interface\<close>

definition dict_inv :: "('k, 'v) dict \<times> bool \<Rightarrow> bool" where
  "dict_inv s \<longleftrightarrow> dict_ok (fst s) \<and> dictType_ok (dtype (fst s))"

definition dict_abs :: "('k, 'v) dict \<times> bool \<Rightarrow> 'k \<rightharpoonup> 'v" where
  "dict_abs s = dict_map (fst s)"

lemma dom_dict_map: "dom (dict_map d) = key ` set (entries d)"
  by (auto simp: dict_map_def dom_map_of_conv_image_fst image_image)

lemma dictSize_card: "dict_ok d \<Longrightarrow> dictSize d = card (dom (dict_map d))"
  using distinct_card [of "map key (entries d)"] by (simp add: dictSize_entries dom_dict_map dict_ok_def)

lemma dictResize_ok:
  assumes "dict_ok d"
  shows "\<exists>d' b. dictResize cr d = Some (d', b) \<and> dict_ok d' \<and> same_shell d d'"
proof -
  let ?m = "sint (of_nat (used (ht0 d)) :: u32)"
  have "?m < 2 ^ 31" using sint_less [of "of_nat (used (ht0 d)) :: u32"] by simp
  then have "nat (if ?m < int DICT_HT_INITIAL_SIZE then int DICT_HT_INITIAL_SIZE else ?m) \<le> 2 ^ 63"
    by (auto simp: DICT_HT_INITIAL_SIZE_def)
  from dictExpand_ok [OF assms this] assms show ?thesis
    by (auto simp: dictResize_def Let_def same_shell_def)
qed

lemma dict_exec_law:
  assumes inv: "dict_inv s" and cap: "card (dom (dict_abs s)) < 2 ^ 62"
  shows "\<exists>s'. dict_exec junk s c = Some (s', snd (spec_op c (dict_abs s))) \<and> dict_inv s' \<and>
    dict_abs s' = fst (spec_op c (dict_abs s))"
proof -
  obtain d cr where s: "s = (d, cr)" by (cases s)
  have ok: "dict_ok d" and ty: "dictType_ok (dtype d)" and sz: "dictSize d < 2 ^ 62"
    using inv cap s by (auto simp: dict_inv_def dict_abs_def dictSize_card)
  have shell: "dict_inv (d', cr') \<and> dict_abs (d', cr') = dict_map d" if "dict_ok d'" "same_shell d d'" for d' cr'
    using that ty same_shell_map [OF ok that(2)] by (simp add: dict_inv_def dict_abs_def same_shell_def)
  show ?thesis
  proof (cases c)
    case (Add k v)
    then show ?thesis using dictAdd_ok [OF ok ty sz, of cr junk k v] s ty
      by (auto simp: dict_inv_def dict_abs_def)
  next
    case (Replace k v)
    then show ?thesis using dictReplace_ok [OF ok ty sz, of cr junk k v] s ty
      by (auto simp: dict_inv_def dict_abs_def)
  next
    case (Delete k)
    obtain d' e where "dictGenericDelete d k = Some (d', e)" "dict_ok d'" "dtype d' = dtype d"
      "dict_map d' = (dict_map d)(k := None)" "map_option val e = dict_map d k"
      using dictGenericDelete_ok [OF ok ty, of k] by blast
    moreover then have "e \<noteq> None \<longleftrightarrow> dict_map d k \<noteq> None" by (metis option.map_disc_iff)
    ultimately show ?thesis using Delete s ty
      by (auto simp: dictDelete_def dict_inv_def dict_abs_def)
  next
    case (Fetch k)
    then show ?thesis using dictFetchValue_ok [OF ok ty, of k] s ty
      by (auto simp: dict_inv_def dict_abs_def same_shell_def)
  next
    case (Task t)
    then show ?thesis
    proof (cases t)
      case (Rehash n)
      then show ?thesis using Task dictRehash_ok [OF ok, of n] s shell
        by (auto simp: dict_abs_def)
    next
      case Resize
      then show ?thesis using Task dictResize_ok [OF ok, of cr] s shell
        by (auto simp: dict_abs_def)
    qed (use Task s inv in \<open>auto simp: dict_inv_def dict_abs_def\<close>)
  qed
qed

lemma dict_inv_finite: "dict_inv s \<Longrightarrow> finite (dom (dict_abs s))"
  by (simp add: dict_abs_def dom_dict_map)

interpretation dmap: bounded_map dict_inv dict_abs "2 ^ 62" "dict_exec junk" for junk
  by unfold_locales (erule dict_inv_finite, erule (1) dict_exec_law)

text \<open>Property C1. Any sequence of additions, replacements, deletions and lookups, interleaved
  with rehashing steps, resize requests and changes of the resize switch, runs to its end on a
  new dictionary (no access is out of bounds, no assertion fails, no loop diverges), gives the
  replies a finite map gives and leaves the dictionary well formed and equal to that map. The
  callbacks are those of any lawful type and the hash function is arbitrary.\<close>

theorem dict_refines_map:
  assumes "dictType_ok ty" and "length ops \<le> 2 ^ 62"
  shows "\<exists>d cr'. run_ops (dict_exec junk) ops (dictCreate ty, cr) = Some ((d, cr'), snd (spec_run ops Map.empty)) \<and>
    dict_ok d \<and> dict_map d = fst (spec_run ops Map.empty)"
proof -
  have "dict_inv (dictCreate ty, cr)" "dict_abs (dictCreate ty, cr) = Map.empty"
    using assms(1) by (simp_all add: dict_inv_def dict_abs_def dictCreate_ok)
  then show ?thesis using dmap.run_ops_law [of "(dictCreate ty, cr)" ops junk] assms(2)
    by (auto simp: dict_inv_def dict_abs_def)
qed

text \<open>A type for the witnesses: numbers as keys, hashed to themselves.\<close>

definition nat_type :: "(nat, nat) dictType" where
  "nat_type = \<lparr>hashFunction = of_nat, keyDup = None, valDup = None, keyCompare = None\<rparr>"

lemma nat_type_ok: "dictType_ok nat_type"
  by (simp add: dictType_ok_def nat_type_def)

theorem dict_refines_map_witness:
  "\<exists>d cr'. run_ops (dict_exec 0) [Add 1 10, Add 5 50, Add 9 90, Add 13 30, Add 17 70, Replace 5 51, Task (Rehash 2),
     Delete 9, Fetch 5, Add 1 0, Task Resize, Fetch 9] (dictCreate nat_type, True) =
     Some ((d, cr'), [Flag True, Flag True, Flag True, Flag True, Flag True, Flag False, Done, Flag True,
       Found (Some 51), Flag False, Done, Found None]) \<and>
     dict_ok d \<and> dict_map d 17 = Some 70"
  using dict_refines_map [OF nat_type_ok, of "[Add 1 10, Add 5 50, Add 9 90, Add 13 30, Add 17 70, Replace 5 51,
    Task (Rehash 2), Delete 9, Fetch 5, Add 1 0, Task Resize, Fetch 9]" 0 True]
  by auto

text \<open>Replacing a key's value on a well-formed dictionary, in the middle of a
  rehashing or not, ends with the map updated at that key only, tells whether the key was new
  and hands the previous value, if any, to the value destructor.\<close>

lemma dictReplace_correct:
  assumes "dict_ok d" and "dictType_ok (dtype d)" and "dictSize d < 2 ^ 62"
  shows "\<exists>d'. dictReplace cr junk d k v = Some (d', dict_map d k = None, dict_map d k) \<and> dict_ok d' \<and>
    dict_map d' = (dict_map d)(k \<mapsto> v)"
  using dictReplace_ok [OF assms] by blast

lemma nat_type_chain_ok: "dict_ok (dictCreate nat_type)" "dictType_ok (dtype (dictCreate nat_type))"
  "dictSize (dictCreate nat_type) < 2 ^ 62"
  using dictCreate_ok [of nat_type] nat_type_ok by simp_all

text \<open>Unlinking a key returns the entry that held it, counts it out and leaves the
  map without that key; on an absent key nothing changes but the progress of a rehashing.\<close>

lemma dictUnlink_correct:
  assumes "dict_ok d" and "dictType_ok (dtype d)"
  shows "\<exists>d' e. dictUnlink d k = Some (d', e) \<and> dict_ok d' \<and> dict_map d' = (dict_map d)(k := None) \<and>
    map_option val e = dict_map d k \<and> dictSize d' + (if e = None then 0 else 1) = dictSize d"
  using dictGenericDelete_ok [OF assms] unfolding dictUnlink_def by blast

text \<open>Property C31. Rehashing for a number of milliseconds ends whatever the clock does and keeps
  every entry. It returns 100 times the number j of batches that left something to do, at most
  one for every bucket left: the readings of the clock before the last one were within the time,
  the rehashing is left incomplete exactly if the reading after the last batch was not, and the
  dictionary is the one after these batches, or after one more that completes the rehashing.\<close>

theorem dictRehashMilliseconds_finishes:
  assumes "dict_ok d"
  shows "\<exists>d' j. dictRehashMilliseconds clock d ms = Some (d', 100 * j) \<and> dict_ok d' \<and> mset (entries d') = mset (entries d) \<and>
    j \<le> rehash_left d \<and> (\<forall>i\<ge>1. i < j \<longrightarrow> clock i - clock 0 \<le> ms) \<and>
    (dictIsRehashing d' \<longleftrightarrow> j > 0 \<and> clock j - clock 0 > ms) \<and>
    rehash_batches (if dictIsRehashing d' then j else j + 1) d = Some d'"
  using dictRehashMilliseconds_loop_ok [OF assms, of clock "clock 0" ms 1 0]
  unfolding dictRehashMilliseconds_def same_shell_def
  by (simp add: Suc_le_eq del: rehash_batches.simps split del: if_split) blast

text \<open>A dictionary of 2048 buckets that holds one entry, in its last bucket, and shrinks.\<close>

definition sparse_dict :: "int \<Rightarrow> (nat, nat) dict" where
  "sparse_dict idx = \<lparr>dtype = nat_type,
     ht0 = \<lparr>table = replicate 2047 [] @ [[\<lparr>key = 2047, val = 1\<rparr>]], htsize = 2048, sizemask = 2047, used = 1\<rparr>,
     ht1 = \<lparr>table = replicate 4 [], htsize = 4, sizemask = 3, used = 0\<rparr>, rehashidx = idx, iterators = 0\<rparr>"

lemma sparse_dict_ok: "dict_ok (sparse_dict 0)"
proof -
  have p: "\<exists>n<64. 2048 = (2::nat) ^ n" "\<exists>n<64. 4 = (2::nat) ^ n" by (rule exI [of _ 11], simp) (rule exI [of _ 2], simp)
  have "unat (of_nat (key e) AND 2047 :: u64) = i"
    if "i < 2048" "e \<in> set ((replicate 2047 [] @ [[\<lparr>key = 2047, val = 1\<rparr>]]) ! i)" for i and e :: "(nat, nat) dictEntry"
    using that by (cases "i < 2047") (simp_all add: nth_append)
  then have "ht_ok (hashFunction nat_type) (ht0 (sparse_dict 0))"
    using p(1) by (simp add: ht_ok_def sparse_dict_def nat_type_def)
  moreover have "ht_ok (hashFunction nat_type) (ht1 (sparse_dict 0))" using p(2) by (simp add: ht_ok_def sparse_dict_def)
  ultimately show ?thesis by (simp add: dict_ok_def sparse_dict_def dictIsRehashing_def entries_def)
qed

lemma rehash_skip_empty:
  "0 < n \<Longrightarrow> n \<le> m \<Longrightarrow> rehash_skip (replicate m [] @ bs) idx (int n) = Some (idx + int n, 0, True)"
proof (induction n arbitrary: m idx)
  case (Suc n)
  then obtain k where k: "m = Suc k" by (cases m) auto
  show ?case using Suc.IH [of k "idx + 1"] Suc.prems k by (cases "n = 0") (auto simp: algebra_simps)
qed simp

lemma sparse_rehash: "i + 1000 \<le> 2047 \<Longrightarrow> dictRehash (sparse_dict (int i)) 100 = Some (sparse_dict (int i + 1000), True)"
proof -
  assume i: "i + 1000 \<le> 2047"
  have d: "drop i (replicate 2047 [] @ [[e]]) = replicate (2047 - i) [] @ [[e]]" for e :: "(nat, nat) dictEntry" using i by simp
  have "rehash_skip (drop i (table (ht0 (sparse_dict (int i))))) (int i) 1000 = Some (int i + 1000, 0, True)"
    using i rehash_skip_empty [of 1000 "2047 - i" "[[\<lparr>key = 2047, val = 1\<rparr>]] :: (nat, nat) dictEntry list list" "int i"]
    by (simp only: sparse_dict_def dict.simps dictht.simps d) simp
  moreover have "used (ht0 (sparse_dict (int i))) = 1" "rehashidx (sparse_dict (int i)) = int i"
    "htsize (ht0 (sparse_dict (int i))) = 2048" "(sparse_dict (int i))\<lparr>rehashidx := j\<rparr> = sparse_dict j" for j
    by (simp_all add: sparse_dict_def)
  ultimately have "dictRehash_loop (Suc 99) 1000 (sparse_dict (int i)) = Some (sparse_dict (int i + 1000), True)"
    using i by (simp only: dictRehash_loop.simps) simp
  then show ?thesis by (simp add: dictRehash_def) (simp add: sparse_dict_def dictIsRehashing_def)
qed

theorem dictRehashMilliseconds_finishes_witness:
  "dictRehashMilliseconds (\<lambda>i. 3 * int i) (sparse_dict 0) 5 = Some (sparse_dict 2000, 200)"
proof -
  obtain d' j where r: "dictRehashMilliseconds (\<lambda>i. 3 * int i) (sparse_dict 0) 5 = Some (d', 100 * j)"
    "\<forall>i\<ge>1. i < j \<longrightarrow> 3 * int i - 3 * int 0 \<le> 5" "dictIsRehashing d' \<longleftrightarrow> j > 0 \<and> 3 * int j - 3 * int 0 > 5"
    "rehash_batches (if dictIsRehashing d' then j else j + 1) (sparse_dict 0) = Some d'"
    using dictRehashMilliseconds_finishes [OF sparse_dict_ok, of "\<lambda>i. 3 * int i" 5]
    by (elim exE conjE) (rule that)
  have b: "rehash_batches 1 (sparse_dict 0) = Some (sparse_dict 1000)" "rehash_batches 2 (sparse_dict 0) = Some (sparse_dict 2000)"
    using sparse_rehash [of 0] sparse_rehash [of 1000] by (simp_all add: numeral_2_eq_2)
  have re: "dictIsRehashing (sparse_dict 1000)" "dictIsRehashing (sparse_dict 2000)" by (simp_all add: dictIsRehashing_def sparse_dict_def)
  have "j \<le> 2" using r(2) [rule_format, of 2] by (cases "2 < j") auto
  then consider "j = 0" | "j = 1" | "j = 2" by linarith
  then show ?thesis
  proof cases
    case 1
    then show ?thesis using r(3,4) b(1) re(1) by simp
  next
    case 2
    then show ?thesis using r(3,4) b(2) re(2) by (simp add: numeral_2_eq_2)
  next
    case 3
    then show ?thesis using r(1,3,4) b(2) by simp
  qed
qed

end
