(* ===== verification/Dict_Scan.thy ===== *)
theory Dict_Scan
  imports Dict
begin

unbundle bit_operations_syntax

section \<open>Incremental iteration over a dictionary (dictScan)\<close>

text \<open>
  The cursor of \<open>dictScan\<close> counts in reversed bit order. Its order is that of the number
  \<open>R v\<close>, the value of the cursor read from its lowest bit down: a call emits the buckets of
  one block of \<open>R\<close> values and returns the start of the next block, so that a table that
  doubles or halves between two calls only splits or joins blocks. The proofs turn bucket
  indices into blocks (\<open>same_block\<close>), the cursor increment into an addition
  (\<open>next_cursor_R\<close>) and the inner loop over the larger table into a counter
  (\<open>dictScan_expand_ok\<close>).
\<close>


function rev_loop :: "nat \<Rightarrow> u64 \<Rightarrow> u64 \<Rightarrow> u64" where
  "rev_loop s msk v =
     (let s = s div 2 in
      if s > 0 then
        let msk = msk XOR push_bit s msk;
          v = (drop_bit s v AND msk) OR (push_bit s v AND NOT msk)
        in rev_loop s msk v
      else v)"
  by auto
termination by (relation "measure (\<lambda>(s, _, _). s)") auto
declare rev_loop.simps [simp del]

definition rev64 :: "u64 \<Rightarrow> u64" where
  "rev64 v = rev_loop 64 (NOT 0) v"

partial_function (option) dictScan_expand ::
  "('k, 'v) dictht \<Rightarrow> u64 \<Rightarrow> u64 \<Rightarrow> u64 \<Rightarrow> (u64 \<times> ('k, 'v) dictEntry list list) option" where
  "dictScan_expand t1 m0 m1 v = do {
     b \<leftarrow> bucket t1 (v AND m1);
     let v = (((v OR m0) + 1) AND NOT m0) OR (v AND m0);
     if v AND (m0 XOR m1) \<noteq> 0
     then do { (v, bs) \<leftarrow> dictScan_expand t1 m0 m1 v; Some (v, b # bs) }
     else Some (v, [b]) }"

definition dictScan :: "('k, 'v) dict \<Rightarrow> u64 \<Rightarrow> (u64 \<times> ('k, 'v) dictEntry list list) option" where
  \<comment> \<open>the next cursor and the chains handed to \<open>bucketfn\<close> and, entry by entry, to \<open>fn\<close>\<close>
  "dictScan d v =
     (if dictSize d = 0 then Some (0, [])
      else do {
        (m0, v, bs) \<leftarrow>
          (if \<not> dictIsRehashing d then do {
             let m0 = sizemask (ht0 d);
             b \<leftarrow> bucket (ht0 d) (v AND m0);
             Some (m0, v, [b]) }
           else do {
             let (t0, t1) = (if htsize (ht0 d) > htsize (ht1 d) then (ht1 d, ht0 d) else (ht0 d, ht1 d));
             let m0 = sizemask t0;
             b \<leftarrow> bucket t0 (v AND m0);
             (v, bs) \<leftarrow> dictScan_expand t1 m0 (sizemask t1) v;
             Some (m0, v, b # bs) });
        let v = v OR NOT m0;
        let v = rev64 v;
        let v = v + 1;
        Some (rev64 v, bs) })"


section \<open>Bit reversal\<close>

text \<open>One round exchanges neighbouring blocks of \<open>s\<close> bits, provided the mask marks every
  second block.\<close>

definition alternating :: "nat \<Rightarrow> u64 \<Rightarrow> bool" where
  "alternating s m \<longleftrightarrow> (\<forall>i<64. bit m i \<longleftrightarrow> even (i div s))"

definition blockswap :: "nat \<Rightarrow> nat \<Rightarrow> nat" where
  "blockswap s i = (if even (i div s) then i + s else i - s)"

lemma bits_upt: "(\<forall>i<64. P i) \<longleftrightarrow> list_all P [0..<64]" for P :: "nat \<Rightarrow> bool"
  by (auto simp: list_all_iff)

lemma rev_round:
  assumes "alternating s m" and "i < 64" and "s > 0" "s dvd 32"
  shows "bit ((drop_bit s v AND m) OR (push_bit s v AND NOT m) :: u64) i \<longleftrightarrow>
    bit v (blockswap s i)"
proof -
  have "s \<le> i" if "odd (i div s)" using that assms(3) by (metis div_less even_zero leI)
  then show ?thesis using assms(1,2)
    by (auto simp: bit_simps alternating_def blockswap_def add.commute)
qed

lemma alternating_masks:
  "alternating 32 0xFFFFFFFF" "alternating 16 0x0000FFFF0000FFFF" "alternating 8 0x00FF00FF00FF00FF"
  "alternating 4 0x0F0F0F0F0F0F0F0F" "alternating 2 0x3333333333333333" "alternating 1 0x5555555555555555"
  unfolding alternating_def bits_upt by code_simp+

lemma rev_step:
  assumes "alternating s' m'" and "m' = m XOR push_bit s' m" and "s div 2 = s'" "s' > 0" "s' dvd 32"
    and "\<forall>i<64. bit v i \<longleftrightarrow> bit v0 (f i)" and "\<forall>i<64. (blockswap s' i) < 64"
  shows "\<exists>v'. rev_loop s m v = rev_loop s' m' v' \<and>
    (\<forall>i<64. bit v' i \<longleftrightarrow> bit v0 (f (blockswap s' i)))"
  using assms rev_round [OF assms(1) _ assms(4,5), of _ v]
  by (intro exI [of _ "(drop_bit s' v AND m') OR (push_bit s' v AND NOT m')"]) (simp add: rev_loop.simps [of s] Let_def)

lemma rev64_bit:
  assumes "i < 64"
  shows "bit (rev64 v) i \<longleftrightarrow> bit v (63 - i)"
proof -
  have x: "\<forall>i<64. blockswap 32 i < 64" "\<forall>i<64. blockswap 16 i < 64" "\<forall>i<64. blockswap 8 i < 64" "\<forall>i<64. blockswap 4 i < 64"
    "\<forall>i<64. blockswap 2 i < 64" "\<forall>i<64. blockswap 1 i < 64"
    unfolding bits_upt by code_simp+
  have "\<forall>i<64. blockswap 32 i = i XOR 32" "\<forall>i<64. blockswap 16 i = i XOR 16" "\<forall>i<64. blockswap 8 i = i XOR 8"
    "\<forall>i<64. blockswap 4 i = i XOR 4" "\<forall>i<64. blockswap 2 i = i XOR 2" "\<forall>i<64. blockswap 1 i = i XOR 1"
    unfolding bits_upt by code_simp+
  then have c: "\<forall>i<64. blockswap 32 (blockswap 16 (blockswap 8 (blockswap 4 (blockswap 2 (blockswap 1 i))))) =
    (((((i XOR 1) XOR 2) XOR 4) XOR 8) XOR 16) XOR 32"
    using x by simp
  have "\<forall>i<64. i XOR 63 = 63 - (i :: nat)"
    unfolding bits_upt by code_simp
  with c have all: "\<forall>i<64. blockswap 32 (blockswap 16 (blockswap 8 (blockswap 4 (blockswap 2 (blockswap 1 i))))) = 63 - i"
    by (simp add: xor.assoc)
  have m: "0xFFFFFFFF = (NOT 0 :: u64) XOR push_bit 32 (NOT 0)"
    "0x0000FFFF0000FFFF = (0xFFFFFFFF :: u64) XOR push_bit 16 0xFFFFFFFF"
    "0x00FF00FF00FF00FF = (0x0000FFFF0000FFFF :: u64) XOR push_bit 8 0x0000FFFF0000FFFF"
    "0x0F0F0F0F0F0F0F0F = (0x00FF00FF00FF00FF :: u64) XOR push_bit 4 0x00FF00FF00FF00FF"
    "0x3333333333333333 = (0x0F0F0F0F0F0F0F0F :: u64) XOR push_bit 2 0x0F0F0F0F0F0F0F0F"
    "0x5555555555555555 = (0x3333333333333333 :: u64) XOR push_bit 1 0x3333333333333333"
    by code_simp+
  obtain v1 where v1: "rev64 v = rev_loop 32 0xFFFFFFFF v1" "\<forall>i<64. bit v1 i \<longleftrightarrow> bit v (blockswap 32 i)"
    using rev_step [OF alternating_masks(1) m(1), of 64 v v "\<lambda>i. i"] x(1) by (auto simp: rev64_def)
  obtain v2 where v2: "rev_loop 32 0xFFFFFFFF v1 = rev_loop 16 0x0000FFFF0000FFFF v2" 
     "\<forall>i<64. bit v2 i \<longleftrightarrow> bit v (blockswap 32 (blockswap 16 i))"
    using rev_step [OF alternating_masks(2) m(2), of 32 v1 v "blockswap 32"] v1 x(2) by auto
  obtain v3 where v3: "rev_loop 16 0x0000FFFF0000FFFF v2 = rev_loop 8 0x00FF00FF00FF00FF v3"
     "\<forall>i<64. bit v3 i \<longleftrightarrow> bit v (blockswap 32 (blockswap 16 (blockswap 8 i)))"
    using rev_step [OF alternating_masks(3) m(3), of 16 v2 v "\<lambda>i. blockswap 32 (blockswap 16 i)"] v2 x(3) by auto
  obtain v4 where v4: "rev_loop 8 0x00FF00FF00FF00FF v3 = rev_loop 4 0x0F0F0F0F0F0F0F0F v4"
     "\<forall>i<64. bit v4 i \<longleftrightarrow> bit v (blockswap 32 (blockswap 16 (blockswap 8 (blockswap 4 i))))"
    using rev_step [OF alternating_masks(4) m(4), of 8 v3 v "\<lambda>i. blockswap 32 (blockswap 16 (blockswap 8 i))"] v3 x(4) by auto
  obtain v5 where v5: "rev_loop 4 0x0F0F0F0F0F0F0F0F v4 = rev_loop 2 0x3333333333333333 v5"
     "\<forall>i<64. bit v5 i \<longleftrightarrow> bit v (blockswap 32 (blockswap 16 (blockswap 8 (blockswap 4 (blockswap 2 i)))))"
    using rev_step [OF alternating_masks(5) m(5), of 4 v4 v "\<lambda>i. blockswap 32 (blockswap 16 (blockswap 8 (blockswap 4 i)))"] v4 x(5) by auto
  obtain v6 where v6: "rev_loop 2 0x3333333333333333 v5 = rev_loop 1 0x5555555555555555 v6"
     "\<forall>i<64. bit v6 i \<longleftrightarrow> bit v (blockswap 32 (blockswap 16 (blockswap 8 (blockswap 4 (blockswap 2 (blockswap 1 i))))))"
    using rev_step [OF alternating_masks(6) m(6), of 2 v5 v "\<lambda>i. blockswap 32 (blockswap 16 (blockswap 8 (blockswap 4 (blockswap 2 i))))"] v5 x(6) by auto
  have "rev64 v = v6" using v1(1) v2(1) v3(1) v4(1) v5(1) v6(1) by (simp add: rev_loop.simps [of "Suc 0"])
  then show ?thesis using v6(2) all assms by simp
qed

lemma rev64_rev64 [simp]: "rev64 (rev64 v) = v"
  by (rule bit_word_eqI) (simp add: rev64_bit)

abbreviation R :: "u64 \<Rightarrow> nat" where "R v \<equiv> unat (rev64 v)"

lemma unat_drop_bit64: "unat (drop_bit k w) = unat w div 2 ^ k" for w :: u64
proof -
  have "unat (drop_bit k w) = drop_bit k (unat w)"
    by (rule bit_eqI) (auto simp: bit_simps dest: bit_imp_le_length)
  then show ?thesis by (simp only: drop_bit_eq_div)
qed

lemma unat_mask64: "k \<le> 64 \<Longrightarrow> unat (mask k :: u64) = mask k"
  by (rule bit_eqI) (auto simp: bit_simps)

lemma R_div: "R v div 2 ^ k = unat (drop_bit k (rev64 v))"
  by (simp only: unat_drop_bit64)

lemma same_block:
  assumes "n \<le> 64"
  shows "v AND mask n = h AND mask n \<longleftrightarrow> R v div 2 ^ (64 - n) = R h div 2 ^ (64 - n)"
proof -
  have "v AND mask n = h AND mask n \<longleftrightarrow> (\<forall>i<n. bit v i = bit h i)"
    using assms by (auto simp: bit_eq_iff bit_simps) (meson less_le_trans)+
  also have "\<dots> \<longleftrightarrow> (\<forall>i<n. bit v (n - 1 - i) = bit h (n - 1 - i))"
  proof
    assume a: "\<forall>i<n. bit v (n - 1 - i) = bit h (n - 1 - i)"
    show "\<forall>i<n. bit v i = bit h i"
    proof (intro allI impI)
      fix i assume "i < n"
      then show "bit v i = bit h i" using a [rule_format, of "n - 1 - i"] by simp
    qed
  qed auto
  also have "\<dots> \<longleftrightarrow> drop_bit (64 - n) (rev64 v) = drop_bit (64 - n) (rev64 h)"
  proof -
    have "bit (drop_bit (64 - n) (rev64 w)) i \<longleftrightarrow> i < n \<and> bit w (n - 1 - i)" for w i
    proof (cases "i < n")
      case True
      then have "64 - n + i < 64" "63 - (64 - n + i) = n - 1 - i" using assms by auto
      then show ?thesis using True by (simp add: bit_drop_bit_eq rev64_bit)
    next
      case False
      then show ?thesis using assms by (auto simp: bit_drop_bit_eq dest: bit_imp_le_length)
    qed
    then show ?thesis using assms by (auto simp: bit_eq_iff) (meson less_le_trans)+
  qed
  finally show ?thesis by (simp add: R_div word_eq_iff_unsigned [where 'a=nat])
qed

lemma or_mask_nat: "x OR mask k = x div 2 ^ k * 2 ^ k + (2 ^ k - 1)" for x :: nat
proof -
  have "x OR mask k = push_bit k (drop_bit k x) OR mask k"
    by (rule bit_eqI) (auto simp: bit_simps)
  also have "\<dots> = push_bit k (drop_bit k x) + mask k"
    by (rule disjunctive_add [symmetric]) (auto simp: bit_simps)
  finally show ?thesis by (simp add: push_bit_eq_mult drop_bit_eq_div mask_eq_exp_minus_1)
qed

definition next_cursor :: "nat \<Rightarrow> u64 \<Rightarrow> u64" where
  "next_cursor n v = rev64 (rev64 (v OR NOT (mask n)) + 1)"

lemma next_cursor_R:
  assumes "n \<le> 64"
  shows "R (next_cursor n v) = ((R v div 2 ^ (64 - n) + 1) * 2 ^ (64 - n)) mod 2 ^ 64"
proof -
  let ?k = "64 - n"
  have "rev64 (v OR NOT (mask n)) = rev64 v OR mask ?k"
    using assms by (intro bit_word_eqI) (auto simp: rev64_bit bit_simps)
  moreover have "unat (rev64 v OR mask ?k) = R v div 2 ^ ?k * 2 ^ ?k + (2 ^ ?k - 1)"
    by (simp add: unsigned_or_eq or_mask_nat unat_mask64)
  ultimately have "R (next_cursor n v) = (R v div 2 ^ ?k * 2 ^ ?k + (2 ^ ?k - 1) + 1) mod 2 ^ 64"
    by (simp add: next_cursor_def unat_word_ariths)
  moreover have "(2::nat) ^ ?k > 0" by simp
  ultimately show ?thesis by (simp add: algebra_simps del: zero_less_power)
qed

definition field :: "nat \<Rightarrow> nat \<Rightarrow> u64 \<Rightarrow> nat" where
  \<comment> \<open>bits n0 to n1 - 1, as a number\<close>
  "field n0 n1 v = unat v div 2 ^ n0 mod 2 ^ (n1 - n0)"

lemma field_bits: "n0 \<le> n1 \<Longrightarrow> n1 \<le> 64 \<Longrightarrow> field n0 n1 v = unat (take_bit (n1 - n0) (drop_bit n0 v))"
  by (simp only: field_def unsigned_take_bit_eq unat_drop_bit64) (simp only: take_bit_eq_mod)

lemma field_eq_iff:
  assumes "n0 \<le> n1" "n1 \<le> 64"
  shows "field n0 n1 v = field n0 n1 h \<longleftrightarrow> (\<forall>i. n0 \<le> i \<and> i < n1 \<longrightarrow> bit v i = bit h i)"
proof -
  have "field n0 n1 v = field n0 n1 h \<longleftrightarrow> (\<forall>i<n1 - n0. bit v (n0 + i) = bit h (n0 + i))"
    using assms by (auto simp: field_bits bit_eq_iff bit_simps word_eq_iff_unsigned [where 'a=nat])
  also have "\<dots> \<longleftrightarrow> (\<forall>i. n0 \<le> i \<and> i < n1 \<longrightarrow> bit v i = bit h i)"
    by (metis add.commute le_add1 le_add_diff_inverse less_diff_conv)
  finally show ?thesis .
qed

lemma field_zero_iff:
  assumes "n0 \<le> n1" "n1 \<le> 64"
  shows "field n0 n1 v = 0 \<longleftrightarrow> v AND (mask n0 XOR mask n1) = 0"
proof -
  have "field n0 n1 v = 0 \<longleftrightarrow> (\<forall>i. n0 \<le> i \<and> i < n1 \<longrightarrow> \<not> bit v i)"
    using field_eq_iff [OF assms, of v 0] by (simp add: field_def)
  also have "\<dots> \<longleftrightarrow> v AND (mask n0 XOR mask n1) = 0"
  proof -
    have "bit (v AND (mask n0 XOR mask n1)) i \<longleftrightarrow> n0 \<le> i \<and> i < n1 \<and> bit v i" for i
      using assms by (auto simp: bit_and_iff bit_xor_iff bit_mask_iff dest: bit_imp_le_length)
    then show ?thesis by (metis bit_0_eq bot_apply bot_bool_def bit_word_eqI)
  qed
  finally show ?thesis .
qed

lemma and_mask_split:
  assumes "n0 \<le> n1" "n1 \<le> 64"
  shows "v AND mask n1 = h AND mask n1 \<longleftrightarrow> v AND mask n0 = h AND mask n0 \<and> field n0 n1 v = field n0 n1 h"
proof -
  have m: "v AND mask n = h AND mask n \<longleftrightarrow> (\<forall>i<n. bit v i = bit h i)" if "n \<le> 64" for n
    using that by (auto simp: bit_eq_iff bit_simps) (meson less_le_trans)+
  have "(\<forall>i<n1. bit v i = bit h i) \<longleftrightarrow>
    (\<forall>i<n0. bit v i = bit h i) \<and> (\<forall>i. n0 \<le> i \<and> i < n1 \<longrightarrow> bit v i = bit h i)"
    using assms(1) by (meson le_less_linear less_le_trans)
  then show ?thesis using assms m [of n0] m [of n1] field_eq_iff [OF assms, of v h] by simp
qed

definition expand_step :: "u64 \<Rightarrow> u64 \<Rightarrow> u64" where
  "expand_step m0 v = (((v OR m0) + 1) AND NOT m0) OR (v AND m0)"

lemma expand_step_low: "expand_step m0 v AND m0 = v AND m0"
  by (rule bit_word_eqI) (auto simp: expand_step_def bit_simps)

lemma expand_step_field:
  assumes "n0 \<le> n1" "n1 \<le> 64"
  shows "field n0 n1 (expand_step (mask n0) v) = (field n0 n1 v + 1) mod 2 ^ (n1 - n0)"
proof -
  let ?X = "(v OR mask n0) + 1"
  have n: "n0 \<le> 64" using assms by simp
  have "drop_bit n0 (expand_step (mask n0) v) = drop_bit n0 ?X"
    by (rule bit_word_eqI) (auto simp: expand_step_def bit_simps dest: bit_imp_le_length)
  then have "unat (expand_step (mask n0) v) div 2 ^ n0 = unat ?X div 2 ^ n0"
    by (metis unat_drop_bit64)
  also have "unat ?X = ((unat v div 2 ^ n0 + 1) * 2 ^ n0) mod (2 ^ (64 - n0) * 2 ^ n0)"
  proof -
    have "unat (v OR mask n0) = unat v div 2 ^ n0 * 2 ^ n0 + (2 ^ n0 - 1)"
      using n by (simp add: unsigned_or_eq or_mask_nat unat_mask64)
    then have "unat ?X = (unat v div 2 ^ n0 * 2 ^ n0 + (2 ^ n0 - 1) + 1) mod 2 ^ 64"
      by (simp add: unat_word_ariths)
    moreover have "(2::nat) ^ n0 > 0" by simp
    moreover have "(2::nat) ^ 64 = 2 ^ (64 - n0) * 2 ^ n0" using n by (simp flip: power_add)
    ultimately show ?thesis by (simp add: algebra_simps del: zero_less_power)
  qed
  also have "\<dots> div 2 ^ n0 = (unat v div 2 ^ n0 + 1) mod 2 ^ (64 - n0)"
    by (simp only: mod_mult_mult2) simp
  finally have "field n0 n1 (expand_step (mask n0) v) = (unat v div 2 ^ n0 + 1) mod 2 ^ (64 - n0) mod 2 ^ (n1 - n0)"
    by (simp add: field_def)
  also have "\<dots> = (unat v div 2 ^ n0 + 1) mod 2 ^ (n1 - n0)"
    using assms by (intro mod_mod_cancel le_imp_power_dvd) simp
  finally show ?thesis by (simp add: field_def mod_Suc_eq)
qed

lemma ht_ok_size:
  assumes "ht_ok h t" "htsize t > 0"
  obtains n where "n < 64" "htsize t = 2 ^ n" "length (table t) = 2 ^ n" "sizemask t = mask n"
proof -
  from assms obtain n where n: "n < 64" "htsize t = 2 ^ n" and s: "sizemask t = of_nat (htsize t) - 1" "length (table t) = htsize t"
    by (auto simp: ht_ok_def simp del: of_nat_power)
  then have "sizemask t = mask n" by (simp add: mask_eq_exp_minus_1)
  then show thesis using that n s(2) by simp
qed

lemma bucket_mask:
  assumes "length (table t) = 2 ^ n" "n < 64"
  shows "bucket t (v AND mask n) = Some (table t ! unat (v AND mask n))"
  using and_mask_less [OF assms(2), of v] assms(1) by (simp add: bucket_def mask_eq_exp_minus_1)

lemma dictScan_expand_step:
  assumes "bucket t (v AND m1) = Some b"
  shows "dictScan_expand t m0 m1 v = (if expand_step m0 v AND (m0 XOR m1) \<noteq> 0
    then map_option (\<lambda>(v, bs). (v, b # bs)) (dictScan_expand t m0 m1 (expand_step m0 v)) else Some (expand_step m0 v, [b]))"
  using assms unfolding expand_step_def
  by (subst dictScan_expand.simps) (auto simp: Let_def map_option_case split: option.splits)

lemma dictScan_expand_ok:
  assumes "n0 \<le> n1" "n1 < 64" "length (table t) = 2 ^ n1"
  shows "\<exists>v' bs. dictScan_expand t (mask n0) (mask n1) v = Some (v', bs) \<and> v' AND mask n0 = v AND mask n0 \<and>
    set bs \<subseteq> set (table t) \<and>
    (\<forall>h. h AND mask n0 = v AND mask n0 \<longrightarrow> field n0 n1 v \<le> field n0 n1 h \<longrightarrow>
       table t ! unat (h AND mask n1) \<in> set bs)"
proof (induction "2 ^ (n1 - n0) - field n0 n1 v" arbitrary: v rule: less_induct)
  case less
  let ?D = "2 ^ (n1 - n0) :: nat" and ?f = "field n0 n1" and ?v = "expand_step (mask n0) v"
  let ?b = "table t ! unat (v AND mask n1)"
  have le: "n1 \<le> 64" using assms by simp
  have b: "bucket t (v AND mask n1) = Some ?b" using bucket_mask [OF assms(3,2)] .
  have lt: "?f w < ?D" for w by (simp add: field_def)
  have fv: "?f ?v = (?f v + 1) mod ?D" using expand_step_field [OF assms(1) le] .
  have low: "?v AND mask n0 = v AND mask n0" by (rule expand_step_low)
  have bt: "?b \<in> set (table t)"
    using and_mask_less [OF assms(2), of v] assms(3) by (intro nth_mem) (simp add: mask_eq_exp_minus_1)
  have same: "h AND mask n1 = v AND mask n1" if "h AND mask n0 = v AND mask n0" "?f h = ?f v" for h
    using and_mask_split [OF assms(1) le, of h v] that by simp
  show ?case
  proof (cases "?f v + 1 = ?D")
    case True
    define bs where "bs = [?b]"
    from True have "dictScan_expand t (mask n0) (mask n1) v = Some (?v, bs)" unfolding bs_def
      using fv field_zero_iff [OF assms(1) le, of ?v] by (simp add: dictScan_expand_step [OF b])
    moreover have "table t ! unat (h AND mask n1) \<in> set bs" if a: "h AND mask n0 = v AND mask n0" "?f v \<le> ?f h" for h
    proof -
      have "?f h = ?f v" using a(2) lt [of h] True by simp
      then show ?thesis by (simp only: same [OF a(1)] bs_def list.set insertI1)
    qed
    moreover have "set bs \<subseteq> set (table t)" using bt by (simp add: bs_def)
    ultimately show ?thesis using low by blast
  next
    case False
    then have f': "?f ?v = ?f v + 1" using fv lt [of v] by simp
    then have "?D - ?f ?v < ?D - ?f v" using lt [of v] by simp
    from less(1) [OF this] obtain v' bs where r: "dictScan_expand t (mask n0) (mask n1) ?v = Some (v', bs)"
      "v' AND mask n0 = ?v AND mask n0" "set bs \<subseteq> set (table t)"
      "\<forall>h. h AND mask n0 = ?v AND mask n0 \<longrightarrow> ?f ?v \<le> ?f h \<longrightarrow> table t ! unat (h AND mask n1) \<in> set bs"
      by blast
    have "dictScan_expand t (mask n0) (mask n1) v = Some (v', ?b # bs)"
      using f' r(1) field_zero_iff [OF assms(1) le, of ?v] by (simp add: dictScan_expand_step [OF b])
    moreover have "table t ! unat (h AND mask n1) \<in> set (?b # bs)"
      if "h AND mask n0 = v AND mask n0" "?f v \<le> ?f h" for h
    proof (cases "?f h = ?f v")
      case False
      then show ?thesis using r(4) that low f' by auto
    qed (use same [OF that(1)] in simp)
    moreover have "set (?b # bs) \<subseteq> set (table t)" using r(3) bt by simp
    ultimately show ?thesis using r(2) low by (metis (no_types, lifting))
  qed
qed


definition scan_size :: "('k, 'v) dict \<Rightarrow> nat" where
  "scan_size d = (if dictIsRehashing d then min (htsize (ht0 d)) (htsize (ht1 d)) else htsize (ht0 d))"

lemma rev64_bit_swap: "i < 64 \<Longrightarrow> bit v i = bit (rev64 v) (63 - i)"
  by (simp add: rev64_bit)

lemma R_bit: "i < 64 \<Longrightarrow> bit v i \<longleftrightarrow> odd (R v div 2 ^ (63 - i))"
proof -
  assume "i < 64"
  moreover have "odd (R v div 2 ^ (63 - i)) \<longleftrightarrow> bit (R v) (63 - i)" by (simp only: bit_iff_odd)
  ultimately show ?thesis by (simp add: bit_unsigned_iff rev64_bit)
qed

lemma R_dvd_bit:
  assumes "2 ^ k dvd R v" and "64 - k \<le> i" "i < 64"
  shows "\<not> bit v i"
proof -
  have "2 * 2 ^ (63 - i) dvd R v"
    using assms by (intro dvd_trans [OF _ assms(1)]) (simp flip: power_Suc add: le_imp_power_dvd)
  then have "even (R v div 2 ^ (63 - i))" by (auto elim!: dvdE)
  then show ?thesis using R_bit [OF assms(3)] by simp
qed

lemma R_less:
  assumes "n < 64" "h AND mask n = v AND mask n" "\<not> bit h n" "bit v n"
  shows "R h < R v"
proof -
  let ?k = "63 - n"
  have k: "64 - n = Suc ?k" using assms(1) by simp
  have "R h div 2 ^ ?k div 2 = R v div 2 ^ ?k div 2"
    using same_block [of n h v] assms(1,2) unfolding k
    by (simp add: div_mult2_eq [symmetric] mult.commute)
  moreover have "even (R h div 2 ^ ?k)" "odd (R v div 2 ^ ?k)"
    using R_bit [OF assms(1), of h] R_bit [OF assms(1), of v] assms(3,4) by simp_all
  ultimately have "R h div 2 ^ ?k < R v div 2 ^ ?k" by (elim evenE oddE) simp
  then show ?thesis by (meson div_le_mono not_less)
qed

text \<open>A cursor left by a scan of a table at most twice the size of the smaller table now: the
  part of the larger table that is not visited lies before the cursor.\<close>

lemma field_le_of_R:
  assumes n: "n0 \<le> n1" "n1 < 64" and dv: "2 ^ (63 - n0) dvd R v"
    and h: "h AND mask n0 = v AND mask n0" "R v \<le> R h"
  shows "field n0 n1 v \<le> field n0 n1 h"
proof (cases "n0 < n1")
  case False
  then show ?thesis using n by (simp add: field_def)
next
  case True
  have le: "n1 \<le> 64" "n0 < 64" using n by auto
  have z: "\<not> bit v i" if "n0 < i" "i < n1" for i
    using R_dvd_bit [OF dv, of i] that n by simp
  show ?thesis
  proof (cases "bit v n0")
    case False
    then have "field n0 n1 v = field n0 n1 0"
      using z by (subst field_eq_iff [OF n(1) le(1)]) (metis bit_0_eq bot_apply bot_bool_def le_eq_less_or_eq)
    then show ?thesis by (simp add: field_def)
  next
    case True
    have "field n0 n1 v = field n0 n1 (2 ^ n0)"
      using z True le by (subst field_eq_iff [OF n(1) le(1)]) (auto simp: bit_simps le_less)
    also have "field n0 n1 (2 ^ n0) \<le> 1"
    proof -
      have "unat (of_nat (2 ^ n0) :: u64) = 2 ^ n0"
        using le(2) by (simp only: unsigned_of_nat) (simp add: take_bit_nat_eq_self)
      then show ?thesis by (simp add: field_def)
    qed
    finally have f1: "field n0 n1 v \<le> 1" .
    have "bit h n0" using R_less [OF le(2) h(1) _ True] h(2) by auto
    then have "field n0 n1 h \<noteq> field n0 n1 0"
      using \<open>n0 < n1\<close> by (subst field_eq_iff [OF n(1) le(1)]) auto
    with f1 show ?thesis by (simp add: field_def)
  qed
qed

lemma bucket_emitted:
  assumes "ht_ok h t" "length (table t) = 2 ^ n" "n < 64" "sizemask t = mask n"
    and "e \<in> set (concat (table t))" and "h (key e) AND mask n = v AND mask n"
  shows "e \<in> set (table t ! unat (v AND mask n))"
  using in_concat_bucket [OF assms(1,5)] assms(4,6) by simp

lemma dictScan_static_step:
  assumes ok: "dict_ok d" and sz: "dictSize d > 0" and nr: "\<not> dictIsRehashing d"
  shows "\<exists>bs n. dictScan d v = Some (next_cursor n v, bs) \<and> n < 64 \<and> scan_size d = 2 ^ n \<and>
    set (concat bs) \<subseteq> set (entries d) \<and>
    (\<forall>e\<in>set (entries d). R (hashFunction (dtype d) (key e)) div 2 ^ (64 - n) = R v div 2 ^ (64 - n) \<longrightarrow>
       e \<in> set (concat bs))"
proof -
  let ?h = "hashFunction (dtype d)"
  have o: "ht_ok ?h (ht0 d)" "ht1 d = dictReset" using ok nr by (auto simp: dict_ok_def)
  then have u: "htsize (ht0 d) > 0"
    using sz empty_ht_used [OF o(1)] by (simp add: dictSize_def dictReset_def)
  obtain n where n: "n < 64" "htsize (ht0 d) = 2 ^ n" "length (table (ht0 d)) = 2 ^ n" "sizemask (ht0 d) = mask n"
    using ht_ok_size [OF o(1) u] .
  define b where "b = table (ht0 d) ! unat (v AND mask n)"
  have run: "dictScan d v = Some (next_cursor n v, [b])"
    using sz nr bucket_mask [OF n(3,1), of v] by (simp add: dictScan_def n(4) next_cursor_def Let_def b_def)
  have "b \<in> set (table (ht0 d))"
    using and_mask_less [OF n(1), of v] n(3) by (auto simp: b_def mask_eq_exp_minus_1)
  then have "set (concat [b]) \<subseteq> set (entries d)" by (auto simp: entries_def)
  moreover have "e \<in> set b" if e: "e \<in> set (entries d)" "R (?h (key e)) div 2 ^ (64 - n) = R v div 2 ^ (64 - n)" for e
  proof -
    have "e \<in> set (concat (table (ht0 d)))" using e(1) o(2) by (simp add: entries_def dictReset_def)
    moreover have "?h (key e) AND mask n = v AND mask n" using same_block [of n] n(1) e(2) by simp
    ultimately show ?thesis unfolding b_def by (rule bucket_emitted [OF o(1) n(3,1,4)])
  qed
  ultimately show ?thesis using run n(1,2) nr by (auto simp: scan_size_def)
qed

lemma dictScan_rehash_step:
  assumes ok: "dict_ok d" and sz: "dictSize d > 0" and re: "dictIsRehashing d"
  shows "\<exists>bs n. dictScan d v = Some (next_cursor n v, bs) \<and> n < 64 \<and> scan_size d = 2 ^ n \<and>
    set (concat bs) \<subseteq> set (entries d) \<and>
    (2 ^ (63 - n) dvd R v \<longrightarrow> (\<forall>e\<in>set (entries d). R v \<le> R (hashFunction (dtype d) (key e)) \<longrightarrow>
       R (hashFunction (dtype d) (key e)) div 2 ^ (64 - n) = R v div 2 ^ (64 - n) \<longrightarrow> e \<in> set (concat bs)))"
proof -
  let ?h = "hashFunction (dtype d)"
  define t0 where "t0 = (if htsize (ht0 d) > htsize (ht1 d) then ht1 d else ht0 d)"
  define t1 where "t1 = (if htsize (ht0 d) > htsize (ht1 d) then ht0 d else ht1 d)"
  have o: "ht_ok ?h t0" "ht_ok ?h t1" "htsize t0 > 0" "htsize t1 > 0" "htsize t0 \<le> htsize t1"
    using ok re by (auto simp: dict_ok_def t0_def t1_def)
  have ent: "set (entries d) = set (concat (table t0)) \<union> set (concat (table t1))"
    by (auto simp: entries_def t0_def t1_def)
  obtain n where n: "n < 64" "htsize t0 = 2 ^ n" "length (table t0) = 2 ^ n" "sizemask t0 = mask n"
    using ht_ok_size [OF o(1,3)] .
  obtain n1 where n1: "n1 < 64" "htsize t1 = 2 ^ n1" "length (table t1) = 2 ^ n1" "sizemask t1 = mask n1"
    using ht_ok_size [OF o(2,4)] .
  have le: "n \<le> n1" using o(5) n(2) n1(2) by simp
  define b where "b = table t0 ! unat (v AND mask n)"
  obtain v' bs where x: "dictScan_expand t1 (mask n) (mask n1) v = Some (v', bs)" "v' AND mask n = v AND mask n"
    "set bs \<subseteq> set (table t1)"
    "\<forall>h. h AND mask n = v AND mask n \<longrightarrow> field n n1 v \<le> field n n1 h \<longrightarrow> table t1 ! unat (h AND mask n1) \<in> set bs"
    using dictScan_expand_ok [OF le n1(1,3), of v] by blast
  have "v' OR NOT (mask n) = v OR NOT (mask n)"
  proof (rule bit_word_eqI)
    fix i assume "i < LENGTH(64)"
    then show "bit (v' OR NOT (mask n)) i = bit (v OR NOT (mask n)) i"
      using arg_cong [OF x(2), of "\<lambda>w. bit w i"] by (auto simp: bit_simps)
  qed
  moreover have sel: "(if htsize (ht0 d) > htsize (ht1 d) then (ht1 d, ht0 d) else (ht0 d, ht1 d)) = (t0, t1)"
    by (simp add: t0_def t1_def)
  ultimately have run: "dictScan d v = Some (next_cursor n v, b # bs)"
    using sz re bucket_mask [OF n(3,1), of v] x(1)
    by (simp add: dictScan_def sel n(4) n1(4) next_cursor_def Let_def b_def)
  have "b \<in> set (table t0)"
    using and_mask_less [OF n(1), of v] n(3) by (auto simp: b_def mask_eq_exp_minus_1)
  then have sub: "set (concat (b # bs)) \<subseteq> set (entries d)" using x(3) unfolding ent by auto
  have "e \<in> set (concat (b # bs))" if dv: "2 ^ (63 - n) dvd R v" and e: "e \<in> set (entries d)" "R v \<le> R (?h (key e))"
    "R (?h (key e)) div 2 ^ (64 - n) = R v div 2 ^ (64 - n)" for e
  proof -
    have low: "?h (key e) AND mask n = v AND mask n" using same_block [of n] n(1) e(3) by simp
    consider "e \<in> set (concat (table t0))" | "e \<in> set (concat (table t1))" using e(1) unfolding ent by blast
    then show ?thesis
    proof cases
      case 1
      then show ?thesis using bucket_emitted [OF o(1) n(3,1,4) 1 low] by (simp add: b_def)
    next
      case 2
      have "table t1 ! unat (?h (key e) AND mask n1) \<in> set bs"
        using x(4) low field_le_of_R [OF le n1(1) dv low e(2)] by blast
      moreover have "e \<in> set (table t1 ! unat (?h (key e) AND mask n1))"
        using in_concat_bucket [OF o(2) 2] n1(4) by simp
      ultimately show ?thesis by auto
    qed
  qed
  moreover have "scan_size d = 2 ^ n" using re n(2) by (auto simp: scan_size_def t0_def split: if_splits)
  ultimately show ?thesis using run n(1) sub by blast
qed

fun scan_run :: "('k, 'v) dict list \<Rightarrow> u64 \<Rightarrow> (u64 \<times> ('k, 'v) dictEntry list) option" where
  \<comment> \<open>a client's iteration: successive calls, each on the dictionary as it is then\<close>
  "scan_run [] v = Some (v, [])"
| "scan_run (d # ds) v = do {
     (v, bs) \<leftarrow> dictScan d v;
     (v, out) \<leftarrow> scan_run ds v;
     Some (v, concat bs @ out) }"

fun scan_compatible :: "nat \<Rightarrow> ('k, 'v) dict list \<Rightarrow> bool" where
  \<comment> \<open>no call finds a rehashing whose smaller table is less than half the size the call before used\<close>
  "scan_compatible s [] \<longleftrightarrow> True"
| "scan_compatible s (d # ds) \<longleftrightarrow> (dictIsRehashing d \<longrightarrow> s \<le> 2 * scan_size d) \<and> scan_compatible (scan_size d) ds"

lemma dictScan_cover:
  assumes ok: "dict_ok d" and k: "k \<in> key ` set (entries d)" and dv: "2 ^ (64 - m) dvd R v" and m: "m \<le> 64"
    and cmp: "dictIsRehashing d \<longrightarrow> 2 ^ m \<le> 2 * scan_size d" and le: "R v \<le> R (hashFunction (dtype d) k)"
  shows "\<exists>bs n. dictScan d v = Some (next_cursor n v, bs) \<and> n < 64 \<and> scan_size d = 2 ^ n \<and>
    (k \<in> key ` set (concat bs) \<or>
     next_cursor n v \<noteq> 0 \<and> R (next_cursor n v) \<le> R (hashFunction (dtype d) k) \<and> 2 ^ (64 - n) dvd R (next_cursor n v))"
proof -
  obtain e where e: "e \<in> set (entries d)" "key e = k" using k by auto
  let ?r = "R (hashFunction (dtype d) k)"
  have sz: "dictSize d > 0" using dictSize_entries [OF ok] e(1) by (auto simp: dictSize_entries [OF ok])
  obtain bs n where s: "dictScan d v = Some (next_cursor n v, bs)" "n < 64" "scan_size d = 2 ^ n"
    "?r div 2 ^ (64 - n) = R v div 2 ^ (64 - n) \<longrightarrow> e \<in> set (concat bs)"
  proof (cases "dictIsRehashing d")
    case False
    then show thesis using that dictScan_static_step [OF ok sz False, of v] e by blast
  next
    case True
    obtain bs n where s: "dictScan d v = Some (next_cursor n v, bs)" "n < 64" "scan_size d = 2 ^ n"
      "2 ^ (63 - n) dvd R v \<Longrightarrow> ?r div 2 ^ (64 - n) = R v div 2 ^ (64 - n) \<Longrightarrow> e \<in> set (concat bs)"
      using dictScan_rehash_step [OF ok sz True, of v] e le by blast
    have "(2::nat) ^ m \<le> 2 ^ Suc n" using cmp True s(3) by simp
    then have "m \<le> Suc n" by (simp only: power_increasing_iff)
    then have "2 ^ (63 - n) dvd R v" using dv s(2) m
      by (intro dvd_trans [OF _ dv]) (simp add: le_imp_power_dvd)
    then show thesis using that s by blast
  qed
  let ?B = "2 ^ (64 - n) :: nat" and ?q = "R v div 2 ^ (64 - n)"
  have c: "R (next_cursor n v) = ((?q + 1) * ?B) mod 2 ^ 64" using s(2) by (intro next_cursor_R) simp
  show ?thesis
  proof (cases "?r div ?B = ?q")
    case True
    then show ?thesis using s e(2) by (intro exI [of _ bs] exI [of _ n]) auto
  next
    case False
    moreover have "?q \<le> ?r div ?B" using le by (rule div_le_mono)
    ultimately have "?q + 1 \<le> ?r div ?B" by simp
    then have "(?q + 1) * ?B \<le> ?r div ?B * ?B" by (rule mult_le_mono1)
    also have "\<dots> \<le> ?r" by (rule div_times_less_eq_dividend)
    finally have 1: "(?q + 1) * ?B \<le> ?r" .
    have "?r < 2 ^ 64" using unsigned_less [of "rev64 (hashFunction (dtype d) k)"] by simp
    with 1 have R: "R (next_cursor n v) = (?q + 1) * ?B" unfolding c by (intro mod_less) simp
    moreover have "next_cursor n v \<noteq> 0"
    proof
      assume "next_cursor n v = 0"
      moreover have "rev64 0 = 0" by (rule bit_word_eqI) (simp add: rev64_bit)
      ultimately have "R (next_cursor n v) = 0" by simp
      with R show False by simp
    qed
    ultimately show ?thesis using s(1-3) 1 by (intro exI [of _ bs] exI [of _ n]) simp
  qed
qed

lemma scan_run_total: "\<forall>d\<in>set ds. dict_ok d \<Longrightarrow> \<exists>v' out. scan_run ds v = Some (v', out)"
proof (induction ds arbitrary: v)
  case (Cons d ds)
  have "\<exists>w bs. dictScan d v = Some (w, bs)"
  proof (cases "dictSize d = 0")
    case False
    then show ?thesis using Cons.prems dictScan_static_step [of d v] dictScan_rehash_step [of d v]
      by (cases "dictIsRehashing d") auto
  qed (simp add: dictScan_def)
  then obtain w bs where w: "dictScan d v = Some (w, bs)" by blast
  have "\<forall>d\<in>set ds. dict_ok d" using Cons.prems by simp
  from Cons.IH [OF this, of w] show ?case using w by auto
qed simp

lemma scan_run_cover:
  assumes "\<forall>d\<in>set ds. dict_ok d \<and> hashFunction (dtype d) = h \<and> k \<in> key ` set (entries d)"
    and "2 ^ (64 - m) dvd R v" "m \<le> 64" and "scan_compatible (2 ^ m) ds" and "R v \<le> R (h k)"
  shows "\<exists>v' out. scan_run ds v = Some (v', out) \<and> (k \<in> key ` set out \<or> v' \<noteq> 0 \<or> ds = [])"
  using assms
proof (induction ds arbitrary: v m)
  case (Cons d ds)
  have p: "dict_ok d" "hashFunction (dtype d) = h" "k \<in> key ` set (entries d)"
    "dictIsRehashing d \<longrightarrow> 2 ^ m \<le> 2 * scan_size d"
    using Cons.prems(1,4) by simp_all
  obtain bs n where s: "dictScan d v = Some (next_cursor n v, bs)" "n < 64" "scan_size d = 2 ^ n"
    "k \<in> key ` set (concat bs) \<or> next_cursor n v \<noteq> 0 \<and> R (next_cursor n v) \<le> R (h k) \<and> 2 ^ (64 - n) dvd R (next_cursor n v)"
    using dictScan_cover [OF p(1,3) Cons.prems(2,3), unfolded p(2), OF p(4) Cons.prems(5)] by blast
  have "\<forall>d\<in>set ds. dict_ok d" using Cons.prems(1) by simp
  note total = scan_run_total [OF this]
  show ?case
  proof (cases "k \<in> key ` set (concat bs)")
    case True
    obtain v' out where "scan_run ds (next_cursor n v) = Some (v', out)" using total by blast
    then have "scan_run (d # ds) v = Some (v', concat bs @ out)" using s(1) by simp
    moreover have "k \<in> key ` set (concat bs @ out)" using True by auto
    ultimately show ?thesis by blast
  next
    case False
    then obtain v' out where "scan_run ds (next_cursor n v) = Some (v', out)" "k \<in> key ` set out \<or> v' \<noteq> 0 \<or> ds = []"
      using Cons.IH [of n "next_cursor n v"] Cons.prems s by auto
    then show ?thesis using s False by auto
  qed
qed simp
lemma rev64_0 [simp]: "rev64 0 = 0" by (rule bit_word_eqI) (simp add: rev64_bit)

lemma scan_full_loop:
  assumes ok: "dict_ok d" and sz: "dictSize d > 0" and n: "scan_size d = 2 ^ n" "n < 64"
  shows "j > 0 \<Longrightarrow> i + j = 2 ^ n \<Longrightarrow> R v = i * 2 ^ (64 - n) \<Longrightarrow>
    \<exists>out. scan_run (replicate j d) v = Some (0, out) \<and> set out \<subseteq> set (entries d)"
proof (induction j arbitrary: i v)
  case (Suc j)
  obtain bs n' where s: "dictScan d v = Some (next_cursor n' v, bs)" "n' < 64" "scan_size d = 2 ^ n'"
    "set (concat bs) \<subseteq> set (entries d)"
    using dictScan_static_step [OF ok sz, of v] dictScan_rehash_step [OF ok sz, of v] by blast
  have "n' = n" using s(3) n(1) by simp
  have "(2::nat) ^ n * 2 ^ (64 - n) = 2 ^ 64" using n(2) by (simp flip: power_add)
  then have full: "(i + Suc j) * 2 ^ (64 - n) = 2 ^ 64" using Suc.prems(2) by simp
  have R: "R (next_cursor n v) = ((i + 1) * 2 ^ (64 - n)) mod 2 ^ 64"
    using next_cursor_R [of n v] n(2) Suc.prems(3) by simp
  show ?case
  proof (cases "j = 0")
    case True
    then have "R (next_cursor n v) = 0" using R full by simp
    then have "rev64 (next_cursor n v) = 0" by (simp add: unsigned_eq_0_iff)
    then have "next_cursor n v = rev64 0" by (metis rev64_rev64)
    moreover have "rev64 0 = 0" by (rule bit_word_eqI) (simp add: rev64_bit)
    ultimately show ?thesis using True s \<open>n' = n\<close> by simp
  next
    case False
    then have "(i + 1) * 2 ^ (64 - n) < (i + Suc j) * 2 ^ (64 - n)" by (intro mult_strict_right_mono) auto
    then have "R (next_cursor n v) = (i + 1) * 2 ^ (64 - n)" using R unfolding full by simp
    then obtain out where "scan_run (replicate j d) (next_cursor n v) = Some (0, out)" "set out \<subseteq> set (entries d)"
      using Suc.IH [of "i + 1" "next_cursor n v"] False Suc.prems(2) by auto
    then show ?thesis using s \<open>n' = n\<close> by simp
  qed
qed simp

lemma scan_compatible_replicate: "scan_compatible s (replicate j d) \<longleftrightarrow> j = 0 \<or> (dictIsRehashing d \<longrightarrow> s \<le> 2 * scan_size d)"
proof (induction j arbitrary: s)
  case (Suc j)
  then show ?case by (cases j) auto
qed simp

lemma scan_full:
  assumes ok: "dict_ok d" and sz: "dictSize d > 0"
  shows "\<exists>out. scan_run (replicate (scan_size d) d) 0 = Some (0, out) \<and> set out = set (entries d)"
proof -
  obtain bs n where n: "n < 64" "scan_size d = 2 ^ n"
    using dictScan_static_step [OF ok sz, of 0] dictScan_rehash_step [OF ok sz, of 0] by blast
  obtain out where out: "scan_run (replicate (scan_size d) d) 0 = Some (0, out)" "set out \<subseteq> set (entries d)"
    using scan_full_loop [OF ok sz n(2,1), of "2 ^ n" 0 0] n(2) by auto
  have dist: "distinct (map key (entries d))" using ok by (simp add: dict_ok_def)
  have "e \<in> set out" if e: "e \<in> set (entries d)" for e
  proof -
    have cmp: "scan_compatible (2 ^ 0) (replicate (scan_size d) d)"
      using n(2) by (simp add: scan_compatible_replicate)
    have all: "\<forall>x\<in>set (replicate (scan_size d) d). dict_ok x \<and> hashFunction (dtype x) = hashFunction (dtype d) \<and>
      key e \<in> key ` set (entries x)"
      using ok e by simp
    have "key e \<in> key ` set out"
      using scan_run_cover [OF all _ _ cmp, of 0] out(1) n(2) by auto
    then obtain e' where "e' \<in> set out" "key e' = key e" by auto
    moreover then have "e' = e" using dist e out(2) by (auto simp: distinct_map inj_on_def)
    ultimately show ?thesis by simp
  qed
  then show ?thesis using out by auto
qed


text \<open>Property C7. A scan that starts at cursor 0 and is continued until the cursor is 0 again
  emits every key that is in the dictionary at each call, whatever is added, removed, rehashed
  or resized between the calls, as long as no call meets a rehashing whose smaller table is
  less than half the size the previous call worked with.\<close>

theorem dictScan_complete:
  assumes "\<forall>d\<in>set ds. dict_ok d \<and> hashFunction (dtype d) = h \<and> dict_map d k \<noteq> None"
    and "scan_compatible 1 ds" and "ds \<noteq> []" and "scan_run ds 0 = Some (0, out)"
  shows "k \<in> key ` set out"
proof -
  have "\<forall>d\<in>set ds. dict_ok d \<and> hashFunction (dtype d) = h \<and> k \<in> key ` set (entries d)"
    using assms(1) dom_dict_map by (metis domIff)
  from scan_run_cover [OF this, of 0 0] assms show ?thesis by auto
qed

text \<open>Property C30. On a dictionary that does not change, as many calls as its smaller table has
  buckets bring the cursor back to 0 and emit exactly the entries of the dictionary.\<close>

theorem dictScan_full:
  assumes "dict_ok d" and "dictSize d > 0"
  shows "\<exists>out. scan_run (replicate (scan_size d) d) 0 = Some (0, out) \<and> set out = set (entries d)"
  using scan_full [OF assms] .

text \<open>A dictionary with one key in bucket 4 of 16, and the same dictionary when a shrink to 4
  buckets has just begun.\<close>

definition d16 :: "(nat, nat) dict" where
  "d16 = \<lparr>dtype = nat_type, ht0 = \<lparr>table = (replicate 16 [])[4 := [\<lparr>key = 4, val = 7\<rparr>]], htsize = 16, sizemask = 15, used = 1\<rparr>,
     ht1 = dictReset, rehashidx = -1, iterators = 0\<rparr>"
definition d16_4 :: "(nat, nat) dict" where
  "d16_4 = d16\<lparr>ht1 := \<lparr>table = replicate 4 [], htsize = 4, sizemask = 3, used = 0\<rparr>, rehashidx := 0\<rparr>"

lemma np: "dictNextPower 16 = Some 16" "dictNextPower 4 = Some 4"
  by (simp_all add: dictNextPower_def dictNextPower_loop.simps DICT_HT_INITIAL_SIZE_def)

lemma mk16: "do { (d, _) \<leftarrow> dictExpand (dictCreate nat_type) 16; dictAdd True 0 d 4 7 } = Some (d16, True)"
  by (simp add: dictExpand_def np dictCreate_def dictReset_def dictIsRehashing_def dictAdd_def dictAddRaw_def rehash_if_needed_def
    dictKeyIndex_def dictExpandIfNeeded_def nat_type_def dictHashKey_def Let_def bucket_def push_entry_def dictSetVal_def set_val_ht_def
    dupKey_def dupVal_def d16_def)

lemma shrink: "dictResize True d16 = Some (d16_4, True)"
  by (simp add: dictResize_def d16_def dictIsRehashing_def DICT_HT_INITIAL_SIZE_def Let_def dictExpand_def np d16_4_def)



lemma rev_vals: "rev64 (rev64 (- 16) + 1) = 8" "rev64 (rev64 (- 4) + 1) = 2" "rev64 (rev64 (- 2) + 1) = 1"
  "rev64 (rev64 (- 3) + 1) = 3" "rev64 (- 1) = - 1"
  by code_simp+

lemmas scan_eval = dictScan_def d16_4_def d16_def dictSize_def dictReset_def dictIsRehashing_def bucket_def rev_vals
  dictScan_expand.simps

lemma scans:
  "dictScan d16 0 = Some (8, [[]])" "dictScan d16_4 8 = Some (2, [[], [], []])"
  "dictScan d16_4 2 = Some (1, [[], [], [], [], []])" "dictScan d16_4 1 = Some (3, [[], [], [], [], []])"
  "dictScan d16_4 3 = Some (0, [[], [], [], [], []])"
  by (simp_all add: scan_eval)


lemma d16_ok: "dict_ok d16" "dict_map d16 = [4 \<mapsto> 7]"
proof -
  obtain d b where d: "dictExpand (dictCreate nat_type) 16 = Some (d, b)" "dict_ok d" "same_shell (dictCreate nat_type) d"
    using dictExpand_ok [of "dictCreate nat_type" 16] dictCreate_ok(1) [of nat_type] by auto
  have m: "dict_map d = Map.empty" using same_shell_map [OF dictCreate_ok(1) d(3)] dictCreate_ok(2) by simp
  have "dictSize d < 2 ^ 62" using dictSize_card [OF d(2)] m by simp
  moreover have "dictType_ok (dtype d)" using d(3) nat_type_ok by (simp add: same_shell_def dictCreate_ok)
  ultimately obtain d' where "dictAdd True 0 d 4 7 = Some (d', True)" "dict_ok d'" "dict_map d' = [4 \<mapsto> 7]"
    using dictAdd_ok [OF d(2), of True 0 4 7] m by auto
  moreover have "d' = d16" using mk16 d(1) calculation(1) by simp
  ultimately show "dict_ok d16" "dict_map d16 = [4 \<mapsto> 7]" by simp_all
qed

lemma d16_4_ok: "dict_ok d16_4" "dict_map d16_4 = [4 \<mapsto> 7]"
  using dictResize_ok [OF d16_ok(1), of True] shrink same_shell_map [OF d16_ok(1)] d16_ok(2) by auto

text \<open>Property C29. The guarantee in the comment of \<open>dictScan\<close> does not hold when the table
  shrinks to less than half between two calls: a key is added to a table of 16 buckets, the
  first call returns cursor 8, the dictionary is resized to 4 buckets, and the remaining calls
  up to cursor 0 never emit the key although it is in the dictionary all the time.\<close>

theorem dictScan_misses_element:
  "\<exists>d d'. do { (d, _) \<leftarrow> dictExpand (dictCreate nat_type) 16; dictAdd True 0 d 4 7 } = Some (d, True) \<and>
     dictResize True d = Some (d', True) \<and> dict_ok d \<and> dict_ok d' \<and>
     dict_map d 4 = Some 7 \<and> dict_map d' 4 = Some 7 \<and>
     scan_run [d, d', d', d', d'] 0 = Some (0, [])"
  using mk16 shrink d16_ok d16_4_ok by (intro exI [of _ d16] exI [of _ d16_4]) (simp add: scans)

theorem dictScan_complete_witness:
  "\<exists>out. scan_run (replicate 16 d16) 0 = Some (0, out) \<and> 4 \<in> key ` set out"
proof -
  have s: "scan_size d16 = 16" by (simp add: scan_size_def d16_def dictIsRehashing_def)
  have "dictSize d16 > 0" by (simp add: dictSize_card [OF d16_ok(1)] d16_ok(2))
  from scan_full [OF d16_ok(1) this] obtain out where out: "scan_run (replicate 16 d16) 0 = Some (0, out)"
    unfolding s by blast
  have "scan_compatible 1 (replicate 16 d16)" by (simp add: scan_compatible_replicate s)
  from dictScan_complete [OF _ this _ out, of "hashFunction (dtype d16)" 4] d16_ok out show ?thesis by auto
qed

theorem dictScan_full_witness:
  "\<exists>out. scan_run (replicate 4 d16_4) 0 = Some (0, out) \<and> set out = set (entries d16_4)"
proof -
  have s: "scan_size d16_4 = 4" by (simp add: scan_size_def d16_4_def d16_def dictIsRehashing_def)
  have "dictSize d16_4 > 0" by (simp add: dictSize_card [OF d16_4_ok(1)] d16_4_ok(2))
  from dictScan_full [OF d16_4_ok(1) this] show ?thesis unfolding s .
qed

end
