(* ===== verification/Dict_Iter.thy ===== *)
theory Dict_Iter
  imports Dict
begin

section \<open>Iterators, sampling and references of hash tables (dict.c)\<close>

text \<open>
  An iterator holds two entry pointers, the entry it returned last and the one to return next. A
  pointer to an entry is modelled by the key of the entry: keys are unique in a well-formed
  dictionary, so reading through a pointer is finding the entry with that key, wherever it is,
  and reading through the pointer of an entry that is gone is \<open>None\<close>. The addresses of
  the two bucket arrays, which only the fingerprint reads, are the parameter \<open>addrs\<close>. Calls of
  \<open>random\<close> read a stream of numbers at an index that grows by one with each call.
\<close>

record 'k dictIterator =
  iter_table :: nat
  iter_index :: int
  iter_safe :: bool
  iter_entry :: "'k option"
  iter_nextEntry :: "'k option"
  iter_fingerprint :: u64

subsection \<open>Fingerprint\<close>

definition fingerprint_step :: "u64 \<Rightarrow> u64 \<Rightarrow> u64" where
  \<comment> \<open>the body of the loop: \<open>>>\<close> on a signed number copies the sign bit\<close>
  "fingerprint_step hash n =
     (let hash = hash + n;
          hash = NOT hash + push_bit 21 hash;
          hash = hash XOR signed_drop_bit 24 hash;
          hash = (hash + push_bit 3 hash) + push_bit 8 hash;
          hash = hash XOR signed_drop_bit 14 hash;
          hash = (hash + push_bit 2 hash) + push_bit 4 hash;
          hash = hash XOR signed_drop_bit 28 hash
      in hash + push_bit 31 hash)"

definition dictFingerprint :: "u64 \<times> u64 \<Rightarrow> ('k, 'v) dict \<Rightarrow> u64" where
  "dictFingerprint addrs d =
     foldl fingerprint_step 0
       [fst addrs, of_nat (htsize (ht0 d)), of_nat (used (ht0 d)),
        snd addrs, of_nat (htsize (ht1 d)), of_nat (used (ht1 d))]"

subsection \<open>Iterators\<close>

definition dictGetIterator :: "'k dictIterator" where
  \<comment> \<open>the fingerprint of the allocated structure is not initialised: 0 stands for its value\<close>
  "dictGetIterator = \<lparr>iter_table = 0, iter_index = -1, iter_safe = False, iter_entry = None,
     iter_nextEntry = None, iter_fingerprint = 0\<rparr>"

definition dictGetSafeIterator :: "'k dictIterator" where
  "dictGetSafeIterator = dictGetIterator\<lparr>iter_safe := True\<rparr>"

definition ht_of :: "('k, 'v) dict \<Rightarrow> nat \<Rightarrow> ('k, 'v) dictht" where
  \<comment> \<open>\<open>d->ht[n]\<close>\<close>
  "ht_of d n = (if n = 0 then ht0 d else ht1 d)"

definition chain_from :: "('k, 'v) dict \<Rightarrow> 'k \<Rightarrow> ('k, 'v) dictEntry list option" where
  \<comment> \<open>the entry a pointer points to and those that follow it by \<open>next\<close>\<close>
  "chain_from d k =
     (case filter (\<lambda>b. b \<noteq> []) (map (dropWhile (\<lambda>e. key e \<noteq> k)) (table (ht0 d) @ table (ht1 d))) of
        [] \<Rightarrow> None | b # _ \<Rightarrow> Some b)"

definition first_key :: "('k, 'v) dictEntry list \<Rightarrow> 'k option" where
  \<comment> \<open>the pointer to the head of a chain\<close>
  "first_key b = (case b of [] \<Rightarrow> None | e # _ \<Rightarrow> Some (key e))"

definition load_bucket :: "'k dictIterator \<Rightarrow> ('k, 'v) dict \<Rightarrow> 'k dictIterator option" where
  \<comment> \<open>\<open>iter->entry = ht->table[iter->index];\<close>\<close>
  "load_bucket it d =
     (let t = table (ht_of d (iter_table it)); i = iter_index it
      in if 0 \<le> i \<and> nat i < length t then Some (it\<lparr>iter_entry := first_key (t ! nat i)\<rparr>) else None)"

definition iter_start :: "u64 \<times> u64 \<Rightarrow> 'k dictIterator \<Rightarrow> ('k, 'v) dict \<Rightarrow> 'k dictIterator \<times> ('k, 'v) dict" where
  \<comment> \<open>on the first call a safe iterator registers itself and an unsafe one takes the fingerprint\<close>
  "iter_start addrs it d =
     (if iter_index it = -1 \<and> iter_table it = 0
      then if iter_safe it then (it, d\<lparr>iterators := iterators d + 1\<rparr>)
           else (it\<lparr>iter_fingerprint := dictFingerprint addrs d\<rparr>, d)
      else (it, d))"

partial_function (option) dictNext :: "u64 \<times> u64 \<Rightarrow> 'k dictIterator \<Rightarrow> ('k, 'v) dict \<Rightarrow>
    (('k dictIterator \<times> ('k, 'v) dict) \<times> 'k option) option" where
  "dictNext addrs it d =
     (if iter_entry it = None then
        let (it, d) = iter_start addrs it d;
            it = it\<lparr>iter_index := iter_index it + 1\<rparr>
        in if iter_index it \<ge> int (htsize (ht_of d (iter_table it))) \<and> \<not> (dictIsRehashing d \<and> iter_table it = 0)
           then Some ((it, d), None) \<comment> \<open>break\<close>
           else do {
             it \<leftarrow> load_bucket
               (if iter_index it \<ge> int (htsize (ht_of d (iter_table it)))
                then it\<lparr>iter_table := 1, iter_index := 0\<rparr> else it) d;
             case iter_entry it of
               Some e \<Rightarrow> do { c \<leftarrow> chain_from d e; Some ((it\<lparr>iter_nextEntry := first_key (tl c)\<rparr>, d), Some e) }
             | None \<Rightarrow> dictNext addrs it d }
      else
        let it = it\<lparr>iter_entry := iter_nextEntry it\<rparr>
        in case iter_entry it of
             Some e \<Rightarrow> do { c \<leftarrow> chain_from d e; Some ((it\<lparr>iter_nextEntry := first_key (tl c)\<rparr>, d), Some e) }
           | None \<Rightarrow> dictNext addrs it d)"

definition dictReleaseIterator :: "u64 \<times> u64 \<Rightarrow> 'k dictIterator \<Rightarrow> ('k, 'v) dict \<Rightarrow> ('k, 'v) dict option" where
  "dictReleaseIterator addrs it d =
     (if \<not> (iter_index it = -1 \<and> iter_table it = 0)
      then if iter_safe it then Some (d\<lparr>iterators := iterators d - 1\<rparr>)
           else if iter_fingerprint it = dictFingerprint addrs d then Some d else None \<comment> \<open>assert\<close>
      else Some d)"

subsection \<open>Random entries\<close>

definition nth_bucket :: "('k, 'v) dictht \<Rightarrow> nat \<Rightarrow> ('k, 'v) dictEntry list option" where
  \<comment> \<open>\<open>ht->table[i]\<close>\<close>
  "nth_bucket t i = (if i < length (table t) then Some (table t ! i) else None)"

definition random_slot :: "nat \<Rightarrow> ('k, 'v) dict \<Rightarrow> ('k, 'v) dictEntry list option" where
  \<comment> \<open>the bucket a random number selects\<close>
  "random_slot r d =
     (if dictIsRehashing d then
        let h = nat (rehashidx d) + r mod (htsize (ht0 d) + htsize (ht1 d) - nat (rehashidx d))
        in if h \<ge> htsize (ht0 d) then nth_bucket (ht1 d) (h - htsize (ht0 d)) else nth_bucket (ht0 d) h
      else nth_bucket (ht0 d) (unat (of_nat r AND sizemask (ht0 d))))"

partial_function (option) random_bucket :: "(nat \<Rightarrow> nat) \<Rightarrow> nat \<Rightarrow> ('k, 'v) dict \<Rightarrow>
    (('k, 'v) dictEntry list \<times> nat) option" where
  \<comment> \<open>\<open>do { ... } while(he == NULL)\<close>; \<open>rnd i\<close> is what the i-th call of \<open>random\<close> returns\<close>
  "random_bucket rnd i d = do {
     he \<leftarrow> random_slot (rnd i) d;
     if he = [] then random_bucket rnd (i + 1) d else Some (he, i + 1) }"

definition dictGetRandomKey :: "(nat \<Rightarrow> nat) \<Rightarrow> nat \<Rightarrow> ('k, 'v) dict \<Rightarrow>
    (('k, 'v) dict \<times> ('k, 'v) dictEntry option \<times> nat) option" where
  "dictGetRandomKey rnd i d =
     (if dictSize d = 0 then Some (d, None, i)
      else do {
        d \<leftarrow> rehash_if_needed d;
        (he, i) \<leftarrow> random_bucket rnd i d;
        let listlen = length he;
        let listele = rnd i mod listlen;
        Some (d, Some (he ! listele), i + 1) })"

fun collect_chain :: "('k, 'v) dictEntry list \<Rightarrow> nat \<Rightarrow> ('k, 'v) dictEntry list \<Rightarrow> ('k, 'v) dictEntry list \<times> bool" where
  \<comment> \<open>\<open>while (he)\<close>: store the entries of a chain in \<open>des\<close>; the flag is the early return\<close>
  "collect_chain [] cnt des = (des, False)"
| "collect_chain (he # hes) cnt des =
     (let des = des @ [he] in if length des = cnt then (des, True) else collect_chain hes cnt des)"

record ('k, 'v) sampling =
  samp_i :: u64
  samp_emptylen :: nat
  samp_calls :: nat \<comment> \<open>calls of \<open>random\<close> so far\<close>
  samp_des :: "('k, 'v) dictEntry list"

definition sample_table :: "(nat \<Rightarrow> nat) \<Rightarrow> ('k, 'v) dict \<Rightarrow> nat \<Rightarrow> nat \<Rightarrow> u64 \<Rightarrow> nat \<Rightarrow> ('k, 'v) sampling \<Rightarrow>
    (('k, 'v) sampling \<times> bool) option" where
  \<comment> \<open>the body of \<open>for (j = 0; j < tables; j++)\<close>\<close>
  "sample_table rnd d cnt tables maxsizemask j s =
     (let i = samp_i s in
      if tables = 2 \<and> j = 0 \<and> unat i < nat (rehashidx d)
      then Some (if unat i \<ge> htsize (ht1 d) then s\<lparr>samp_i := of_int (rehashidx d)\<rparr> else s, False)
      else if unat i \<ge> htsize (ht_of d j) then Some (s, False)
      else do {
        he \<leftarrow> nth_bucket (ht_of d j) (unat i);
        if he = [] then
          let emptylen = samp_emptylen s + 1
          in if emptylen \<ge> 5 \<and> emptylen > cnt
             then Some (s\<lparr>samp_i := of_nat (rnd (samp_calls s)) AND maxsizemask, samp_emptylen := 0,
                 samp_calls := samp_calls s + 1\<rparr>, False)
             else Some (s\<lparr>samp_emptylen := emptylen\<rparr>, False)
        else
          let (des, ret) = collect_chain he cnt (samp_des s)
          in Some (s\<lparr>samp_emptylen := 0, samp_des := des\<rparr>, ret) })"

fun sample_loop :: "(nat \<Rightarrow> nat) \<Rightarrow> ('k, 'v) dict \<Rightarrow> nat \<Rightarrow> nat \<Rightarrow> u64 \<Rightarrow> nat \<Rightarrow> ('k, 'v) sampling \<Rightarrow>
    ('k, 'v) sampling option" where
  \<comment> \<open>\<open>while(stored < count && maxsteps--)\<close>\<close>
  "sample_loop rnd d cnt tables maxsizemask 0 s = Some s"
| "sample_loop rnd d cnt tables maxsizemask (Suc maxsteps) s =
     (if \<not> length (samp_des s) < cnt then Some s
      else do {
        (s, ret) \<leftarrow> sample_table rnd d cnt tables maxsizemask 0 s;
        if ret then Some s
        else do {
          (s, ret) \<leftarrow> (if tables > 1 then sample_table rnd d cnt tables maxsizemask 1 s else Some (s, False));
          if ret then Some s
          else sample_loop rnd d cnt tables maxsizemask maxsteps (s\<lparr>samp_i := (samp_i s + 1) AND maxsizemask\<rparr>) } })"

fun rehash_some :: "nat \<Rightarrow> ('k, 'v) dict \<Rightarrow> ('k, 'v) dict option" where
  \<comment> \<open>\<open>for (j = 0; j < count; j++)\<close>: a rehashing step per key, as long as there is work\<close>
  "rehash_some 0 d = Some d"
| "rehash_some (Suc n) d =
     (if dictIsRehashing d then do { d \<leftarrow> dictRehashStep d; rehash_some n d } else Some d)"

definition dictGetSomeKeys :: "(nat \<Rightarrow> nat) \<Rightarrow> nat \<Rightarrow> ('k, 'v) dict \<Rightarrow> u32 \<Rightarrow>
    (('k, 'v) dict \<times> ('k, 'v) dictEntry list \<times> nat) option" where
  "dictGetSomeKeys rnd calls d cnt = do {
     let cnt = (if dictSize d < unat cnt then of_nat (dictSize d) else cnt);
     let maxsteps = unat (cnt * 10); \<comment> \<open>computed in 32 bits\<close>
     d \<leftarrow> rehash_some (unat cnt) d;
     let tables = (if dictIsRehashing d then 2 else 1);
     let maxsizemask = sizemask (ht0 d);
     let maxsizemask = (if tables > (1 :: nat) \<and> maxsizemask < sizemask (ht1 d) then sizemask (ht1 d) else maxsizemask);
     s \<leftarrow> sample_loop rnd d (unat cnt) tables maxsizemask maxsteps
       \<lparr>samp_i = of_nat (rnd calls) AND maxsizemask, samp_emptylen = 0, samp_calls = calls + 1, samp_des = []\<rparr>;
     Some (d, samp_des s, samp_calls s) }"

subsection \<open>References by pointer, release\<close>

definition dictGetHash :: "('k, 'v) dict \<Rightarrow> 'k \<Rightarrow> u64" where
  "dictGetHash d k = dictHashKey d k"

definition dictFindEntryRefByPtrAndHash :: "('k, 'v) dict \<Rightarrow> 'k \<Rightarrow> u64 \<Rightarrow> entry_ref option option" where
  \<comment> \<open>keys stand for the pointers that are compared; the inner None is NULL\<close>
  "dictFindEntryRefByPtrAndHash d oldptr hash =
     (if used (ht0 d) + used (ht1 d) = 0 then Some None
      else do {
        let idx0 = hash AND sizemask (ht0 d);
        b0 \<leftarrow> bucket (ht0 d) idx0;
        case chain_find (\<lambda>k. oldptr = k) b0 of
          Some p \<Rightarrow> Some (Some (0, unat idx0, p))
        | None \<Rightarrow>
            if \<not> dictIsRehashing d then Some None
            else do {
              let idx1 = hash AND sizemask (ht1 d);
              b1 \<leftarrow> bucket (ht1 d) idx1;
              case chain_find (\<lambda>k. oldptr = k) b1 of
                Some p \<Rightarrow> Some (Some (1, unat idx1, p))
              | None \<Rightarrow> Some None } })"

definition dictRelease :: "('k, 'v) dict \<Rightarrow> ('k, 'v) dictEntry list" where
  \<comment> \<open>the entries freed, before the dictionary itself\<close>
  "dictRelease d = snd (dictClear (ht0 d)) @ snd (dictClear (ht1 d))"

definition dictFreeUnlinkedEntry :: "('k, 'v) dictEntry option \<Rightarrow> ('k \<times> 'v) option" where
  \<comment> \<open>what is handed to the destructors; NULL is ignored\<close>
  "dictFreeUnlinkedEntry he = map_option (\<lambda>e. (key e, val e)) he"

subsection \<open>A client's loop\<close>

text \<open>\<open>while ((de = dictNext(di)) != NULL) body\<close>, for a number of rounds: in the round that
  returns the key \<open>k\<close> the client runs the dictionary operations its body gives for \<open>k\<close>. The
  result lists the keys returned and tells whether the iterator has returned NULL.\<close>

fun iterate :: "u64 \<times> u64 \<Rightarrow> 'v \<Rightarrow> ('k \<Rightarrow> ('k, 'v, dict_task) map_op list) list \<Rightarrow> 'k dictIterator \<Rightarrow>
    ('k, 'v) dict \<times> bool \<Rightarrow> ('k list \<times> bool \<times> 'k dictIterator \<times> ('k, 'v) dict \<times> bool) option" where
  "iterate addrs junk [] it (d, cr) = Some ([], False, it, d, cr)"
| "iterate addrs junk (body # bodies) it (d, cr) = do {
     ((it, d), e) \<leftarrow> dictNext addrs it d;
     case e of
       None \<Rightarrow> Some ([], True, it, d, cr)
     | Some k \<Rightarrow> do {
         ((d, cr), _) \<leftarrow> run_ops (dict_exec junk) (body k) (d, cr);
         (ks, fin, it, s) \<leftarrow> iterate addrs junk bodies it (d, cr);
         Some (k # ks, fin, it, s) } }"

text \<open>What a body may do with a safe iterator: anything but deleting another entry than the one
  it was given and moving entries explicitly.\<close>

fun iter_allowed :: "'k \<Rightarrow> ('k, 'v, dict_task) map_op \<Rightarrow> bool" where
  "iter_allowed k (Delete k') \<longleftrightarrow> k' = k"
| "iter_allowed k (Task (Rehash n)) \<longleftrightarrow> False"
| "iter_allowed k _ \<longleftrightarrow> True"

fun may_insert :: "('k, 'v, dict_task) map_op \<Rightarrow> bool" where
  "may_insert (Add k v) \<longleftrightarrow> True"
| "may_insert (Replace k v) \<longleftrightarrow> True"
| "may_insert _ \<longleftrightarrow> False"

section \<open>Correctness of the iterators\<close>

subsection \<open>Following pointers\<close>

lemma first_key_simps [simp]: "first_key [] = None" "first_key (e # c) = Some (key e)"
  by (simp_all add: first_key_def)

lemma first_suffix:
  assumes "distinct (map key (concat (pre @ b # post)))" and e: "e \<in> set b" "key e = k"
  shows "filter (\<lambda>b. b \<noteq> []) (map (dropWhile (\<lambda>e. key e \<noteq> k)) (pre @ b # post)) =
    dropWhile (\<lambda>e. key e \<noteq> k) b # filter (\<lambda>b. b \<noteq> []) (map (dropWhile (\<lambda>e. key e \<noteq> k)) post)"
proof -
  have "dropWhile (\<lambda>e. key e \<noteq> k) c = []" if "c \<in> set pre" for c
  proof -
    have "key ` set (concat pre) \<inter> key ` set b = {}" using assms(1)
      by (simp only: concat_append concat.simps map_append distinct_append set_append image_set) blast
    moreover have "set c \<subseteq> set (concat pre)" using that by auto
    ultimately show ?thesis using e unfolding dropWhile_eq_Nil_conv by blast
  qed
  then have nil: "filter (\<lambda>b. b \<noteq> []) (map (dropWhile (\<lambda>e. key e \<noteq> k)) pre) = []"
    by (auto simp: filter_empty_conv)
  have "dropWhile (\<lambda>e. key e \<noteq> k) b \<noteq> []" using e by (auto simp: dropWhile_eq_Nil_conv)
  then show ?thesis using nil by simp
qed

lemma chain_from_bucket:
  assumes ok: "dict_ok d" and i: "i < length (table (ht_of d tb))" and b: "table (ht_of d tb) ! i = b"
    and e: "e \<in> set b" "key e = k"
  shows "chain_from d k = Some (dropWhile (\<lambda>e. key e \<noteq> k) b)"
proof -
  define T where "T = table (ht0 d) @ table (ht1 d)"
  define j where "j = (if tb = 0 then i else length (table (ht0 d)) + i)"
  have j: "j < length T" "T ! j = b" using i b by (auto simp: j_def ht_of_def nth_append T_def)
  then have split: "T = take j T @ b # drop (Suc j) T" by (metis id_take_nth_drop)
  have "distinct (map key (concat T))" using ok by (simp add: dict_ok_def entries_def T_def)
  then have "distinct (map key (concat (take j T @ b # drop (Suc j) T)))" using split by metis
  from first_suffix [OF this e] show ?thesis
    unfolding chain_from_def T_def [symmetric] by (subst (asm) split [symmetric]) simp
qed

lemma distinct_bucket: "distinct (map key (concat bs)) \<Longrightarrow> b \<in> set bs \<Longrightarrow> distinct (map key b)"
  by (induction bs) auto

lemma chain_suffix:
  assumes "dict_ok d" and "i < length (table (ht_of d tb))" and b: "table (ht_of d tb) ! i = p @ e # c"
  shows "chain_from d (key e) = Some (e # c)"
proof -
  have "distinct (map key (concat (table (ht_of d tb))))" using assms(1) by (auto simp: dict_ok_def entries_def ht_of_def)
  moreover have "p @ e # c \<in> set (table (ht_of d tb))" using assms(2) b by (metis nth_mem)
  ultimately have "distinct (map key (p @ e # c))" by (rule distinct_bucket)
  then have "dropWhile (\<lambda>x. key x \<noteq> key e) (p @ e # c) = e # c"
    by (subst dropWhile_append2) (auto, metis image_eqI)
  then show ?thesis using chain_from_bucket [OF assms, of e "key e"] by simp
qed

subsection \<open>What an iterator has still to visit\<close>

definition iter_rest :: "'k dictIterator \<Rightarrow> ('k, 'v) dict \<Rightarrow> ('k, 'v) dictEntry list" where
  "iter_rest it d =
     (if iter_entry it = None then []
      else case iter_nextEntry it of None \<Rightarrow> [] | Some k \<Rightarrow> the (chain_from d k)) @
     concat (drop (nat (iter_index it + 1)) (table (ht_of d (iter_table it)))) @
     (if iter_table it = 0 then concat (table (ht1 d)) else [])"

definition iter_ok :: "'k dictIterator \<Rightarrow> ('k, 'v) dict \<Rightarrow> bool" where
  "iter_ok it d \<longleftrightarrow>
     iter_index it \<ge> -1 \<and> iter_table it \<le> 1 \<and> (iter_table it = 1 \<longrightarrow> dictIsRehashing d \<and> iter_index it \<ge> 0) \<and>
     (iter_entry it \<noteq> None \<longrightarrow> iter_index it \<ge> 0 \<and>
        nat (iter_index it) < length (table (ht_of d (iter_table it))) \<and>
        (\<forall>k. iter_nextEntry it = Some k \<longrightarrow>
           k \<in> key ` set (table (ht_of d (iter_table it)) ! nat (iter_index it))))"

definition iter_started :: "'k dictIterator \<Rightarrow> ('k, 'v) dict \<Rightarrow> ('k, 'v) dict" where
  \<comment> \<open>the dictionary after the first call has registered a safe iterator\<close>
  "iter_started it d =
     (if iter_index it = -1 \<and> iter_table it = 0 \<and> iter_safe it then d\<lparr>iterators := iterators d + 1\<rparr> else d)"

lemma iterators_irrelevant [simp]:
  "dict_ok (d\<lparr>iterators := n\<rparr>) = dict_ok d" "ht_of (d\<lparr>iterators := n\<rparr>) tb = ht_of d tb"
  "dictIsRehashing (d\<lparr>iterators := n\<rparr>) = dictIsRehashing d" "entries (d\<lparr>iterators := n\<rparr>) = entries d"
  "chain_from (d\<lparr>iterators := n\<rparr>) k = chain_from d k" "iter_rest it (d\<lparr>iterators := n\<rparr>) = iter_rest it d"
  "iter_ok it (d\<lparr>iterators := n\<rparr>) = iter_ok it d" "dict_map (d\<lparr>iterators := n\<rparr>) = dict_map d"
  by (simp_all add: dict_ok_def ht_of_def dictIsRehashing_def entries_def chain_from_def iter_rest_def iter_ok_def
      dict_map_def split: option.split)

definition iter_left :: "'k dictIterator \<Rightarrow> ('k, 'v) dict \<Rightarrow> nat" where
  \<comment> \<open>the rounds of the loop of \<open>dictNext\<close> that are left\<close>
  "iter_left it d =
     2 * (length (table (ht_of d (iter_table it))) - nat (iter_index it + 1) +
          (if iter_table it = 0 then length (table (ht1 d)) else 0)) +
     (if iter_entry it = None then 0 else 1)"

lemma iter_started_ok [simp]:
  "dict_ok (iter_started it d) = dict_ok d" "ht_of (iter_started it d) tb = ht_of d tb"
  "dictIsRehashing (iter_started it d) = dictIsRehashing d" "iter_ok it' (iter_started it d) = iter_ok it' d"
  "iter_rest it' (iter_started it d) = iter_rest it' d" "iter_left it' (iter_started it d) = iter_left it' d"
  "load_bucket it' (iter_started it d) = load_bucket it' d"
  by (simp_all add: iter_started_def iter_left_def load_bucket_def)

lemma iter_rest_suffix:
  assumes "dict_ok d" and "iter_entry it \<noteq> None" and "nat (iter_index it) < length (table (ht_of d (iter_table it)))"
    and "table (ht_of d (iter_table it)) ! nat (iter_index it) = p @ c" and "iter_nextEntry it = first_key c"
  shows "iter_rest it d = c @ iter_rest (it\<lparr>iter_entry := None\<rparr>) d"
  using chain_suffix [OF assms(1,3)] assms(2,4,5)
  by (cases c) (auto simp: iter_rest_def)

definition returned :: "'k dictIterator \<Rightarrow> ('k, 'v) dict \<Rightarrow> (('k dictIterator \<times> ('k, 'v) dict) \<times> 'k option) option" where
  \<comment> \<open>the end of a round: read the next pointer of the current entry and return it\<close>
  "returned it d =
     (case iter_entry it of None \<Rightarrow> None
      | Some e \<Rightarrow> do { c \<leftarrow> chain_from d e; Some ((it\<lparr>iter_nextEntry := first_key (tl c)\<rparr>, d), Some e) })"

lemma returned_ok:
  assumes "dict_ok d" and "iter_ok (it\<lparr>iter_entry := None\<rparr>) d" "0 \<le> iter_index it"
    and i: "nat (iter_index it) < length (table (ht_of d (iter_table it)))"
    and b: "table (ht_of d (iter_table it)) ! nat (iter_index it) = p @ e # c" and "iter_entry it = Some (key e)"
  shows "returned it d = Some ((it\<lparr>iter_nextEntry := first_key c\<rparr>, d), Some (key e))"
    and "iter_ok (it\<lparr>iter_nextEntry := first_key c\<rparr>) d"
    and "iter_rest (it\<lparr>iter_nextEntry := first_key c\<rparr>) d = c @ iter_rest (it\<lparr>iter_entry := None\<rparr>) d"
proof -
  show "returned it d = Some ((it\<lparr>iter_nextEntry := first_key c\<rparr>, d), Some (key e))"
    using chain_suffix [OF assms(1) i b] assms(6) by (simp add: returned_def)
  show "iter_ok (it\<lparr>iter_nextEntry := first_key c\<rparr>) d"
    using assms by (cases c) (auto simp: iter_ok_def)
  show "iter_rest (it\<lparr>iter_nextEntry := first_key c\<rparr>) d = c @ iter_rest (it\<lparr>iter_entry := None\<rparr>) d"
    using iter_rest_suffix [OF assms(1), of "it\<lparr>iter_nextEntry := first_key c\<rparr>" "p @ [e]" c] assms(6) i b
    by (simp add: iter_rest_def)
qed

text \<open>The bucket a round loads, and what it leaves for the later rounds.\<close>

lemma load_bucket_ok:
  assumes ok: "dict_ok d" and it: "iter_ok it d" and e: "iter_entry it = None"
    and go: "iter_index it + 1 \<ge> int (htsize (ht_of d (iter_table it))) \<longrightarrow> dictIsRehashing d \<and> iter_table it = 0"
  defines "it1 \<equiv> (if iter_index it + 1 \<ge> int (htsize (ht_of d (iter_table it)))
    then it\<lparr>iter_table := 1, iter_index := 0\<rparr> else it\<lparr>iter_index := iter_index it + 1\<rparr>)"
  shows "\<exists>b. load_bucket it1 d = Some (it1\<lparr>iter_entry := first_key b\<rparr>) \<and> iter_ok (it1\<lparr>iter_entry := None\<rparr>) d \<and>
    0 \<le> iter_index it1 \<and> nat (iter_index it1) < length (table (ht_of d (iter_table it1))) \<and>
    table (ht_of d (iter_table it1)) ! nat (iter_index it1) = b \<and>
    iter_rest it d = b @ iter_rest (it1\<lparr>iter_entry := None\<rparr>) d \<and> iter_left (it1\<lparr>iter_entry := None\<rparr>) d < iter_left it d"
proof -
  have sizes: "htsize (ht_of d tb) = length (table (ht_of d tb))" for tb
    using ok by (auto simp: dict_ok_def ht_ok_def ht_of_def)
  show ?thesis
  proof (cases "iter_index it + 1 \<ge> int (htsize (ht_of d (iter_table it)))")
    case True
    then have t: "dictIsRehashing d" "iter_table it = 0" using go by auto
    then have l: "0 < length (table (ht1 d))" using ok sizes [of 1] by (simp add: dict_ok_def ht_of_def)
    have "drop (nat (iter_index it + 1)) (table (ht0 d)) = []"
      using True t sizes [of 0] by (simp add: ht_of_def)
    moreover have "table (ht1 d) = table (ht1 d) ! 0 # drop 1 (table (ht1 d))"
      using l by (metis Cons_nth_drop_Suc One_nat_def drop0)
    ultimately have "iter_rest it d = table (ht1 d) ! 0 @ concat (drop 1 (table (ht1 d)))"
      using e t by (simp add: iter_rest_def ht_of_def) (metis concat.simps(2))
    then show ?thesis
      using True l t it sizes [of 0]
      by (intro exI [of _ "table (ht1 d) ! 0"])
        (simp add: it1_def load_bucket_def ht_of_def Let_def iter_ok_def iter_rest_def iter_left_def e)
  next
    case False
    define i where "i = nat (iter_index it + 1)"
    let ?T = "table (ht_of d (iter_table it))"
    have i: "i < length ?T" "iter_index it + 1 = int i" using False it sizes by (auto simp: iter_ok_def i_def)
    have "drop i ?T = ?T ! i # drop (Suc i) ?T" using i(1) by (simp add: Cons_nth_drop_Suc)
    then have "iter_rest it d = ?T ! i @ iter_rest (it\<lparr>iter_index := int i\<rparr>) d"
      using e by (simp add: iter_rest_def i(2) nat_add_distrib)
    then show ?thesis
      using False i it e
      by (intro exI [of _ "?T ! i"])
        (auto simp: it1_def load_bucket_def Let_def iter_ok_def iter_rest_def iter_left_def)
  qed
qed

lemma iter_start_eq:
  "iter_start addrs it d = (fst (iter_start addrs it d), iter_started it d)"
  "iter_table (fst (iter_start addrs it d)) = iter_table it" "iter_index (fst (iter_start addrs it d)) = iter_index it"
  by (simp_all add: iter_start_def iter_started_def)

lemma dictNext_round:
  assumes "iter_entry it = None"
  shows "dictNext addrs it d =
     (if iter_index it + 1 \<ge> int (htsize (ht_of d (iter_table it))) \<and> \<not> (dictIsRehashing d \<and> iter_table it = 0)
      then Some ((fst (iter_start addrs it d)\<lparr>iter_index := iter_index it + 1\<rparr>, iter_started it d), None)
      else do {
        it1 \<leftarrow> load_bucket (let it = fst (iter_start addrs it d) in
          if iter_index it + 1 \<ge> int (htsize (ht_of d (iter_table it)))
          then it\<lparr>iter_table := 1, iter_index := 0\<rparr> else it\<lparr>iter_index := iter_index it + 1\<rparr>) d;
        if iter_entry it1 = None then dictNext addrs it1 (iter_started it d) else returned it1 (iter_started it d) })"
proof -
  have fin: "(case iter_entry it1 of
      Some e \<Rightarrow> do { c \<leftarrow> chain_from d' e; Some ((it1\<lparr>iter_nextEntry := first_key (tl c)\<rparr>, d'), Some e) }
    | None \<Rightarrow> dictNext addrs it1 d') = (if iter_entry it1 = None then dictNext addrs it1 d' else returned it1 d')"
    for it1 :: "'a dictIterator" and d' :: "('a, 'b) dict"
    by (simp add: returned_def split: option.split)
  show ?thesis
    by (subst dictNext.simps, subst iter_start_eq(1))
      (simp add: assms Let_def fin iter_start_eq(2,3) cong: if_cong)
qed

lemma dictNext_chain:
  "iter_entry it \<noteq> None \<Longrightarrow> dictNext addrs it d =
     (if iter_nextEntry it = None then dictNext addrs (it\<lparr>iter_entry := None\<rparr>) d
      else returned (it\<lparr>iter_entry := iter_nextEntry it\<rparr>) d)"
  by (subst dictNext.simps) (auto simp: returned_def split: option.split)

text \<open>\<open>dictNext\<close> ends, and returns the first entry that is left to visit.\<close>

lemma dictNext_ok:
  assumes "dict_ok d" and "iter_ok it d"
  shows "\<exists>it'. dictNext addrs it d = Some ((it', iter_started it d), first_key (iter_rest it d)) \<and> iter_ok it' d \<and>
    iter_rest it' d = tl (iter_rest it d) \<and> iter_safe it' = iter_safe it \<and> iter_entry it' = first_key (iter_rest it d) \<and>
    \<not> (iter_index it' = -1 \<and> iter_table it' = 0) \<and> iter_fingerprint it' = iter_fingerprint (fst (iter_start addrs it d))"
  using assms
proof (induction "iter_left it d" arbitrary: it d rule: less_induct)
  case less
  note ok = less.prems(1)
  show ?case
  proof (cases "iter_entry it = None")
    case e: True
    define it0 where "it0 = fst (iter_start addrs it d)"
    have it0: "iter_table it0 = iter_table it" "iter_index it0 = iter_index it" "iter_entry it0 = None"
      "iter_safe it0 = iter_safe it" "iter_rest it0 d = iter_rest it d" "iter_left it0 d = iter_left it d" "iter_ok it0 d"
      using e less.prems(2) by (auto simp: it0_def iter_start_def iter_rest_def iter_left_def iter_ok_def)
    define it1 where "it1 = (if iter_index it0 + 1 \<ge> int (htsize (ht_of d (iter_table it0)))
      then it0\<lparr>iter_table := 1, iter_index := 0\<rparr> else it0\<lparr>iter_index := iter_index it0 + 1\<rparr>)"
    have keep: "iter_safe it1 = iter_safe it" "iter_fingerprint it1 = iter_fingerprint it0" by (auto simp: it1_def it0)
    note step = dictNext_round [OF e, of addrs d, folded it0_def, unfolded Let_def, folded it1_def]
    show ?thesis
    proof (cases "iter_index it + 1 \<ge> int (htsize (ht_of d (iter_table it))) \<and> \<not> (dictIsRehashing d \<and> iter_table it = 0)")
      case stop: True
      then have "iter_rest it d = []" "iter_rest (it0\<lparr>iter_index := iter_index it + 1\<rparr>) d = []"
        "iter_ok (it0\<lparr>iter_index := iter_index it + 1\<rparr>) d"
        using ok e it0 less.prems(2)
        by (auto simp: iter_rest_def iter_ok_def dict_ok_def ht_ok_def ht_of_def dictReset_def split: if_splits)
      then show ?thesis using step stop it0 less.prems(2) it0_def by (auto simp: iter_ok_def)
    next
      case go: False
      then obtain b where b: "load_bucket it1 d = Some (it1\<lparr>iter_entry := first_key b\<rparr>)" "iter_ok (it1\<lparr>iter_entry := None\<rparr>) d"
        "0 \<le> iter_index it1" "nat (iter_index it1) < length (table (ht_of d (iter_table it1)))"
        "table (ht_of d (iter_table it1)) ! nat (iter_index it1) = b"
        "iter_rest it0 d = b @ iter_rest (it1\<lparr>iter_entry := None\<rparr>) d" "iter_left (it1\<lparr>iter_entry := None\<rparr>) d < iter_left it0 d"
        using load_bucket_ok [OF ok it0(7,3)] it0 unfolding it1_def [symmetric] by auto
      show ?thesis
      proof (cases b)
        case Nil
        let ?it = "it1\<lparr>iter_entry := None\<rparr>" and ?d = "iter_started it d"
        have "iter_left ?it ?d < iter_left it d" using b(7) it0(6) by simp
        moreover have "dictNext addrs it d = dictNext addrs ?it ?d"
          unfolding step if_not_P [OF go] using b(1) Nil by simp
        moreover have "iter_started ?it ?d = ?d" "fst (iter_start addrs ?it ?d) = ?it"
          using b(3) by (auto simp: iter_started_def iter_start_def)
        ultimately show ?thesis using less.hyps [of ?it ?d] ok b(2,6) Nil it0(5) keep it0_def by auto
      next
        case (Cons x c)
        let ?it = "it1\<lparr>iter_entry := Some (key x)\<rparr>"
        have "dictNext addrs it d = returned ?it (iter_started it d)"
          unfolding step if_not_P [OF go] using b(1) Cons by simp
        moreover have "returned ?it (iter_started it d) = Some ((?it\<lparr>iter_nextEntry := first_key c\<rparr>, iter_started it d), Some (key x))"
          "iter_ok (?it\<lparr>iter_nextEntry := first_key c\<rparr>) d"
          "iter_rest (?it\<lparr>iter_nextEntry := first_key c\<rparr>) d = c @ iter_rest (it1\<lparr>iter_entry := None\<rparr>) d"
          using returned_ok [of "iter_started it d" ?it "[]" x c] b(2-5) ok Cons by simp_all
        moreover have "iter_rest it d = x # c @ iter_rest (it1\<lparr>iter_entry := None\<rparr>) d"
          using b(6) it0(5) Cons by simp
        ultimately show ?thesis using b(3) keep
          by (intro exI [of _ "?it\<lparr>iter_nextEntry := first_key c\<rparr>"]) (simp add: it0_def)
      qed
    qed
  next
    case e: False
    then have i: "0 \<le> iter_index it" "nat (iter_index it) < length (table (ht_of d (iter_table it)))"
      using less.prems(2) by (auto simp: iter_ok_def)
    then have st: "iter_started (it\<lparr>iter_entry := x\<rparr>) d = d" "fst (iter_start addrs (it\<lparr>iter_entry := x\<rparr>) d) = it\<lparr>iter_entry := x\<rparr>"
      "iter_started it d = d" "fst (iter_start addrs it d) = it" for x
      by (auto simp: iter_started_def iter_start_def)
    show ?thesis
    proof (cases "iter_nextEntry it")
      case None
      let ?it = "it\<lparr>iter_entry := None\<rparr>"
      have "iter_left ?it d < iter_left it d" "iter_ok ?it d" "iter_rest ?it d = iter_rest it d"
        using e None less.prems(2) by (auto simp: iter_left_def iter_ok_def iter_rest_def)
      then show ?thesis using less.hyps [of ?it d] ok dictNext_chain [OF e, of addrs d] None st by auto
    next
      case (Some k)
      then have "k \<in> key ` set (table (ht_of d (iter_table it)) ! nat (iter_index it))"
        using e less.prems(2) by (auto simp: iter_ok_def)
      then obtain p x c where b: "table (ht_of d (iter_table it)) ! nat (iter_index it) = p @ x # c" "k = key x"
        by (auto dest: split_list)
      let ?it = "it\<lparr>iter_entry := Some k\<rparr>"
      have rest: "iter_rest it d = (x # c) @ iter_rest (it\<lparr>iter_entry := None\<rparr>) d"
        using iter_rest_suffix [OF ok e i(2) b(1)] Some b(2) by simp
      have "iter_ok (?it\<lparr>iter_entry := None\<rparr>) d" using less.prems(2) by (auto simp: iter_ok_def)
      then show ?thesis
        using returned_ok [OF ok, of ?it p x c] dictNext_chain [OF e, of addrs d] Some b i st rest
        by auto
    qed
  qed
qed

subsection \<open>What the operations do to the chains while a safe iterator is registered\<close>

abbreviation keys0 :: "('k, 'v) dict \<Rightarrow> 'k list list" where "keys0 d \<equiv> map (map key) (table (ht0 d))"
abbreviation keys1 :: "('k, 'v) dict \<Rightarrow> 'k list list" where "keys1 d \<equiv> map (map key) (table (ht1 d))"
abbreviation absent :: "('k, 'v) dict \<Rightarrow> 'k set" where "absent d \<equiv> {k. dict_map d k = None}"

definition chain_step :: "'k \<Rightarrow> 'k set \<Rightarrow> 'k list \<Rightarrow> 'k list \<Rightarrow> bool" where
  \<comment> \<open>a chain gets new keys at its head or loses the key \<open>c\<close>\<close>
  "chain_step c F b b' \<longleftrightarrow> (\<exists>ks. set ks \<subseteq> F \<and> b' = ks @ b) \<or> b' = filter (\<lambda>k. k \<noteq> c) b"

definition dict_step :: "'k \<Rightarrow> ('k, 'v) dict \<Rightarrow> ('k, 'v) dict \<Rightarrow> bool" where
  "dict_step c d d' \<longleftrightarrow> iterators d' = iterators d \<and> list_all2 (chain_step c (absent d)) (keys0 d) (keys0 d') \<and>
     (if dictIsRehashing d then dictIsRehashing d' \<and> list_all2 (chain_step c (absent d)) (keys1 d) (keys1 d')
      else set (concat (keys1 d')) \<subseteq> absent d)"

definition grown :: "('k, 'v) dict \<Rightarrow> ('k, 'v) dict \<Rightarrow> bool" where
  "grown d d' \<longleftrightarrow> d' = d \<or> (\<not> dictIsRehashing d \<and> concat (table (ht1 d')) = [] \<and> d' = d\<lparr>ht1 := ht1 d', rehashidx := 0\<rparr>)"

lemma grown_refl: "grown d d"
  by (simp add: grown_def)

lemma chain_step_refl [simp]: "chain_step c F b b"
  by (auto simp: chain_step_def intro!: exI [of _ "[]"])

lemma chain_steps_refl [simp]: "list_all2 (chain_step c F) bs bs"
  by (simp add: list_all2_conv_all_nth)

lemma chain_step_set: "chain_step c F b b' \<Longrightarrow> set b' \<subseteq> set b \<union> F" "chain_step c F b b' \<Longrightarrow> set b - {c} \<subseteq> set b'"
  by (auto simp: chain_step_def)

lemma chain_steps_set:
  assumes "list_all2 (chain_step c F) bs bs'"
  shows "set (concat bs') \<subseteq> set (concat bs) \<union> F" "set (concat bs) - {c} \<subseteq> set (concat bs')"
  using assms by (induction rule: list_all2_induct) (use chain_step_set in fastforce)+

lemma dict_step_refl:
  assumes "dict_ok d"
  shows "dict_step c d d"
  using assms by (auto simp: dict_step_def dict_ok_def dictReset_def)

lemma grown_map: "grown d d' \<Longrightarrow> dict_ok d \<Longrightarrow> dict_map d' = dict_map d \<and> iterators d' = iterators d \<and> keys0 d' = keys0 d"
proof -
  assume g: "grown d d'" and ok: "dict_ok d"
  show ?thesis
  proof (cases "d' = d")
    case False
    then have *: "\<not> dictIsRehashing d" "concat (table (ht1 d')) = []" "d' = d\<lparr>ht1 := ht1 d', rehashidx := 0\<rparr>"
      using g by (auto simp: grown_def)
    have "ht0 d' = ht0 d" "iterators d' = iterators d" by (subst *(3), simp)+
    then show ?thesis using *(1,2) ok
      by (simp add: dict_map_def entries_def dict_ok_def dictReset_def del: concat_eq_Nil_conv)
  qed simp
qed

lemma grown_step:
  assumes ok: "dict_ok d" and g: "grown d d1" and s: "dict_step c d1 d2"
  shows "dict_step c d d2"
proof (cases "d1 = d")
  case False
  then have t: "\<not> dictIsRehashing d" "concat (table (ht1 d1)) = []" "d1 = d\<lparr>ht1 := ht1 d1, rehashidx := 0\<rparr>"
    using g by (auto simp: grown_def)
  have "dictIsRehashing d1" by (subst t(3)) (simp add: dictIsRehashing_def)
  then have "list_all2 (chain_step c (absent d)) (keys1 d1) (keys1 d2)"
    using s grown_map [OF g ok] by (simp add: dict_step_def)
  from chain_steps_set(1) [OF this] have "set (concat (keys1 d2)) \<subseteq> absent d"
    using t(2) by (simp add: map_concat [symmetric] del: set_concat)
  then show ?thesis using s t(1) grown_map [OF g ok] by (simp add: dict_step_def)
qed (use s in simp)

lemma dict_step_keys:
  assumes "dict_step c d d1" and "keys0 d2 = keys0 d1" "keys1 d2 = keys1 d1"
    "dictIsRehashing d2 = dictIsRehashing d1" "iterators d2 = iterators d1"
  shows "dict_step c d d2"
  using assms(1) unfolding dict_step_def assms(2-5) .

lemma push_step:
  assumes "dict_ok d" and t: "push_entry (if dictIsRehashing d then ht1 d else ht0 d) i e = Some t"
    and "dict_map d (key e) = None"
  shows "dict_step c d (if dictIsRehashing d then d\<lparr>ht1 := t\<rparr> else d\<lparr>ht0 := t\<rparr>)"
proof -
  let ?T = "table (if dictIsRehashing d then ht1 d else ht0 d)"
  have t': "table t = ?T[unat i := e # ?T ! unat i]" "unat i < length ?T"
    using t by (auto simp: push_entry_def bucket_def Option.bind_eq_Some_conv split: if_splits)
  have "chain_step c (absent d) (map key b) (map key (e # b))" for b
    using assms(3) by (auto simp: chain_step_def intro!: exI [of _ "[key e]"])
  then have "list_all2 (chain_step c (absent d)) (map (map key) ?T) (map (map key) (table t))"
    using t' by (auto simp: list_all2_conv_all_nth nth_list_update)
  then show ?thesis
    using assms(1) by (auto simp: dict_step_def dictIsRehashing_def dict_ok_def dictReset_def)
qed

lemma no_rehash: "iterators d > 0 \<Longrightarrow> rehash_if_needed d = Some d"
  by (simp add: rehash_if_needed_def dictRehashStep_def)

lemma dictExpand_grown:
  "dictExpand d sz = Some (d', b) \<Longrightarrow> table (ht0 d) \<noteq> [] \<Longrightarrow> grown d d'"
  by (auto simp: dictExpand_def grown_def Let_def Option.bind_eq_Some_conv concat_replicate_trivial split: if_splits)

lemma dictExpandIfNeeded_grown:
  assumes "dictExpandIfNeeded cr d = Some (d', b)" and "usable d"
  shows "grown d d'"
proof -
  have "table (ht0 d) \<noteq> []" "htsize (ht0 d) > 0" using usableD [OF assms(2)] by (auto simp: ht_ok_def)
  then show ?thesis using assms(1) dictExpand_grown [of d _ d' b] grown_refl [of d]
    by (simp add: dictExpandIfNeeded_def split: if_splits)
qed

lemma dictAddRaw_step:
  assumes run: "dictAddRaw cr junk d k = Some (d', new, old)" and u: "usable d" and it: "iterators d > 0"
    and sz: "dictSize d < 2 ^ 62"
  shows "dict_step c d d'"
proof -
  have ok: "dict_ok d" "dictType_ok (dtype d)" using u by (auto simp: usable_def)
  obtain d1 index old0 where d1: "dictKeyIndex cr d k (dictHashKey d k) = Some (d1, index, old0)"
    and body: "(case index of None \<Rightarrow> Some (d1, None, old0)
      | Some idx \<Rightarrow>
          if dictIsRehashing d1 then do {
            t \<leftarrow> push_entry (ht1 d1) idx \<lparr>key = dupKey d1 k, val = junk\<rparr>;
            Some (d1\<lparr>ht1 := t\<rparr>, Some (1, unat idx, 0), old0) }
          else do {
            t \<leftarrow> push_entry (ht0 d1) idx \<lparr>key = dupKey d1 k, val = junk\<rparr>;
            Some (d1\<lparr>ht0 := t\<rparr>, Some (0, unat idx, 0), old0) }) = Some (d', new, old)"
    using run no_rehash [OF it] by (auto simp: dictAddRaw_def Option.bind_eq_Some_conv)
  obtain b where x: "dictExpandIfNeeded cr d = Some (d1, b)"
    using d1 by (auto simp: dictKeyIndex_def Option.bind_eq_Some_conv Let_def split: if_splits option.splits)
  note g = dictExpandIfNeeded_grown [OF x u]
  obtain d2 where d2: "dictExpandIfNeeded cr d = Some (d2, True)" "dict_ok d2" "same_shell d d2"
    using dictExpandIfNeeded_ok [OF ok(1) sz] by blast
  then have ok1: "dict_ok d1" "dictType_ok (dtype d1)" using x ok(2) by (auto simp: same_shell_def)
  show ?thesis
  proof (cases index)
    case None
    then show ?thesis using body dict_step_refl [OF ok1(1)] grown_step [OF ok(1) g] by simp
  next
    case (Some idx)
    then obtain t where t: "push_entry (if dictIsRehashing d1 then ht1 d1 else ht0 d1) idx
        \<lparr>key = dupKey d1 k, val = junk\<rparr> = Some t" "new \<noteq> None"
        "d' = (if dictIsRehashing d1 then d1\<lparr>ht1 := t\<rparr> else d1\<lparr>ht0 := t\<rparr>)"
      using body by (auto simp: Option.bind_eq_Some_conv split: if_splits)
    then have "dict_map d k = None"
      using dictAddRaw_ok [OF ok sz, of cr junk k] run by (auto split: option.splits)
    then have "dict_map d1 (dupKey d1 k) = None" using grown_map [OF g ok(1)] ok1 by simp
    then show ?thesis using t(3) push_step [OF ok1(1) t(1)] grown_step [OF ok(1) g] by simp
  qed
qed

lemma set_val_keys: "set_val_ht t i p v = Some t' \<Longrightarrow> map (map key) (table t') = map (map key) (table t)"
proof -
  assume "set_val_ht t i p v = Some t'"
  then have *: "p < length (table t ! i)" "i < length (table t)"
    "table t' = (table t)[i := (table t ! i)[p := (table t ! i ! p)\<lparr>val := v\<rparr>]]"
    by (auto simp: set_val_ht_def split: if_splits)
  have "map key ((table t ! i)[p := (table t ! i ! p)\<lparr>val := v\<rparr>]) = map key (table t ! i)"
    using *(1) by (simp add: map_update) (metis list_update_id nth_map)
  then show ?thesis using *(2,3) by (simp add: map_update) (metis list_update_id nth_map)
qed

lemma dictSetVal_keys:
  assumes "dictSetVal d r v = Some d'"
  shows "keys0 d' = keys0 d" "keys1 d' = keys1 d" "dictIsRehashing d' = dictIsRehashing d" "iterators d' = iterators d"
  using assms set_val_keys
  by (auto simp: dictSetVal_def dictIsRehashing_def split: prod.splits if_splits)

lemma filter_keep: "k \<notin> set xs \<Longrightarrow> filter (\<lambda>x. x \<noteq> k) xs = xs"
  by (induction xs) auto

lemma unlink_step:
  assumes u: "usable d" and l: "locate d k = Some r"
  shows "dict_step k d (unlink_at d k r)"
proof -
  obtain e where e: "entry_at d r = Some e" "key e = k" using locate_Some [OF u l] by blast
  obtain tb i p where r: "r = (tb, i, p)" by (cases r) auto
  define t where "t = (if tb = 0 then ht0 d else ht1 d)"
  define idx where "idx = dictHashKey d k AND sizemask t"
  have i: "i = unat idx" using l r by (auto simp: locate_def Let_def idx_def t_def split: option.splits if_splits)
  have ip: "i < length (table t)" "p < length (table t ! i)" "e = table t ! i ! p"
    using e r by (auto simp: entry_at_def t_def Let_def split: if_splits)
  define b where "b = table t ! i"
  define x y where "x = take p b" and "y = drop (Suc p) b"
  have b: "b = x @ e # y" using id_take_nth_drop [OF ip(2)] ip(3) unfolding x_def y_def b_def by metis
  have "distinct (map key (concat (table t)))" using usableD(6) [OF u] by (auto simp: entries_def t_def)
  then have "distinct (map key b)" using distinct_bucket [of "table t" b] ip(1) by (simp add: b_def)
  then have "k \<notin> set (map key x)" "k \<notin> set (map key y)" using e(2) unfolding b by auto
  then have "filter (\<lambda>z. z \<noteq> k) (map key b) = map key (x @ y)"
    using e(2) unfolding b by (simp add: filter_keep)
  then have "chain_step k (absent d) (map key (table t ! i)) (map key (take p (table t ! i) @ drop (Suc p) (table t ! i)))"
    unfolding b_def [symmetric] x_def [symmetric] y_def [symmetric] by (simp add: chain_step_def)
  then have steps: "list_all2 (chain_step k (absent d)) (map (map key) (table t)) (map (map key) (table (unlink_ht t idx p)))"
    using ip(1) i by (auto simp: unlink_ht_def list_all2_conv_all_nth nth_list_update)
  show ?thesis
  proof (cases "tb = 0")
    case True
    have "ht1 d = dictReset" if "\<not> dictIsRehashing d" using usableD(5) [OF u that] .
    then show ?thesis using steps True
      by (simp add: dict_step_def unlink_at_def r t_def idx_def dictIsRehashing_def dictReset_def)
  next
    case False
    then have "ht1 d \<noteq> dictReset" using ip(1) by (auto simp: t_def dictReset_def)
    then have "dictIsRehashing d" using usableD(5) [OF u] by blast
    then show ?thesis using steps False
      by (simp add: dict_step_def unlink_at_def r t_def idx_def dictIsRehashing_def)
  qed
qed

text \<open>Every operation a body may run succeeds and changes the chains only as \<open>dict_step\<close> says.\<close>

lemma dict_exec_step:
  assumes u: "usable d" and it: "iterators d > 0" and sz: "dictSize d < 2 ^ 62" and al: "iter_allowed c op"
    and run: "dict_exec junk (d, cr) op = Some ((d', cr'), r)"
  shows "dict_step c d d'"
proof -
  have ok: "dict_ok d" "dictType_ok (dtype d)" using u by (auto simp: usable_def)
  note refl = dict_step_refl [OF ok(1), of c]
  have add: "dict_step c d d'"
    if "\<exists>d1 new old. dictAddRaw cr junk d k = Some (d1, new, old) \<and> (d' = d1 \<or> (\<exists>q. dictSetVal d1 q v = Some d'))" for k v
  proof -
    from that obtain d1 new old where d1: "dictAddRaw cr junk d k = Some (d1, new, old)"
      "d' = d1 \<or> (\<exists>q. dictSetVal d1 q v = Some d')" by blast
    have "dict_step c d d1" using dictAddRaw_step [OF d1(1) u it sz] .
    moreover have "dict_step c d d2" if "dict_step c d d1" "dictSetVal d1 q v = Some d2" for d2 q
      using dict_step_keys [OF that(1) dictSetVal_keys [OF that(2)]] .
    ultimately show ?thesis using d1(2) by blast
  qed
  show ?thesis
  proof (cases op)
    case (Add k v)
    then show ?thesis using run
      by (intro add [of k v]) (auto simp: dictAdd_def Option.bind_eq_Some_conv split: option.splits)
  next
    case (Replace k v)
    then show ?thesis using run
      by (intro add [of k v]) (auto simp: dictReplace_def Option.bind_eq_Some_conv split: option.splits)
  next
    case (Delete k)
    then have "k = c" using al by simp
    show ?thesis
    proof (cases "dictSize d = 0")
      case True
      then show ?thesis using run Delete refl by (auto simp: dictDelete_def dictGenericDelete_def dictSize_def)
    next
      case False
      from dictGenericDelete_eq [OF no_rehash [OF it] u False, of k] show ?thesis
        using run Delete refl unlink_step [OF u, of k] \<open>k = c\<close>
        by (auto simp: dictDelete_def split: option.splits)
    qed
  next
    case (Fetch k)
    have "d' = d"
      using run Fetch no_rehash [OF it]
      by (auto simp: dictFetchValue_def dictFind_def Let_def Option.bind_eq_Some_conv split: option.splits if_splits)
    then show ?thesis using refl by simp
  next
    case (Task t)
    have ne: "table (ht0 d) \<noteq> []" using usableD(1,3) [OF u] by (auto simp: ht_ok_def)
    show ?thesis
    proof (cases t)
      case Resize
      then obtain b where "dictResize cr d = Some (d', b)" using run Task by (auto simp: Option.bind_eq_Some_conv)
      then have "grown d d'" using dictExpand_grown [OF _ ne, of _ d' b] grown_refl [of d]
        by (simp add: dictResize_def Let_def split: if_splits)
      moreover have "dict_ok d'" using dictResize_ok [OF ok(1), of cr] \<open>dictResize cr d = Some (d', b)\<close> by auto
      ultimately show ?thesis by (intro grown_step [OF ok(1) _ dict_step_refl])
    qed (use run Task al refl in auto)
  qed
qed

subsection \<open>The iterator across a step\<close>

definition iter_cur :: "'k dictIterator \<Rightarrow> ('k, 'v) dict \<Rightarrow> 'k list" where
  \<comment> \<open>the keys left in the chain the iterator is in\<close>
  "iter_cur it d = (if iter_entry it = None then []
     else case iter_nextEntry it of None \<Rightarrow> [] | Some k \<Rightarrow> map key (the (chain_from d k)))"

definition iter_tail :: "'k dictIterator \<Rightarrow> ('k, 'v) dict \<Rightarrow> 'k list" where
  \<comment> \<open>the keys of the buckets after it\<close>
  "iter_tail it d =
     concat (drop (nat (iter_index it + 1)) (if iter_table it = 0 then keys0 d else keys1 d)) @
     (if iter_table it = 0 then concat (keys1 d) else [])"

abbreviation rest_keys :: "'k dictIterator \<Rightarrow> ('k, 'v) dict \<Rightarrow> 'k list" where
  "rest_keys it d \<equiv> map key (iter_rest it d)"

lemma rest_keys_split: "rest_keys it d = iter_cur it d @ iter_tail it d"
  by (auto simp: iter_rest_def iter_cur_def iter_tail_def ht_of_def map_concat drop_map split: option.splits)

lemma keys_suffix:
  assumes ok: "dict_ok d" and i: "i < length (table (ht_of d tb))"
    and b: "map key (table (ht_of d tb) ! i) = p @ k # c"
  shows "map key (the (chain_from d k)) = k # c"
proof -
  obtain p' e c' where "table (ht_of d tb) ! i = p' @ e # c'" "map key p' = p" "key e = k" "map key c' = c"
    using b by (auto simp: map_eq_append_conv map_eq_Cons_conv)
  then show ?thesis using chain_suffix [OF ok i] by auto
qed

text \<open>A step keeps the chain after the entry returned last as it is.\<close>

lemma chain_step_suffix:
  assumes "chain_step c F (p @ k # s) b'" and "c \<notin> set (k # s)" and "k \<notin> F"
  shows "\<exists>p'. b' = p' @ k # s"
proof -
  from assms(1) consider ks where "b' = ks @ p @ k # s" | "b' = filter (\<lambda>x. x \<noteq> c) (p @ k # s)"
    by (auto simp: chain_step_def)
  then show ?thesis
  proof cases
    case 1
    then show ?thesis by (intro exI [of _ "ks @ p"]) simp
  next
    case 2
    then show ?thesis using assms(2) by (auto simp: filter_keep)
  qed
qed

lemma dict_step_table:
  assumes "dict_step c d d'" and "tb = 0 \<or> dictIsRehashing d"
  shows "list_all2 (chain_step c (absent d)) (map (map key) (table (ht_of d tb))) (map (map key) (table (ht_of d' tb)))"
  using assms by (auto simp: dict_step_def ht_of_def)

lemma iter_cur_step:
  assumes ok: "dict_ok d" "dict_ok d'" and it: "iter_ok it d" and st: "dict_step c d d'" and c: "c \<notin> set (iter_cur it d)"
  shows "iter_ok it d'" "iter_cur it d' = iter_cur it d"
proof -
  let ?i = "nat (iter_index it)" and ?T = "\<lambda>d. table (ht_of d (iter_table it))"
  have tb: "iter_table it = 0 \<or> dictIsRehashing d" using it by (auto simp: iter_ok_def)
  note steps = dict_step_table [OF st tb]
  then have len: "length (?T d') = length (?T d)" by (auto dest: list_all2_lengthD)
  have re: "iter_table it = 1 \<Longrightarrow> dictIsRehashing d'" using st it by (auto simp: dict_step_def iter_ok_def)
  have chain: "iter_cur it d' = iter_cur it d \<and> k \<in> key ` set (?T d' ! ?i)"
    if e: "iter_entry it \<noteq> None" and k: "iter_nextEntry it = Some k" for k
  proof -
    have i: "?i < length (?T d)" and "k \<in> key ` set (?T d ! ?i)" using it e k by (auto simp: iter_ok_def)
    then obtain p s where b: "map key (?T d ! ?i) = p @ k # s" by (metis image_set split_list)
    have cur: "iter_cur it d = k # s" using keys_suffix [OF ok(1) i b] e k by (simp add: iter_cur_def)
    have "k \<in> key ` set (entries d)"
      using i \<open>k \<in> key ` set (?T d ! ?i)\<close> by (force simp: entries_def ht_of_def split: if_splits)
    then have "k \<notin> absent d" using dom_dict_map [of d] by blast
    moreover have "chain_step c (absent d) (p @ k # s) (map key (?T d' ! ?i))"
      using list_all2_nthD [OF steps, of ?i] i len b by simp
    ultimately obtain p' where b': "map key (?T d' ! ?i) = p' @ k # s"
      using chain_step_suffix c cur by metis
    have "iter_cur it d' = k # s" using keys_suffix [OF ok(2) _ b'] i len e k by (simp add: iter_cur_def)
    moreover have "k \<in> set (map key (?T d' ! ?i))" using b' by simp
    ultimately show ?thesis using cur by simp
  qed
  show "iter_ok it d'" using it chain len re by (auto simp: iter_ok_def)
  show "iter_cur it d' = iter_cur it d"
    using chain by (cases "iter_nextEntry it") (auto simp: iter_cur_def)
qed

lemma iter_tail_step:
  assumes it: "iter_ok it d" and st: "dict_step c d d'" and ok: "dict_ok d"
  shows "set (iter_tail it d') \<subseteq> set (iter_tail it d) \<union> absent d" "set (iter_tail it d) - {c} \<subseteq> set (iter_tail it d')"
proof -
  let ?n = "nat (iter_index it + 1)"
  let ?K = "\<lambda>d. if iter_table it = 0 then keys0 d else keys1 d"
  have tb: "iter_table it = 0 \<or> dictIsRehashing d" using it by (auto simp: iter_ok_def)
  then have "list_all2 (chain_step c (absent d)) (drop ?n (?K d)) (drop ?n (?K d'))"
    using dict_step_table [OF st tb] by (intro list_all2_dropI) (simp add: ht_of_def split: if_splits)
  note d0 = chain_steps_set [OF this]
  have d1: "set (concat (keys1 d')) \<subseteq> set (concat (keys1 d)) \<union> absent d" "set (concat (keys1 d)) - {c} \<subseteq> set (concat (keys1 d'))"
    using st ok chain_steps_set [of c "absent d" "keys1 d" "keys1 d'"]
    by (auto simp: dict_step_def dict_ok_def dictReset_def split: if_splits)
  show "set (iter_tail it d') \<subseteq> set (iter_tail it d) \<union> absent d" "set (iter_tail it d) - {c} \<subseteq> set (iter_tail it d')"
    using d0 d1 unfolding iter_tail_def
    by (cases "iter_table it = 0"; simp only: if_True if_False set_append simp_thms append_Nil2; blast)+
qed

subsection \<open>A client's loop\<close>

text \<open>The state between two calls of \<open>dictNext\<close>, after the key \<open>c\<close> has been returned.\<close>

definition loop_inv :: "'k dictIterator \<Rightarrow> 'k \<Rightarrow> ('k, 'v) dict \<Rightarrow> bool" where
  "loop_inv it c d \<longleftrightarrow> usable d \<and> iterators d > 0 \<and> iter_ok it d \<and> c \<notin> set (iter_cur it d)"

lemma loop_inv_usable: "usable d \<Longrightarrow> dict_ok d' \<Longrightarrow> dict_step c d d' \<Longrightarrow> dtype d' = dtype d \<Longrightarrow> usable d'"
  by (auto simp: usable_def dict_step_def dict_ok_def ht_ok_def dest: list_all2_lengthD)

lemma spec_op_dom:
  "snd (spec_op op m) = r \<Longrightarrow> k \<in> dom m \<Longrightarrow> op \<noteq> Delete k \<Longrightarrow> k \<in> dom (fst (spec_op op m))"
  "\<not> may_insert op \<Longrightarrow> dom (fst (spec_op op m)) \<subseteq> dom m"
  by (cases op; auto)+

text \<open>The entries left are the last ones in the order of the tables.\<close>

lemma iter_rest_entries:
  assumes ok: "dict_ok d" and it: "iter_ok it d"
  shows "\<exists>p. entries d = p @ iter_rest it d"
proof -
  define it0 where "it0 = it\<lparr>iter_entry := None\<rparr>"
  let ?T = "table (ht_of d (iter_table it))" and ?n = "nat (iter_index it + 1)"
  define pre post where "pre = (if iter_table it = 0 then [] else concat (table (ht0 d)))"
    and "post = (if iter_table it = 0 then concat (table (ht1 d)) else [])"
  have all: "entries d = pre @ concat ?T @ post" by (simp add: entries_def pre_def post_def ht_of_def)
  have tail: "iter_rest it0 d = concat (drop ?n ?T) @ post"
    by (simp add: iter_rest_def it0_def post_def)
  have T: "concat ?T = concat (take ?n ?T) @ concat (drop ?n ?T)"
    by (metis append_take_drop_id concat_append)
  show ?thesis
  proof (cases "iter_entry it = None \<or> iter_nextEntry it = None")
    case True
    then have "iter_rest it d = iter_rest it0 d" by (auto simp: iter_rest_def it0_def)
    then show ?thesis using all T tail by (intro exI [of _ "pre @ concat (take ?n ?T)"]) simp
  next
    case False
    let ?i = "nat (iter_index it)"
    obtain k where k: "iter_nextEntry it = Some k" using False by auto
    then have i: "?n = Suc ?i" "?i < length ?T" and "k \<in> key ` set (?T ! ?i)"
      using False it by (auto simp: iter_ok_def)
    then obtain p e c where b: "?T ! ?i = p @ e # c" "key e = k" by (auto dest: split_list)
    have "iter_rest it d = (e # c) @ iter_rest it0 d"
      using iter_rest_suffix [OF ok _ i(2) b(1)] False k b(2) by (simp add: it0_def)
    moreover have "take ?n ?T = take ?i ?T @ [p @ e # c]" using i b(1) by (simp add: take_Suc_conv_app_nth)
    ultimately show ?thesis using all T tail by (intro exI [of _ "pre @ concat (take ?i ?T) @ p"]) simp
  qed
qed

lemma rest_keys_ok:
  assumes "dict_ok d" and "iter_ok it d"
  shows "set (rest_keys it d) \<subseteq> dom (dict_map d)" "distinct (rest_keys it d)"
proof -
  obtain p where p: "entries d = p @ iter_rest it d" using iter_rest_entries [OF assms] by blast
  show "set (rest_keys it d) \<subseteq> dom (dict_map d)" unfolding dom_dict_map p by auto
  show "distinct (rest_keys it d)" using assms(1) unfolding dict_ok_def p by simp
qed

lemma body_op:
  assumes inv: "loop_inv it c d" and sz: "dictSize d < 2 ^ 62" and al: "iter_allowed c op"
  shows "\<exists>d' cr' r. dict_exec junk (d, cr) op = Some ((d', cr'), r) \<and> loop_inv it c d' \<and> iterators d' = iterators d \<and>
    dict_map d' = fst (spec_op op (dict_map d)) \<and>
    set (rest_keys it d) - {c} \<subseteq> set (rest_keys it d') \<and> set (rest_keys it d') \<subseteq> set (rest_keys it d) \<union> absent d"
proof -
  have u: "usable d" "dict_ok d" "dictType_ok (dtype d)" "iterators d > 0" "iter_ok it d" "c \<notin> set (iter_cur it d)"
    using inv by (auto simp: loop_inv_def usable_def)
  obtain d' cr' where d': "dict_exec junk (d, cr) op = Some ((d', cr'), snd (spec_op op (dict_map d)))" "dict_ok d'"
    "dictType_ok (dtype d')" "dict_map d' = fst (spec_op op (dict_map d))"
    using dict_exec_law [of "(d, cr)" junk op] u sz by (auto simp: dict_inv_def dict_abs_def dictSize_card)
  have st: "dict_step c d d'" using dict_exec_step [OF u(1,4) sz al d'(1)] .
  note cur = iter_cur_step [OF u(2) d'(2) u(5) st u(6)] and tail = iter_tail_step [OF u(5) st u(2)]
  have "htsize (ht0 d') > 0"
    using u(1) st d'(2) by (auto simp: usable_def dict_step_def dict_ok_def ht_ok_def dest: list_all2_lengthD)
  then have "loop_inv it c d'" "iterators d' = iterators d"
    using cur u d' st by (auto simp: loop_inv_def usable_def dict_step_def)
  then show ?thesis using d' cur(2) tail unfolding rest_keys_split by (intro exI conjI) auto
qed

lemma size_after:
  "dict_ok d \<Longrightarrow> dict_ok d' \<Longrightarrow> dict_map d' = fst (spec_op op (dict_map d)) \<Longrightarrow> dictSize d' \<le> dictSize d + 1"
  using spec_op_card [of "dict_map d" op] by (simp add: dictSize_card dom_dict_map)

lemma body_ops:
  assumes "loop_inv it c d" and "dictSize d + length ops \<le> 2 ^ 62" and "\<forall>op\<in>set ops. iter_allowed c op"
  shows "\<exists>d' cr' r. run_ops (dict_exec junk) ops (d, cr) = Some ((d', cr'), r) \<and> loop_inv it c d' \<and>
    iterators d' = iterators d \<and> dictSize d' \<le> dictSize d + length ops \<and>
    set (rest_keys it d) - {c} \<subseteq> set (rest_keys it d') \<and>
    (\<forall>k. Delete k \<notin> set ops \<longrightarrow> k \<in> dom (dict_map d) \<longrightarrow>
       k \<in> dom (dict_map d') \<and> (k \<in> set (rest_keys it d') \<longrightarrow> k \<in> set (rest_keys it d))) \<and>
    ((\<forall>op\<in>set ops. \<not> may_insert op) \<longrightarrow>
       dom (dict_map d') \<subseteq> dom (dict_map d) \<and> set (rest_keys it d') \<subseteq> set (rest_keys it d))"
  using assms
proof (induction ops arbitrary: d cr)
  case Nil
  then show ?case by auto
next
  case (Cons op ops)
  obtain d1 cr1 r where d1: "dict_exec junk (d, cr) op = Some ((d1, cr1), r)" "loop_inv it c d1" "iterators d1 = iterators d"
    "dict_map d1 = fst (spec_op op (dict_map d))"
    "set (rest_keys it d) - {c} \<subseteq> set (rest_keys it d1)" "set (rest_keys it d1) \<subseteq> set (rest_keys it d) \<union> absent d"
    using body_op [OF Cons.prems(1), of op junk cr] Cons.prems(2,3) by auto
  have oks: "dict_ok d" "dict_ok d1" "iter_ok it d1"
    using Cons.prems(1) d1(2) by (auto simp: loop_inv_def usable_def)
  have sz: "dictSize d1 \<le> dictSize d + 1" using size_after [OF oks(1,2) d1(4)] .
  then have prems: "dictSize d1 + length ops \<le> 2 ^ 62" "\<forall>op\<in>set ops. iter_allowed c op"
    using Cons.prems(2,3) by auto
  obtain d' cr' rs where d': "run_ops (dict_exec junk) ops (d1, cr1) = Some ((d', cr'), rs)" "loop_inv it c d'"
    "iterators d' = iterators d1" "dictSize d' \<le> dictSize d1 + length ops"
    "set (rest_keys it d1) - {c} \<subseteq> set (rest_keys it d')"
    "\<forall>k. Delete k \<notin> set ops \<longrightarrow> k \<in> dom (dict_map d1) \<longrightarrow>
       k \<in> dom (dict_map d') \<and> (k \<in> set (rest_keys it d') \<longrightarrow> k \<in> set (rest_keys it d1))"
    "(\<forall>op\<in>set ops. \<not> may_insert op) \<longrightarrow>
       dom (dict_map d') \<subseteq> dom (dict_map d1) \<and> set (rest_keys it d') \<subseteq> set (rest_keys it d1)"
    using Cons.IH [OF d1(2) prems, of cr1] by blast
  have keep: "k \<in> dom (dict_map d') \<and> (k \<in> set (rest_keys it d') \<longrightarrow> k \<in> set (rest_keys it d))"
    if "Delete k \<notin> set (op # ops)" "k \<in> dom (dict_map d)" for k
  proof -
    have "k \<in> dom (dict_map d1)" using that spec_op_dom(1) [of op "dict_map d" _ k] d1(4) by auto
    then have "k \<in> dom (dict_map d')" "k \<in> set (rest_keys it d') \<longrightarrow> k \<in> set (rest_keys it d1)"
      using that(1) d'(6) by auto
    moreover have "k \<notin> absent d" using that(2) by auto
    ultimately show ?thesis using d1(6) by blast
  qed
  have same: "dom (dict_map d') \<subseteq> dom (dict_map d) \<and> set (rest_keys it d') \<subseteq> set (rest_keys it d)"
    if "\<forall>op\<in>set (op # ops). \<not> may_insert op"
  proof -
    have "dom (dict_map d1) \<subseteq> dom (dict_map d)" using that spec_op_dom(2) [of op "dict_map d"] d1(4) by simp
    moreover then have "set (rest_keys it d1) \<subseteq> set (rest_keys it d)" using d1(6) rest_keys_ok(1) [OF oks(2,3)] by blast
    ultimately show ?thesis using d'(7) that by (meson list.set_intros(2) order_trans)
  qed
  have "set (rest_keys it d) - {c} \<subseteq> set (rest_keys it d')" using d1(5) d'(5) by blast
  moreover have "run_ops (dict_exec junk) (op # ops) (d, cr) = Some ((d', cr'), r # rs)" using d1(1) d'(1) by simp
  moreover have "dictSize d' \<le> dictSize d + length (op # ops)" "iterators d' = iterators d"
    using d'(3,4) d1(3) sz by simp_all
  ultimately show ?case using d'(2) keep same
    by (intro exI [of _ d'] exI [of _ cr'] exI [of _ "r # rs"] conjI) blast+
qed

text \<open>The whole loop: from an iterator that has \<open>iter_rest\<close> to visit.\<close>

lemma iterate_ok:
  assumes "usable d" and "iter_ok it d" and "iter_safe it"
    and "iterators (iter_started it d) > 0"
    and "dictSize d + n * length bodies \<le> 2 ^ 62"
    and "\<forall>body\<in>set bodies. \<forall>k. length (body k) \<le> n \<and> (\<forall>op\<in>set (body k). iter_allowed k op)"
  shows "\<exists>ks fin it' d' cr'. iterate addrs junk bodies it (d, cr) = Some (ks, fin, it', d', cr') \<and>
    usable d' \<and> iter_safe it' \<and>
    iterators d' = (if bodies = [] then iterators d else iterators (iter_started it d)) \<and>
    (bodies \<noteq> [] \<longrightarrow> \<not> (iter_index it' = -1 \<and> iter_table it' = 0)) \<and> (bodies = [] \<longrightarrow> it' = it) \<and>
    (fin \<longrightarrow> set (rest_keys it d) \<subseteq> set ks) \<and> (\<not> fin \<longrightarrow> length ks = length bodies) \<and>
    (\<forall>k. (\<forall>body\<in>set bodies. \<forall>j. Delete k \<notin> set (body j)) \<longrightarrow>
       count_list ks k \<le> 1 \<and> (k \<in> dom (dict_map d) \<longrightarrow> k \<in> set ks \<longrightarrow> k \<in> set (rest_keys it d))) \<and>
    ((\<forall>body\<in>set bodies. \<forall>j. \<forall>op\<in>set (body j). \<not> may_insert op) \<longrightarrow> set ks \<subseteq> set (rest_keys it d) \<and> distinct ks)"
  using assms
proof (induction bodies arbitrary: d it cr)
  case Nil
  then show ?case by auto
next
  case (Cons body bodies)
  let ?d = "iter_started it d"
  have ok: "dict_ok d" using Cons.prems(1) by (simp add: usable_def)
  obtain it1 where it1: "dictNext addrs it d = Some ((it1, ?d), first_key (iter_rest it d))" "iter_ok it1 d"
    "iter_rest it1 d = tl (iter_rest it d)" "iter_safe it1 = iter_safe it" "iter_entry it1 = first_key (iter_rest it d)"
    "\<not> (iter_index it1 = -1 \<and> iter_table it1 = 0)"
    using dictNext_ok [OF ok Cons.prems(2), of addrs] by blast
  have d1: "usable ?d" "dict_map ?d = dict_map d" "dictSize ?d = dictSize d"
    using Cons.prems(1) by (auto simp: iter_started_def usable_def dictSize_def)
  show ?case
  proof (cases "iter_rest it d")
    case Nil
    then have "iterate addrs junk (body # bodies) it (d, cr) = Some ([], True, it1, ?d, cr)"
      using it1(1) by simp
    then show ?thesis using Cons.prems(3) d1 it1 Nil by auto
  next
    case rest: (Cons e es)
    let ?c = "key e"
    have keys: "rest_keys it d = ?c # rest_keys it1 d" using it1(3) rest by simp
    then have new: "?c \<notin> set (rest_keys it1 d)" "?c \<in> dom (dict_map d)" "set (rest_keys it1 d) \<subseteq> dom (dict_map d)"
      using rest_keys_ok [OF ok Cons.prems(2)] by auto
    then have "?c \<notin> set (iter_cur it1 d)" unfolding rest_keys_split by simp
    then have inv: "loop_inv it1 ?c ?d"
      using d1(1) Cons.prems(4) it1(2) by (simp add: loop_inv_def iter_cur_def iter_started_def cong: if_cong option.case_cong)
    have len: "length (body ?c) \<le> n" and al: "\<forall>op\<in>set (body ?c). iter_allowed ?c op" using Cons.prems(6) by auto
    have room: "dictSize ?d + length (body ?c) \<le> 2 ^ 62" using Cons.prems(5) len d1(3) by simp
    obtain d2 cr2 r where d2: "run_ops (dict_exec junk) (body ?c) (?d, cr) = Some ((d2, cr2), r)" "loop_inv it1 ?c d2"
      "iterators d2 = iterators ?d" "dictSize d2 \<le> dictSize d + length (body ?c)"
      "set (rest_keys it1 d) - {?c} \<subseteq> set (rest_keys it1 d2)"
      "\<forall>k. Delete k \<notin> set (body ?c) \<longrightarrow> k \<in> dom (dict_map d) \<longrightarrow>
         k \<in> dom (dict_map d2) \<and> (k \<in> set (rest_keys it1 d2) \<longrightarrow> k \<in> set (rest_keys it1 d))"
      "(\<forall>op\<in>set (body ?c). \<not> may_insert op) \<longrightarrow>
         dom (dict_map d2) \<subseteq> dom (dict_map d) \<and> set (rest_keys it1 d2) \<subseteq> set (rest_keys it1 d)"
      using body_ops [OF inv room al, of junk cr] unfolding d1 iter_started_ok by blast
    have st: "iter_started it1 d2 = d2" using it1(6) by (auto simp: iter_started_def)
    have sz: "dictSize d2 + n * length bodies \<le> 2 ^ 62" using d2(4) Cons.prems(5) len by simp
    have prems: "usable d2" "iter_ok it1 d2" "iter_safe it1" "iterators (iter_started it1 d2) > 0"
      "dictSize d2 + n * length bodies \<le> 2 ^ 62"
      "\<forall>body\<in>set bodies. \<forall>k. length (body k) \<le> n \<and> (\<forall>op\<in>set (body k). iter_allowed k op)"
      using d2(2) Cons.prems(3,6) it1(4) st sz by (auto simp: loop_inv_def)
    obtain ks fin it' d' cr' where IH: "iterate addrs junk bodies it1 (d2, cr2) = Some (ks, fin, it', d', cr')"
      "usable d'" "iter_safe it'" "iterators d' = iterators d2"
      "bodies \<noteq> [] \<longrightarrow> \<not> (iter_index it' = -1 \<and> iter_table it' = 0)" "bodies = [] \<longrightarrow> it' = it1"
      "fin \<longrightarrow> set (rest_keys it1 d2) \<subseteq> set ks" "\<not> fin \<longrightarrow> length ks = length bodies"
      "\<forall>k. (\<forall>body\<in>set bodies. \<forall>j. Delete k \<notin> set (body j)) \<longrightarrow>
         count_list ks k \<le> 1 \<and> (k \<in> dom (dict_map d2) \<longrightarrow> k \<in> set ks \<longrightarrow> k \<in> set (rest_keys it1 d2))"
      "(\<forall>body\<in>set bodies. \<forall>j. \<forall>op\<in>set (body j). \<not> may_insert op) \<longrightarrow> set ks \<subseteq> set (rest_keys it1 d2) \<and> distinct ks"
      using Cons.IH [OF prems, of cr2] st by (metis (no_types, lifting))
    have run: "iterate addrs junk (body # bodies) it (d, cr) = Some (?c # ks, fin, it', d', cr')"
      using it1(1) rest d2(1) IH(1) by simp
    have once: "count_list (?c # ks) k \<le> 1 \<and> (k \<in> dom (dict_map d) \<longrightarrow> k \<in> set (?c # ks) \<longrightarrow> k \<in> set (rest_keys it d))"
      if undel: "\<forall>b\<in>set (body # bodies). \<forall>j. Delete k \<notin> set (b j)" for k
    proof -
      have IHk: "count_list ks k \<le> 1" "k \<in> dom (dict_map d2) \<longrightarrow> k \<in> set ks \<longrightarrow> k \<in> set (rest_keys it1 d2)"
        using IH(9) undel by auto
      moreover have "k \<in> dom (dict_map d) \<longrightarrow>
          k \<in> dom (dict_map d2) \<and> (k \<in> set (rest_keys it1 d2) \<longrightarrow> k \<in> set (rest_keys it1 d))"
        using d2(6) undel by auto
      moreover have "count_list ks k = 0" if "k \<notin> set ks" using that by (simp add: count_list_0_iff)
      ultimately show ?thesis using keys new by (cases "k = ?c") auto
    qed
    have ro: "set (?c # ks) \<subseteq> set (rest_keys it d) \<and> distinct (?c # ks)"
      if "\<forall>b\<in>set (body # bodies). \<forall>j. \<forall>op\<in>set (b j). \<not> may_insert op"
    proof -
      have "set ks \<subseteq> set (rest_keys it1 d2)" "distinct ks" "set (rest_keys it1 d2) \<subseteq> set (rest_keys it1 d)"
        using that d2(7) IH(10) by auto
      then have "set ks \<subseteq> set (rest_keys it1 d)" "distinct ks" by blast+
      then show ?thesis unfolding keys using new(1) by (simp del: set_map) blast
    qed
    have all: "fin \<longrightarrow> set (rest_keys it d) \<subseteq> set (?c # ks)"
      using IH(7) d2(5) new(1) unfolding keys list.simps by blast
    have n: "\<not> fin \<longrightarrow> length (?c # ks) = length (body # bodies)" using IH(8) by simp
    have it': "\<not> (iter_index it' = -1 \<and> iter_table it' = 0)" using IH(5,6) it1(6) by blast
    show ?thesis
      using run IH(2-4) once ro all n it' d2(3)
      by (intro exI [of _ "?c # ks"] exI [of _ fin] exI [of _ it'] exI [of _ d'] exI [of _ cr'] conjI) (simp | blast)+
  qed
qed

text \<open>Without modifications any iterator returns the entries in the order of the tables.\<close>

lemma iterate_readonly:
  assumes "dict_ok d" and "iter_ok it d"
  shows "\<exists>it'. iterate addrs junk (replicate n (\<lambda>_. [])) it (d, cr) =
      Some (take n (rest_keys it d), n > length (iter_rest it d), it', if n = 0 then d else iter_started it d, cr) \<and>
    iter_safe it' = iter_safe it \<and> (n > 0 \<longrightarrow> \<not> (iter_index it' = -1 \<and> iter_table it' = 0) \<and>
    iter_fingerprint it' = iter_fingerprint (fst (iter_start addrs it d))) \<and> (n = 0 \<longrightarrow> it' = it)"
  using assms
proof (induction n arbitrary: it d)
  case 0
  then show ?case by simp
next
  case (Suc n)
  obtain it1 where it1: "dictNext addrs it d = Some ((it1, iter_started it d), first_key (iter_rest it d))" "iter_ok it1 d"
    "iter_rest it1 d = tl (iter_rest it d)" "iter_safe it1 = iter_safe it"
    "\<not> (iter_index it1 = -1 \<and> iter_table it1 = 0)" "iter_fingerprint it1 = iter_fingerprint (fst (iter_start addrs it d))"
    using dictNext_ok [OF Suc.prems, of addrs] by blast
  let ?d = "iter_started it d"
  have st: "iter_started it1 ?d = ?d" "fst (iter_start addrs it1 ?d) = it1"
    using it1(5) by (auto simp: iter_started_def iter_start_def)
  show ?case
  proof (cases "iter_rest it d")
    case Nil
    then show ?thesis using it1 by simp
  next
    case (Cons e es)
    then have es: "iter_rest it1 d = es" using it1(3) by simp
    obtain it' where "iterate addrs junk (replicate n (\<lambda>_. [])) it1 (?d, cr) =
        Some (take n (map key es), n > length es, it', ?d, cr)" "iter_safe it' = iter_safe it"
        "\<not> (iter_index it' = -1 \<and> iter_table it' = 0)" "iter_fingerprint it' = iter_fingerprint it1"
      using Suc.IH [of ?d it1] Suc.prems(1) it1(2,4,5) st es by (cases "n = 0") auto
    then show ?thesis using Cons it1 by simp
  qed
qed

lemma fresh_iterator:
  assumes "dict_ok d"
  shows "iter_ok dictGetIterator d" "iter_rest dictGetIterator d = entries d"
    "iter_ok dictGetSafeIterator d" "iter_rest dictGetSafeIterator d = entries d" "iter_safe dictGetSafeIterator"
    "iter_started dictGetSafeIterator d = d\<lparr>iterators := iterators d + 1\<rparr>" "\<not> iter_safe dictGetIterator"
  by (simp_all add: dictGetIterator_def dictGetSafeIterator_def iter_ok_def iter_rest_def entries_def ht_of_def iter_started_def)

lemma iterate_unused:
  assumes "dict_ok d" and "entries d = []"
  shows "\<exists>it'. iterate addrs junk (body # bodies) dictGetSafeIterator (d, cr) =
    Some ([], True, it', d\<lparr>iterators := iterators d + 1\<rparr>, cr) \<and> iter_safe it' \<and> \<not> (iter_index it' = -1 \<and> iter_table it' = 0)"
  using dictNext_ok [OF assms(1) fresh_iterator(3) [OF assms(1)], of addrs] fresh_iterator [OF assms(1)] assms(2) by auto

text \<open>Property C8. A loop with a safe iterator over a well-formed dictionary, whose body may look up,
  add, replace, resize and delete the entry it was given, never follows a dangling pointer. When
  \<open>dictNext\<close> has returned NULL the loop has seen every key the dictionary had at the start. A key
  that is never deleted is returned at most once. Without insertions every key returned was there at
  the start, none is returned twice, and NULL comes after at most as many rounds as there are
  entries. Releasing the iterator restores the number of registered iterators.\<close>

theorem dict_iter_safe:
  assumes "dict_ok d" and "dictType_ok (dtype d)" and "dictSize d + n * length bodies \<le> 2 ^ 62"
    and "\<forall>body\<in>set bodies. \<forall>k. length (body k) \<le> n \<and> (\<forall>op\<in>set (body k). iter_allowed k op)"
  shows "\<exists>ks fin it d' cr' d''. iterate addrs junk bodies dictGetSafeIterator (d, cr) = Some (ks, fin, it, d', cr') \<and>
    (fin \<longrightarrow> dom (dict_map d) \<subseteq> set ks) \<and>
    (\<forall>k. (\<forall>body\<in>set bodies. \<forall>j. Delete k \<notin> set (body j)) \<longrightarrow> count_list ks k \<le> 1) \<and>
    ((\<forall>body\<in>set bodies. \<forall>j. \<forall>op\<in>set (body j). \<not> may_insert op) \<longrightarrow>
       set ks \<subseteq> dom (dict_map d) \<and> distinct ks \<and> (dictSize d < length bodies \<longrightarrow> fin)) \<and>
    dictReleaseIterator addrs it d' = Some d'' \<and> dict_ok d'' \<and> iterators d'' = iterators d"
proof -
  consider (none) "bodies = []" | (empty) body rest where "bodies = body # rest" "entries d = []"
    | (run) "bodies \<noteq> []" "entries d \<noteq> []"
    by (cases bodies) auto
  then show ?thesis
  proof cases
    case none
    then show ?thesis using assms(1)
      by (intro exI [of _ "[]"] exI [of _ False]) (simp add: dictReleaseIterator_def dictGetSafeIterator_def dictGetIterator_def)
  next
    case empty
    obtain it' where "iterate addrs junk bodies dictGetSafeIterator (d, cr) =
        Some ([], True, it', d\<lparr>iterators := iterators d + 1\<rparr>, cr)" "iter_safe it'"
        "\<not> (iter_index it' = -1 \<and> iter_table it' = 0)"
      using iterate_unused [OF assms(1) empty(2)] empty(1) by blast
    then show ?thesis using assms(1) empty(2) by (auto simp: dictReleaseIterator_def dom_dict_map)
  next
    case run
    have u: "usable d" using nonempty_usable [OF assms(1,2)] run(2) by blast
    note fr = fresh_iterator [OF assms(1)]
    have pos: "iterators (iter_started dictGetSafeIterator d) > 0" using fr(6) by simp
    obtain ks fin it' d' cr' where it': "iterate addrs junk bodies dictGetSafeIterator (d, cr) = Some (ks, fin, it', d', cr')"
      "usable d'" "iter_safe it'"
      "iterators d' = (if bodies = [] then iterators d else iterators (iter_started dictGetSafeIterator d))"
      "bodies \<noteq> [] \<longrightarrow> \<not> (iter_index it' = -1 \<and> iter_table it' = 0)"
      "fin \<longrightarrow> set (rest_keys dictGetSafeIterator d) \<subseteq> set ks" "\<not> fin \<longrightarrow> length ks = length bodies"
      "\<forall>k. (\<forall>body\<in>set bodies. \<forall>j. Delete k \<notin> set (body j)) \<longrightarrow> count_list ks k \<le> 1 \<and>
         (k \<in> dom (dict_map d) \<longrightarrow> k \<in> set ks \<longrightarrow> k \<in> set (rest_keys dictGetSafeIterator d))"
      "(\<forall>body\<in>set bodies. \<forall>j. \<forall>op\<in>set (body j). \<not> may_insert op) \<longrightarrow>
         set ks \<subseteq> set (rest_keys dictGetSafeIterator d) \<and> distinct ks"
      using iterate_ok [OF u fr(3,5) pos assms(3,4), of addrs junk cr] by (elim exE conjE) (rule that)
    have keys: "set (rest_keys dictGetSafeIterator d) = dom (dict_map d)" using fr(4) by (simp add: dom_dict_map)
    have len: "length ks \<le> dictSize d" if "set ks \<subseteq> dom (dict_map d)" "distinct ks"
      using that card_mono [of "dom (dict_map d)" "set ks"] distinct_card [of ks] dictSize_card [OF assms(1)]
      by (simp add: dom_dict_map)
    have ro: "set ks \<subseteq> dom (dict_map d) \<and> distinct ks \<and> (dictSize d < length bodies \<longrightarrow> fin)"
      if "\<forall>body\<in>set bodies. \<forall>j. \<forall>op\<in>set (body j). \<not> may_insert op"
      using it'(7,9) that len unfolding keys by (metis not_le)
    let ?d = "d'\<lparr>iterators := iterators d\<rparr>"
    have "dictReleaseIterator addrs it' d' = Some ?d"
      using it'(3,4,5) run(1) fr(6) by (auto simp: dictReleaseIterator_def)
    moreover have "dict_ok ?d" "iterators ?d = iterators d" using it'(2) by (simp_all add: usable_def)
    ultimately show ?thesis using it'(1,6,8) ro unfolding keys by blast
  qed
qed

text \<open>A dictionary in the middle of a rehashing, for the witness.\<close>

definition iter_dict :: "(nat, nat) dict" where
  "iter_dict = \<lparr>dtype = nat_type,
     ht0 = \<lparr>table = [[], [\<lparr>key = 1, val = 10\<rparr>, \<lparr>key = 5, val = 50\<rparr>]], htsize = 2, sizemask = 1, used = 2\<rparr>,
     ht1 = \<lparr>table = [[\<lparr>key = 4, val = 40\<rparr>], [], [\<lparr>key = 2, val = 20\<rparr>], []], htsize = 4, sizemask = 3, used = 2\<rparr>,
     rehashidx = 1, iterators = 0\<rparr>"

lemma iter_dict_ok: "dict_ok iter_dict" "dictType_ok (dtype iter_dict)" "dictSize iter_dict = 4"
proof -
  show "dict_ok iter_dict" by code_simp
  show "dictType_ok (dtype iter_dict)" "dictSize iter_dict = 4"
    using nat_type_ok by (simp_all add: iter_dict_def dictSize_def)
qed

theorem dict_iter_safe_witness:
  "\<exists>ks fin it d' cr' d''. iterate (0, 0) 7 (replicate 6 (\<lambda>k. [Fetch 5, Delete k, Task Resize])) dictGetSafeIterator
      (iter_dict, True) = Some (ks, fin, it, d', cr') \<and>
    (fin \<longrightarrow> dom (dict_map iter_dict) \<subseteq> set ks) \<and>
    (\<forall>k. (\<forall>body\<in>set (replicate 6 (\<lambda>k. [Fetch 5, Delete k, Task Resize])).
        \<forall>j. Delete k \<notin> set (body j :: (nat, nat, dict_task) map_op list)) \<longrightarrow> count_list ks k \<le> 1) \<and>
    (set ks \<subseteq> dom (dict_map iter_dict) \<and> distinct ks \<and> fin) \<and>
    dictReleaseIterator (0, 0) it d' = Some d'' \<and> dict_ok d'' \<and> iterators d'' = 0"
  using dict_iter_safe [OF iter_dict_ok(1,2), of 3 "replicate 6 (\<lambda>k. [Fetch 5, Delete k, Task Resize])" "(0, 0)" 7 True]
  by (simp add: iter_dict_ok(3)) (simp add: iter_dict_def)

text \<open>An iterator that is not safe returns the entries in the order of the tables, and its
  release passes the check of the fingerprint, when nothing has changed in between.\<close>

lemma dict_iter_unsafe:
  assumes "dict_ok d"
  shows "\<exists>it. iterate addrs junk (replicate n (\<lambda>_. [])) dictGetIterator (d, cr) =
      Some (take n (map key (entries d)), n > dictSize d, it, d, cr) \<and> dictReleaseIterator addrs it d = Some d"
proof -
  note fr = fresh_iterator [OF assms]
  have st: "iter_started dictGetIterator d = d"
    "iter_fingerprint (fst (iter_start addrs dictGetIterator d)) = dictFingerprint addrs d"
    by (simp_all add: iter_started_def iter_start_def dictGetIterator_def)
  show ?thesis
    using iterate_readonly [OF assms fr(1), of addrs junk n cr] fr(2,7) st dictSize_entries [OF assms]
    by (cases "n = 0") (auto simp: dictReleaseIterator_def dictGetIterator_def)
qed

subsection \<open>Random entries\<close>

lemma nth_bucket_ok: "i < length (table t) \<Longrightarrow> nth_bucket t i = Some (table t ! i)"
  by (simp add: nth_bucket_def)

lemma ht_of_ok: "dict_ok d \<Longrightarrow> htsize (ht_of d j) = length (table (ht_of d j))"
  by (auto simp: dict_ok_def ht_ok_def ht_of_def)

lemma random_slot_ok:
  assumes u: "usable d"
  shows "\<exists>b. random_slot r d = Some b \<and> set b \<subseteq> set (entries d)"
proof (cases "dictIsRehashing d")
  case False
  have "unat (of_nat r AND sizemask (ht0 d)) < length (table (ht0 d))" using ht_index_less usableD(1,3) [OF u] by blast
  then show ?thesis using False in_bucket_concat
    by (fastforce simp: random_slot_def nth_bucket_def entries_def)
next
  case True
  define h where "h = nat (rehashidx d) + r mod (htsize (ht0 d) + htsize (ht1 d) - nat (rehashidx d))"
  have b: "nat (rehashidx d) \<le> htsize (ht0 d)" "htsize (ht1 d) > 0"
    using u True by (auto simp: usable_def dict_ok_def)
  have "r mod (htsize (ht0 d) + htsize (ht1 d) - nat (rehashidx d)) < htsize (ht0 d) + htsize (ht1 d) - nat (rehashidx d)"
    using b by (intro mod_less_divisor) simp
  then have "h < htsize (ht0 d) + htsize (ht1 d)" using b unfolding h_def by linarith
  then have "h \<ge> htsize (ht0 d) \<longrightarrow> h - htsize (ht0 d) < length (table (ht1 d))" "h < htsize (ht0 d) \<longrightarrow> h < length (table (ht0 d))"
    using usableD(1,2) [OF u] by (auto simp: ht_ok_def)
  then show ?thesis using True in_bucket_concat
    by (fastforce simp: random_slot_def nth_bucket_def entries_def h_def [symmetric] Let_def)
qed

text \<open>Every bucket that can hold an entry is selected by some number below the number of slots.\<close>

lemma random_slot_hits:
  assumes u: "usable d" and ne: "entries d \<noteq> []"
  shows "\<exists>r < dictSlots d. \<exists>b. random_slot r d = Some b \<and> b \<noteq> []"
proof -
  have sizes: "htsize (ht0 d) = length (table (ht0 d))" "htsize (ht1 d) = length (table (ht1 d))"
    using usableD(1,2) [OF u] by (auto simp: ht_ok_def)
  from ne have "concat (table (ht_of d 0)) \<noteq> [] \<or> concat (table (ht_of d 1)) \<noteq> []"
    by (auto simp: entries_def ht_of_def)
  then obtain j where j: "j \<le> (1 :: nat)" "concat (table (ht_of d j)) \<noteq> []"
    using that [of 0] that [of 1] by auto
  then obtain i where ji: "j \<le> 1" "i < length (table (ht_of d j))" "table (ht_of d j) ! i \<noteq> []"
    by (auto simp: in_set_conv_nth)
  show ?thesis
  proof (cases "dictIsRehashing d")
    case True
    then have re: "nat (rehashidx d) \<le> htsize (ht0 d)" "\<forall>i<nat (rehashidx d). table (ht0 d) ! i = []"
      using u by (auto simp: usable_def dict_ok_def)
    define h where "h = (if j = 0 then i else htsize (ht0 d) + i)"
    have "nat (rehashidx d) \<le> i" if "j = 0" using re(2) ji(3) that by (metis ht_of_def not_le)
    then have h: "nat (rehashidx d) \<le> h" "h < dictSlots d"
      using ji(2) re(1) sizes by (simp_all add: h_def ht_of_def dictSlots_def split: if_splits)
    have "random_slot (h - nat (rehashidx d)) d = Some (table (ht_of d j) ! i)"
      using True h ji sizes
      by (auto simp: random_slot_def nth_bucket_def dictSlots_def h_def ht_of_def Let_def split: if_splits)
    then show ?thesis using h ji(3) by (intro exI [of _ "h - nat (rehashidx d)"]) auto
  next
    case False
    then have j: "j = 0" using usableD(5) [OF u] ji by (auto simp: ht_of_def dictReset_def split: if_splits)
    obtain n where n: "n < 64" "htsize (ht0 d) = 2 ^ n" "sizemask (ht0 d) = of_nat (2 ^ n) - 1"
      using usableD(1,3) [OF u] by (auto simp: ht_ok_def)
    have i: "i < 2 ^ n" using ji j n sizes by (simp add: ht_of_def)
    have "sizemask (ht0 d) = mask n" using n(3) by (simp add: mask_eq_exp_minus_1)
    then have "unat (of_nat i AND sizemask (ht0 d)) = take_bit n (take_bit 64 i)"
      by (simp add: take_bit_eq_mask [symmetric] unsigned_take_bit_eq unsigned_of_nat)
    also have "\<dots> = i"
    proof -
      have "i < 2 ^ 64" using i n(1) by (meson less_le_trans nat_less_le one_le_numeral power_increasing)
      then show ?thesis using i by (simp add: take_bit_nat_eq_self)
    qed
    finally have "random_slot i d = Some (table (ht_of d j) ! i)"
      using False ji j by (simp add: random_slot_def nth_bucket_def ht_of_def)
    then show ?thesis using ji j sizes by (intro exI [of _ i]) (auto simp: dictSlots_def ht_of_def)
  qed
qed

lemma random_bucket_ok:
  assumes u: "usable d" and hit: "random_slot (rnd j) d = Some b" "b \<noteq> []" and "i \<le> j"
  shows "\<exists>b i'. random_bucket rnd i d = Some (b, i') \<and> b \<noteq> [] \<and> set b \<subseteq> set (entries d)"
  using assms(4)
proof (induction "j - i" arbitrary: i)
  case 0
  then have "i = j" by simp
  then show ?case using hit random_slot_ok [OF u, of "rnd j"] by (subst random_bucket.simps) auto
next
  case (Suc m)
  obtain c where c: "random_slot (rnd i) d = Some c" "set c \<subseteq> set (entries d)" using random_slot_ok [OF u] by blast
  then show ?case using Suc.hyps(1) [of "i + 1"] Suc.hyps(2) Suc.prems
    by (subst random_bucket.simps) (cases "c = []"; simp)
qed

text \<open>A random entry is found as soon as \<open>random\<close> goes on giving every number below the number
  of slots; it is an entry of the dictionary.\<close>

lemma dictGetRandomKey_ok:
  assumes ok: "dict_ok d" and ty: "dictType_ok (dtype d)"
    and fair: "\<forall>d'. rehash_if_needed d = Some d' \<longrightarrow> (\<forall>v<dictSlots d'. \<forall>i. \<exists>j\<ge>i. rnd j = v)"
  shows "\<exists>d' e j. dictGetRandomKey rnd i d = Some (d', e, j) \<and> dict_ok d' \<and> same_shell d d' \<and>
    (if dictSize d = 0 then e = None else \<exists>x\<in>set (entries d). e = Some x)"
proof (cases "dictSize d = 0")
  case True
  then show ?thesis using ok by (auto simp: dictGetRandomKey_def same_shell_def)
next
  case False
  obtain d1 where d1: "rehash_if_needed d = Some d1" "dict_ok d1" "same_shell d d1"
    using rehash_if_needed_ok [OF ok] by blast
  then have ne: "entries d1 \<noteq> []" and set: "set (entries d1) = set (entries d)"
    using False dictSize_entries [OF ok] by (auto simp: same_shell_def dest: mset_eq_setD)
  then have u: "usable d1" using nonempty_usable [OF d1(2)] ty d1(3) by (simp add: same_shell_def)
  obtain r b where "r < dictSlots d1" "random_slot r d1 = Some b" "b \<noteq> []" using random_slot_hits [OF u ne] by blast
  moreover then obtain j where "j \<ge> i" "rnd j = r" using fair d1(1) by blast
  ultimately obtain c i' where c: "random_bucket rnd i d1 = Some (c, i')" "c \<noteq> []" "set c \<subseteq> set (entries d1)"
    using random_bucket_ok [OF u] by blast
  then have "c ! (rnd i' mod length c) \<in> set (entries d)" using set by (metis length_greater_0_conv mod_less_divisor nth_mem subsetD)
  then show ?thesis using False d1 c(1) by (auto simp: dictGetRandomKey_def Let_def)
qed

lemma collect_chain_ok:
  assumes "collect_chain b n des = (des', ret)" and "length des < n"
  shows "set des' \<subseteq> set des \<union> set b \<and> length des' \<le> n \<and> (\<not> ret \<longrightarrow> length des' < n)"
  using assms
  by (induction b n des rule: collect_chain.induct) (fastforce simp: Let_def split: if_splits)+

definition sampling_ok :: "('k, 'v) dict \<Rightarrow> nat \<Rightarrow> ('k, 'v) sampling \<Rightarrow> bool" where
  "sampling_ok d n s \<longleftrightarrow> set (samp_des s) \<subseteq> set (entries d) \<and> length (samp_des s) \<le> n"

lemma sample_table_ok:
  assumes ok: "dict_ok d" and s: "sampling_ok d n s" "length (samp_des s) < n"
  shows "\<exists>s' ret. sample_table rnd d n tables m j s = Some (s', ret) \<and> sampling_ok d n s' \<and>
    (\<not> ret \<longrightarrow> length (samp_des s') < n)"
proof (cases "(tables = 2 \<and> j = 0 \<and> unat (samp_i s) < nat (rehashidx d)) \<or> unat (samp_i s) \<ge> htsize (ht_of d j)")
  case True
  then show ?thesis using s by (auto simp: sample_table_def Let_def sampling_ok_def)
next
  case False
  let ?b = "table (ht_of d j) ! unat (samp_i s)"
  have i: "unat (samp_i s) < length (table (ht_of d j))" using False ht_of_ok [OF ok, of j] by simp
  obtain des ret where c: "collect_chain ?b n (samp_des s) = (des, ret)" by (cases "collect_chain ?b n (samp_des s)")
  have "set ?b \<subseteq> set (entries d)" using i by (force simp: entries_def ht_of_def split: if_splits)
  then show ?thesis using False i c s collect_chain_ok [OF c s(2)]
    by (auto simp: sample_table_def Let_def sampling_ok_def nth_bucket_def)
qed

lemma sample_loop_ok:
  assumes "dict_ok d" and "sampling_ok d n s"
  shows "\<exists>s'. sample_loop rnd d n tables m steps s = Some s' \<and> sampling_ok d n s'"
  using assms(2)
proof (induction steps arbitrary: s)
  case (Suc steps)
  show ?case
  proof (cases "length (samp_des s) < n")
    case True
    obtain s1 ret where s1: "sample_table rnd d n tables m 0 s = Some (s1, ret)" "sampling_ok d n s1"
      "\<not> ret \<longrightarrow> length (samp_des s1) < n"
      using sample_table_ok [OF assms(1) Suc.prems True] by blast
    show ?thesis
    proof (cases ret)
      case False
      then have l: "length (samp_des s1) < n" using s1(3) by simp
      obtain s2 ret2 where s2: "(if tables > 1 then sample_table rnd d n tables m 1 s1 else Some (s1, False)) = Some (s2, ret2)"
        "sampling_ok d n s2"
        using sample_table_ok [OF assms(1) s1(2) l, of rnd tables m 1] s1(2) by (cases "tables > 1") auto
      have "sampling_ok d n (s2\<lparr>samp_i := i\<rparr>)" for i using s2(2) by (simp add: sampling_ok_def)
      from Suc.IH [OF this] show ?thesis using True False s1(1) s2 by (cases ret2) auto
    qed (use True s1 in auto)
  qed (use Suc.prems in auto)
qed simp

lemma rehash_some_ok: "dict_ok d \<Longrightarrow> \<exists>d'. rehash_some n d = Some d' \<and> dict_ok d' \<and> same_shell d d'"
proof (induction n arbitrary: d)
  case (Suc n)
  show ?case
  proof (cases "dictIsRehashing d")
    case True
    then obtain d1 where d1: "dictRehashStep d = Some d1" "dict_ok d1" "same_shell d d1"
      using rehash_if_needed_ok [OF Suc.prems] by (auto simp: rehash_if_needed_def)
    then show ?thesis using Suc.IH [OF d1(2)] True same_shell_trans [OF d1(3)] by auto
  qed (use Suc.prems in \<open>auto simp: same_shell_def\<close>)
qed (simp add: same_shell_def)

text \<open>Property C28. Sampling keys returns after a bounded number of steps, reads only inside the
  bucket arrays and returns only entries of the dictionary, at most as many as were asked for and as
  there are; the dictionary keeps its entries.\<close>

theorem dictGetSomeKeys_ok:
  assumes "dict_ok d"
  shows "\<exists>d' des calls'. dictGetSomeKeys rnd calls d n = Some (d', des, calls') \<and> dict_ok d' \<and>
    mset (entries d') = mset (entries d) \<and> set des \<subseteq> set (entries d) \<and> length des \<le> min (unat n) (dictSize d)"
proof -
  define cnt where "cnt = (if dictSize d < unat n then of_nat (dictSize d) else n)"
  have "unat n < 2 ^ 32" using unsigned_less [of n] by simp
  then have "dictSize d < unat n \<Longrightarrow> unat (of_nat (dictSize d) :: u32) = dictSize d"
    by (simp add: unsigned_of_nat take_bit_nat_eq_self)
  then have cnt: "unat cnt = min (unat n) (dictSize d)" by (auto simp: cnt_def)
  obtain d1 where d1: "rehash_some (unat cnt) d = Some d1" "dict_ok d1" "same_shell d d1"
    using rehash_some_ok [OF assms] by blast
  have "sampling_ok d1 (unat cnt) \<lparr>samp_i = i, samp_emptylen = 0, samp_calls = c, samp_des = []\<rparr>" for i c
    by (simp add: sampling_ok_def)
  note start = this
  define tables :: nat where "tables = (if dictIsRehashing d1 then 2 else 1)"
  define m where "m = (if tables > 1 \<and> sizemask (ht0 d1) < sizemask (ht1 d1) then sizemask (ht1 d1) else sizemask (ht0 d1))"
  obtain s where s: "sample_loop rnd d1 (unat cnt) tables m (unat (cnt * 10))
      \<lparr>samp_i = of_nat (rnd calls) AND m, samp_emptylen = 0, samp_calls = calls + 1, samp_des = []\<rparr> = Some s"
    "sampling_ok d1 (unat cnt) s"
    using sample_loop_ok [OF d1(2) start] by blast
  have "dictGetSomeKeys rnd calls d n = Some (d1, samp_des s, samp_calls s)"
    using s(1) d1(1) unfolding dictGetSomeKeys_def Let_def cnt_def [symmetric]
    by (simp add: tables_def [symmetric]) (auto simp: m_def split: if_splits)
  moreover have "set (entries d1) = set (entries d)" using d1(3) by (auto simp: same_shell_def dest: mset_eq_setD)
  ultimately show ?thesis using s(2) d1(2,3) cnt by (auto simp: sampling_ok_def same_shell_def)
qed

theorem dictGetSomeKeys_ok_witness:
  "\<exists>d' des calls'. dictGetSomeKeys (\<lambda>i. i * 7) 0 iter_dict 3 = Some (d', des, calls') \<and> dict_ok d' \<and>
    mset (entries d') = mset (entries iter_dict) \<and> set des \<subseteq> set (entries iter_dict) \<and> length des \<le> 3"
  using dictGetSomeKeys_ok [OF iter_dict_ok(1), of "\<lambda>i. i * 7" 0 3] by (simp add: iter_dict_ok(3))

text \<open>With the hash of the key, the search by pointer finds what \<open>dictFind\<close> finds.\<close>

lemma dictFindEntryRef_ok:
  assumes "dict_ok d" and "dictType_ok (dtype d)" and "dictSize d > 0"
  shows "dictFindEntryRefByPtrAndHash d k (dictGetHash d k) = Some (locate d k)"
proof -
  have "entries d \<noteq> []" using assms(1,3) dictSize_entries by fastforce
  then have u: "usable d" using nonempty_usable [OF assms(1,2)] by blast
  have km: "keyMatches d k = (\<lambda>k'. k = k')" using keyMatches_iff [OF assms(2)] by auto
  show ?thesis
    using assms(3) usable_buckets [OF u, of "dictHashKey d k"]
    by (auto simp: dictFindEntryRefByPtrAndHash_def dictGetHash_def locate_def km Let_def dictSize_def split: option.splits)
qed

lemma dictRelease_ok: "dict_ok d \<Longrightarrow> dictRelease d = entries d"
  using dictClear_loop_all [of "table (ht0 d)" "used (ht0 d)"] dictClear_loop_all [of "table (ht1 d)" "used (ht1 d)"]
  by (simp add: dictRelease_def dictClear_def dict_ok_def ht_ok_def entries_def)

end
