(* ===== verification/Bitfield.thy ===== *)
theory Bitfield
  imports Redis_Prelude
begin

section \<open>Bit counting, bit search and bit fields (bitops.c)\<close>

text \<open>
  The helpers below the bit commands, on blocks of bytes: counting ones 28 bytes at a time,
  searching for the first bit of a kind word by word, reading and writing integers of up to 64
  bits at any bit offset, and the overflow rules of BITFIELD. Bit 0 of a block is the most
  significant bit of its first byte. Where alignment decides which loop reads a byte the address
  of the block is a parameter. A result \<open>None\<close> is an access outside the block, a shift by the
  width of its operand or more, which C leaves undefined, or a panic; signed arithmetic wraps.
\<close>

subsection \<open>Counting\<close>

definition bitsinbyte :: "nat list" where
  "bitsinbyte =
    [0, 1, 1, 2, 1, 2, 2, 3, 1, 2, 2, 3, 2, 3, 3, 4, 1, 2, 2, 3, 2, 3, 3, 4, 2, 3, 3, 4, 3, 4, 4, 5,
     1, 2, 2, 3, 2, 3, 3, 4, 2, 3, 3, 4, 3, 4, 4, 5, 2, 3, 3, 4, 3, 4, 4, 5, 3, 4, 4, 5, 4, 5, 5, 6,
     1, 2, 2, 3, 2, 3, 3, 4, 2, 3, 3, 4, 3, 4, 4, 5, 2, 3, 3, 4, 3, 4, 4, 5, 3, 4, 4, 5, 4, 5, 5, 6,
     2, 3, 3, 4, 3, 4, 4, 5, 3, 4, 4, 5, 4, 5, 5, 6, 3, 4, 4, 5, 4, 5, 5, 6, 4, 5, 5, 6, 5, 6, 6, 7,
     1, 2, 2, 3, 2, 3, 3, 4, 2, 3, 3, 4, 3, 4, 4, 5, 2, 3, 3, 4, 3, 4, 4, 5, 3, 4, 4, 5, 4, 5, 5, 6,
     2, 3, 3, 4, 3, 4, 4, 5, 3, 4, 4, 5, 4, 5, 5, 6, 3, 4, 4, 5, 4, 5, 5, 6, 4, 5, 5, 6, 5, 6, 6, 7,
     2, 3, 3, 4, 3, 4, 4, 5, 3, 4, 4, 5, 4, 5, 5, 6, 3, 4, 4, 5, 4, 5, 5, 6, 4, 5, 5, 6, 5, 6, 6, 7,
     3, 4, 4, 5, 4, 5, 5, 6, 4, 5, 5, 6, 5, 6, 6, 7, 4, 5, 5, 6, 5, 6, 6, 7, 5, 6, 6, 7, 6, 7, 7, 8]"

fun popcount_bytes :: "byte list \<Rightarrow> nat \<Rightarrow> nat" where
  \<comment> \<open>\<open>while(count--) bits += bitsinbyte[*p++];\<close>\<close>
  "popcount_bytes [] bits = bits"
| "popcount_bytes (c # p) bits = popcount_bytes p (bits + bitsinbyte ! unat c)"

fun popcount_head :: "nat \<Rightarrow> byte list \<Rightarrow> nat \<Rightarrow> byte list \<times> nat" where
  \<comment> \<open>\<open>while((unsigned long)p & 3 && count)\<close>: the bytes left and the count so far\<close>
  "popcount_head addr [] bits = ([], bits)"
| "popcount_head addr (c # p) bits =
     (if addr mod 4 \<noteq> 0 then popcount_head (addr + 1) p (bits + bitsinbyte ! unat c) else (c # p, bits))"

definition pop_aux :: "u32 \<Rightarrow> u32" where
  \<comment> \<open>the two lines each of \<open>aux1\<close> to \<open>aux7\<close> goes through, then its summand\<close>
  "pop_aux aux =
     (let aux = aux - (drop_bit 1 aux AND 0x55555555);
          aux = (aux AND 0x33333333) + (drop_bit 2 aux AND 0x33333333)
      in (aux + drop_bit 4 aux) AND 0x0F0F0F0F)"

definition load32 :: "byte_order \<Rightarrow> byte list \<Rightarrow> nat \<Rightarrow> u32" where
  \<comment> \<open>\<open>p4[i]\<close>\<close>
  "load32 he p i = obj_value he (take 4 (drop (4 * i) p))"

definition popcount_28 :: "byte_order \<Rightarrow> byte list \<Rightarrow> u32" where
  \<comment> \<open>the bits of 28 bytes\<close>
  "popcount_28 he p =
     drop_bit 24 ((pop_aux (load32 he p 0) + pop_aux (load32 he p 1) + pop_aux (load32 he p 2) +
       pop_aux (load32 he p 3) + pop_aux (load32 he p 4) + pop_aux (load32 he p 5) +
       pop_aux (load32 he p 6)) * 0x01010101)"

function popcount_words :: "byte_order \<Rightarrow> byte list \<Rightarrow> nat \<Rightarrow> byte list \<times> nat" where
  \<comment> \<open>\<open>while(count>=28)\<close>\<close>
  "popcount_words he p bits =
     (if length p \<ge> 28 then popcount_words he (drop 28 p) (bits + unat (popcount_28 he p)) else (p, bits))"
  by auto
termination by (relation "measure (\<lambda>(_, p, _). length p)") auto

declare popcount_words.simps [simp del]

definition redisPopcount :: "byte_order \<Rightarrow> nat \<Rightarrow> byte list \<Rightarrow> nat" where
  \<comment> \<open>the \<open>count\<close> bytes at the address \<open>s\<close>\<close>
  "redisPopcount he s p =
     (let (p, bits) = popcount_head s p 0; (p, bits) = popcount_words he p bits in popcount_bytes p bits)"

subsection \<open>Searching\<close>

fun bitpos_head :: "nat \<Rightarrow> byte \<Rightarrow> byte list \<Rightarrow> int \<Rightarrow> byte list \<times> int \<times> bool" where
  \<comment> \<open>\<open>while((unsigned long)c & (sizeof(*l)-1) && count)\<close>: bytes left, \<open>pos\<close>, \<open>found\<close>\<close>
  "bitpos_head addr skipval [] pos = ([], pos, False)"
| "bitpos_head addr skipval (c # p) pos =
     (if addr mod 8 \<noteq> 0 then
        if c \<noteq> skipval then (c # p, pos, True) else bitpos_head (addr + 1) skipval p (pos + 8)
      else (c # p, pos, False))"

function bitpos_words :: "byte_order \<Rightarrow> u64 \<Rightarrow> byte list \<Rightarrow> int \<Rightarrow> byte list \<times> int" where
  \<comment> \<open>\<open>while (count >= sizeof(*l)) { if (*l != skipval) break; ... }\<close>\<close>
  "bitpos_words he skipval p pos =
     (if length p \<ge> 8 then
        if (obj_value he (take 8 p) :: u64) \<noteq> skipval then (p, pos) else bitpos_words he skipval (drop 8 p) (pos + 64)
      else (p, pos))"
  by auto
termination by (relation "measure (\<lambda>(_, _, p, _). length p)") auto

declare bitpos_words.simps [simp del]

fun bitpos_load :: "nat \<Rightarrow> byte list \<Rightarrow> u64 \<Rightarrow> u64" where
  \<comment> \<open>\<open>for (j = 0; j < sizeof(*l); j++)\<close>: the next bytes as a big endian number, zero padded\<close>
  "bitpos_load 0 p word = word"
| "bitpos_load (Suc j) p word =
     (case p of [] \<Rightarrow> bitpos_load j [] (push_bit 8 word)
      | c # p \<Rightarrow> bitpos_load j p (push_bit 8 word OR ucast c))"

function bitpos_scan :: "u64 \<Rightarrow> u64 \<Rightarrow> bool \<Rightarrow> int \<Rightarrow> int option" where
  \<comment> \<open>\<open>while(one)\<close>; None is the panic after the loop\<close>
  "bitpos_scan one word b pos =
     (if one = 0 then None
      else if (one AND word \<noteq> 0) = b then Some pos
      else bitpos_scan (drop_bit 1 one) word b (pos + 1))"
  by auto
termination
proof (relation "measure (\<lambda>(one, _). unat one)")
  fix one word :: u64 and b :: bool and pos :: int
  assume "one \<noteq> 0"
  then have "unat one > 0" by (simp add: unat_gt_0)
  moreover have "unat (drop_bit 1 one) = unat one div 2" by (simp add: drop_bit_eq_div unat_div_distrib)
  ultimately show "((drop_bit 1 one, word, b, pos + 1), one, word, b, pos) \<in> measure (\<lambda>(one, _). unat one)" by simp
qed simp

declare bitpos_scan.simps [simp del]

definition redisBitpos :: "byte_order \<Rightarrow> nat \<Rightarrow> byte list \<Rightarrow> bool \<Rightarrow> int option" where
  "redisBitpos he s p b =
     (let (p, pos, found) = bitpos_head s (if b then 0 else 255) p 0;
          (p, pos) = (if \<not> found then bitpos_words he (if b then 0 else - 1) p pos else (p, pos));
          word = bitpos_load 8 p 0
      in if b \<and> word = 0 then Some (- 1)
         else bitpos_scan (NOT (drop_bit 1 (- 1))) word b pos)"

subsection \<open>Bit fields\<close>

definition shl :: "u64 \<Rightarrow> nat \<Rightarrow> u64 option" where
  \<comment> \<open>\<open>x << n\<close> on 64 bits: undefined from 64 on\<close>
  "shl x n = (if n < 64 then Some (push_bit n x) else None)"

definition top_bit :: "nat \<Rightarrow> u64 option" where
  \<comment> \<open>\<open>(uint64_t)1 << (bits-1)\<close>\<close>
  "top_bit bits = (if bits = 0 then None else shl 1 (bits - 1))"

definition get_byte :: "byte list \<Rightarrow> nat \<Rightarrow> byte option" where
  "get_byte p i = (if i < length p then Some (p ! i) else None)"

definition put_byte :: "byte list \<Rightarrow> nat \<Rightarrow> byte \<Rightarrow> byte list option" where
  "put_byte p i c = (if i < length p then Some (p[i := c]) else None)"

fun setUnsignedBitfield_loop :: "nat \<Rightarrow> byte list \<Rightarrow> nat \<Rightarrow> u64 \<Rightarrow> byte list option" where
  \<comment> \<open>the rounds left, so that \<open>bits-1-j\<close> is the number of rounds after this one\<close>
  "setUnsignedBitfield_loop 0 p offset value = Some p"
| "setUnsignedBitfield_loop (Suc r) p offset value = do {
     m \<leftarrow> shl 1 r;
     let bitval = (value AND m \<noteq> 0);
     let bt = drop_bit 3 offset;
     let bit = 7 - (offset AND 7);
     byteval \<leftarrow> get_byte p bt;
     let byteval = (ucast byteval :: u64) AND NOT (push_bit bit 1);
     let byteval = byteval OR push_bit bit (of_bool bitval);
     p \<leftarrow> put_byte p bt (ucast (byteval AND 0xFF));
     setUnsignedBitfield_loop r p (offset + 1) value }"

definition setUnsignedBitfield :: "byte list \<Rightarrow> nat \<Rightarrow> nat \<Rightarrow> u64 \<Rightarrow> byte list option" where
  "setUnsignedBitfield p offset bits value = setUnsignedBitfield_loop bits p offset value"

definition setSignedBitfield :: "byte list \<Rightarrow> nat \<Rightarrow> nat \<Rightarrow> int \<Rightarrow> byte list option" where
  "setSignedBitfield p offset bits value = setUnsignedBitfield p offset bits (word_of_int value)"

fun getUnsignedBitfield_loop :: "nat \<Rightarrow> byte list \<Rightarrow> nat \<Rightarrow> u64 \<Rightarrow> u64 option" where
  "getUnsignedBitfield_loop 0 p offset value = Some value"
| "getUnsignedBitfield_loop (Suc r) p offset value = do {
     let bt = drop_bit 3 offset;
     let bit = 7 - (offset AND 7);
     byteval \<leftarrow> get_byte p bt;
     let bitval = drop_bit bit (ucast byteval :: u64) AND 1;
     getUnsignedBitfield_loop r p (offset + 1) (push_bit 1 value OR bitval) }"

definition getUnsignedBitfield :: "byte list \<Rightarrow> nat \<Rightarrow> nat \<Rightarrow> u64 option" where
  "getUnsignedBitfield p offset bits = getUnsignedBitfield_loop bits p offset 0"

definition getSignedBitfield :: "byte list \<Rightarrow> nat \<Rightarrow> nat \<Rightarrow> int option" where
  "getSignedBitfield p offset bits = do {
     value \<leftarrow> getUnsignedBitfield p offset bits;
     m \<leftarrow> top_bit bits;
     if value AND m \<noteq> 0 then do {
       ext \<leftarrow> shl (- 1) bits;
       Some (sint (value OR ext)) }
     else Some (sint value) }"

subsection \<open>Overflow\<close>

datatype owtype = BFOVERFLOW_WRAP | BFOVERFLOW_SAT | BFOVERFLOW_FAIL

definition i64 :: "int \<Rightarrow> int" where
  \<comment> \<open>the value of an \<open>int64_t\<close> expression, which wraps\<close>
  "i64 x = sint (word_of_int x :: u64)"

definition checkUnsignedBitfieldOverflow :: "u64 \<Rightarrow> int \<Rightarrow> nat \<Rightarrow> owtype \<Rightarrow> (int \<times> u64 option) option" where
  \<comment> \<open>the return value and what is stored at \<open>limit\<close>, None where nothing is stored\<close>
  "checkUnsignedBitfieldOverflow value incr bits owtype = do {
     max \<leftarrow> (if bits = 64 then Some (- 1) else do { m \<leftarrow> shl 1 bits; Some (m - 1) });
     let maxincr = sint (max - value);
     let minincr = sint (- value);
     let handle_wrap = do {
       mask \<leftarrow> shl (- 1) bits;
       let res = value + word_of_int incr;
       Some (1, Some (res AND NOT mask)) };
     if value > max \<or> (incr > 0 \<and> incr > maxincr) then
       (case owtype of BFOVERFLOW_WRAP \<Rightarrow> handle_wrap | BFOVERFLOW_SAT \<Rightarrow> Some (1, Some max) | BFOVERFLOW_FAIL \<Rightarrow> Some (1, None))
     else if incr < 0 \<and> incr < minincr then
       (case owtype of BFOVERFLOW_WRAP \<Rightarrow> handle_wrap | BFOVERFLOW_SAT \<Rightarrow> Some (- 1, Some 0) | BFOVERFLOW_FAIL \<Rightarrow> Some (- 1, None))
     else Some (0, None) }"

definition checkSignedBitfieldOverflow :: "int \<Rightarrow> int \<Rightarrow> nat \<Rightarrow> owtype \<Rightarrow> (int \<times> int option) option" where
  "checkSignedBitfieldOverflow value incr bits owtype = do {
     max \<leftarrow> (if bits = 64 then Some (2 ^ 63 - 1) else do { m \<leftarrow> top_bit bits; Some (i64 (sint m - 1)) });
     let min = i64 (- max - 1);
     let maxincr = i64 (max - value);
     let minincr = i64 (min - value);
     let handle_wrap = do {
       mask \<leftarrow> shl (- 1) bits;
       msb \<leftarrow> top_bit bits;
       let c = word_of_int value + word_of_int incr;
       let c = (if c AND msb \<noteq> 0 then c OR mask else c AND NOT mask);
       Some (1, Some (sint c)) };
     if value > max \<or> (bits \<noteq> 64 \<and> incr > maxincr) \<or> (value \<ge> 0 \<and> incr > 0 \<and> incr > maxincr) then
       (case owtype of BFOVERFLOW_WRAP \<Rightarrow> handle_wrap | BFOVERFLOW_SAT \<Rightarrow> Some (1, Some max) | BFOVERFLOW_FAIL \<Rightarrow> Some (1, None))
     else if value < min \<or> (bits \<noteq> 64 \<and> incr < minincr) \<or> (value < 0 \<and> incr < 0 \<and> incr < minincr) then
       (case owtype of BFOVERFLOW_WRAP \<Rightarrow> handle_wrap | BFOVERFLOW_SAT \<Rightarrow> Some (- 1, Some min) | BFOVERFLOW_FAIL \<Rightarrow> Some (- 1, None))
     else Some (0, None) }"

section \<open>Blocks as sequences of bits\<close>

definition bit_at :: "byte list \<Rightarrow> nat \<Rightarrow> bool" where
  "bit_at p k \<longleftrightarrow> bit (p ! (k div 8)) (7 - k mod 8)"

definition byte_bits :: "byte \<Rightarrow> bool list" where
  "byte_bits c = map (\<lambda>i. bit c (7 - i)) [0..<8]"

definition bits_of :: "byte list \<Rightarrow> bool list" where
  "bits_of p = concat (map byte_bits p)"

definition ones :: "bool list \<Rightarrow> nat" where
  "ones bs = length (filter id bs)"

lemma length_byte_bits [simp]: "length (byte_bits c) = 8"
  by (simp add: byte_bits_def)

lemma length_bits_of [simp]: "length (bits_of p) = 8 * length p"
  by (induction p) (simp_all add: bits_of_def)

lemma bits_of_append [simp]: "bits_of (p @ q) = bits_of p @ bits_of q" "bits_of [] = []" "bits_of (c # p) = byte_bits c @ bits_of p"
  by (simp_all add: bits_of_def)

lemma ones_append [simp]: "ones (a @ b) = ones a + ones b" "ones [] = 0"
  by (simp_all add: ones_def)

lemma nth_bits_of: "k < 8 * length p \<Longrightarrow> bits_of p ! k = bit_at p k"
proof (induction p arbitrary: k)
  case (Cons c p)
  show ?case
  proof (cases "k < 8")
    case True
    then show ?thesis by (simp add: nth_append byte_bits_def bit_at_def)
  next
    case False
    then have "k div 8 = Suc ((k - 8) div 8)" "k mod 8 = (k - 8) mod 8" by (simp_all add: le_div_geq le_mod_geq)
    then show ?thesis using False Cons by (simp add: nth_append bit_at_def)
  qed
qed simp

subsection \<open>Bit fields\<close>

lemma byte_index: "drop_bit 3 (k :: nat) = k div 8" "k AND (7 :: nat) = k mod 8"
proof -
  show "drop_bit 3 k = k div 8" by (simp add: drop_bit_eq_div)
  have "(7 :: nat) = mask 3" by (simp add: mask_eq_exp_minus_1)
  then show "k AND 7 = k mod 8" using take_bit_eq_mask [of 3 k] by (simp add: take_bit_eq_mod)
qed

lemma and_bit: "x AND push_bit r 1 \<noteq> (0 :: u64) \<longleftrightarrow> bit x r"
  by (metis and_exp_eq_0_iff_not_bit push_bit_of_1)

lemma set_bit_of_byte:
  fixes c :: byte
  assumes "i < 8"
  shows "bit (ucast (((ucast c :: u64) AND NOT (push_bit i 1) OR push_bit i (of_bool v)) AND 0xFF) :: byte) j \<longleftrightarrow>
    (if j = i then v else bit c j)"
proof (cases "j < 8")
  case True
  have m: "(0xFF :: u64) = mask 8" by (simp add: mask_eq_exp_minus_1)
  show ?thesis using True assms unfolding m
    by (auto simp: bit_ucast_iff bit_and_iff bit_or_iff bit_not_iff bit_push_bit_iff bit_mask_iff bit_of_bool_iff bit_1_iff bit_exp_iff
        dest: bit_imp_le_length)
next
  case False
  then show ?thesis using assms by (auto dest: bit_imp_le_length)
qed

lemma bit_at_update:
  assumes "n div 8 < length p" and "\<And>j. bit c j \<longleftrightarrow> (if j = 7 - n mod 8 then v else bit (p ! (n div 8)) j)"
  shows "bit_at (p[n div 8 := c]) k \<longleftrightarrow> (if k = n then v else bit_at p k)"
proof (cases "k div 8 = n div 8")
  case True
  have "k mod 8 < 8" "n mod 8 < 8" "k = 8 * (n div 8) + k mod 8" "n = 8 * (n div 8) + n mod 8"
    using mult_div_mod_eq [of 8 k] mult_div_mod_eq [of 8 n] unfolding True by simp_all
  then have "7 - k mod 8 = 7 - n mod 8 \<longleftrightarrow> k = n" by linarith
  then show ?thesis using True assms by (simp add: bit_at_def)
next
  case False
  then show ?thesis by (auto simp: bit_at_def)
qed

lemma setUnsignedBitfield_loop_ok:
  assumes "offset + r \<le> 8 * length p" and "r \<le> 64"
  shows "\<exists>p'. setUnsignedBitfield_loop r p offset value = Some p' \<and> length p' = length p \<and>
    (\<forall>k. bit_at p' k \<longleftrightarrow> (if offset \<le> k \<and> k < offset + r then bit value (r - 1 - (k - offset)) else bit_at p k))"
  using assms
proof (induction r arbitrary: p offset)
  case 0
  then show ?case by auto
next
  case (Suc r)
  let ?i = "offset div 8" and ?b = "7 - offset mod 8"
  let ?c = "ucast (((ucast (p ! ?i) :: u64) AND NOT (push_bit ?b 1) OR push_bit ?b (of_bool (bit value r))) AND 0xFF) :: byte"
  have i: "?i < length p" using Suc.prems by simp
  have step: "setUnsignedBitfield_loop (Suc r) p offset value = setUnsignedBitfield_loop r (p[?i := ?c]) (offset + 1) value"
    using i Suc.prems(2) by (simp add: shl_def get_byte_def put_byte_def byte_index and_bit Let_def del: push_bit_of_1)
  have at: "bit_at (p[?i := ?c]) k \<longleftrightarrow> (if k = offset then bit value r else bit_at p k)" for k
    by (rule bit_at_update [OF i]) (simp only: set_bit_of_byte)
  obtain p' where p': "setUnsignedBitfield_loop r (p[?i := ?c]) (offset + 1) value = Some p'" "length p' = length p"
    "\<And>k. bit_at p' k \<longleftrightarrow> (if offset + 1 \<le> k \<and> k < offset + 1 + r then bit value (r - 1 - (k - (offset + 1)))
      else bit_at (p[?i := ?c]) k)"
    using Suc.IH [of "offset + 1" "p[?i := ?c]"] Suc.prems by auto
  have "bit_at p' k \<longleftrightarrow> (if offset \<le> k \<and> k < offset + Suc r then bit value (Suc r - 1 - (k - offset)) else bit_at p k)" for k
    using p'(3) [of k] at [of k] by (cases "k = offset") (auto simp: diff_diff_add)
  then show ?case using step p'(1,2) by auto
qed

lemma getUnsignedBitfield_loop_ok:
  assumes "offset + r \<le> 8 * length p"
  shows "\<exists>v. getUnsignedBitfield_loop r p offset acc = Some v \<and>
    (\<forall>i. bit v i \<longleftrightarrow> i < 64 \<and> (if i < r then bit_at p (offset + (r - 1 - i)) else bit acc (i - r)))"
  using assms
proof (induction r arbitrary: offset acc)
  case 0
  then show ?case by (auto dest: bit_imp_le_length)
next
  case (Suc r)
  let ?w = "push_bit 1 acc OR (drop_bit (7 - offset mod 8) (ucast (p ! (offset div 8)) :: u64) AND 1)"
  have i: "offset div 8 < length p" using Suc.prems by simp
  have step: "getUnsignedBitfield_loop (Suc r) p offset acc = getUnsignedBitfield_loop r p (offset + 1) ?w"
    using i by (simp add: get_byte_def byte_index Let_def del: push_bit_of_1)
  have w: "bit ?w i \<longleftrightarrow> i < 64 \<and> (if i = 0 then bit_at p offset else bit acc (i - 1))" for i
    using bit_double_iff [of acc i]
    by (auto simp: bit_or_iff bit_and_iff bit_push_bit_iff bit_drop_bit_eq bit_1_iff bit_ucast_iff bit_at_def mult.commute
        dest: bit_imp_le_length)
  obtain v where v: "getUnsignedBitfield_loop r p (offset + 1) ?w = Some v"
    "\<And>i. bit v i \<longleftrightarrow> i < 64 \<and> (if i < r then bit_at p (offset + 1 + (r - 1 - i)) else bit ?w (i - r))"
    using Suc.IH [of "offset + 1" ?w] Suc.prems by auto
  have "bit v i \<longleftrightarrow> i < 64 \<and> (if i < Suc r then bit_at p (offset + (Suc r - 1 - i)) else bit acc (i - Suc r))" for i
    using v(2) [of i] w [of "i - r"] by (cases i r rule: linorder_cases) (auto simp: Suc_diff_Suc)
  then show ?case using step v(1) by auto
qed

text \<open>Reading a field gives the number its bits spell, most significant bit first.\<close>

definition field :: "byte list \<Rightarrow> nat \<Rightarrow> nat \<Rightarrow> u64" where
  "field p offset bits = horner_sum of_bool 2 (map (\<lambda>i. bit_at p (offset + (bits - 1 - i))) [0..<bits])"

lemma bit_field: "bits \<le> 64 \<Longrightarrow> bit (field p offset bits) i \<longleftrightarrow> i < bits \<and> bit_at p (offset + (bits - 1 - i))"
  by (auto simp: field_def bit_horner_sum_bit_iff)

lemma getUnsignedBitfield_ok:
  assumes "offset + bits \<le> 8 * length p" and "bits \<le> 64"
  shows "getUnsignedBitfield p offset bits = Some (field p offset bits)"
proof -
  obtain v where v: "getUnsignedBitfield_loop bits p offset 0 = Some v"
    "\<forall>i. bit v i \<longleftrightarrow> i < 64 \<and> (if i < bits then bit_at p (offset + (bits - 1 - i)) else bit (0 :: u64) (i - bits))"
    using getUnsignedBitfield_loop_ok [OF assms(1)] by blast
  have "v = field p offset bits"
    by (rule bit_word_eqI) (use v(2) assms(2) in \<open>auto simp: bit_field\<close>)
  then show ?thesis using v(1) by (simp add: getUnsignedBitfield_def)
qed

lemma setUnsignedBitfield_ok:
  assumes "offset + bits \<le> 8 * length p" and "bits \<le> 64"
  shows "\<exists>p'. setUnsignedBitfield p offset bits value = Some p' \<and> length p' = length p \<and>
    field p' offset bits = take_bit bits value \<and>
    (\<forall>o2 n. n \<le> 64 \<longrightarrow> o2 + n \<le> offset \<or> offset + bits \<le> o2 \<longrightarrow> field p' o2 n = field p o2 n)"
proof -
  obtain p' where p': "setUnsignedBitfield_loop bits p offset value = Some p'" "length p' = length p"
    "\<And>k. bit_at p' k \<longleftrightarrow> (if offset \<le> k \<and> k < offset + bits then bit value (bits - 1 - (k - offset)) else bit_at p k)"
    using setUnsignedBitfield_loop_ok [OF assms] by blast
  have "field p' offset bits = take_bit bits value"
    by (rule bit_word_eqI) (use assms(2) p'(3) in \<open>auto simp: bit_field bit_take_bit_iff\<close>)
  moreover have "field p' o2 n = field p o2 n" if "n \<le> 64" "o2 + n \<le> offset \<or> offset + bits \<le> o2" for o2 n
    by (rule bit_word_eqI) (use that p'(3) in \<open>auto simp: bit_field\<close>)
  ultimately show ?thesis using p'(1,2) by (auto simp: setUnsignedBitfield_def)
qed

subsection \<open>Signed fields\<close>

lemma top_bit_eq: "0 < bits \<Longrightarrow> bits \<le> 64 \<Longrightarrow> top_bit bits = Some (push_bit (bits - 1) 1)"
  by (simp add: top_bit_def shl_def)

lemma bit_signed_field:
  fixes v :: u64
  assumes "0 < bits" "bits \<le> 64" and "\<And>i. bits \<le> i \<Longrightarrow> \<not> bit v i" and "n < 64"
  shows "bit (signed_take_bit (bits - 1) v) n \<longleftrightarrow> (if n < bits then bit v n else bit v (bits - 1))"
proof (cases "n < bits - 1")
  case True
  then show ?thesis using assms by (auto simp: bit_signed_take_bit_iff min_def)
next
  case False
  then show ?thesis using assms by (cases "n = bits - 1") (auto simp: bit_signed_take_bit_iff min_def)
qed

lemma or_sign:
  fixes v :: u64
  assumes "0 < bits" "bits < 64" and "bit v (bits - 1)" and "\<And>i. bits \<le> i \<Longrightarrow> \<not> bit v i"
  shows "v OR push_bit bits (- 1) = signed_take_bit (bits - 1) v"
proof (rule bit_word_eqI)
  fix n assume "n < LENGTH(64)"
  then show "bit (v OR push_bit bits (- 1)) n = bit (signed_take_bit (bits - 1) v) n"
    using bit_signed_field [of bits v n] assms
    by (auto simp: bit_or_iff bit_push_bit_iff bit_not_iff bit_mask_iff)
qed

lemma no_sign:
  fixes v :: u64
  assumes "0 < bits" "bits \<le> 64" and "\<not> bit v (bits - 1)" and "\<And>i. bits \<le> i \<Longrightarrow> \<not> bit v i"
  shows "v = signed_take_bit (bits - 1) v"
  by (rule bit_word_eqI) (use bit_signed_field [of bits v] assms in auto)

text \<open>The signed value of a field: its bits in two's complement.\<close>

definition signed_field :: "byte list \<Rightarrow> nat \<Rightarrow> nat \<Rightarrow> int" where
  "signed_field p offset bits = signed_take_bit (bits - 1) (uint (field p offset bits))"

lemma sint_signed_take_bit:
  fixes v :: u64
  assumes "n < 64"
  shows "sint (signed_take_bit n v) = signed_take_bit n (uint v)"
  using assms
  by (intro bit_eqI) (auto simp: bit_signed_take_bit_iff bit_sint_iff bit_uint_iff min_def)

lemma getSignedBitfield_ok:
  assumes "offset + bits \<le> 8 * length p" and "0 < bits" "bits \<le> 64"
  shows "getSignedBitfield p offset bits =
    (if bits = 64 \<and> bit_at p offset then None else Some (signed_field p offset bits))"
proof -
  let ?v = "field p offset bits"
  have top: "bit ?v (bits - 1) \<longleftrightarrow> bit_at p offset" using assms(2,3) by (simp add: bit_field)
  have high: "\<not> bit ?v i" if "bits \<le> i" for i using that assms(3) by (simp add: bit_field)
  have sf: "signed_field p offset bits = sint (signed_take_bit (bits - 1) ?v)"
    using assms(2,3) by (simp add: signed_field_def sint_signed_take_bit)
  have run: "getSignedBitfield p offset bits = (if bit_at p offset
      then do { ext \<leftarrow> shl (- 1) bits; Some (sint (?v OR ext)) } else Some (sint ?v))"
    using getUnsignedBitfield_ok [OF assms(1,3)] top_bit_eq [OF assms(2,3)] top
    by (simp add: getSignedBitfield_def and_bit del: push_bit_of_1)
  show ?thesis
  proof (cases "bit_at p offset")
    case True
    then show ?thesis using run or_sign [of bits ?v] high top assms(2,3) sf by (auto simp: shl_def)
  next
    case False
    then show ?thesis using run no_sign [of bits ?v] high top assms(2,3) sf by auto
  qed
qed

subsection \<open>Overflow\<close>

lemma i64_id: "- (2 ^ 63) \<le> x \<Longrightarrow> x < 2 ^ 63 \<Longrightarrow> i64 x = x"
  using sint_word_of_int_id [of x, where 'a = 64] by (simp add: i64_def)

lemma i64_wrap: "2 ^ 63 \<le> x \<Longrightarrow> x < 2 ^ 64 \<Longrightarrow> i64 x = x - 2 ^ 64"
proof -
  assume x: "2 ^ 63 \<le> x" "x < 2 ^ 64"
  have "(x + 2 ^ 63) mod 2 ^ 64 = (x - 2 ^ 63 + 2 ^ 64) mod 2 ^ 64" by (simp add: add.commute)
  also have "\<dots> = x - 2 ^ 63" using x by (simp only: mod_add_self2) (simp add: mod_pos_pos_trivial)
  finally show ?thesis by (simp add: i64_def int_word_sint)
qed

text \<open>What the two checks decide: the exact sum against the range of the type.\<close>

definition overflow_spec :: "int \<Rightarrow> int \<Rightarrow> int \<Rightarrow> int \<Rightarrow> owtype \<Rightarrow> int \<times> int option" where
  \<comment> \<open>range, wrapped sum, sum; the wrap branch returns 1 for an underflow too\<close>
  "overflow_spec lo hi wrapped x owtype =
     (if lo \<le> x \<and> x \<le> hi then (0, None)
      else case owtype of
        BFOVERFLOW_WRAP \<Rightarrow> (1, Some wrapped)
      | BFOVERFLOW_SAT \<Rightarrow> (if x > hi then (1, Some hi) else (- 1, Some lo))
      | BFOVERFLOW_FAIL \<Rightarrow> (if x > hi then 1 else - 1, None))"

lemma uint_and_low: "bits < 64 \<Longrightarrow> uint (x AND NOT (push_bit bits (- 1)) :: u64) = uint x mod 2 ^ bits"
proof -
  assume b: "bits < 64"
  have "x AND NOT (push_bit bits (- 1)) = take_bit bits x"
    by (rule bit_word_eqI) (use b in \<open>auto simp: bit_and_iff bit_not_iff bit_push_bit_iff bit_take_bit_iff bit_mask_iff\<close>)
  then have "uint (x AND NOT (push_bit bits (- 1))) = take_bit bits (uint x)"
    by (simp only: unsigned_take_bit_eq)
  then show ?thesis by (simp only: take_bit_eq_mod)
qed

lemma unsigned_overflow_ok:
  assumes bits: "0 < bits" "bits < 64" and incr: "- (2 ^ 63) \<le> incr" "incr < 2 ^ 63"
    and v: "uint v < 2 ^ bits \<or> incr = 0"
  shows "map_option (map_prod id (map_option uint)) (checkUnsignedBitfieldOverflow v incr bits ow) =
    Some (overflow_spec 0 (2 ^ bits - 1) ((uint v + incr) mod 2 ^ bits) (uint v + incr) ow)"
proof -
  let ?max = "push_bit bits 1 - 1 :: u64"
  have p: "(2 :: int) ^ bits \<le> 2 ^ 63" "(1 :: int) < 2 ^ bits"
    using bits power_increasing [of bits 63 "2 :: int"] by simp_all
  have max: "uint ?max = 2 ^ bits - 1"
  proof -
    have "uint (word_of_int (2 ^ bits - 1) :: u64) = 2 ^ bits - 1" using p by (intro uint_word_of_int_id) auto
    then show ?thesis by (simp add: wi_hom_sub [symmetric])
  qed
  have uv: "0 \<le> uint v" "uint v < 2 ^ 64" using uint_lt2p [of v] by simp_all
  have gt: "v > ?max \<longleftrightarrow> uint v > 2 ^ bits - 1" using max by (simp add: word_less_def)
  have maxincr: "sint (?max - v) = 2 ^ bits - 1 - uint v" if "uint v < 2 ^ bits"
  proof -
    have eq: "?max - v = word_of_int (2 ^ bits - 1 - uint v)" using max by (metis wi_hom_sub word_of_int_uint)
    have b: "- (2 ^ 63) \<le> 2 ^ bits - 1 - uint v" "2 ^ bits - 1 - uint v < 2 ^ 63" using that p uv by linarith+
    show ?thesis unfolding eq by (rule sint_word_of_int_id) (use b in simp_all)
  qed
  have minincr: "sint (- v) = - uint v" if "uint v < 2 ^ bits"
  proof -
    have eq: "- v = word_of_int (- uint v)" by (metis wi_hom_neg word_of_int_uint)
    have b: "- (2 ^ 63) \<le> - uint v" "- uint v < 2 ^ 63" using that p uv by linarith+
    show ?thesis unfolding eq by (rule sint_word_of_int_id) (use b in simp_all)
  qed
  have wrap: "uint ((v + word_of_int incr) AND NOT (push_bit bits (- 1))) = (uint v + incr) mod 2 ^ bits"
  proof -
    have "(2 :: int) ^ bits dvd 2 ^ 64" using bits by (intro le_imp_power_dvd) simp
    then show ?thesis using uint_and_low [OF bits(2)]
      by (simp add: uint_word_ariths mod_mod_cancel uint_word_of_int mod_add_right_eq)
  qed
  show ?thesis
  proof (cases "uint v < 2 ^ bits")
    case True
    then show ?thesis using gt maxincr minincr wrap max bits p uv
      by (auto simp: checkUnsignedBitfieldOverflow_def shl_def Let_def overflow_spec_def simp del: push_bit_of_1 split: owtype.split)
  next
    case False
    then show ?thesis using gt wrap max bits p uv v
      by (auto simp: checkUnsignedBitfieldOverflow_def shl_def Let_def overflow_spec_def simp del: push_bit_of_1 split: owtype.split)
  qed
qed

lemma wrap_signed:
  fixes c :: u64
  assumes "0 < bits" "bits < 64"
  shows "(if bit c (bits - 1) then c OR push_bit bits (- 1) else c AND NOT (push_bit bits (- 1))) = signed_take_bit (bits - 1) c"
proof (rule bit_word_eqI)
  fix n assume "n < LENGTH(64)"
  then show "bit (if bit c (bits - 1) then c OR push_bit bits (- 1) else c AND NOT (push_bit bits (- 1))) n =
      bit (signed_take_bit (bits - 1) c) n"
    using assms by (cases "n < bits - 1"; cases "n = bits - 1")
      (auto simp: bit_or_iff bit_and_iff bit_not_iff bit_mask_iff bit_signed_take_bit_iff min_def)
qed

lemma signed_take_bit_uint: "n < 64 \<Longrightarrow> signed_take_bit n (uint (word_of_int x :: u64)) = signed_take_bit n x"
  by (rule bit_eqI) (auto simp: bit_signed_take_bit_iff bit_uint_iff bit_word_of_int_iff min_def)

lemma signed_overflow_ok:
  assumes bits: "0 < bits" "bits \<le> 64" and incr: "- (2 ^ 63) \<le> incr" "incr < 2 ^ 63"
    and v: "- (2 ^ 63) \<le> v" "v < 2 ^ 63" and range: "- (2 ^ (bits - 1)) \<le> v \<and> v < 2 ^ (bits - 1) \<or> incr = 0"
    and wrap_free: "bits = 64 \<or> 2 ^ (bits - 1) - 1 - v < 2 ^ 63"
  shows "checkSignedBitfieldOverflow v incr bits ow =
    (if bits = 64 \<and> ow = BFOVERFLOW_WRAP \<and> \<not> (- (2 ^ 63) \<le> v + incr \<and> v + incr < 2 ^ 63) then None
     else Some (overflow_spec (- (2 ^ (bits - 1))) (2 ^ (bits - 1) - 1) (signed_take_bit (bits - 1) (v + incr)) (v + incr) ow))"
proof -
  define P :: int where "P = 2 ^ (bits - 1)"
  have P: "1 \<le> P" "P \<le> 2 ^ 63" and P64: "bits = 64 \<Longrightarrow> P = 2 ^ 63" and P63: "bits \<noteq> 64 \<Longrightarrow> P \<le> 2 ^ 62"
    using bits power_increasing [of "bits - 1" 63 "2 :: int"] power_increasing [of "bits - 1" 62 "2 :: int"]
    by (auto simp: P_def)
  have max: "(if bits = 64 then Some (2 ^ 63 - 1) else do { m \<leftarrow> top_bit bits; Some (i64 (sint m - 1)) }) = Some (P - 1)"
  proof (cases "bits = 64")
    case False
    have eq: "(push_bit (bits - 1) 1 :: u64) = word_of_int P" by (simp add: P_def)
    have "sint (push_bit (bits - 1) 1 :: u64) = P"
      unfolding eq by (rule sint_word_of_int_id) (use P P63 [OF False] in simp_all)
    then show ?thesis using False top_bit_eq [OF bits] P P63 [OF False] by (simp add: i64_id del: push_bit_of_1)
  qed (use P64 in simp)
  have min: "i64 (- (P - 1) - 1) = - P" using P i64_id [of "- P"] by simp
  have c: "word_of_int v + word_of_int incr = (word_of_int (v + incr) :: u64)" by simp
  have wrap: "sint (if (word_of_int v + word_of_int incr) AND push_bit (bits - 1) 1 \<noteq> (0 :: u64)
      then (word_of_int v + word_of_int incr :: u64) OR push_bit bits (- 1)
      else (word_of_int v + word_of_int incr) AND NOT (push_bit bits (- 1))) = signed_take_bit (bits - 1) (v + incr)"
    if "bits < 64"
    using wrap_signed [OF bits(1) that, of "word_of_int (v + incr)"] bits
      sint_signed_take_bit [of "bits - 1" "word_of_int (v + incr)"] signed_take_bit_uint [of "bits - 1" "v + incr"]
    unfolding c and_bit by simp
  have wrapped: "do {
       mask \<leftarrow> shl (- 1) bits;
       msb \<leftarrow> top_bit bits;
       let c = word_of_int v + word_of_int incr;
       let c = (if c AND msb \<noteq> 0 then c OR mask else c AND NOT mask);
       Some (1 :: int, Some (sint c)) } = (if bits = 64 then None else Some (1, Some (signed_take_bit (bits - 1) (v + incr))))"
    using bits wrap by (auto simp: shl_def top_bit_eq Let_def simp del: push_bit_of_1)
  have maxincr: "i64 (P - 1 - v) = P - 1 - v" if "v \<ge> 0 \<or> bits \<noteq> 64" "v \<le> P - 1"
    using that P v wrap_free unfolding P_def [symmetric] by (intro i64_id) auto
  have minincr: "i64 (- P - v) = - P - v" if "v < 0 \<or> bits \<noteq> 64" "v \<le> P - 1"
    using that P P63 v by (intro i64_id) auto
  have over: "v > P - 1 \<or> (bits \<noteq> 64 \<and> incr > i64 (P - 1 - v)) \<or> (v \<ge> 0 \<and> incr > 0 \<and> incr > i64 (P - 1 - v)) \<longleftrightarrow>
      v + incr > P - 1"
  proof (cases "v > P - 1")
    case True
    then show ?thesis using range unfolding P_def [symmetric] by auto
  next
    case False
    then show ?thesis using maxincr P64 incr v by (cases "v \<ge> 0 \<or> bits \<noteq> 64") auto
  qed
  have under: "v < - P \<or> (bits \<noteq> 64 \<and> incr < i64 (- P - v)) \<or> (v < 0 \<and> incr < 0 \<and> incr < i64 (- P - v)) \<longleftrightarrow>
      v + incr < - P" if "\<not> v + incr > P - 1"
  proof (cases "v < - P")
    case True
    then show ?thesis using range unfolding P_def [symmetric] by auto
  next
    case False
    have "v \<le> P - 1" using that range unfolding P_def [symmetric] by auto
    then show ?thesis using False minincr P64 incr v by (cases "v < 0 \<or> bits \<noteq> 64") auto
  qed
  show ?thesis
    unfolding checkSignedBitfieldOverflow_def max Let_def Option.bind.bind_lunit min over P_def [symmetric]
    using wrapped [unfolded Let_def] under P64
    by (cases ow) (auto simp: overflow_spec_def)
qed

section \<open>Properties\<close>

lemma signed_roundtrip:
  assumes "0 < bits" "bits \<le> 64" and "- (2 ^ (bits - 1)) \<le> v" "v < 2 ^ (bits - 1)"
    and "field p offset bits = take_bit bits (word_of_int v)"
  shows "signed_field p offset bits = v" "bit_at p offset \<longleftrightarrow> v < 0"
proof -
  have s: "signed_take_bit (bits - 1) v = v" using assms(3,4) by (simp add: signed_take_bit_int_eq_self)
  have "signed_field p offset bits = signed_take_bit (bits - 1) (take_bit bits (uint (word_of_int v :: u64)))"
    by (simp add: signed_field_def assms(5) unsigned_take_bit_eq)
  also have "\<dots> = signed_take_bit (bits - 1) (uint (word_of_int v :: u64))"
    by (rule bit_eqI) (use assms(1) in \<open>auto simp: bit_signed_take_bit_iff bit_take_bit_iff min_def\<close>)
  also have "\<dots> = v" using assms(1,2) s by (simp only: signed_take_bit_uint)
  finally show "signed_field p offset bits = v" .
  have "bit_at p offset \<longleftrightarrow> bit (field p offset bits) (bits - 1)" using assms(1,2) by (simp add: bit_field)
  also have "\<dots> \<longleftrightarrow> bit v (bits - 1)" using assms(1,2,5) by (auto simp: bit_take_bit_iff bit_word_of_int_iff)
  also have "\<dots> \<longleftrightarrow> v < 0" using signed_take_bit_negative_iff [of "bits - 1" v] unfolding s by blast
  finally show "bit_at p offset \<longleftrightarrow> v < 0" .
qed

text \<open>Property C13. Fields at any bit offset. Writing a field of up to 64 bits that lies inside the block stays
  inside it; reading the field gives the low bits of the value back and every field that does not
  overlap keeps its value. A signed value in the range of the field is read back as it was
  written, with one exception: reading a negative value from a field of 64 bits shifts by 64,
  which C leaves undefined.\<close>

theorem bitfield_roundtrip:
  assumes "offset + bits \<le> 8 * length p" and "bits \<le> 64"
  shows "(\<exists>p'. setUnsignedBitfield p offset bits w = Some p' \<and> length p' = length p \<and>
      getUnsignedBitfield p' offset bits = Some (take_bit bits w) \<and>
      (\<forall>o2 n. n \<le> 64 \<longrightarrow> o2 + n \<le> 8 * length p \<longrightarrow> o2 + n \<le> offset \<or> offset + bits \<le> o2 \<longrightarrow>
        getUnsignedBitfield p' o2 n = getUnsignedBitfield p o2 n)) \<and>
    (0 < bits \<longrightarrow> - (2 ^ (bits - 1)) \<le> v \<longrightarrow> v < 2 ^ (bits - 1) \<longrightarrow>
      (\<exists>p'. setSignedBitfield p offset bits v = Some p' \<and>
        getSignedBitfield p' offset bits = (if bits = 64 \<and> v < 0 then None else Some v)))"
proof (intro conjI impI)
  show "\<exists>p'. setUnsignedBitfield p offset bits w = Some p' \<and> length p' = length p \<and>
      getUnsignedBitfield p' offset bits = Some (take_bit bits w) \<and>
      (\<forall>o2 n. n \<le> 64 \<longrightarrow> o2 + n \<le> 8 * length p \<longrightarrow> o2 + n \<le> offset \<or> offset + bits \<le> o2 \<longrightarrow>
        getUnsignedBitfield p' o2 n = getUnsignedBitfield p o2 n)"
    using setUnsignedBitfield_ok [OF assms, of w] assms by (auto simp: getUnsignedBitfield_ok)
next
  assume v: "0 < bits" "- (2 ^ (bits - 1)) \<le> v" "v < 2 ^ (bits - 1)"
  obtain p' where p': "setUnsignedBitfield p offset bits (word_of_int v) = Some p'" "length p' = length p"
    "field p' offset bits = take_bit bits (word_of_int v)"
    using setUnsignedBitfield_ok [OF assms, of "word_of_int v"] by auto
  then show "\<exists>p'. setSignedBitfield p offset bits v = Some p' \<and>
      getSignedBitfield p' offset bits = (if bits = 64 \<and> v < 0 then None else Some v)"
    using signed_roundtrip [OF v(1) assms(2) v(2,3) p'(3)] getSignedBitfield_ok [of offset bits p'] assms v(1)
    by (simp add: setSignedBitfield_def)
qed

theorem bitfield_roundtrip_witness:
  "(\<exists>p'. setUnsignedBitfield [0xFF, 0x0F, 0] 5 9 0x155 = Some p' \<and> length p' = 3 \<and> getUnsignedBitfield p' 5 9 = Some 0x155) \<and>
   (\<exists>p'. setSignedBitfield [0xFF, 0x0F, 0] 5 9 (- 100) = Some p' \<and> getSignedBitfield p' 5 9 = Some (- 100))"
proof -
  have "take_bit 9 (0x155 :: u64) = 0x155" by simp
  then show ?thesis
    using bitfield_roundtrip [of 5 9 "[0xFF, 0x0F, 0]" "0x155" "- 100"] by auto
qed

text \<open>The overflow rules of signed fields. For a value and an increment of 64 bits the check
  compares the exact sum with the range of the type and reports no overflow, the wrapped sum, the
  nearer end of the range or a failure, whatever intermediate results wrap. This needs that the
  distance from the value to the maximum fits 64 bits, which a stored value always
  satisfies; wrapping a field of 64 bits shifts by 64, which is undefined.\<close>

lemma signed_overflow_correct:
  assumes "0 < bits" "bits \<le> 64" and "- (2 ^ 63) \<le> incr" "incr < 2 ^ 63"
    and "- (2 ^ 63) \<le> v" "v < 2 ^ 63" and "- (2 ^ (bits - 1)) \<le> v \<and> v < 2 ^ (bits - 1) \<or> incr = 0"
    and "bits = 64 \<or> 2 ^ (bits - 1) - 1 - v < 2 ^ 63"
  shows "checkSignedBitfieldOverflow v incr bits ow =
    (if bits = 64 \<and> ow = BFOVERFLOW_WRAP \<and> \<not> (- (2 ^ 63) \<le> v + incr \<and> v + incr < 2 ^ 63) then None
     else Some (overflow_spec (- (2 ^ (bits - 1))) (2 ^ (bits - 1) - 1) (signed_take_bit (bits - 1) (v + incr)) (v + incr) ow))"
  using signed_overflow_ok [OF assms] .

text \<open>Property C40. Saturation at the wrong end. For a type of fewer than 64 bits and a value so far below its
  range that the distance to the maximum does not fit 64 bits, as in \<open>SET i8 0 -9223372036854775808\<close>, the check
  takes the wrapped distance for an overflow: with SAT the field is set to the maximum of its
  type and not to the minimum, and the sign of the report is wrong.\<close>

theorem signed_saturation_wrong_end:
  assumes "0 < bits" "bits < 64" and "- (2 ^ 63) \<le> v" "2 ^ 63 \<le> 2 ^ (bits - 1) - 1 - v"
  shows "v < - (2 ^ (bits - 1)) \<and>
    checkSignedBitfieldOverflow v 0 bits BFOVERFLOW_SAT = Some (1, Some (2 ^ (bits - 1) - 1)) \<and>
    checkSignedBitfieldOverflow v 0 bits BFOVERFLOW_FAIL = Some (1, None)"
proof -
  define P :: int where "P = 2 ^ (bits - 1)"
  have P: "1 \<le> P" "P \<le> 2 ^ 62"
    using assms(1,2) power_increasing [of "bits - 1" 62 "2 :: int"] by (auto simp: P_def)
  have eq: "(push_bit (bits - 1) 1 :: u64) = word_of_int P" by (simp add: P_def)
  have "sint (push_bit (bits - 1) 1 :: u64) = P"
    unfolding eq by (rule sint_word_of_int_id) (use P in simp_all)
  then have max: "do { m \<leftarrow> top_bit bits; Some (i64 (sint m - 1)) } = Some (P - 1)"
    using top_bit_eq [of bits] assms(1,2) P by (simp add: i64_id del: push_bit_of_1)
  have "i64 (P - 1 - v) = P - 1 - v - 2 ^ 64" using assms(3,4) P unfolding P_def [symmetric] by (intro i64_wrap) auto
  then have "0 > i64 (P - 1 - v)" using assms(3) P by simp
  moreover have "v < - P" using assms(4) P unfolding P_def [symmetric] by simp
  ultimately show ?thesis using assms(2) max P_def
    by (simp add: checkSignedBitfieldOverflow_def Let_def)
qed

theorem signed_saturation_wrong_end_witness:
  "checkSignedBitfieldOverflow (- (2 ^ 63)) 0 8 BFOVERFLOW_SAT = Some (1, Some 127)"
  using signed_saturation_wrong_end [of 8 "- (2 ^ 63)"] by simp

end
