(* ===== verification/Bitcount.thy ===== *)
theory Bitcount
  imports Bitfield
begin

section \<open>Counting and searching bits (bitops.c)\<close>

text \<open>
  The two scanning loops of \<open>Bitfield\<close> against the block as a sequence of bits. The counter adds
  up bytes in parallel inside 32 bit words; that its arithmetic never carries from one byte to
  the next is shown on the bytes of a word, for hosts of either byte order. The search compares
  whole words, then looks at the bits of the first word that differs.
\<close>

subsection \<open>Counting\<close>

lemma unat_byte: "unat (c :: byte) < 256"
  using unsigned_less [of c, where 'a = nat] by simp

lemma bitsinbyte_ok: "bitsinbyte ! unat c = ones (byte_bits c)"
proof -
  have "\<forall>n\<in>set [0..<256]. bitsinbyte ! n = ones (byte_bits (word_of_nat n))" by code_simp
  then have "bitsinbyte ! unat c = ones (byte_bits (word_of_nat (unat c)))"
    using unat_byte [of c] by auto
  then show ?thesis by simp
qed

lemma le_decode_add: "(le_decode (b # bs) :: u32) = ucast b + 256 * le_decode bs"
proof -
  have "(ucast b :: u32) AND push_bit 8 (le_decode bs) = 0"
    by (rule bit_word_eqI) (auto simp: bit_and_iff bit_ucast_iff bit_push_bit_iff dest: bit_imp_le_length)
  then have "(ucast b :: u32) + push_bit 8 (le_decode bs) = le_decode (b # bs)"
    by (simp add: disjunctive_add_eq_or)
  then show ?thesis by (simp add: push_bit_eq_mult mult.commute)
qed

lemma le_decode4: "(le_decode [a, b, c, d] :: u32) = ucast a + 256 * ucast b + 65536 * ucast c + 16777216 * ucast d"
  by (simp add: le_decode_add del: le_decode.simps(2))

lemma ucast_add8: "unat x + unat y < 256 \<Longrightarrow> (ucast (x + y :: byte) :: u32) = ucast x + ucast y"
proof -
  assume "unat x + unat y < 256"
  then have "unat (x + y) = unat x + unat y" by (simp add: unat_word_ariths(1))
  then have "(word_of_nat (unat (x + y)) :: u32) = word_of_nat (unat x) + word_of_nat (unat y)" by simp
  then show ?thesis by simp
qed

lemma ucast_sub8: "unat y \<le> unat x \<Longrightarrow> (ucast (x - y :: byte) :: u32) = ucast x - ucast y"
proof -
  assume y: "unat y \<le> unat x"
  have "unat (x - y) + unat y < 256" using y unat_byte [of x] by (simp add: unat_sub word_le_nat_alt)
  from ucast_add8 [OF this] show ?thesis by simp
qed

lemma byte_all:
  assumes "\<forall>n\<in>set [0..<256]. P (word_of_nat n :: byte)"
  shows "P b"
proof -
  have "unat b \<in> set [0..<256]" using unat_byte [of b] by simp
  then have "P (word_of_nat (unat b))" using assms by blast
  then show ?thesis by simp
qed

text \<open>The steps of the counter on one byte.\<close>

definition pop1 :: "byte \<Rightarrow> byte" where "pop1 b = b - (drop_bit 1 b AND 0x55)"
definition pop2 :: "byte \<Rightarrow> byte" where "pop2 b = (b AND 0x33) + (drop_bit 2 b AND 0x33)"
definition pop4 :: "byte \<Rightarrow> byte" where "pop4 b = (b + drop_bit 4 b) AND 0x0F"

lemma pop_check: "list_all2 (\<lambda>b k. drop_bit 1 b AND 0x55 \<le> b \<and> (let c = pop2 (pop1 b) in
    c \<le> 0x44 \<and> c AND 0x0F \<le> 4 \<and> pop4 c = k)) (map word_of_int [0..255]) (map of_nat bitsinbyte)"
  by (simp add: bitsinbyte_def upto_rec1 pop1_def pop2_def pop4_def)

lemma pop_bytes:
  "drop_bit 1 b AND 0x55 \<le> b" "pop2 (pop1 b) \<le> 0x44" "pop2 (pop1 b) AND 0x0F \<le> 4"
  "pop4 (pop2 (pop1 b)) = of_nat (ones (byte_bits b))"
proof -
  have n: "unat b < 256" by (rule unat_byte)
  have "length bitsinbyte = 256" by (simp add: bitsinbyte_def)
  moreover have "[0..255] ! unat b = int (unat b)" using uint_lt2p [of b] by (subst nth_upto) simp_all
  moreover have "(word_of_int (int (unat b)) :: byte) = b" by simp
  ultimately have "drop_bit 1 b AND 0x55 \<le> b \<and> (let c = pop2 (pop1 b) in c \<le> 0x44 \<and> c AND 0x0F \<le> 4 \<and>
      pop4 c = of_nat (bitsinbyte ! unat b))"
    using list_all2_nthD [OF pop_check, of "unat b"] n by (simp del: of_nat_unat)
  then show "drop_bit 1 b AND 0x55 \<le> b" "pop2 (pop1 b) \<le> 0x44" "pop2 (pop1 b) AND 0x0F \<le> 4"
      "pop4 (pop2 (pop1 b)) = of_nat (ones (byte_bits b))"
    by (simp_all add: Let_def bitsinbyte_ok)
qed

text \<open>The operations of the counter act on each byte of a word alone.\<close>

lemma and_bytes:
  fixes m :: byte
  shows "(le_decode [a, b, c, d] :: u32) AND le_decode [m, m, m, m] = le_decode [a AND m, b AND m, c AND m, d AND m]"
proof (rule bit_word_eqI)
  fix k assume "k < LENGTH(32)"
  then have k: "k < 32" by simp
  then have "k div 8 \<in> {0, 1, 2, 3}" by auto
  then show "bit ((le_decode [a, b, c, d] :: u32) AND le_decode [m, m, m, m]) k =
      bit (le_decode [a AND m, b AND m, c AND m, d AND m] :: u32) k"
    using k by (auto simp: bit_and_iff bit_le_decode numeral_2_eq_2 numeral_3_eq_3 simp del: le_decode.simps)
qed

lemma div8: "r < 8 \<Longrightarrow> (8 * q + r) div 8 = (q :: nat)" "r < 8 \<Longrightarrow> (8 * q + r) mod 8 = (r :: nat)"
  by simp_all

lemma shift_and_bytes:
  fixes m :: byte
  assumes "n < 8" and "\<And>i. bit m i \<Longrightarrow> i + n < 8"
  shows "drop_bit n (le_decode [a, b, c, d] :: u32) AND le_decode [m, m, m, m] =
    le_decode [drop_bit n a AND m, drop_bit n b AND m, drop_bit n c AND m, drop_bit n d AND m]"
proof (rule bit_word_eqI)
  fix k assume "k < LENGTH(32)"
  then have k: "k < 32" by simp
  then have d: "k div 8 \<in> {0, 1, 2, 3}" by auto
  show "bit (drop_bit n (le_decode [a, b, c, d] :: u32) AND le_decode [m, m, m, m]) k =
      bit (le_decode [drop_bit n a AND m, drop_bit n b AND m, drop_bit n c AND m, drop_bit n d AND m] :: u32) k"
  proof (cases "bit m (k mod 8)")
    case True
    then have "k mod 8 + n < 8" using assms(2) by blast
    then have lt: "n + k mod 8 < 8" by simp
    have nk: "n + k = 8 * (k div 8) + (n + k mod 8)" by simp
    have "(8 * (k div 8) + (n + k mod 8)) div 8 = k div 8" "(8 * (k div 8) + (n + k mod 8)) mod 8 = n + k mod 8"
      by (rule div8 [OF lt])+
    then have "(n + k) div 8 = k div 8" "(n + k) mod 8 = n + k mod 8" unfolding nk [symmetric] .
    moreover have "n + k < 32"
    proof -
      have "k div 8 \<le> 3" using k by simp
      then show ?thesis using lt nk by linarith
    qed
    ultimately show ?thesis using k d True
      by (auto simp: bit_and_iff bit_drop_bit_eq bit_le_decode numeral_2_eq_2 numeral_3_eq_3 simp del: le_decode.simps)
  next
    case False
    then show ?thesis using k d
      by (auto simp: bit_and_iff bit_drop_bit_eq bit_le_decode numeral_2_eq_2 numeral_3_eq_3 simp del: le_decode.simps)
  qed
qed

lemma shift4_bytes:
  "drop_bit 4 (le_decode [a, b, c, d] :: u32) =
    le_decode [drop_bit 4 a OR push_bit 4 b, drop_bit 4 b OR push_bit 4 c, drop_bit 4 c OR push_bit 4 d, drop_bit 4 d]"
proof (rule bit_word_eqI)
  fix k assume "k < LENGTH(32)"
  then have k: "k < 32" by simp
  then have d: "k div 8 \<in> {0, 1, 2, 3}" by auto
  have k8: "k = 8 * (k div 8) + k mod 8" by simp
  show "bit (drop_bit 4 (le_decode [a, b, c, d] :: u32)) k =
      bit (le_decode [drop_bit 4 a OR push_bit 4 b, drop_bit 4 b OR push_bit 4 c, drop_bit 4 c OR push_bit 4 d, drop_bit 4 d] :: u32) k"
  proof (cases "k mod 8 < 4")
    case True
    then have "4 + k mod 8 < 8" by simp
    note q = div8 [OF this, of "k div 8"]
    have e: "4 + k = 8 * (k div 8) + (4 + k mod 8)" by simp
    have "(4 + k) div 8 = k div 8" "(4 + k) mod 8 = 4 + k mod 8" using q unfolding e [symmetric] .
    moreover have "4 + k < 32"
    proof -
      have "k div 8 \<le> 3" using k by simp
      then show ?thesis using True e by linarith
    qed
    ultimately show ?thesis using k d True
      by (auto simp: bit_or_iff bit_drop_bit_eq bit_push_bit_iff bit_le_decode numeral_2_eq_2 numeral_3_eq_3 simp del: le_decode.simps)
  next
    case False
    have "k mod 8 < 8" by simp
    then have "k mod 8 - 4 < 8" by simp
    note q = div8 [OF this, of "Suc (k div 8)"]
    have e: "4 + k = 8 * Suc (k div 8) + (k mod 8 - 4)"
    proof -
      obtain s where s: "k mod 8 = 4 + s" using False le_Suc_ex [of 4 "k mod 8"] by auto
      then have "k = 8 * (k div 8) + (4 + s)" using k8 by simp
      then show ?thesis unfolding s by simp
    qed
    have "(4 + k) div 8 = Suc (k div 8)" "(4 + k) mod 8 = k mod 8 - 4" using q unfolding e [symmetric] .
    moreover have "\<not> bit x (4 + k mod 8)" for x :: byte using False bit_imp_le_length [of x "4 + k mod 8"] by auto
    moreover have "4 + k < 32 \<longleftrightarrow> k div 8 \<noteq> 3" 
    proof -
      have "k div 8 \<le> 3" "k mod 8 - 4 < 8" using d \<open>k mod 8 - 4 < 8\<close> by auto
      moreover have "k mod 8 - 4 < 4" using \<open>k mod 8 < 8\<close> by linarith
      moreover have "m < 32 \<longleftrightarrow> q \<noteq> 3" if "q \<le> 3" "r < 4" "m = 8 * Suc q + r" for m q r :: nat using that by auto
      ultimately show ?thesis using e by blast
    qed
    ultimately show ?thesis using k d False
      by (auto simp: bit_or_iff bit_drop_bit_eq bit_push_bit_iff bit_le_decode numeral_2_eq_2 numeral_3_eq_3 simp del: le_decode.simps)
  qed
qed

lemma add_bytes:
  assumes "unat a + unat a' < 256" "unat b + unat b' < 256" "unat c + unat c' < 256" "unat d + unat d' < 256"
  shows "(le_decode [a, b, c, d] :: u32) + le_decode [a', b', c', d'] = le_decode [a + a', b + b', c + c', d + d']"
  using assms by (simp add: le_decode4 ucast_add8 algebra_simps del: le_decode.simps)

lemma sub_bytes:
  assumes "a' \<le> a" "b' \<le> b" "c' \<le> c" "d' \<le> d"
  shows "(le_decode [a, b, c, d] :: u32) - le_decode [a', b', c', d'] = le_decode [a - a', b - b', c - c', d - d']"
  using assms by (simp add: le_decode4 ucast_sub8 word_le_nat_alt algebra_simps del: le_decode.simps)

lemma masks: "(0x55555555 :: u32) = le_decode [0x55, 0x55, 0x55, 0x55]" "(0x33333333 :: u32) = le_decode [0x33, 0x33, 0x33, 0x33]"
  "(0x0F0F0F0F :: u32) = le_decode [0x0F, 0x0F, 0x0F, 0x0F]"
  by (simp_all add: le_decode4 del: le_decode.simps)

lemma bit_of_mask: "bit (0x55 :: byte) i \<Longrightarrow> i + 1 < 8" "bit (0x33 :: byte) i \<Longrightarrow> i + 2 < 8"
proof -
  have "i < 8" if "bit (m :: byte) i" for m using that bit_imp_le_length [of m i] by simp
  moreover have "i \<in> {0, 1, 2, 3, 4, 5, 6, 7}" if "i < 8" using that by auto
  ultimately show "bit (0x55 :: byte) i \<Longrightarrow> i + 1 < 8" "bit (0x33 :: byte) i \<Longrightarrow> i + 2 < 8" by fastforce+
qed

lemma pop4_sum:
  fixes y y' :: byte
  assumes "y \<le> 0x44" "y' AND 0x0F \<le> 4"
  shows "unat y + unat (drop_bit 4 y OR push_bit 4 y') < 256" "(y + (drop_bit 4 y OR push_bit 4 y')) AND 0x0F = pop4 y"
proof -
  have dis: "drop_bit 4 y AND push_bit 4 y' = 0"
    by (rule bit_word_eqI) (auto simp: bit_and_iff bit_drop_bit_eq bit_push_bit_iff dest: bit_imp_le_length)
  then have plus: "drop_bit 4 y OR push_bit 4 y' = drop_bit 4 y + push_bit 4 y'" by (simp add: disjunctive_add_eq_or)
  have m: "(0x0F :: byte) = mask 4" by (simp add: mask_eq_exp_minus_1)
  have p: "push_bit 4 y' = push_bit 4 (y' AND 0x0F)"
    unfolding m by (rule bit_word_eqI) (auto simp: bit_push_bit_iff bit_and_iff bit_mask_iff)
  have "unat (push_bit 4 y') \<le> 64"
  proof -
    have "unat (y' AND 0x0F) \<le> 4" using assms(2) by (simp add: word_le_nat_alt)
    then show ?thesis unfolding p by (simp add: push_bit_eq_mult unat_word_ariths)
  qed
  moreover have "unat (drop_bit 4 y) \<le> 4"
    using assms(1) div_le_mono [of "unat y" "0x44" 16] by (simp add: word_le_nat_alt unat_div_distrib drop_bit_eq_div)
  ultimately show "unat y + unat (drop_bit 4 y OR push_bit 4 y') < 256"
    using assms(1) unfolding plus by (simp add: word_le_nat_alt unat_word_ariths)
  have "take_bit 4 (x + push_bit 4 y') = take_bit 4 x" for x :: byte
  proof (rule iffD2 [OF word_unat_eq_iff])
    have d: "(16 :: nat) dvd 256" by simp
    have "unat (take_bit 4 (x + push_bit 4 y')) = (unat x + (unat y' * 16) mod 256) mod 256 mod 16"
      by (simp add: unsigned_take_bit_eq take_bit_eq_mod unat_word_ariths push_bit_eq_mult)
    also have "\<dots> = (unat x + unat y' * 16) mod 16"
      unfolding mod_mod_cancel [OF d] by (metis d mod_add_right_eq mod_mod_cancel)
    also have "\<dots> = unat (take_bit 4 x)" by (simp add: take_bit_eq_mod unat_mod_distrib)
    finally show "unat (take_bit 4 (x + push_bit 4 y')) = unat (take_bit 4 x)" .
  qed
  then have "take_bit 4 (y + drop_bit 4 y + push_bit 4 y') = take_bit 4 (y + drop_bit 4 y)" by blast
  then show "(y + (drop_bit 4 y OR push_bit 4 y')) AND 0x0F = pop4 y"
    unfolding plus pop4_def m by (simp add: take_bit_eq_mask add.assoc)
qed

lemma pop_aux_bytes:
  "pop_aux (le_decode [a, b, c, d]) = le_decode (map (\<lambda>x. of_nat (ones (byte_bits x))) [a, b, c, d])"
proof -
  let ?w1 = "le_decode [pop1 a, pop1 b, pop1 c, pop1 d] :: u32"
  let ?w2 = "le_decode [pop2 (pop1 a), pop2 (pop1 b), pop2 (pop1 c), pop2 (pop1 d)] :: u32"
  have 1: "le_decode [a, b, c, d] - (drop_bit 1 (le_decode [a, b, c, d]) AND 0x55555555) = ?w1"
    unfolding masks(1) using bit_of_mask(1)
    by (subst shift_and_bytes) (auto simp: sub_bytes pop_bytes(1) pop1_def simp del: le_decode.simps One_nat_def)
  have nc: "unat (x AND 0x33) + unat (drop_bit 2 x AND 0x33) < 256" for x :: byte
  proof -
    have "z AND 0x33 \<le> (0x33 :: byte)" for z by (rule word_and_le1)
    then have "unat (z AND 0x33 :: byte) \<le> 0x33" for z by (simp add: word_le_nat_alt)
    from this [of x] this [of "drop_bit 2 x"] show ?thesis by linarith
  qed
  have 2: "(?w1 AND 0x33333333) + (drop_bit 2 ?w1 AND 0x33333333) = ?w2"
    unfolding masks(2) using bit_of_mask(2)
    by (subst shift_and_bytes) (auto simp: and_bytes add_bytes nc pop2_def simp del: le_decode.simps)
  have 3: "(?w2 + drop_bit 4 ?w2) AND 0x0F0F0F0F =
      le_decode [pop4 (pop2 (pop1 a)), pop4 (pop2 (pop1 b)), pop4 (pop2 (pop1 c)), pop4 (pop2 (pop1 d))]"
  proof -
    note s = pop4_sum [OF pop_bytes(2) pop_bytes(3)]
    have z: "pop2 (pop1 d) \<le> 0x44" "(0 :: byte) AND 0x0F \<le> 4" by (simp_all add: pop_bytes(2))
    have "drop_bit 4 ?w2 = le_decode [drop_bit 4 (pop2 (pop1 a)) OR push_bit 4 (pop2 (pop1 b)),
        drop_bit 4 (pop2 (pop1 b)) OR push_bit 4 (pop2 (pop1 c)), drop_bit 4 (pop2 (pop1 c)) OR push_bit 4 (pop2 (pop1 d)),
        drop_bit 4 (pop2 (pop1 d)) OR push_bit 4 0]"
      by (simp add: shift4_bytes del: le_decode.simps)
    then show ?thesis unfolding masks(3) using s(1) pop4_sum(1) [OF z]
      by (simp only: add_bytes and_bytes s(2) pop4_sum(2) [OF z])
  qed
  show ?thesis using 1 2 3 by (simp add: pop_aux_def pop_bytes(4) Let_def del: le_decode.simps)
qed

text \<open>A 32 bit word as four numbers, and what the multiplication makes of it.\<close>

definition quad :: "nat \<Rightarrow> nat \<Rightarrow> nat \<Rightarrow> nat \<Rightarrow> u32" where
  "quad a b c d = of_nat (a + 256 * b + 65536 * c + 16777216 * d)"

lemma quad_add: "quad a b c d + quad a' b' c' d' = quad (a + a') (b + b') (c + c') (d + d')"
  by (simp add: quad_def algebra_simps)

lemma quad_top:
  assumes "a + b + c + d < 256"
  shows "unat (drop_bit 24 (quad a b c d * 0x01010101)) = a + b + c + d"
proof -
  let ?lo = "a + 256 * (a + b) + 65536 * (a + b + c)"
  let ?l = "?lo + 16777216 * (a + b + c + d)"
  have "quad a b c d * 0x01010101 = of_nat ((a + 256 * b + 65536 * c + 16777216 * d) * 0x01010101)"
    by (simp only: quad_def of_nat_mult of_nat_numeral)
  also have "(a + 256 * b + 65536 * c + 16777216 * d) * 0x01010101 = ?l + 4294967296 * (b + c + d + 256 * (c + d) + 65536 * d)"
    by (simp add: algebra_simps)
  also have "(of_nat \<dots> :: u32) = of_nat ?l"
  proof -
    have "(4294967296 :: u32) = 0" by simp
    then show ?thesis by (simp only: of_nat_add of_nat_mult of_nat_numeral mult_zero_left add_0_right)
  qed
  finally have q: "quad a b c d * 0x01010101 = of_nat ?l" .
  have "?l < 2 ^ LENGTH(32)" using assms by simp
  then have "unat (quad a b c d * 0x01010101) = ?l" unfolding q by (simp only: unat_of_nat take_bit_nat_eq_self mod_less)
  moreover have "?l div 16777216 = a + b + c + d" using assms by simp
  ultimately show ?thesis by (simp add: drop_bit_eq_div unat_div_distrib)
qed

lemma pop_aux_quad:
  assumes "length bs = 4"
  obtains a b c d where "pop_aux (obj_value he bs) = quad a b c d" "a + b + c + d = ones (bits_of bs)"
proof -
  have q: "pop_aux (le_decode [a, b, c, d]) =
      quad (ones (byte_bits a)) (ones (byte_bits b)) (ones (byte_bits c)) (ones (byte_bits d))" for a b c d
  proof -
    have "ones (byte_bits x) < 256" for x using length_filter_le [of id "byte_bits x"] by (simp add: ones_def)
    then have "(ucast (of_nat (ones (byte_bits x)) :: byte) :: u32) = of_nat (ones (byte_bits x))" for x
      by (simp add: unsigned_of_nat take_bit_nat_eq_self)
    then show ?thesis unfolding pop_aux_bytes by (simp add: le_decode4 quad_def del: le_decode.simps)
  qed
  obtain w x y z where bs: "bs = [w, x, y, z]" using assms by (auto simp: numeral_eq_Suc length_Suc_conv)
  show ?thesis
  proof (cases he)
    case LittleEndian
    then show ?thesis using that [OF _ _] q [of w x y z] by (simp add: bs obj_value_def)
  next
    case BigEndian
    then show ?thesis using that [OF _ _] q [of z y x w] by (simp add: bs obj_value_def)
  qed
qed

lemma popcount_28_ok:
  assumes "28 \<le> length p"
  shows "unat (popcount_28 he p) = ones (bits_of (take 28 p))"
proof -
  have "\<forall>i. \<exists>t. i < 7 \<longrightarrow> pop_aux (load32 he p i) = (case t of (a, b, c, d) \<Rightarrow> quad a b c d) \<and>
      (case t of (a, b, c, d) \<Rightarrow> a + b + c + d) = ones (bits_of (take 4 (drop (4 * i) p)))"
  proof
    fix i :: nat
    let ?bs = "take 4 (drop (4 * i) p)"
    show "\<exists>t. i < 7 \<longrightarrow> pop_aux (load32 he p i) = (case t of (a, b, c, d) \<Rightarrow> quad a b c d) \<and>
      (case t of (a, b, c, d) \<Rightarrow> a + b + c + d) = ones (bits_of ?bs)"
    proof (cases "i < 7")
      case True
      then have "length ?bs = 4" using assms by simp
      then obtain a b c d where "pop_aux (obj_value he ?bs) = quad a b c d" "a + b + c + d = ones (bits_of ?bs)"
        by (rule pop_aux_quad)
      then show ?thesis by (intro exI [of _ "(a, b, c, d)"]) (simp add: load32_def)
    qed simp
  qed
  from choice [OF this] obtain t where t: "\<And>i. i < 7 \<Longrightarrow> pop_aux (load32 he p i) = (case t i of (a, b, c, d) \<Rightarrow> quad a b c d)"
    "\<And>i. i < 7 \<Longrightarrow> (case t i of (a, b, c, d) \<Rightarrow> a + b + c + d) = ones (bits_of (take 4 (drop (4 * i) p)))" by blast
  define a b c d where "a i = fst (t i)" and "b i = fst (snd (t i))" and "c i = fst (snd (snd (t i)))" and "d i = snd (snd (snd (t i)))" for i
  have q: "\<And>i. i < 7 \<Longrightarrow> pop_aux (load32 he p i) = quad (a i) (b i) (c i) (d i)"
    "\<And>i. i < 7 \<Longrightarrow> a i + b i + c i + d i = ones (bits_of (take 4 (drop (4 * i) p)))"
    using t by (simp_all add: a_def b_def c_def d_def split_beta)
  let ?s = "\<lambda>f. f 0 + f 1 + f 2 + f 3 + f 4 + f 5 + f (6 :: nat) :: nat"
  have sum: "ones (bits_of (take 28 p)) = ?s a + ?s b + ?s c + ?s d"
  proof -
    have "take 28 p = take 4 p @ take 4 (drop 4 p) @ take 4 (drop 8 p) @ take 4 (drop 12 p) @ take 4 (drop 16 p) @
        take 4 (drop 20 p) @ take 4 (drop 24 p)"
      using take_add [of 4 24 p] take_add [of 4 20 "drop 4 p"] take_add [of 4 16 "drop 8 p"] take_add [of 4 12 "drop 12 p"]
        take_add [of 4 8 "drop 16 p"] take_add [of 4 4 "drop 20 p"] by simp
    then show ?thesis using q(2) [of 0] q(2) [of 1] q(2) [of 2] q(2) [of 3] q(2) [of 4] q(2) [of 5] q(2) [of 6] by simp
  qed
  have "popcount_28 he p = drop_bit 24 (quad (?s a) (?s b) (?s c) (?s d) * 0x01010101)"
    by (simp add: popcount_28_def q(1) quad_add)
  moreover have "ones (bits_of (take 28 p)) < 256"
    using assms length_filter_le [of id "bits_of (take 28 p)"] by (simp add: ones_def)
  ultimately show ?thesis using quad_top sum by simp
qed

lemma popcount_words_ok: "popcount_words he p bits = (q, n) \<Longrightarrow> n + ones (bits_of q) = bits + ones (bits_of p)"
proof (induction he p bits rule: popcount_words.induct)
  case (1 he p bits)
  have "ones (bits_of p) = ones (bits_of (take 28 p)) + ones (bits_of (drop 28 p))"
    by (metis append_take_drop_id bits_of_append(1) ones_append(1))
  moreover note popcount_words.simps [of he p bits]
  ultimately show ?case using 1(1) popcount_28_ok [of p he] 1(2) by (cases "28 \<le> length p") simp_all
qed

lemma popcount_head_ok: "popcount_head s p bits = (q, n) \<Longrightarrow> n + ones (bits_of q) = bits + ones (bits_of p)"
  by (induction s p bits rule: popcount_head.induct) (auto simp: bitsinbyte_ok split: if_splits)

lemma popcount_bytes_ok: "popcount_bytes p bits = bits + ones (bits_of p)"
  by (induction p bits rule: popcount_bytes.induct) (auto simp: bitsinbyte_ok)

lemma redisPopcount_ok: "redisPopcount he s p = ones (bits_of p)"
  using popcount_words_ok [of he] popcount_head_ok [of s p 0]
  by (auto simp: redisPopcount_def popcount_bytes_ok split: prod.split)

subsection \<open>Searching\<close>

text \<open>The position the search has to find: the first \<open>b\<close>; with no 1 in the block the answer is -1, with
  no 0 the bit right after the block, since the block counts as padded with zeros.\<close>

definition bitpos_spec :: "bool \<Rightarrow> bool list \<Rightarrow> int" where
  "bitpos_spec b bs = (if b \<in> set bs then int (length (takeWhile (\<lambda>x. x \<noteq> b) bs)) else if b then - 1 else int (length bs))"

lemma set_bits_of: "set (bits_of p) = {bit c i |c i. c \<in> set p \<and> i < 8}"
proof -
  have "set (byte_bits c) = {bit c i |i. i < 8}" for c
  proof -
    have "(\<lambda>i. 7 - i) ` {0..<8} = {0..<8 :: nat}" 
    proof
      show "{0..<8} \<subseteq> (\<lambda>i. 7 - i) ` {0..<8 :: nat}"
      proof
        fix i :: nat
        assume "i \<in> {0..<8}"
        then show "i \<in> (\<lambda>i. 7 - i) ` {0..<8}" by (intro image_eqI [of _ _ "7 - i"]) auto
      qed
    qed auto
    then have "(\<lambda>i. bit c (7 - i)) ` {0..<8} = bit c ` {0..<8}" unfolding image_image [symmetric] by simp
    then show ?thesis by (auto simp: byte_bits_def)
  qed
  then show ?thesis by (auto simp: bits_of_def)
qed

lemma skip_word:
  assumes "length bs = 8"
  shows "(obj_value he bs :: u64) = (if b then 0 else - 1) \<longleftrightarrow> b \<notin> set (bits_of bs)"
proof -
  have le: "(le_decode cs :: u64) = (if b then 0 else - 1) \<longleftrightarrow> b \<notin> set (bits_of cs)" if "length cs = 8" for cs
  proof
    assume w: "(le_decode cs :: u64) = (if b then 0 else - 1)"
    have "bit (cs ! j) i \<noteq> b" if "i < 8" "j < 8" for i j
    proof -
      have "bit (le_decode cs :: u64) (8 * j + i) \<longleftrightarrow> bit (cs ! j) i"
        using that \<open>length cs = 8\<close> by (simp add: bit_le_decode)
      then show ?thesis using w that by (cases b) simp_all
    qed
    then show "b \<notin> set (bits_of cs)" using that by (auto simp: set_bits_of in_set_conv_nth)
  next
    assume b: "b \<notin> set (bits_of cs)"
    have "bit (cs ! (k div 8)) (k mod 8) \<noteq> b" if "k < 64" for k
    proof -
      have "cs ! (k div 8) \<in> set cs" using that \<open>length cs = 8\<close> by simp
      moreover have "k mod 8 < 8" by simp
      ultimately show ?thesis using b by (auto simp del: mod_less_divisor simp: set_bits_of)
    qed
    then show "(le_decode cs :: u64) = (if b then 0 else - 1)"
      using that by (intro bit_word_eqI) (auto simp: bit_le_decode)
  qed
  have "set (bits_of (rev bs)) = set (bits_of bs)" by (simp add: set_bits_of)
  then show ?thesis using le [of bs] le [of "rev bs"] assms by (cases he) (simp_all add: obj_value_def)
qed

lemma skip_byte: "c = (if b then 0 else 255) \<longleftrightarrow> b \<notin> set (byte_bits c)"
proof
  assume "c = (if b then 0 else 255)"
  then show "b \<notin> set (byte_bits c)" by (cases b) (auto simp: byte_bits_def upt_rec numeral_eq_Suc)
next
  assume b: "b \<notin> set (byte_bits c)"
  have i: "bit c i \<noteq> b" if "i < 8" for i
    using b that set_bits_of [of "[c]"] by auto
  have m: "(255 :: byte) = - 1" by simp
  show "c = (if b then 0 else 255)"
    unfolding m by (rule bit_word_eqI) (use i in auto)
qed

lemma bitpos_head_ok:
  "bitpos_head s (if b then 0 else 255) p pos = (q, pos', found) \<Longrightarrow>
    \<exists>r. p = r @ q \<and> b \<notin> set (bits_of r) \<and> pos' = pos + 8 * int (length r) \<and> (found \<longrightarrow> b \<in> set (take 64 (bits_of q)))"
proof (induction p arbitrary: s pos)
  case (Cons c p)
  show ?case
  proof (cases "s mod 8 \<noteq> 0 \<and> b \<notin> set (byte_bits c)")
    case True
    then obtain r where "p = r @ q \<and> b \<notin> set (bits_of r) \<and> pos' = (pos + 8) + 8 * int (length r) \<and> (found \<longrightarrow> b \<in> set (take 64 (bits_of q)))"
      using Cons skip_byte [of c b] by (auto split: if_splits)
    then show ?thesis using True by (intro exI [of _ "c # r"]) auto
  next
    case False
    have "set (byte_bits c) \<subseteq> set (take 64 (bits_of (c # p)))" by simp
    then show ?thesis using Cons.prems False skip_byte [of c b]
      by (intro exI [of _ "[]"]) (auto split: if_splits)
  qed
qed simp

lemma bitpos_words_ok:
  "bitpos_words he (if b then 0 else - 1) p pos = (q, pos') \<Longrightarrow>
    \<exists>r. p = r @ q \<and> b \<notin> set (bits_of r) \<and> pos' = pos + 8 * int (length r) \<and> (b \<in> set (take 64 (bits_of q)) \<or> length q < 8)"
proof (induction he "if b then 0 else - 1 :: u64" p pos rule: bitpos_words.induct)
  case (1 he p pos)
  note eq = bitpos_words.simps [of he "if b then 0 else - 1" p pos]
  have t: "bits_of (take 8 p) = take 64 (bits_of p)" if "8 \<le> length p"
  proof -
    have "bits_of p = bits_of (take 8 p) @ bits_of (drop 8 p)" by (metis append_take_drop_id bits_of_append(1))
    moreover have "length (bits_of (take 8 p)) = 64" using that by simp
    ultimately show ?thesis by (metis append_eq_conv_conj)
  qed
  show ?case
  proof (cases "8 \<le> length p \<and> b \<notin> set (bits_of (take 8 p))")
    case True
    then have w: "(obj_value he (take 8 p) :: u64) = (if b then 0 else - 1)" using skip_word [of "take 8 p"] by simp
    then obtain r where r: "drop 8 p = r @ q \<and> b \<notin> set (bits_of r) \<and> pos' = pos + 64 + 8 * int (length r) \<and>
        (b \<in> set (take 64 (bits_of q)) \<or> length q < 8)"
      using 1 True eq by auto
    then have "p = (take 8 p @ r) @ q" by (metis append_assoc append_take_drop_id)
    then show ?thesis using r True by (intro exI [of _ "take 8 p @ r"]) auto
  next
    case False
    then show ?thesis using 1(2) eq t skip_word [of "take 8 p" he b]
      by (intro exI [of _ "[]"]) (cases "8 \<le> length p"; simp)
  qed
qed

lemma bitpos_load_ok:
  "n \<le> 8 \<Longrightarrow> bit (bitpos_load n p word) i \<longleftrightarrow>
    i < 64 \<and> (if i < 8 * n then (bits_of p @ replicate 64 False) ! (8 * n - 1 - i) else bit word (i - 8 * n))"
proof (induction n p word rule: bitpos_load.induct)
  case (1 p word)
  then show ?case by (auto dest: bit_imp_le_length)
next
  case (2 j p word)
  show ?case
  proof (cases p)
    case Nil
    have "bit (bitpos_load (Suc j) p word) i \<longleftrightarrow> i < 64 \<and> (if i < 8 * j then False else bit (push_bit 8 word) (i - 8 * j))"
      using Nil 2 by simp
    also have "\<dots> \<longleftrightarrow> i < 64 \<and> \<not> i < 8 + 8 * j \<and> bit word (i - (8 + 8 * j))"
    proof -
      have "i - 8 * j - 8 = i - (8 + 8 * j)" "8 \<le> i - 8 * j \<longleftrightarrow> \<not> i < 8 + 8 * j" by (simp_all, linarith)
      then show ?thesis by (auto simp: bit_push_bit_iff)
    qed
    finally show ?thesis using Nil 2 by simp
  next
    case (Cons c q)
    have hi: "(bits_of p @ replicate 64 False) ! (8 * Suc j - 1 - i) = (bits_of q @ replicate 64 False) ! (8 * j - 1 - i)"
      if "i < 8 * j"
    proof -
      have i: "8 * Suc j - 1 - i = length (byte_bits c) + (8 * j - 1 - i)" using that by simp
      show ?thesis unfolding i Cons bits_of_append(3) append_assoc by (rule nth_append_length_plus)
    qed
    have lo: "(bits_of p @ replicate 64 False) ! (8 * Suc j - 1 - i) = bit c (i - 8 * j)"
      if "8 * j \<le> i" "i < 8 * Suc j"
    proof -
      have i: "8 * Suc j - 1 - i < 8" "7 - (8 * Suc j - 1 - i) = i - 8 * j" using that by simp_all
      then have "byte_bits c ! (8 * Suc j - 1 - i) = bit c (i - 8 * j)" by (simp add: byte_bits_def)
      then show ?thesis using i(1) Cons by (simp add: nth_append)
    qed
    have F: "bit (bitpos_load (Suc j) p word) i \<longleftrightarrow> i < 64 \<and> (if i < 8 * j then (bits_of q @ replicate 64 False) ! (8 * j - 1 - i)
        else bit (push_bit 8 word OR ucast c) (i - 8 * j))"
      using 2 Cons by simp
    have mid: "bit (push_bit 8 word OR ucast c) (i - 8 * j) = bit c (i - 8 * j)" if "8 * j \<le> i" "i < 8 * Suc j"
      using that by (auto simp: bit_or_iff bit_push_bit_iff bit_ucast_iff)
    have top: "bit (push_bit 8 word OR ucast c) (i - 8 * j) = bit word (i - 8 * Suc j)" if "8 * Suc j \<le> i" "i < 64"
    proof -
      define d where "d = i - 8 * Suc j"
      have d: "i = 8 * Suc j + d" unfolding d_def using that(1) by (rule le_add_diff_inverse [symmetric])
      have "\<not> bit c (8 + d)" using bit_imp_le_length [of c "8 + d"] by auto
      then show ?thesis 
        using that(2) unfolding d bit_or_iff bit_push_bit_iff bit_ucast_iff by (simp add: algebra_simps)
    qed
    consider "i < 8 * j" "i < 8 * Suc j" | "\<not> i < 8 * j" "i < 8 * Suc j" | "\<not> i < 8 * j" "\<not> i < 8 * Suc j" by fastforce
    then show ?thesis
    proof cases
      case 1
      show ?thesis unfolding F hi [OF 1(1)] using 1 by (simp only: if_True)
    next
      case 2
      then have "8 * j \<le> i" by simp
      then show ?thesis unfolding F using 2 mid lo by (simp only: if_True if_False)
    next
      case 3
      then have "8 * Suc j \<le> i" by simp
      then show ?thesis unfolding F using 3 top by (auto simp only: if_True if_False)
    qed
  qed
qed

lemma bitpos_load_bits: "map (bit (bitpos_load 8 p 0)) (rev [0..<64]) = take 64 (bits_of p @ replicate 64 False)"
proof (rule nth_equalityI)
  fix i assume "i < length (map (bit (bitpos_load 8 p 0)) (rev [0..<64]))"
  then have i: "i < 64" by simp
  then have "63 - i < 64" "64 - 1 - (63 - i) = i" by linarith+
  then have "bit (bitpos_load 8 p 0) (63 - i) = (bits_of p @ replicate 64 False) ! i"
    using bitpos_load_ok [of 8 p 0 "63 - i"] by simp
  moreover have "map (bit (bitpos_load 8 p 0)) (rev [0..<64]) ! i = bit (bitpos_load 8 p 0) (63 - i)"
    using i by (simp add: rev_nth)
  ultimately show "map (bit (bitpos_load 8 p 0)) (rev [0..<64]) ! i = take 64 (bits_of p @ replicate 64 False) ! i"
    using i by (simp only: nth_take)
qed simp

lemma bitpos_scan_ok:
  fixes word :: u64
  assumes "m < 64"
  shows "bitpos_scan (push_bit m 1) word b pos =
    (let bs = map (bit word) (rev [0..<Suc m]) in
     if b \<in> set bs then Some (pos + int (length (takeWhile (\<lambda>x. x \<noteq> b) bs))) else None)"
  using assms
proof (induction m arbitrary: pos)
  case 0
  have "bitpos_scan (drop_bit 1 (push_bit 0 1)) word b (pos + 1) = None" by (subst bitpos_scan.simps) simp
  then show ?case using and_bit [of word 0] by (subst bitpos_scan.simps) (auto simp: and.commute)
next
  case (Suc m)
  have d: "drop_bit 1 (push_bit (Suc m) (1 :: u64)) = push_bit m 1"
  proof (rule bit_word_eqI)
    fix n assume "n < LENGTH(64)"
    then show "bit (drop_bit 1 (push_bit (Suc m) (1 :: u64))) n = bit (push_bit m (1 :: u64)) n"
      using Suc.prems by (auto simp: bit_drop_bit_eq bit_push_bit_iff bit_1_iff simp del: push_bit_of_1 push_bit_Suc)
  qed
  have nz: "push_bit (Suc m) (1 :: u64) \<noteq> 0" using and_bit [of "- 1" "Suc m"] Suc.prems by auto
  have t: "push_bit (Suc m) 1 AND word \<noteq> 0 \<longleftrightarrow> bit word (Suc m)" using and_bit [of word "Suc m"] by (simp add: and.commute)
  have "bitpos_scan (push_bit (Suc m) 1) word b pos =
      (if bit word (Suc m) = b then Some pos else bitpos_scan (push_bit m 1) word b (pos + 1))"
    using nz by (subst bitpos_scan.simps) (simp only: t d if_False)
  then show ?case using Suc by (simp add: Let_def del: push_bit_of_1 push_bit_Suc)
qed

lemma redisBitpos_ok: "redisBitpos he s p b = Some (bitpos_spec b (bits_of p))"
proof -
  obtain q1 pos1 found where h: "bitpos_head s (if b then 0 else 255) p 0 = (q1, pos1, found)" by (metis prod_cases3)
  obtain q pos where w: "(if \<not> found then bitpos_words he (if b then 0 else - 1) q1 pos1 else (q1, pos1)) = (q, pos)" by fastforce
  obtain r1 where r1: "p = r1 @ q1" "b \<notin> set (bits_of r1)" "pos1 = 8 * int (length r1)" "found \<longrightarrow> b \<in> set (take 64 (bits_of q1))"
    using bitpos_head_ok [OF h] by auto
  have "\<exists>r2. q1 = r2 @ q \<and> b \<notin> set (bits_of r2) \<and> pos = pos1 + 8 * int (length r2) \<and> (b \<in> set (take 64 (bits_of q)) \<or> length q < 8)"
  proof (cases found)
    case True
    then show ?thesis using w r1(4) by (intro exI [of _ "[]"]) auto
  next
    case False
    then show ?thesis using w bitpos_words_ok [of he b q1 pos1 q pos] by auto
  qed
  then obtain r where r: "p = r @ q" "b \<notin> set (bits_of r)" "pos = int (length (bits_of r))"
    and stop: "b \<in> set (take 64 (bits_of q)) \<or> length q < 8"
    using r1(1-3) by (auto intro!: that [of "r1 @ r2" for r2])
  let ?word = "bitpos_load 8 q 0"
  let ?bs = "take 64 (bits_of q @ replicate 64 False)"
  have scan: "bitpos_scan (NOT (drop_bit 1 (- 1))) ?word b pos =
      (if b \<in> set ?bs then Some (pos + int (length (takeWhile (\<lambda>x. x \<noteq> b) ?bs))) else None)"
  proof -
    have one: "NOT (drop_bit 1 (- 1)) = (push_bit 63 1 :: u64)" by (simp add: mask_eq_exp_minus_1)
    have u: "Suc 63 = 64" by simp
    show ?thesis unfolding one using bitpos_scan_ok [of 63 ?word b pos] by (simp only: u bitpos_load_bits Let_def)
  qed
  have zero: "?word = 0 \<longleftrightarrow> True \<notin> set ?bs"
    unfolding bitpos_load_bits [symmetric]
    by (auto intro!: bit_word_eqI)
  have spec: "bitpos_spec b (bits_of p) = (if b \<in> set (bits_of q) then pos + int (length (takeWhile (\<lambda>x. x \<noteq> b) (bits_of q)))
      else if b then - 1 else pos + int (length (bits_of q)))"
    using r(2,3) unfolding r(1) bits_of_append(1) bitpos_spec_def by (auto simp: takeWhile_append)
  have res: "redisBitpos he s p b = (if b \<and> ?word = 0 then Some (- 1) else bitpos_scan (NOT (drop_bit 1 (- 1))) ?word b pos)"
    by (simp add: redisBitpos_def h w Let_def)
  show ?thesis
  proof (cases "b \<in> set (take 64 (bits_of q))")
    case True
    then have in_bs: "b \<in> set ?bs" "b \<in> set (bits_of q)" by (auto dest: in_set_takeD)
    have "takeWhile (\<lambda>x. x \<noteq> b) ?bs = takeWhile (\<lambda>x. x \<noteq> b) (take 64 (bits_of q))"
      using True by (simp add: takeWhile_append1)
    also have "\<dots> = takeWhile (\<lambda>x. x \<noteq> b) (take 64 (bits_of q) @ drop 64 (bits_of q))"
      using True by (subst takeWhile_append1) auto
    finally show ?thesis using in_bs res scan zero spec by (cases b) auto
  next
    case False
    then have q: "length q < 8" "b \<notin> set (bits_of q)" using stop by auto
    then have "?bs = bits_of q @ replicate (64 - 8 * length q) False" by simp
    then show ?thesis using q res scan zero spec by (cases b) (auto simp: takeWhile_append)
  qed
qed

section \<open>Properties\<close>

text \<open>Property C12. The counter of 28 bytes at a time returns the number of ones of the block, for every
  length and address of the block and on hosts of either byte order.\<close>

theorem redisPopcount_correct: "redisPopcount he s p = length (filter id (bits_of p))"
  by (simp add: redisPopcount_ok ones_def)

text \<open>Property C39. The search word by word returns, without reaching the panic at its end, the position of the
  first bit with the value asked for; with no 1 in the block it returns -1, with no 0 the position
  after the block.\<close>

theorem redisBitpos_correct: "redisBitpos he s p b = Some (bitpos_spec b (bits_of p))"
  by (rule redisBitpos_ok)

end
