(* ===== verification/Util.thy ===== *)
theory Util
  imports Redis_Prelude
begin

section \<open>Number conversions (util.c)\<close>

text \<open>
  Printing and parsing of signed 64 bit integers. Strings are byte lists; a C \<open>char\<close> is
  signed, so comparisons read a byte with \<open>sint\<close>. \<open>dec\<close> is the reference decimal
  notation: \<open>ll2string\<close> produces it and \<open>string2ll\<close> accepts exactly it.
\<close>

definition bytes_of :: "string \<Rightarrow> byte list" where
  "bytes_of = map of_char"

definition LLONG_MIN :: int where "LLONG_MIN = - (2 ^ 63)"
definition LLONG_MAX :: int where "LLONG_MAX = 2 ^ 63 - 1"
definition ULLONG_MAX :: nat where "ULLONG_MAX = 2 ^ 64 - 1"

function digits10 :: "nat \<Rightarrow> nat" where
  "digits10 v =
     (if v < 10 then 1
      else if v < 100 then 2
      else if v < 1000 then 3
      else if v < 1000000000000 then
        if v < 100000000 then
          if v < 1000000 then
            if v < 10000 then 4 else 5 + (if v \<ge> 100000 then 1 else 0)
          else 7 + (if v \<ge> 10000000 then 1 else 0)
        else if v < 10000000000 then 9 + (if v \<ge> 1000000000 then 1 else 0)
        else 11 + (if v \<ge> 100000000000 then 1 else 0)
      else 12 + digits10 (v div 1000000000000))"
  by auto
termination by (relation "measure id") auto

definition sdigits10 :: "int \<Rightarrow> nat" where
  "sdigits10 v =
     (if v < 0
      then let uv = (if v \<noteq> LLONG_MIN then nat (- v) else nat LLONG_MAX + 1) in digits10 uv + 1
      else digits10 (nat v))"

definition ll_digits :: "byte list" where
  "ll_digits = bytes_of
     (''0001020304050607080910111213141516171819'' @
      ''2021222324252627282930313233343536373839'' @
      ''4041424344454647484950515253545556575859'' @
      ''6061626364656667686970717273747576777879'' @
      ''8081828384858687888990919293949596979899'')"

function ll2string_loop :: "byte list \<Rightarrow> int \<Rightarrow> nat \<Rightarrow> (byte list \<times> int \<times> nat) option" where
  \<comment> \<open>\<open>while (value >= 100)\<close>\<close>
  "ll2string_loop dst next value =
     (if value \<ge> 100 then do {
        let i = value mod 100 * 2;
        let value = value div 100;
        dst \<leftarrow> mem_write dst next [ll_digits ! (i + 1)];
        dst \<leftarrow> mem_write dst (next - 1) [ll_digits ! i];
        ll2string_loop dst (next - 2) value }
      else Some (dst, next, value))"
  by auto
termination by (relation "measure (\<lambda>(_, _, v). v)") auto

declare digits10.simps [simp del] ll2string_loop.simps [simp del]

definition ll2string :: "byte list \<Rightarrow> nat \<Rightarrow> int \<Rightarrow> (byte list \<times> nat) option" where
  \<comment> \<open>the buffer after the call and the number of characters\<close>
  "ll2string dst dstlen svalue = do {
     let (value, negative) =
       (if svalue < 0
        then (if svalue \<noteq> LLONG_MIN then nat (- svalue) else nat LLONG_MAX + 1, 1 :: nat)
        else (nat svalue, 0));
     let length = digits10 value + negative;
     if length \<ge> dstlen then Some (dst, 0)
     else do {
       let next = int length;
       dst \<leftarrow> mem_write dst next [0];
       let next = next - 1;
       (dst, next, value) \<leftarrow> ll2string_loop dst next value;
       dst \<leftarrow>
         (if value < 10 then mem_write dst next [of_nat (48 + value)]
          else do {
            let i = value * 2;
            dst \<leftarrow> mem_write dst next [ll_digits ! (i + 1)];
            mem_write dst (next - 1) [ll_digits ! i] });
       dst \<leftarrow> (if negative \<noteq> 0 then mem_write dst 0 [45] else Some dst);
       Some (dst, length) } }"

fun string2ll_loop :: "byte list \<Rightarrow> nat \<Rightarrow> (byte list \<times> nat) option" where
  \<comment> \<open>\<open>while (plen < slen && p[0] >= '0' && p[0] <= '9')\<close> over the bytes left; None is the
     overflow return, otherwise the bytes not used and the value\<close>
  "string2ll_loop [] v = Some ([], v)"
| "string2ll_loop (c # p) v =
     (if sint c \<ge> 48 \<and> sint c \<le> 57 then
        if v > ULLONG_MAX div 10 then None
        else let v = v * 10 mod 2 ^ 64 in
          if v > ULLONG_MAX - nat (sint c - 48) then None
          else string2ll_loop p ((v + nat (sint c - 48)) mod 2 ^ 64)
      else Some (c # p, v))"

definition string2ll :: "byte list \<Rightarrow> int option" where
  \<comment> \<open>the parsed value, or None for the return value 0\<close>
  "string2ll s =
     (if s = [] then None
      else if length s = 1 \<and> hd s = 48 then Some 0
      else
        let negative = (hd s = 45); p = (if negative then tl s else s) in
        if p = [] then None
        else if sint (hd p) \<ge> 49 \<and> sint (hd p) \<le> 57 then
          case string2ll_loop (tl p) (nat (sint (hd p) - 48)) of
            None \<Rightarrow> None
          | Some (rest, v) \<Rightarrow>
              if rest \<noteq> [] then None
              else if negative then
                if v > nat (- (LLONG_MIN + 1)) + 1 then None else Some (- int v)
              else if int v > LLONG_MAX then None else Some (int v)
        else if hd p = 48 \<and> length s = 1 then Some 0
        else None)"

definition string2l :: "byte list \<Rightarrow> int option" where
  "string2l s =
     (case string2ll s of None \<Rightarrow> None
      | Some llval \<Rightarrow> if llval < LLONG_MIN \<or> llval > LLONG_MAX then None else Some llval)"

subsection \<open>Decimal notation\<close>

fun dec_nat :: "nat \<Rightarrow> byte list" where
  "dec_nat v = (if v < 10 then [of_nat (48 + v)] else dec_nat (v div 10) @ [of_nat (48 + v mod 10)])"

declare dec_nat.simps [simp del]

definition dec :: "int \<Rightarrow> byte list" where
  "dec v = (if v < 0 then 45 # dec_nat (nat (- v)) else dec_nat (nat v))"

lemma dec_nat_small: "v < 10 \<Longrightarrow> dec_nat v = [of_nat (48 + v)]"
  by (simp add: dec_nat.simps)

lemma dec_nat_big: "v \<ge> 10 \<Longrightarrow> dec_nat v = dec_nat (v div 10) @ [of_nat (48 + v mod 10)]"
  by (subst dec_nat.simps) simp

lemma dec_nat_not_Nil [simp]: "dec_nat v \<noteq> []"
  by (subst dec_nat.simps) simp

lemma dec_nat_two:
  assumes "v \<ge> 100"
  shows "dec_nat v = dec_nat (v div 100) @ [of_nat (48 + v mod 100 div 10), of_nat (48 + v mod 10)]"
proof -
  have "v mod (10 * 10) = 10 * (v div 10 mod 10) + v mod 10" by (rule mod_mult2_eq)
  then have "v div 10 mod 10 = v mod 100 div 10" by simp
  moreover have "v div 10 div 10 = v div 100" using div_mult2_eq [of v 10 10] by simp
  moreover have "v \<ge> 10" "v div 10 \<ge> 10" using assms by (simp_all add: less_eq_div_iff_mult_less_eq)
  ultimately show ?thesis using dec_nat_big [of v] dec_nat_big [of "v div 10"] by simp
qed

lemma dec_nat_length:
  "10 ^ n \<le> v \<Longrightarrow> v < 10 ^ Suc n \<Longrightarrow> length (dec_nat v) = Suc n"
proof (induction n arbitrary: v)
  case 0
  then show ?case by (simp add: dec_nat_small)
next
  case (Suc n)
  have "v \<ge> 10" using Suc.prems(1) by (rule order_trans [rotated]) simp
  moreover have "length (dec_nat (v div 10)) = Suc n"
    using Suc.prems by (intro Suc.IH) (auto simp: less_mult_imp_div_less mult.commute)
  ultimately show ?case by (simp add: dec_nat_big)
qed

lemma dec_nat_div_pow:
  "v \<ge> 10 ^ n \<Longrightarrow> length (dec_nat v) = n + length (dec_nat (v div 10 ^ n))"
proof (induction n arbitrary: v)
  case (Suc n)
  have "v \<ge> 10" using Suc.prems by (rule order_trans [rotated]) simp
  moreover have "length (dec_nat (v div 10)) = n + length (dec_nat (v div 10 div 10 ^ n))"
    using Suc.prems by (intro Suc.IH) (simp add: less_eq_div_iff_mult_less_eq mult.commute)
  ultimately show ?case by (simp add: dec_nat_big div_mult2_eq)
qed simp

lemma digits10_correct: "digits10 v = length (dec_nat v)"
proof (induction v rule: digits10.induct)
  case (1 v)
  note L = dec_nat_length [of 0 v] dec_nat_length [of 1 v] dec_nat_length [of 2 v] dec_nat_length [of 3 v]
    dec_nat_length [of 4 v] dec_nat_length [of 5 v] dec_nat_length [of 6 v] dec_nat_length [of 7 v]
    dec_nat_length [of 8 v] dec_nat_length [of 9 v] dec_nat_length [of 10 v] dec_nat_length [of 11 v]
  show ?case
  proof (cases "v < 1000000000000")
    case True
    then show ?thesis using L by (subst digits10.simps) (auto simp: dec_nat_small)
  next
    case False
    then have "digits10 v = 12 + digits10 (v div 1000000000000)" by (subst digits10.simps) simp
    also have "digits10 (v div 1000000000000) = length (dec_nat (v div 1000000000000))"
      using 1 False by simp
    also have "12 + \<dots> = length (dec_nat v)"
      using dec_nat_div_pow [of 12 v] False by simp
    finally show ?thesis .
  qed
qed


subsection \<open>Printing\<close>

lemma ll_digits_pairs:
  "ll_digits = concat (map (\<lambda>k. [of_nat (48 + k div 10), of_nat (48 + k mod 10)]) [0..<100])"
  by code_simp

lemma concat_pairs_nth:
  "k < n \<Longrightarrow> concat (map (\<lambda>k. [f k, g k]) [0..<n]) ! (k * 2) = f k \<and>
     concat (map (\<lambda>k. [f k, g k]) [0..<n]) ! Suc (k * 2) = g k"
proof (induction n)
  case (Suc n)
  let ?c = "concat (map (\<lambda>k. [f k, g k]) [0..<n])"
  have len: "length ?c = n * 2" by (induction n) auto
  have app: "concat (map (\<lambda>k. [f k, g k]) [0..<Suc n]) = ?c @ [f n, g n]" by simp
  show ?case
  proof (cases "k = n")
    case True
    then show ?thesis unfolding app by (simp add: nth_append len)
  next
    case False
    then have "k < n" using Suc.prems by simp
    then show ?thesis using Suc.IH unfolding app by (simp add: nth_append len)
  qed
qed simp

lemma ll_digits_nth:
  assumes "k < 100"
  shows "ll_digits ! (k * 2) = of_nat (48 + k div 10)" "ll_digits ! (Suc (k * 2)) = of_nat (48 + k mod 10)"
  using concat_pairs_nth [OF assms, of "\<lambda>k. of_nat (48 + k div 10)" "\<lambda>k. of_nat (48 + k mod 10)"]
  unfolding ll_digits_pairs by (rule conjunct1, rule conjunct2)

lemma mem_write_at:
  assumes "length xs = k" "length ys = length bs"
  shows "mem_write (xs @ ys @ zs) (int k) bs = Some (xs @ bs @ zs)"
  using mem_write_append [OF assms(2), of xs zs] assms(1) by simp

lemma write_two:
  assumes "length hole = n + 2"
  shows "do { dst \<leftarrow> mem_write (pre @ hole @ suf) (int (length pre) + int n + 1) [d0];
      dst \<leftarrow> mem_write dst (int (length pre) + int n) [d1]; f dst } = f (pre @ take n hole @ d1 # d0 # suf)"
proof -
  obtain a b where hole: "hole = take n hole @ [a, b]"
  proof -
    have "length (drop n hole) = 2" using assms by simp
    then obtain a b where "drop n hole = [a, b]" by (cases "drop n hole"; cases "tl (drop n hole)") (simp_all del: length_drop)
    then have "hole = take n hole @ [a, b]" by (metis append_take_drop_id)
    then show ?thesis by (rule that)
  qed
  let ?h = "take n hole"
  have len: "length (pre @ ?h) = length pre + n" using assms by simp
  have "mem_write (pre @ hole @ suf) (int (length pre) + int n + 1) [d0] = Some (pre @ ?h @ a # d0 # suf)"
    using mem_write_at [of "pre @ ?h @ [a]" "length pre + n + 1" "[b]" "[d0]" suf] len
    by (subst hole) (simp add: ac_simps)
  moreover have "mem_write (pre @ ?h @ a # d0 # suf) (int (length pre) + int n) [d1] = Some (pre @ ?h @ d1 # d0 # suf)"
    using mem_write_at [of "pre @ ?h" "length pre + n" "[a]" "[d1]" "d0 # suf"] len by simp
  ultimately show ?thesis by simp
qed

lemma ll2string_loop_ok:
  "length hole = length (dec_nat v) \<Longrightarrow>
   \<exists>hole' rest value'. ll2string_loop (pre @ hole @ suf) (int (length pre) + int (length hole) - 1) v =
       Some (pre @ hole' @ rest, int (length pre) + int (length hole') - 1, value') \<and>
     value' < 100 \<and> length hole' = length (dec_nat value') \<and> dec_nat v @ suf = dec_nat value' @ rest"
proof (induction v arbitrary: hole suf rule: less_induct)
  case (less v)
  show ?case
  proof (cases "v \<ge> 100")
    case False
    then show ?thesis using less.prems
      by (intro exI [of _ hole] exI [of _ suf] exI [of _ v]) (simp add: ll2string_loop.simps)
  next
    case True
    let ?n = "length (dec_nat (v div 100))"
    note two = dec_nat_two [OF True]
    have len: "length hole = ?n + 2" using less.prems two by simp
    let ?suf = "of_nat (48 + v mod 100 div 10) # of_nat (48 + v mod 10) # suf"
    have idx: "int (length pre) + int (length hole) - 1 = int (length pre) + int ?n + 1" using len by simp
    have mm: "v mod 100 mod 10 = v mod 10" by (rule mod_mod_cancel) simp
    have "ll2string_loop (pre @ hole @ suf) (int (length pre) + int (length hole) - 1) v =
      ll2string_loop (pre @ take ?n hole @ ?suf) (int (length pre) + int ?n - 1) (v div 100)"
      using True write_two [OF len] ll_digits_nth [of "v mod 100"] unfolding idx
      by (subst ll2string_loop.simps) (simp add: Let_def mm)
    moreover have "v div 100 < v" using True by simp
    from less.IH [OF this, of "take ?n hole" ?suf] obtain hole' rest value' where
      "ll2string_loop (pre @ take ?n hole @ ?suf) (int (length pre) + int (length (take ?n hole)) - 1) (v div 100) =
         Some (pre @ hole' @ rest, int (length pre) + int (length hole') - 1, value')"
      "value' < 100" "length hole' = length (dec_nat value')" "dec_nat (v div 100) @ ?suf = dec_nat value' @ rest"
      using len by auto
    ultimately show ?thesis using two len by auto
  qed
qed


lemma dec_nat_less_100: "10 \<le> v \<Longrightarrow> v < 100 \<Longrightarrow> dec_nat v = [of_nat (48 + v div 10), of_nat (48 + v mod 10)]"
  by (simp add: dec_nat_big dec_nat_small)

lemma ll2string_tail:
  assumes "v < 100" "length hole = length (dec_nat v)"
  shows "(if v < 10 then mem_write (pre @ hole @ rest) (int (length pre) + int (length hole) - 1) [of_nat (48 + v)]
      else do {
        let i = v * 2;
        dst \<leftarrow> mem_write (pre @ hole @ rest) (int (length pre) + int (length hole) - 1) [ll_digits ! (i + 1)];
        mem_write dst (int (length pre) + int (length hole) - 1 - 1) [ll_digits ! i] }) = Some (pre @ dec_nat v @ rest)"
proof (cases "v < 10")
  case True
  then have "length hole = 1" using assms(2) by (simp add: dec_nat_small)
  then show ?thesis using True mem_write_at [of pre "length pre" hole "[of_nat (48 + v)]" rest] by (simp add: dec_nat_small)
next
  case False
  then have d: "dec_nat v = [of_nat (48 + v div 10), of_nat (48 + v mod 10)]" using assms(1) by (intro dec_nat_less_100) simp_all
  then have len: "length hole = 0 + 2" using assms(2) by simp
  have idx: "int (length pre) + int (length hole) - 1 = int (length pre) + int 0 + 1" using len by simp
  show ?thesis using False write_two [OF len, of pre rest _ _ Some] ll_digits_nth [OF assms(1)] d
    unfolding idx by (simp add: Let_def)
qed

lemma ll2string_ok:
  assumes v: "LLONG_MIN \<le> v" "v \<le> LLONG_MAX" and len: "dstlen \<le> length dst"
  shows "ll2string dst dstlen v = Some (if length (dec v) \<ge> dstlen then (dst, 0)
    else (dec v @ 0 # drop (Suc (length (dec v))) dst, length (dec v)))"
proof -
  define neg where "neg = (if v < 0 then 1 else 0 :: nat)"
  have vn: "(if v < 0 then (if v \<noteq> LLONG_MIN then nat (- v) else nat LLONG_MAX + 1, 1) else (nat v, 0 :: nat)) = (nat \<bar>v\<bar>, neg)"
    by (auto simp: neg_def LLONG_MIN_def LLONG_MAX_def)
  have decl: "digits10 (nat \<bar>v\<bar>) + neg = length (dec v)"
    by (auto simp: digits10_correct dec_def neg_def)
  show ?thesis
  proof (cases "length (dec v) \<ge> dstlen")
    case True
    then show ?thesis by (simp add: ll2string_def vn decl)
  next
    case False
    let ?L = "length (dec v)" and ?m = "nat \<bar>v\<bar>"
    let ?pre = "take neg dst" and ?hole = "drop neg (take ?L dst)" and ?suf = "0 # drop (Suc ?L) dst"
    have lt: "?L < length dst" using False len by simp
    have Ln: "neg \<le> ?L" "?L = neg + length (dec_nat ?m)" using decl by (auto simp: digits10_correct)
    have lens: "length ?pre = neg" "length ?hole = length (dec_nat ?m)" using lt Ln by auto
    have w0: "mem_write dst (int ?L) [0] = Some (?pre @ ?hole @ ?suf)"
    proof -
      have "?pre @ ?hole = take ?L dst" using Ln(1) by (metis append_take_drop_id min.absorb1 take_take)
      then show ?thesis using lt by (simp add: mem_write_def)
    qed
    obtain hole' rest v' where l: "ll2string_loop (?pre @ ?hole @ ?suf) (int (length ?pre) + int (length ?hole) - 1) ?m =
       Some (?pre @ hole' @ rest, int (length ?pre) + int (length hole') - 1, v')"
      "v' < 100" "length hole' = length (dec_nat v')" "dec_nat ?m @ ?suf = dec_nat v' @ rest"
      using ll2string_loop_ok [OF lens(2), of ?pre ?suf] by blast
    have "int ?L - 1 = int (length ?pre) + int (length ?hole) - 1" using lens Ln by simp
    note start = l(1) [folded this]
    note tail = ll2string_tail [OF l(2,3), of ?pre rest]
    have sign: "(if neg \<noteq> 0 then mem_write (?pre @ dec_nat ?m @ ?suf) 0 [45] else Some (?pre @ dec_nat ?m @ ?suf)) =
      Some (dec v @ ?suf)"
    proof (cases "v < 0")
      case True
      then obtain x where "?pre = [x]" using lens(1) by (cases dst) (auto simp: neg_def)
      then show ?thesis using True mem_write_at [of "[]" 0 "[x]" "[45]" "dec_nat ?m @ ?suf"]
        by (simp add: neg_def dec_def)
    next
      case False
      then show ?thesis by (simp add: neg_def dec_def)
    qed
    show ?thesis
      using False sign tail [folded l(4)]
      by (cases "v' < 10") (simp_all add: ll2string_def vn decl w0 start Let_def)
  qed
qed

subsection \<open>Parsing\<close>

definition is_digit :: "byte \<Rightarrow> bool" where
  "is_digit c \<longleftrightarrow> sint c \<ge> 48 \<and> sint c \<le> 57"

definition digit_val :: "byte \<Rightarrow> nat" where
  "digit_val c = nat (sint c - 48)"

abbreviation parse_digits :: "nat \<Rightarrow> byte list \<Rightarrow> nat" where
  "parse_digits \<equiv> foldl (\<lambda>v c. v * 10 + digit_val c)"

lemma sint_digit: "d < 10 \<Longrightarrow> sint (of_nat (48 + d) :: byte) = 48 + int d"
  using sint_word_of_int_id [where 'a=8, of "int (48 + d)"] by simp

lemma of_digit: "is_digit c \<Longrightarrow> of_nat (48 + digit_val c) = c"
proof -
  assume "is_digit c"
  then have "int (48 + digit_val c) = sint c" by (simp add: is_digit_def digit_val_def)
  then have "of_int (int (48 + digit_val c)) = (of_int (sint c) :: byte)" by simp
  moreover have "(of_int (sint c) :: byte) = c" by simp
  ultimately show ?thesis by (simp only: of_int_of_nat_eq)
qed

lemma digit_of: "d < 10 \<Longrightarrow> is_digit (of_nat (48 + d)) \<and> digit_val (of_nat (48 + d)) = d"
  using sint_digit [of d] by (simp add: is_digit_def digit_val_def)

lemma digit_val_less: "is_digit c \<Longrightarrow> digit_val c < 10"
  by (auto simp: is_digit_def digit_val_def)

lemma parse_digits_ge: "v \<le> parse_digits v p"
proof (induction p arbitrary: v)
  case (Cons c p)
  show ?case using Cons.IH [of "v * 10 + digit_val c"] by simp
qed simp

lemma dec_nat_snoc: "v > 0 \<Longrightarrow> is_digit c \<Longrightarrow> dec_nat (v * 10 + digit_val c) = dec_nat v @ [c]"
  using digit_val_less [of c] of_digit [of c] dec_nat_big [of "v * 10 + digit_val c"] by simp

lemma dec_nat_parse: "v > 0 \<Longrightarrow> list_all is_digit p \<Longrightarrow> dec_nat (parse_digits v p) = dec_nat v @ p"
  by (induction p arbitrary: v) (auto simp: dec_nat_snoc)

lemma dec_nat_digits: "c \<in> set (dec_nat n) \<Longrightarrow> is_digit c"
proof (induction n rule: less_induct)
  case (less n)
  show ?case
  proof (cases "n < 10")
    case True
    then show ?thesis using less.prems digit_of [of n] by (simp add: dec_nat_small)
  next
    case False
    then have "c \<in> set (dec_nat (n div 10)) \<or> c = of_nat (48 + n mod 10)"
      using less.prems dec_nat_big [of n] by auto
    then show ?thesis using less.IH [of "n div 10"] False digit_of [of "n mod 10"] by auto
  qed
qed

lemma dec_nat_clean: "13 \<notin> set (dec_nat n)" "0 \<notin> set (dec_nat n)"
  using dec_nat_digits [of 13 n] dec_nat_digits [of 0 n] by (auto simp: is_digit_def)

lemma dec_nat_Cons:
  "w > 0 \<Longrightarrow> \<exists>c p. dec_nat w = c # p \<and> is_digit c \<and> digit_val c > 0 \<and> list_all is_digit p \<and> parse_digits (digit_val c) p = w"
proof (induction w rule: less_induct)
  case (less w)
  show ?case
  proof (cases "w < 10")
    case True
    then show ?thesis using less.prems digit_of [OF True] by (simp add: dec_nat_small)
  next
    case False
    then have "w div 10 < w" "w div 10 > 0" by (simp_all add: div_greater_zero_iff)
    from less.IH [OF this] obtain c p where "dec_nat (w div 10) = c # p" "is_digit c" "digit_val c > 0"
      "list_all is_digit p" "parse_digits (digit_val c) p = w div 10" by blast
    then show ?thesis using False digit_of [of "w mod 10"] by (simp add: dec_nat_big)
  qed
qed

lemma string2ll_loop_Cons:
  "string2ll_loop (c # p) v =
     (if sint c \<ge> 48 \<and> sint c \<le> 57 then
        if v > ULLONG_MAX div 10 then None
        else if v * 10 > ULLONG_MAX - nat (sint c - 48) then None
        else string2ll_loop p (v * 10 + nat (sint c - 48))
      else Some (c # p, v))"
proof -
  have "nat (sint c - 48) < 10" if "sint c \<le> 57" using that by simp
  then show ?thesis by (auto simp: Let_def ULLONG_MAX_def)
qed

declare string2ll_loop.simps(2) [simp del] string2ll_loop_Cons [simp]

lemma string2ll_loop_sound:
  "string2ll_loop p v = Some ([], w) \<Longrightarrow> list_all is_digit p \<and> w = parse_digits v p"
  by (induction p arbitrary: v)
     (auto simp: Let_def is_digit_def digit_val_def split: if_splits)

lemma string2ll_loop_complete:
  "list_all is_digit p \<Longrightarrow> parse_digits v p \<le> ULLONG_MAX \<Longrightarrow> string2ll_loop p v = Some ([], parse_digits v p)"
proof (induction p arbitrary: v)
  case (Cons c p)
  have "v * 10 + digit_val c \<le> ULLONG_MAX"
    using Cons.prems(2) parse_digits_ge [of "v * 10 + digit_val c" p] by simp
  then have "\<not> v > ULLONG_MAX div 10" "\<not> v * 10 > ULLONG_MAX - digit_val c" by (auto simp: not_less less_eq_div_iff_mult_less_eq)
  then show ?case using Cons by (simp add: is_digit_def digit_val_def [symmetric])
qed simp

lemma nonzero_digit: "sint c \<ge> 49 \<and> sint c \<le> 57 \<longleftrightarrow> is_digit c \<and> digit_val c > 0"
  by (auto simp: is_digit_def digit_val_def)

definition unsigned_part :: "byte list \<Rightarrow> nat option" where
  \<comment> \<open>the value of a digit string with no leading zero\<close>
  "unsigned_part p = (if p \<noteq> [] \<and> is_digit (hd p) \<and> digit_val (hd p) > 0 \<and> list_all is_digit (tl p)
     then Some (parse_digits (digit_val (hd p)) (tl p)) else None)"

lemma unsigned_part_iff: "unsigned_part p = Some w \<longleftrightarrow> w > 0 \<and> p = dec_nat w"
proof
  assume "unsigned_part p = Some w"
  then obtain c q where p: "p = c # q" "is_digit c" "digit_val c > 0" "list_all is_digit q" "w = parse_digits (digit_val c) q"
    by (cases p) (auto simp: unsigned_part_def split: if_splits)
  then have "dec_nat w = dec_nat (digit_val c) @ q" by (simp add: dec_nat_parse)
  also have "dec_nat (digit_val c) = [c]" using p(2) by (simp add: dec_nat_small digit_val_less of_digit del: of_nat_add)
  finally show "w > 0 \<and> p = dec_nat w" using p parse_digits_ge [of "digit_val c" q] by simp
next
  assume "w > 0 \<and> p = dec_nat w"
  then show "unsigned_part p = Some w" using dec_nat_Cons [of w] by (auto simp: unsigned_part_def)
qed

lemma string2ll_digits:
  assumes "p \<noteq> []"
  shows "(if sint (hd p) \<ge> 49 \<and> sint (hd p) \<le> 57 then
       case string2ll_loop (tl p) (nat (sint (hd p) - 48)) of None \<Rightarrow> None
       | Some (rest, v) \<Rightarrow> if rest \<noteq> [] then None else (if v \<le> ULLONG_MAX then f v else None)
     else None) = (case unsigned_part p of None \<Rightarrow> None | Some v \<Rightarrow> if v \<le> ULLONG_MAX then f v else None)"
proof (cases "unsigned_part p")
  case None
  then show ?thesis using assms string2ll_loop_sound [of "tl p" "digit_val (hd p)"]
    by (fastforce simp: nonzero_digit unsigned_part_def digit_val_def [symmetric] split: option.splits if_splits)
next
  case (Some w)
  then have p: "is_digit (hd p)" "digit_val (hd p) > 0" "list_all is_digit (tl p)" "w = parse_digits (digit_val (hd p)) (tl p)"
    by (auto simp: unsigned_part_def split: if_splits)
  show ?thesis
  proof (cases "w \<le> ULLONG_MAX")
    case True
    then show ?thesis using Some p string2ll_loop_complete [OF p(3)]
      by (simp add: nonzero_digit digit_val_def [symmetric])
  next
    case False
    then show ?thesis using Some p string2ll_loop_sound [of "tl p" "digit_val (hd p)"]
      by (auto simp: nonzero_digit digit_val_def [symmetric] split: option.splits)
  qed
qed

lemma string2ll_eq:
  "string2ll s = (if s = [48] then Some 0
     else let negative = (s \<noteq> [] \<and> hd s = 45) in
       case unsigned_part (if negative then tl s else s) of None \<Rightarrow> None
       | Some v \<Rightarrow> if negative then if int v \<le> - LLONG_MIN then Some (- int v) else None
                   else if int v \<le> LLONG_MAX then Some (int v) else None)"
proof (cases "s = [] \<or> s = [48]")
  case True
  then show ?thesis by (auto simp: string2ll_def unsigned_part_def)
next
  case False
  define negative where "negative = (hd s = 45)"
  define p where "p = (if negative then tl s else s)"
  define f where "f v = (if negative then if v > nat (- (LLONG_MIN + 1)) + 1 then None else Some (- int v)
    else if int v > LLONG_MAX then None else Some (int v))" for v
  have len1: "(length s = 1 \<and> hd s = 48) = False" "p \<noteq> [] \<Longrightarrow> (hd p = 48 \<and> length s = 1) = False"
    using False by (cases s; auto simp: p_def split: if_splits)+
  have big: "f v = (if v \<le> ULLONG_MAX then f v else None)" for v
    by (auto simp: f_def ULLONG_MAX_def LLONG_MIN_def LLONG_MAX_def)
  have "string2ll s = (if p = [] then None else if sint (hd p) \<ge> 49 \<and> sint (hd p) \<le> 57 then
       case string2ll_loop (tl p) (nat (sint (hd p) - 48)) of None \<Rightarrow> None
       | Some (rest, v) \<Rightarrow> if rest \<noteq> [] then None else f v
     else None)"
  proof (cases "p = []")
    case True
    have "(s = []) = False" using False by simp
    then show ?thesis
      by (simp only: string2ll_def Let_def len1(1) if_False negative_def [symmetric] p_def [symmetric]) (simp only: True simp_thms if_True)
  next
    case ne: False
    then have "(s = []) = False" "(p = []) = False" using False by simp_all
    then show ?thesis
      by (simp only: string2ll_def Let_def len1(1) len1(2) [OF ne] if_False negative_def [symmetric] p_def [symmetric] f_def)
  qed
  also have "\<dots> = (case unsigned_part p of None \<Rightarrow> None | Some v \<Rightarrow> f v)"
    using string2ll_digits [of p f, folded big] by (auto simp: unsigned_part_def)
  also have "\<dots> = (case unsigned_part p of None \<Rightarrow> None
       | Some v \<Rightarrow> if negative then if int v \<le> - LLONG_MIN then Some (- int v) else None
                   else if int v \<le> LLONG_MAX then Some (int v) else None)"
    by (auto simp: f_def LLONG_MIN_def LLONG_MAX_def split: option.split)
  finally show ?thesis using False unfolding p_def negative_def by (simp only: Let_def de_Morgan_disj simp_thms if_False)
qed

lemma dec_nat_hd: "w > 0 \<Longrightarrow> hd (dec_nat w) \<noteq> 45 \<and> dec_nat w \<noteq> [48]"
proof -
  assume "w > 0"
  then obtain c p where "dec_nat w = c # p" "is_digit c" "digit_val c > 0" using dec_nat_Cons by blast
  moreover have "\<not> is_digit 45" "digit_val 48 = 0" by (simp_all add: is_digit_def digit_val_def)
  ultimately show ?thesis by auto
qed

lemma dec_0: "dec 0 = [48]" by (simp add: dec_def dec_nat_small)

lemma string2ll_ok:
  "string2ll s = Some v \<longleftrightarrow> LLONG_MIN \<le> v \<and> v \<le> LLONG_MAX \<and> s = dec v"
proof (cases "s = [48]")
  case True
  have "dec v = [48] \<longleftrightarrow> v = 0"
    using dec_nat_hd [of "nat v"] by (cases "v = 0"; cases "v > 0") (auto simp: dec_0, auto simp: dec_def)
  then show ?thesis using True by (auto simp: string2ll_eq LLONG_MIN_def LLONG_MAX_def)
next
  case False
  show ?thesis
  proof (cases "s \<noteq> [] \<and> hd s = 45")
    case True
    then obtain p where s: "s = 45 # p" by (cases s) auto
    have "s = dec v \<longleftrightarrow> v < 0 \<and> p = dec_nat (nat (- v))"
      using dec_nat_hd [of "nat v"] False by (cases v "0 :: int" rule: linorder_cases) (auto simp: s dec_0, auto simp: dec_def dest!: sym [of "45 # p"])
    also have "\<dots> \<longleftrightarrow> v < 0 \<and> unsigned_part p = Some (nat (- v))" by (auto simp: unsigned_part_iff)
    finally have "s = dec v \<longleftrightarrow> v < 0 \<and> unsigned_part p = Some (nat (- v))" .
    moreover have "w > 0" if "unsigned_part p = Some w" for w using that unsigned_part_iff by blast
    ultimately show ?thesis using False unfolding string2ll_eq
      by (cases "unsigned_part p") (auto simp: s LLONG_MAX_def split: if_splits)
  next
    case neg: False
    have "s = dec v \<longleftrightarrow> v > 0 \<and> s = dec_nat (nat v)"
      using False neg by (cases v "0 :: int" rule: linorder_cases) (auto simp: dec_0, auto simp: dec_def)
    also have "\<dots> \<longleftrightarrow> v > 0 \<and> unsigned_part s = Some (nat v)" by (auto simp: unsigned_part_iff)
    finally have "s = dec v \<longleftrightarrow> v > 0 \<and> unsigned_part s = Some (nat v)" .
    moreover have "w > 0" if "unsigned_part s = Some w" for w using that unsigned_part_iff by blast
    ultimately show ?thesis using False neg unfolding string2ll_eq
      by (cases "unsigned_part s") (auto simp: LLONG_MIN_def split: if_splits)
  qed
qed

text \<open>Property C18. Parsing accepts a string exactly when it is the decimal notation of a value
  in the range of a long long, and returns that value: no sign but a leading minus, no leading
  zero, no overflow, nothing after the digits.\<close>

theorem string2ll_exact:
  "string2ll s = Some v \<longleftrightarrow> LLONG_MIN \<le> v \<and> v \<le> LLONG_MAX \<and> s = dec v"
  by (rule string2ll_ok)

end
