(* ===== verification/Glob.thy ===== *)
theory Glob
  imports Util
begin

section \<open>Glob-style pattern matching (stringmatchlen in util.c)\<close>

text \<open>
  The matcher that KEYS, SCAN, PSUBSCRIBE and CONFIG GET share. It walks over two blocks of
  memory with pointers and lengths; the model keeps both, reads through bounds-checked
  accesses and counts lengths as integers, since the code decrements them without a test. A
  pattern or string that is an SDS string is its bytes and a terminator. \<open>glob\<close> is the
  reference meaning of a pattern.
\<close>

definition rd :: "byte list \<Rightarrow> int \<Rightarrow> byte option" where
  "rd m i = (if 0 \<le> i \<and> nat i < length m then Some (m ! nat i) else None)"

definition tolower :: "int \<Rightarrow> int" where
  "tolower c = (if 65 \<le> c \<and> c \<le> 90 then c + 32 else c)"

definition same_char :: "bool \<Rightarrow> byte \<Rightarrow> byte \<Rightarrow> bool" where
  "same_char nocase a b \<longleftrightarrow> (if \<not> nocase then a = b else tolower (sint a) = tolower (sint b))"

definition in_range :: "bool \<Rightarrow> byte \<Rightarrow> byte \<Rightarrow> byte \<Rightarrow> bool" where
  "in_range nocase a b x \<longleftrightarrow>
     (let start = sint a; e = sint b; c = sint x;
        (start, e) = (if start > e then (e, start) else (start, e));
        (start, e, c) = (if nocase then (tolower start, tolower e, tolower c) else (start, e, c))
      in c \<ge> start \<and> c \<le> e)"

partial_function (option) skip_stars :: "byte list \<Rightarrow> int \<Rightarrow> int \<Rightarrow> (int \<times> int) option" where
  \<comment> \<open>\<open>while (pattern[1] == '*') { pattern++; patternLen--; }\<close>\<close>
  "skip_stars pm p pl = do {
     c \<leftarrow> rd pm (p + 1);
     if c = 42 then skip_stars pm (p + 1) (pl - 1) else Some (p, pl) }"

partial_function (option) trailing_stars :: "byte list \<Rightarrow> int \<Rightarrow> int \<Rightarrow> (int \<times> int) option" where
  \<comment> \<open>\<open>while (*pattern == '*') { pattern++; patternLen--; }\<close>\<close>
  "trailing_stars pm p pl = do {
     c \<leftarrow> rd pm p;
     if c = 42 then trailing_stars pm (p + 1) (pl - 1) else Some (p, pl) }"

partial_function (option) class_loop ::
  "byte list \<Rightarrow> byte list \<Rightarrow> bool \<Rightarrow> int \<Rightarrow> int \<Rightarrow> int \<Rightarrow> bool \<Rightarrow> (int \<times> int \<times> bool) option" where
  \<comment> \<open>the \<open>while(1)\<close> of case '['; \<open>s\<close> points to the character to match\<close>
  "class_loop pm sm nocase s p pl match = do {
     c \<leftarrow> rd pm p;
     if c = 92 \<and> pl \<ge> 2 then do {
       let p = p + 1;
       let pl = pl - 1;
       c \<leftarrow> rd pm p;
       x \<leftarrow> rd sm s;
       class_loop pm sm nocase s (p + 1) (pl - 1) (match \<or> c = x) }
     else if c = 93 then Some (p, pl, match)
     else if pl = 0 then Some (p - 1, pl + 1, match)
     else do {
       c1 \<leftarrow> rd pm (p + 1);
       if c1 = 45 \<and> pl \<ge> 3 then do {
         c2 \<leftarrow> rd pm (p + 2);
         x \<leftarrow> rd sm s;
         let p = p + 2;
         let pl = pl - 2;
         class_loop pm sm nocase s (p + 1) (pl - 1) (match \<or> in_range nocase c c2 x) }
       else do {
         x \<leftarrow> rd sm s;
         class_loop pm sm nocase s (p + 1) (pl - 1) (match \<or> same_char nocase c x) } } }"

partial_function (option) match_loop ::
  "byte list \<Rightarrow> byte list \<Rightarrow> bool \<Rightarrow> bool \<Rightarrow> int \<Rightarrow> int \<Rightarrow> int \<Rightarrow> int \<Rightarrow> bool option" where
  \<comment> \<open>\<open>star\<close>: inside the \<open>while(stringLen)\<close> of case '*', which calls the function again for
     every rest of the string; otherwise the main \<open>while(patternLen)\<close> loop\<close>
  "match_loop pm sm nocase star p pl s sl =
     (if star then
        if sl = 0 then Some False
        else do {
          r \<leftarrow> match_loop pm sm nocase False (p + 1) (pl - 1) s sl;
          if r then Some True else match_loop pm sm nocase True p pl (s + 1) (sl - 1) }
      else if pl = 0 then Some (sl = 0)
      else do {
        c \<leftarrow> rd pm p;
        if c = 42 then do {
          (p, pl) \<leftarrow> skip_stars pm p pl;
          if pl = 1 then Some True else match_loop pm sm nocase True p pl s sl }
        else do {
          step \<leftarrow>
            (if c = 63 then Some (if sl = 0 then None else Some (p, pl))
             else if c = 91 then do {
               let p = p + 1;
               let pl = pl - 1;
               c \<leftarrow> rd pm p;
               let neg = (c = 94);
               let (p, pl) = (if neg then (p + 1, pl - 1) else (p, pl));
               (p, pl, match) \<leftarrow> class_loop pm sm nocase s p pl False;
               Some (if match \<noteq> neg then Some (p, pl) else None) }
             else do {
               let (p, pl) = (if c = 92 \<and> pl \<ge> 2 then (p + 1, pl - 1) else (p, pl));
               c \<leftarrow> rd pm p;
               x \<leftarrow> rd sm s;
               Some (if same_char nocase c x then Some (p, pl) else None) });
          case step of
            None \<Rightarrow> Some False
          | Some (p, pl) \<Rightarrow> do {
              let p = p + 1;
              let pl = pl - 1;
              let s = s + 1;
              let sl = sl - 1;
              if sl = 0 then do {
                (p, pl) \<leftarrow> trailing_stars pm p pl;
                Some (pl = 0 \<and> sl = 0) }
              else match_loop pm sm nocase False p pl s sl } } })"

definition stringmatchlen :: "byte list \<Rightarrow> int \<Rightarrow> byte list \<Rightarrow> int \<Rightarrow> bool \<Rightarrow> bool option" where
  "stringmatchlen pattern patternLen str stringLen nocase =
     match_loop pattern str nocase False 0 patternLen 0 stringLen"

definition sds_bytes :: "byte list \<Rightarrow> byte list" where
  \<comment> \<open>the memory of an SDS string\<close>
  "sds_bytes bs = bs @ [0]"

subsection \<open>The meaning of a pattern\<close>

datatype class_item = Exact byte | Range byte byte | Char byte

fun class_items :: "byte list \<Rightarrow> class_item list \<times> byte list" where
  \<comment> \<open>the items of a character class up to its ']' or the end of the pattern, and the rest\<close>
  "class_items [] = ([], [])"
| "class_items (c # p) =
     (if c = 92 \<and> p \<noteq> [] then apfst (Cons (Exact (hd p))) (class_items (tl p))
      else if c = 93 then ([], p)
      else if length p \<ge> 2 \<and> hd p = 45 then apfst (Cons (Range c (p ! 1))) (class_items (drop 2 p))
      else apfst (Cons (Char c)) (class_items p))"

fun item_ok :: "bool \<Rightarrow> byte \<Rightarrow> class_item \<Rightarrow> bool" where
  "item_ok nocase x (Exact c) \<longleftrightarrow> c = x"
| "item_ok nocase x (Range a b) \<longleftrightarrow> in_range nocase a b x"
| "item_ok nocase x (Char c) \<longleftrightarrow> same_char nocase c x"

lemma class_items_length: "length (snd (class_items p)) \<le> length p"
  by (induction p rule: class_items.induct) auto

definition class_split :: "byte list \<Rightarrow> bool \<times> class_item list \<times> byte list" where
  "class_split p = (if p \<noteq> [] \<and> hd p = 94 then (True, class_items (tl p)) else (False, class_items p))"

lemma class_split_length: "class_split p = (neg, items, rest) \<Longrightarrow> length rest \<le> length p"
  using class_items_length [of p] class_items_length [of "tl p"]
  by (auto simp: class_split_def split: if_splits)

function glob :: "bool \<Rightarrow> byte list \<Rightarrow> byte list \<Rightarrow> bool" where
  "glob nocase [] s \<longleftrightarrow> s = []"
| "glob nocase (c # p) s \<longleftrightarrow>
     (if c = 42 then glob nocase p s \<or> (if s = [] then False else glob nocase (c # p) (tl s))
      else if s = [] then False
      else if c = 63 then glob nocase p (tl s)
      else if c = 91 then
        (case class_split p of (neg, items, rest) \<Rightarrow>
           list_ex (item_ok nocase (hd s)) items \<noteq> neg \<and> glob nocase rest (tl s))
      else if c = 92 \<and> p \<noteq> [] then same_char nocase (hd p) (hd s) \<and> glob nocase (tl p) (tl s)
      else same_char nocase c (hd s) \<and> glob nocase p (tl s))"
  by pat_completeness auto
termination
  by (relation "measure (\<lambda>(_, p, s). length p + length s)")
     (auto dest!: class_split_length sym [of _ "class_split _"])

declare glob.simps [simp del]

subsection \<open>Pointers and what is left of the pattern\<close>


lemma rd_Some: "i < length m \<Longrightarrow> rd m (int i) = Some (m ! i)"
  by (simp add: rd_def)

lemma rd_pattern: "i \<le> length p \<Longrightarrow> rd (sds_bytes p) (int i) = Some (if i < length p then p ! i else 0)"
  by (simp add: rd_def sds_bytes_def nth_append)

text \<open>The pointer \<open>i\<close> into the pattern and what is left of the pattern there.\<close>

definition at_pos :: "byte list \<Rightarrow> nat \<Rightarrow> byte list \<Rightarrow> bool" where
  "at_pos p i q \<longleftrightarrow> i \<le> length p \<and> q = drop i p"

lemma at_posD: "at_pos p i (c # q) \<Longrightarrow> i < length p \<and> p ! i = c \<and> at_pos p (Suc i) q"
  unfolding at_pos_def by (metis Cons_nth_drop_Suc Suc_leI drop_eq_Nil2 le_neq_implies_less list.distinct(1) list.inject order_refl)

lemma at_pos_length: "at_pos p i q \<Longrightarrow> length p = i + length q"
  by (auto simp: at_pos_def)

lemma at_pos_rd: "at_pos p i q \<Longrightarrow> rd (sds_bytes p) (int i) = Some (case q of [] \<Rightarrow> 0 | c # _ \<Rightarrow> c)"
  by (cases q) (auto simp: rd_pattern at_pos_length dest: at_posD)

lemma at_pos_rd_Suc: "at_pos p i (c # q) \<Longrightarrow> rd (sds_bytes p) (int i + 1) = Some (case q of [] \<Rightarrow> 0 | c # _ \<Rightarrow> c)"
  using at_pos_rd [of p "Suc i" q] at_posD [of p i c q] by (simp add: add.commute)

lemma skip_stars_ok:
  "at_pos p i (42 # q) \<Longrightarrow>
     \<exists>j. skip_stars (sds_bytes p) (int i) (int (Suc (length q))) =
        Some (int j, int (Suc (length (dropWhile (\<lambda>c. c = 42) q)))) \<and> at_pos p j (42 # dropWhile (\<lambda>c. c = 42) q)"
proof (induction q arbitrary: i)
  case Nil
  then show ?case using at_pos_rd_Suc [OF Nil] by (subst skip_stars.simps) auto
next
  case (Cons c q)
  note r = at_pos_rd_Suc [OF Cons.prems]
  show ?case
  proof (cases "c = 42")
    case True
    have "at_pos p (Suc i) (42 # q)" using at_posD [OF Cons.prems] True by simp
    from Cons.IH [OF this] show ?thesis using r True
      by (subst skip_stars.simps) (simp add: add.commute)
  next
    case False
    then show ?thesis using r Cons.prems by (subst skip_stars.simps) auto
  qed
qed

lemma trailing_stars_ok:
  "at_pos p i q \<Longrightarrow> \<exists>j. trailing_stars (sds_bytes p) (int i) (int (length q)) =
     Some (j, int (length (dropWhile (\<lambda>c. c = 42) q)))"
proof (induction q arbitrary: i)
  case Nil
  then show ?case using at_pos_rd [OF Nil] by (subst trailing_stars.simps) auto
next
  case (Cons c q)
  note r = at_pos_rd [OF Cons.prems]
  show ?case
  proof (cases "c = 42")
    case True
    have "at_pos p (Suc i) q" using at_posD [OF Cons.prems] by simp
    from Cons.IH [OF this] show ?thesis using r True
      by (subst trailing_stars.simps) (simp add: add.commute)
  next
    case False
    then show ?thesis using r by (subst trailing_stars.simps) auto
  qed
qed

lemma glob_nil: "glob nocase q [] \<longleftrightarrow> dropWhile (\<lambda>c. c = 42) q = []"
  by (induction q) (auto simp: glob.simps)

lemma class_loop_ok:
  assumes "rd sm s = Some x"
  shows "at_pos p i q \<Longrightarrow> i > 0 \<Longrightarrow>
    \<exists>j. class_loop (sds_bytes p) sm nocase s (int i) (int (length q)) match =
       Some (int j, int (Suc (length (snd (class_items q)))), match \<or> list_ex (item_ok nocase x) (fst (class_items q))) \<and>
     at_pos p (Suc j) (snd (class_items q))"
proof (induction q arbitrary: i match rule: class_items.induct)
  case 1
  then show ?case using at_pos_rd [OF 1(1)] assms
    by (subst class_loop.simps) (auto intro!: exI [of _ "i - 1"] simp: of_nat_diff)
next
  case (2 c q)
  note r = at_pos_rd [OF 2(4)] and r1 = at_pos_rd_Suc [OF 2(4)] and pos = at_posD [OF 2(4)]
  consider (esc) "c = 92" "q \<noteq> []" | (fin) "c = 93"
    | (range) "\<not> (c = 92 \<and> q \<noteq> [])" "c \<noteq> 93" "length q \<ge> 2 \<and> hd q = 45"
    | (chr) "\<not> (c = 92 \<and> q \<noteq> [])" "c \<noteq> 93" "\<not> (length q \<ge> 2 \<and> hd q = 45)" by blast
  then show ?case
  proof cases
    case esc
    then obtain d q' where q: "q = d # q'" by (cases q) auto
    have pos': "at_pos p (Suc (Suc i)) q'" using pos q at_posD by blast
    from 2(1) [of "Suc (Suc i)" "match \<or> d = x"] esc q pos' r r1 assms show ?thesis
      by (subst class_loop.simps) (simp add: Let_def add.commute)
  next
    case fin
    then show ?thesis using r pos by (subst class_loop.simps) auto
  next
    case range
    then obtain b q' where q: "q = 45 # b # q'" by (cases q; cases "tl q") auto
    have p1: "at_pos p (Suc i) (45 # b # q')" using pos q by simp
    note p2 = at_posD [OF p1] 
    have p3: "at_pos p (Suc (Suc (Suc i))) q'" using p2 at_posD by blast
    have r2: "rd (sds_bytes p) (int i + 2) = Some b" using at_pos_rd_Suc [OF p1] by (simp add: add.commute)
    from 2(2) [of "Suc (Suc (Suc i))" "match \<or> in_range nocase c b x"] range q p3 r r1 r2 assms show ?thesis
      by (subst class_loop.simps) (auto simp: Let_def add.commute)
  next
    case chr
    have c1: "\<not> ((case q of [] \<Rightarrow> 0 | d # _ \<Rightarrow> d) = 45 \<and> int (Suc (length q)) \<ge> 3)"
      using chr(3) by (cases q) auto
    from 2(3) [of "Suc i" "match \<or> same_char nocase c x"] chr pos r r1 assms c1 show ?thesis
      by (subst class_loop.simps) (auto simp: Let_def add.commute split: if_splits)
  qed
qed

lemma glob_star: "glob nocase (42 # q) t \<longleftrightarrow> glob nocase q t \<or> (t \<noteq> [] \<and> glob nocase (42 # q) (tl t))"
  by (subst glob.simps) simp

lemma glob_star_star: "glob nocase (42 # 42 # q) t \<longleftrightarrow> glob nocase (42 # q) t"
proof (induction t)
  case Nil
  then show ?case by (simp add: glob_nil)
next
  case (Cons x t)
  then show ?case using glob_star [of nocase "42 # q" "x # t"] glob_star [of nocase q "x # t"] by auto
qed

lemma glob_skip_stars: "glob nocase (42 # dropWhile (\<lambda>c. c = 42) q) t \<longleftrightarrow> glob nocase (42 # q) t"
  by (induction q) (auto simp: glob_star_star)

lemma glob_star_end: "glob nocase [42] t"
proof (induction t)
  case Nil
  then show ?case by (simp add: glob_nil)
next
  case (Cons x t)
  then show ?case using glob_star [of nocase "[]" "x # t"] by simp
qed

definition one_char :: "bool \<Rightarrow> byte \<Rightarrow> byte list \<Rightarrow> byte \<Rightarrow> (bool \<times> byte list)" where
  \<comment> \<open>whether a non-star token of the pattern accepts a character, and the pattern after it\<close>
  "one_char nocase c q x =
     (if c = 63 then (True, q)
      else if c = 91 then (case class_split q of (neg, items, rest) \<Rightarrow> (list_ex (item_ok nocase x) items \<noteq> neg, rest))
      else if c = 92 \<and> q \<noteq> [] then (same_char nocase (hd q) x, tl q)
      else (same_char nocase c x, q))"

lemma glob_one_char:
  "c \<noteq> 42 \<Longrightarrow> glob nocase (c # q) (x # t) \<longleftrightarrow> fst (one_char nocase c q x) \<and> glob nocase (snd (one_char nocase c q x)) t"
  by (subst glob.simps) (auto simp: one_char_def split: prod.splits)

lemma match_finish:
  assumes "at_pos p j r"
  shows "do { (p', pl') \<leftarrow> trailing_stars (sds_bytes p) (int j) (int (length r)); Some (pl' = 0) } = Some (glob nocase r [])"
  using trailing_stars_ok [OF assms] by (auto simp: glob_nil)

lemma match_loop_one:
  assumes c: "c \<noteq> 42" and p: "at_pos p i (c # q)" and s: "at_pos s k (x # t)"
    and IH: "\<And>j r. at_pos p j r \<Longrightarrow> length r \<le> length q \<Longrightarrow> t \<noteq> [] \<Longrightarrow>
      match_loop (sds_bytes p) (sds_bytes s) nocase False (int j) (int (length r)) (int (Suc k)) (int (length t)) =
      Some (glob nocase r t)"
  shows "match_loop (sds_bytes p) (sds_bytes s) nocase False (int i) (int (length (c # q))) (int k) (int (length (x # t))) =
    Some (glob nocase (c # q) (x # t))"
proof -
  note r = at_pos_rd [OF p] and pos = at_posD [OF p] and spos = at_posD [OF s] and x = at_pos_rd [OF s]
  have g: "glob nocase (c # q) (x # t) \<longleftrightarrow> fst (one_char nocase c q x) \<and> glob nocase (snd (one_char nocase c q x)) t"
    using glob_one_char [OF c] .
  consider (any) "c = 63" | (cls) "c = 91" | (esc) "c = 92" "q \<noteq> []" | (lit) "c \<noteq> 63" "c \<noteq> 91" "\<not> (c = 92 \<and> q \<noteq> [])"
    by blast
  then show ?thesis
  proof cases
    case any
    then show ?thesis using r x c g pos match_finish [of p "Suc i" q nocase] IH [of "Suc i" q]
      by (cases "t = []"; subst match_loop.simps; simp add: one_char_def Let_def add.commute)
  next
    case cls
    define neg where "neg = (q \<noteq> [] \<and> hd q = 94)"
    define q' where "q' = (if neg then tl q else q)"
    obtain m where m: "at_pos p m q'" "m > 0" "int m = (if neg then int i + 1 + 1 else int i + 1)"
      "int (length q') = (if neg then int (length q) - 1 else int (length q))"
    proof (cases neg)
      case True
      then obtain q1 where "q = 94 # q1" by (cases q) (auto simp: neg_def)
      then show thesis using that [of "Suc (Suc i)"] pos at_posD True by (auto simp: q'_def)
    next
      case False
      then show thesis using that [of "Suc i"] pos by (auto simp: q'_def)
    qed
    have hd: "(case q of [] \<Rightarrow> 0 | d # _ \<Rightarrow> d) = 94 \<longleftrightarrow> neg" by (cases q) (auto simp: neg_def)
    have cs: "class_split q = (neg, class_items q')" by (auto simp: class_split_def neg_def q'_def)
    have xs: "rd (sds_bytes s) (int k) = Some x" using x by simp
    obtain j where j: "class_loop (sds_bytes p) (sds_bytes s) nocase (int k) (int m) (int (length q')) False =
       Some (int j, int (Suc (length (snd (class_items q')))), list_ex (item_ok nocase x) (fst (class_items q')))"
      "at_pos p (Suc j) (snd (class_items q'))"
      using class_loop_ok [OF xs m(1,2), of nocase False] by auto
    have le: "length (snd (class_items q')) \<le> length q"
      using class_items_length [of q'] by (auto simp: q'_def split: if_splits)
    have oc: "one_char nocase c q x = (list_ex (item_ok nocase x) (fst (class_items q')) \<noteq> neg, snd (class_items q'))"
      using cls cs by (simp add: one_char_def split: prod.splits)
    have n: "(91 :: byte) \<noteq> 63" "(91 :: byte) \<noteq> 42" by code_simp+
    define res where "res = Some (int j, int (Suc (length (snd (class_items q')))), list_ex (item_ok nocase x) (fst (class_items q')))"
    have me: "neg \<Longrightarrow> class_loop (sds_bytes p) (sds_bytes s) nocase (int k) (int i + 2) (int (length q) - 1) False = res"
      "\<not> neg \<Longrightarrow> class_loop (sds_bytes p) (sds_bytes s) nocase (int k) (1 + int i) (int (length q)) False = res"
      using j(1) m(3,4) by (simp_all add: res_def add.commute)
    show ?thesis using n r at_pos_rd_Suc [OF p] cls me match_finish [OF j(2), of nocase] IH [OF j(2) le]
      unfolding g oc
      by (cases neg; cases "t = []"; subst match_loop.simps; simp add: Let_def hd res_def add.commute)
  next
    case esc
    then obtain d q1 where q: "q = d # q1" by (cases q) auto
    have pos2: "at_pos p (Suc (Suc i)) q1" using pos q at_posD by blast
    have n: "(92 :: byte) \<noteq> 63" "(92 :: byte) \<noteq> 91" "(92 :: byte) \<noteq> 42" by code_simp+
    show ?thesis using n r x c g pos esc q at_pos_rd_Suc [OF p] match_finish [OF pos2, of nocase] IH [OF pos2]
      by (cases "t = []"; subst match_loop.simps; simp add: one_char_def Let_def add.commute)
  next
    case lit
    then have "(if c = 92 \<and> int (length (c # q)) \<ge> 2 then a else b) = b" for a b :: "int \<times> int" by (cases q) auto
    then show ?thesis using r x c g pos lit match_finish [of p "Suc i" q nocase] IH [of "Suc i" q]
      by (cases "t = []"; subst match_loop.simps; simp add: one_char_def Let_def add.commute)
  qed
qed

lemma match_loop_ok:
  "at_pos p i q \<Longrightarrow> at_pos s k t \<Longrightarrow>
   (if star then \<exists>q'. q = 42 # q' \<and> q' \<noteq> [] \<and> hd q' \<noteq> 42 else t \<noteq> []) \<Longrightarrow>
   match_loop (sds_bytes p) (sds_bytes s) nocase star (int i) (int (length q)) (int k) (int (length t)) = Some (glob nocase q t)"
proof (induction "2 * (length q + length t) + (if star then 0 else 1)" arbitrary: star i q k t rule: less_induct)
  case less
  note IH = less(1) and pos = less(2) and spos = less(3) and side = less(4)
  show ?case
  proof (cases star)
    case True
    then obtain q' where q: "q = 42 # q'" "q' \<noteq> []" "hd q' \<noteq> 42" using side by auto
    have pos': "at_pos p (Suc i) q'" using pos q at_posD by blast
    show ?thesis
    proof (cases t)
      case Nil
      have "dropWhile (\<lambda>c. c = 42) q' \<noteq> []" using q(2,3) by (cases q') auto
      then show ?thesis using Nil True q by (subst match_loop.simps) (simp add: glob_nil)
    next
      case (Cons x t')
      have one: "match_loop (sds_bytes p) (sds_bytes s) nocase False (int (Suc i)) (int (length q')) (int k) (int (length t)) =
        Some (glob nocase q' t)"
        using IH [of q' t False "Suc i" k] pos' spos q True Cons by simp
      have two: "match_loop (sds_bytes p) (sds_bytes s) nocase True (int i) (int (length q)) (int (Suc k)) (int (length t')) =
        Some (glob nocase q t')"
        using IH [of q t' True i "Suc k"] pos spos q True Cons at_posD by auto
      have g: "glob nocase q t \<longleftrightarrow> glob nocase q' t \<or> glob nocase q t'"
        using glob_star [of nocase q' t] q(1) Cons by simp
      show ?thesis using one two True q(1) Cons unfolding g
        by (subst match_loop.simps) (simp add: add.commute)
    qed
  next
    case False
    then obtain x t' where t: "t = x # t'" using side by (cases t) auto
    show ?thesis
    proof (cases q)
      case Nil
      then show ?thesis using False t by (subst match_loop.simps) (simp add: glob.simps)
    next
      case (Cons c q1)
      show ?thesis
      proof (cases "c = 42")
        case True
        let ?q = "dropWhile (\<lambda>c. c = 42) q1"
        obtain j where j: "skip_stars (sds_bytes p) (int i) (int (Suc (length q1))) = Some (int j, int (Suc (length ?q)))"
          "at_pos p j (42 # ?q)"
          using skip_stars_ok [of p i q1] pos Cons True by auto
        have g: "glob nocase q t = glob nocase (42 # ?q) t" using glob_skip_stars Cons True by simp
        show ?thesis
        proof (cases "?q = []")
          case nil: True
          have "glob nocase q t" unfolding g nil by (rule glob_star_end)
          then show ?thesis using j(1) [unfolded nil] at_pos_rd [OF pos] Cons \<open>c = 42\<close> False
            by (subst match_loop.simps) simp
        next
          case ne: False
          have "length ?q \<le> length q1" by (rule length_dropWhile_le)
          moreover have "hd ?q \<noteq> 42" using hd_dropWhile [OF ne] by simp
          ultimately have "match_loop (sds_bytes p) (sds_bytes s) nocase True (int j) (int (length (42 # ?q))) (int k) (int (length t)) =
            Some (glob nocase (42 # ?q) t)"
            using IH [of "42 # ?q" t True j k] j(2) spos ne Cons False by simp
          then show ?thesis using j(1) at_pos_rd [OF pos] Cons \<open>c = 42\<close> False ne unfolding g
            by (subst match_loop.simps) auto
        qed
      next
        case c: False
        have "match_loop (sds_bytes p) (sds_bytes s) nocase False (int j) (int (length r)) (int (Suc k)) (int (length t')) =
          Some (glob nocase r t')" if "at_pos p j r" "length r \<le> length q1" "t' \<noteq> []" for j r
          using IH [of r t' False j "Suc k"] that spos t Cons False at_posD by auto
        from match_loop_one [OF c, of p i q1 s k x t' nocase, OF _ _ this] pos spos Cons t False
        show ?thesis by simp
      qed
    qed
  qed
qed

lemma stringmatchlen_ok:
  assumes "s \<noteq> []"
  shows "stringmatchlen (sds_bytes p) (int (length p)) (sds_bytes s) (int (length s)) nocase = Some (glob nocase p s)"
  using match_loop_ok [of p 0 p s 0 s False nocase] assms by (simp add: stringmatchlen_def at_pos_def)

text \<open>Property C16. Matching an SDS pattern against a non-empty SDS string returns, for every
  pattern, whether the string is in the language of the pattern; the matcher ends and reads
  only the bytes of the two strings and their terminators.\<close>

theorem stringmatchlen_correct:
  assumes "s \<noteq> []"
  shows "stringmatchlen (sds_bytes p) (int (length p)) (sds_bytes s) (int (length s)) nocase = Some (glob nocase p s)"
  using stringmatchlen_ok [OF assms] .

theorem stringmatchlen_correct_witness:
  "stringmatchlen (sds_bytes (bytes_of ''h[a-e]**o?'')) 10 (sds_bytes (bytes_of ''hello!'')) 6 False = Some True"
proof -
  have "glob False (bytes_of ''h[a-e]**o?'') (bytes_of ''hello!'')"
    by (simp add: glob.simps bytes_of_def of_char_def class_split_def same_char_def in_range_def)
  then show ?thesis
    using stringmatchlen_correct [of "bytes_of ''hello!''" "bytes_of ''h[a-e]**o?''" False] by (simp add: bytes_of_def)
qed

text \<open>Against the empty string a character class is compared with the terminator
  and the string length becomes -1: the pattern \<open>[^a]*\<close>, which needs one character, matches
  the empty string, and \<open>[^a][^a]\<close> reads beyond the terminator.\<close>

lemma stringmatchlen_empty_string:
  "stringmatchlen (sds_bytes (bytes_of ''[^a]*'')) 5 (sds_bytes []) 0 False = Some True \<and>
   \<not> glob False (bytes_of ''[^a]*'') [] \<and>
   stringmatchlen (sds_bytes (bytes_of ''[^a][^a]'')) 8 (sds_bytes []) 0 False = None"
  by (simp add: stringmatchlen_def match_loop.simps class_loop.simps skip_stars.simps trailing_stars.simps
      rd_def sds_bytes_def bytes_of_def of_char_def same_char_def glob.simps)

end
