(* ===== verification/Sds.thy ===== *)
theory Sds
  imports Glob
begin

section \<open>Simple dynamic strings (sds.h, sds.c)\<close>

text \<open>
  Redis strings: a header of one of five widths (\<open>len\<close> and \<open>alloc\<close> at 5, 8, 16, 32 or 64
  bits) followed by the bytes and a terminator. The model keeps the header fields as words of
  their width, so that a length that does not fit is truncated as in C, and the bytes after
  the header as a block of memory with bounds-checked accesses. \<open>size_t\<close> arithmetic is
  written with its reduction modulo \<open>2^64\<close>. The allocator returns unspecified bytes
  (\<open>junk\<close>); it does not return NULL, since \<open>zmalloc\<close> aborts the process instead.

  \<open>sds_ok\<close> is the well-formedness invariant, \<open>sds_val\<close> the byte string that is represented.
  Every operation is shown to succeed on a well-formed string (no access outside the
  allocation, no failed assertion) and to act on \<open>sds_val\<close> as its list counterpart does.
\<close>

named_theorems sds_simps \<open>header fields of a string\<close>

definition size_t :: "nat \<Rightarrow> nat" where "size_t n = n mod 2 ^ 64"
definition ssize_to_size :: "int \<Rightarrow> nat" where "ssize_to_size i = nat (i mod 2 ^ 64)"
definition uint_cast :: "int \<Rightarrow> int" where "uint_cast i = i mod 2 ^ 32"
definition to_ssize :: "int \<Rightarrow> int" where "to_ssize i = (i + 2 ^ 63) mod 2 ^ 64 - 2 ^ 63"

definition strlen :: "byte list \<Rightarrow> nat option" where
  \<comment> \<open>None when there is no terminator inside the block\<close>
  "strlen m = (let n = length (takeWhile (\<lambda>b. b \<noteq> 0) m) in if n < length m then Some n else None)"

subsection \<open>Headers\<close>

datatype sds_type = SDS_TYPE_5 | SDS_TYPE_8 | SDS_TYPE_16 | SDS_TYPE_32 | SDS_TYPE_64

fun sds_type_num :: "sds_type \<Rightarrow> nat" where
  "sds_type_num SDS_TYPE_5 = 0"
| "sds_type_num SDS_TYPE_8 = 1"
| "sds_type_num SDS_TYPE_16 = 2"
| "sds_type_num SDS_TYPE_32 = 3"
| "sds_type_num SDS_TYPE_64 = 4"

lemma sds_type_num_inj: "sds_type_num a = sds_type_num b \<Longrightarrow> a = b"
  by (cases a; cases b) simp_all

instantiation sds_type :: linorder
begin
definition less_eq_sds_type :: "sds_type \<Rightarrow> sds_type \<Rightarrow> bool" where
  "less_eq_sds_type a b \<longleftrightarrow> sds_type_num a \<le> sds_type_num b"
definition less_sds_type :: "sds_type \<Rightarrow> sds_type \<Rightarrow> bool" where
  "less_sds_type a b \<longleftrightarrow> sds_type_num a < sds_type_num b"
instance
  by intro_classes (auto simp: less_eq_sds_type_def less_sds_type_def intro: sds_type_num_inj)
end

datatype sdshdr =
    sdshdr5 (flags: byte)
  | sdshdr8 (len8: "8 word") (alloc8: "8 word")
  | sdshdr16 (len16: "16 word") (alloc16: "16 word")
  | sdshdr32 (len32: "32 word") (alloc32: "32 word")
  | sdshdr64 (len64: "64 word") (alloc64: "64 word")

record sds =
  hdr :: sdshdr
  buf :: "byte list"

fun hdr_type :: "sdshdr \<Rightarrow> sds_type" where
  "hdr_type (sdshdr5 f) = SDS_TYPE_5"
| "hdr_type (sdshdr8 l a) = SDS_TYPE_8"
| "hdr_type (sdshdr16 l a) = SDS_TYPE_16"
| "hdr_type (sdshdr32 l a) = SDS_TYPE_32"
| "hdr_type (sdshdr64 l a) = SDS_TYPE_64"

definition SDS_TYPE_5_LEN :: "byte \<Rightarrow> nat" where "SDS_TYPE_5_LEN f = unat (drop_bit 3 f)"

fun hdr_len :: "sdshdr \<Rightarrow> nat" where
  "hdr_len (sdshdr5 f) = SDS_TYPE_5_LEN f"
| "hdr_len (sdshdr8 l a) = unat l"
| "hdr_len (sdshdr16 l a) = unat l"
| "hdr_len (sdshdr32 l a) = unat l"
| "hdr_len (sdshdr64 l a) = unat l"

definition sdslen :: "sds \<Rightarrow> nat" where "sdslen s = hdr_len (hdr s)"

fun hdr_avail :: "sdshdr \<Rightarrow> nat" where
  \<comment> \<open>the 8 and 16 bit fields are promoted to \<open>int\<close> before the subtraction\<close>
  "hdr_avail (sdshdr5 f) = 0"
| "hdr_avail (sdshdr8 l a) = ssize_to_size (uint a - uint l)"
| "hdr_avail (sdshdr16 l a) = ssize_to_size (uint a - uint l)"
| "hdr_avail (sdshdr32 l a) = unat (a - l)"
| "hdr_avail (sdshdr64 l a) = unat (a - l)"

definition sdsavail :: "sds \<Rightarrow> nat" where "sdsavail s = hdr_avail (hdr s)"

fun hdr_setlen :: "nat \<Rightarrow> sdshdr \<Rightarrow> sdshdr" where
  "hdr_setlen n (sdshdr5 f) = sdshdr5 (push_bit 3 (of_nat n))"
| "hdr_setlen n (sdshdr8 l a) = sdshdr8 (of_nat n) a"
| "hdr_setlen n (sdshdr16 l a) = sdshdr16 (of_nat n) a"
| "hdr_setlen n (sdshdr32 l a) = sdshdr32 (of_nat n) a"
| "hdr_setlen n (sdshdr64 l a) = sdshdr64 (of_nat n) a"

definition sdssetlen :: "nat \<Rightarrow> sds \<Rightarrow> sds" where
  "sdssetlen n s = s\<lparr>hdr := hdr_setlen n (hdr s)\<rparr>"

fun hdr_inclen :: "nat \<Rightarrow> sdshdr \<Rightarrow> sdshdr" where
  "hdr_inclen n (sdshdr5 f) =
     (let newlen = (of_nat (SDS_TYPE_5_LEN f + n) :: byte) in sdshdr5 (push_bit 3 newlen))"
| "hdr_inclen n (sdshdr8 l a) = sdshdr8 (l + of_nat n) a"
| "hdr_inclen n (sdshdr16 l a) = sdshdr16 (l + of_nat n) a"
| "hdr_inclen n (sdshdr32 l a) = sdshdr32 (l + of_nat n) a"
| "hdr_inclen n (sdshdr64 l a) = sdshdr64 (l + of_nat n) a"

definition sdsinclen :: "nat \<Rightarrow> sds \<Rightarrow> sds" where
  "sdsinclen n s = s\<lparr>hdr := hdr_inclen n (hdr s)\<rparr>"

fun hdr_alloc :: "sdshdr \<Rightarrow> nat" where
  "hdr_alloc (sdshdr5 f) = SDS_TYPE_5_LEN f"
| "hdr_alloc (sdshdr8 l a) = unat a"
| "hdr_alloc (sdshdr16 l a) = unat a"
| "hdr_alloc (sdshdr32 l a) = unat a"
| "hdr_alloc (sdshdr64 l a) = unat a"

definition sdsalloc :: "sds \<Rightarrow> nat" where "sdsalloc s = hdr_alloc (hdr s)"

fun hdr_setalloc :: "nat \<Rightarrow> sdshdr \<Rightarrow> sdshdr" where
  "hdr_setalloc n (sdshdr5 f) = sdshdr5 f"
| "hdr_setalloc n (sdshdr8 l a) = sdshdr8 l (of_nat n)"
| "hdr_setalloc n (sdshdr16 l a) = sdshdr16 l (of_nat n)"
| "hdr_setalloc n (sdshdr32 l a) = sdshdr32 l (of_nat n)"
| "hdr_setalloc n (sdshdr64 l a) = sdshdr64 l (of_nat n)"

definition sdssetalloc :: "nat \<Rightarrow> sds \<Rightarrow> sds" where
  "sdssetalloc n s = s\<lparr>hdr := hdr_setalloc n (hdr s)\<rparr>"

fun sdsHdrSize :: "sds_type \<Rightarrow> nat" where
  "sdsHdrSize SDS_TYPE_5 = 1"
| "sdsHdrSize SDS_TYPE_8 = 3"
| "sdsHdrSize SDS_TYPE_16 = 5"
| "sdsHdrSize SDS_TYPE_32 = 9"
| "sdsHdrSize SDS_TYPE_64 = 17"

definition sdsReqType :: "nat \<Rightarrow> sds_type" where
  \<comment> \<open>on a host where \<open>LONG_MAX == LLONG_MAX\<close>\<close>
  "sdsReqType n =
     (if n < 2 ^ 5 then SDS_TYPE_5
      else if n < 2 ^ 8 then SDS_TYPE_8
      else if n < 2 ^ 16 then SDS_TYPE_16
      else if n < 2 ^ 32 then SDS_TYPE_32
      else SDS_TYPE_64)"

fun raw_hdr :: "(nat \<Rightarrow> byte) \<Rightarrow> sds_type \<Rightarrow> sdshdr" where
  \<comment> \<open>the header of a fresh allocation whose flags byte has been set to the type; the other
     fields hold what the allocator left there\<close>
  "raw_hdr junk SDS_TYPE_5 = sdshdr5 0"
| "raw_hdr junk SDS_TYPE_8 = sdshdr8 (junk 0) (junk 1)"
| "raw_hdr junk SDS_TYPE_16 = sdshdr16 (le_decode (map junk [0..<2])) (le_decode (map junk [2..<4]))"
| "raw_hdr junk SDS_TYPE_32 = sdshdr32 (le_decode (map junk [0..<4])) (le_decode (map junk [4..<8]))"
| "raw_hdr junk SDS_TYPE_64 = sdshdr64 (le_decode (map junk [0..<8])) (le_decode (map junk [8..<16]))"

definition sds_malloc_buf :: "(nat \<Rightarrow> byte) \<Rightarrow> sds_type \<Rightarrow> nat \<Rightarrow> byte list" where
  \<comment> \<open>the bytes after the header in a fresh allocation of \<open>hdrlen+n+1\<close> bytes\<close>
  "sds_malloc_buf junk t n =
     map (\<lambda>i. junk (sdsHdrSize t + i)) [0..<size_t (sdsHdrSize t + n + 1) - sdsHdrSize t]"

subsection \<open>Creation\<close>

definition sdsnewlen :: "(nat \<Rightarrow> byte) \<Rightarrow> byte list option \<Rightarrow> nat \<Rightarrow> sds option" where
  \<comment> \<open>\<open>init = None\<close> is the NULL pointer: the allocation is zeroed\<close>
  "sdsnewlen junk init initlen = do {
     let type = sdsReqType initlen;
     let type = (if type = SDS_TYPE_5 \<and> initlen = 0 then SDS_TYPE_8 else type);
     let junk = (if init = None then (\<lambda>_. 0) else junk);
     let s = \<lparr>hdr = raw_hdr junk type, buf = sds_malloc_buf junk type initlen\<rparr>;
     let s = sdssetalloc initlen (sdssetlen initlen s);
     b \<leftarrow> (case init of
             Some t \<Rightarrow> if initlen \<noteq> 0 then do { x \<leftarrow> mem_read t 0 initlen; mem_write (buf s) 0 x }
                      else Some (buf s)
           | None \<Rightarrow> Some (buf s));
     b \<leftarrow> mem_write b (int initlen) [0];
     Some (s\<lparr>buf := b\<rparr>) }"

definition sdsempty :: "(nat \<Rightarrow> byte) \<Rightarrow> sds option" where
  "sdsempty junk = sdsnewlen junk (Some [0]) 0"

definition sdsnew :: "(nat \<Rightarrow> byte) \<Rightarrow> byte list option \<Rightarrow> sds option" where
  "sdsnew junk init = do {
     initlen \<leftarrow> (case init of None \<Rightarrow> Some 0 | Some t \<Rightarrow> strlen t);
     sdsnewlen junk init initlen }"

definition sdsdup :: "(nat \<Rightarrow> byte) \<Rightarrow> sds \<Rightarrow> sds option" where
  "sdsdup junk s = sdsnewlen junk (Some (buf s)) (sdslen s)"

definition sdsupdatelen :: "sds \<Rightarrow> sds option" where
  "sdsupdatelen s = do { reallen \<leftarrow> strlen (buf s); Some (sdssetlen reallen s) }"

definition sdsclear :: "sds \<Rightarrow> sds option" where
  "sdsclear s = do {
     let s = sdssetlen 0 s;
     b \<leftarrow> mem_write (buf s) 0 [0];
     Some (s\<lparr>buf := b\<rparr>) }"

subsection \<open>Allocation\<close>

definition SDS_MAX_PREALLOC :: nat where "SDS_MAX_PREALLOC = 1024 * 1024"

definition sdsMakeRoomFor :: "(nat \<Rightarrow> byte) \<Rightarrow> sds \<Rightarrow> nat \<Rightarrow> sds option" where
  "sdsMakeRoomFor junk s addlen =
     (let avail = sdsavail s; oldtype = hdr_type (hdr s) in
      if avail \<ge> addlen then Some s
      else do {
        let len = sdslen s;
        let newlen = size_t (len + addlen);
        let newlen = (if newlen < SDS_MAX_PREALLOC then size_t (newlen * 2)
                      else size_t (newlen + SDS_MAX_PREALLOC));
        let type = sdsReqType newlen;
        let type = (if type = SDS_TYPE_5 then SDS_TYPE_8 else type);
        let hdrlen = sdsHdrSize type;
        s \<leftarrow>
          (if oldtype = type then
             Some (s\<lparr>buf := mem_resize junk (buf s) (size_t (hdrlen + newlen + 1) - hdrlen)\<rparr>)
           else do {
             x \<leftarrow> mem_read (buf s) 0 (size_t (len + 1));
             b \<leftarrow> mem_write (sds_malloc_buf junk type newlen) 0 x;
             Some (sdssetlen len \<lparr>hdr = raw_hdr junk type, buf = b\<rparr>) });
        Some (sdssetalloc newlen s) })"

definition sdsRemoveFreeSpace :: "(nat \<Rightarrow> byte) \<Rightarrow> sds \<Rightarrow> sds option" where
  "sdsRemoveFreeSpace junk s = do {
     let oldtype = hdr_type (hdr s);
     let oldhdrlen = sdsHdrSize oldtype;
     let len = sdslen s;
     let type = sdsReqType len;
     s \<leftarrow>
       (if oldtype = type \<or> type > SDS_TYPE_8 then
          Some (s\<lparr>buf := mem_resize junk (buf s) (size_t (oldhdrlen + len + 1) - oldhdrlen)\<rparr>)
        else do {
          x \<leftarrow> mem_read (buf s) 0 (size_t (len + 1));
          b \<leftarrow> mem_write (sds_malloc_buf junk type len) 0 x;
          Some (sdssetlen len \<lparr>hdr = raw_hdr junk type, buf = b\<rparr>) });
     Some (sdssetalloc len s) }"

definition sdsAllocSize :: "sds \<Rightarrow> nat" where
  "sdsAllocSize s = size_t (sdsHdrSize (hdr_type (hdr s)) + sdsalloc s + 1)"

fun incr_assert :: "int \<Rightarrow> sdshdr \<Rightarrow> bool" where
  \<comment> \<open>the assertions of \<open>sdsIncrLen\<close>, with the casts they make\<close>
  "incr_assert incr (sdshdr5 f) \<longleftrightarrow>
     (incr > 0 \<and> int (SDS_TYPE_5_LEN f) + incr < 32) \<or>
     (incr < 0 \<and> int (SDS_TYPE_5_LEN f) \<ge> uint_cast (- incr))"
| "incr_assert incr (sdshdr8 l a) \<longleftrightarrow>
     (incr \<ge> 0 \<and> uint a - uint l \<ge> incr) \<or> (incr < 0 \<and> uint l \<ge> uint_cast (- incr))"
| "incr_assert incr (sdshdr16 l a) \<longleftrightarrow>
     (incr \<ge> 0 \<and> uint a - uint l \<ge> incr) \<or> (incr < 0 \<and> uint l \<ge> uint_cast (- incr))"
| "incr_assert incr (sdshdr32 l a) \<longleftrightarrow>
     (incr \<ge> 0 \<and> uint (a - l) \<ge> uint_cast incr) \<or> (incr < 0 \<and> uint l \<ge> uint_cast (- incr))"
| "incr_assert incr (sdshdr64 l a) \<longleftrightarrow>
     (incr \<ge> 0 \<and> uint (a - l) \<ge> (incr mod 2 ^ 64)) \<or> (incr < 0 \<and> uint l \<ge> (- incr) mod 2 ^ 64)"

fun hdr_incr :: "int \<Rightarrow> sdshdr \<Rightarrow> sdshdr \<times> nat" where
  \<comment> \<open>the new header and the local variable \<open>len\<close>\<close>
  "hdr_incr incr (sdshdr5 f) =
     (sdshdr5 (push_bit 3 (word_of_int (int (SDS_TYPE_5_LEN f) + incr))),
      ssize_to_size (int (SDS_TYPE_5_LEN f) + incr))"
| "hdr_incr incr (sdshdr8 l a) = (let l = l + word_of_int incr in (sdshdr8 l a, unat l))"
| "hdr_incr incr (sdshdr16 l a) = (let l = l + word_of_int incr in (sdshdr16 l a, unat l))"
| "hdr_incr incr (sdshdr32 l a) = (let l = l + word_of_int incr in (sdshdr32 l a, unat l))"
| "hdr_incr incr (sdshdr64 l a) = (let l = l + word_of_int incr in (sdshdr64 l a, unat l))"

definition sdsIncrLen :: "sds \<Rightarrow> int \<Rightarrow> sds option" where
  "sdsIncrLen s incr =
     (if incr_assert incr (hdr s) then do {
        let (h, len) = hdr_incr incr (hdr s);
        b \<leftarrow> mem_write (buf s) (int len) [0];
        Some (s\<lparr>hdr := h, buf := b\<rparr>) }
      else None)"

subsection \<open>Appending and copying\<close>

definition sdsgrowzero :: "(nat \<Rightarrow> byte) \<Rightarrow> sds \<Rightarrow> nat \<Rightarrow> sds option" where
  "sdsgrowzero junk s len =
     (let curlen = sdslen s in
      if len \<le> curlen then Some s
      else do {
        s \<leftarrow> sdsMakeRoomFor junk s (len - curlen);
        b \<leftarrow> mem_write (buf s) (int curlen) (replicate (size_t (len - curlen + 1)) 0);
        Some (sdssetlen len (s\<lparr>buf := b\<rparr>)) })"

definition sdscatlen :: "(nat \<Rightarrow> byte) \<Rightarrow> sds \<Rightarrow> byte list \<Rightarrow> nat \<Rightarrow> sds option" where
  "sdscatlen junk s t len = do {
     let curlen = sdslen s;
     s \<leftarrow> sdsMakeRoomFor junk s len;
     x \<leftarrow> mem_read t 0 len;
     b \<leftarrow> mem_write (buf s) (int curlen) x;
     let s = sdssetlen (size_t (curlen + len)) (s\<lparr>buf := b\<rparr>);
     b \<leftarrow> mem_write (buf s) (int (size_t (curlen + len))) [0];
     Some (s\<lparr>buf := b\<rparr>) }"

definition sdscat :: "(nat \<Rightarrow> byte) \<Rightarrow> sds \<Rightarrow> byte list \<Rightarrow> sds option" where
  "sdscat junk s t = do { n \<leftarrow> strlen t; sdscatlen junk s t n }"

definition sdscatsds :: "(nat \<Rightarrow> byte) \<Rightarrow> sds \<Rightarrow> sds \<Rightarrow> sds option" where
  "sdscatsds junk s t = sdscatlen junk s (buf t) (sdslen t)"

definition sdscpylen :: "(nat \<Rightarrow> byte) \<Rightarrow> sds \<Rightarrow> byte list \<Rightarrow> nat \<Rightarrow> sds option" where
  "sdscpylen junk s t len = do {
     s \<leftarrow> (if sdsalloc s < len then sdsMakeRoomFor junk s (ssize_to_size (int len - int (sdslen s)))
          else Some s);
     x \<leftarrow> mem_read t 0 len;
     b \<leftarrow> mem_write (buf s) 0 x;
     b \<leftarrow> mem_write b (int len) [0];
     Some (sdssetlen len (s\<lparr>buf := b\<rparr>)) }"

definition sdscpy :: "(nat \<Rightarrow> byte) \<Rightarrow> sds \<Rightarrow> byte list \<Rightarrow> sds option" where
  "sdscpy junk s t = do { n \<leftarrow> strlen t; sdscpylen junk s t n }"

subsection \<open>Trimming, ranges, character maps, comparison\<close>

definition strchr :: "byte list \<Rightarrow> byte \<Rightarrow> bool option" where
  \<comment> \<open>whether \<open>strchr(cset, c)\<close> is not NULL: the terminator belongs to the string searched\<close>
  "strchr cset c = do { n \<leftarrow> strlen cset; Some (c \<in> set (take (n + 1) cset)) }"

function trim_left :: "byte list \<Rightarrow> byte list \<Rightarrow> int \<Rightarrow> int \<Rightarrow> int option" where
  \<comment> \<open>\<open>while (sp <= end && strchr(cset, *sp)) sp++\<close>\<close>
  "trim_left m cset e sp =
     (if sp \<le> e then do {
        c \<leftarrow> rd m sp;
        r \<leftarrow> strchr cset c;
        if r then trim_left m cset e (sp + 1) else Some sp }
      else Some sp)"
  by auto
termination by (relation "measure (\<lambda>(_, _, e, sp). nat (e + 1 - sp))") auto

function trim_right :: "byte list \<Rightarrow> byte list \<Rightarrow> int \<Rightarrow> int \<Rightarrow> int option" where
  \<comment> \<open>\<open>while (ep > sp && strchr(cset, *ep)) ep--\<close>\<close>
  "trim_right m cset sp ep =
     (if ep > sp then do {
        c \<leftarrow> rd m ep;
        r \<leftarrow> strchr cset c;
        if r then trim_right m cset sp (ep - 1) else Some ep }
      else Some ep)"
  by auto
termination by (relation "measure (\<lambda>(_, _, sp, ep). nat (ep - sp))") auto

declare trim_left.simps [simp del] trim_right.simps [simp del]

definition sdstrim :: "sds \<Rightarrow> byte list \<Rightarrow> sds option" where
  "sdstrim s cset = do {
     let e = int (sdslen s) - 1;
     sp \<leftarrow> trim_left (buf s) cset e 0;
     ep \<leftarrow> trim_right (buf s) cset sp e;
     let len = (if sp > ep then 0 else nat (ep - sp + 1));
     b \<leftarrow> (if sp \<noteq> 0 then mem_move (buf s) 0 sp len else Some (buf s));
     b \<leftarrow> mem_write b (int len) [0];
     Some (sdssetlen len (s\<lparr>buf := b\<rparr>)) }"

definition sdsrange :: "sds \<Rightarrow> int \<Rightarrow> int \<Rightarrow> sds option" where
  "sdsrange s start e =
     (let len = sdslen s in
      if len = 0 then Some s
      else do {
        let start = (if start < 0 then
                       let start = to_ssize (int len + start) in if start < 0 then 0 else start
                     else start);
        let e = (if e < 0 then let e = to_ssize (int len + e) in if e < 0 then 0 else e else e);
        let newlen = (if start > e then 0 else ssize_to_size (e - start + 1));
        let (start, newlen) =
          (if newlen \<noteq> 0 then
             if start \<ge> to_ssize (int len) then (start, 0)
             else if e \<ge> to_ssize (int len) then
               let e = to_ssize (int len - 1) in
               (start, if start > e then 0 else ssize_to_size (e - start + 1))
             else (start, newlen)
           else (0, newlen));
        b \<leftarrow> (if start \<noteq> 0 \<and> newlen \<noteq> 0 then mem_move (buf s) 0 start newlen else Some (buf s));
        b \<leftarrow> mem_write b (int newlen) [0];
        Some (sdssetlen newlen (s\<lparr>buf := b\<rparr>)) })"

definition toupper :: "int \<Rightarrow> int" where
  "toupper c = (if 97 \<le> c \<and> c \<le> 122 then c - 32 else c)"

fun map_bytes_loop :: "(byte \<Rightarrow> byte option) \<Rightarrow> byte list \<Rightarrow> nat \<Rightarrow> nat \<Rightarrow> byte list option" where
  \<comment> \<open>\<open>for (j...; n more) s[j] = f(s[j])\<close>\<close>
  "map_bytes_loop f b j 0 = Some b"
| "map_bytes_loop f b j (Suc n) = do {
     c \<leftarrow> rd b (int j);
     c \<leftarrow> f c;
     b \<leftarrow> mem_write b (int j) [c];
     map_bytes_loop f b (j + 1) n }"

definition sdstolower :: "sds \<Rightarrow> sds option" where
  "sdstolower s = do {
     b \<leftarrow> map_bytes_loop (\<lambda>c. Some (word_of_int (tolower (sint c)))) (buf s) 0 (sdslen s);
     Some (s\<lparr>buf := b\<rparr>) }"

definition sdstoupper :: "sds \<Rightarrow> sds option" where
  "sdstoupper s = do {
     b \<leftarrow> map_bytes_loop (\<lambda>c. Some (word_of_int (toupper (sint c)))) (buf s) 0 (sdslen s);
     Some (s\<lparr>buf := b\<rparr>) }"

fun mapchars_at :: "byte list \<Rightarrow> byte list \<Rightarrow> nat \<Rightarrow> nat \<Rightarrow> byte \<Rightarrow> byte option" where
  \<comment> \<open>the inner loop of \<open>sdsmapchars\<close> with its break\<close>
  "mapchars_at from to i 0 c = Some c"
| "mapchars_at from to i (Suc n) c = do {
     a \<leftarrow> rd from (int i);
     if c = a then rd to (int i) else mapchars_at from to (i + 1) n c }"

definition sdsmapchars :: "sds \<Rightarrow> byte list \<Rightarrow> byte list \<Rightarrow> nat \<Rightarrow> sds option" where
  "sdsmapchars s from to setlen = do {
     b \<leftarrow> map_bytes_loop (mapchars_at from to 0 setlen) (buf s) 0 (sdslen s);
     Some (s\<lparr>buf := b\<rparr>) }"

fun memcmp :: "byte list \<Rightarrow> byte list \<Rightarrow> nat \<Rightarrow> int option" where
  \<comment> \<open>the sign of the result, which is all the standard fixes\<close>
  "memcmp a b 0 = Some 0"
| "memcmp (x # a) (y # b) (Suc n) = (if x = y then memcmp a b n else if x < y then Some (- 1) else Some 1)"
| "memcmp _ _ (Suc n) = None"

definition sdscmp :: "sds \<Rightarrow> sds \<Rightarrow> int option" where
  "sdscmp s1 s2 = do {
     let l1 = sdslen s1;
     let l2 = sdslen s2;
     let minlen = (if l1 < l2 then l1 else l2);
     cmp \<leftarrow> memcmp (buf s1) (buf s2) minlen;
     if cmp = 0 then Some (if l1 > l2 then 1 else if l1 < l2 then - 1 else 0) else Some cmp }"


subsection \<open>The invariant and the byte string represented\<close>

definition sds_ok :: "sds \<Rightarrow> bool" where
  "sds_ok s \<longleftrightarrow> sdslen s \<le> sdsalloc s \<and> sdsalloc s < length (buf s) \<and> buf s ! sdslen s = 0"

definition sds_val :: "sds \<Rightarrow> byte list" where
  "sds_val s = take (sdslen s) (buf s)"

definition sds_part :: "byte \<Rightarrow> sds \<Rightarrow> byte list \<Rightarrow> bool" where
  \<comment> \<open>like \<open>sds_rep\<close> below, but with a byte that need not be the terminator after the value: the
     state of a string that is being built\<close>
  "sds_part x s v \<longleftrightarrow> (\<exists>z. buf s = v @ x # z) \<and> sdslen s = length v \<and> length v \<le> sdsalloc s \<and>
     sdsalloc s < length (buf s)"

definition sds_rep :: "sds \<Rightarrow> byte list \<Rightarrow> bool" where
  "sds_rep s v \<longleftrightarrow> (\<exists>z. buf s = v @ 0 # z) \<and> sdslen s = length v \<and> length v \<le> sdsalloc s \<and>
     sdsalloc s < length (buf s)"

lemma sds_rep_iff: "sds_rep s v \<longleftrightarrow> sds_ok s \<and> sds_val s = v"
proof
  assume "sds_rep s v"
  then show "sds_ok s \<and> sds_val s = v" by (auto simp: sds_rep_def sds_ok_def sds_val_def)
next
  assume r: "sds_ok s \<and> sds_val s = v"
  then have l: "sdslen s < length (buf s)" "buf s ! sdslen s = 0" by (auto simp: sds_ok_def)
  then have "buf s = take (sdslen s) (buf s) @ 0 # drop (Suc (sdslen s)) (buf s)"
    by (metis id_take_nth_drop)
  moreover have "length v = sdslen s" using r l by (auto simp: sds_val_def)
  ultimately show "sds_rep s v" using r by (auto simp: sds_rep_def sds_val_def sds_ok_def)
qed

fun hdr_cap :: "sds_type \<Rightarrow> nat" where
  "hdr_cap SDS_TYPE_5 = 2 ^ 5"
| "hdr_cap SDS_TYPE_8 = 2 ^ 8"
| "hdr_cap SDS_TYPE_16 = 2 ^ 16"
| "hdr_cap SDS_TYPE_32 = 2 ^ 32"
| "hdr_cap SDS_TYPE_64 = 2 ^ 64"

lemma type5_len_push: "SDS_TYPE_5_LEN (push_bit 3 (of_nat n)) = n mod 32"
proof -
  have "n mod 256 * 8 mod 256 = (n mod 256 mod 32) * 8" using mod_mult_mult2 [of "n mod 256" 8 32] by simp
  then have "n mod 256 * 8 mod 256 div 8 = n mod 32" by (simp add: mod_mod_cancel)
  then show ?thesis
    by (simp add: SDS_TYPE_5_LEN_def unat_drop_bit_eq push_bit_eq_mult drop_bit_eq_div
        unat_word_ariths unat_of_nat)
qed

lemma type5_len_less: "SDS_TYPE_5_LEN f < 32"
proof -
  have "unat f < 256" using unsigned_less [of f, where 'a = nat] by simp
  then show ?thesis unfolding SDS_TYPE_5_LEN_def unat_drop_bit_eq by (simp add: drop_bit_eq_div)
qed

lemma hdr_setlen_simps [sds_simps]:
  "hdr_type (hdr_setlen n h) = hdr_type h"
  "hdr_len (hdr_setlen n h) = n mod hdr_cap (hdr_type h)"
  "hdr_alloc (hdr_setlen n h) = (if hdr_type h = SDS_TYPE_5 then n mod 32 else hdr_alloc h)"
  by (cases h; simp add: type5_len_push unat_of_nat)+

lemma hdr_setalloc_simps [sds_simps]:
  "hdr_type (hdr_setalloc n h) = hdr_type h"
  "hdr_len (hdr_setalloc n h) = hdr_len h"
  "hdr_alloc (hdr_setalloc n h) = (if hdr_type h = SDS_TYPE_5 then hdr_len h else n mod hdr_cap (hdr_type h))"
  by (cases h; simp add: unat_of_nat)+

lemma raw_hdr_type [sds_simps]: "hdr_type (raw_hdr junk t) = t"
  by (cases t) simp_all

lemma hdr_alloc_less: "hdr_alloc h < hdr_cap (hdr_type h)"
proof (cases h)
  case (sdshdr5 f)
  then show ?thesis using type5_len_less by simp
next
  case (sdshdr8 l a)
  then show ?thesis using unsigned_less [of a, where 'a = nat] by simp
next
  case (sdshdr16 l a)
  then show ?thesis using unsigned_less [of a, where 'a = nat] by simp
next
  case (sdshdr32 l a)
  then show ?thesis using unsigned_less [of a, where 'a = nat] by simp
next
  case (sdshdr64 l a)
  then show ?thesis using unsigned_less [of a, where 'a = nat] by simp
qed

lemma avail_word: "unat l \<le> unat a \<Longrightarrow> unat (a - l :: 'a::len word) = unat a - unat l"
  by (simp add: unat_sub_if_size)

lemma avail_promoted:
  assumes "unat l \<le> unat a"
  shows "ssize_to_size (uint (a :: 'a::len word) - uint l) = (unat a - unat l) mod 2 ^ 64"
proof -
  have "uint a - uint l = int (unat a - unat l)" using assms by simp
  then have "(uint a - uint l) mod 2 ^ 64 = int ((unat a - unat l) mod 2 ^ 64)"
    by (simp only: zmod_int) simp
  then show ?thesis unfolding ssize_to_size_def by (simp only: nat_int)
qed

lemma hdr_avail_eq: "hdr_len h \<le> hdr_alloc h \<Longrightarrow> hdr_avail h = hdr_alloc h - hdr_len h"
proof (cases h)
  case (sdshdr8 l a)
  assume "hdr_len h \<le> hdr_alloc h"
  then show ?thesis using sdshdr8 unsigned_less [of a, where 'a = nat] by (simp add: avail_promoted)
next
  case (sdshdr16 l a)
  assume "hdr_len h \<le> hdr_alloc h"
  then show ?thesis using sdshdr16 unsigned_less [of a, where 'a = nat] by (simp add: avail_promoted)
qed (simp_all add: avail_word)

lemma setlen_simps [sds_simps]:
  "buf (sdssetlen n s) = buf s"
  "n \<le> sdsalloc s \<Longrightarrow> sdslen (sdssetlen n s) = n"
  "n \<le> sdsalloc s \<Longrightarrow> n \<le> sdsalloc (sdssetlen n s)"
  "n \<le> sdsalloc s \<Longrightarrow> sdsalloc (sdssetlen n s) \<le> sdsalloc s"
  using hdr_alloc_less [of "hdr s"]
  by (auto simp: sdssetlen_def sdslen_def sdsalloc_def sds_simps)

lemma sds_rep_setlen:
  assumes "sdsalloc s < length (buf s)" and "length v \<le> sdsalloc s" and "b = v @ 0 # z"
    and "length b = length (buf s)"
  shows "sds_rep (sdssetlen (length v) (s\<lparr>buf := b\<rparr>)) v"
proof -
  have a: "sdsalloc (s\<lparr>buf := b\<rparr>) = sdsalloc s" by (simp add: sdsalloc_def)
  show ?thesis using assms setlen_simps [of "length v" "s\<lparr>buf := b\<rparr>"]
    unfolding sds_rep_def a by (auto intro: le_less_trans)
qed

lemma sds_rep_buf:
  assumes "sds_rep s v" and "b = v' @ 0 # z" and "length v' = length v" and "length b = length (buf s)"
  shows "sds_rep (s\<lparr>buf := b\<rparr>) v'"
  using assms by (auto simp: sds_rep_def sdslen_def sdsalloc_def)

lemma sdsReqType_cap: "n < 2 ^ 64 \<Longrightarrow> n < hdr_cap (sdsReqType n)"
  by (simp add: sdsReqType_def)

lemma sds_part_avail: "sds_part x s v \<Longrightarrow> sdsavail s = sdsalloc s - length v"
  by (simp add: sds_part_def sdsavail_def sdslen_def sdsalloc_def hdr_avail_eq)

lemma sds_rep_part: "sds_rep s v = sds_part 0 s v"
  by (simp add: sds_rep_def sds_part_def)

lemma sdsHdrSize_le: "sdsHdrSize t \<le> 17"
  by (cases t) simp_all

lemma size_t_small [simp]: "n < 2 ^ 64 \<Longrightarrow> size_t n = n"
  by (simp add: size_t_def)

lemma length_sds_malloc_buf: "n < 2 ^ 63 \<Longrightarrow> length (sds_malloc_buf junk t n) = n + 1"
  using sdsHdrSize_le [of t] by (simp add: sds_malloc_buf_def)

subsection \<open>Correctness of the operations\<close>

lemma sdsMakeRoomFor_part:
  assumes rep: "sds_part x s v" and small: "length v + addlen \<le> 2 ^ 61"
  shows "\<exists>s'. sdsMakeRoomFor junk s addlen = Some s' \<and> sds_part x s' v \<and> length v + addlen \<le> sdsalloc s'"
proof (cases "addlen \<le> sdsavail s")
  case True
  then show ?thesis using rep sds_part_avail [OF rep]
    by (auto simp: sdsMakeRoomFor_def sds_part_def)
next
  case False
  define n where "n = (if length v + addlen < SDS_MAX_PREALLOC then (length v + addlen) * 2
                       else length v + addlen + SDS_MAX_PREALLOC)"
  define t where "t = (if sdsReqType n = SDS_TYPE_5 then SDS_TYPE_8 else sdsReqType n)"
  have n: "length v + addlen \<le> n" "n < 2 ^ 62" using small by (auto simp: n_def SDS_MAX_PREALLOC_def)
  have t: "t \<noteq> SDS_TYPE_5" "n < hdr_cap t"
    using sdsReqType_cap [of n] n by (auto simp: t_def)
  have nn: "(if size_t (length v + addlen) < SDS_MAX_PREALLOC then size_t (size_t (length v + addlen) * 2)
             else size_t (size_t (length v + addlen) + SDS_MAX_PREALLOC)) = n"
    using small by (auto simp: n_def SDS_MAX_PREALLOC_def)
  have l: "sdslen s = length v" and la: "length v \<le> sdsalloc s" "sdsalloc s < length (buf s)"
    using rep by (auto simp: sds_part_def)
  obtain z where b: "buf s = v @ x # z" using rep by (auto simp: sds_part_def)
  have lv: "length v + 1 < 2 ^ 64" using small by simp
  show ?thesis
  proof (cases "hdr_type (hdr s) = t")
    case True
    let ?b = "mem_resize junk (buf s) (n + 1)"
    let ?s = "sdssetalloc n (s\<lparr>buf := ?b\<rparr>)"
    have "size_t (sdsHdrSize t + n + 1) - sdsHdrSize t = n + 1"
      using n sdsHdrSize_le [of t] by simp
    then have run: "sdsMakeRoomFor junk s addlen = Some ?s"
      using False True nn by (simp add: sdsMakeRoomFor_def Let_def l t_def [symmetric] cong: if_cong)
    have "buf ?s = v @ x # take (n - length v) z @ map junk [length (buf s)..<n + 1]"
      using n by (simp add: mem_resize_def b Suc_diff_le sdssetalloc_def)
    moreover have "length (buf ?s) = n + 1" by (simp add: sdssetalloc_def)
    moreover have "sdsalloc ?s = n" "sdslen ?s = length v"
      using True t l by (auto simp: sdsalloc_def sdslen_def sdssetalloc_def sds_simps)
    ultimately have "sds_part x ?s v" using n unfolding sds_part_def by (metis add_leD1 less_add_one)
    with run n \<open>sdsalloc ?s = n\<close> show ?thesis by auto
  next
    case ty: False
    let ?m = "sds_malloc_buf junk t n"
    let ?b = "v @ x # drop (length v + 1) ?m"
    let ?s = "sdssetalloc n (sdssetlen (length v) \<lparr>hdr = raw_hdr junk t, buf = ?b\<rparr>)"
    have lm: "length ?m = n + 1" using n by (intro length_sds_malloc_buf) simp
    have "mem_write ?m 0 (v @ [x]) = Some ?b" using n lm by (simp add: mem_write_def)
    moreover have "mem_read (buf s) 0 (size_t (length v + 1)) = Some (v @ [x])"
      using lv by (simp add: mem_read_def b)
    ultimately have run: "sdsMakeRoomFor junk s addlen = Some ?s"
      using False ty nn by (simp add: sdsMakeRoomFor_def Let_def l t_def [symmetric] cong: if_cong)
    have "sdsalloc ?s = n" "sdslen ?s = length v"
      using t n by (auto simp: sdsalloc_def sdslen_def sdssetalloc_def sdssetlen_def sds_simps)
    moreover have "length ?b = n + 1" using lm n by simp
    ultimately have "sds_part x ?s v" using n by (auto simp: sds_part_def sdssetalloc_def sdssetlen_def)
    with run n \<open>sdsalloc ?s = n\<close> show ?thesis by auto
  qed
qed


lemma sdsMakeRoomFor_ok:
  assumes "sds_rep s v" and "length v + addlen \<le> 2 ^ 61"
  shows "\<exists>s'. sdsMakeRoomFor junk s addlen = Some s' \<and> sds_rep s' v \<and> length v + addlen \<le> sdsalloc s'"
  using assms sdsMakeRoomFor_part [of 0 s v addlen junk] by (simp add: sds_rep_part)

lemma sds_rep_alloc_cat:
  assumes rep: "sds_rep s v" and room: "length v + length x \<le> sdsalloc s"
  shows "\<exists>z. buf s = v @ 0 # z \<and> length x \<le> length z"
  using assms by (auto simp: sds_rep_def)

lemma sdscatlen_ok:
  assumes rep: "sds_rep s v" and t: "len \<le> length t" and small: "length v + len \<le> 2 ^ 61"
  shows "\<exists>s'. sdscatlen junk s t len = Some s' \<and> sds_rep s' (v @ take len t)"
proof -
  obtain s1 where s1: "sdsMakeRoomFor junk s len = Some s1" "sds_rep s1 v" "length v + len \<le> sdsalloc s1"
    using sdsMakeRoomFor_ok [OF rep small] by blast
  let ?x = "take len t"
  obtain z where z: "buf s1 = v @ 0 # z" "len \<le> length z"
    using sds_rep_alloc_cat [OF s1(2), of ?x] s1(3) t by auto
  let ?b1 = "take (length v) (buf s1) @ ?x @ drop (length v + len) (buf s1)"
  let ?b2 = "(v @ ?x) @ 0 # drop (length v + len + 1) (buf s1)"
  have lx: "length ?x = len" using t by simp
  have lb: "length v + len < length (buf s1)" using z by simp
  have w1: "mem_write (buf s1) (int (length v)) ?x = Some ?b1"
    using lb lx by (simp add: mem_write_Some)
  have b1: "take (length v + len) ?b1 = v @ ?x" "length ?b1 = length (buf s1)"
    "drop (length v + len + 1) ?b1 = drop (length v + len + 1) (buf s1)"
    using z lx by (simp_all add: add.commute)
  have w2: "mem_write ?b1 (int (length v + len)) [0] = Some ?b2"
    using lb b1 by (subst mem_write_Some) simp_all
  have "size_t (length v + len) = length v + len" using small by simp
  moreover have "sdslen s = length v" using rep by (simp add: sds_rep_def)
  ultimately have "sdscatlen junk s t len =
      Some (sdssetlen (length v + len) (s1\<lparr>buf := ?b2\<rparr>))"
    using s1(1) w1 w2 t by (simp add: sdscatlen_def mem_read_def sdssetlen_def Let_def)
  moreover have "sds_rep (sdssetlen (length (v @ ?x)) (s1\<lparr>buf := ?b2\<rparr>)) (v @ ?x)"
    using s1(2,3) lx lb by (intro sds_rep_setlen) (auto simp: sds_rep_def)
  ultimately show ?thesis using lx by auto
qed

lemma sdsnewlen_ok:
  assumes t: "len \<le> length t" and small: "len \<le> 2 ^ 61"
  shows "\<exists>s. sdsnewlen junk (Some t) len = Some s \<and> sds_rep s (take len t)"
proof -
  define ty where "ty = (if sdsReqType len = SDS_TYPE_5 \<and> len = 0 then SDS_TYPE_8 else sdsReqType len)"
  let ?m = "sds_malloc_buf junk ty len"
  let ?s = "sdssetalloc len (sdssetlen len \<lparr>hdr = raw_hdr junk ty, buf = ?m\<rparr>)"
  let ?b = "take len t @ [0]"
  have cap: "len < hdr_cap ty" using sdsReqType_cap [of len] small by (simp add: ty_def)
  have lm: "length ?m = len + 1" using small by (intro length_sds_malloc_buf) simp
  have bs: "buf ?s = ?m" by (simp add: sdssetalloc_def sdssetlen_def)
  have "(if len \<noteq> 0 then do { x \<leftarrow> mem_read t 0 len; mem_write ?m 0 x } else Some ?m) =
      Some (take len t @ drop len ?m)"
    using t lm by (simp add: mem_read_def mem_write_def)
  moreover have "mem_write (take len t @ drop len ?m) (int len) [0] = Some ?b"
    using t lm by (simp add: mem_write_def)
  ultimately have run: "sdsnewlen junk (Some t) len = Some (?s\<lparr>buf := ?b\<rparr>)"
    by (simp only: sdsnewlen_def Let_def ty_def [symmetric] option.distinct if_False bs option.case
        Option.bind.simps)
  have "sdslen (?s\<lparr>buf := ?b\<rparr>) = len" "sdsalloc (?s\<lparr>buf := ?b\<rparr>) = len"
    using cap by (auto simp: sdslen_def sdsalloc_def sdssetalloc_def sdssetlen_def sds_simps type5_len_push)
  then have "sds_rep (?s\<lparr>buf := ?b\<rparr>) (take len t)" using t by (simp add: sds_rep_def)
  with run show ?thesis by blast
qed

lemma sdsnewlen_null_ok:
  assumes small: "len \<le> 2 ^ 61"
  shows "\<exists>s. sdsnewlen junk None len = Some s \<and> sds_rep s (replicate len 0)"
proof -
  define ty where "ty = (if sdsReqType len = SDS_TYPE_5 \<and> len = 0 then SDS_TYPE_8 else sdsReqType len)"
  let ?m = "sds_malloc_buf (\<lambda>_. 0) ty len"
  let ?s = "sdssetalloc len (sdssetlen len \<lparr>hdr = raw_hdr (\<lambda>_. 0) ty, buf = ?m\<rparr>)"
  have cap: "len < hdr_cap ty" using sdsReqType_cap [of len] small by (simp add: ty_def)
  have m: "?m = replicate (len + 1) 0"
    using small length_sds_malloc_buf [of len "\<lambda>_. 0" ty]
    by (auto simp: sds_malloc_buf_def map_replicate_const)
  have bs: "buf ?s = ?m" by (simp add: sdssetalloc_def sdssetlen_def)
  have "?m = replicate len 0 @ [0] @ []" using m by (simp add: replicate_append_same)
  then have "mem_write ?m (int (length (replicate len (0::byte)))) [0] = Some (replicate len 0 @ [0] @ [])"
    by (simp only: mem_write_append)
  then have run: "sdsnewlen junk None len = Some (?s\<lparr>buf := replicate len 0 @ [0]\<rparr>)"
    unfolding sdsnewlen_def Let_def ty_def [symmetric] by (simp add: bs)
  have "sdslen (?s\<lparr>buf := replicate len 0 @ [0]\<rparr>) = len"
    "sdsalloc (?s\<lparr>buf := replicate len 0 @ [0]\<rparr>) = len"
    using cap by (auto simp: sdslen_def sdsalloc_def sdssetalloc_def sdssetlen_def sds_simps type5_len_push)
  then have "sds_rep (?s\<lparr>buf := replicate len 0 @ [0]\<rparr>) (replicate len 0)" by (simp add: sds_rep_def)
  with run show ?thesis by blast
qed

lemma sds_rep_small: "sds_rep s v \<Longrightarrow> length v < 2 ^ 64"
proof -
  assume "sds_rep s v"
  then have "length v \<le> hdr_alloc (hdr s)" by (simp add: sds_rep_def sdsalloc_def)
  moreover have "hdr_cap (hdr_type (hdr s)) \<le> 2 ^ 64" by (cases "hdr_type (hdr s)") simp_all
  ultimately show ?thesis using hdr_alloc_less [of "hdr s"] by linarith
qed

lemma sds_truncate:
  assumes rep: "sds_rep s v" and b: "mem_write b 0 x = Some b'" "length b = length (buf s)"
    and x: "length x \<le> sdsalloc s"
  shows "\<exists>b''. mem_write b' (int (length x)) [0] = Some b'' \<and>
    sds_rep (sdssetlen (length x) (s\<lparr>buf := b''\<rparr>)) x"
proof -
  have l: "sdsalloc s < length b" using rep b by (simp add: sds_rep_def)
  have b': "b' = x @ drop (length x) b" using b x l by (auto simp: mem_write_def split: if_splits)
  then have "mem_write b' (int (length x)) [0] = Some (x @ 0 # drop (length x + 1) b)"
    using x l by (simp add: mem_write_def)
  moreover have "sds_rep (sdssetlen (length x) (s\<lparr>buf := x @ 0 # drop (length x + 1) b\<rparr>)) x"
    using x l b rep by (intro sds_rep_setlen) (auto simp: sds_rep_def)
  ultimately show ?thesis by blast
qed

lemma sdsempty_ok: "\<exists>s. sdsempty junk = Some s \<and> sds_rep s []"
  using sdsnewlen_ok [of 0 "[0]" junk] by (simp add: sdsempty_def)

lemma sdsdup_ok:
  assumes "sds_rep s v" and "length v \<le> 2 ^ 61"
  shows "\<exists>s'. sdsdup junk s = Some s' \<and> sds_rep s' v"
proof -
  have "take (length v) (buf s) = v" "length v \<le> length (buf s)" "sdslen s = length v"
    using assms by (auto simp: sds_rep_def)
  then show ?thesis using sdsnewlen_ok [of "length v" "buf s" junk] assms(2) by (simp add: sdsdup_def)
qed

lemma takeWhile_nonzero: "0 \<notin> set cs \<Longrightarrow> takeWhile (\<lambda>b. b \<noteq> 0) cs = cs"
  by (induction cs) auto

lemma strlen_append [simp]: "0 \<notin> set cs \<Longrightarrow> strlen (cs @ 0 # z) = Some (length cs)"
  by (simp add: strlen_def takeWhile_append takeWhile_nonzero)

lemma strlen_takeWhile: "strlen (v @ 0 # z) = Some (length (takeWhile (\<lambda>b. b \<noteq> 0) v))"
proof (cases "0 \<in> set v")
  case True
  then have "takeWhile (\<lambda>b. b \<noteq> 0) (v @ 0 # z) = takeWhile (\<lambda>b. b \<noteq> 0) v"
    by (auto intro!: takeWhile_append1)
  moreover have "length (takeWhile (\<lambda>b. b \<noteq> 0) v) \<le> length v" by (rule length_takeWhile_le)
  ultimately show ?thesis by (simp add: strlen_def)
next
  case False
  then show ?thesis by (simp add: takeWhile_nonzero)
qed

lemma sdsupdatelen_ok:
  assumes rep: "sds_rep s v"
  shows "\<exists>s'. sdsupdatelen s = Some s' \<and> sds_rep s' (takeWhile (\<lambda>b. b \<noteq> 0) v)"
proof -
  let ?w = "takeWhile (\<lambda>b. b \<noteq> 0) v"
  obtain z where z: "buf s = v @ 0 # z" using rep by (auto simp: sds_rep_def)
  have w: "length ?w \<le> length v" by (rule length_takeWhile_le)
  obtain y where y: "v @ 0 # z = ?w @ 0 # y"
  proof (cases "dropWhile (\<lambda>b. b \<noteq> 0) v")
    case Nil
    then have "?w = v" by (metis append_Nil2 takeWhile_dropWhile_id)
    then have "v @ 0 # z = ?w @ 0 # z" by (simp only:)
    then show thesis by (rule that)
  next
    case (Cons a l)
    moreover from this have "a = 0" using hd_dropWhile [of "\<lambda>b. b \<noteq> 0" v] by (simp del: dropWhile_eq_Nil_conv)
    ultimately have "v = ?w @ 0 # l" using takeWhile_dropWhile_id [of "\<lambda>b. b \<noteq> 0" v] by simp
    then have "v @ 0 # z = ?w @ 0 # (l @ 0 # z)" by (metis append.assoc append_Cons)
    then show thesis by (rule that)
  qed
  have "sds_rep (sdssetlen (length ?w) (s\<lparr>buf := v @ 0 # z\<rparr>)) ?w"
    by (rule sds_rep_setlen [OF _ _ y]) (use rep w z in \<open>auto simp: sds_rep_def\<close>)
  moreover have "s\<lparr>buf := v @ 0 # z\<rparr> = s" by (cases s) (use z in simp)
  ultimately show ?thesis by (simp add: sdsupdatelen_def z strlen_takeWhile)
qed

lemma sdsclear_ok:
  assumes rep: "sds_rep s v"
  shows "\<exists>s'. sdsclear s = Some s' \<and> sds_rep s' []"
proof -
  obtain b where "mem_write (buf s) 0 [0] = Some b" "sds_rep (sdssetlen 0 (s\<lparr>buf := b\<rparr>)) []"
    using sds_truncate [OF rep, of "buf s" "[]" "buf s"] by (auto simp: mem_write_def)
  then show ?thesis by (cases s) (simp add: sdsclear_def sdssetlen_def)
qed

lemma sdsRemoveFreeSpace_ok:
  assumes rep: "sds_rep s v" and small: "length v \<le> 2 ^ 61"
  shows "\<exists>s'. sdsRemoveFreeSpace junk s = Some s' \<and> sds_rep s' v \<and> sdsalloc s' = length v \<and>
    length (buf s') = length v + 1"
proof -
  define t where "t = sdsReqType (length v)"
  obtain z where b: "buf s = v @ 0 # z" using rep by (auto simp: sds_rep_def)
  have l: "sdslen s = length v" "length v \<le> sdsalloc s" using rep by (auto simp: sds_rep_def)
  have cap: "length v < hdr_cap t" using sdsReqType_cap [of "length v"] small by (simp add: t_def)
  have capo: "length v < hdr_cap (hdr_type (hdr s))"
    using hdr_alloc_less [of "hdr s"] l by (simp add: sdsalloc_def)
  show ?thesis
  proof (cases "hdr_type (hdr s) = t \<or> t > SDS_TYPE_8")
    case True
    let ?s = "sdssetalloc (length v) (s\<lparr>buf := v @ [0]\<rparr>)"
    have "size_t (sdsHdrSize (hdr_type (hdr s)) + length v + 1) - sdsHdrSize (hdr_type (hdr s)) = length v + 1"
      using small sdsHdrSize_le [of "hdr_type (hdr s)"] by simp
    then have "sdsRemoveFreeSpace junk s = Some ?s"
      using True l by (simp add: sdsRemoveFreeSpace_def Let_def t_def [symmetric] b mem_resize_shrink)
    moreover have "sdslen ?s = length v" "sdsalloc ?s = length v" "buf ?s = v @ [0]"
      using capo l by (auto simp: sdslen_def sdsalloc_def sdssetalloc_def sds_simps)
    ultimately show ?thesis by (auto simp: sds_rep_def)
  next
    case False
    let ?m = "sds_malloc_buf junk t (length v)"
    let ?s = "sdssetalloc (length v) (sdssetlen (length v) \<lparr>hdr = raw_hdr junk t, buf = v @ [0]\<rparr>)"
    have "mem_write ?m 0 (v @ [0]) = Some (v @ [0])"
      using small length_sds_malloc_buf [of "length v" junk t] by (simp add: mem_write_def)
    moreover have "mem_read (buf s) 0 (size_t (length v + 1)) = Some (v @ [0])"
      using small by (simp add: mem_read_def b)
    ultimately have "sdsRemoveFreeSpace junk s = Some ?s"
      using False l by (simp add: sdsRemoveFreeSpace_def Let_def t_def [symmetric])
    moreover have "sdslen ?s = length v" "sdsalloc ?s = length v" "buf ?s = v @ [0]"
      using cap by (auto simp: sdslen_def sdsalloc_def sdssetalloc_def sdssetlen_def sds_simps type5_len_push)
    ultimately show ?thesis by (auto simp: sds_rep_def)
  qed
qed

lemma sdsgrowzero_ok:
  assumes rep: "sds_rep s v" and small: "len \<le> 2 ^ 61"
  shows "\<exists>s'. sdsgrowzero junk s len = Some s' \<and> sds_rep s' (v @ replicate (len - length v) 0)"
proof (cases "len \<le> length v")
  case True
  then show ?thesis using rep by (auto simp: sdsgrowzero_def sds_rep_def Let_def)
next
  case False
  let ?n = "len - length v"
  obtain s1 where s1: "sdsMakeRoomFor junk s ?n = Some s1" "sds_rep s1 v" "len \<le> sdsalloc s1"
    using sdsMakeRoomFor_ok [OF rep, of ?n junk] small False by auto
  obtain z where z: "buf s1 = v @ 0 # z" using s1 by (auto simp: sds_rep_def)
  have lz: "?n \<le> length z" using s1(2,3) by (auto simp: sds_rep_def z)
  let ?b = "(v @ replicate ?n 0) @ 0 # drop ?n z"
  have "mem_write (buf s1) (int (length v)) (replicate (?n + 1) 0) = Some ?b"
    using lz by (simp add: z mem_write_def replicate_append_same)
  moreover have "sdslen s = length v" using rep by (simp add: sds_rep_def)
  moreover have "size_t (?n + 1) = ?n + 1" using small by simp
  ultimately have "sdsgrowzero junk s len = Some (sdssetlen len (s1\<lparr>buf := ?b\<rparr>))"
    using False s1(1) by (simp add: sdsgrowzero_def Let_def)
  moreover have "sds_rep (sdssetlen (length (v @ replicate ?n 0)) (s1\<lparr>buf := ?b\<rparr>)) (v @ replicate ?n 0)"
    using s1(2,3) lz z False by (intro sds_rep_setlen) (auto simp: sds_rep_def)
  ultimately show ?thesis using False by auto
qed

lemma sdscpylen_ok:
  assumes rep: "sds_rep s v" and t: "len \<le> length t" and small: "len \<le> 2 ^ 61"
  shows "\<exists>s'. sdscpylen junk s t len = Some s' \<and> sds_rep s' (take len t)"
proof -
  have l: "sdslen s = length v" "length v \<le> sdsalloc s" using rep by (auto simp: sds_rep_def)
  obtain s1 w where s1: "(if sdsalloc s < len then sdsMakeRoomFor junk s (ssize_to_size (int len - int (sdslen s)))
       else Some s) = Some s1" "sds_rep s1 w" "len \<le> sdsalloc s1"
  proof (cases "sdsalloc s < len")
    case True
    then have "ssize_to_size (int len - int (sdslen s)) = len - length v"
      using l small by (simp add: ssize_to_size_def flip: of_nat_diff)
    then show thesis using True l small sdsMakeRoomFor_ok [OF rep, of "len - length v" junk] that by auto
  next
    case False
    then show thesis using rep that by auto
  qed
  let ?x = "take len t"
  have lx: "length ?x = len" using t by simp
  have "len \<le> length (buf s1)" using s1(2,3) by (auto simp: sds_rep_def)
  then obtain b where b: "mem_write (buf s1) 0 ?x = Some b" using lx by (simp add: mem_write_def)
  obtain b' where "mem_write b (int len) [0] = Some b'" "sds_rep (sdssetlen len (s1\<lparr>buf := b'\<rparr>)) ?x"
    using sds_truncate [OF s1(2) b] s1(3) lx by auto
  then show ?thesis using s1(1) b t by (simp add: sdscpylen_def mem_read_def)
qed

definition strip :: "('a \<Rightarrow> bool) \<Rightarrow> 'a list \<Rightarrow> 'a list" where
  "strip P xs = rev (dropWhile P (rev (dropWhile P xs)))"

lemma strchr_append: "0 \<notin> set cs \<Longrightarrow> strchr (cs @ 0 # y) c = Some (c \<in> set cs \<or> c = 0)"
  by (auto simp: strchr_def)

lemma rd_append: "rd (xs @ c # ys) (int (length xs)) = Some c"
  by (simp add: rd_def)

lemma trim_left_ok:
  assumes P: "\<And>c. strchr cset c = Some (P c)" and "k \<le> length v"
  shows "trim_left (v @ r) cset (int (length v) - 1) (int k) =
           Some (int (length v) - int (length (dropWhile P (drop k v))))"
  using assms(2)
proof (induction "length v - k" arbitrary: k)
  case 0
  then show ?case by (simp add: trim_left.simps)
next
  case (Suc n)
  then have k: "k < length v" by simp
  then have d: "drop k v = v ! k # drop (Suc k) v" by (simp add: Cons_nth_drop_Suc)
  have r: "rd (v @ r) (int k) = Some (v ! k)" using k by (simp add: rd_def nth_append)
  have IH: "trim_left (v @ r) cset (int (length v) - 1) (int k + 1) =
      Some (int (length v) - int (length (dropWhile P (drop (Suc k) v))))"
    using Suc.hyps(1) [of "Suc k"] Suc.hyps(2) k by (simp add: add.commute)
  show ?case using k IH by (subst trim_left.simps) (simp add: r P d)
qed

lemma trim_right_ok:
  assumes P: "\<And>c. strchr cset c = Some (P c)" and "w \<noteq> []" and "\<not> P (hd w)"
  shows "trim_right (u @ w @ r) cset (int (length u)) (int (length u + length w) - 1) =
           Some (int (length u + length (dropWhile P (rev w))) - 1)"
  using assms(2,3)
proof (induction w arbitrary: r rule: rev_induct)
  case (snoc c w)
  show ?case
  proof (cases w)
    case Nil
    then show ?thesis using snoc.prems by (simp add: trim_right.simps)
  next
    case (Cons a w')
    then have IH: "trim_right (u @ w @ c # r) cset (int (length u)) (int (length u + length w) - 1) =
        Some (int (length u + length (dropWhile P (rev w))) - 1)"
      using snoc.IH [of "c # r"] snoc.prems by simp
    have r: "rd (u @ w @ c # r) (int (length u + length w)) = Some c"
      using rd_append [of "u @ w" c r] by simp
    show ?thesis using IH r Cons by (subst trim_right.simps) (simp add: P)
  qed
qed simp

lemma sdstrim_ok:
  assumes rep: "sds_rep s v" and cs: "cset = cs @ 0 # y" "0 \<notin> set cs"
  shows "\<exists>s'. sdstrim s cset = Some s' \<and> sds_rep s' (strip (\<lambda>c. c \<in> set cs \<or> c = 0) v)"
proof -
  define P where "P = (\<lambda>c. c \<in> set cs \<or> c = 0)"
  have P: "strchr cset c = Some (P c)" for c using cs by (simp add: P_def strchr_append)
  obtain z where z: "buf s = v @ 0 # z" using rep by (auto simp: sds_rep_def)
  have l: "sdslen s = length v" "length v \<le> sdsalloc s" using rep by (auto simp: sds_rep_def)
  define u w where "u = takeWhile P v" and "w = dropWhile P v"
  have uw: "v = u @ w" by (simp add: u_def w_def)
  have tl: "trim_left (buf s) cset (int (length v) - 1) 0 = Some (int (length u))"
    using trim_left_ok [of cset P 0 v "0 # z"] P by (simp add: z w_def [symmetric]) (simp add: uw)
  define x where "x = rev (dropWhile P (rev w))"
  obtain y where wx: "w = x @ y"
    by (metis rev_append rev_rev_ident takeWhile_dropWhile_id x_def)
  have st: "strip P v = x" by (simp add: strip_def x_def w_def)
  obtain ep where ep: "trim_right (buf s) cset (int (length u)) (int (length v) - 1) = Some ep"
    "(if int (length u) > ep then 0 else nat (ep - int (length u) + 1)) = length x"
  proof (cases "w = []")
    case True
    then have "trim_right (buf s) cset (int (length u)) (int (length v) - 1) = Some (int (length v) - 1)"
      using uw by (subst trim_right.simps) simp
    then show thesis using that uw wx True by simp
  next
    case False
    then have h: "\<not> P (hd w)" unfolding w_def by (rule hd_dropWhile)
    have "trim_right (buf s) cset (int (length u)) (int (length v) - 1) = Some (int (length u + length x) - 1)"
      using trim_right_ok [OF P False h, of u "0 # z"] by (simp add: x_def z uw)
    moreover have "x \<noteq> []" using False h by (auto simp: x_def)
    ultimately show thesis by (intro that) auto
  qed
  obtain b where b: "(if int (length u) \<noteq> 0 then mem_move (buf s) 0 (int (length u)) (length x) else Some (buf s)) = Some b"
    "mem_write (buf s) 0 x = Some b"
  proof (cases "u = []")
    case True
    then have "mem_write (buf s) 0 x = Some (buf s)" by (simp add: mem_write_def z uw wx)
    then show thesis using that True by simp
  next
    case False
    have "mem_read (buf s) (int (length u)) (length x) = Some x"
      using mem_read_append [of x "length x" u "y @ 0 # z"] by (simp add: z uw wx)
    moreover have "\<exists>b. mem_write (buf s) 0 x = Some b" by (simp add: mem_write_def z uw wx)
    ultimately show thesis using that False by (auto simp: mem_move_def)
  qed
  obtain b' where b': "mem_write b (int (length x)) [0] = Some b'" "sds_rep (sdssetlen (length x) (s\<lparr>buf := b'\<rparr>)) x"
    using sds_truncate [OF rep b(2)] l uw wx by auto
  have "sdstrim s cset = Some (sdssetlen (length x) (s\<lparr>buf := b'\<rparr>))"
    by (simp only: sdstrim_def Let_def Option.bind.simps l(1) tl ep b(1) b'(1))
  then show ?thesis using b'(2) unfolding P_def [symmetric] st by blast
qed

definition range_val :: "int \<Rightarrow> int \<Rightarrow> 'a list \<Rightarrow> 'a list" where
  \<comment> \<open>the bytes from \<open>start\<close> to \<open>e\<close>, both included; negative indices count from the end and
     are clamped to the first byte\<close>
  "range_val start e v =
     (let n = int (length v);
        start = (if start < 0 then max 0 (n + start) else start);
        e = (if e < 0 then max 0 (n + e) else e)
      in take (nat (min e (n - 1) - start + 1)) (drop (nat start) v))"

lemma to_ssize_small: "- (2 ^ 63) \<le> i \<Longrightarrow> i < 2 ^ 63 \<Longrightarrow> to_ssize i = i"
  by (simp add: to_ssize_def)

lemma ssize_to_size_small: "0 \<le> i \<Longrightarrow> i < 2 ^ 64 \<Longrightarrow> ssize_to_size i = nat i"
  by (simp add: ssize_to_size_def)


lemma sdsrange_ok:
  assumes rep: "sds_rep s v" and small: "length v < 2 ^ 63"
    and "- (2 ^ 63) \<le> start" "start < 2 ^ 63" and "- (2 ^ 63) \<le> e" "e < 2 ^ 63"
  shows "\<exists>s'. sdsrange s start e = Some s' \<and> sds_rep s' (range_val start e v)"
proof (cases "v = []")
  case True
  then show ?thesis using rep by (simp add: sdsrange_def sds_rep_def range_val_def)
next
  case False
  let ?n = "int (length v)"
  define st where "st = (if start < 0 then max 0 (?n + start) else start)"
  define en where "en = (if e < 0 then max 0 (?n + e) else e)"
  define k where "k = nat (min en (?n - 1) - st + 1)"
  have nn: "0 < ?n" "?n < 2 ^ 63" using False small by auto
  have bd: "0 \<le> st" "st < 2 ^ 63" "0 \<le> en" "en < 2 ^ 63"
    using assms nn by (auto simp: st_def en_def)
  obtain z where z: "buf s = v @ 0 # z" using rep by (auto simp: sds_rep_def)
  have l: "sdslen s = length v" "length v \<le> sdsalloc s" using rep by (auto simp: sds_rep_def)
  let ?x = "take k (drop (nat st) v)"
  have x: "range_val start e v = ?x" by (simp add: range_val_def Let_def st_def en_def k_def)
  have cl: "(if start < 0 then let start = to_ssize (?n + start) in if start < 0 then 0 else start else start) = st"
    "(if e < 0 then let e = to_ssize (?n + e) in if e < 0 then 0 else e else e) = en"
    using assms nn by (auto simp: st_def en_def to_ssize_small Let_def)
  have sz: "to_ssize ?n = ?n" "to_ssize (?n - 1) = ?n - 1" using nn by (auto simp: to_ssize_small)
  obtain st' where st': "(if (if st > en then 0 else ssize_to_size (en - st + 1)) \<noteq> 0 then
             if st \<ge> ?n then (st, 0)
             else if en \<ge> ?n then
               (st, if st > ?n - 1 then 0 else ssize_to_size (?n - 1 - st + 1))
             else (st, if st > en then 0 else ssize_to_size (en - st + 1))
           else (0, if st > en then 0 else ssize_to_size (en - st + 1))) = (st', length ?x)"
      "length ?x \<noteq> 0 \<Longrightarrow> st' = st"
  proof (cases "st > en \<or> st \<ge> ?n")
    case True
    then have "length ?x = 0" using bd by (auto simp: k_def)
    moreover have "st \<le> en \<Longrightarrow> ssize_to_size (en - st + 1) \<noteq> 0" using bd by (simp add: ssize_to_size_small)
    ultimately show thesis using True that [of 0] that [of st] by (cases "st > en") auto
  next
    case F: False
    then have s: "ssize_to_size (en - st + 1) = nat (en - st + 1)"
      "ssize_to_size (?n - 1 - st + 1) = nat (?n - 1 - st + 1)"
      using bd nn by (auto simp: ssize_to_size_small)
    have "length ?x = k" using F bd by (auto simp: k_def)
    then show thesis using that [of st] F bd unfolding s by (auto simp: k_def min_def)
  qed
  have lx: "length ?x \<le> length v" by simp
  have lv: "(length v = 0) = False" using False by simp
  obtain b where b: "(if st' \<noteq> 0 \<and> length ?x \<noteq> 0 then mem_move (buf s) 0 st' (length ?x) else Some (buf s)) = Some b"
    "mem_write (buf s) 0 ?x = Some b"
  proof (cases "st' \<noteq> 0 \<and> length ?x \<noteq> 0")
    case True
    then have e: "st' = st" using st'(2) by simp
    have "drop (nat st) v = ?x @ drop k (drop (nat st) v)" by (rule append_take_drop_id [symmetric])
    moreover have "nat st \<le> length v" using True by auto
    ultimately have "buf s = take (nat st) v @ ?x @ (drop k (drop (nat st) v) @ 0 # z)"
      "length (take (nat st) v) = nat st"
      by (simp_all add: z)
    then have "mem_read (buf s) (int (nat st)) (length ?x) = Some ?x"
      using mem_read_append [of ?x "length ?x" "take (nat st) v"] by metis
    moreover have "\<exists>b. mem_write (buf s) 0 ?x = Some b" using lx by (simp add: mem_write_def z)
    ultimately show thesis using that True e bd by (auto simp: mem_move_def)
  next
    case False
    then have "?x = [] \<or> st = 0" using st'(2) by (metis length_0_conv)
    then have "?x = take (length ?x) (buf s)"
    proof
      assume "?x = []"
      then show ?thesis by (simp only: list.size take_0)
    next
      assume "st = 0"
      then show ?thesis by (simp add: z min_def)
    qed
    then have "mem_write (buf s) 0 ?x = Some (buf s)"
      using lx by (simp add: mem_write_def z)
    then show thesis using that False by (simp only: if_False simp_thms)
  qed
  obtain b' where b': "mem_write b (int (length ?x)) [0] = Some b'"
    "sds_rep (sdssetlen (length ?x) (s\<lparr>buf := b'\<rparr>)) ?x"
    using sds_truncate [OF rep b(2)] l lx by fastforce
  have "sdsrange s start e = Some (sdssetlen (length ?x) (s\<lparr>buf := b'\<rparr>))"
    by (simp only: sdsrange_def l lv cl [unfolded Let_def] sz st'(1) Let_def prod.case b(1) b'(1)
        Option.bind.simps if_False)
  then show ?thesis using b'(2) x by auto
qed

lemma map_bytes_loop_ok:
  assumes "\<And>c. c \<in> set v \<Longrightarrow> f c = Some (g c)"
  shows "map_bytes_loop f (u @ v @ r) (length u) (length v) = Some (u @ map g v @ r)"
  using assms
proof (induction v arbitrary: u)
  case (Cons c v)
  have w: "mem_write (u @ (c # v) @ r) (int (length u)) [g c] = Some (u @ [g c] @ v @ r)"
    using mem_write_append [of "[c]" "[g c]" u "v @ r"] by simp
  show ?case
    using Cons.prems Cons.IH [of "u @ [g c]"] w rd_append [of u c "v @ r"] by simp
qed simp

lemma map_buf_ok:
  assumes rep: "sds_rep s v" and f: "\<And>c. c \<in> set v \<Longrightarrow> f c = Some (g c)"
  shows "\<exists>s'. do { b \<leftarrow> map_bytes_loop f (buf s) 0 (sdslen s); Some (s\<lparr>buf := b\<rparr>) } = Some s' \<and>
    sds_rep s' (map g v)"
proof -
  obtain z where z: "buf s = v @ 0 # z" using rep by (auto simp: sds_rep_def)
  have l: "sdslen s = length v" using rep by (simp add: sds_rep_def)
  have m: "map_bytes_loop f (buf s) 0 (sdslen s) = Some (map g v @ 0 # z)"
    using map_bytes_loop_ok [of v f g "[]" "0 # z"] f by (simp add: z l)
  have "sds_rep (s\<lparr>buf := map g v @ 0 # z\<rparr>) (map g v)"
    by (rule sds_rep_buf [OF rep]) (simp_all add: z)
  then show ?thesis by (simp add: m)
qed

definition byte_lower :: "byte \<Rightarrow> byte" where "byte_lower c = word_of_int (tolower (sint c))"
definition byte_upper :: "byte \<Rightarrow> byte" where "byte_upper c = word_of_int (toupper (sint c))"

fun subst_byte :: "(byte \<times> byte) list \<Rightarrow> byte \<Rightarrow> byte" where
  "subst_byte [] c = c"
| "subst_byte ((a, b) # ps) c = (if c = a then b else subst_byte ps c)"

lemma mapchars_at_ok:
  assumes "length from = length to" and "length tu = length fu"
  shows "mapchars_at (fu @ from) (tu @ to) (length fu) (length from) c = Some (subst_byte (zip from to) c)"
  using assms
proof (induction "from" "to" arbitrary: fu tu rule: list_induct2)
  case (Cons a as b bs)
  then show ?case
    using Cons.IH [where fu = "fu @ [a]" and tu = "tu @ [b]"] rd_append [of fu a as] rd_append [of tu b bs] by simp
qed simp

lemma sdsmapchars_ok:
  assumes rep: "sds_rep s v" and l: "length from = n" "length to = n"
  shows "\<exists>s'. sdsmapchars s from to n = Some s' \<and> sds_rep s' (map (subst_byte (zip from to)) v)"
  unfolding sdsmapchars_def using mapchars_at_ok [of "from" "to" "[]" "[]"] l
  by (intro map_buf_ok [OF rep]) simp

abbreviation bytes_less :: "byte list \<Rightarrow> byte list \<Rightarrow> bool" where
  "bytes_less a b \<equiv> (a, b) \<in> lexord {(x, y). x < y}"

lemma memcmp_ok:
  "\<exists>c. memcmp (v1 @ r1) (v2 @ r2) (min (length v1) (length v2)) = Some c \<and>
     (let d = (if c = 0 then if length v1 > length v2 then 1 else if length v1 < length v2 then - 1 else 0
               else c)
      in (d < 0 \<longleftrightarrow> bytes_less v1 v2) \<and> (d = 0 \<longleftrightarrow> v1 = v2) \<and> (d > 0 \<longleftrightarrow> bytes_less v2 v1))"
proof (induction v1 arbitrary: v2)
  case Nil
  then show ?case by (cases v2) auto
next
  case (Cons x v1)
  show ?case
  proof (cases v2)
    case Nil
    then show ?thesis by simp
  next
    case (Cons y v2')
    then show ?thesis using Cons.IH [of v2']
      by (cases "x = y"; cases "x < y") (auto simp: Let_def split: if_splits)
  qed
qed

lemma sdscmp_ok:
  assumes "sds_rep s1 v1" and "sds_rep s2 v2"
  shows "\<exists>c. sdscmp s1 s2 = Some c \<and> (c < 0 \<longleftrightarrow> bytes_less v1 v2) \<and> (c = 0 \<longleftrightarrow> v1 = v2) \<and>
    (c > 0 \<longleftrightarrow> bytes_less v2 v1)"
proof -
  obtain z1 z2 where z: "buf s1 = v1 @ 0 # z1" "buf s2 = v2 @ 0 # z2"
    using assms by (auto simp: sds_rep_def)
  have l: "sdslen s1 = length v1" "sdslen s2 = length v2" using assms by (auto simp: sds_rep_def)
  have m: "(if length v1 < length v2 then length v1 else length v2) = min (length v1) (length v2)"
    by (simp add: min_def)
  obtain c where c: "memcmp (buf s1) (buf s2) (min (length v1) (length v2)) = Some c"
    "let d = (if c = 0 then if length v1 > length v2 then 1 else if length v1 < length v2 then - 1 else 0
               else c)
      in (d < 0 \<longleftrightarrow> bytes_less v1 v2) \<and> (d = 0 \<longleftrightarrow> v1 = v2) \<and> (d > 0 \<longleftrightarrow> bytes_less v2 v1)"
    using memcmp_ok [of v1 "0 # z1" v2 "0 # z2"] unfolding z by blast
  have "sdscmp s1 s2 = Some (if c = 0 then if length v1 > length v2 then 1 else if length v1 < length v2 then - 1
      else 0 else c)"
    by (simp only: sdscmp_def Let_def l m c(1) Option.bind.simps if_distrib [of Some])
  then show ?thesis using c(2) by (simp add: Let_def)
qed

lemma incr_word:
  "unat (l :: 'a::len word) + k < 2 ^ LENGTH('a) \<Longrightarrow> unat (l + of_nat k) = unat l + k"
  by (simp add: unat_word_ariths unat_of_nat)

lemma uint_room: "unat l + k \<le> unat a \<Longrightarrow> uint (l :: 'a::len word) + int k \<le> uint (a :: 'a word)"
proof -
  assume "unat l + k \<le> unat a"
  then have "int (unat l + k) \<le> int (unat a)" by (simp only: of_nat_le_iff)
  then show ?thesis by simp
qed

lemma hdr_incr_grow:
  assumes "hdr_len h + k \<le> hdr_alloc h" and "k \<noteq> 0"
  shows "hdr_incr (int k) h = (hdr_setlen (hdr_len h + k) h, hdr_len h + k)" and "incr_assert (int k) h"
proof -
  have cap: "hdr_len h + k < hdr_cap (hdr_type h)" using hdr_alloc_less [of h] assms by simp
  show "hdr_incr (int k) h = (hdr_setlen (hdr_len h + k) h, hdr_len h + k)"
    using assms cap by (cases h) (simp_all add: Let_def incr_word del: of_nat_add, simp_all)
  show "incr_assert (int k) h"
  proof (cases h)
    case (sdshdr32 l a)
    then have "l \<le> a" using assms by (simp add: word_le_nat_alt)
    then have "uint (a - l) = uint a - uint l" by (simp add: uint_minus_simple_alt)
    moreover have "int k \<le> uint a - uint l" "int k < 2 ^ 32" using uint_room [of l k a] sdshdr32 assms cap by simp_all
    ultimately show ?thesis using sdshdr32 by (simp add: uint_cast_def)
  next
    case (sdshdr64 l a)
    then have "l \<le> a" using assms by (simp add: word_le_nat_alt)
    then have "uint (a - l) = uint a - uint l" by (simp add: uint_minus_simple_alt)
    moreover have "int k \<le> uint a - uint l" "int k < 2 ^ 64" using uint_room [of l k a] sdshdr64 assms cap by simp_all
    ultimately show ?thesis using sdshdr64 by simp
  next
    case (sdshdr8 l a)
    then show ?thesis using assms uint_room [of l k a] by auto
  next
    case (sdshdr16 l a)
    then show ?thesis using assms uint_room [of l k a] by auto
  qed (use assms in auto)
qed

lemma sdsIncrLen_grow_ok:
  \<comment> \<open>the protocol of \<open>sdsMakeRoomFor\<close>, a write after the end and \<open>sdsIncrLen\<close>\<close>
  assumes rep: "sds_rep s v" and x: "x \<noteq> []" "length v + length x \<le> sdsalloc s"
    and w: "mem_write (buf s) (int (length v)) x = Some b"
  shows "\<exists>s'. sdsIncrLen (s\<lparr>buf := b\<rparr>) (int (length x)) = Some s' \<and> sds_rep s' (v @ x)"
proof -
  obtain z where z: "buf s = v @ 0 # z" using rep by (auto simp: sds_rep_def)
  have lz: "length x \<le> length z" using rep x by (auto simp: sds_rep_def z)
  have b: "b = (v @ x) @ drop (length x) (0 # z)"
    using w lz by (auto simp: z mem_write_def split: if_splits)
  let ?b = "(v @ x) @ 0 # drop (length x) z"
  obtain a where a: "drop (length x) (0 # z) = [a] @ drop (length x) z"
    using x(1) lz by (cases x) (auto simp: Cons_nth_drop_Suc Suc_le_eq intro: that dest!: Cons_nth_drop_Suc [symmetric])
  have wb: "mem_write b (int (length (v @ x))) [0] = Some ?b"
    unfolding b a using mem_write_append [of "[a]" "[0]" "v @ x" "drop (length x) z"] by simp
  have h: "hdr_len (hdr s) = length v" using rep by (simp add: sds_rep_def sdslen_def)
  have "hdr_incr (int (length x)) (hdr s) = (hdr_setlen (length (v @ x)) (hdr s), length (v @ x))"
    "incr_assert (int (length x)) (hdr s)"
    using hdr_incr_grow [of "hdr s" "length x"] x by (simp_all add: h sdsalloc_def)
  then have "sdsIncrLen (s\<lparr>buf := b\<rparr>) (int (length x)) = Some (sdssetlen (length (v @ x)) (s\<lparr>buf := ?b\<rparr>))"
    using wb by (cases s) (simp add: sdsIncrLen_def sdssetlen_def)
  moreover have "sds_rep (sdssetlen (length (v @ x)) (s\<lparr>buf := ?b\<rparr>)) (v @ x)"
    using rep x lz z by (intro sds_rep_setlen) (auto simp: sds_rep_def)
  ultimately show ?thesis by blast
qed

lemma shrink_word:
  assumes "k \<le> unat (l :: 'a::len word)"
  shows "l + word_of_int (- int k) = of_nat (unat l - k)" "unat (of_nat (unat l - k) :: 'a word) = unat l - k"
    "int k \<le> uint l"
proof -
  have "l + word_of_int (- int k) = l - of_nat k" by simp
  also have "\<dots> = of_nat (unat l - k)" using assms by (simp add: of_nat_diff)
  finally show "l + word_of_int (- int k) = of_nat (unat l - k)" .
  have "unat l - k < 2 ^ LENGTH('a)" using unsigned_less [of l, where 'a = nat] by (rule le_less_trans [rotated]) simp
  then show "unat (of_nat (unat l - k) :: 'a word) = unat l - k" by (simp add: unat_of_nat)
  show "int k \<le> uint l" using assms uint_room [of 0 k l] by simp
qed

lemma hdr_incr_shrink:
  assumes k: "k \<le> hdr_len h" "k \<noteq> 0" "k < 2 ^ 31"
  shows "hdr_incr (- int k) h = (hdr_setlen (hdr_len h - k) h, hdr_len h - k) \<and> incr_assert (- int k) h"
proof (cases h)
  case (sdshdr5 f)
  have "int (SDS_TYPE_5_LEN f) + - int k = int (SDS_TYPE_5_LEN f - k)" using k sdshdr5 by simp
  moreover have "(word_of_int (int n) :: byte) = of_nat n" for n by simp
  moreover have "ssize_to_size (int (SDS_TYPE_5_LEN f - k)) = SDS_TYPE_5_LEN f - k"
  proof -
    have "SDS_TYPE_5_LEN f - k < 2 ^ 64" using type5_len_less [of f] by simp
    then have "int (SDS_TYPE_5_LEN f - k) mod 2 ^ 64 = int (SDS_TYPE_5_LEN f - k)"
      by (intro mod_pos_pos_trivial) (simp_all del: of_nat_diff)
    then show ?thesis unfolding ssize_to_size_def by (simp only: nat_int)
  qed
  ultimately have "hdr_incr (- int k) h = (hdr_setlen (hdr_len h - k) h, hdr_len h - k)"
    by (simp only: sdshdr5 hdr_incr.simps hdr_setlen.simps hdr_len.simps)
  then show ?thesis using sdshdr5 k by (simp add: uint_cast_def)
next
  case (sdshdr8 l a)
  then show ?thesis using k shrink_word [of k l] by (simp add: Let_def uint_cast_def del: of_nat_diff)
next
  case (sdshdr16 l a)
  then show ?thesis using k shrink_word [of k l] by (simp add: Let_def uint_cast_def del: of_nat_diff)
next
  case (sdshdr32 l a)
  then show ?thesis using k shrink_word [of k l] by (simp add: Let_def uint_cast_def del: of_nat_diff)
next
  case (sdshdr64 l a)
  then show ?thesis using k shrink_word [of k l] by (simp add: Let_def uint_cast_def del: of_nat_diff)
qed

lemma sdsIncrLen_shrink_ok:
  assumes rep: "sds_rep s (v @ x)" and x: "x \<noteq> []" "length x < 2 ^ 31"
  shows "\<exists>s'. sdsIncrLen s (- int (length x)) = Some s' \<and> sds_rep s' v"
proof -
  obtain z where z: "buf s = v @ x @ 0 # z" using rep by (auto simp: sds_rep_def)
  have l: "hdr_len (hdr s) = length v + length x" "length v + length x \<le> sdsalloc s"
    using rep by (auto simp: sds_rep_def sdslen_def)
  obtain y where y: "v @ x @ 0 # z = v @ [hd x] @ y" using x(1) by (cases x) auto
  have w: "mem_write (buf s) (int (length v)) [0] = Some (v @ [0] @ y)"
    unfolding z y by (rule mem_write_append) simp
  have "sdsIncrLen s (- int (length x)) = Some (sdssetlen (length v) (s\<lparr>buf := v @ 0 # y\<rparr>))"
    using hdr_incr_shrink [of "length x" "hdr s"] x l w by (cases s) (simp add: sdsIncrLen_def sdssetlen_def)
  moreover have "length (v @ 0 # y) = length (buf s)" using w mem_write_length by fastforce
  then have "sds_rep (sdssetlen (length v) (s\<lparr>buf := v @ 0 # y\<rparr>)) v"
    using rep l by (intro sds_rep_setlen) (auto simp: sds_rep_def)
  ultimately show ?thesis by blast
qed

subsection \<open>Sequences of operations refine operations on byte lists\<close>

datatype sds_op =
    OpCatlen "byte list" | OpCpylen "byte list" | OpClear | OpGrowzero nat | OpMakeRoomFor nat
  | OpRemoveFreeSpace | OpUpdatelen | OpTrim "byte list" | OpRange int int | OpTolower | OpToupper
  | OpMapchars "byte list" "byte list" | OpRead "byte list"

definition sds_read :: "(nat \<Rightarrow> byte) \<Rightarrow> sds \<Rightarrow> byte list \<Rightarrow> sds option" where
  \<comment> \<open>the use that the comment of \<open>sdsIncrLen\<close> describes: make room, let \<open>read\<close> store the bytes
     after the end, then fix the length\<close>
  "sds_read junk s x = do {
     let oldlen = sdslen s;
     s \<leftarrow> sdsMakeRoomFor junk s (length x);
     b \<leftarrow> mem_write (buf s) (int oldlen) x;
     sdsIncrLen (s\<lparr>buf := b\<rparr>) (int (length x)) }"

fun sds_step :: "(nat \<Rightarrow> byte) \<Rightarrow> sds_op \<Rightarrow> sds \<Rightarrow> sds option" where
  "sds_step junk (OpCatlen t) s = sdscatlen junk s t (length t)"
| "sds_step junk (OpCpylen t) s = sdscpylen junk s t (length t)"
| "sds_step junk OpClear s = sdsclear s"
| "sds_step junk (OpGrowzero n) s = sdsgrowzero junk s n"
| "sds_step junk (OpMakeRoomFor n) s = sdsMakeRoomFor junk s n"
| "sds_step junk OpRemoveFreeSpace s = sdsRemoveFreeSpace junk s"
| "sds_step junk OpUpdatelen s = sdsupdatelen s"
| "sds_step junk (OpTrim cs) s = sdstrim s (cs @ [0])"
| "sds_step junk (OpRange a b) s = sdsrange s a b"
| "sds_step junk OpTolower s = sdstolower s"
| "sds_step junk OpToupper s = sdstoupper s"
| "sds_step junk (OpMapchars a b) s = sdsmapchars s a b (length a)"
| "sds_step junk (OpRead x) s = sds_read junk s x"

fun bytes_step :: "sds_op \<Rightarrow> byte list \<Rightarrow> byte list" where
  "bytes_step (OpCatlen t) v = v @ t"
| "bytes_step (OpCpylen t) v = t"
| "bytes_step OpClear v = []"
| "bytes_step (OpGrowzero n) v = v @ replicate (n - length v) 0"
| "bytes_step (OpMakeRoomFor n) v = v"
| "bytes_step OpRemoveFreeSpace v = v"
| "bytes_step OpUpdatelen v = takeWhile (\<lambda>b. b \<noteq> 0) v"
| "bytes_step (OpTrim cs) v = strip (\<lambda>c. c \<in> set cs \<or> c = 0) v"
| "bytes_step (OpRange a b) v = range_val a b v"
| "bytes_step OpTolower v = map byte_lower v"
| "bytes_step OpToupper v = map byte_upper v"
| "bytes_step (OpMapchars a b) v = map (subst_byte (zip a b)) v"
| "bytes_step (OpRead x) v = v @ x"

fun op_fits :: "sds_op \<Rightarrow> byte list \<Rightarrow> bool" where
  \<comment> \<open>what the caller owes: sizes far below the address space, C strings without an inner
     terminator, indices of type \<open>ssize_t\<close>, a read that returned bytes\<close>
  "op_fits (OpCatlen t) v \<longleftrightarrow> length v + length t \<le> 2 ^ 61"
| "op_fits (OpCpylen t) v \<longleftrightarrow> length t \<le> 2 ^ 61"
| "op_fits OpClear v \<longleftrightarrow> True"
| "op_fits (OpGrowzero n) v \<longleftrightarrow> n \<le> 2 ^ 61"
| "op_fits (OpMakeRoomFor n) v \<longleftrightarrow> length v + n \<le> 2 ^ 61"
| "op_fits OpRemoveFreeSpace v \<longleftrightarrow> length v \<le> 2 ^ 61"
| "op_fits OpUpdatelen v \<longleftrightarrow> True"
| "op_fits (OpTrim cs) v \<longleftrightarrow> 0 \<notin> set cs"
| "op_fits (OpRange a b) v \<longleftrightarrow> length v \<le> 2 ^ 61 \<and> - (2 ^ 63) \<le> a \<and> a < 2 ^ 63 \<and> - (2 ^ 63) \<le> b \<and> b < 2 ^ 63"
| "op_fits OpTolower v \<longleftrightarrow> True"
| "op_fits OpToupper v \<longleftrightarrow> True"
| "op_fits (OpMapchars a b) v \<longleftrightarrow> length a = length b"
| "op_fits (OpRead x) v \<longleftrightarrow> x \<noteq> [] \<and> length v + length x \<le> 2 ^ 61"

fun sds_run :: "((nat \<Rightarrow> byte) \<times> sds_op) list \<Rightarrow> sds \<Rightarrow> sds option" where
  "sds_run [] s = Some s"
| "sds_run ((junk, op) # ops) s = do { s \<leftarrow> sds_step junk op s; sds_run ops s }"

fun bytes_run :: "sds_op list \<Rightarrow> byte list \<Rightarrow> byte list" where
  "bytes_run [] v = v"
| "bytes_run (op # ops) v = bytes_run ops (bytes_step op v)"

fun ops_fit :: "sds_op list \<Rightarrow> byte list \<Rightarrow> bool" where
  "ops_fit [] v \<longleftrightarrow> True"
| "ops_fit (op # ops) v \<longleftrightarrow> op_fits op v \<and> ops_fit ops (bytes_step op v)"

lemma sds_read_ok:
  assumes rep: "sds_rep s v" and x: "x \<noteq> []" "length v + length x \<le> 2 ^ 61"
  shows "\<exists>s'. sds_read junk s x = Some s' \<and> sds_rep s' (v @ x)"
proof -
  obtain s1 where s1: "sdsMakeRoomFor junk s (length x) = Some s1" "sds_rep s1 v"
    "length v + length x \<le> sdsalloc s1"
    using sdsMakeRoomFor_ok [OF rep x(2)] by blast
  then have "length v + length x \<le> length (buf s1)" by (auto simp: sds_rep_def)
  then obtain b where b: "mem_write (buf s1) (int (length v)) x = Some b" by (simp add: mem_write_def)
  have "sdslen s = length v" using rep by (simp add: sds_rep_def)
  then show ?thesis using sdsIncrLen_grow_ok [OF s1(2) x(1) s1(3) b] s1(1) b
    by (simp add: sds_read_def Let_def)
qed

lemma sds_step_ok:
  assumes rep: "sds_rep s v" and fits: "op_fits op v"
  shows "\<exists>s'. sds_step junk op s = Some s' \<and> sds_rep s' (bytes_step op v)"
proof (cases op)
  case (OpCatlen t)
  then show ?thesis using sdscatlen_ok [OF rep, of "length t" t junk] fits by simp
next
  case (OpCpylen t)
  then show ?thesis using sdscpylen_ok [OF rep, of "length t" t junk] fits by simp
next
  case (OpGrowzero n)
  then show ?thesis using sdsgrowzero_ok [OF rep, of n junk] fits by simp
next
  case (OpMakeRoomFor n)
  then show ?thesis using sdsMakeRoomFor_ok [OF rep, of n junk] fits by auto
next
  case OpRemoveFreeSpace
  then show ?thesis using sdsRemoveFreeSpace_ok [OF rep, of junk] fits by auto
next
  case (OpTrim cs)
  then show ?thesis using sdstrim_ok [OF rep, of "cs @ [0]" cs "[]"] fits by simp
next
  case (OpRange a b)
  then show ?thesis using sdsrange_ok [OF rep, of a b] fits by simp
next
  case (OpMapchars a b)
  then show ?thesis using sdsmapchars_ok [OF rep, of a "length a" b] fits by simp
next
  case OpTolower
  then show ?thesis using map_buf_ok [OF rep, of "\<lambda>c. Some (word_of_int (tolower (sint c)))" byte_lower]
    by (simp add: sdstolower_def byte_lower_def)
next
  case OpToupper
  then show ?thesis using map_buf_ok [OF rep, of "\<lambda>c. Some (word_of_int (toupper (sint c)))" byte_upper]
    by (simp add: sdstoupper_def byte_upper_def)
qed (use sdsclear_ok [OF rep] sdsupdatelen_ok [OF rep] sds_read_ok [OF rep] fits in auto)

lemma sds_run_ok:
  "sds_rep s v \<Longrightarrow> ops_fit (map snd ops) v \<Longrightarrow>
     \<exists>s'. sds_run ops s = Some s' \<and> sds_rep s' (bytes_run (map snd ops) v)"
proof (induction ops arbitrary: s v)
  case (Cons o1 ops)
  obtain junk op where o1: "o1 = (junk, op)" by (cases o1)
  then obtain s' where "sds_step junk op s = Some s'" "sds_rep s' (bytes_step op v)"
    using sds_step_ok [OF Cons.prems(1)] Cons.prems(2) by auto
  then show ?case using Cons.IH [of s' "bytes_step op v"] Cons.prems(2) o1 by simp
qed simp

text \<open>Property C3. Any sequence of operations on a string made by \<open>sdsnewlen\<close> succeeds
  without an access outside the allocation or a failed assertion, keeps the string well
  formed, and its value is what the same operations on byte lists give; whatever bytes the
  allocator hands out.\<close>
theorem sds_refines_bytes:
  assumes "length t \<le> 2 ^ 61" and "ops_fit (map snd ops) t"
  shows "\<exists>s s'. sdsnewlen junk (Some t) (length t) = Some s \<and> sds_run ops s = Some s' \<and> sds_ok s' \<and>
    sds_val s' = bytes_run (map snd ops) t"
proof -
  obtain s where s: "sdsnewlen junk (Some t) (length t) = Some s" "sds_rep s t"
    using sdsnewlen_ok [of "length t" t junk] assms(1) by auto
  then show ?thesis using sds_run_ok [OF s(2) assms(2)] by (auto simp: sds_rep_iff)
qed

theorem sds_refines_bytes_witness:
  "\<exists>s s'. sdsnewlen (\<lambda>_. 7) (Some [65, 66, 67]) 3 = Some s \<and>
     sds_run [(\<lambda>_. 9, OpCatlen [32, 68, 32]), (\<lambda>_. 9, OpTrim [32]), (\<lambda>_. 9, OpRange 1 (- 2))] s = Some s' \<and>
     sds_ok s' \<and> sds_val s' = [66, 67, 32]"
proof -
  have "bytes_run [OpCatlen [32, 68, 32], OpTrim [32], OpRange 1 (- 2)] [65, 66, 67] = [66, 67, 32]"
    by code_simp
  then show ?thesis
    using sds_refines_bytes [of "[65, 66, 67]"
      "[(\<lambda>_. 9, OpCatlen [32, 68, 32]), (\<lambda>_. 9, OpTrim [32]), (\<lambda>_. 9, OpRange 1 (- 2))]" "\<lambda>_. 7"]
    by (simp add: strip_def numeral_3_eq_3 del: bytes_run.simps)
qed

text \<open>\<open>sdscmp\<close> decides the lexicographic order of the byte strings, bytes read
  as unsigned and a proper prefix below its extensions.\<close>
lemma sdscmp_correct:
  assumes "sds_ok s1" and "sds_ok s2"
  shows "\<exists>c. sdscmp s1 s2 = Some c \<and> (c < 0 \<longleftrightarrow> bytes_less (sds_val s1) (sds_val s2)) \<and>
    (c = 0 \<longleftrightarrow> sds_val s1 = sds_val s2) \<and> (c > 0 \<longleftrightarrow> bytes_less (sds_val s2) (sds_val s1))"
  using assms by (intro sdscmp_ok) (simp_all add: sds_rep_iff)

text \<open>\<open>sdstrim\<close> strips NUL bytes at both ends whatever the set of characters
  it is given, because \<open>strchr\<close> finds the terminator of the set: a value that ends in a NUL
  byte loses it, although the comment promises to remove only characters of the set.\<close>
lemma sdstrim_strips_nul:
  "\<exists>s s'. sdsnewlen (\<lambda>_. 0) (Some [97, 0]) 2 = Some s \<and> sdstrim s [32, 0] = Some s' \<and> sds_val s' = [97]"
proof -
  obtain s where s: "sdsnewlen (\<lambda>_. 0) (Some [97, 0]) 2 = Some s" "sds_rep s [97, 0]"
    using sdsnewlen_ok [of 2 "[97, 0]" "\<lambda>_. 0"] by auto
  obtain s' where "sdstrim s [32, 0] = Some s'" "sds_rep s' (strip (\<lambda>c. c \<in> set [32] \<or> c = 0) [97, 0])"
    using sdstrim_ok [OF s(2), of "[32, 0]" "[32]" "[]"] by auto
  moreover have "strip (\<lambda>c. c \<in> set [32] \<or> c = 0) [97, 0 :: byte] = [97]" by (simp add: strip_def)
  ultimately show ?thesis using s(1) by (auto simp: sds_rep_iff)
qed

end
