(* ===== verification/Sds_Format.thy ===== *)
theory Sds_Format
  imports Sds
begin

section \<open>Formatting, splitting and quoting of strings (sds.c)\<close>

text \<open>
  The second half of sds.c: decimal conversion into a fixed buffer, the two formatted
  appends, splitting by a separator and joining, and the quoted representation that
  \<open>sdscatrepr\<close> prints and \<open>sdssplitargs\<close> parses. C strings are blocks of memory that hold
  a terminator; a pointer into one is the suffix that starts there. \<open>vsnprintf\<close> belongs to
  the C library: \<open>sdscatvprintf\<close> takes the text it would print as an argument and models
  the buffer it is printed to.
\<close>

definition isspace :: "byte \<Rightarrow> bool" where "isspace c \<longleftrightarrow> c = 32 \<or> (9 \<le> c \<and> c \<le> 13)"
definition isprint :: "byte \<Rightarrow> bool" where "isprint c \<longleftrightarrow> 32 \<le> c \<and> c \<le> 126"

subsection \<open>Decimal conversion\<close>

definition SDS_LLSTR_SIZE :: nat where "SDS_LLSTR_SIZE = 21"

function emit_digits :: "byte list \<Rightarrow> nat \<Rightarrow> nat \<Rightarrow> (byte list \<times> nat) option" where
  \<comment> \<open>\<open>do { *p++ = '0'+(v%10); v /= 10; } while (v)\<close>\<close>
  "emit_digits s p v = do {
     s \<leftarrow> mem_write s (int p) [of_nat (48 + v mod 10)];
     let p = p + 1;
     let v = v div 10;
     if v \<noteq> 0 then emit_digits s p v else Some (s, p) }"
  by auto
termination by (relation "measure (\<lambda>(_, _, v). v)") auto

function reverse_loop :: "byte list \<Rightarrow> nat \<Rightarrow> nat \<Rightarrow> byte list option" where
  \<comment> \<open>\<open>while (s < p) { swap *s and *p; s++; p--; }\<close>\<close>
  "reverse_loop b s p =
     (if s < p then do { b \<leftarrow> mem_swap b s p; reverse_loop b (s + 1) (p - 1) } else Some b)"
  by auto
termination by (relation "measure (\<lambda>(_, s, p). p - s)") auto

declare emit_digits.simps [simp del] reverse_loop.simps [simp del]

definition sdsll2str :: "byte list \<Rightarrow> int \<Rightarrow> (byte list \<times> nat) option" where
  \<comment> \<open>the buffer after the call and the length\<close>
  "sdsll2str s value = do {
     let v = (if value < 0 then nat ((- value) mod 2 ^ 64) else nat value);
     (s, p) \<leftarrow> emit_digits s 0 v;
     (s, p) \<leftarrow> (if value < 0 then do { s \<leftarrow> mem_write s (int p) [45]; Some (s, p + 1) } else Some (s, p));
     let l = p;
     s \<leftarrow> mem_write s (int p) [0];
     s \<leftarrow> reverse_loop s 0 (p - 1);
     Some (s, l) }"

definition sdsull2str :: "byte list \<Rightarrow> nat \<Rightarrow> (byte list \<times> nat) option" where
  "sdsull2str s v = do {
     (s, p) \<leftarrow> emit_digits s 0 v;
     let l = p;
     s \<leftarrow> mem_write s (int p) [0];
     s \<leftarrow> reverse_loop s 0 (p - 1);
     Some (s, l) }"

definition llstr_buf :: "(nat \<Rightarrow> byte) \<Rightarrow> byte list" where
  \<comment> \<open>\<open>char buf[SDS_LLSTR_SIZE]\<close>\<close>
  "llstr_buf junk = map junk [0..<SDS_LLSTR_SIZE]"

definition sdsfromlonglong :: "(nat \<Rightarrow> byte) \<Rightarrow> int \<Rightarrow> sds option" where
  "sdsfromlonglong junk value = do {
     (b, len) \<leftarrow> sdsll2str (llstr_buf junk) value;
     sdsnewlen junk (Some b) len }"

subsection \<open>Formatted appends\<close>

definition vsnprintf :: "byte list \<Rightarrow> nat \<Rightarrow> byte list \<Rightarrow> byte list option" where
  \<comment> \<open>at most \<open>buflen - 1\<close> characters of the output and a terminator\<close>
  "vsnprintf b buflen out = (if buflen = 0 then Some b else mem_write b 0 (take (buflen - 1) out @ [0]))"

partial_function (option) catvprintf_loop :: "(nat \<Rightarrow> byte) \<Rightarrow> byte list \<Rightarrow> nat \<Rightarrow> byte list \<Rightarrow> byte list option" where
  \<comment> \<open>the \<open>while(1)\<close>: the buffer that holds the whole output\<close>
  "catvprintf_loop junk b buflen out = do {
     b \<leftarrow> mem_write b (int buflen - 2) [0];
     b \<leftarrow> vsnprintf b buflen out;
     c \<leftarrow> rd b (int buflen - 2);
     if c \<noteq> 0 then
       let buflen = size_t (buflen * 2) in catvprintf_loop junk (map junk [0..<buflen]) buflen out
     else Some b }"

definition sdscatvprintf :: "(nat \<Rightarrow> byte) \<Rightarrow> sds \<Rightarrow> byte list \<Rightarrow> byte list \<Rightarrow> sds option" where
  \<comment> \<open>\<open>fmt\<close> only sizes the first buffer, \<open>out\<close> is the text that the format and its arguments give\<close>
  "sdscatvprintf junk s fmt out = do {
     n \<leftarrow> strlen fmt;
     let buflen = size_t (n * 2);
     let buflen = (if buflen > 1024 then buflen else 1024);
     b \<leftarrow> catvprintf_loop junk (map junk [0..<buflen]) buflen out;
     sdscat junk s b }"

definition sdscatprintf :: "(nat \<Rightarrow> byte) \<Rightarrow> sds \<Rightarrow> byte list \<Rightarrow> byte list \<Rightarrow> sds option" where
  "sdscatprintf junk s fmt out = sdscatvprintf junk s fmt out"

datatype fmt_arg = FStr "byte list" | FSds sds | FInt int | FLongLong int | FUInt nat | FULongLong nat

definition catfmt_put :: "(nat \<Rightarrow> byte) \<Rightarrow> sds \<Rightarrow> nat \<Rightarrow> byte list \<Rightarrow> nat \<Rightarrow> (sds \<times> nat) option" where
  \<comment> \<open>make room when \<open>l\<close> bytes do not fit, \<open>memcpy(s+i,str,l); sdsinclen(s,l); i += l\<close>\<close>
  "catfmt_put junk s i str l = do {
     s \<leftarrow> (if sdsavail s < l then sdsMakeRoomFor junk s l else Some s);
     x \<leftarrow> mem_read str 0 l;
     b \<leftarrow> mem_write (buf s) (int i) x;
     Some (sdsinclen l (s\<lparr>buf := b\<rparr>), i + l) }"

definition catfmt_char :: "sds \<Rightarrow> nat \<Rightarrow> byte \<Rightarrow> (sds \<times> nat) option" where
  \<comment> \<open>\<open>s[i++] = c; sdsinclen(s,1)\<close>\<close>
  "catfmt_char s i c = do {
     b \<leftarrow> mem_write (buf s) (int i) [c];
     Some (sdsinclen 1 (s\<lparr>buf := b\<rparr>), i + 1) }"

definition catfmt_spec :: "(nat \<Rightarrow> byte) \<Rightarrow> byte \<Rightarrow> fmt_arg list \<Rightarrow> sds \<Rightarrow> nat \<Rightarrow> (sds \<times> nat \<times> fmt_arg list) option" where
  \<comment> \<open>the inner switch on the character after the percent sign; None also for an argument that
     is not of the type \<open>va_arg\<close> asks for\<close>
  "catfmt_spec junk nxt args s i =
     (if nxt = 115 then
        (case args of FStr m # args \<Rightarrow> do {
           l \<leftarrow> strlen m; (s, i) \<leftarrow> catfmt_put junk s i m l; Some (s, i, args) } | _ \<Rightarrow> None)
      else if nxt = 83 then
        (case args of FSds t # args \<Rightarrow> do {
           (s, i) \<leftarrow> catfmt_put junk s i (buf t) (sdslen t); Some (s, i, args) } | _ \<Rightarrow> None)
      else if nxt = 105 then
        (case args of FInt num # args \<Rightarrow> do {
           (b, l) \<leftarrow> sdsll2str (llstr_buf junk) num;
           (s, i) \<leftarrow> catfmt_put junk s i b l; Some (s, i, args) } | _ \<Rightarrow> None)
      else if nxt = 73 then
        (case args of FLongLong num # args \<Rightarrow> do {
           (b, l) \<leftarrow> sdsll2str (llstr_buf junk) num;
           (s, i) \<leftarrow> catfmt_put junk s i b l; Some (s, i, args) } | _ \<Rightarrow> None)
      else if nxt = 117 then
        (case args of FUInt unum # args \<Rightarrow> do {
           (b, l) \<leftarrow> sdsull2str (llstr_buf junk) unum;
           (s, i) \<leftarrow> catfmt_put junk s i b l; Some (s, i, args) } | _ \<Rightarrow> None)
      else if nxt = 85 then
        (case args of FULongLong unum # args \<Rightarrow> do {
           (b, l) \<leftarrow> sdsull2str (llstr_buf junk) unum;
           (s, i) \<leftarrow> catfmt_put junk s i b l; Some (s, i, args) } | _ \<Rightarrow> None)
      else do { (s, i) \<leftarrow> catfmt_char s i nxt; Some (s, i, args) })"

fun catfmt_loop :: "(nat \<Rightarrow> byte) \<Rightarrow> byte list \<Rightarrow> fmt_arg list \<Rightarrow> sds \<Rightarrow> nat \<Rightarrow> (sds \<times> nat) option" where
  \<comment> \<open>\<open>while (*f)\<close>; the suffix of the format is the pointer \<open>f\<close>\<close>
  "catfmt_loop junk [] args s i = None"
| "catfmt_loop junk (c # f) args s i =
     (if c = 0 then Some (s, i)
      else do {
        s \<leftarrow> (if sdsavail s = 0 then sdsMakeRoomFor junk s 1 else Some s);
        if c = 37 then
          (case f of [] \<Rightarrow> None
           | nxt # f \<Rightarrow> do {
               (s, i, args) \<leftarrow> catfmt_spec junk nxt args s i;
               catfmt_loop junk f args s i })
        else do {
          (s, i) \<leftarrow> catfmt_char s i c;
          catfmt_loop junk f args s i } })"

definition sdscatfmt :: "(nat \<Rightarrow> byte) \<Rightarrow> sds \<Rightarrow> byte list \<Rightarrow> fmt_arg list \<Rightarrow> sds option" where
  "sdscatfmt junk s fmt args = do {
     let initlen = sdslen s;
     (s, i) \<leftarrow> catfmt_loop junk fmt args s initlen;
     b \<leftarrow> mem_write (buf s) (int i) [0];
     Some (s\<lparr>buf := b\<rparr>) }"

subsection \<open>Splitting by a separator and joining\<close>

partial_function (option) splitlen_loop ::
  "(nat \<Rightarrow> byte) \<Rightarrow> byte list \<Rightarrow> int \<Rightarrow> byte list \<Rightarrow> int \<Rightarrow> int \<Rightarrow> int \<Rightarrow> nat \<Rightarrow> sds list \<Rightarrow> (int \<times> nat \<times> sds list) option" where
  \<comment> \<open>\<open>for (j = 0; j < (len-(seplen-1)); j++)\<close>; \<open>slots\<close> is the capacity of the token array\<close>
  "splitlen_loop junk s len sep seplen j start slots tokens =
     (if j < len - (seplen - 1) then do {
        let slots = (if slots < length tokens + 2 then slots * 2 else slots);
        one \<leftarrow> (if seplen = 1 then do { a \<leftarrow> rd s j; b \<leftarrow> rd sep 0; Some (a = b) } else Some False);
        hit \<leftarrow> (if one then Some True
                else do { c \<leftarrow> memcmp (drop (nat j) s) sep (nat seplen); Some (c = 0) });
        if hit then do {
          t \<leftarrow> sdsnewlen junk (Some (drop (nat start) s)) (nat (j - start));
          tokens \<leftarrow> (if length tokens < slots then Some (tokens @ [t]) else None);
          splitlen_loop junk s len sep seplen (j + seplen - 1 + 1) (j + seplen) slots tokens }
        else splitlen_loop junk s len sep seplen (j + 1) start slots tokens }
      else Some (start, slots, tokens))"

definition sdssplitlen :: "(nat \<Rightarrow> byte) \<Rightarrow> byte list \<Rightarrow> int \<Rightarrow> byte list \<Rightarrow> int \<Rightarrow> sds list option option" where
  \<comment> \<open>\<open>Some None\<close> is the NULL result; the count is the length of the token list\<close>
  "sdssplitlen junk s len sep seplen =
     (if seplen < 1 \<or> len < 0 then Some None
      else if len = 0 then Some (Some [])
      else do {
        (start, slots, tokens) \<leftarrow> splitlen_loop junk s len sep seplen 0 0 5 [];
        t \<leftarrow> sdsnewlen junk (Some (drop (nat start) s)) (nat (len - start));
        if length tokens < slots then Some (Some (tokens @ [t])) else None })"

fun sdsjoin_loop :: "(nat \<Rightarrow> byte) \<Rightarrow> byte list list \<Rightarrow> byte list \<Rightarrow> sds \<Rightarrow> sds option" where
  "sdsjoin_loop junk [] sep join = Some join"
| "sdsjoin_loop junk (a # argv) sep join = do {
     join \<leftarrow> sdscat junk join a;
     join \<leftarrow> (if argv \<noteq> [] then sdscat junk join sep else Some join);
     sdsjoin_loop junk argv sep join }"

definition sdsjoin :: "(nat \<Rightarrow> byte) \<Rightarrow> byte list list \<Rightarrow> byte list \<Rightarrow> sds option" where
  "sdsjoin junk argv sep = do { join \<leftarrow> sdsempty junk; sdsjoin_loop junk argv sep join }"

fun sdsjoinsds_loop :: "(nat \<Rightarrow> byte) \<Rightarrow> sds list \<Rightarrow> byte list \<Rightarrow> nat \<Rightarrow> sds \<Rightarrow> sds option" where
  "sdsjoinsds_loop junk [] sep seplen join = Some join"
| "sdsjoinsds_loop junk (a # argv) sep seplen join = do {
     join \<leftarrow> sdscatsds junk join a;
     join \<leftarrow> (if argv \<noteq> [] then sdscatlen junk join sep seplen else Some join);
     sdsjoinsds_loop junk argv sep seplen join }"

definition sdsjoinsds :: "(nat \<Rightarrow> byte) \<Rightarrow> sds list \<Rightarrow> byte list \<Rightarrow> nat \<Rightarrow> sds option" where
  "sdsjoinsds junk argv sep seplen = do { join \<leftarrow> sdsempty junk; sdsjoinsds_loop junk argv sep seplen join }"

subsection \<open>The quoted representation\<close>

definition hex_char :: "nat \<Rightarrow> byte" where
  "hex_char d = (if d < 10 then of_nat (48 + d) else of_nat (87 + d))"

definition repr_char :: "(nat \<Rightarrow> byte) \<Rightarrow> sds \<Rightarrow> byte \<Rightarrow> sds option" where
  \<comment> \<open>the switch of \<open>sdscatrepr\<close>; the printf formats \<open>\%c\<close>, \<open>%c\<close> and \<open>\x%02x\<close> with what they print\<close>
  "repr_char junk s c =
     (if c = 92 \<or> c = 34 then sdscatprintf junk s [92, 37, 99, 0] [92, c]
      else if c = 10 then sdscatlen junk s [92, 110, 0] 2
      else if c = 13 then sdscatlen junk s [92, 114, 0] 2
      else if c = 9 then sdscatlen junk s [92, 116, 0] 2
      else if c = 7 then sdscatlen junk s [92, 97, 0] 2
      else if c = 8 then sdscatlen junk s [92, 98, 0] 2
      else if isprint c then sdscatprintf junk s [37, 99, 0] [c]
      else sdscatprintf junk s [92, 120, 37, 48, 50, 120, 0]
        [92, 120, hex_char (unat c div 16), hex_char (unat c mod 16)])"

fun catrepr_loop :: "(nat \<Rightarrow> byte) \<Rightarrow> sds \<Rightarrow> byte list \<Rightarrow> nat \<Rightarrow> sds option" where
  \<comment> \<open>\<open>while (len--)\<close>\<close>
  "catrepr_loop junk s p 0 = Some s"
| "catrepr_loop junk s [] (Suc len) = None"
| "catrepr_loop junk s (c # p) (Suc len) = do { s \<leftarrow> repr_char junk s c; catrepr_loop junk s p len }"

definition sdscatrepr :: "(nat \<Rightarrow> byte) \<Rightarrow> sds \<Rightarrow> byte list \<Rightarrow> nat \<Rightarrow> sds option" where
  "sdscatrepr junk s p len = do {
     s \<leftarrow> sdscatlen junk s [34, 0] 1;
     s \<leftarrow> catrepr_loop junk s p len;
     sdscatlen junk s [34, 0] 1 }"

definition is_hex_digit :: "byte \<Rightarrow> bool" where
  "is_hex_digit c \<longleftrightarrow> (sint c \<ge> 48 \<and> sint c \<le> 57) \<or> (sint c \<ge> 97 \<and> sint c \<le> 102) \<or> (sint c \<ge> 65 \<and> sint c \<le> 70)"

definition hex_digit_to_int :: "byte \<Rightarrow> nat" where
  "hex_digit_to_int c =
     (if c = 48 then 0 else if c = 49 then 1 else if c = 50 then 2 else if c = 51 then 3
      else if c = 52 then 4 else if c = 53 then 5 else if c = 54 then 6 else if c = 55 then 7
      else if c = 56 then 8 else if c = 57 then 9
      else if c = 97 \<or> c = 65 then 10 else if c = 98 \<or> c = 66 then 11
      else if c = 99 \<or> c = 67 then 12 else if c = 100 \<or> c = 68 then 13
      else if c = 101 \<or> c = 69 then 14 else if c = 102 \<or> c = 70 then 15
      else 0)"

fun skip_blanks :: "byte list \<Rightarrow> byte list option" where
  \<comment> \<open>\<open>while (*p && isspace(*p)) p++\<close>\<close>
  "skip_blanks [] = None"
| "skip_blanks (c # p) = (if c \<noteq> 0 \<and> isspace c then skip_blanks p else Some (c # p))"

definition splitargs_step ::
  "(nat \<Rightarrow> byte) \<Rightarrow> bool \<Rightarrow> bool \<Rightarrow> byte list \<Rightarrow> sds \<Rightarrow> (bool \<times> bool \<times> bool \<times> byte list \<times> sds) option option" where
  \<comment> \<open>the body of \<open>while (!done)\<close> up to the last line: \<open>Some None\<close> is \<open>goto err\<close>, otherwise the
     new values of \<open>inq\<close>, \<open>insq\<close>, \<open>done\<close>, \<open>p\<close> and \<open>current\<close>\<close>
  "splitargs_step junk inq insq p current = do {
     c \<leftarrow> rd p 0;
     if inq then do {
       hex \<leftarrow> (if c = 92 then do {
                 c1 \<leftarrow> rd p 1;
                 if c1 = 120 then do {
                   c2 \<leftarrow> rd p 2;
                   if is_hex_digit c2 then do { c3 \<leftarrow> rd p 3; Some (is_hex_digit c3) } else Some False }
                 else Some False }
               else Some False);
       if hex then do {
         c2 \<leftarrow> rd p 2;
         c3 \<leftarrow> rd p 3;
         let byte = of_nat (hex_digit_to_int c2 * 16 + hex_digit_to_int c3);
         current \<leftarrow> sdscatlen junk current [byte] 1;
         Some (Some (inq, insq, False, drop 3 p, current)) }
       else do {
         esc \<leftarrow> (if c = 92 then do { c1 \<leftarrow> rd p 1; Some (c1 \<noteq> 0) } else Some False);
         if esc then do {
           let p = drop 1 p;
           c \<leftarrow> rd p 0;
           let c = (if c = 110 then 10 else if c = 114 then 13 else if c = 116 then 9
                    else if c = 98 then 8 else if c = 97 then 7 else c);
           current \<leftarrow> sdscatlen junk current [c] 1;
           Some (Some (inq, insq, False, p, current)) }
         else if c = 34 then do {
           c1 \<leftarrow> rd p 1;
           if c1 \<noteq> 0 \<and> \<not> isspace c1 then Some None
           else Some (Some (inq, insq, True, p, current)) }
         else if c = 0 then Some None
         else do {
           current \<leftarrow> sdscatlen junk current p 1;
           Some (Some (inq, insq, False, p, current)) } } }
     else if insq then do {
       quote \<leftarrow> (if c = 92 then do { c1 \<leftarrow> rd p 1; Some (c1 = 39) } else Some False);
       if quote then do {
         let p = drop 1 p;
         current \<leftarrow> sdscatlen junk current [39, 0] 1;
         Some (Some (inq, insq, False, p, current)) }
       else if c = 39 then do {
         c1 \<leftarrow> rd p 1;
         if c1 \<noteq> 0 \<and> \<not> isspace c1 then Some None
         else Some (Some (inq, insq, True, p, current)) }
       else if c = 0 then Some None
       else do {
         current \<leftarrow> sdscatlen junk current p 1;
         Some (Some (inq, insq, False, p, current)) } }
     else if c = 32 \<or> c = 10 \<or> c = 13 \<or> c = 9 \<or> c = 0 then Some (Some (inq, insq, True, p, current))
     else if c = 34 then Some (Some (True, insq, False, p, current))
     else if c = 39 then Some (Some (inq, True, False, p, current))
     else do {
       current \<leftarrow> sdscatlen junk current p 1;
       Some (Some (inq, insq, False, p, current)) } }"

partial_function (option) splitargs_token ::
  "(nat \<Rightarrow> byte) \<Rightarrow> bool \<Rightarrow> bool \<Rightarrow> byte list \<Rightarrow> sds \<Rightarrow> (byte list \<times> sds) option option" where
  \<comment> \<open>\<open>while (!done)\<close>, ending with \<open>if (*p) p++\<close>\<close>
  "splitargs_token junk inq insq p current = do {
     r \<leftarrow> splitargs_step junk inq insq p current;
     if Option.is_none r then Some None
     else do {
       let (inq, insq, stop, p, current) = the r;
       c \<leftarrow> rd p 0;
       let p = (if c \<noteq> 0 then drop 1 p else p);
       if stop then Some (Some (p, current)) else splitargs_token junk inq insq p current } }"

partial_function (option) splitargs_loop :: "(nat \<Rightarrow> byte) \<Rightarrow> byte list \<Rightarrow> sds list \<Rightarrow> sds list option option" where
  "splitargs_loop junk p vector = do {
     p \<leftarrow> skip_blanks p;
     c \<leftarrow> rd p 0;
     if c \<noteq> 0 then do {
       current \<leftarrow> sdsempty junk;
       r \<leftarrow> splitargs_token junk False False p current;
       if Option.is_none r then Some None
       else let (p, current) = the r in splitargs_loop junk p (vector @ [current]) }
     else Some (Some vector) }"

definition sdssplitargs :: "(nat \<Rightarrow> byte) \<Rightarrow> byte list \<Rightarrow> sds list option option" where
  \<comment> \<open>\<open>Some None\<close> is the NULL result\<close>
  "sdssplitargs junk line = splitargs_loop junk line []"

subsection \<open>Decimal conversion is exact and fits its buffer\<close>

lemma emit_digits_ok:
  "length (dec_nat v) \<le> length hole \<Longrightarrow>
   emit_digits (pre @ hole) (length pre) v =
     Some (pre @ rev (dec_nat v) @ drop (length (dec_nat v)) hole, length pre + length (dec_nat v))"
proof (induction v arbitrary: pre hole rule: less_induct)
  case (less v)
  let ?d = "of_nat (48 + v mod 10) :: byte"
  obtain a hole' where hole: "hole = a # hole'"
    using less.prems by (cases hole) auto
  have w: "mem_write (pre @ hole) (int (length pre)) [?d] = Some ((pre @ [?d]) @ hole')"
    using mem_write_at [of pre "length pre" "[a]" "[?d]" hole'] by (simp add: hole)
  show ?case
  proof (cases "v < 10")
    case True
    then show ?thesis using w by (subst emit_digits.simps) (simp add: dec_nat_small hole)
  next
    case False
    then have d: "dec_nat v = dec_nat (v div 10) @ [?d]" by (intro dec_nat_big) simp
    have "emit_digits ((pre @ [?d]) @ hole') (length (pre @ [?d])) (v div 10) =
      Some ((pre @ [?d]) @ rev (dec_nat (v div 10)) @ drop (length (dec_nat (v div 10))) hole',
        length (pre @ [?d]) + length (dec_nat (v div 10)))"
      using less.prems False d by (intro less.IH) (auto simp: hole)
    then show ?thesis using w False by (subst emit_digits.simps) (simp add: d hole Let_def)
  qed
qed

lemma reverse_loop_ok:
  "reverse_loop (pre @ xs @ post) (length pre) (length pre + length xs - 1) = Some (pre @ rev xs @ post)"
proof (induction "length xs" arbitrary: pre xs post rule: less_induct)
  case less
  show ?case
  proof (cases "length xs \<le> 1")
    case True
    then have "rev xs = xs" by (cases xs) auto
    moreover have "\<not> length pre < length pre + length xs - 1" using True by linarith
    ultimately show ?thesis by (subst reverse_loop.simps) (simp only: if_False)
  next
    case False
    then obtain a ys b where xs: "xs = a # ys @ [b]"
      by (metis append_butlast_last_id length_0_conv length_Suc_conv le_numeral_extra(3) linear list.exhaust
          nat_le_linear One_nat_def list.size(3) list.size(4) zero_le add_0)
    have "mem_swap (pre @ xs @ post) (length pre) (length pre + length xs - 1) =
        Some ((pre @ [b]) @ ys @ (a # post))"
      by (simp add: xs mem_swap_def nth_append list_update_append)
    moreover have "reverse_loop ((pre @ [b]) @ ys @ (a # post)) (length (pre @ [b])) (length (pre @ [b]) + length ys - 1)
        = Some ((pre @ [b]) @ rev ys @ a # post)"
      by (rule less) (simp add: xs)
    ultimately show ?thesis using False by (subst reverse_loop.simps) (simp add: xs)
  qed
qed

lemma sdsull2str_ok:
  assumes "length (dec_nat v) < length b"
  shows "sdsull2str b v = Some (dec_nat v @ 0 # drop (length (dec_nat v) + 1) b, length (dec_nat v))"
proof -
  let ?n = "length (dec_nat v)"
  have e: "emit_digits b 0 v = Some (rev (dec_nat v) @ drop ?n b, ?n)"
    using emit_digits_ok [of v b "[]"] assms by simp
  obtain x where x: "drop ?n b = [x] @ drop (?n + 1) b" using assms by (metis Cons_nth_drop_Suc append_Cons append_Nil Suc_eq_plus1)
  have w: "mem_write (rev (dec_nat v) @ drop ?n b) (int ?n) [0] = Some (rev (dec_nat v) @ [0] @ drop (?n + 1) b)"
    unfolding x by (rule mem_write_at) simp_all
  have r: "reverse_loop (rev (dec_nat v) @ [0] @ drop (?n + 1) b) 0 (?n - 1) = Some (dec_nat v @ [0] @ drop (?n + 1) b)"
    using reverse_loop_ok [of "[]" "rev (dec_nat v)"] by simp
  show ?thesis using e w r by (simp add: sdsull2str_def)
qed

lemma sdsll2str_ok:
  assumes "LLONG_MIN \<le> v" "v \<le> LLONG_MAX" and "length (dec v) < length b"
  shows "sdsll2str b v = Some (dec v @ 0 # drop (length (dec v) + 1) b, length (dec v))"
proof (cases "v < 0")
  case False
  then have "dec v = dec_nat (nat v)" by (simp add: dec_def)
  moreover have "sdsll2str b v = sdsull2str b (nat v)"
    using False by (simp add: sdsll2str_def sdsull2str_def case_prod_unfold)
  ultimately show ?thesis using sdsull2str_ok [of "nat v" b] assms(3) by simp
next
  case True
  let ?m = "nat (- v)" let ?n = "length (dec_nat ?m)"
  have m: "(- v) mod 2 ^ 64 = - v" using True assms(1) by (simp add: LLONG_MIN_def)
  have d: "dec v = 45 # dec_nat ?m" using True by (simp add: dec_def)
  then have len: "?n + 1 < length b" using assms(3) by simp
  then have e: "emit_digits b 0 ?m = Some (rev (dec_nat ?m) @ drop ?n b, ?n)"
    using emit_digits_ok [of ?m b "[]"] by simp
  obtain x y where x: "drop ?n b = [x] @ [y] @ drop (?n + 2) b"
    using len by (metis Cons_nth_drop_Suc Suc_eq_plus1 Suc_lessD add_2_eq_Suc' append_Cons append_Nil)
  have w1: "mem_write (rev (dec_nat ?m) @ drop ?n b) (int ?n) [45] = Some (rev (dec_nat ?m) @ [45] @ [y] @ drop (?n + 2) b)"
    unfolding x by (rule mem_write_at) simp_all
  have w2: "mem_write (rev (dec_nat ?m) @ [45] @ [y] @ drop (?n + 2) b) (int (?n + 1)) [0] =
      Some (rev (dec v) @ [0] @ drop (?n + 2) b)"
    using mem_write_at [of "rev (dec_nat ?m) @ [45]" "?n + 1" "[y]" "[0]" "drop (?n + 2) b"] by (simp add: d)
  have r: "reverse_loop (rev (dec v) @ [0] @ drop (?n + 2) b) 0 ?n = Some (dec v @ [0] @ drop (?n + 2) b)"
    using reverse_loop_ok [of "[]" "rev (dec v)"] by (simp add: d)
  show ?thesis using True m e w1 w2 r d by (simp add: sdsll2str_def)
qed

lemma dec_nat_length_le: "v < 10 ^ Suc n \<Longrightarrow> length (dec_nat v) \<le> Suc n"
proof (induction n arbitrary: v)
  case 0
  then show ?case by (simp add: dec_nat_small)
next
  case (Suc n)
  show ?case
  proof (cases "v < 10")
    case True
    then show ?thesis by (simp add: dec_nat_small)
  next
    case False
    have "length (dec_nat (v div 10)) \<le> Suc n"
      using Suc.prems by (intro Suc.IH) (simp add: less_mult_imp_div_less mult.commute)
    then show ?thesis using False dec_nat_big [of v] by simp
  qed
qed

lemma llstr_room:
  "v < 2 ^ 64 \<Longrightarrow> length (dec_nat v) < length (llstr_buf junk)"
  "LLONG_MIN \<le> i \<Longrightarrow> i \<le> LLONG_MAX \<Longrightarrow> length (dec i) < length (llstr_buf junk)"
proof -
  show "length (dec_nat v) < length (llstr_buf junk)" if "v < 2 ^ 64"
    using that dec_nat_length_le [of v 19] by (simp add: llstr_buf_def SDS_LLSTR_SIZE_def)
  show "length (dec i) < length (llstr_buf junk)" if "LLONG_MIN \<le> i" "i \<le> LLONG_MAX"
  proof -
    have "length (dec_nat (nat \<bar>i\<bar>)) \<le> 19"
      using that dec_nat_length_le [of "nat \<bar>i\<bar>" 18] by (simp add: LLONG_MIN_def LLONG_MAX_def)
    then show ?thesis by (auto simp: dec_def llstr_buf_def SDS_LLSTR_SIZE_def)
  qed
qed

lemma sdsfromlonglong_ok:
  assumes "LLONG_MIN \<le> v" "v \<le> LLONG_MAX"
  shows "\<exists>s. sdsfromlonglong junk v = Some s \<and> sds_rep s (dec v)"
proof -
  have l: "length (dec v) < length (llstr_buf junk)" using llstr_room(2) [OF assms] .
  have "length (dec v) \<le> 2 ^ 61" using l by (simp add: llstr_buf_def SDS_LLSTR_SIZE_def)
  then show ?thesis
    using sdsnewlen_ok [of "length (dec v)" "dec v @ 0 # drop (length (dec v) + 1) (llstr_buf junk)" junk]
    by (simp add: sdsfromlonglong_def sdsll2str_ok [OF assms l])
qed

subsection \<open>Printing through a buffer\<close>

lemma takeWhile_terminated:
  "takeWhile (\<lambda>b. b \<noteq> 0) (xs @ (0::byte) # ys) = takeWhile (\<lambda>b. b \<noteq> 0) xs"
  by (induction xs) auto

lemma strlen_le_take: "strlen (xs @ 0 # ys) = Some (length (takeWhile (\<lambda>b. b \<noteq> 0) xs))"
  by (rule strlen_takeWhile)

lemma take_takeWhile_len: "take (length (takeWhile P xs)) (xs @ ys) = takeWhile P xs"
  by (induction xs) auto

lemma takeWhile_take_stop:
  "k < length xs \<Longrightarrow> \<not> P (xs ! k) \<Longrightarrow> takeWhile P (take (Suc k) xs) = takeWhile P xs"
  by (induction xs arbitrary: k) (auto simp: nth_Cons split: nat.splits)

lemma catvprintf_loop_ok:
  assumes "2 \<le> buflen" "length b = buflen" "length out \<le> 2 ^ 59"
  shows "\<exists>xs ys. catvprintf_loop junk b buflen out = Some (xs @ 0 # ys) \<and>
    takeWhile (\<lambda>c. c \<noteq> 0) xs = takeWhile (\<lambda>c. c \<noteq> 0) out"
  using assms
proof (induction "length out + 2 - buflen" arbitrary: buflen b rule: less_induct)
  case less
  define b1 where "b1 = b[buflen - 2 := 0]"
  have l: "length b1 = buflen" using less.prems by (simp add: b1_def)
  have ib: "int buflen - 2 = int (buflen - 2)" using less.prems(1) by simp
  have w1: "mem_write b (int buflen - 2) [0] = Some b1"
    unfolding ib using less.prems by (subst mem_write_Some) (simp_all add: b1_def upd_conv_take_nth_drop)
  define o1 where "o1 = take (buflen - 1) out"
  define b2 where "b2 = o1 @ 0 # drop (length o1 + 1) b1"
  have lo: "length o1 + 1 \<le> buflen" using less.prems by (simp add: o1_def)
  have w2: "vsnprintf b1 buflen out = Some b2"
    unfolding vsnprintf_def o1_def [symmetric] using less.prems lo l by (simp add: mem_write_def b2_def)
  have l2: "length b2 = buflen" using lo l by (simp add: b2_def)
  have r: "rd b2 (int buflen - 2) = Some (b2 ! (buflen - 2))"
    unfolding ib using less.prems l2 by (intro rd_Some) simp
  have run: "catvprintf_loop junk b buflen out =
      (if b2 ! (buflen - 2) \<noteq> 0
       then catvprintf_loop junk (map junk [0..<size_t (buflen * 2)]) (size_t (buflen * 2)) out else Some b2)"
    by (subst catvprintf_loop.simps) (simp add: w1 w2 r Let_def)
  show ?case
  proof (cases "b2 ! (buflen - 2) = 0")
    case True
    have "takeWhile (\<lambda>c. c \<noteq> 0) o1 = takeWhile (\<lambda>c. c \<noteq> 0) out"
    proof (cases "length out < buflen")
      case True
      then show ?thesis by (simp add: o1_def)
    next
      case F: False
      have "b2 ! (buflen - 2) = out ! (buflen - 2)"
      proof -
        have "buflen - 2 < length o1" using F less.prems by (simp add: o1_def)
        then show ?thesis using less.prems by (simp add: b2_def nth_append o1_def)
      qed
      moreover have "Suc (buflen - 2) = buflen - 1" using less.prems by simp
      ultimately show ?thesis using True F less.prems takeWhile_take_stop [of "buflen - 2" out "\<lambda>c. c \<noteq> 0"]
        by (simp add: o1_def)
    qed
    then show ?thesis using run True by (auto simp: b2_def)
  next
    case False
    have "buflen < length out + 2"
    proof (rule ccontr)
      assume n: "\<not> ?thesis"
      then have "o1 = out" by (simp add: o1_def)
      then have "b2 ! (buflen - 2) = (if length out = buflen - 2 then 0 else b1 ! (buflen - 2))"
      proof (cases "length out = buflen - 2")
        case True
        then show ?thesis using \<open>o1 = out\<close> by (simp add: b2_def nth_append)
      next
        case ne: False
        then have "length out < buflen - 2" using n by linarith
        then obtain k where k: "buflen - 2 = length out + Suc k" by (metis less_imp_Suc_add add_Suc_right)
        then have "b2 ! (buflen - 2) = drop (length out + 1) b1 ! k" using \<open>o1 = out\<close> by (simp add: b2_def nth_append)
        also have "\<dots> = b1 ! (length out + Suc k)" using l n by (subst nth_drop) simp_all
        finally show ?thesis using k ne by simp
      qed
      then show False using False less.prems by (auto simp: b1_def split: if_splits)
    qed
    then have s: "size_t (buflen * 2) = buflen * 2" "length out + 2 - buflen * 2 < length out + 2 - buflen"
      using less.prems by auto
    show ?thesis
      using less.hyps [OF s(2), of "map junk [0..<buflen * 2]"] less.prems run False s by simp
  qed
qed

lemma sdscatprintf_ok:
  assumes rep: "sds_rep s v" and fmt: "0 \<notin> set fmt" "length fmt \<le> 2 ^ 60"
    and out: "length out \<le> 2 ^ 59" "length v + length out \<le> 2 ^ 61"
  shows "\<exists>s'. sdscatprintf junk s (fmt @ [0]) out = Some s' \<and> sds_rep s' (v @ takeWhile (\<lambda>c. c \<noteq> 0) out)"
proof -
  define n where "n = (if size_t (length fmt * 2) > 1024 then size_t (length fmt * 2) else 1024)"
  obtain xs ys where xy: "catvprintf_loop junk (map junk [0..<n]) n out = Some (xs @ 0 # ys)"
    "takeWhile (\<lambda>c. c \<noteq> 0) xs = takeWhile (\<lambda>c. c \<noteq> 0) out"
  proof -
    have "2 \<le> n" by (simp add: n_def)
    then show thesis using catvprintf_loop_ok [of n "map junk [0..<n]" out junk] out(1) that by auto
  qed
  let ?w = "takeWhile (\<lambda>c. c \<noteq> 0) out"
  have w: "length ?w \<le> length out" by (rule length_takeWhile_le)
  have t: "take (length ?w) (xs @ 0 # ys) = ?w"
    using take_takeWhile_len [of "\<lambda>c. c \<noteq> 0" xs "0 # ys"] xy(2) by metis
  have wx: "length ?w \<le> length (xs @ 0 # ys)" using xy(2) length_takeWhile_le [of "\<lambda>c. c \<noteq> 0" xs] by simp
  have sl: "strlen (xs @ 0 # ys) = Some (length ?w)" using strlen_takeWhile [of xs ys] xy(2) by simp
  obtain s' where s': "sdscatlen junk s (xs @ 0 # ys) (length ?w) = Some s'" "sds_rep s' (v @ ?w)"
    using sdscatlen_ok [OF rep wx, of junk] w out(2) t by auto
  have "sdscatprintf junk s (fmt @ [0]) out = sdscat junk s (xs @ 0 # ys)"
    using fmt(1) xy(1) by (simp add: sdscatprintf_def sdscatvprintf_def Let_def n_def [symmetric])
  then show ?thesis using s' sl by (simp add: sdscat_def)
qed

subsection \<open>Emitting a sequence of pieces\<close>

fun emit_all :: "('s \<Rightarrow> 'c \<Rightarrow> 's option) \<Rightarrow> 's \<Rightarrow> 'c list \<Rightarrow> 's option" where
  "emit_all emit s [] = Some s"
| "emit_all emit s (c # cs) = do { s \<leftarrow> emit s c; emit_all emit s cs }"

locale emitter =
  fixes rep :: "'s \<Rightarrow> 'a list \<Rightarrow> bool"
    and emit :: "'s \<Rightarrow> 'c \<Rightarrow> 's option"
    and out :: "'c \<Rightarrow> 'a list"
    and limit :: nat
  assumes emit_ok: "rep s v \<Longrightarrow> length v + length (out c) \<le> limit \<Longrightarrow>
    \<exists>s'. emit s c = Some s' \<and> rep s' (v @ out c)"
begin

lemma emit_all_ok:
  "rep s v \<Longrightarrow> length v + length (concat (map out cs)) \<le> limit \<Longrightarrow>
   \<exists>s'. emit_all emit s cs = Some s' \<and> rep s' (v @ concat (map out cs))"
proof (induction cs arbitrary: s v)
  case (Cons c cs)
  then obtain s' where s': "emit s c = Some s'" "rep s' (v @ out c)"
    using emit_ok [of s v c] by auto
  then show ?case using Cons.IH [OF s'(2)] Cons.prems by auto
qed simp

end

interpretation catsds: emitter sds_rep "\<lambda>s x. sdscatlen junk s x (length x)" "\<lambda>x. x" "2 ^ 61" for junk
  by unfold_locales (use sdscatlen_ok in force)

definition esc :: "byte \<Rightarrow> byte list" where
  \<comment> \<open>the representation of one byte\<close>
  "esc c = (if c = 92 \<or> c = 34 then [92, c]
     else if c = 10 then [92, 110] else if c = 13 then [92, 114] else if c = 9 then [92, 116]
     else if c = 7 then [92, 97] else if c = 8 then [92, 98]
     else if isprint c then [c]
     else [92, 120, hex_char (unat c div 16), hex_char (unat c mod 16)])"

definition quoted :: "byte list \<Rightarrow> byte list" where
  "quoted p = 34 # concat (map esc p) @ [34]"

lemma hex_char_props:
  "d < 16 \<Longrightarrow> hex_char d \<noteq> 0 \<and> is_hex_digit (hex_char d) \<and> hex_digit_to_int (hex_char d) = d"
proof -
  have "list_all (\<lambda>d. hex_char d \<noteq> 0 \<and> is_hex_digit (hex_char d) \<and> hex_digit_to_int (hex_char d) = d) [0..<16]"
    by code_simp
  then show "d < 16 \<Longrightarrow> ?thesis" by (simp add: list_all_iff)
qed

lemma unat_hex: "unat (c :: byte) div 16 < 16" "unat c mod 16 < 16"
  using unsigned_less [of c, where 'a = nat] by (simp_all add: less_mult_imp_div_less)

lemma esc_nonzero: "takeWhile (\<lambda>c. c \<noteq> 0) (esc c) = esc c"
proof -
  have "0 \<notin> set (esc c)" using hex_char_props [OF unat_hex(1) [of c]] hex_char_props [OF unat_hex(2) [of c]]
    by (auto simp: esc_def isprint_def)
  then show ?thesis by (rule takeWhile_nonzero)
qed

lemma repr_char_ok:
  assumes rep: "sds_rep s v" and small: "length v + length (esc c) \<le> 2 ^ 61"
  shows "\<exists>s'. repr_char junk s c = Some s' \<and> sds_rep s' (v @ esc c)"
proof -
  have P: "\<exists>s'. sdscatprintf junk s (fmt @ [0]) out = Some s' \<and> sds_rep s' (v @ esc c)"
    if "out = esc c" "0 \<notin> set fmt" "length fmt \<le> 10" for fmt out
  proof -
    have "length (esc c) \<le> 4" by (simp add: esc_def)
    then show ?thesis using sdscatprintf_ok [OF rep that(2), of "esc c" junk] that small by (simp add: esc_nonzero)
  qed
  have C: "\<exists>s'. sdscatlen junk s t 2 = Some s' \<and> sds_rep s' (v @ esc c)" if "t = esc c @ [0]" "length (esc c) = 2" for t
    using sdscatlen_ok [OF rep, of 2 t junk] small that by simp
  show ?thesis
    using P [of "[92, c]" "[92, 37, 99]"] P [of "[c]" "[37, 99]"]
      P [of "[92, 120, hex_char (unat c div 16), hex_char (unat c mod 16)]" "[92, 120, 37, 48, 50, 120]"]
      C [of "[92, 110, 0]"] C [of "[92, 114, 0]"] C [of "[92, 116, 0]"] C [of "[92, 97, 0]"] C [of "[92, 98, 0]"]
    by (auto simp: repr_char_def esc_def)
qed

interpretation catrepr: emitter sds_rep "repr_char junk" esc "2 ^ 61" for junk
  by unfold_locales (rule repr_char_ok)

lemma catrepr_loop_emit: "len \<le> length p \<Longrightarrow> catrepr_loop junk s p len = emit_all (repr_char junk) s (take len p)"
proof (induction p arbitrary: s len)
  case Nil
  then show ?case by simp
next
  case (Cons c p)
  then show ?case by (cases len) (auto intro!: Option.bind_cong)
qed

lemma sdscatrepr_ok:
  assumes rep: "sds_rep s v" and len: "len \<le> length p" and small: "length v + length (quoted (take len p)) \<le> 2 ^ 61"
  shows "\<exists>s'. sdscatrepr junk s p len = Some s' \<and> sds_rep s' (v @ quoted (take len p))"
proof -
  obtain s1 where s1: "sdscatlen junk s [34, 0] 1 = Some s1" "sds_rep s1 (v @ [34])"
    using sdscatlen_ok [OF rep, of 1 "[34, 0]" junk] small by (auto simp: quoted_def)
  obtain s2 where s2: "catrepr_loop junk s1 p len = Some s2" "sds_rep s2 (v @ [34] @ concat (map esc (take len p)))"
    using catrepr.emit_all_ok [OF s1(2), of "take len p" junk] small
    by (auto simp: catrepr_loop_emit [OF len] quoted_def)
  obtain s3 where "sdscatlen junk s2 [34, 0] 1 = Some s3" "sds_rep s3 (v @ quoted (take len p))"
    using sdscatlen_ok [OF s2(2), of 1 "[34, 0]" junk] small by (auto simp: quoted_def)
  then show ?thesis using s1(1) s2(1) by (simp add: sdscatrepr_def)
qed

subsection \<open>Parsing the quoted representation\<close>

lemma rd_list [simp]: "rd (c # p) 0 = Some c"
  by (simp add: rd_def)

lemma rd_1: "rd (a # c # p) 1 = Some c" and rd_2: "rd (a # b # c # p) 2 = Some c"
  and rd_3: "rd (a # b # d # c # p) 3 = Some c"
  by (simp_all add: rd_def numeral_2_eq_2 numeral_3_eq_3)

lemma cat_one:
  assumes "sds_rep cur w" and "length w < 2 ^ 61"
  shows "\<exists>cur'. sdscatlen junk cur (c # p) 1 = Some cur' \<and> sds_rep cur' (w @ [c])"
  using sdscatlen_ok [OF assms(1), of 1 "c # p" junk] assms(2) by simp

lemma splitargs_token_step:
  assumes "splitargs_step junk inq insq p cur = Some (Some (inq', insq', stop, c # p', cur'))"
  shows "splitargs_token junk inq insq p cur =
    (let p'' = (if c \<noteq> 0 then p' else c # p')
     in if stop then Some (Some (p'', cur')) else splitargs_token junk inq' insq' p'' cur')"
  using assms by (subst splitargs_token.simps) (simp add: Let_def)

lemma esc_cases:
  "(c = 92 \<or> c = 34) \<or> (c = 10 \<or> c = 13 \<or> c = 9 \<or> c = 7 \<or> c = 8) \<or>
   (isprint c \<and> c \<noteq> 92 \<and> c \<noteq> 34 \<and> esc c = [c]) \<or>
   esc c = [92, 120, hex_char (unat c div 16), hex_char (unat c mod 16)]"
  by (simp add: esc_def)

lemma step_esc:
  assumes rep: "sds_rep cur w" and small: "length w < 2 ^ 61"
  shows "\<exists>cur' d. splitargs_step junk True False (esc c @ rest) cur =
      Some (Some (True, False, False, d # rest, cur')) \<and> d \<noteq> 0 \<and> sds_rep cur' (w @ [c])"
proof -
  obtain cur' where cur': "sdscatlen junk cur [c] 1 = Some cur'" "sds_rep cur' (w @ [c])"
    using cat_one [OF assms, of junk c "[]"] by blast
  consider (slash) "c = 92 \<or> c = 34" | (ctl) "c = 10 \<or> c = 13 \<or> c = 9 \<or> c = 7 \<or> c = 8"
    | (plain) "isprint c" "c \<noteq> 92" "c \<noteq> 34" "esc c = [c]"
    | (hex) "esc c = [92, 120, hex_char (unat c div 16), hex_char (unat c mod 16)]"
    using esc_cases [of c] by blast
  then show ?thesis
  proof cases
    case slash
    then have "esc c = [92, c]" "c \<noteq> 120 \<and> c \<noteq> 0 \<and> c \<noteq> 110 \<and> c \<noteq> 114 \<and> c \<noteq> 116 \<and> c \<noteq> 98 \<and> c \<noteq> 97"
      by (auto simp: esc_def)
    then show ?thesis using cur' by (simp add: splitargs_step_def rd_1)
  next
    case ctl
    then obtain d where d: "esc c = [92, d]" "d \<noteq> 120" "d \<noteq> 0"
      "(if d = 110 then 10 else if d = 114 then 13 else if d = 116 then 9
        else if d = 98 then 8 else if d = 97 then 7 else d) = c"
      by (elim disjE) (auto simp: esc_def)
    then show ?thesis using cur' by (simp add: splitargs_step_def rd_1 Let_def del: if_splits)
  next
    case plain
    obtain cur'' where "sdscatlen junk cur (c # rest) 1 = Some cur''" "sds_rep cur'' (w @ [c])"
      using cat_one [OF assms] by blast
    moreover have "c \<noteq> 0" using plain(1) by (auto simp: isprint_def)
    ultimately show ?thesis using plain by (simp add: splitargs_step_def)
  next
    case hex
    let ?a = "hex_char (unat c div 16)" and ?b = "hex_char (unat c mod 16)"
    have ab: "is_hex_digit ?a" "is_hex_digit ?b" "hex_digit_to_int ?a = unat c div 16"
      "hex_digit_to_int ?b = unat c mod 16" "?b \<noteq> 0"
      using hex_char_props [OF unat_hex(1) [of c]] hex_char_props [OF unat_hex(2) [of c]] by auto
    have "unat c div 16 * 16 + unat c mod 16 = unat c" by simp
    then have "of_nat (unat c div 16 * 16 + unat c mod 16) = c" by simp
    then have "of_nat (unat c div 16) * 16 + of_nat (unat c mod 16) = c" by (simp only: of_nat_add of_nat_mult of_nat_numeral)
    then show ?thesis using cur' ab by (auto simp: hex splitargs_step_def rd_1 rd_2 rd_3 numeral_3_eq_3)
  qed
qed

lemma token_body:
  assumes "sds_rep cur w" and "length w + length v \<le> 2 ^ 61" and "isspace x \<or> x = 0"
  shows "\<exists>cur'. splitargs_token junk True False (concat (map esc v) @ 34 # x # rest) cur =
      Some (Some (x # rest, cur')) \<and> sds_rep cur' (w @ v)"
  using assms
proof (induction v arbitrary: w cur)
  case Nil
  have "splitargs_step junk True False (34 # x # rest) cur = Some (Some (True, False, True, 34 # x # rest, cur))"
    using Nil.prems(3) by (auto simp: splitargs_step_def rd_1)
  from splitargs_token_step [OF this] show ?case using Nil.prems(1) by (simp add: Let_def)
next
  case (Cons c v)
  let ?rest = "concat (map esc v) @ 34 # x # rest"
  obtain cur' d where st: "splitargs_step junk True False (esc c @ ?rest) cur =
      Some (Some (True, False, False, d # ?rest, cur'))" "d \<noteq> 0" "sds_rep cur' (w @ [c])"
    using step_esc [OF Cons.prems(1), of junk c ?rest] Cons.prems(2) by auto
  then have "splitargs_token junk True False (esc c @ ?rest) cur = splitargs_token junk True False ?rest cur'"
    using splitargs_token_step [OF st(1)] by (simp add: Let_def)
  moreover obtain cur'' where "splitargs_token junk True False ?rest cur' = Some (Some (x # rest, cur''))"
    "sds_rep cur'' ((w @ [c]) @ v)"
    using Cons.IH [OF st(3)] Cons.prems by auto
  ultimately show ?case by auto
qed

lemma token_quoted:
  assumes "length v \<le> 2 ^ 61" and "isspace x \<or> x = 0"
  shows "\<exists>cur. do { current \<leftarrow> sdsempty junk; splitargs_token junk False False (quoted v @ x # rest) current } =
      Some (Some (x # rest, cur)) \<and> sds_rep cur v"
proof -
  obtain s0 where s0: "sdsempty junk = Some s0" "sds_rep s0 []" using sdsempty_ok by blast
  let ?r = "concat (map esc v) @ 34 # x # rest"
  have "splitargs_step junk False False (34 # ?r) s0 = Some (Some (True, False, False, 34 # ?r, s0))"
    by (simp add: splitargs_step_def)
  from splitargs_token_step [OF this]
  have "splitargs_token junk False False (34 # ?r) s0 = splitargs_token junk True False ?r s0"
    by (simp add: Let_def)
  then show ?thesis using token_body [OF s0(2) _ assms(2), of v junk rest] assms(1) s0(1) by (simp add: quoted_def)
qed

fun args_line :: "byte list list \<Rightarrow> byte list" where
  \<comment> \<open>the quoted arguments, each after a blank\<close>
  "args_line [] = []"
| "args_line (a # as) = 32 # quoted a @ args_line as"

lemma args_line_hd: "args_line as @ 0 # z = x # r \<Longrightarrow> isspace x \<or> x = 0"
  by (cases as) (auto simp: isspace_def)

lemma splitargs_args_line:
  assumes "\<forall>a\<in>set as. length a \<le> 2 ^ 61"
  shows "\<exists>ss. splitargs_loop junk (args_line as @ 0 # z) vec = Some (Some (vec @ ss)) \<and> list_all2 sds_rep ss as"
  using assms
proof (induction as arbitrary: vec)
  case Nil
  show ?case by (subst splitargs_loop.simps) simp
next
  case (Cons a as)
  obtain x r where xr: "args_line as @ 0 # z = x # r" by (cases "args_line as @ 0 # z") auto
  obtain cur where cur: "do { current \<leftarrow> sdsempty junk; splitargs_token junk False False (quoted a @ x # r) current } =
      Some (Some (x # r, cur))" "sds_rep cur a"
    using token_quoted [of a x junk r] Cons.prems args_line_hd [OF xr] by auto
  have "isspace 32" by (simp add: isspace_def)
  moreover have "\<not> isspace 34" by (simp add: isspace_def)
  ultimately have "skip_blanks (args_line (a # as) @ 0 # z) = Some (quoted a @ x # r)"
    by (simp add: quoted_def xr)
  moreover have "rd (quoted a @ x # r) 0 = Some 34" by (simp add: quoted_def)
  ultimately have "splitargs_loop junk (args_line (a # as) @ 0 # z) vec = splitargs_loop junk (x # r) (vec @ [cur])"
    using cur(1) by (subst splitargs_loop.simps) (auto split: bind_splits)
  moreover obtain ss where "splitargs_loop junk (x # r) (vec @ [cur]) = Some (Some ((vec @ [cur]) @ ss))" "list_all2 sds_rep ss as"
    using Cons.IH [of "vec @ [cur]"] Cons.prems xr by auto
  ultimately show ?case using cur(2) by (intro exI [of _ "cur # ss"]) simp
qed

lemma is_hex_nonzero: "is_hex_digit c \<Longrightarrow> c \<noteq> 0"
  by (auto simp: is_hex_digit_def)

definition step_safe :: "byte list \<Rightarrow> byte list \<Rightarrow> (bool \<times> bool \<times> bool \<times> byte list \<times> sds) option option \<Rightarrow> bool" where
  \<comment> \<open>the step stays inside a terminated line, and moves on unless it is the last one\<close>
  "step_safe p w r \<longleftrightarrow> (case r of None \<Rightarrow> False | Some None \<Rightarrow> True
     | Some (Some (inq, insq, stop, p', cur)) \<Rightarrow>
         p' \<noteq> [] \<and> 0 \<in> set p' \<and> (if stop then p' = p else hd p' \<noteq> 0) \<and> length p' \<le> length p \<and>
         (\<exists>w'. sds_rep cur w' \<and> length w' \<le> length w + 1))"

lemma splitargs_step_safe:
  assumes rep: "sds_rep cur w" and small: "length w < 2 ^ 61" and z: "0 \<in> set p"
  shows "step_safe p w (splitargs_step junk inq insq p cur)"
proof -
  obtain c q where p: "p = c # q" using z by (cases p) auto
  have "\<forall>c p. \<exists>cur'. sdscatlen junk cur (c # p) 1 = Some cur' \<and> sds_rep cur' (w @ [c])"
    using cat_one [OF rep small] by blast
  then obtain F where F: "sdscatlen junk cur (c # p) (Suc 0) = Some (F c p)" "sds_rep (F c p) (w @ [c])" for c p
    by (auto simp: choice_iff)
  have F': "\<exists>w'. sds_rep (F c p) w' \<and> length w' \<le> Suc (length w)" for c p
    using F(2) by (intro exI [of _ "w @ [c]"]) simp
  have C: "\<exists>w'. sds_rep cur w' \<and> length w' \<le> Suc (length w)" using rep by (intro exI [of _ w]) simp
  show ?thesis
  proof (cases "c = 0")
    case True
    then show ?thesis using C by (simp add: p splitargs_step_def step_safe_def)
  next
    case c: False
    then obtain c1 q1 where q: "q = c1 # q1" using z p by (cases q) auto
    have z1: "0 \<in> set (c1 # q1)" using z p q c by auto
    consider (hex) c2 c3 q3 where "inq" "c = 92" "c1 = 120" "q1 = c2 # c3 # q3" "is_hex_digit c2" "is_hex_digit c3"
      | (nohex) "\<not> inq \<or> c \<noteq> 92 \<or> c1 \<noteq> 120"
      | (half) c2 q2 where "inq" "c = 92" "c1 = 120" "q1 = c2 # q2" "\<not> is_hex_digit c2"
      | (half2) c2 c3 q3 where "inq" "c = 92" "c1 = 120" "q1 = c2 # c3 # q3" "is_hex_digit c2" "\<not> is_hex_digit c3"
    proof (cases "inq \<and> c = 92 \<and> c1 = 120")
      case True
      then obtain c2 q2 where q1: "q1 = c2 # q2" using z1 by (cases q1) auto
      show thesis
      proof (cases "is_hex_digit c2")
        case h: True
        then have "0 \<in> set q2" using z1 True q1 is_hex_nonzero [OF h] by auto
        then obtain c3 q3 where "q2 = c3 # q3" by (cases q2) auto
        then show thesis using that(1,4) True q1 h by (cases "is_hex_digit c3") auto
      next
        case False
        then show thesis using that(3) True q1 by auto
      qed
    next
      case False
      then show thesis using that(2) by blast
    qed
    then show ?thesis
    proof cases
      case hex
      then have "0 \<in> set q3" "c3 \<noteq> 0" using z1 is_hex_nonzero by auto
      then show ?thesis using hex F' by (simp add: p q splitargs_step_def step_safe_def rd_1 rd_2 rd_3 F numeral_3_eq_3)
    next
      case nohex
      have e: "(if inq \<and> c = 92 then c1 = 120 else False) = False" using nohex by auto
      show ?thesis
      proof (cases inq)
        case True
        then show ?thesis using nohex c z1 C F'
          by (cases "c = 92"; cases "c1 = 0"; cases "c = 34")
            (simp_all add: p q splitargs_step_def step_safe_def rd_1 F)
      next
        case False
        then show ?thesis using c z1 C F'
          by (cases insq; cases "c = 92"; cases "c1 = 39"; cases "c = 39")
            (simp_all add: p q splitargs_step_def step_safe_def rd_1 F)
      qed
    next
      case half
      then show ?thesis using z1 F' by (simp add: p q splitargs_step_def step_safe_def rd_1 rd_2 F)
    next
      case half2
      then show ?thesis using z1 F' by (simp add: p q splitargs_step_def step_safe_def rd_1 rd_2 rd_3 F)
    qed
  qed
qed

lemma splitargs_token_safe:
  assumes "sds_rep cur w" and "length w + length p \<le> 2 ^ 61" and "0 \<in> set p"
  shows "\<exists>r. splitargs_token junk inq insq p cur = Some r \<and>
    (\<forall>p' cur'. r = Some (p', cur') \<longrightarrow> 0 \<in> set p' \<and> length p' \<le> length p \<and> (hd p \<noteq> 0 \<longrightarrow> length p' < length p))"
  using assms
proof (induction "length p" arbitrary: p cur w inq insq rule: less_induct)
  case less
  have lw: "length w < 2 ^ 61" using less.prems(2,3) by (cases p) auto
  from splitargs_step_safe [OF less.prems(1) lw less.prems(3), of junk inq insq]
  have safe: "step_safe p w (splitargs_step junk inq insq p cur)" .
  show ?case
  proof (cases "splitargs_step junk inq insq p cur")
    case None
    then show ?thesis using safe by (simp add: step_safe_def)
  next
    case (Some r)
    show ?thesis
    proof (cases r)
      case None
      then show ?thesis using Some by (subst splitargs_token.simps) simp
    next
      case (Some t)
      obtain inq' insq' stop c q cur' where t: "t = (inq', insq', stop, c # q, cur')"
        using safe \<open>splitargs_step junk inq insq p cur = Some r\<close> Some
        by (cases t) (auto simp: step_safe_def neq_Nil_conv)
      note st = \<open>splitargs_step junk inq insq p cur = Some r\<close> [unfolded Some t]
      have s: "0 \<in> set (c # q)" "if stop then c # q = p else c \<noteq> 0" "length (c # q) \<le> length p"
        "\<exists>w'. sds_rep cur' w' \<and> length w' \<le> length w + 1"
        using safe unfolding st by (auto simp: step_safe_def)
      show ?thesis
      proof (cases stop)
        case True
        then show ?thesis using splitargs_token_step [OF st] s by (auto simp: Let_def)
      next
        case False
        then have c: "c \<noteq> 0" using s by simp
        obtain w' where w': "sds_rep cur' w'" "length w' \<le> length w + 1" using s by blast
        have "\<exists>r. splitargs_token junk inq' insq' q cur' = Some r \<and>
          (\<forall>p' cur'. r = Some (p', cur') \<longrightarrow> 0 \<in> set p' \<and> length p' \<le> length q \<and> (hd q \<noteq> 0 \<longrightarrow> length p' < length q))"
          using s c less.prems(2) w' by (intro less.hyps [OF _ w'(1)]) auto
        then show ?thesis using splitargs_token_step [OF st] s(3) False c by (fastforce simp: Let_def)
      qed
    qed
  qed
qed

lemma skip_blanks_ok:
  "0 \<in> set p \<Longrightarrow> \<exists>c q. skip_blanks p = Some (c # q) \<and> 0 \<in> set (c # q) \<and> length (c # q) \<le> length p"
proof (induction p)
  case (Cons a p)
  then show ?case by (cases "a \<noteq> 0 \<and> isspace a") force+
qed simp

lemma splitargs_loop_returns:
  "0 \<in> set p \<Longrightarrow> length p \<le> 2 ^ 61 \<Longrightarrow> \<exists>r. splitargs_loop junk p vec = Some r"
proof (induction "length p" arbitrary: p vec rule: less_induct)
  case less
  obtain c q where q: "skip_blanks p = Some (c # q)" "0 \<in> set (c # q)" "length (c # q) \<le> length p"
    using skip_blanks_ok [OF less.prems(1)] by blast
  obtain s0 where s0: "sdsempty junk = Some s0" "sds_rep s0 []" using sdsempty_ok by blast
  obtain r where r: "splitargs_token junk False False (c # q) s0 = Some r"
    "\<forall>p' cur'. r = Some (p', cur') \<longrightarrow> 0 \<in> set p' \<and> (c \<noteq> 0 \<longrightarrow> length p' < length (c # q))"
    using splitargs_token_safe [OF s0(2) _ q(2), of junk False False] q(3) less.prems(2) by auto
  show ?case
  proof (cases "c = 0 \<or> r = None")
    case True
    then show ?thesis using q(1) s0 r(1) by (subst splitargs_loop.simps) auto
  next
    case False
    then obtain p' cur' where r': "r = Some (p', cur')" by auto
    then have "\<exists>r. splitargs_loop junk p' (vec @ [cur']) = Some r"
      using r(2) False q(3) less.prems(2) by (intro less.hyps) auto
    then show ?thesis using q(1) s0 r(1) False r' by (subst splitargs_loop.simps) auto
  qed
qed

subsection \<open>Splitting and joining\<close>

lemma memcmp_zero_iff:
  "n \<le> length a \<Longrightarrow> n \<le> length b \<Longrightarrow> \<exists>c. memcmp a b n = Some c \<and> (c = 0 \<longleftrightarrow> take n a = take n b)"
proof (induction a b n rule: memcmp.induct)
  case (2 x a y b n)
  then show ?case by (cases "x = y") auto
qed auto

definition join_vals :: "byte list \<Rightarrow> byte list list \<Rightarrow> byte list \<Rightarrow> byte list" where
  \<comment> \<open>the tokens, each followed by the separator, and what comes last\<close>
  "join_vals sep vs r = concat (map (\<lambda>v. v @ sep) vs) @ r"

lemma splitlen_loop_ok:
  assumes s: "length s \<le> 2 ^ 61" and sep: "sep \<noteq> []"
    and inv: "start \<le> j" "start \<le> length s" "list_all2 sds_rep toks vs" "join_vals sep vs (drop start s) = s"
      "length toks < slots" "slots \<ge> 1" "length toks * length sep \<le> start"
  shows "\<exists>start' slots' toks' vs'.
    splitlen_loop junk (s @ r) (int (length s)) sep (int (length sep)) (int j) (int start) slots toks =
      Some (int start', slots', toks') \<and> start' \<le> length s \<and> list_all2 sds_rep toks' vs' \<and>
      join_vals sep vs' (drop start' s) = s \<and> length toks' < slots'"
  using inv
proof (induction "length s + length sep - j" arbitrary: j start slots toks vs rule: less_induct)
  case less
  show ?case
  proof (cases "j + length sep \<le> length s")
    case False
    then have "\<not> int j < int (length s) - (int (length sep) - 1)" by linarith
    then show ?thesis using less.prems by (subst splitlen_loop.simps) auto
  next
    case True
    define sl where "sl = (if slots < length toks + 2 then slots * 2 else slots)"
    have sl: "length toks + 1 < sl" using less.prems by (auto simp: sl_def)
    have lt: "int j < int (length s) - (int (length sep) - 1)" using True by linarith
    have js: "j < length s" using True sep by (cases sep) auto
    define hit where "hit = (take (length sep) (drop j s) = sep)"
    obtain c where c: "memcmp (drop j (s @ r)) sep (length sep) = Some c" "c = 0 \<longleftrightarrow> hit"
    proof -
      have "length sep \<le> length (drop j (s @ r))" using True by simp
      then show thesis using memcmp_zero_iff [of "length sep" "drop j (s @ r)" sep] True that by (auto simp: hit_def)
    qed
    obtain b sep' where b: "sep = b # sep'" using sep by (cases sep) auto
    have rj: "rd (s @ r) (int j) = Some (s ! j)" using js by (simp add: rd_def nth_append)
    have one: "(if int (length sep) = 1 then do { a \<leftarrow> rd (s @ r) (int j); b \<leftarrow> rd sep 0; Some (a = b) } else Some False)
      = Some (length sep = 1 \<and> s ! j = b)"
      using rj b by auto
    have oh: "length sep = 1 \<and> s ! j = b \<Longrightarrow> hit"
      using js b by (auto simp: hit_def take_Suc_conv_app_nth hd_drop_conv_nth take_Suc)
    have h: "(if length sep = 1 \<and> s ! j = b then Some True
        else do { c \<leftarrow> memcmp (drop (nat (int j)) (s @ r)) sep (nat (int (length sep))); Some (c = 0) }) = Some hit"
      using c oh by auto
    show ?thesis
    proof (cases hit)
      case False
      have run: "splitlen_loop junk (s @ r) (int (length s)) sep (int (length sep)) (int j) (int start) slots toks =
        splitlen_loop junk (s @ r) (int (length s)) sep (int (length sep)) (int (j + 1)) (int start) sl toks"
        using lt h False by (subst splitlen_loop.simps) (simp only: one Let_def sl_def [symmetric] if_True if_False Option.bind.simps of_nat_add of_nat_1)
      show ?thesis unfolding run using less.prems sl js by (intro less.hyps) auto
    next
      case hit: True
      have "j - start \<le> length (drop start (s @ r))" using js by simp
      then obtain t where t: "sdsnewlen junk (Some (drop start (s @ r))) (j - start) = Some t"
        "sds_rep t (take (j - start) (drop start (s @ r)))"
      proof -
        have "j - start \<le> 2 ^ 61" using s js by linarith
        then show thesis
          using sdsnewlen_ok [OF \<open>j - start \<le> length (drop start (s @ r))\<close>, of junk] that by blast
      qed
      let ?v = "take (j - start) (drop start s)"
      have tv: "sds_rep t ?v" using t(2) less.prems(1) js by (simp add: take_drop)
      have run: "splitlen_loop junk (s @ r) (int (length s)) sep (int (length sep)) (int j) (int start) slots toks =
        splitlen_loop junk (s @ r) (int (length s)) sep (int (length sep)) (int (j + length sep)) (int (j + length sep)) sl (toks @ [t])"
      proof -
        have e: "nat (int j - int start) = j - start" "int (j + length sep) - 1 + 1 = int (j + length sep)"
          "int j + int (length sep) = int (j + length sep)" "length toks < sl" "hit = True"
          using less.prems(1) sl hit by simp_all
        show ?thesis
          by (subst splitlen_loop.simps)
            (simp only: lt one h [unfolded nat_int] e t(1) nat_int Let_def sl_def [symmetric] if_True Option.bind.simps)
      qed
      have "drop start s = ?v @ sep @ drop (j + length sep) s"
      proof -
        have "drop start s = ?v @ drop j s" using less.prems(1) by (metis append_take_drop_id drop_drop le_add_diff_inverse2)
        moreover have "drop j s = sep @ drop (j + length sep) s"
          using hit unfolding hit_def by (metis append_take_drop_id drop_drop add.commute)
        ultimately show ?thesis by simp
      qed
      then have J: "join_vals sep (vs @ [?v]) (drop (j + length sep) s) = s"
        using less.prems(4) by (simp add: join_vals_def)
      show ?thesis unfolding run
        using less.prems sl js J True tv b
        by (intro less.hyps [where vs = "vs @ [?v]"]) (auto intro: list_all2_appendI)
    qed
  qed
qed

lemma sdssplitlen_ok:
  assumes s: "s \<noteq> []" "length s \<le> 2 ^ 61" and sep: "sep \<noteq> []"
  shows "\<exists>toks vs v. sdssplitlen junk (s @ r) (int (length s)) sep (int (length sep)) = Some (Some toks) \<and>
    list_all2 sds_rep toks (vs @ [v]) \<and> join_vals sep vs v = s"
proof -
  obtain start slots toks vs where l: "splitlen_loop junk (s @ r) (int (length s)) sep (int (length sep)) 0 0 5 [] =
      Some (int start, slots, toks)" "start \<le> length s" "list_all2 sds_rep toks vs"
      "join_vals sep vs (drop start s) = s" "length toks < slots"
    using splitlen_loop_ok [OF s(2) sep, of 0 0 "[]" "[]" 5 junk r] by (auto simp: join_vals_def)
  have len: "length s - start \<le> length (drop start (s @ r))" "length s - start \<le> 2 ^ 61" using s(2) by auto
  obtain t where t: "sdsnewlen junk (Some (drop start (s @ r))) (length s - start) = Some t"
    "sds_rep t (take (length s - start) (drop start (s @ r)))"
    using sdsnewlen_ok [OF len, of junk] by blast
  have "take (length s - start) (drop start (s @ r)) = drop start s" by simp
  then have "list_all2 sds_rep (toks @ [t]) (vs @ [drop start s])" using t(2) l(3) by (auto intro: list_all2_appendI)
  moreover have "nat (int (length s) - int start) = length s - start" using l(2) by simp
  moreover have "int (length sep) \<ge> 1" using sep by (cases sep) auto
  ultimately show ?thesis using l t(1) s(1) by (auto simp: sdssplitlen_def)
qed

lemma sdsjoinsds_loop_ok:
  assumes "list_all2 sds_rep toks (vs @ [v])" and "sds_rep join w" and "length w + length (join_vals sep vs v) \<le> 2 ^ 61"
  shows "\<exists>s'. sdsjoinsds_loop junk toks sep (length sep) join = Some s' \<and> sds_rep s' (w @ join_vals sep vs v)"
  using assms
proof (induction vs arbitrary: toks join w)
  case Nil
  then obtain t where t: "toks = [t]" "sds_rep t v" by (auto simp: list_all2_Cons2)
  then have "take (length v) (buf t) = v" "length v \<le> length (buf t)" "sdslen t = length v" by (auto simp: sds_rep_def)
  then show ?case using t sdscatlen_ok [OF Nil.prems(2), of "length v" "buf t" junk] Nil.prems(3)
    by (auto simp: sdscatsds_def join_vals_def)
next
  case (Cons u vs)
  then obtain t toks' where t: "toks = t # toks'" "sds_rep t u" "list_all2 sds_rep toks' (vs @ [v])"
    by (auto simp: list_all2_Cons2)
  have ne: "toks' \<noteq> []" using t(3) by auto
  have small: "length w + length u + length sep + length (join_vals sep vs v) \<le> 2 ^ 61"
    using Cons.prems(3) by (simp add: join_vals_def)
  have u: "take (length u) (buf t) = u" "length u \<le> length (buf t)" "sdslen t = length u" using t(2) by (auto simp: sds_rep_def)
  obtain j1 where j1: "sdscatsds junk join t = Some j1" "sds_rep j1 (w @ u)"
    using sdscatlen_ok [OF Cons.prems(2) u(2), of junk] small u by (auto simp: sdscatsds_def)
  obtain j2 where j2: "sdscatlen junk j1 sep (length sep) = Some j2" "sds_rep j2 (w @ u @ sep)"
    using sdscatlen_ok [OF j1(2), of "length sep" sep junk] small by auto
  obtain s' where "sdsjoinsds_loop junk toks' sep (length sep) j2 = Some s'" "sds_rep s' ((w @ u @ sep) @ join_vals sep vs v)"
    using Cons.IH [OF t(3) j2(2)] small by auto
  then show ?case using t(1) j1(1) j2(1) ne by (auto simp: join_vals_def)
qed

subsection \<open>The fast formatted append\<close>

lemma hdr_inclen_eq:
  "hdr_len h + n \<le> hdr_alloc h \<Longrightarrow> hdr_inclen n h = hdr_setlen (hdr_len h + n) h"
  by (cases h) (simp_all add: Let_def)

lemma sds_part_put:
  assumes part: "sds_part x s v" and room: "length v + length t \<le> sdsalloc s"
  shows "\<exists>b y. mem_write (buf s) (int (length v)) t = Some b \<and> sds_part y (sdsinclen (length t) (s\<lparr>buf := b\<rparr>)) (v @ t)"
proof -
  obtain z where z: "buf s = v @ x # z" using part by (auto simp: sds_part_def)
  have l: "sdslen s = length v" "sdsalloc s < length (buf s)" using part by (auto simp: sds_part_def)
  have lz: "length t \<le> length z" using room l z by simp
  obtain y z' where y: "drop (length t) (x # z) = y # z'" using lz by (cases "drop (length t) (x # z)") auto
  let ?b = "(v @ t) @ y # z'"
  have w: "mem_write (buf s) (int (length v)) t = Some ?b"
    using lz y by (simp add: z mem_write_def)
  have h: "sdsinclen (length t) (s\<lparr>buf := ?b\<rparr>) = sdssetlen (length (v @ t)) (s\<lparr>buf := ?b\<rparr>)"
    using room l(1) by (simp add: sdsinclen_def sdssetlen_def sdslen_def sdsalloc_def hdr_inclen_eq)
  have "length ?b = length (buf s)" using w mem_write_length by blast
  then have "sds_part y (sdssetlen (length (v @ t)) (s\<lparr>buf := ?b\<rparr>)) (v @ t)"
    using room l(2) setlen_simps [of "length (v @ t)" "s\<lparr>buf := ?b\<rparr>"] by (auto simp: sds_part_def sdsalloc_def)
  then show ?thesis using w h by auto
qed

lemma catfmt_put_ok:
  assumes part: "sds_part x s v" and t: "l \<le> length t" and small: "length v + l \<le> 2 ^ 61"
  shows "\<exists>s' y. catfmt_put junk s (length v) t l = Some (s', length v + l) \<and> sds_part y s' (v @ take l t)"
proof -
  obtain s1 where s1: "(if sdsavail s < l then sdsMakeRoomFor junk s l else Some s) = Some s1" "sds_part x s1 v"
    "length v + l \<le> sdsalloc s1"
    using sdsMakeRoomFor_part [OF part small, of junk] sds_part_avail [OF part] part
    by (cases "sdsavail s < l") (auto simp: sds_part_def)
  have lt: "length (take l t) = l" using t by simp
  obtain b y where "mem_write (buf s1) (int (length v)) (take l t) = Some b"
    "sds_part y (sdsinclen l (s1\<lparr>buf := b\<rparr>)) (v @ take l t)"
    using sds_part_put [OF s1(2), of "take l t"] s1(3) unfolding lt by blast
  then show ?thesis using s1(1) t by (auto simp: catfmt_put_def mem_read_def)
qed

lemma catfmt_char_ok:
  assumes "sds_part x s v" and "length v + 1 \<le> sdsalloc s"
  shows "\<exists>s' y. catfmt_char s (length v) c = Some (s', length v + 1) \<and> sds_part y s' (v @ [c])"
  using sds_part_put [OF assms(1), of "[c]"] assms(2) by (auto simp: catfmt_char_def)

fun fmt_piece :: "byte \<Rightarrow> fmt_arg list \<Rightarrow> (byte list \<times> fmt_arg list) option" where
  \<comment> \<open>reference meaning of a conversion, None where the argument does not fit\<close>
  "fmt_piece c (FStr m # args) =
     (if c = 115 \<and> 0 \<in> set m then Some (takeWhile (\<lambda>b. b \<noteq> 0) m, args)
      else if c \<in> {115, 83, 105, 73, 117, 85} then None else Some ([c], FStr m # args))"
| "fmt_piece c (FSds t # args) =
     (if c = 83 \<and> sds_ok t then Some (sds_val t, args)
      else if c \<in> {115, 83, 105, 73, 117, 85} then None else Some ([c], FSds t # args))"
| "fmt_piece c (FInt i # args) =
     (if c = 105 \<and> - (2 ^ 31) \<le> i \<and> i < 2 ^ 31 then Some (dec i, args)
      else if c \<in> {115, 83, 105, 73, 117, 85} then None else Some ([c], FInt i # args))"
| "fmt_piece c (FLongLong i # args) =
     (if c = 73 \<and> LLONG_MIN \<le> i \<and> i \<le> LLONG_MAX then Some (dec i, args)
      else if c \<in> {115, 83, 105, 73, 117, 85} then None else Some ([c], FLongLong i # args))"
| "fmt_piece c (FUInt n # args) =
     (if c = 117 \<and> n < 2 ^ 32 then Some (dec_nat n, args)
      else if c \<in> {115, 83, 105, 73, 117, 85} then None else Some ([c], FUInt n # args))"
| "fmt_piece c (FULongLong n # args) =
     (if c = 85 \<and> n < 2 ^ 64 then Some (dec_nat n, args)
      else if c \<in> {115, 83, 105, 73, 117, 85} then None else Some ([c], FULongLong n # args))"
| "fmt_piece c [] = (if c \<in> {115, 83, 105, 73, 117, 85} then None else Some ([c], []))"

fun fmt_render :: "byte list \<Rightarrow> fmt_arg list \<Rightarrow> byte list option" where
  \<comment> \<open>reference meaning of a format; None for a lone percent sign at the end\<close>
  "fmt_render [] args = Some []"
| "fmt_render [c] args = (if c = 37 then None else Some [c])"
| "fmt_render (c # d # f) args =
     (if c = 37 then
        (case fmt_piece d args of None \<Rightarrow> None
         | Some (x, args) \<Rightarrow> map_option (append x) (fmt_render f args))
      else map_option (Cons c) (fmt_render (d # f) args))"

lemma takeWhile_lt:
  assumes "0 \<in> set m"
  shows "strlen m = Some (length (takeWhile (\<lambda>b. b \<noteq> 0) m))"
proof -
  obtain a b where "m = a @ 0 # b" using assms by (metis split_list)
  then show ?thesis by (simp only: strlen_takeWhile takeWhile_terminated)
qed

lemma catfmt_spec_ok:
  assumes part: "sds_part x s v" and room: "length v + 1 \<le> sdsalloc s" and p: "fmt_piece c args = Some (t, args')"
    and small: "length v + length t \<le> 2 ^ 61"
  shows "\<exists>s' y. catfmt_spec junk c args s (length v) = Some (s', length v + length t, args') \<and> sds_part y s' (v @ t)"
proof -
  have put: "\<exists>s' y. catfmt_put junk s (length v) (t @ r) (length t) = Some (s', length v + length t) \<and> sds_part y s' (v @ t)" for r
    using catfmt_put_ok [OF part, of "length t" "t @ r" junk] small by simp
  have chr: "\<exists>s' y. catfmt_char s (length v) c = Some (s', length v + 1) \<and> sds_part y s' (v @ [c])"
    by (rule catfmt_char_ok [OF part room])
  show ?thesis
  proof (cases "c \<in> {115, 83, 105, 73, 117, 85}")
    case False
    then have "t = [c]" "args' = args" using p by (cases "(c, args)" rule: fmt_piece.cases; auto split: if_splits)+
    then show ?thesis using chr False by (auto simp: catfmt_spec_def)
  next
    case True
    show ?thesis
    proof (cases "(c, args)" rule: fmt_piece.cases)
      case (1 c' m args1)
      then have c: "c = 115" "0 \<in> set m" "t = takeWhile (\<lambda>b. b \<noteq> 0) m" "args' = args1"
        using p True by (auto split: if_splits)
      then have "t @ dropWhile (\<lambda>b. b \<noteq> 0) m = m" by simp
      then show ?thesis using put [of "dropWhile (\<lambda>b. b \<noteq> 0) m"] c 1 takeWhile_lt [OF c(2)]
        by (auto simp: catfmt_spec_def)
    next
      case (2 c' u args1)
      then have c: "c = 83" "sds_ok u" "t = sds_val u" "args' = args1" using p True by (auto split: if_splits)
      then have "sds_rep u t" by (simp add: sds_rep_iff)
      then obtain z where "buf u = t @ 0 # z" "sdslen u = length t" by (auto simp: sds_rep_def)
      then show ?thesis using put [of "0 # z"] c 2 by (auto simp: catfmt_spec_def)
    next
      case (3 c' i args1)
      then have c: "c = 105" "LLONG_MIN \<le> i" "i \<le> LLONG_MAX" "t = dec i" "args' = args1"
        using p True by (auto split: if_splits simp: LLONG_MIN_def LLONG_MAX_def)
      show ?thesis using put [of "0 # drop (length t + 1) (llstr_buf junk)"] c(1,4,5) 3 sdsll2str_ok [OF c(2,3) llstr_room(2) [OF c(2,3)]]
        by (auto simp: catfmt_spec_def)
    next
      case (4 c' i args1)
      then have c: "c = 73" "LLONG_MIN \<le> i" "i \<le> LLONG_MAX" "t = dec i" "args' = args1"
        using p True by (auto split: if_splits)
      show ?thesis using put [of "0 # drop (length t + 1) (llstr_buf junk)"] c(1,4,5) 4 sdsll2str_ok [OF c(2,3) llstr_room(2) [OF c(2,3)]]
        by (auto simp: catfmt_spec_def)
    next
      case (5 c' n args1)
      then have c: "c = 117" "n < 2 ^ 64" "t = dec_nat n" "args' = args1"
        using p True by (auto split: if_splits)
      show ?thesis using put [of "0 # drop (length t + 1) (llstr_buf junk)"] c(1,3,4) 5 sdsull2str_ok [OF llstr_room(1) [OF c(2)]]
        by (auto simp: catfmt_spec_def)
    next
      case (6 c' n args1)
      then have c: "c = 85" "n < 2 ^ 64" "t = dec_nat n" "args' = args1"
        using p True by (auto split: if_splits)
      show ?thesis using put [of "0 # drop (length t + 1) (llstr_buf junk)"] c(1,3,4) 6 sdsull2str_ok [OF llstr_room(1) [OF c(2)]]
        by (auto simp: catfmt_spec_def)
    next
      case (7 c')
      then show ?thesis using p True by auto
    qed
  qed
qed

lemma catfmt_room:
  assumes part: "sds_part x s v" and small: "length v + 1 \<le> 2 ^ 61"
  shows "\<exists>s1. (if sdsavail s = 0 then sdsMakeRoomFor junk s 1 else Some s) = Some s1 \<and> sds_part x s1 v \<and>
    length v + 1 \<le> sdsalloc s1"
  using sdsMakeRoomFor_part [OF part small, of junk] sds_part_avail [OF part] part by (auto simp: sds_part_def)

lemma catfmt_loop_ok:
  assumes "sds_part x s v" and "0 \<notin> set fmt" and "fmt_render fmt args = Some t" and "length v + length t < 2 ^ 61"
  shows "\<exists>s' y. catfmt_loop junk (fmt @ [0]) args s (length v) = Some (s', length v + length t) \<and> sds_part y s' (v @ t)"
  using assms
proof (induction fmt args arbitrary: s v x t rule: fmt_render.induct)
  case (1 args)
  then show ?case by auto
next
  case (2 c args)
  then have c: "c \<noteq> 37" "t = [c]" "c \<noteq> 0" by (auto split: if_splits)
  obtain s1 where s1: "(if sdsavail s = 0 then sdsMakeRoomFor junk s 1 else Some s) = Some s1"
    "sds_part x s1 v" "length v + 1 \<le> sdsalloc s1"
    using catfmt_room [OF 2(1), of junk] 2(4) by auto
  then show ?case using catfmt_char_ok [OF s1(2,3), of c] c by auto
next
  case (3 c d f args)
  obtain s1 where s1: "(if sdsavail s = 0 then sdsMakeRoomFor junk s 1 else Some s) = Some s1"
    "sds_part x s1 v" "length v + 1 \<le> sdsalloc s1"
    using catfmt_room [OF 3(3), of junk] 3(6) by auto
  have nz: "c \<noteq> 0" "0 \<notin> set (d # f)" using 3(4) by auto
  show ?case
  proof (cases "c = 37")
    case True
    then obtain t1 args1 t2 where t: "fmt_piece d args = Some (t1, args1)" "fmt_render f args1 = Some t2" "t = t1 @ t2"
      using 3(5) by (auto split: option.splits)
    obtain s2 y where s2: "catfmt_spec junk d args s1 (length v) = Some (s2, length v + length t1, args1)" "sds_part y s2 (v @ t1)"
      using catfmt_spec_ok [OF s1(2,3) t(1), of junk] 3(6) t(3) by auto
    have "\<exists>s' y. catfmt_loop junk (f @ [0]) args1 s2 (length (v @ t1)) = Some (s', length (v @ t1) + length t2) \<and> sds_part y s' ((v @ t1) @ t2)"
      using True t nz 3(6) by (intro 3(1) [OF True t(1) refl s2(2)]) auto
    then show ?thesis using s1(1) s2(1) True nz(1) t(3) by (auto simp: add.assoc)
  next
    case False
    then obtain t2 where t: "fmt_render (d # f) args = Some t2" "t = c # t2" using 3(5) by auto
    obtain s2 y where s2: "catfmt_char s1 (length v) c = Some (s2, length v + 1)" "sds_part y s2 (v @ [c])"
      using catfmt_char_ok [OF s1(2,3), of c] by auto
    have "\<exists>s' y. catfmt_loop junk ((d # f) @ [0]) args s2 (length (v @ [c])) = Some (s', length (v @ [c]) + length t2) \<and> sds_part y s' ((v @ [c]) @ t2)"
      using t nz 3(6) by (intro 3(2) [OF False s2(2)]) auto
    then show ?thesis using s1(1) s2(1) False nz(1) t(2) by auto
  qed
qed

lemma sdscatfmt_ok:
  assumes rep: "sds_rep s v" and "0 \<notin> set fmt" and "fmt_render fmt args = Some t" and "length v + length t < 2 ^ 61"
  shows "\<exists>s'. sdscatfmt junk s (fmt @ [0]) args = Some s' \<and> sds_rep s' (v @ t)"
proof -
  obtain s1 y where s1: "catfmt_loop junk (fmt @ [0]) args s (length v) = Some (s1, length (v @ t))" "sds_part y s1 (v @ t)"
    using catfmt_loop_ok [of 0 s v fmt args t junk] assms by (auto simp: sds_rep_part)
  obtain z where z: "buf s1 = (v @ t) @ [y] @ z" using s1(2) by (auto simp: sds_part_def)
  have "mem_write (buf s1) (int (length (v @ t))) [0] = Some ((v @ t) @ [0] @ z)"
    unfolding z by (rule mem_write_append) simp
  moreover have "sds_rep (s1\<lparr>buf := (v @ t) @ [0] @ z\<rparr>) (v @ t)"
    using s1(2) z by (auto simp: sds_part_def sds_rep_def sdslen_def sdsalloc_def)
  moreover have "sdslen s = length v" using rep by (simp add: sds_rep_def)
  ultimately show ?thesis using s1(1) by (auto simp: sdscatfmt_def Let_def)
qed

subsection \<open>Properties\<close>

definition repr_arg :: "(nat \<Rightarrow> byte) \<Rightarrow> sds \<Rightarrow> byte list \<Rightarrow> sds option" where
  \<comment> \<open>a blank and the quoted argument\<close>
  "repr_arg junk s a = do { s \<leftarrow> sdscatlen junk s [32, 0] 1; sdscatrepr junk s a (length a) }"

interpretation repr_args: emitter sds_rep "repr_arg junk" "\<lambda>a. 32 # quoted a" "2 ^ 61" for junk
proof unfold_locales
  fix s :: sds and v a assume rep: "sds_rep s v" and small: "length v + length (32 # quoted a) \<le> 2 ^ 61"
  obtain s1 where s1: "sdscatlen junk s [32, 0] 1 = Some s1" "sds_rep s1 (v @ [32])"
    using sdscatlen_ok [OF rep, of 1 "[32, 0]" junk] small by auto
  then show "\<exists>s'. repr_arg junk s a = Some s' \<and> sds_rep s' (v @ 32 # quoted a)"
    using sdscatrepr_ok [OF s1(2), of "length a" a junk] small by (auto simp: repr_arg_def)
qed

lemma args_line_concat: "args_line as = concat (map (\<lambda>a. 32 # quoted a) as)"
  by (induction as) auto

lemma length_esc_ge: "length a \<le> length (concat (map esc a))"
proof (induction a)
  case (Cons c a)
  have "1 \<le> length (esc c)" by (simp add: esc_def)
  then show ?case using Cons by simp
qed simp

lemma args_line_args: "a \<in> set as \<Longrightarrow> length a \<le> length (args_line as)"
proof (induction as)
  case (Cons b as)
  then show ?case using length_esc_ge [of b] by (auto simp: quoted_def)
qed simp

lemma list_all2_sds_rep: "list_all2 sds_rep ts as \<longleftrightarrow> list_all sds_ok ts \<and> map sds_val ts = as"
  by (induction ts arbitrary: as) (auto simp: list_all2_Cons1 sds_rep_iff)

text \<open>Property C21. Printing any list of arguments with \<open>sdscatrepr\<close>, a blank before each, and
  parsing the line with \<open>sdssplitargs\<close> gives the arguments back, whatever bytes they hold.\<close>
theorem sdscatrepr_splitargs:
  assumes "length (args_line as) \<le> 2 ^ 61"
  shows "\<exists>s0 s ts. sdsempty junk = Some s0 \<and> emit_all (repr_arg junk) s0 as = Some s \<and>
    sdssplitargs junk (buf s) = Some (Some ts) \<and> list_all sds_ok ts \<and> map sds_val ts = as"
proof -
  obtain s0 where s0: "sdsempty junk = Some s0" "sds_rep s0 []" using sdsempty_ok by blast
  obtain s where s: "emit_all (repr_arg junk) s0 as = Some s" "sds_rep s (args_line as)"
    using repr_args.emit_all_ok [OF s0(2), of as junk] assms by (auto simp: args_line_concat)
  obtain z where z: "buf s = args_line as @ 0 # z" using s(2) by (auto simp: sds_rep_def)
  have "\<forall>a\<in>set as. length a \<le> 2 ^ 61" using args_line_args assms by fastforce
  then obtain ts where "sdssplitargs junk (buf s) = Some (Some ts)" "list_all2 sds_rep ts as"
    using splitargs_args_line [of as junk z "[]"] by (auto simp: z sdssplitargs_def)
  then show ?thesis using s0(1) s(1) by (auto simp: list_all2_sds_rep)
qed

theorem sdscatrepr_splitargs_witness:
  "\<exists>s0 s ts. sdsempty (\<lambda>_. 1) = Some s0 \<and> emit_all (repr_arg (\<lambda>_. 1)) s0 [[83, 0, 34], [], [200, 92]] = Some s \<and>
    sdssplitargs (\<lambda>_. 1) (buf s) = Some (Some ts) \<and> map sds_val ts = [[83, 0, 34], [], [200, 92]]"
proof -
  have "length (args_line [[83, 0, 34], [], [200, 92]]) = 22" by code_simp
  then show ?thesis using sdscatrepr_splitargs [of "[[83, 0, 34], [], [200, 92]]" "\<lambda>_. 1"] by auto
qed

text \<open>\<open>sdssplitargs\<close> returns on every terminated line, never reading behind the
  terminator: it ends either with an array or with NULL.\<close>
lemma sdssplitargs_returns:
  assumes "length line < 2 ^ 61"
  shows "\<exists>r. sdssplitargs junk (line @ [0]) = Some r"
  using splitargs_loop_returns [of "line @ [0]" junk "[]"] assms by (simp add: sdssplitargs_def)

text \<open>Splitting a non-empty string by a non-empty separator stays inside the
  string and the token array, and joining the tokens with the separator gives the string back.\<close>
lemma sdssplit_join:
  assumes "s \<noteq> []" and "sep \<noteq> []" and "length s \<le> 2 ^ 61"
  shows "\<exists>toks j. sdssplitlen junk (s @ r) (int (length s)) sep (int (length sep)) = Some (Some toks) \<and>
    sdsjoinsds junk toks sep (length sep) = Some j \<and> sds_ok j \<and> sds_val j = s"
proof -
  obtain toks vs v where t: "sdssplitlen junk (s @ r) (int (length s)) sep (int (length sep)) = Some (Some toks)"
    "list_all2 sds_rep toks (vs @ [v])" "join_vals sep vs v = s"
    using sdssplitlen_ok [OF assms(1,3,2), of junk r] by blast
  obtain s0 where s0: "sdsempty junk = Some s0" "sds_rep s0 []" using sdsempty_ok by blast
  obtain j where "sdsjoinsds_loop junk toks sep (length sep) s0 = Some j" "sds_rep j s"
    using sdsjoinsds_loop_ok [OF t(2) s0(2), of sep junk] t(3) assms(3) by auto
  then show ?thesis using t(1) s0(1) by (auto simp: sdsjoinsds_def sds_rep_iff)
qed

text \<open>Property C34. The fast formatted append adds exactly the text that the format and its
  arguments mean, on every format that has no lone percent sign at its end and is given
  arguments of the types it asks for; numbers never overrun the buffer they are printed to.\<close>
theorem sdscatfmt_correct:
  assumes "sds_ok s" and "0 \<notin> set fmt" and "fmt_render fmt args = Some t" and "length (sds_val s) + length t < 2 ^ 61"
  shows "\<exists>s'. sdscatfmt junk s (fmt @ [0]) args = Some s' \<and> sds_ok s' \<and> sds_val s' = sds_val s @ t"
proof -
  have "sds_rep s (sds_val s)" using assms(1) by (simp add: sds_rep_iff)
  from sdscatfmt_ok [OF this assms(2-4)] show ?thesis by (auto simp: sds_rep_iff)
qed

theorem sdscatfmt_correct_witness:
  "\<exists>s'. sdscatfmt (\<lambda>_. 1) \<lparr>hdr = sdshdr5 8, buf = [58, 0]\<rparr> ([37, 105, 61, 37, 115, 37, 37] @ [0])
      [FInt (- 5), FStr [97, 98, 0]] = Some s' \<and> sds_ok s' \<and> sds_val s' = [58, 45, 53, 61, 97, 98, 37]"
proof -
  let ?s = "\<lparr>hdr = sdshdr5 8, buf = [58, 0]\<rparr>"
  have "sds_ok ?s" "sds_val ?s = [58]"
    by (simp_all add: sds_ok_def sds_val_def sdslen_def sdsalloc_def SDS_TYPE_5_LEN_def)
  moreover have "fmt_render [37, 105, 61, 37, 115, 37, 37] [FInt (- 5), FStr [97, 98, 0]] = Some [45, 53, 61, 97, 98, 37]"
    by code_simp
  ultimately show ?thesis
    using sdscatfmt_correct [of ?s "[37, 105, 61, 37, 115, 37, 37]" "[FInt (- 5), FStr [97, 98, 0]]"
      "[45, 53, 61, 97, 98, 37]" "\<lambda>_. 1"] by simp
qed

end
