(* ===== verification/Pubsub.thy ===== *)
theory Pubsub
  imports Sds_Format "HOL-Library.AList" "HOL-Library.Multiset"
begin

section \<open>Publish and subscribe (pubsub.c, notify.c)\<close>

text \<open>
  Every client has a table of the channels and a list of the patterns it listens to; the server
  has the inverse indexes, a table from channels to lists of clients and one list of (client,
  pattern) pairs. Channels, patterns and messages are the byte strings of the string objects;
  client ids stand for client pointers. A table is the association list of its entries in the
  order in which they were added, and \<open>iter\<close> is the order in which an iterator visits its keys:
  any rearrangement of them. \<open>out\<close> is what addReply appended for a client. None is a failed
  assertion or a read out of bounds.
\<close>

datatype reply_part =
  MbulkHdr nat | SharedBulk string | NullBulk | Bulk "byte list" | LongLong int | Error string

record ps_client =
  channels :: "byte list list"
  patterns :: "byte list list"
  pubsub_flag :: bool \<comment> \<open>CLIENT\_PUBSUB\<close>
  force_repl :: bool \<comment> \<open>CLIENT\_FORCE\_REPL\<close>
  out :: "reply_part list"

record ps_server =
  client_ids :: "nat list"
  client_of :: "nat \<Rightarrow> ps_client"
  pubsub_channels :: "(byte list \<times> nat list) list"
  pubsub_patterns :: "(nat \<times> byte list) list"
  cluster_enabled :: bool
  cluster_bus :: "(byte list \<times> byte list) list" \<comment> \<open>what clusterPropagatePublish was given\<close>

definition upd :: "nat \<Rightarrow> (ps_client \<Rightarrow> ps_client) \<Rightarrow> ps_server \<Rightarrow> ps_server" where
  "upd c f s = s\<lparr>client_of := (client_of s)(c := f (client_of s c))\<rparr>"

definition addReply :: "nat \<Rightarrow> reply_part list \<Rightarrow> ps_server \<Rightarrow> ps_server" where
  "addReply c rs = upd c (\<lambda>cl. cl\<lparr>out := out cl @ rs\<rparr>)"

definition clientSubscriptionsCount :: "ps_client \<Rightarrow> int" where
  "clientSubscriptionsCount cl = int (length (channels cl)) + int (length (patterns cl))"

definition listeners :: "ps_server \<Rightarrow> byte list \<Rightarrow> nat list" where
  "listeners s ch = (case map_of (pubsub_channels s) ch of None \<Rightarrow> [] | Some cs \<Rightarrow> cs)"

subsection \<open>Subscriptions\<close>

definition pubsubSubscribeChannel :: "nat \<Rightarrow> byte list \<Rightarrow> ps_server \<Rightarrow> ps_server \<times> nat" where
  "pubsubSubscribeChannel c ch s =
     (let (s, retval) =
        (if ch \<in> set (channels (client_of s c)) then (s, 0)
         else
           let s = upd c (\<lambda>cl. cl\<lparr>channels := channels cl @ [ch]\<rparr>) s;
               s = (case map_of (pubsub_channels s) ch of
                      None \<Rightarrow> s\<lparr>pubsub_channels := AList.update ch [] (pubsub_channels s)\<rparr>
                    | Some _ \<Rightarrow> s)
           in (s\<lparr>pubsub_channels := AList.update ch (listeners s ch @ [c]) (pubsub_channels s)\<rparr>, 1))
      in (addReply c [MbulkHdr 3, SharedBulk ''subscribe'', Bulk ch,
            LongLong (clientSubscriptionsCount (client_of s c))] s, retval))"

definition pubsubUnsubscribeChannel :: "nat \<Rightarrow> byte list \<Rightarrow> bool \<Rightarrow> ps_server \<Rightarrow> (ps_server \<times> nat) option" where
  "pubsubUnsubscribeChannel c ch notify s = do {
     (s, retval) \<leftarrow>
       (if ch \<notin> set (channels (client_of s c)) then Some (s, 0)
        else do {
          let s = upd c (\<lambda>cl. cl\<lparr>channels := remove1 ch (channels cl)\<rparr>) s;
          clients \<leftarrow> map_of (pubsub_channels s) ch;
          if c \<notin> set clients then None
          else do {
            let clients = remove1 c clients;
            let s = s\<lparr>pubsub_channels := AList.update ch clients (pubsub_channels s)\<rparr>;
            let s = (if clients = [] then s\<lparr>pubsub_channels := AList.delete ch (pubsub_channels s)\<rparr> else s);
            Some (s, 1 :: nat) } });
     let s = (if notify then addReply c [MbulkHdr 3, SharedBulk ''unsubscribe'', Bulk ch,
                LongLong (clientSubscriptionsCount (client_of s c))] s else s);
     Some (s, retval) }"

definition pubsubSubscribePattern :: "nat \<Rightarrow> byte list \<Rightarrow> ps_server \<Rightarrow> ps_server \<times> nat" where
  "pubsubSubscribePattern c p s =
     (let (s, retval) =
        (if p \<in> set (patterns (client_of s c)) then (s, 0)
         else
           let s = upd c (\<lambda>cl. cl\<lparr>patterns := patterns cl @ [p]\<rparr>) s
           in (s\<lparr>pubsub_patterns := pubsub_patterns s @ [(c, p)]\<rparr>, 1))
      in (addReply c [MbulkHdr 3, SharedBulk ''psubscribe'', Bulk p,
            LongLong (clientSubscriptionsCount (client_of s c))] s, retval))"

definition listMatchPubsubPattern :: "nat \<times> byte list \<Rightarrow> nat \<times> byte list \<Rightarrow> bool" where
  "listMatchPubsubPattern pa pb \<longleftrightarrow> fst pa = fst pb \<and> snd pa = snd pb"

fun list_del :: "('a \<Rightarrow> bool) \<Rightarrow> 'a list \<Rightarrow> 'a list option" where
  \<comment> \<open>listSearchKey and listDelNode of the node found; None is the deletion of NULL\<close>
  "list_del match [] = None"
| "list_del match (x # xs) = (if match x then Some xs else map_option ((#) x) (list_del match xs))"

definition pubsubUnsubscribePattern :: "nat \<Rightarrow> byte list \<Rightarrow> bool \<Rightarrow> ps_server \<Rightarrow> (ps_server \<times> nat) option" where
  "pubsubUnsubscribePattern c p notify s = do {
     (s, retval) \<leftarrow>
       (if p \<notin> set (patterns (client_of s c)) then Some (s, 0)
        else do {
          let s = upd c (\<lambda>cl. cl\<lparr>patterns := remove1 p (patterns cl)\<rparr>) s;
          pats \<leftarrow> list_del (\<lambda>x. listMatchPubsubPattern x (c, p)) (pubsub_patterns s);
          Some (s\<lparr>pubsub_patterns := pats\<rparr>, 1 :: nat) });
     let s = (if notify then addReply c [MbulkHdr 3, SharedBulk ''punsubscribe'', Bulk p,
                LongLong (clientSubscriptionsCount (client_of s c))] s else s);
     Some (s, retval) }"

fun unsubscribe_all ::
  "(byte list \<Rightarrow> ps_server \<Rightarrow> (ps_server \<times> nat) option) \<Rightarrow> byte list list \<Rightarrow> ps_server \<Rightarrow> (ps_server \<times> nat) option" where
  \<comment> \<open>the loop over the subscriptions, with the sum of the results\<close>
  "unsubscribe_all un [] s = Some (s, 0)"
| "unsubscribe_all un (x # xs) s = do {
     (s, n) \<leftarrow> un x s;
     (s, count) \<leftarrow> unsubscribe_all un xs s;
     Some (s, n + count) }"

definition pubsubUnsubscribeAllChannels ::
  "(byte list list \<Rightarrow> byte list list) \<Rightarrow> nat \<Rightarrow> bool \<Rightarrow> ps_server \<Rightarrow> (ps_server \<times> nat) option" where
  "pubsubUnsubscribeAllChannels iter c notify s = do {
     (s, count) \<leftarrow> unsubscribe_all (\<lambda>ch. pubsubUnsubscribeChannel c ch notify) (iter (channels (client_of s c))) s;
     let s = (if notify \<and> count = 0 then addReply c [MbulkHdr 3, SharedBulk ''unsubscribe'', NullBulk,
                LongLong (clientSubscriptionsCount (client_of s c))] s else s);
     Some (s, count) }"

definition pubsubUnsubscribeAllPatterns :: "nat \<Rightarrow> bool \<Rightarrow> ps_server \<Rightarrow> (ps_server \<times> nat) option" where
  "pubsubUnsubscribeAllPatterns c notify s = do {
     (s, count) \<leftarrow> unsubscribe_all (\<lambda>p. pubsubUnsubscribePattern c p notify) (patterns (client_of s c)) s;
     let s = (if notify \<and> count = 0 then addReply c [MbulkHdr 3, SharedBulk ''punsubscribe'', NullBulk,
                LongLong (clientSubscriptionsCount (client_of s c))] s else s);
     Some (s, count) }"

subsection \<open>Publishing\<close>

definition send_message :: "byte list \<Rightarrow> byte list \<Rightarrow> nat \<Rightarrow> ps_server \<Rightarrow> ps_server" where
  "send_message ch msg c = addReply c [MbulkHdr 3, SharedBulk ''message'', Bulk ch, Bulk msg]"

fun publish_patterns :: "byte list \<Rightarrow> byte list \<Rightarrow> (nat \<times> byte list) list \<Rightarrow> ps_server \<Rightarrow> (ps_server \<times> nat) option" where
  "publish_patterns ch msg [] s = Some (s, 0)"
| "publish_patterns ch msg ((c, p) # pats) s = do {
     hit \<leftarrow> stringmatchlen (sds_bytes p) (int (length p)) (sds_bytes ch) (int (length ch)) False;
     let s = (if hit then addReply c [MbulkHdr 4, SharedBulk ''pmessage'', Bulk p, Bulk ch, Bulk msg] s else s);
     (s, n) \<leftarrow> publish_patterns ch msg pats s;
     Some (s, (if hit then 1 else 0) + n) }"

definition pubsubPublishMessage :: "byte list \<Rightarrow> byte list \<Rightarrow> ps_server \<Rightarrow> (ps_server \<times> nat) option" where
  "pubsubPublishMessage ch msg s = do {
     let receivers = length (listeners s ch);
     let s = fold (send_message ch msg) (listeners s ch) s;
     (s, n) \<leftarrow> publish_patterns ch msg (pubsub_patterns s) s;
     Some (s, receivers + n) }"

subsection \<open>Commands\<close>

definition update_flag :: "nat \<Rightarrow> ps_server \<Rightarrow> ps_server" where
  \<comment> \<open>\<open>if (clientSubscriptionsCount(c) == 0) c->flags &= ~CLIENT_PUBSUB\<close>\<close>
  "update_flag c s =
     (if clientSubscriptionsCount (client_of s c) = 0 then upd c (\<lambda>cl. cl\<lparr>pubsub_flag := False\<rparr>) s else s)"

definition subscribeCommand :: "nat \<Rightarrow> byte list list \<Rightarrow> ps_server \<Rightarrow> ps_server" where
  \<comment> \<open>the second argument of a command is its argument vector after the name of the command\<close>
  "subscribeCommand c args s =
     upd c (\<lambda>cl. cl\<lparr>pubsub_flag := True\<rparr>) (fold (\<lambda>ch s. fst (pubsubSubscribeChannel c ch s)) args s)"

definition unsubscribeCommand ::
  "(byte list list \<Rightarrow> byte list list) \<Rightarrow> nat \<Rightarrow> byte list list \<Rightarrow> ps_server \<Rightarrow> ps_server option" where
  "unsubscribeCommand iter c args s = do {
     (s, _) \<leftarrow> (if args = [] then pubsubUnsubscribeAllChannels iter c True s
                else unsubscribe_all (\<lambda>ch. pubsubUnsubscribeChannel c ch True) args s);
     Some (update_flag c s) }"

definition psubscribeCommand :: "nat \<Rightarrow> byte list list \<Rightarrow> ps_server \<Rightarrow> ps_server" where
  "psubscribeCommand c args s =
     upd c (\<lambda>cl. cl\<lparr>pubsub_flag := True\<rparr>) (fold (\<lambda>p s. fst (pubsubSubscribePattern c p s)) args s)"

definition punsubscribeCommand :: "nat \<Rightarrow> byte list list \<Rightarrow> ps_server \<Rightarrow> ps_server option" where
  "punsubscribeCommand c args s = do {
     (s, _) \<leftarrow> (if args = [] then pubsubUnsubscribeAllPatterns c True s
                else unsubscribe_all (\<lambda>p. pubsubUnsubscribePattern c p True) args s);
     Some (update_flag c s) }"

definition publishCommand :: "nat \<Rightarrow> byte list \<Rightarrow> byte list \<Rightarrow> ps_server \<Rightarrow> ps_server option" where
  "publishCommand c ch msg s = do {
     (s, receivers) \<leftarrow> pubsubPublishMessage ch msg s;
     let s = (if cluster_enabled s then s\<lparr>cluster_bus := cluster_bus s @ [(ch, msg)]\<rparr>
              else upd c (\<lambda>cl. cl\<lparr>force_repl := True\<rparr>) s);
     Some (addReply c [LongLong (int receivers)] s) }"

definition strcaseeq :: "byte list \<Rightarrow> string \<Rightarrow> bool" where
  \<comment> \<open>\<open>!strcasecmp(a, b)\<close> of the C string in a and a literal\<close>
  "strcaseeq a b \<longleftrightarrow> map byte_lower (takeWhile (\<lambda>x. x \<noteq> 0) a) = map byte_lower (bytes_of b)"

fun match_channels :: "byte list option \<Rightarrow> byte list list \<Rightarrow> byte list list option" where
  \<comment> \<open>the loop of PUBSUB CHANNELS; None as the pattern is NULL\<close>
  "match_channels pat [] = Some []"
| "match_channels pat (ch # chs) = do {
     hit \<leftarrow> (case pat of None \<Rightarrow> Some True
              | Some p \<Rightarrow> stringmatchlen (sds_bytes p) (int (length p)) (sds_bytes ch) (int (length ch)) False);
     rest \<leftarrow> match_channels pat chs;
     Some (if hit then ch # rest else rest) }"

definition pubsubCommand ::
  "(byte list list \<Rightarrow> byte list list) \<Rightarrow> nat \<Rightarrow> byte list \<Rightarrow> byte list list \<Rightarrow> ps_server \<Rightarrow> ps_server option" where
  \<comment> \<open>\<open>sub\<close> is \<open>argv[1]\<close> and \<open>args\<close> the arguments after it\<close>
  "pubsubCommand iter c sub args s =
     (if strcaseeq sub ''channels'' \<and> length args \<le> 1 then do {
        chs \<leftarrow> match_channels (case args of [] \<Rightarrow> None | p # _ \<Rightarrow> Some p) (iter (map fst (pubsub_channels s)));
        Some (addReply c (MbulkHdr (length chs) # map Bulk chs) s) }
      else if strcaseeq sub ''numsub'' then
        Some (addReply c (MbulkHdr (length args * 2) #
          concat (map (\<lambda>ch. [Bulk ch, LongLong (int (length (listeners s ch)))]) args)) s)
      else if strcaseeq sub ''numpat'' \<and> args = [] then
        Some (addReply c [LongLong (int (length (pubsub_patterns s)))] s)
      else Some (addReply c [Error ''Unknown PUBSUB subcommand or wrong number of arguments''] s))"

definition ps_connect :: "nat \<Rightarrow> ps_server \<Rightarrow> ps_server" where
  \<comment> \<open>the part of createClient\<close>
  "ps_connect c s = s\<lparr>client_ids := client_ids s @ [c],
     client_of := (client_of s)(c := \<lparr>channels = [], patterns = [], pubsub_flag = False, force_repl = False, out = []\<rparr>)\<rparr>"

definition ps_disconnect :: "(byte list list \<Rightarrow> byte list list) \<Rightarrow> nat \<Rightarrow> ps_server \<Rightarrow> ps_server option" where
  \<comment> \<open>the part of freeClient\<close>
  "ps_disconnect iter c s = do {
     (s, _) \<leftarrow> pubsubUnsubscribeAllChannels iter c False s;
     (s, _) \<leftarrow> pubsubUnsubscribeAllPatterns c False s;
     Some (s\<lparr>client_ids := remove1 c (client_ids s)\<rparr>) }"

datatype ps_request =
  Subscribe "byte list list" | Unsubscribe "byte list list" | Psubscribe "byte list list"
| Punsubscribe "byte list list" | Publish "byte list" "byte list" | PubsubInfo "byte list" "byte list list"

fun ps_proc :: "(byte list list \<Rightarrow> byte list list) \<Rightarrow> nat \<Rightarrow> ps_request \<Rightarrow> ps_server \<Rightarrow> ps_server option" where
  "ps_proc iter c (Subscribe chs) s = Some (subscribeCommand c chs s)"
| "ps_proc iter c (Unsubscribe chs) s = unsubscribeCommand iter c chs s"
| "ps_proc iter c (Psubscribe ps) s = Some (psubscribeCommand c ps s)"
| "ps_proc iter c (Punsubscribe ps) s = punsubscribeCommand c ps s"
| "ps_proc iter c (Publish ch msg) s = publishCommand c ch msg s"
| "ps_proc iter c (PubsubInfo sub args) s = pubsubCommand iter c sub args s"

fun subscription_request :: "ps_request \<Rightarrow> bool" where
  "subscription_request (Publish _ _) = False"
| "subscription_request (PubsubInfo _ _) = False"
| "subscription_request _ = True"

definition ps_processCommand ::
  "(byte list list \<Rightarrow> byte list list) \<Rightarrow> nat \<Rightarrow> ps_request \<Rightarrow> ps_server \<Rightarrow> ps_server option" where
  \<comment> \<open>the check on the context of the client in processCommand, then the command\<close>
  "ps_processCommand iter c q s =
     (if pubsub_flag (client_of s c) \<and> \<not> subscription_request q
      then Some (addReply c [Error ''only (P)SUBSCRIBE / (P)UNSUBSCRIBE / PING / QUIT allowed in this context''] s)
      else ps_proc iter c q s)"

subsection \<open>Keyspace notifications\<close>

definition NOTIFY_KEYSPACE :: u32 where "NOTIFY_KEYSPACE = push_bit 0 1"
definition NOTIFY_KEYEVENT :: u32 where "NOTIFY_KEYEVENT = push_bit 1 1"
definition NOTIFY_GENERIC :: u32 where "NOTIFY_GENERIC = push_bit 2 1"
definition NOTIFY_STRING :: u32 where "NOTIFY_STRING = push_bit 3 1"
definition NOTIFY_LIST :: u32 where "NOTIFY_LIST = push_bit 4 1"
definition NOTIFY_SET :: u32 where "NOTIFY_SET = push_bit 5 1"
definition NOTIFY_HASH :: u32 where "NOTIFY_HASH = push_bit 6 1"
definition NOTIFY_ZSET :: u32 where "NOTIFY_ZSET = push_bit 7 1"
definition NOTIFY_EXPIRED :: u32 where "NOTIFY_EXPIRED = push_bit 8 1"
definition NOTIFY_EVICTED :: u32 where "NOTIFY_EVICTED = push_bit 9 1"
definition NOTIFY_ALL :: u32 where
  "NOTIFY_ALL = NOTIFY_GENERIC OR NOTIFY_STRING OR NOTIFY_LIST OR NOTIFY_SET OR NOTIFY_HASH OR
     NOTIFY_ZSET OR NOTIFY_EXPIRED OR NOTIFY_EVICTED"

definition class_flag :: "byte \<Rightarrow> u32 option" where
  \<comment> \<open>the switch over the characters; None is the default case\<close>
  "class_flag c =
     (if c = 65 then Some NOTIFY_ALL else if c = 103 then Some NOTIFY_GENERIC
      else if c = 36 then Some NOTIFY_STRING else if c = 108 then Some NOTIFY_LIST
      else if c = 115 then Some NOTIFY_SET else if c = 104 then Some NOTIFY_HASH
      else if c = 122 then Some NOTIFY_ZSET else if c = 120 then Some NOTIFY_EXPIRED
      else if c = 101 then Some NOTIFY_EVICTED else if c = 75 then Some NOTIFY_KEYSPACE
      else if c = 69 then Some NOTIFY_KEYEVENT else None)"

fun classes_loop :: "byte list \<Rightarrow> u32 \<Rightarrow> u32 option" where
  \<comment> \<open>the end of the memory without a terminator is None\<close>
  "classes_loop [] fl = None"
| "classes_loop (c # p) fl =
     (if c = 0 then Some fl
      else case class_flag c of Some f \<Rightarrow> classes_loop p (fl OR f) | None \<Rightarrow> Some (- 1))"

definition keyspaceEventsStringToFlags :: "byte list \<Rightarrow> u32 option" where
  "keyspaceEventsStringToFlags classes = classes_loop classes 0"

definition cat_class :: "(nat \<Rightarrow> byte) \<Rightarrow> u32 \<Rightarrow> u32 \<Rightarrow> byte \<Rightarrow> sds \<Rightarrow> sds option" where
  \<comment> \<open>\<open>if (flags & f) res = sdscatlen(res, "c", 1)\<close>\<close>
  "cat_class junk fl f c res = (if fl AND f \<noteq> 0 then sdscatlen junk res [c, 0] 1 else Some res)"

definition keyspaceEventsFlagsToString :: "(nat \<Rightarrow> byte) \<Rightarrow> u32 \<Rightarrow> sds option" where
  "keyspaceEventsFlagsToString junk fl = do {
     res \<leftarrow> sdsempty junk;
     res \<leftarrow> (if fl AND NOTIFY_ALL = NOTIFY_ALL then sdscatlen junk res [65, 0] 1
             else do {
               res \<leftarrow> cat_class junk fl NOTIFY_GENERIC 103 res;
               res \<leftarrow> cat_class junk fl NOTIFY_STRING 36 res;
               res \<leftarrow> cat_class junk fl NOTIFY_LIST 108 res;
               res \<leftarrow> cat_class junk fl NOTIFY_SET 115 res;
               res \<leftarrow> cat_class junk fl NOTIFY_HASH 104 res;
               res \<leftarrow> cat_class junk fl NOTIFY_ZSET 122 res;
               res \<leftarrow> cat_class junk fl NOTIFY_EXPIRED 120 res;
               cat_class junk fl NOTIFY_EVICTED 101 res });
     res \<leftarrow> cat_class junk fl NOTIFY_KEYSPACE 75 res;
     cat_class junk fl NOTIFY_KEYEVENT 69 res }"

definition notify_channel :: "(nat \<Rightarrow> byte) \<Rightarrow> string \<Rightarrow> byte list \<Rightarrow> nat \<Rightarrow> byte list \<Rightarrow> sds option" where
  \<comment> \<open>the name of a channel: prefix of 11 bytes, number in buf, separator, name\<close>
  "notify_channel junk prefix num len name = do {
     chan \<leftarrow> sdsnewlen junk (Some (bytes_of prefix @ [0])) 11;
     chan \<leftarrow> sdscatlen junk chan num len;
     chan \<leftarrow> sdscatlen junk chan (bytes_of ''__:'' @ [0]) 3;
     sdscatlen junk chan name (length name) }"

definition notifyKeyspaceEvent ::
  "(nat \<Rightarrow> byte) \<Rightarrow> (u32 \<Rightarrow> byte list \<Rightarrow> byte list \<Rightarrow> int \<Rightarrow> ps_server \<Rightarrow> ps_server) \<Rightarrow> u32 \<Rightarrow>
   u32 \<Rightarrow> byte list \<Rightarrow> byte list \<Rightarrow> int \<Rightarrow> ps_server \<Rightarrow> ps_server option" where
  \<comment> \<open>\<open>modules\<close> is the call of moduleNotifyKeyspaceEvent, \<open>fl\<close> is server.notify\_keyspace\_events\<close>
  "notifyKeyspaceEvent junk modules fl type event key dbid s = do {
     let s = modules type event key dbid s;
     if fl AND type = 0 then Some s
     else do {
       (b, len, s) \<leftarrow>
         (if fl AND NOTIFY_KEYSPACE \<noteq> 0 then do {
            (b, len) \<leftarrow> ll2string (map junk [0..<24]) 24 dbid;
            chan \<leftarrow> notify_channel junk ''__keyspace@'' b len key;
            (s, _) \<leftarrow> pubsubPublishMessage (sds_val chan) event s;
            Some (b, int len, s) }
          else Some (map junk [0..<24], - 1, s));
       if fl AND NOTIFY_KEYEVENT \<noteq> 0 then do {
         (b, len) \<leftarrow> (if len = - 1 then do { (b, len) \<leftarrow> ll2string b 24 dbid; Some (b, int len) } else Some (b, len));
         chan \<leftarrow> notify_channel junk ''__keyevent@'' b (nat len) event;
         (s, _) \<leftarrow> pubsubPublishMessage (sds_val chan) key s;
         Some s }
       else Some s } }"

subsection \<open>The indexes agree\<close>

definition own_patterns :: "nat \<Rightarrow> (nat \<times> byte list) list \<Rightarrow> byte list list" where
  "own_patterns c pats = map snd (filter (\<lambda>x. fst x = c) pats)"

definition index_ok :: "ps_server \<Rightarrow> bool" where
  \<comment> \<open>the indexes of the server list exactly the subscriptions of the clients\<close>
  "index_ok s \<longleftrightarrow>
     distinct (client_ids s) \<and> distinct (map fst (pubsub_channels s)) \<and>
     (\<forall>ch. map_of (pubsub_channels s) ch \<noteq> Some []) \<and>
     (\<forall>ch. distinct (listeners s ch) \<and> set (listeners s ch) = {c. ch \<in> set (channels (client_of s c))}) \<and>
     (\<forall>c. distinct (channels (client_of s c)) \<and> distinct (patterns (client_of s c)) \<and>
        own_patterns c (pubsub_patterns s) = patterns (client_of s c)) \<and>
     (\<forall>c. c \<notin> set (client_ids s) \<longrightarrow> channels (client_of s c) = [] \<and> patterns (client_of s c) = [])"

definition flags_ok :: "ps_server \<Rightarrow> bool" where
  "flags_ok s \<longleftrightarrow> (\<forall>c \<in> set (client_ids s).
     pubsub_flag (client_of s c) \<longleftrightarrow> channels (client_of s c) \<noteq> [] \<or> patterns (client_of s c) \<noteq> [])"

definition only_client :: "nat \<Rightarrow> ps_server \<Rightarrow> ps_server \<Rightarrow> bool" where
  \<comment> \<open>an operation touched no other client and not the mode of this one\<close>
  "only_client c s s' \<longleftrightarrow> client_ids s' = client_ids s \<and> (\<forall>d. d \<noteq> c \<longrightarrow> client_of s' d = client_of s d) \<and>
     pubsub_flag (client_of s' c) = pubsub_flag (client_of s c)"

lemma only_client_trans: "only_client c s t \<Longrightarrow> only_client c t u \<Longrightarrow> only_client c s u"
  by (auto simp: only_client_def)

lemma only_client_refl [simp]: "only_client c s s"
  by (simp add: only_client_def)

lemma upd_sel [simp]:
  "client_ids (upd c f s) = client_ids s" "pubsub_channels (upd c f s) = pubsub_channels s"
  "pubsub_patterns (upd c f s) = pubsub_patterns s" "client_of (upd c f s) d = (if d = c then f (client_of s c) else client_of s d)"
  "listeners (upd c f s) = listeners s" "cluster_enabled (upd c f s) = cluster_enabled s"
  by (auto simp: upd_def listeners_def)

lemma addReply_sel [simp]:
  "client_ids (addReply c rs s) = client_ids s" "pubsub_channels (addReply c rs s) = pubsub_channels s"
  "pubsub_patterns (addReply c rs s) = pubsub_patterns s" "listeners (addReply c rs s) = listeners s"
  "channels (client_of (addReply c rs s) d) = channels (client_of s d)"
  "patterns (client_of (addReply c rs s) d) = patterns (client_of s d)"
  "pubsub_flag (client_of (addReply c rs s) d) = pubsub_flag (client_of s d)"
  "out (client_of (addReply c rs s) d) = out (client_of s d) @ (if d = c then rs else [])"
  "cluster_enabled (addReply c rs s) = cluster_enabled s" "d \<noteq> c \<Longrightarrow> client_of (addReply c rs s) d = client_of s d"
  by (auto simp: addReply_def)

lemma addReply_ok [simp]: "index_ok (addReply c rs s) = index_ok s" "flags_ok (addReply c rs s) = flags_ok s"
  by (simp_all add: index_ok_def flags_ok_def)

lemma addReply_only [simp]: "only_client c s (addReply c rs t) \<longleftrightarrow> only_client c s t"
  by (auto simp: only_client_def addReply_def)

lemma listeners_update:
  "listeners (s\<lparr>pubsub_channels := AList.update ch cs (pubsub_channels s)\<rparr>) x = (if x = ch then cs else listeners s x)"
  by (simp add: listeners_def update_conv)

lemma listeners_delete:
  "listeners (s\<lparr>pubsub_channels := AList.delete ch (pubsub_channels s)\<rparr>) x = (if x = ch then [] else listeners s x)"
  by (simp add: listeners_def delete_conv)

lemma map_of_listeners: "map_of (pubsub_channels s) ch \<noteq> Some [] \<Longrightarrow>
   map_of (pubsub_channels s) ch = (if listeners s ch = [] then None else Some (listeners s ch))"
  by (auto simp: listeners_def split: option.splits)

lemma own_patterns_simps [simp]:
  "own_patterns c [] = []" "own_patterns c (xs @ ys) = own_patterns c xs @ own_patterns c ys"
  "own_patterns c ((d, p) # xs) = (if d = c then p # own_patterns c xs else own_patterns c xs)"
  by (auto simp: own_patterns_def)

lemma list_del_pattern:
  "p \<in> set (own_patterns c pats) \<Longrightarrow>
   \<exists>pats'. list_del (\<lambda>x. listMatchPubsubPattern x (c, p)) pats = Some pats' \<and>
     (\<forall>d. own_patterns d pats' = (if d = c then remove1 p (own_patterns c pats) else own_patterns d pats))"
  by (induction pats) (auto simp: listMatchPubsubPattern_def)

lemma subscribe_channel_ok:
  assumes ok: "index_ok s" and c: "c \<in> set (client_ids s)"
  shows "let s' = fst (pubsubSubscribeChannel c ch s) in index_ok s' \<and> only_client c s s' \<and>
    set (channels (client_of s' c)) = insert ch (set (channels (client_of s c))) \<and>
    patterns (client_of s' c) = patterns (client_of s c)"
proof (cases "ch \<in> set (channels (client_of s c))")
  case True
  then show ?thesis using ok by (auto simp: pubsubSubscribeChannel_def)
next
  case False
  let ?s1 = "upd c (\<lambda>cl. cl\<lparr>channels := channels cl @ [ch]\<rparr>) s"
  let ?s2 = "?s1\<lparr>pubsub_channels := AList.update ch (listeners s ch @ [c]) (pubsub_channels s)\<rparr>"
  have "AList.update ch v (AList.update ch w xs) = AList.update ch v xs" for v w and xs :: "(byte list \<times> nat list) list"
    by (induction xs) auto
  then have run: "fst (pubsubSubscribeChannel c ch s) = addReply c [MbulkHdr 3, SharedBulk ''subscribe'', Bulk ch,
      LongLong (clientSubscriptionsCount (client_of ?s2 c))] ?s2"
    using False by (simp add: pubsubSubscribeChannel_def Let_def listeners_def update_conv split: option.splits)
  have "listeners ?s2 x = (if x = ch then listeners s ch @ [c] else listeners s x)" for x
    by (simp add: listeners_def update_conv)
  then have "index_ok ?s2" using ok False c unfolding index_ok_def
    by (auto simp: update_conv distinct_update)
  then show ?thesis using run by (auto simp: only_client_def Let_def)
qed

lemma unsubscribe_channel_ok:
  assumes ok: "index_ok s"
  shows "\<exists>s' n. pubsubUnsubscribeChannel c ch notify s = Some (s', n) \<and> index_ok s' \<and> only_client c s s' \<and>
    set (channels (client_of s' c)) = set (channels (client_of s c)) - {ch} \<and>
    patterns (client_of s' c) = patterns (client_of s c)"
proof (cases "ch \<in> set (channels (client_of s c))")
  case False
  then show ?thesis using ok by (auto simp: pubsubUnsubscribeChannel_def)
next
  case True
  let ?s1 = "upd c (\<lambda>cl. cl\<lparr>channels := remove1 ch (channels cl)\<rparr>) s"
  define cs where "cs = remove1 c (listeners s ch)"
  define t where "t = (if cs = [] then AList.delete ch (pubsub_channels s) else AList.update ch cs (pubsub_channels s))"
  let ?s2 = "?s1\<lparr>pubsub_channels := t\<rparr>"
  have cs: "distinct cs" "set cs = {d. d \<noteq> c \<and> ch \<in> set (channels (client_of s d))}"
    using ok by (auto simp: cs_def index_ok_def)
  have mem: "c \<in> set (listeners s ch)" using ok True by (simp add: index_ok_def)
  then have mo: "map_of (pubsub_channels s) ch = Some (listeners s ch)"
    by (cases "map_of (pubsub_channels s) ch") (simp_all add: listeners_def)
  have dd: "AList.delete ch (AList.update ch v xs) = AList.delete ch xs" for v and xs :: "(byte list \<times> nat list) list"
    by (induction xs) auto
  have run: "pubsubUnsubscribeChannel c ch notify s = Some (if notify then addReply c [MbulkHdr 3, SharedBulk ''unsubscribe'', Bulk ch,
      LongLong (clientSubscriptionsCount (client_of ?s2 c))] ?s2 else ?s2, 1)"
    using True mem mo by (simp add: pubsubUnsubscribeChannel_def t_def dd Let_def flip: cs_def)
  have mt: "map_of t = (map_of (pubsub_channels s))(ch := if cs = [] then None else Some cs)"
    by (simp add: t_def update_conv' delete_conv')
  have ls: "listeners ?s2 x = (if x = ch then cs else listeners s x)" for x
    by (simp add: listeners_def mt)
  have dk: "distinct (map fst t)" using ok by (auto simp: t_def index_ok_def distinct_update distinct_delete)
  have "index_ok ?s2" using ok dk cs unfolding index_ok_def ls
    by (auto simp: mt set_remove1_eq)
  moreover have "distinct (channels (client_of s c))" using ok by (simp add: index_ok_def)
  ultimately show ?thesis using run by (auto simp: only_client_def set_remove1_eq)
qed

lemma subscribe_pattern_ok:
  assumes ok: "index_ok s" and c: "c \<in> set (client_ids s)"
  shows "let s' = fst (pubsubSubscribePattern c p s) in index_ok s' \<and> only_client c s s' \<and>
    set (patterns (client_of s' c)) = insert p (set (patterns (client_of s c))) \<and>
    channels (client_of s' c) = channels (client_of s c)"
proof (cases "p \<in> set (patterns (client_of s c))")
  case True
  then show ?thesis using ok by (auto simp: pubsubSubscribePattern_def)
next
  case False
  let ?s2 = "(upd c (\<lambda>cl. cl\<lparr>patterns := patterns cl @ [p]\<rparr>) s)\<lparr>pubsub_patterns := pubsub_patterns s @ [(c, p)]\<rparr>"
  have "listeners ?s2 = listeners s" by (simp add: listeners_def fun_eq_iff)
  then have "index_ok ?s2" using ok False c unfolding index_ok_def by auto
  then show ?thesis using False by (auto simp: pubsubSubscribePattern_def only_client_def)
qed

lemma unsubscribe_pattern_ok:
  assumes ok: "index_ok s"
  shows "\<exists>s' n. pubsubUnsubscribePattern c p notify s = Some (s', n) \<and> index_ok s' \<and> only_client c s s' \<and>
    set (patterns (client_of s' c)) = set (patterns (client_of s c)) - {p} \<and>
    channels (client_of s' c) = channels (client_of s c)"
proof (cases "p \<in> set (patterns (client_of s c))")
  case False
  then show ?thesis using ok by (auto simp: pubsubUnsubscribePattern_def)
next
  case True
  then have "p \<in> set (own_patterns c (pubsub_patterns s))" using ok by (simp add: index_ok_def)
  then obtain pats where d: "list_del (\<lambda>x. listMatchPubsubPattern x (c, p)) (pubsub_patterns s) = Some pats"
    "\<forall>d. own_patterns d pats = (if d = c then remove1 p (own_patterns c (pubsub_patterns s)) else own_patterns d (pubsub_patterns s))"
    using list_del_pattern by blast
  let ?s2 = "(upd c (\<lambda>cl. cl\<lparr>patterns := remove1 p (patterns cl)\<rparr>) s)\<lparr>pubsub_patterns := pats\<rparr>"
  have "listeners ?s2 = listeners s" by (simp add: listeners_def fun_eq_iff)
  then have "index_ok ?s2" using ok d(2) unfolding index_ok_def by (auto simp: set_remove1_eq)
  moreover have "distinct (patterns (client_of s c))" using ok by (simp add: index_ok_def)
  ultimately show ?thesis using True d(1) by (auto simp: pubsubUnsubscribePattern_def only_client_def set_remove1_eq)
qed

subsection \<open>Several subscriptions\<close>

text \<open>Channels and patterns are handled by the same loops: what one call does to one kind of
  subscription and to the rest of the client is the contract.\<close>

locale unsubscriber =
  fixes c :: nat and un :: "byte list \<Rightarrow> ps_server \<Rightarrow> (ps_server \<times> nat) option"
    and mine rest :: "ps_client \<Rightarrow> byte list list"
  assumes un_ok: "index_ok s \<Longrightarrow> \<exists>s' n. un x s = Some (s', n) \<and> index_ok s' \<and> only_client c s s' \<and>
    set (mine (client_of s' c)) = set (mine (client_of s c)) - {x} \<and> rest (client_of s' c) = rest (client_of s c)"
begin

lemma all_ok:
  "index_ok s \<Longrightarrow> \<exists>s' n. unsubscribe_all un xs s = Some (s', n) \<and> index_ok s' \<and> only_client c s s' \<and>
     set (mine (client_of s' c)) = set (mine (client_of s c)) - set xs \<and> rest (client_of s' c) = rest (client_of s c)"
proof (induction xs arbitrary: s)
  case (Cons x xs)
  obtain s1 n1 where 1: "un x s = Some (s1, n1)" "index_ok s1" "only_client c s s1"
    "set (mine (client_of s1 c)) = set (mine (client_of s c)) - {x}" "rest (client_of s1 c) = rest (client_of s c)"
    using un_ok [OF Cons.prems] by blast
  obtain s2 n2 where 2: "unsubscribe_all un xs s1 = Some (s2, n2)" "index_ok s2" "only_client c s1 s2"
    "set (mine (client_of s2 c)) = set (mine (client_of s1 c)) - set xs" "rest (client_of s2 c) = rest (client_of s1 c)"
    using Cons.IH [OF 1(2)] by blast
  show ?case using 1 2 only_client_trans by auto
qed simp

end

locale subscriber =
  fixes c :: nat and sub :: "byte list \<Rightarrow> ps_server \<Rightarrow> ps_server \<times> nat"
    and mine rest :: "ps_client \<Rightarrow> byte list list"
  assumes sub_ok: "index_ok s \<Longrightarrow> c \<in> set (client_ids s) \<Longrightarrow>
    let s' = fst (sub x s) in index_ok s' \<and> only_client c s s' \<and>
    set (mine (client_of s' c)) = insert x (set (mine (client_of s c))) \<and> rest (client_of s' c) = rest (client_of s c)"
begin

lemma all_ok:
  "index_ok s \<Longrightarrow> c \<in> set (client_ids s) \<Longrightarrow>
   let s' = fold (\<lambda>x s. fst (sub x s)) xs s in index_ok s' \<and> only_client c s s' \<and>
   set (mine (client_of s' c)) = set xs \<union> set (mine (client_of s c)) \<and> rest (client_of s' c) = rest (client_of s c)"
proof (induction xs arbitrary: s)
  case (Cons x xs)
  note x = sub_ok [OF Cons.prems, of x, unfolded Let_def]
  then have "c \<in> set (client_ids (fst (sub x s)))" using Cons.prems by (simp add: only_client_def)
  then show ?case using Cons.IH [of "fst (sub x s)"] x by (auto simp: Let_def intro: only_client_trans)
qed (simp add: Let_def)

end

interpretation un_chan: unsubscriber c "\<lambda>ch. pubsubUnsubscribeChannel c ch notify" channels patterns for c notify
  by unfold_locales (rule unsubscribe_channel_ok)

interpretation un_pat: unsubscriber c "\<lambda>p. pubsubUnsubscribePattern c p notify" patterns channels for c notify
  by unfold_locales (rule unsubscribe_pattern_ok)

interpretation sub_chan: subscriber c "pubsubSubscribeChannel c" channels patterns for c
  by unfold_locales (rule subscribe_channel_ok)

interpretation sub_pat: subscriber c "pubsubSubscribePattern c" patterns channels for c
  by unfold_locales (rule subscribe_pattern_ok)

lemma unsubscribe_all_channels_ok:
  assumes "index_ok s" and "mset (iter (channels (client_of s c))) = mset (channels (client_of s c))"
  shows "\<exists>s' n. pubsubUnsubscribeAllChannels iter c notify s = Some (s', n) \<and> index_ok s' \<and> only_client c s s' \<and>
    channels (client_of s' c) = [] \<and> patterns (client_of s' c) = patterns (client_of s c)"
proof -
  have "set (iter (channels (client_of s c))) = set (channels (client_of s c))"
    using assms(2) by (metis set_mset_mset)
  then show ?thesis
    using un_chan.all_ok [OF assms(1), of c notify "iter (channels (client_of s c))"]
    by (auto simp: pubsubUnsubscribeAllChannels_def Let_def)
qed

lemma unsubscribe_all_patterns_ok:
  assumes "index_ok s"
  shows "\<exists>s' n. pubsubUnsubscribeAllPatterns c notify s = Some (s', n) \<and> index_ok s' \<and> only_client c s s' \<and>
    patterns (client_of s' c) = [] \<and> channels (client_of s' c) = channels (client_of s c)"
  using un_pat.all_ok [OF assms, of c notify "patterns (client_of s c)"]
  by (auto simp: pubsubUnsubscribeAllPatterns_def Let_def)


subsection \<open>Delivery\<close>

definition deliver :: "(nat \<Rightarrow> reply_part list) \<Rightarrow> ps_server \<Rightarrow> ps_server" where
  \<comment> \<open>every client gets some output and nothing else happens\<close>
  "deliver f s = s\<lparr>client_of := (\<lambda>d. (client_of s d)\<lparr>out := out (client_of s d) @ f d\<rparr>)\<rparr>"

lemma deliver_sel [simp]:
  "client_ids (deliver f s) = client_ids s" "pubsub_channels (deliver f s) = pubsub_channels s"
  "pubsub_patterns (deliver f s) = pubsub_patterns s" "listeners (deliver f s) = listeners s"
  "channels (client_of (deliver f s) d) = channels (client_of s d)"
  "patterns (client_of (deliver f s) d) = patterns (client_of s d)"
  "pubsub_flag (client_of (deliver f s) d) = pubsub_flag (client_of s d)"
  "out (client_of (deliver f s) d) = out (client_of s d) @ f d"
  by (auto simp: deliver_def listeners_def)

lemma deliver_ok [simp]: "index_ok (deliver f s) = index_ok s" "flags_ok (deliver f s) = flags_ok s"
  by (simp_all add: index_ok_def flags_ok_def)

lemma deliver_deliver: "deliver g (deliver f s) = deliver (\<lambda>d. f d @ g d) s"
  by (simp add: deliver_def)

lemma deliver_nothing: "deliver (\<lambda>_. []) s = s"
  by (simp add: deliver_def)

lemma addReply_deliver: "addReply c rs s = deliver (\<lambda>d. if d = c then rs else []) s"
  by (auto simp: addReply_def upd_def deliver_def fun_eq_iff)

definition message :: "byte list \<Rightarrow> byte list \<Rightarrow> reply_part list" where
  "message ch msg = [MbulkHdr 3, SharedBulk ''message'', Bulk ch, Bulk msg]"

definition pmessage :: "byte list \<Rightarrow> byte list \<Rightarrow> byte list \<Rightarrow> reply_part list" where
  "pmessage ch msg p = [MbulkHdr 4, SharedBulk ''pmessage'', Bulk p, Bulk ch, Bulk msg]"

definition inbox :: "ps_client \<Rightarrow> byte list \<Rightarrow> byte list \<Rightarrow> reply_part list" where
  \<comment> \<open>what a client gets of a message: the message if it listens to the channel, then one copy for
     each of its patterns that the channel matches, in the order of its subscriptions\<close>
  "inbox cl ch msg = (if ch \<in> set (channels cl) then message ch msg else []) @
     concat (map (pmessage ch msg) (filter (\<lambda>p. glob False p ch) (patterns cl)))"

definition copies :: "ps_client \<Rightarrow> byte list \<Rightarrow> nat" where
  "copies cl ch = (if ch \<in> set (channels cl) then 1 else 0) + length (filter (\<lambda>p. glob False p ch) (patterns cl))"

lemma fold_send_message:
  "distinct cs \<Longrightarrow> fold (send_message ch msg) cs s = deliver (\<lambda>d. if d \<in> set cs then message ch msg else []) s"
proof (induction cs arbitrary: s)
  case Nil
  then show ?case by (simp add: deliver_nothing)
next
  case (Cons c cs)
  then show ?case
    by (simp add: send_message_def addReply_deliver deliver_deliver message_def cong: if_cong)
      (rule arg_cong [where f = "\<lambda>f. deliver f s"], auto)
qed

lemma publish_patterns_ok:
  assumes "ch \<noteq> []"
  shows "publish_patterns ch msg pats s =
    Some (deliver (\<lambda>d. concat (map (pmessage ch msg) (filter (\<lambda>p. glob False p ch) (own_patterns d pats)))) s,
      length (filter (\<lambda>x. glob False (snd x) ch) pats))"
proof (induction pats arbitrary: s)
  case Nil
  then show ?case by (simp add: deliver_nothing)
next
  case (Cons x pats)
  obtain c p where x: "x = (c, p)" by fastforce
  note m = stringmatchlen_ok [OF assms, of p False]
  show ?case
  proof (cases "glob False p ch")
    case True
    then show ?thesis unfolding x
      by (simp add: m Cons.IH addReply_deliver deliver_deliver pmessage_def)
        (rule arg_cong [where f = "\<lambda>f. deliver f s"], auto simp: pmessage_def)
  next
    case False
    then show ?thesis unfolding x
      by (simp add: m Cons.IH) (rule arg_cong [where f = "\<lambda>f. deliver f s"], auto)
  qed
qed

lemma pattern_total:
  assumes "finite C" and "\<And>c. c \<notin> C \<Longrightarrow> own_patterns c pats = []"
  shows "length (filter (\<lambda>x. P (snd x)) pats) = (\<Sum>c\<in>C. length (filter P (own_patterns c pats)))"
  using assms(2)
proof (induction pats)
  case (Cons x pats)
  obtain c p where x: "x = (c, p)" by fastforce
  have "c \<in> C" using Cons.prems [of c] by (auto simp: x)
  moreover have "own_patterns d pats = []" if "d \<notin> C" for d using Cons.prems [OF that] by (auto simp: x split: if_splits)
  then have IH: "length (filter (\<lambda>x. P (snd x)) pats) = (\<Sum>c\<in>C. length (filter P (own_patterns c pats)))"
    by (rule Cons.IH)
  have "(\<Sum>d\<in>C. length (filter P (own_patterns d (x # pats)))) =
      (\<Sum>d\<in>C. length (filter P (own_patterns d pats)) + (if d = c \<and> P p then 1 else 0))"
    by (rule sum.cong) (auto simp: x)
  ultimately show ?case using IH assms(1) by (simp add: x sum.distrib)
qed simp

lemma publish_ok:
  assumes ok: "index_ok s" and ch: "ch \<noteq> []"
  shows "pubsubPublishMessage ch msg s = Some (deliver (\<lambda>d. inbox (client_of s d) ch msg) s,
    \<Sum>c\<in>set (client_ids s). copies (client_of s c) ch)"
proof -
  let ?C = "set (client_ids s)"
  have l: "distinct (listeners s ch)" "set (listeners s ch) = {c. ch \<in> set (channels (client_of s c))}"
    and p: "\<And>d. own_patterns d (pubsub_patterns s) = patterns (client_of s d)"
    and out: "\<And>c. c \<notin> ?C \<Longrightarrow> channels (client_of s c) = [] \<and> patterns (client_of s c) = []"
    using ok by (auto simp: index_ok_def)
  have "length (listeners s ch) = card {c \<in> ?C. ch \<in> set (channels (client_of s c))}"
    using l out by (metis (mono_tags, lifting) Collect_cong distinct_card empty_iff empty_set)
  also have "\<dots> = (\<Sum>c\<in>?C. if ch \<in> set (channels (client_of s c)) then 1 else 0)"
    by (simp add: sum.If_cases Int_def)
  finally have "length (listeners s ch) + length (filter (\<lambda>x. glob False (snd x) ch) (pubsub_patterns s)) =
      (\<Sum>c\<in>?C. copies (client_of s c) ch)"
    using pattern_total [of ?C "pubsub_patterns s" "\<lambda>p. glob False p ch"] out p by (simp add: copies_def sum.distrib)
  then show ?thesis
    by (simp add: pubsubPublishMessage_def fold_send_message l publish_patterns_ok ch deliver_deliver p inbox_def)
qed


subsection \<open>Reachable states\<close>

definition ps_ok :: "ps_server \<Rightarrow> bool" where
  "ps_ok s \<longleftrightarrow> index_ok s \<and> flags_ok s"

fun request_ok :: "ps_request \<Rightarrow> bool" where
  \<comment> \<open>the arity of SUBSCRIBE and PSUBSCRIBE\<close>
  "request_ok (Subscribe chs) \<longleftrightarrow> chs \<noteq> []"
| "request_ok (Psubscribe ps) \<longleftrightarrow> ps \<noteq> []"
| "request_ok _ \<longleftrightarrow> True"

fun matches_names :: "ps_request \<Rightarrow> ps_server \<Rightarrow> bool" where
  \<comment> \<open>the request matches no empty channel name against a pattern: the matcher reads past the end
     of an empty string for some patterns\<close>
  "matches_names (Publish ch msg) s \<longleftrightarrow> ch \<noteq> []"
| "matches_names (PubsubInfo sub args) s \<longleftrightarrow> (\<forall>c. [] \<notin> set (channels (client_of s c)))"
| "matches_names _ s \<longleftrightarrow> True"

definition ps_server0 :: "bool \<Rightarrow> ps_server" where
  "ps_server0 cluster = \<lparr>client_ids = [], client_of = (\<lambda>_. \<lparr>channels = [], patterns = [], pubsub_flag = False, force_repl = False, out = []\<rparr>),
     pubsub_channels = [], pubsub_patterns = [], cluster_enabled = cluster, cluster_bus = []\<rparr>"

inductive ps_reachable :: "(byte list list \<Rightarrow> byte list list) \<Rightarrow> ps_server \<Rightarrow> bool" for iter where
  start: "ps_reachable iter (ps_server0 cluster)"
| connected: "ps_reachable iter s \<Longrightarrow> c \<notin> set (client_ids s) \<Longrightarrow> ps_reachable iter (ps_connect c s)"
| disconnected: "ps_reachable iter s \<Longrightarrow> c \<in> set (client_ids s) \<Longrightarrow> ps_disconnect iter c s = Some s' \<Longrightarrow> ps_reachable iter s'"
| requested: "ps_reachable iter s \<Longrightarrow> c \<in> set (client_ids s) \<Longrightarrow> request_ok q \<Longrightarrow>
    ps_processCommand iter c q s = Some s' \<Longrightarrow> ps_reachable iter s'"

lemma subs_cong:
  assumes "pubsub_channels s' = pubsub_channels s" "pubsub_patterns s' = pubsub_patterns s" "client_ids s' = client_ids s"
    and "\<And>d. channels (client_of s' d) = channels (client_of s d) \<and> patterns (client_of s' d) = patterns (client_of s d)"
  shows "index_ok s' = index_ok s"
proof -
  have "listeners s' = listeners s" using assms(1) by (simp add: listeners_def fun_eq_iff)
  then show "index_ok s' = index_ok s" using assms by (simp add: index_ok_def)
qed

lemma upd_ok:
  assumes "\<And>cl. channels (f cl) = channels cl \<and> patterns (f cl) = patterns cl"
  shows "index_ok (upd c f s) = index_ok s"
  by (rule subs_cong) (use assms in simp_all)

lemma only_clientD:
  assumes "only_client c s s'" and "d \<noteq> c"
  shows "client_of s' d = client_of s d"
  using assms by (simp add: only_client_def)

lemma join_ok:
  assumes o: "only_client c s s'" and ok: "ps_ok s" "index_ok s'"
    and some: "channels (client_of s' c) \<noteq> [] \<or> patterns (client_of s' c) \<noteq> []"
  shows "ps_ok (upd c (\<lambda>cl. cl\<lparr>pubsub_flag := True\<rparr>) s')"
  using assms by (auto simp: ps_ok_def upd_ok flags_ok_def only_client_def)

lemma leave_ok:
  assumes o: "only_client c s s'" and ok: "ps_ok s" "index_ok s'" and c: "c \<in> set (client_ids s)"
    and chs: "set (channels (client_of s' c)) \<subseteq> set (channels (client_of s c))"
    and ps: "set (patterns (client_of s' c)) \<subseteq> set (patterns (client_of s c))"
  shows "ps_ok (update_flag c s')"
proof -
  have fl: "pubsub_flag (client_of s' d) \<longleftrightarrow> channels (client_of s d) \<noteq> [] \<or> patterns (client_of s d) \<noteq> []"
    if "d \<in> set (client_ids s)" for d
    using that ok(1) o by (cases "d = c") (auto simp: ps_ok_def flags_ok_def only_client_def)
  have z: "clientSubscriptionsCount (client_of s' c) = 0 \<longleftrightarrow> channels (client_of s' c) = [] \<and> patterns (client_of s' c) = []"
    by (auto simp: clientSubscriptionsCount_def simp flip: of_nat_add)
  have same: "client_of s' d = client_of s d" if "d \<noteq> c" for d using only_clientD [OF o that] .
  have ids: "client_ids s' = client_ids s" using o by (simp add: only_client_def)
  show ?thesis
  proof (cases "channels (client_of s' c) = [] \<and> patterns (client_of s' c) = []")
    case True
    then have "flags_ok (upd c (\<lambda>cl. cl\<lparr>pubsub_flag := False\<rparr>) s')"
      using ok(1) same ids by (auto simp: flags_ok_def ps_ok_def)
    then show ?thesis using True ok(2) z by (simp add: update_flag_def ps_ok_def upd_ok)
  next
    case False
    then have "channels (client_of s c) \<noteq> [] \<or> patterns (client_of s c) \<noteq> []" using chs ps by auto
    then have "pubsub_flag (client_of s' d) \<longleftrightarrow> channels (client_of s' d) \<noteq> [] \<or> patterns (client_of s' d) \<noteq> []"
      if "d \<in> set (client_ids s)" for d using fl [OF that] False same by (cases "d = c") auto
    then have "flags_ok s'" using ids by (simp add: flags_ok_def)
    then show ?thesis using False ok(2) z by (auto simp: update_flag_def ps_ok_def)
  qed
qed

lemma match_channels_total: "[] \<notin> set chs \<Longrightarrow> \<exists>r. match_channels pat chs = Some r"
proof (induction chs)
  case (Cons ch chs)
  then show ?case using stringmatchlen_ok [of ch _ False] by (cases pat) auto
qed simp

lemma ps_okD: "ps_ok s \<Longrightarrow> index_ok s"
  by (simp add: ps_ok_def)

lemma ps_ok_addReply [simp]: "ps_ok (addReply c rs s) = ps_ok s"
  by (simp add: ps_ok_def)

lemma subscribe_ok:
  assumes ok: "ps_ok s" and c: "c \<in> set (client_ids s)" and chs: "chs \<noteq> []"
  shows "ps_ok (subscribeCommand c chs s)"
proof -
  define s' where "s' = fold (\<lambda>x s. fst (pubsubSubscribeChannel c x s)) chs s"
  have l: "index_ok s'" "only_client c s s'" "set (channels (client_of s' c)) = set chs \<union> set (channels (client_of s c))"
    "patterns (client_of s' c) = patterns (client_of s c)"
    using sub_chan.all_ok [OF ps_okD [OF ok] c, of chs] by (simp_all add: Let_def s'_def)
  have "channels (client_of s' c) \<noteq> []" using l(3) chs by (cases "channels (client_of s' c)") auto
  then show ?thesis using join_ok [OF l(2) ok l(1)] by (simp add: subscribeCommand_def s'_def)
qed

lemma psubscribe_ok:
  assumes ok: "ps_ok s" and c: "c \<in> set (client_ids s)" and ps: "ps \<noteq> []"
  shows "ps_ok (psubscribeCommand c ps s)"
proof -
  define s' where "s' = fold (\<lambda>x s. fst (pubsubSubscribePattern c x s)) ps s"
  have l: "index_ok s'" "only_client c s s'" "set (patterns (client_of s' c)) = set ps \<union> set (patterns (client_of s c))"
    "channels (client_of s' c) = channels (client_of s c)"
    using sub_pat.all_ok [OF ps_okD [OF ok] c, of ps] by (simp_all add: Let_def s'_def)
  have "patterns (client_of s' c) \<noteq> []" using l(3) ps by (cases "patterns (client_of s' c)") auto
  then show ?thesis using join_ok [OF l(2) ok l(1)] by (simp add: psubscribeCommand_def s'_def)
qed

lemma unsubscribe_ok:
  assumes ok: "ps_ok s" and c: "c \<in> set (client_ids s)" and iter: "\<And>xs. mset (iter xs) = mset xs"
  shows "\<exists>s'. unsubscribeCommand iter c chs s = Some s' \<and> ps_ok s'"
proof -
  note i = ps_okD [OF ok]
  obtain s' n where s': "(if chs = [] then pubsubUnsubscribeAllChannels iter c True s
      else unsubscribe_all (\<lambda>ch. pubsubUnsubscribeChannel c ch True) chs s) = Some (s', n)" "index_ok s'"
      "only_client c s s'" "set (channels (client_of s' c)) \<subseteq> set (channels (client_of s c))"
      "patterns (client_of s' c) = patterns (client_of s c)"
    using un_chan.all_ok [OF i, of c True chs] unsubscribe_all_channels_ok [of s iter c True, OF i iter]
    by (cases "chs = []") (simp_all, force+)
  show ?thesis using s'(1) leave_ok [OF s'(3) ok s'(2) c s'(4)] s'(5) by (simp add: unsubscribeCommand_def)
qed

lemma punsubscribe_ok:
  assumes ok: "ps_ok s" and c: "c \<in> set (client_ids s)"
  shows "\<exists>s'. punsubscribeCommand c ps s = Some s' \<and> ps_ok s'"
proof -
  note i = ps_okD [OF ok]
  obtain s' n where s': "(if ps = [] then pubsubUnsubscribeAllPatterns c True s
      else unsubscribe_all (\<lambda>p. pubsubUnsubscribePattern c p True) ps s) = Some (s', n)" "index_ok s'"
      "only_client c s s'" "set (patterns (client_of s' c)) \<subseteq> set (patterns (client_of s c))"
      "channels (client_of s' c) = channels (client_of s c)"
    using un_pat.all_ok [OF i, of c True ps] unsubscribe_all_patterns_ok [OF i, of c True]
    by (cases "ps = []") (simp_all, force+)
  show ?thesis using s'(1) leave_ok [OF s'(3) ok s'(2) c _ s'(4)] s'(5) by (simp add: punsubscribeCommand_def)
qed

lemma publish_patterns_deliver: "publish_patterns ch msg pats s = Some (s', n) \<Longrightarrow> \<exists>f. s' = deliver f s"
proof (induction pats arbitrary: s n)
  case Nil
  then show ?case using deliver_nothing [of s] by (metis option.inject prod.inject publish_patterns.simps(1))
next
  case (Cons x pats)
  obtain c p where x: "x = (c, p)" by fastforce
  obtain hit m where "publish_patterns ch msg pats
      (if hit then addReply c [MbulkHdr 4, SharedBulk ''pmessage'', Bulk p, Bulk ch, Bulk msg] s else s) = Some (s', m)"
    using Cons.prems by (auto simp: x Let_def split: Option.bind_splits)
  from Cons.IH [OF this] show ?case by (cases hit) (auto simp: addReply_deliver deliver_deliver)
qed

lemma publish_deliver:
  assumes "index_ok s" and "pubsubPublishMessage ch msg s = Some (s', n)"
  shows "\<exists>f. s' = deliver f s"
proof -
  let ?t = "fold (send_message ch msg) (listeners s ch) s"
  have "\<exists>f. ?t = deliver f s" using fold_send_message [of "listeners s ch" ch msg s] assms(1) by (auto simp: index_ok_def)
  moreover obtain m where "publish_patterns ch msg (pubsub_patterns ?t) ?t = Some (s', m)"
    using assms(2) by (auto simp: pubsubPublishMessage_def Let_def split: Option.bind_splits)
  ultimately show ?thesis using publish_patterns_deliver by (metis deliver_deliver)
qed

lemma publishCommand_keeps:
  assumes ok: "ps_ok s" and run: "publishCommand c ch msg s = Some s'"
  shows "ps_ok s'"
proof -
  obtain t n where t: "pubsubPublishMessage ch msg s = Some (t, n)"
    "s' = addReply c [LongLong (int n)] (if cluster_enabled t then t\<lparr>cluster_bus := cluster_bus t @ [(ch, msg)]\<rparr>
      else upd c (\<lambda>cl. cl\<lparr>force_repl := True\<rparr>) t)"
    using run by (auto simp: publishCommand_def Let_def split: Option.bind_splits)
  obtain f where "t = deliver f s" using publish_deliver [OF ps_okD [OF ok] t(1)] by blast
  then have t_ok: "ps_ok t" using ok by (simp add: ps_ok_def)
  then have "ps_ok (t\<lparr>cluster_bus := b\<rparr>)" for b
    using subs_cong [of "t\<lparr>cluster_bus := b\<rparr>" t] by (simp add: ps_ok_def flags_ok_def)
  moreover have "ps_ok (upd c (\<lambda>cl. cl\<lparr>force_repl := True\<rparr>) t)"
    using t_ok by (simp add: ps_ok_def upd_ok flags_ok_def)
  ultimately show ?thesis by (simp add: t(2))
qed

lemma channels_named:
  assumes ok: "ps_ok s" and named: "\<forall>c. [] \<notin> set (channels (client_of s c))"
  shows "[] \<notin> fst ` set (pubsub_channels s)"
proof
  assume "[] \<in> fst ` set (pubsub_channels s)"
  then obtain cs where cs: "map_of (pubsub_channels s) [] = Some cs" by (metis domD dom_map_of_conv_image_fst)
  have "set (listeners s []) = {}" using ok named by (simp add: ps_ok_def index_ok_def)
  then show False using ok cs by (auto simp: listeners_def ps_ok_def index_ok_def)
qed

lemma pubsubCommand_runs:
  assumes ok: "ps_ok s" and named: "\<forall>c. [] \<notin> set (channels (client_of s c))" and iter: "\<And>xs. mset (iter xs) = mset xs"
  shows "\<exists>s'. pubsubCommand iter c sub args s = Some s'"
proof -
  have "set (iter (map fst (pubsub_channels s))) = fst ` set (pubsub_channels s)"
    using iter by (metis set_map set_mset_mset)
  then obtain r where "match_channels (case args of [] \<Rightarrow> None | p # _ \<Rightarrow> Some p) (iter (map fst (pubsub_channels s))) = Some r"
    using match_channels_total channels_named [OF ok named] by metis
  then show ?thesis by (auto simp: pubsubCommand_def)
qed

lemma pubsubCommand_keeps: "ps_ok s \<Longrightarrow> pubsubCommand iter c sub args s = Some s' \<Longrightarrow> ps_ok s'"
  by (auto simp: pubsubCommand_def split: Option.bind_splits if_splits)

lemma ps_proc_runs:
  assumes ok: "ps_ok s" and c: "c \<in> set (client_ids s)" and "matches_names q s" and iter: "\<And>xs. mset (iter xs) = mset xs"
  shows "\<exists>s'. ps_proc iter c q s = Some s'"
proof (cases q)
  case (Unsubscribe chs)
  then show ?thesis using unsubscribe_ok [OF ok c iter, of chs] by auto
next
  case (Punsubscribe ps)
  then show ?thesis using punsubscribe_ok [OF ok c, of ps] by auto
next
  case (Publish ch msg)
  then show ?thesis using assms(3) publish_ok [OF ps_okD [OF ok], of ch msg] by (simp add: publishCommand_def Let_def)
next
  case (PubsubInfo sub args)
  then show ?thesis using assms(3) pubsubCommand_runs [OF ok _ iter, of c sub args] by simp
qed simp_all

lemma ps_proc_keeps:
  assumes ok: "ps_ok s" and c: "c \<in> set (client_ids s)" and "request_ok q" and iter: "\<And>xs. mset (iter xs) = mset xs"
    and run: "ps_proc iter c q s = Some s'"
  shows "ps_ok s'"
proof (cases q)
  case (Subscribe chs)
  then show ?thesis using assms(3) run subscribe_ok [OF ok c, of chs] by auto
next
  case (Unsubscribe chs)
  then show ?thesis using run unsubscribe_ok [OF ok c iter, of chs] by auto
next
  case (Psubscribe ps)
  then show ?thesis using assms(3) run psubscribe_ok [OF ok c, of ps] by auto
next
  case (Punsubscribe ps)
  then show ?thesis using run punsubscribe_ok [OF ok c, of ps] by auto
next
  case (Publish ch msg)
  then show ?thesis using run publishCommand_keeps [OF ok] by simp
next
  case (PubsubInfo sub args)
  then show ?thesis using run pubsubCommand_keeps [OF ok] by simp
qed

lemma ps_processCommand_ok:
  assumes "ps_ok s" and "c \<in> set (client_ids s)" and "\<And>xs. mset (iter xs) = mset xs"
  shows "matches_names q s \<Longrightarrow> \<exists>s'. ps_processCommand iter c q s = Some s'"
    and "request_ok q \<Longrightarrow> ps_processCommand iter c q s = Some s' \<Longrightarrow> ps_ok s'"
  using ps_proc_runs [OF assms(1,2) _ assms(3)] ps_proc_keeps [OF assms(1,2) _ assms(3)] assms(1)
  by (auto simp: ps_processCommand_def split: if_splits)

lemma ps_disconnect_ok:
  assumes ok: "ps_ok s" and iter: "\<And>xs. mset (iter xs) = mset xs"
  shows "\<exists>s'. ps_disconnect iter c s = Some s' \<and> ps_ok s'"
proof -
  have i: "index_ok s" using ok by (simp add: ps_ok_def)
  obtain s1 n1 where 1: "pubsubUnsubscribeAllChannels iter c False s = Some (s1, n1)" "index_ok s1" "only_client c s s1"
    "channels (client_of s1 c) = []" using unsubscribe_all_channels_ok [of s iter c False, OF i iter] by blast
  obtain s2 n2 where 2: "pubsubUnsubscribeAllPatterns c False s1 = Some (s2, n2)" "index_ok s2" "only_client c s1 s2"
    "patterns (client_of s2 c) = []" "channels (client_of s2 c) = channels (client_of s1 c)"
    using unsubscribe_all_patterns_ok [OF 1(2), of c False] by blast
  have o: "only_client c s s2" using 1(3) 2(3) by (rule only_client_trans)
  let ?s3 = "s2\<lparr>client_ids := remove1 c (client_ids s2)\<rparr>"
  have "listeners ?s3 = listeners s2" by (simp add: listeners_def fun_eq_iff)
  moreover have "distinct (client_ids s2)" using 2(2) by (simp add: index_ok_def)
  ultimately have "ps_ok ?s3" using 1(4) 2(2,4,5) ok o
    by (auto simp: ps_ok_def index_ok_def flags_ok_def only_client_def)
  then show ?thesis using 1(1) 2(1) by (simp add: ps_disconnect_def)
qed

lemma ps_connect_ok:
  assumes "ps_ok s" and "c \<notin> set (client_ids s)"
  shows "ps_ok (ps_connect c s)"
proof -
  have "listeners (ps_connect c s) = listeners s" by (simp add: listeners_def ps_connect_def fun_eq_iff)
  moreover have "channels (client_of (ps_connect c s) d) = channels (client_of s d)"
    "patterns (client_of (ps_connect c s) d) = patterns (client_of s d)" for d
    using assms by (auto simp: ps_connect_def ps_ok_def index_ok_def)
  moreover have "pubsub_channels (ps_connect c s) = pubsub_channels s" "pubsub_patterns (ps_connect c s) = pubsub_patterns s"
    "client_ids (ps_connect c s) = client_ids s @ [c]" by (simp_all add: ps_connect_def)
  moreover have "pubsub_flag (client_of (ps_connect c s) d) = (d \<noteq> c \<and> pubsub_flag (client_of s d))" for d
    by (simp add: ps_connect_def)
  ultimately show ?thesis using assms by (auto simp: ps_ok_def index_ok_def flags_ok_def)
qed

lemma ps_reachable_ok:
  assumes "ps_reachable iter s" and iter: "\<And>xs. mset (iter xs) = mset xs"
  shows "ps_ok s"
  using assms(1)
proof (induction rule: ps_reachable.induct)
  case (start cluster)
  then show ?case by (simp add: ps_server0_def ps_ok_def index_ok_def flags_ok_def listeners_def)
next
  case (connected s c)
  then show ?case by (intro ps_connect_ok)
next
  case (disconnected s c s')
  then show ?case using ps_disconnect_ok [OF disconnected.IH iter, of c] by simp
next
  case (requested s c q s')
  then show ?case using ps_processCommand_ok(2) [OF requested.IH _ iter] by blast
qed


subsection \<open>Notifications\<close>

lemma notify_channel_ok:
  assumes p: "length (bytes_of prefix) = 11" and n: "len \<le> length num" "len < 100" and k: "length name < 2 ^ 60"
  shows "\<exists>s. notify_channel junk prefix num len name = Some s \<and>
    sds_val s = bytes_of prefix @ take len num @ bytes_of ''__:'' @ name"
proof -
  have l3: "length (bytes_of ''__:'') = 3" by (simp add: bytes_of_def)
  obtain s1 where 1: "sdsnewlen junk (Some (bytes_of prefix @ [0])) 11 = Some s1" "sds_rep s1 (bytes_of prefix)"
    using sdsnewlen_ok [of 11 "bytes_of prefix @ [0]" junk] p by auto
  obtain s2 where 2: "sdscatlen junk s1 num len = Some s2" "sds_rep s2 (bytes_of prefix @ take len num)"
    using sdscatlen_ok [OF 1(2) n(1), of junk] n p by auto
  obtain s3 where 3: "sdscatlen junk s2 (bytes_of ''__:'' @ [0]) 3 = Some s3"
    "sds_rep s3 (bytes_of prefix @ take len num @ bytes_of ''__:'')"
    using sdscatlen_ok [OF 2(2), of 3 "bytes_of ''__:'' @ [0]" junk] n p l3 by auto
  obtain s4 where 4: "sdscatlen junk s3 name (length name) = Some s4"
    "sds_rep s4 (bytes_of prefix @ take len num @ bytes_of ''__:'' @ name)"
    using sdscatlen_ok [OF 3(2), of "length name" name junk] n p l3 k by auto
  show ?thesis using 1(1) 2(1) 3(1) 4 by (simp add: notify_channel_def sds_rep_iff)
qed

definition event_channel :: "string \<Rightarrow> int \<Rightarrow> byte list \<Rightarrow> byte list" where
  "event_channel prefix dbid name = bytes_of prefix @ dec dbid @ bytes_of ''__:'' @ name"

definition notification :: "u32 \<Rightarrow> u32 \<Rightarrow> byte list \<Rightarrow> byte list \<Rightarrow> int \<Rightarrow> ps_client \<Rightarrow> reply_part list" where
  \<comment> \<open>what a client gets of an event\<close>
  "notification fl type event key dbid cl =
     (if fl AND type = 0 then []
      else (if fl AND NOTIFY_KEYSPACE \<noteq> 0 then inbox cl (event_channel ''__keyspace@'' dbid key) event else []) @
        (if fl AND NOTIFY_KEYEVENT \<noteq> 0 then inbox cl (event_channel ''__keyevent@'' dbid event) key else []))"

lemma inbox_deliver [simp]: "inbox (client_of (deliver f s) d) ch msg = inbox (client_of s d) ch msg"
  by (simp add: inbox_def)

lemma notify_ok:
  assumes ok: "index_ok (modules type event key dbid s)"
    and db: "- (2 ^ 31) \<le> dbid" "dbid < 2 ^ 31" and small: "length key < 2 ^ 60" "length event < 2 ^ 60"
  shows "notifyKeyspaceEvent junk modules fl type event key dbid s =
    Some (let s = modules type event key dbid s in deliver (\<lambda>d. notification fl type event key dbid (client_of s d)) s)"
proof -
  let ?s = "modules type event key dbid s" and ?j = "map junk [0..<24]"
  let ?b = "dec dbid @ 0 # drop (Suc (length (dec dbid))) ?j"
  have ld: "length (dec dbid) < 22"
    using llstr_room(2) [of dbid junk] db by (simp add: llstr_buf_def SDS_LLSTR_SIZE_def LLONG_MIN_def LLONG_MAX_def)
  then have ll: "ll2string ?j 24 dbid = Some (?b, length (dec dbid))"
    using ll2string_ok [of dbid 24 ?j] db by (simp add: LLONG_MIN_def LLONG_MAX_def)
  have ne: "event_channel p dbid n \<noteq> []" for p n by (simp add: event_channel_def bytes_of_def)
  have chan: "\<exists>c. notify_channel junk p ?b (length (dec dbid)) name = Some c \<and> sds_val c = event_channel p dbid name"
    if "length (bytes_of p) = 11" "length name < 2 ^ 60" for p name
    using notify_channel_ok [OF that(1) _ _ that(2), of "length (dec dbid)" ?b junk] ld by (simp add: event_channel_def)
  obtain c1 where c1: "notify_channel junk ''__keyspace@'' ?b (length (dec dbid)) key = Some c1"
    "sds_val c1 = event_channel ''__keyspace@'' dbid key" using chan small by (force simp: bytes_of_def)
  obtain c2 where c2: "notify_channel junk ''__keyevent@'' ?b (length (dec dbid)) event = Some c2"
    "sds_val c2 = event_channel ''__keyevent@'' dbid event" using chan small by (force simp: bytes_of_def)
  have p: "pubsubPublishMessage (event_channel p dbid n) msg t =
      Some (deliver (\<lambda>d. inbox (client_of t d) (event_channel p dbid n) msg) t,
        \<Sum>c\<in>set (client_ids t). copies (client_of t c) (event_channel p dbid n))" if "index_ok t" for p n msg t
    by (rule publish_ok [OF that ne])
  show ?thesis
    by (cases "fl AND type = 0"; cases "fl AND NOTIFY_KEYSPACE = 0"; cases "fl AND NOTIFY_KEYEVENT = 0")
      (simp_all add: notifyKeyspaceEvent_def Let_def ll c1 c2 p ok notification_def deliver_deliver deliver_nothing)
qed

lemmas notify_defs = NOTIFY_KEYSPACE_def NOTIFY_KEYEVENT_def NOTIFY_GENERIC_def NOTIFY_STRING_def NOTIFY_LIST_def
  NOTIFY_SET_def NOTIFY_HASH_def NOTIFY_ZSET_def NOTIFY_EXPIRED_def NOTIFY_EVICTED_def

definition data_classes :: "(u32 \<times> byte) list" where
  "data_classes = [(NOTIFY_GENERIC, 103), (NOTIFY_STRING, 36), (NOTIFY_LIST, 108), (NOTIFY_SET, 115),
     (NOTIFY_HASH, 104), (NOTIFY_ZSET, 122), (NOTIFY_EXPIRED, 120), (NOTIFY_EVICTED, 101)]"

definition channel_classes :: "(u32 \<times> byte) list" where
  "channel_classes = [(NOTIFY_KEYSPACE, 75), (NOTIFY_KEYEVENT, 69)]"

definition class_text :: "u32 \<Rightarrow> u32 \<times> byte \<Rightarrow> byte list" where
  "class_text fl x = (if fl AND fst x \<noteq> 0 then [snd x] else [])"

interpretation classes: emitter sds_rep "\<lambda>s x. cat_class junk fl (fst x) (snd x) s" "class_text fl" "2 ^ 61" for junk fl
proof unfold_locales
  fix s v x
  assume "sds_rep s v" "length v + length (class_text fl x) \<le> 2 ^ 61"
  then show "\<exists>s'. cat_class junk fl (fst x) (snd x) s = Some s' \<and> sds_rep s' (v @ class_text fl x)"
    using sdscatlen_ok [of s v 1 "[snd x, 0]" junk] by (auto simp: cat_class_def class_text_def)
qed

lemma class_text_length: "length (concat (map (class_text fl) xs)) \<le> length xs"
  by (induction xs) (auto simp: class_text_def)

lemma flags_to_string_ok:
  "\<exists>s. keyspaceEventsFlagsToString junk fl = Some s \<and>
     sds_rep s ((if fl AND NOTIFY_ALL = NOTIFY_ALL then [65] else concat (map (class_text fl) data_classes)) @
       concat (map (class_text fl) channel_classes))"
proof -
  obtain s0 where 0: "sdsempty junk = Some s0" "sds_rep s0 []" using sdsempty_ok by blast
  define v1 where "v1 = (if fl AND NOTIFY_ALL = NOTIFY_ALL then [65] else concat (map (class_text fl) data_classes))"
  have l: "length (concat (map (class_text fl) data_classes)) \<le> 8" "length (concat (map (class_text fl) channel_classes)) \<le> 2"
    using class_text_length [of fl data_classes] class_text_length [of fl channel_classes]
    by (simp_all add: data_classes_def channel_classes_def)
  obtain s1 where 1: "(if fl AND NOTIFY_ALL = NOTIFY_ALL then sdscatlen junk s0 [65, 0] 1
      else emit_all (\<lambda>s x. cat_class junk fl (fst x) (snd x) s) s0 data_classes) = Some s1" "sds_rep s1 v1"
    using classes.emit_all_ok [OF 0(2), of fl data_classes junk] sdscatlen_ok [OF 0(2), of 1 "[65, 0]" junk] l
    by (cases "fl AND NOTIFY_ALL = NOTIFY_ALL") (auto simp: v1_def)
  have "length v1 \<le> 8" using l by (simp add: v1_def)
  then obtain s2 where 2: "emit_all (\<lambda>s x. cat_class junk fl (fst x) (snd x) s) s1 channel_classes = Some s2"
    "sds_rep s2 (v1 @ concat (map (class_text fl) channel_classes))"
    using classes.emit_all_ok [OF 1(2), of fl channel_classes junk] l by auto
  have "keyspaceEventsFlagsToString junk fl = do {
      res \<leftarrow> sdsempty junk;
      res \<leftarrow> (if fl AND NOTIFY_ALL = NOTIFY_ALL then sdscatlen junk res [65, 0] 1
        else emit_all (\<lambda>s x. cat_class junk fl (fst x) (snd x) s) res data_classes);
      emit_all (\<lambda>s x. cat_class junk fl (fst x) (snd x) s) res channel_classes }"
    by (simp add: keyspaceEventsFlagsToString_def data_classes_def channel_classes_def cong: if_cong)
  then have "keyspaceEventsFlagsToString junk fl = Some s2" using 0(1) 1(1) 2(1) by (simp only: Option.bind.simps)
  then show ?thesis using 2(2) by (auto simp: v1_def)
qed

definition one_bit :: "u32 \<Rightarrow> bool" where
  "one_bit f \<longleftrightarrow> (\<exists>k. f = push_bit k 1)"

lemma one_bit_and:
  assumes "one_bit f"
  shows "fl AND f = 0 \<or> fl AND f = f"
proof -
  obtain k where k: "f = push_bit k 1" using assms by (auto simp: one_bit_def)
  have b: "bit f n \<longleftrightarrow> n = k \<and> n < 32" for n by (auto simp: k bit_simps bit_1_iff)
  show ?thesis
  proof (cases "bit fl k")
    case True
    then have "fl AND f = f" by (intro bit_word_eqI) (auto simp: bit_and_iff b)
    then show ?thesis by simp
  next
    case False
    then have "fl AND f = 0" by (intro bit_word_eqI) (auto simp: bit_and_iff b)
    then show ?thesis by simp
  qed
qed

lemma classes_loop_text:
  assumes "list_all (\<lambda>(f, c). class_flag c = Some f \<and> c \<noteq> 0 \<and> one_bit f) xs"
  shows "classes_loop (concat (map (class_text fl) xs) @ rest) acc =
    classes_loop rest (fold (\<lambda>(f, _) a. a OR (fl AND f)) xs acc)"
  using assms
proof (induction xs arbitrary: acc)
  case (Cons x xs)
  obtain f c where x: "x = (f, c)" by fastforce
  show ?case using Cons one_bit_and [of f fl] by (auto simp: x class_text_def)
qed simp

lemma classes_one_bit:
  "one_bit NOTIFY_KEYSPACE" "one_bit NOTIFY_KEYEVENT" "one_bit NOTIFY_GENERIC" "one_bit NOTIFY_STRING"
  "one_bit NOTIFY_LIST" "one_bit NOTIFY_SET" "one_bit NOTIFY_HASH" "one_bit NOTIFY_ZSET"
  "one_bit NOTIFY_EXPIRED" "one_bit NOTIFY_EVICTED"
  unfolding one_bit_def notify_defs by blast+

lemma classes_ok:
  "list_all (\<lambda>(f, c). class_flag c = Some f \<and> c \<noteq> 0 \<and> one_bit f) data_classes"
  "list_all (\<lambda>(f, c). class_flag c = Some f \<and> c \<noteq> 0 \<and> one_bit f) channel_classes"
  by (simp_all add: data_classes_def channel_classes_def class_flag_def classes_one_bit)

lemma all_classes: "fl AND 0x3FF = (fl AND NOTIFY_ALL) OR (fl AND NOTIFY_KEYSPACE) OR (fl AND NOTIFY_KEYEVENT)"
proof -
  have "(0x3FF :: u32) = NOTIFY_ALL OR NOTIFY_KEYSPACE OR NOTIFY_KEYEVENT" by (simp add: NOTIFY_ALL_def notify_defs)
  then show ?thesis by (simp only: bit.conj_disj_distrib)
qed

lemma string_to_flags_ok:
  "keyspaceEventsStringToFlags (((if fl AND NOTIFY_ALL = NOTIFY_ALL then [65] else concat (map (class_text fl) data_classes)) @
     concat (map (class_text fl) channel_classes)) @ 0 # z) = Some (fl AND 0x3FF)"
proof (cases "fl AND NOTIFY_ALL = NOTIFY_ALL")
  case True
  then show ?thesis
    by (simp add: keyspaceEventsStringToFlags_def class_flag_def classes_loop_text [OF classes_ok(2)] all_classes)
      (simp add: channel_classes_def or.assoc)
next
  case False
  then show ?thesis
    by (simp add: keyspaceEventsStringToFlags_def classes_loop_text [OF classes_ok(1)] classes_loop_text [OF classes_ok(2)] all_classes)
      (simp add: channel_classes_def data_classes_def NOTIFY_ALL_def bit.conj_disj_distrib or.assoc)
qed


section \<open>Properties\<close>

text \<open>Property C15. In every state that connections, disconnections and requests within their
  arity lead to, the two indexes of the server list exactly the subscriptions of the clients and
  a client is in the subscriber mode if and only if it has a subscription. In such a state every
  disconnection and every request that matches no empty channel name against a pattern runs
  without a failed assertion or a read out of bounds; PUBLISH on the channel with the empty name
  is not such a request, nor is PUBSUB while a client listens to that channel. An execution that
  reads out of bounds is not continued.\<close>
theorem pubsub_invariant:
  assumes "ps_reachable iter s" and "\<And>xs. mset (iter xs) = mset xs"
  shows "ps_ok s \<and> (\<forall>c \<in> set (client_ids s). ps_disconnect iter c s \<noteq> None \<and>
    (\<forall>q. matches_names q s \<longrightarrow> ps_processCommand iter c q s \<noteq> None))"
  using ps_reachable_ok [OF assms] ps_disconnect_ok [of s iter] ps_processCommand_ok(1) [of s _ iter] assms(2) by fastforce

definition demo_ps :: ps_server where
  "demo_ps = psubscribeCommand 3 [[42]] (subscribeCommand 3 [[97]] (ps_connect 4 (ps_connect 3 (ps_server0 False))))"

lemma demo_ps_reachable: "ps_reachable rev demo_ps" "set (client_ids demo_ps) = {3, 4}"
proof -
  let ?s2 = "ps_connect 4 (ps_connect 3 (ps_server0 False))"
  have 2: "ps_reachable rev ?s2" by (intro connected start) (simp_all add: ps_connect_def ps_server0_def)
  have i: "client_ids ?s2 = [3, 4]" by (simp add: ps_connect_def ps_server0_def)
  have 3: "ps_reachable rev (subscribeCommand 3 [[97]] ?s2)"
    by (rule requested [OF 2, of 3 "Subscribe [[97]]"])
      (simp_all add: i ps_processCommand_def)
  have j: "client_ids (subscribeCommand 3 [[97]] ?s2) = [3, 4]"
    using i by (simp add: subscribeCommand_def pubsubSubscribeChannel_def Let_def split: option.splits)
  show "ps_reachable rev demo_ps" unfolding demo_ps_def
    by (rule requested [OF 3, of 3 "Psubscribe [[42]]"]) (simp_all add: j ps_processCommand_def)
  show "set (client_ids demo_ps) = {3, 4}"
    using j by (simp add: demo_ps_def psubscribeCommand_def pubsubSubscribePattern_def Let_def)
qed

theorem pubsub_invariant_witness:
  "ps_ok demo_ps \<and> ps_disconnect rev 3 demo_ps \<noteq> None \<and> ps_processCommand rev 3 (Unsubscribe []) demo_ps \<noteq> None"
  using pubsub_invariant [OF demo_ps_reachable(1)] demo_ps_reachable(2) by simp

text \<open>Property C22. A message published on a named channel reaches, in every reachable state, each
  client once if it listens to the channel and once for each of its patterns that the channel
  matches, in the order of its subscriptions; nothing else changes, and the reply is the number
  of copies.\<close>
theorem publish_delivers:
  assumes "ps_reachable iter s" and "\<And>xs. mset (iter xs) = mset xs" and "ch \<noteq> []"
  shows "pubsubPublishMessage ch msg s = Some (deliver (\<lambda>d. inbox (client_of s d) ch msg) s,
    \<Sum>c\<in>set (client_ids s). copies (client_of s c) ch)"
  using publish_ok [OF _ assms(3)] ps_reachable_ok [OF assms(1,2)] by (simp add: ps_ok_def)

theorem publish_delivers_witness:
  "pubsubPublishMessage [97] [1] demo_ps = Some (deliver (\<lambda>d. inbox (client_of demo_ps d) [97] [1]) demo_ps,
    \<Sum>c\<in>set (client_ids demo_ps). copies (client_of demo_ps c) [97])"
  by (rule publish_delivers [OF demo_ps_reachable(1)]) simp_all

text \<open>Property C37. A keyspace event is published exactly on the channels that the configured
  classes select: the channel of the key carries the event, the channel of the event carries the
  key, and the number of the database is in the name of the channel.\<close>
theorem notify_delivers:
  assumes "ps_ok (modules type event key dbid s)" and "- (2 ^ 31) \<le> dbid" "dbid < 2 ^ 31"
    and "length key < 2 ^ 60" "length event < 2 ^ 60"
  shows "notifyKeyspaceEvent junk modules fl type event key dbid s =
    Some (let s = modules type event key dbid s in deliver (\<lambda>d. notification fl type event key dbid (client_of s d)) s)"
  by (rule notify_ok) (use assms in \<open>simp_all add: ps_ok_def\<close>)

theorem notify_delivers_witness:
  "notifyKeyspaceEvent (\<lambda>_. 0) (\<lambda>_ _ _ _ s. s) (NOTIFY_ALL OR NOTIFY_KEYEVENT) NOTIFY_GENERIC (bytes_of ''del'') [107] 0 demo_ps =
    Some (deliver (\<lambda>d. notification (NOTIFY_ALL OR NOTIFY_KEYEVENT) NOTIFY_GENERIC (bytes_of ''del'') [107] 0 (client_of demo_ps d)) demo_ps)"
  using notify_delivers [of "\<lambda>_ _ _ _ s. s" NOTIFY_GENERIC "bytes_of ''del''" "[107]" 0 demo_ps "\<lambda>_. 0" "NOTIFY_ALL OR NOTIFY_KEYEVENT"]
    ps_reachable_ok [OF demo_ps_reachable(1)] by (simp add: bytes_of_def)

text \<open>Writing the notification classes as a string and reading the string back gives
  the classes, for every combination of them.\<close>
lemma keyspace_classes_roundtrip:
  "\<exists>s. keyspaceEventsFlagsToString junk fl = Some s \<and> keyspaceEventsStringToFlags (buf s) = Some (fl AND 0x3FF)"
proof -
  obtain s where s: "keyspaceEventsFlagsToString junk fl = Some s"
    "sds_rep s ((if fl AND NOTIFY_ALL = NOTIFY_ALL then [65] else concat (map (class_text fl) data_classes)) @
       concat (map (class_text fl) channel_classes))"
    using flags_to_string_ok by blast
  then show ?thesis unfolding sds_rep_def using string_to_flags_ok [of fl] by (metis append.assoc)
qed

end
