(* ===== verification/Bitops.thy ===== *)
theory Bitops
  imports Bitcount Pubsub
begin

section \<open>Commands on bits (bitops.c)\<close>

text \<open>
  SETBIT, GETBIT, BITOP, BITCOUNT, BITPOS and BITFIELD on a keyspace. A string object is a byte
  string or, integer encoded, a number; what the operations of \<open>sds.c\<close> do to byte strings is
  shown in \<open>Sds\<close>. Keys do not expire. Calls of \<open>signalModifiedKey\<close> and \<open>notifyKeyspaceEvent\<close>
  are recorded, since transactions (\<open>Multi\<close>) and subscribers (\<open>Pubsub\<close>) act on them; replies
  are collected. \<open>junk\<close> is what a buffer on the stack holds before it is filled.
\<close>

subsection \<open>State\<close>

datatype robj = RawString "byte list" | IntString int | OtherType

datatype call = SignalModifiedKey "byte list" | NotifyKeyspaceEvent u32 string "byte list"

record bit_server =
  keyspace :: "byte list \<rightharpoonup> robj"
  dirty_count :: nat
  call_log :: "call list"
  replies :: "reply_part list"

definition reply :: "reply_part \<Rightarrow> bit_server \<Rightarrow> bit_server" where
  "reply r s = s\<lparr>replies := replies s @ [r]\<rparr>"

definition calls :: "call list \<Rightarrow> bit_server \<Rightarrow> bit_server" where
  "calls cs s = s\<lparr>call_log := call_log s @ cs\<rparr>"

definition wrongtypeerr :: reply_part where
  "wrongtypeerr = Error ''WRONGTYPE Operation against a key holding the wrong kind of value''"

definition syntaxerr :: reply_part where
  "syntaxerr = Error ''syntax error''"

definition arg :: "byte list list \<Rightarrow> nat \<Rightarrow> byte list option" where
  \<comment> \<open>\<open>c->argv[i]->ptr\<close>\<close>
  "arg argv i = (if i < length argv then Some (argv ! i) else None)"

subsection \<open>Objects (object.c, db.c)\<close>

definition getLongLongFromObject :: "byte list \<Rightarrow> int option" where
  \<comment> \<open>of an argument, which is a byte string; None for \<open>C_ERR\<close>\<close>
  "getLongLongFromObject ob = string2ll ob"

definition getLongLongFromObjectOrReply :: "byte list \<Rightarrow> string option \<Rightarrow> string + int" where
  \<comment> \<open>Inl is the error that was sent\<close>
  "getLongLongFromObjectOrReply ob msg =
     (case getLongLongFromObject ob of
        None \<Rightarrow> Inl (case msg of Some m \<Rightarrow> m | None \<Rightarrow> ''value is not an integer or out of range'')
      | Some value \<Rightarrow> Inr value)"

definition getLongFromObjectOrReply :: "byte list \<Rightarrow> string option \<Rightarrow> string + int" where
  "getLongFromObjectOrReply ob msg =
     (case getLongLongFromObjectOrReply ob msg of
        Inl e \<Rightarrow> Inl e
      | Inr value \<Rightarrow>
          if value < LLONG_MIN \<or> value > LLONG_MAX then Inl (case msg of Some m \<Rightarrow> m | None \<Rightarrow> ''value is out of range'')
          else Inr value)"

definition getDecodedObject :: "(nat \<Rightarrow> byte) \<Rightarrow> robj \<Rightarrow> byte list option" where
  \<comment> \<open>the contents of the object returned; None is the panic\<close>
  "getDecodedObject junk ob = (case ob of
     RawString p \<Rightarrow> Some p
   | IntString v \<Rightarrow> do { (buf, _) \<leftarrow> ll2string (map junk [0..<32]) 32 v; Some (takeWhile (\<lambda>c. c \<noteq> 0) buf) }
   | OtherType \<Rightarrow> None)"

definition dbUnshareStringValue :: "(nat \<Rightarrow> byte) \<Rightarrow> robj \<Rightarrow> byte list option" where
  \<comment> \<open>the contents of the object that may be written to\<close>
  "dbUnshareStringValue junk ob = (if ob = OtherType then None else getDecodedObject junk ob)"

definition setKey :: "byte list \<Rightarrow> robj \<Rightarrow> bit_server \<Rightarrow> bit_server" where
  "setKey key val s = calls [SignalModifiedKey key] (s\<lparr>keyspace := (keyspace s)(key \<mapsto> val)\<rparr>)"

subsection \<open>Arguments and lookups\<close>

definition getBitOffsetFromArgument :: "byte list \<Rightarrow> bool \<Rightarrow> nat \<Rightarrow> string + nat" where
  "getBitOffsetFromArgument p hash bits =
     (let err = ''bit offset is not an integer or out of range'';
          usehash = (p \<noteq> [] \<and> hd p = 35 \<and> hash \<and> bits > 0)
      in case string2ll (if usehash then tl p else p) of
           None \<Rightarrow> Inl err
         | Some loffset \<Rightarrow>
             let loffset = (if usehash then i64 (loffset * int bits) else loffset) in
             if loffset < 0 \<or> drop_bit 3 (nat loffset) \<ge> 512 * 1024 * 1024 then Inl err else Inr (nat loffset))"

definition getBitfieldTypeFromArgument :: "byte list \<Rightarrow> string + (bool \<times> nat)" where
  \<comment> \<open>sign and bits; the terminator stands at \<open>p[0]\<close> of an empty argument\<close>
  "getBitfieldTypeFromArgument p =
     (let err = ''Invalid bitfield type. Use something like i16 u8. Note that u64 is not supported but i64 is.'';
          c0 = (if p = [] then 0 else hd p)
      in if c0 \<noteq> 105 \<and> c0 \<noteq> 117 then Inl err
         else let sign = (c0 = 105) in
           case string2ll (takeWhile (\<lambda>c. c \<noteq> 0) (tl p)) of
             None \<Rightarrow> Inl err
           | Some llbits \<Rightarrow>
               if llbits < 1 \<or> (sign \<and> llbits > 64) \<or> (\<not> sign \<and> llbits > 63) then Inl err
               else Inr (sign, nat llbits))"

definition lookupStringForBitCommand :: "(nat \<Rightarrow> byte) \<Rightarrow> byte list \<Rightarrow> nat \<Rightarrow> bit_server \<Rightarrow> (bit_server \<times> byte list option) option" where
  \<comment> \<open>the contents of the object returned, None inside for NULL\<close>
  "lookupStringForBitCommand junk key maxbit s =
     (let bt = drop_bit 3 maxbit in
      case keyspace s key of
        None \<Rightarrow>
          let p = replicate (bt + 1) 0 in Some (s\<lparr>keyspace := (keyspace s)(key \<mapsto> RawString p)\<rparr>, Some p)
      | Some ob \<Rightarrow>
          if ob = OtherType then Some (reply wrongtypeerr s, None)
          else do {
            p \<leftarrow> dbUnshareStringValue junk ob;
            let p = p @ replicate (bt + 1 - length p) 0;
            Some (s\<lparr>keyspace := (keyspace s)(key \<mapsto> RawString p)\<rparr>, Some p) })"

definition getObjectReadOnlyString :: "(nat \<Rightarrow> byte) \<Rightarrow> robj \<Rightarrow> byte list option" where
  \<comment> \<open>the \<open>len\<close> bytes at the pointer returned; None is the assertion\<close>
  "getObjectReadOnlyString junk ob = (case ob of
     RawString p \<Rightarrow> Some p
   | IntString v \<Rightarrow> do { (llbuf, len) \<leftarrow> ll2string (map junk [0..<21]) 21 v; Some (take len llbuf) }
   | OtherType \<Rightarrow> None)"

subsection \<open>SETBIT and GETBIT\<close>

definition setbitCommand :: "(nat \<Rightarrow> byte) \<Rightarrow> byte list list \<Rightarrow> bit_server \<Rightarrow> bit_server option" where
  "setbitCommand junk argv s = do {
     key \<leftarrow> arg argv 1;
     a2 \<leftarrow> arg argv 2;
     a3 \<leftarrow> arg argv 3;
     let err = ''bit is not an integer or out of range'';
     case getBitOffsetFromArgument a2 False 0 of
       Inl e \<Rightarrow> Some (reply (Error e) s)
     | Inr bitoffset \<Rightarrow>
     case getLongFromObjectOrReply a3 (Some err) of
       Inl e \<Rightarrow> Some (reply (Error e) s)
     | Inr on \<Rightarrow>
       if on AND NOT 1 \<noteq> 0 then Some (reply (Error err) s)
       else do {
         (s, ob) \<leftarrow> lookupStringForBitCommand junk key bitoffset s;
         case ob of None \<Rightarrow> Some s
         | Some p \<Rightarrow> do {
             let bt = drop_bit 3 bitoffset;
             byteval \<leftarrow> get_byte p bt;
             let bit = 7 - (bitoffset AND 7);
             let bitval = (ucast byteval :: u64) AND push_bit bit 1;
             let byteval = (ucast byteval :: u64) AND NOT (push_bit bit 1);
             let byteval = byteval OR push_bit bit (word_of_int (on AND 1));
             p \<leftarrow> put_byte p bt (ucast byteval);
             let s = s\<lparr>keyspace := (keyspace s)(key \<mapsto> RawString p)\<rparr>;
             let s = calls [SignalModifiedKey key, NotifyKeyspaceEvent NOTIFY_STRING ''setbit'' key] s;
             let s = s\<lparr>dirty_count := dirty_count s + 1\<rparr>;
             Some (reply (LongLong (if bitval \<noteq> 0 then 1 else 0)) s) } } }"

definition getbitCommand :: "(nat \<Rightarrow> byte) \<Rightarrow> byte list list \<Rightarrow> bit_server \<Rightarrow> bit_server option" where
  "getbitCommand junk argv s = do {
     key \<leftarrow> arg argv 1;
     a2 \<leftarrow> arg argv 2;
     case getBitOffsetFromArgument a2 False 0 of
       Inl e \<Rightarrow> Some (reply (Error e) s)
     | Inr bitoffset \<Rightarrow>
     case keyspace s key of
       None \<Rightarrow> Some (reply (LongLong 0) s)
     | Some OtherType \<Rightarrow> Some (reply wrongtypeerr s)
     | Some ob \<Rightarrow> do {
         let bt = drop_bit 3 bitoffset;
         let bit = 7 - (bitoffset AND 7);
         p \<leftarrow> (case ob of
           RawString p \<Rightarrow> Some p
         | IntString v \<Rightarrow> do { (llbuf, len) \<leftarrow> ll2string (map junk [0..<32]) 32 v; Some (take len llbuf) }
         | OtherType \<Rightarrow> None);
         bitval \<leftarrow> (if bt < length p then do { c \<leftarrow> get_byte p bt; Some ((ucast c :: u64) AND push_bit bit 1) } else Some 0);
         Some (reply (LongLong (if bitval \<noteq> 0 then 1 else 0)) s) } }"

subsection \<open>BITOP\<close>

datatype bitop = BITOP_AND | BITOP_OR | BITOP_XOR | BITOP_NOT

definition bitop_name :: "byte list \<Rightarrow> bitop option" where
  "bitop_name opname =
     (let c0 = (if opname = [] then 0 else hd opname) in
      if (c0 = 97 \<or> c0 = 65) \<and> strcaseeq opname ''and'' then Some BITOP_AND
      else if (c0 = 111 \<or> c0 = 79) \<and> strcaseeq opname ''or'' then Some BITOP_OR
      else if (c0 = 120 \<or> c0 = 88) \<and> strcaseeq opname ''xor'' then Some BITOP_XOR
      else if (c0 = 110 \<or> c0 = 78) \<and> strcaseeq opname ''not'' then Some BITOP_NOT
      else None)"

fun bitop_lookup :: "(nat \<Rightarrow> byte) \<Rightarrow> bit_server \<Rightarrow> byte list list \<Rightarrow> nat \<Rightarrow> byte list list \<Rightarrow> nat \<Rightarrow> nat \<Rightarrow>
    (byte list list \<times> nat \<times> nat) option option" where
  \<comment> \<open>the loop over the source keys: \<open>j\<close>, the sources so far (empty for a missing key), \<open>maxlen\<close>,
     \<open>minlen\<close>; None inside for a key of another type\<close>
  "bitop_lookup junk s [] j src maxlen minlen = Some (Some (src, maxlen, minlen))"
| "bitop_lookup junk s (k # ks) j src maxlen minlen =
     (case keyspace s k of
        None \<Rightarrow> bitop_lookup junk s ks (j + 1) (src @ [[]]) maxlen 0
      | Some OtherType \<Rightarrow> Some None
      | Some ob \<Rightarrow> do {
          p \<leftarrow> getDecodedObject junk ob;
          let maxlen = (if length p > maxlen then length p else maxlen);
          let minlen = (if j = 0 \<or> length p < minlen then length p else minlen);
          bitop_lookup junk s ks (j + 1) (src @ [p]) maxlen minlen })"

definition word_op :: "bitop \<Rightarrow> 'a::len word \<Rightarrow> 'a word \<Rightarrow> 'a word" where
  \<comment> \<open>\<open>&=\<close>, \<open>|=\<close> and \<open>^=\<close> of the operation; NOT changes nothing in the loops over the other keys\<close>
  "word_op op a b = (case op of BITOP_AND \<Rightarrow> a AND b | BITOP_OR \<Rightarrow> a OR b | BITOP_XOR \<Rightarrow> a XOR b | BITOP_NOT \<Rightarrow> a)"

definition update_word :: "byte_order \<Rightarrow> (u64 \<Rightarrow> u64) \<Rightarrow> byte list \<Rightarrow> nat \<Rightarrow> byte list option" where
  \<comment> \<open>\<open>lres[k] = f(lres[k])\<close> for the word at a byte offset\<close>
  "update_word he f res off = do {
     bs \<leftarrow> mem_read res (int off) 8;
     mem_write res (int off) (obj_bytes he 8 (f (obj_value he bs))) }"

fun fast_words :: "byte_order \<Rightarrow> bitop \<Rightarrow> nat \<Rightarrow> byte list list \<Rightarrow> byte list \<Rightarrow> byte list option" where
  \<comment> \<open>\<open>for (i = 1; i < numkeys; i++)\<close>: four words of every other source at the offset \<open>j\<close>\<close>
  "fast_words he op j [] res = Some res"
| "fast_words he op j (p # ps) res = do {
     let word = (\<lambda>k. mem_read p (int (j + 8 * k)) 8);
     w0 \<leftarrow> word 0; res \<leftarrow> update_word he (\<lambda>a. word_op op a (obj_value he w0)) res j;
     w1 \<leftarrow> word 1; res \<leftarrow> update_word he (\<lambda>a. word_op op a (obj_value he w1)) res (j + 8);
     w2 \<leftarrow> word 2; res \<leftarrow> update_word he (\<lambda>a. word_op op a (obj_value he w2)) res (j + 16);
     w3 \<leftarrow> word 3; res \<leftarrow> update_word he (\<lambda>a. word_op op a (obj_value he w3)) res (j + 24);
     fast_words he op j ps res }"

definition fast_not :: "byte_order \<Rightarrow> nat \<Rightarrow> byte list \<Rightarrow> byte list option" where
  "fast_not he j res = do {
     res \<leftarrow> update_word he (\<lambda>a. NOT a) res j;
     res \<leftarrow> update_word he (\<lambda>a. NOT a) res (j + 8);
     res \<leftarrow> update_word he (\<lambda>a. NOT a) res (j + 16);
     update_word he (\<lambda>a. NOT a) res (j + 24) }"

function bitop_fast :: "byte_order \<Rightarrow> bitop \<Rightarrow> byte list list \<Rightarrow> byte list \<Rightarrow> nat \<Rightarrow> nat \<Rightarrow> (byte list \<times> nat) option" where
  \<comment> \<open>\<open>while(minlen >= sizeof(unsigned long)*4)\<close>: result and \<open>j\<close>\<close>
  "bitop_fast he op ps res j minlen =
     (if minlen \<ge> 32 then do {
        res \<leftarrow> (if op = BITOP_NOT then fast_not he j res else fast_words he op j ps res);
        bitop_fast he op ps res (j + 32) (minlen - 32) }
      else Some (res, j))"
  by auto
termination by (relation "measure (\<lambda>(_, _, _, _, _, minlen). minlen)") auto

declare bitop_fast.simps [simp del]

definition byte_or_zero :: "byte list \<Rightarrow> nat \<Rightarrow> byte" where
  \<comment> \<open>\<open>(len[i] <= j) ? 0 : src[i][j]\<close>\<close>
  "byte_or_zero p j = (if length p \<le> j then 0 else p ! j)"

definition bitop_byte :: "bitop \<Rightarrow> byte list list \<Rightarrow> nat \<Rightarrow> byte" where
  "bitop_byte op srcs j =
     (let output = byte_or_zero (hd srcs) j;
          output = (if op = BITOP_NOT then NOT output else output)
      in foldl (word_op op) output (map (\<lambda>p. byte_or_zero p j) (tl srcs)))"

function bitop_slow :: "bitop \<Rightarrow> byte list list \<Rightarrow> nat \<Rightarrow> byte list \<Rightarrow> nat \<Rightarrow> byte list option" where
  \<comment> \<open>\<open>for (; j < maxlen; j++)\<close>\<close>
  "bitop_slow op srcs maxlen res j =
     (if j < maxlen then do { res \<leftarrow> put_byte res j (bitop_byte op srcs j); bitop_slow op srcs maxlen res (j + 1) }
      else Some res)"
  by auto
termination by (relation "measure (\<lambda>(_, _, maxlen, _, j). maxlen - j)") auto

declare bitop_slow.simps [simp del]

definition bitop_compute :: "byte_order \<Rightarrow> bitop \<Rightarrow> byte list list \<Rightarrow> nat \<Rightarrow> nat \<Rightarrow> byte list option" where
  \<comment> \<open>the block under \<open>if (maxlen)\<close>, with the fast path compiled in\<close>
  "bitop_compute he op srcs maxlen minlen = do {
     let res = replicate maxlen 0;
     (res, j) \<leftarrow>
       (if minlen \<ge> 32 \<and> length srcs \<le> 16 then do {
          bs \<leftarrow> mem_read (hd srcs) 0 minlen;
          res \<leftarrow> mem_write res 0 bs;
          bitop_fast he op (tl srcs) res 0 minlen }
        else Some (res, 0));
     bitop_slow op srcs maxlen res j }"

definition bitopCommand :: "(nat \<Rightarrow> byte) \<Rightarrow> byte_order \<Rightarrow> byte list list \<Rightarrow> bit_server \<Rightarrow> bit_server option" where
  "bitopCommand junk he argv s = do {
     opname \<leftarrow> arg argv 1;
     targetkey \<leftarrow> arg argv 2;
     case bitop_name opname of
       None \<Rightarrow> Some (reply syntaxerr s)
     | Some op \<Rightarrow>
       if op = BITOP_NOT \<and> length argv \<noteq> 4
       then Some (reply (Error ''BITOP NOT must be called with a single source key.'') s)
       else do {
         r \<leftarrow> bitop_lookup junk s (drop 3 argv) 0 [] 0 0;
         case r of
           None \<Rightarrow> Some (reply wrongtypeerr s)
         | Some (srcs, maxlen, minlen) \<Rightarrow> do {
             s \<leftarrow>
               (if maxlen \<noteq> 0 then do {
                  res \<leftarrow> bitop_compute he op srcs maxlen minlen;
                  let s = setKey targetkey (RawString res) s;
                  Some (calls [NotifyKeyspaceEvent NOTIFY_STRING ''set'' targetkey] s) }
                else if keyspace s targetkey \<noteq> None then
                  Some (calls [SignalModifiedKey targetkey, NotifyKeyspaceEvent NOTIFY_GENERIC ''del'' targetkey]
                    (s\<lparr>keyspace := (keyspace s)(targetkey := None)\<rparr>))
                else Some s);
             let s = s\<lparr>dirty_count := dirty_count s + 1\<rparr>;
             Some (reply (LongLong (int maxlen)) s) } } }"

subsection \<open>BITCOUNT and BITPOS\<close>

definition clip_range :: "int \<Rightarrow> int \<Rightarrow> int \<Rightarrow> int \<times> int" where
  \<comment> \<open>\<open>Convert negative indexes\<close>, with the length of the string last\<close>
  "clip_range start end len =
     (let start = (if start < 0 then len + start else start);
          end = (if end < 0 then len + end else end);
          start = (if start < 0 then 0 else start);
          end = (if end < 0 then 0 else end);
          end = (if end \<ge> len then len - 1 else end)
      in (start, end))"

definition count_range :: "byte_order \<Rightarrow> nat \<Rightarrow> byte list \<Rightarrow> int \<Rightarrow> int \<Rightarrow> int option" where
  \<comment> \<open>the reply for a range; the string is at the address \<open>addr\<close>\<close>
  "count_range he addr p start end =
     (if start > end then Some 0
      else do {
        let bytes = end - start + 1;
        bs \<leftarrow> mem_read p start (nat bytes);
        Some (int (redisPopcount he (addr + nat start) bs)) })"

definition bitcountCommand :: "(nat \<Rightarrow> byte) \<Rightarrow> byte_order \<Rightarrow> nat \<Rightarrow> byte list list \<Rightarrow> bit_server \<Rightarrow> bit_server option" where
  "bitcountCommand junk he addr argv s = do {
     key \<leftarrow> arg argv 1;
     case keyspace s key of
       None \<Rightarrow> Some (reply (LongLong 0) s)
     | Some OtherType \<Rightarrow> Some (reply wrongtypeerr s)
     | Some ob \<Rightarrow> do {
         p \<leftarrow> getObjectReadOnlyString junk ob;
         let len = int (length p);
         if length argv = 4 then do {
           a2 \<leftarrow> arg argv 2;
           a3 \<leftarrow> arg argv 3;
           case getLongFromObjectOrReply a2 None of
             Inl e \<Rightarrow> Some (reply (Error e) s)
           | Inr start \<Rightarrow>
           case getLongFromObjectOrReply a3 None of
             Inl e \<Rightarrow> Some (reply (Error e) s)
           | Inr end \<Rightarrow>
             if start < 0 \<and> end < 0 \<and> start > end then Some (reply (LongLong 0) s)
             else do {
               let (start, end) = clip_range start end len;
               n \<leftarrow> count_range he addr p start end;
               Some (reply (LongLong n) s) } }
         else if length argv = 2 then do {
           n \<leftarrow> count_range he addr p 0 (len - 1);
           Some (reply (LongLong n) s) }
         else Some (reply syntaxerr s) } }"

definition pos_range :: "byte_order \<Rightarrow> nat \<Rightarrow> byte list \<Rightarrow> bool \<Rightarrow> bool \<Rightarrow> int \<Rightarrow> int \<Rightarrow> int option" where
  "pos_range he addr p b end_given start end =
     (if start > end then Some (- 1)
      else do {
        let bytes = end - start + 1;
        bs \<leftarrow> mem_read p start (nat bytes);
        pos \<leftarrow> redisBitpos he (addr + nat start) bs b;
        Some (if end_given \<and> \<not> b \<and> pos = bytes * 8 then - 1
          else if pos \<noteq> - 1 then pos + start * 8 else pos) })"

definition bitposCommand :: "(nat \<Rightarrow> byte) \<Rightarrow> byte_order \<Rightarrow> nat \<Rightarrow> byte list list \<Rightarrow> bit_server \<Rightarrow> bit_server option" where
  "bitposCommand junk he addr argv s = do {
     key \<leftarrow> arg argv 1;
     a2 \<leftarrow> arg argv 2;
     case getLongFromObjectOrReply a2 None of
       Inl e \<Rightarrow> Some (reply (Error e) s)
     | Inr b \<Rightarrow>
       if b \<noteq> 0 \<and> b \<noteq> 1 then Some (reply (Error ''The bit argument must be 1 or 0.'') s)
       else case keyspace s key of
         None \<Rightarrow> Some (reply (LongLong (if b \<noteq> 0 then - 1 else 0)) s)
       | Some OtherType \<Rightarrow> Some (reply wrongtypeerr s)
       | Some ob \<Rightarrow> do {
           p \<leftarrow> getObjectReadOnlyString junk ob;
           let len = int (length p);
           if length argv = 4 \<or> length argv = 5 then do {
             a3 \<leftarrow> arg argv 3;
             case getLongFromObjectOrReply a3 None of
               Inl e \<Rightarrow> Some (reply (Error e) s)
             | Inr start \<Rightarrow>
             case (if length argv = 5 then getLongFromObjectOrReply (argv ! 4) None else Inr (len - 1)) of
               Inl e \<Rightarrow> Some (reply (Error e) s)
             | Inr end \<Rightarrow> do {
                 let (start, end) = clip_range start end len;
                 n \<leftarrow> pos_range he addr p (b \<noteq> 0) (length argv = 5) start end;
                 Some (reply (LongLong n) s) } }
           else if length argv = 3 then do {
             n \<leftarrow> pos_range he addr p (b \<noteq> 0) False 0 (len - 1);
             Some (reply (LongLong n) s) }
           else Some (reply syntaxerr s) } }"

subsection \<open>BITFIELD\<close>

datatype bitfield_opcode = BITFIELDOP_GET | BITFIELDOP_SET | BITFIELDOP_INCRBY

record bitfieldOp =
  op_offset :: nat
  op_i64 :: int
  opcode :: bitfield_opcode
  op_owtype :: owtype
  op_bits :: nat
  op_sign :: bool

definition overflow_name :: "byte list \<Rightarrow> owtype option" where
  "overflow_name owtypename =
     (if strcaseeq owtypename ''wrap'' then Some BFOVERFLOW_WRAP
      else if strcaseeq owtypename ''sat'' then Some BFOVERFLOW_SAT
      else if strcaseeq owtypename ''fail'' then Some BFOVERFLOW_FAIL
      else None)"

definition opcode_name :: "byte list \<Rightarrow> nat \<Rightarrow> bitfield_opcode option" where
  \<comment> \<open>of the subcommand and the number of arguments after it\<close>
  "opcode_name subcmd remargs =
     (if strcaseeq subcmd ''get'' \<and> remargs \<ge> 2 then Some BITFIELDOP_GET
      else if strcaseeq subcmd ''set'' \<and> remargs \<ge> 3 then Some BITFIELDOP_SET
      else if strcaseeq subcmd ''incrby'' \<and> remargs \<ge> 3 then Some BITFIELDOP_INCRBY
      else None)"

function bitfield_parse :: "byte list list \<Rightarrow> owtype \<Rightarrow> bool \<Rightarrow> nat \<Rightarrow> bitfieldOp list \<Rightarrow>
    reply_part + (bitfieldOp list \<times> bool \<times> nat)" where
  \<comment> \<open>the loop over the arguments from \<open>argv[j]\<close> on: \<open>owtype\<close>, \<open>readonly\<close>, \<open>higest_write_offset\<close>, \<open>ops\<close>\<close>
  "bitfield_parse [] owtype readonly highest ops = Inr (ops, readonly, highest)"
| "bitfield_parse (subcmd # rest) owtype readonly highest ops =
     (case opcode_name subcmd (length rest) of
        None \<Rightarrow>
          if strcaseeq subcmd ''overflow'' \<and> length rest \<ge> 1 then
            (case overflow_name (hd rest) of
               None \<Rightarrow> Inl (Error ''Invalid OVERFLOW type specified'')
             | Some ow \<Rightarrow> bitfield_parse (drop 1 rest) ow readonly highest ops)
          else Inl syntaxerr
      | Some opc \<Rightarrow>
        case getBitfieldTypeFromArgument (rest ! 0) of
          Inl e \<Rightarrow> Inl (Error e)
        | Inr (sign, bits) \<Rightarrow>
        case getBitOffsetFromArgument (rest ! 1) True bits of
          Inl e \<Rightarrow> Inl (Error e)
        | Inr bitoffset \<Rightarrow>
          if opc = BITFIELDOP_GET then
            bitfield_parse (drop 2 rest) owtype readonly highest
              (ops @ [\<lparr>op_offset = bitoffset, op_i64 = 0, opcode = opc, op_owtype = owtype, op_bits = bits, op_sign = sign\<rparr>])
          else
            let highest = (if highest < bitoffset + bits - 1 then bitoffset + bits - 1 else highest) in
            case getLongLongFromObjectOrReply (rest ! 2) None of
              Inl e \<Rightarrow> Inl (Error e)
            | Inr v \<Rightarrow>
              bitfield_parse (drop 3 rest) owtype False highest
                (ops @ [\<lparr>op_offset = bitoffset, op_i64 = v, opcode = opc, op_owtype = owtype, op_bits = bits, op_sign = sign\<rparr>]))"
  by pat_completeness auto
termination by (relation "measure (\<lambda>(args, _). length args)") auto

definition signed_write :: "int \<Rightarrow> bitfieldOp \<Rightarrow> byte list \<Rightarrow> (byte list \<times> reply_part) option" where
  \<comment> \<open>SET and INCRBY of a signed field; \<open>uninit\<close> is what \<open>wrapped\<close> holds when the check stores nothing\<close>
  "signed_write uninit thisop p = do {
     oldval \<leftarrow> getSignedBitfield p (op_offset thisop) (op_bits thisop);
     (newval, overflow, retval) \<leftarrow>
       (if opcode thisop = BITFIELDOP_INCRBY then do {
          let newval = i64 (oldval + op_i64 thisop);
          (overflow, wrapped) \<leftarrow> checkSignedBitfieldOverflow oldval (op_i64 thisop) (op_bits thisop) (op_owtype thisop);
          let newval = (if overflow \<noteq> 0 then (case wrapped of Some w \<Rightarrow> w | None \<Rightarrow> uninit) else newval);
          Some (newval, overflow, newval) }
        else do {
          let newval = op_i64 thisop;
          (overflow, wrapped) \<leftarrow> checkSignedBitfieldOverflow newval 0 (op_bits thisop) (op_owtype thisop);
          let newval = (if overflow \<noteq> 0 then (case wrapped of Some w \<Rightarrow> w | None \<Rightarrow> uninit) else newval);
          Some (newval, overflow, oldval) });
     if \<not> (overflow \<noteq> 0 \<and> op_owtype thisop = BFOVERFLOW_FAIL) then do {
       p \<leftarrow> setSignedBitfield p (op_offset thisop) (op_bits thisop) newval;
       Some (p, LongLong retval) }
     else Some (p, NullBulk) }"

definition unsigned_write :: "u64 \<Rightarrow> bitfieldOp \<Rightarrow> byte list \<Rightarrow> (byte list \<times> reply_part) option" where
  "unsigned_write uninit thisop p = do {
     oldval \<leftarrow> getUnsignedBitfield p (op_offset thisop) (op_bits thisop);
     (newval, overflow, retval) \<leftarrow>
       (if opcode thisop = BITFIELDOP_INCRBY then do {
          let newval = oldval + word_of_int (op_i64 thisop);
          (overflow, wrapped) \<leftarrow> checkUnsignedBitfieldOverflow oldval (op_i64 thisop) (op_bits thisop) (op_owtype thisop);
          let newval = (if overflow \<noteq> 0 then (case wrapped of Some w \<Rightarrow> w | None \<Rightarrow> uninit) else newval);
          Some (newval, overflow, newval) }
        else do {
          let newval = word_of_int (op_i64 thisop);
          (overflow, wrapped) \<leftarrow> checkUnsignedBitfieldOverflow newval 0 (op_bits thisop) (op_owtype thisop);
          let newval = (if overflow \<noteq> 0 then (case wrapped of Some w \<Rightarrow> w | None \<Rightarrow> uninit) else newval);
          Some (newval, overflow, oldval) });
     if \<not> (overflow \<noteq> 0 \<and> op_owtype thisop = BFOVERFLOW_FAIL) then do {
       p \<leftarrow> setUnsignedBitfield p (op_offset thisop) (op_bits thisop) newval;
       Some (p, LongLong (sint retval)) }
     else Some (p, NullBulk) }"

definition field_buffer :: "byte list \<Rightarrow> nat \<Rightarrow> byte list" where
  \<comment> \<open>the nine bytes from \<open>byte\<close> on, zero padded\<close>
  "field_buffer src bt = map (\<lambda>i. if i + bt \<ge> length src then 0 else src ! (i + bt)) [0..<9]"

definition field_get :: "bitfieldOp \<Rightarrow> byte list \<Rightarrow> reply_part option" where
  \<comment> \<open>GET on the contents of the object, empty without one\<close>
  "field_get thisop src = do {
     let bt = drop_bit 3 (op_offset thisop);
     let buf = field_buffer src bt;
     if op_sign thisop then do {
       val \<leftarrow> getSignedBitfield buf (op_offset thisop - bt * 8) (op_bits thisop);
       Some (LongLong val) }
     else do {
       val \<leftarrow> getUnsignedBitfield buf (op_offset thisop - bt * 8) (op_bits thisop);
       Some (LongLong (sint val)) } }"

fun bitfield_exec :: "int \<Rightarrow> bitfieldOp list \<Rightarrow> byte list \<Rightarrow> (byte list \<times> reply_part list \<times> nat) option" where
  \<comment> \<open>the loop over the operations: contents, replies, \<open>changes\<close>\<close>
  "bitfield_exec uninit [] p = Some (p, [], 0)"
| "bitfield_exec uninit (thisop # ops) p = do {
     (p, r, n) \<leftarrow>
       (if opcode thisop = BITFIELDOP_SET \<or> opcode thisop = BITFIELDOP_INCRBY then do {
          (p, r) \<leftarrow> (if op_sign thisop then signed_write uninit thisop p else unsigned_write (word_of_int uninit) thisop p);
          Some (p, r, 1) }
        else do { r \<leftarrow> field_get thisop p; Some (p, r, 0) });
     (p, rs, changes) \<leftarrow> bitfield_exec uninit ops p;
     Some (p, r # rs, n + changes) }"

definition bitfieldCommand :: "(nat \<Rightarrow> byte) \<Rightarrow> int \<Rightarrow> byte list list \<Rightarrow> bit_server \<Rightarrow> bit_server option" where
  "bitfieldCommand junk uninit argv s = do {
     key \<leftarrow> arg argv 1;
     case bitfield_parse (drop 2 argv) BFOVERFLOW_WRAP True 0 [] of
       Inl e \<Rightarrow> Some (reply e s)
     | Inr (ops, readonly, highest) \<Rightarrow> do {
         (s, ob) \<leftarrow>
           (if readonly then
              (case keyspace s key of
                 None \<Rightarrow> Some (s, Some [])
               | Some OtherType \<Rightarrow> Some (reply wrongtypeerr s, None)
               | Some ob \<Rightarrow> do { src \<leftarrow> getObjectReadOnlyString junk ob; Some (s, Some src) })
            else lookupStringForBitCommand junk key highest s);
         case ob of None \<Rightarrow> Some s
         | Some p \<Rightarrow> do {
             let s = reply (MbulkHdr (length ops)) s;
             (p, rs, changes) \<leftarrow> bitfield_exec uninit ops p;
             let s = s\<lparr>replies := replies s @ rs\<rparr>;
             Some (if changes > 0 then
                 calls [SignalModifiedKey key, NotifyKeyspaceEvent NOTIFY_STRING ''setbit'' key]
                   (s\<lparr>keyspace := (keyspace s)(key \<mapsto> RawString p), dirty_count := dirty_count s + changes\<rparr>)
               else s) } } }"

section \<open>What the commands do to strings as bits\<close>

subsection \<open>Objects\<close>

definition contents :: "robj \<Rightarrow> byte list" where
  "contents ob = (case ob of RawString p \<Rightarrow> p | IntString v \<Rightarrow> dec v | OtherType \<Rightarrow> [])"

definition string_at :: "bit_server \<Rightarrow> byte list \<Rightarrow> byte list" where
  \<comment> \<open>a missing key reads like an empty string\<close>
  "string_at s key = (case keyspace s key of None \<Rightarrow> [] | Some ob \<Rightarrow> contents ob)"

definition wf_server :: "bit_server \<Rightarrow> bool" where
  \<comment> \<open>numbers kept in the pointer of an object have 64 bits\<close>
  "wf_server s \<longleftrightarrow> (\<forall>key v. keyspace s key = Some (IntString v) \<longrightarrow> LLONG_MIN \<le> v \<and> v \<le> LLONG_MAX)"

definition sbit :: "byte list \<Rightarrow> nat \<Rightarrow> bool" where
  \<comment> \<open>bit k of a string that is continued with zeros\<close>
  "sbit p k \<longleftrightarrow> k < 8 * length p \<and> bit_at p k"

lemma sbit_pad: "sbit (p @ replicate n 0) k \<longleftrightarrow> sbit p k"
proof (cases "k div 8 < length p")
  case True
  then show ?thesis by (auto simp: sbit_def bit_at_def nth_append)
next
  case False
  then show ?thesis by (auto simp: sbit_def bit_at_def nth_append nth_replicate)
qed

lemma contents_range: "wf_server s \<Longrightarrow> keyspace s key = Some (IntString v) \<Longrightarrow> LLONG_MIN \<le> v \<and> v \<le> LLONG_MAX"
  by (auto simp: wf_server_def)

lemma dec_length: "LLONG_MIN \<le> v \<Longrightarrow> v \<le> LLONG_MAX \<Longrightarrow> length (dec v) < 21"
proof -
  assume v: "LLONG_MIN \<le> v" "v \<le> LLONG_MAX"
  then have "nat v < 10 ^ Suc 18" "nat (- v) < 10 ^ Suc 18" by (simp_all add: LLONG_MIN_def LLONG_MAX_def)
  then show ?thesis using dec_nat_length_le [of "nat v" 18] dec_nat_length_le [of "nat (- v)" 18] by (auto simp: dec_def)
qed

lemma dec_no_nul: "0 \<notin> set (dec v)"
  using dec_nat_clean(2) by (auto simp: dec_def)

lemma object_bytes:
  assumes "ob \<noteq> OtherType" and "\<And>v. ob = IntString v \<Longrightarrow> LLONG_MIN \<le> v \<and> v \<le> LLONG_MAX"
  shows "getDecodedObject junk ob = Some (contents ob)" "getObjectReadOnlyString junk ob = Some (contents ob)"
    "dbUnshareStringValue junk ob = Some (contents ob)"
proof -
  have tw: "takeWhile (\<lambda>c. c \<noteq> 0) (dec v @ 0 # r) = dec v" for v and r :: "byte list"
    using dec_no_nul [of v] by (simp add: takeWhile_append)
  show 1: "getDecodedObject junk ob = Some (contents ob)"
    using assms ll2string_ok [of _ 32 "map junk [0..<32]"] dec_length
    by (cases ob) (fastforce simp: getDecodedObject_def contents_def tw)+
  show "getObjectReadOnlyString junk ob = Some (contents ob)"
    using assms ll2string_ok [of _ 21 "map junk [0..<21]"] dec_length
    by (cases ob) (fastforce simp: getObjectReadOnlyString_def contents_def)+
  show "dbUnshareStringValue junk ob = Some (contents ob)" using 1 assms(1) by (simp add: dbUnshareStringValue_def)
qed

lemma lookup_ok:
  assumes "wf_server s" and "keyspace s key \<noteq> Some OtherType"
  obtains p where "lookupStringForBitCommand junk key n s = Some (s\<lparr>keyspace := (keyspace s)(key \<mapsto> RawString p)\<rparr>, Some p)"
    "n < 8 * length p" "\<And>k. sbit p k \<longleftrightarrow> sbit (string_at s key) k"
proof -
  let ?p = "string_at s key @ replicate (n div 8 + 1 - length (string_at s key)) 0"
  have n: "n < 8 * length ?p"
  proof -
    have "n div 8 + 1 \<le> length ?p" by simp
    then show ?thesis by (simp add: div_less_iff_less_mult mult.commute) 
  qed
  have "lookupStringForBitCommand junk key n s = Some (s\<lparr>keyspace := (keyspace s)(key \<mapsto> RawString ?p)\<rparr>, Some ?p)"
  proof (cases "keyspace s key")
    case None
    then show ?thesis by (simp add: lookupStringForBitCommand_def byte_index Let_def string_at_def)
  next
    case (Some ob)
    have "dbUnshareStringValue junk ob = Some (contents ob)"
      using assms Some contents_range by (intro object_bytes(3)) auto
    then show ?thesis using Some assms(2)
      by (auto simp: lookupStringForBitCommand_def byte_index Let_def string_at_def)
  qed
  then show ?thesis using that n sbit_pad by blast
qed

subsection \<open>SETBIT and GETBIT\<close>

lemma getbit_ok:
  assumes "wf_server s" and "keyspace s key \<noteq> Some OtherType" and "getBitOffsetFromArgument off False 0 = Inr k"
  shows "getbitCommand junk [cmd, key, off] s = Some (reply (LongLong (of_bool (sbit (string_at s key) k))) s)"
proof (cases "keyspace s key")
  case None
  then show ?thesis using assms(3) by (simp add: getbitCommand_def arg_def string_at_def sbit_def)
next
  case (Some ob)
  have *: "(case ob of RawString p \<Rightarrow> Some p
      | IntString v \<Rightarrow> do { (llbuf, len) \<leftarrow> ll2string (map junk [0..<32]) 32 v; Some (take len llbuf) }
      | OtherType \<Rightarrow> None) = Some (contents ob)"
    using assms(1,2) Some contents_range [OF assms(1)] ll2string_ok [of _ 32 "map junk [0..<32]"] dec_length
    by (cases ob) (fastforce simp: contents_def)+
  have r: "getbitCommand junk [cmd, key, off] s = do {
      p \<leftarrow> Some (contents ob);
      bitval \<leftarrow> (if k div 8 < length p then do { c \<leftarrow> get_byte p (k div 8); Some ((ucast c :: u64) AND push_bit (7 - k mod 8) 1) } else Some 0);
      Some (reply (LongLong (if bitval \<noteq> 0 then 1 else 0)) s) }"
    using Some assms(2,3) unfolding * [symmetric]
    by (cases ob) (simp_all add: getbitCommand_def arg_def byte_index Let_def del: push_bit_of_1)
  have "k div 8 < length (contents ob) \<longleftrightarrow> k < 8 * length (contents ob)" by (simp add: div_less_iff_less_mult mult.commute)
  then show ?thesis unfolding r
    by (simp add: get_byte_def and_bit string_at_def Some sbit_def bit_at_def bit_ucast_iff del: push_bit_of_1)
qed

lemma setbit_ok:
  assumes "wf_server s" and "keyspace s key \<noteq> Some OtherType" and "getBitOffsetFromArgument off False 0 = Inr n"
    and "string2ll val = Some (of_bool v)"
  obtains p where "setbitCommand junk [cmd, key, off, val] s =
      Some (s\<lparr>keyspace := (keyspace s)(key \<mapsto> RawString p), dirty_count := dirty_count s + 1,
        call_log := call_log s @ [SignalModifiedKey key, NotifyKeyspaceEvent NOTIFY_STRING ''setbit'' key],
        replies := replies s @ [LongLong (of_bool (sbit (string_at s key) n))]\<rparr>)"
    "\<And>k. sbit p k \<longleftrightarrow> (if k = n then v else sbit (string_at s key) k)"
proof -
  obtain p where p: "lookupStringForBitCommand junk key n s = Some (s\<lparr>keyspace := (keyspace s)(key \<mapsto> RawString p)\<rparr>, Some p)"
    "n < 8 * length p" "\<And>k. sbit p k \<longleftrightarrow> sbit (string_at s key) k"
    using lookup_ok [OF assms(1,2)] by metis
  let ?c = "ucast ((ucast (p ! (n div 8)) :: u64) AND NOT (push_bit (7 - n mod 8) 1) OR push_bit (7 - n mod 8) (of_bool v)) :: byte"
  let ?p = "p[n div 8 := ?c]"
  have i: "n div 8 < length p" using p(2) by (simp add: div_less_iff_less_mult mult.commute)
  have on: "(of_bool v :: int) AND NOT 1 = 0" "(of_bool v :: int) AND 1 = of_bool v" by (cases v; simp)+
  have long: "getLongFromObjectOrReply val msg = Inr (of_bool v)" for msg
    using assms(4) by (cases v) (simp_all add: getLongFromObjectOrReply_def getLongLongFromObjectOrReply_def getLongLongFromObject_def LLONG_MIN_def LLONG_MAX_def)
  have old: "(ucast (p ! (n div 8)) :: u64) AND push_bit (7 - n mod 8) 1 \<noteq> 0 \<longleftrightarrow> sbit (string_at s key) n"
    unfolding and_bit p(3) [symmetric] using p(2) by (auto simp: sbit_def bit_at_def bit_ucast_iff dest: bit_imp_le_length)
  have "setbitCommand junk [cmd, key, off, val] s =
      Some (s\<lparr>keyspace := (keyspace s)(key \<mapsto> RawString ?p), dirty_count := dirty_count s + 1,
        call_log := call_log s @ [SignalModifiedKey key, NotifyKeyspaceEvent NOTIFY_STRING ''setbit'' key],
        replies := replies s @ [LongLong (of_bool (sbit (string_at s key) n))]\<rparr>)"
    using i p(1) assms(3) old
    by (simp add: setbitCommand_def arg_def long on get_byte_def put_byte_def byte_index Let_def reply_def calls_def del: push_bit_of_1)
  moreover have "sbit ?p k \<longleftrightarrow> (if k = n then v else sbit (string_at s key) k)" for k
  proof -
    have "bit ?c j \<longleftrightarrow> (if j = 7 - n mod 8 then v else bit (p ! (n div 8)) j)" for j
    proof -
      have low: "ucast (x AND 0xFF) = (ucast x :: byte)" for x :: u64
      proof (rule bit_word_eqI)
        have m: "(0xFF :: u64) = mask 8" by (simp add: mask_eq_exp_minus_1)
        fix j assume "j < LENGTH(8)"
        then show "bit (ucast (x AND 0xFF) :: byte) j = bit (ucast x :: byte) j"
          unfolding m by (simp add: bit_ucast_iff bit_and_iff bit_mask_iff)
      qed
      show ?thesis using set_bit_of_byte [of "7 - n mod 8" "p ! (n div 8)" v j] unfolding low by simp
    qed
    then have "bit_at ?p k \<longleftrightarrow> (if k = n then v else bit_at p k)" by (rule bit_at_update [OF i])
    then show ?thesis using p(2) unfolding p(3) [symmetric] by (auto simp: sbit_def)
  qed
  ultimately show ?thesis by (rule that)
qed

subsection \<open>BITOP\<close>

text \<open>An operation on words acts on their bytes.\<close>

lemma word_op_bytes:
  assumes "length a = 8" "length b = 8"
  shows "obj_bytes he 8 (word_op op (obj_value he a) (obj_value he b) :: u64) = map2 (word_op op) a b"
proof -
  have le: "le_encode 8 (word_op op (le_decode a) (le_decode b) :: u64) = map2 (word_op op) a b"
    if "length a = 8" "length b = 8" for a b :: "byte list"
  proof (rule nth_equalityI)
    fix i assume "i < length (le_encode 8 (word_op op (le_decode a) (le_decode b) :: u64))"
    then have i: "i < 8" by simp
    show "le_encode 8 (word_op op (le_decode a) (le_decode b) :: u64) ! i = map2 (word_op op) a b ! i"
    proof (rule bit_word_eqI)
      fix k assume "k < LENGTH(8)"
      then have k: "k < 8" by simp
      then have "(8 * i + k) div 8 = i" "(8 * i + k) mod 8 = k" "8 * i + k < 64" using i by auto
      then show "bit (le_encode 8 (word_op op (le_decode a) (le_decode b) :: u64) ! i) k = bit (map2 (word_op op) a b ! i) k"
        using i k that by (cases op)
          (simp_all add: nth_le_encode word_op_def bit_ucast_iff bit_drop_bit_eq bit_and_iff bit_or_iff bit_xor_iff bit_le_decode
            del: le_decode.simps)
    qed
  qed (use that in simp)
  show ?thesis
    using le [OF assms] le [of "rev a" "rev b"] assms
    by (cases he) (simp_all add: obj_bytes_def obj_value_def zip_rev rev_map [symmetric])
qed

lemma word_not_bytes:
  assumes "length a = 8"
  shows "obj_bytes he 8 (NOT (obj_value he a) :: u64) = map (\<lambda>x. NOT x) a"
proof -
  have "NOT (obj_value he a :: u64) = word_op BITOP_XOR (obj_value he a) (obj_value he (replicate 8 (- 1)))"
  proof -
    have "(obj_value he (replicate 8 (- 1)) :: u64) = - 1"
    proof (rule bit_word_eqI)
      fix k assume "k < LENGTH(64)"
      then have "k < 64" "k div 8 < 8" by auto
      then show "bit (obj_value he (replicate 8 (- 1)) :: u64) k = bit (- 1 :: u64) k"
        by (cases he) (simp_all add: obj_value_def bit_le_decode del: le_decode.simps)
    qed
    then show ?thesis by (simp add: word_op_def)
  qed
  then have "obj_bytes he 8 (NOT (obj_value he a) :: u64) = map2 (word_op BITOP_XOR) a (replicate 8 (- 1))"
    using word_op_bytes [of a "replicate 8 (- 1)" he BITOP_XOR] assms by simp
  also have "\<dots> = map (\<lambda>x. NOT x) a"
    by (rule nth_equalityI) (use assms in \<open>simp_all add: word_op_def nth_replicate\<close>)
  finally show ?thesis .
qed

text \<open>A change of a range of positions, each from its old value.\<close>

definition upd_range :: "(nat \<Rightarrow> 'a \<Rightarrow> 'a) \<Rightarrow> nat \<Rightarrow> nat \<Rightarrow> 'a list \<Rightarrow> 'a list" where
  "upd_range f a b xs = map (\<lambda>i. if a \<le> i \<and> i < b then f i (xs ! i) else xs ! i) [0..<length xs]"

lemma length_upd_range [simp]: "length (upd_range f a b xs) = length xs"
  by (simp add: upd_range_def)

lemma nth_upd_range: "i < length xs \<Longrightarrow> upd_range f a b xs ! i = (if a \<le> i \<and> i < b then f i (xs ! i) else xs ! i)"
  by (simp add: upd_range_def)

lemma upd_range_empty [simp]: "upd_range f a a xs = xs"
  by (rule nth_equalityI) (auto simp: nth_upd_range)

lemma upd_range_append: "a \<le> b \<Longrightarrow> b \<le> c \<Longrightarrow> upd_range f b c (upd_range f a b xs) = upd_range f a c xs"
  by (rule nth_equalityI) (auto simp: nth_upd_range)

lemma upd_range_four:
  "upd_range f (j + 24) (32 + j) (upd_range f (j + 16) (24 + j) (upd_range f j (16 + j) xs)) = upd_range f j (j + 32) xs"
  by (rule nth_equalityI) (auto simp: nth_upd_range)

lemma upd_range_compose: "upd_range g a b (upd_range f a b xs) = upd_range (\<lambda>i x. g i (f i x)) a b xs"
  by (rule nth_equalityI) (auto simp: nth_upd_range)

lemma update_word_ok:
  assumes "off + 8 \<le> length res" and "length (f' (take 8 (drop off res))) = 8"
    and "obj_bytes he 8 (f (obj_value he (take 8 (drop off res)))) = f' (take 8 (drop off res))"
    and "\<And>k. k < 8 \<Longrightarrow> f' (take 8 (drop off res)) ! k = g (off + k) (res ! (off + k))"
  shows "update_word he f res off = Some (upd_range g off (off + 8) res)"
proof -
  have "update_word he f res off = Some (take off res @ f' (take 8 (drop off res)) @ drop (off + 8) res)"
    using assms(1-3) by (simp add: update_word_def mem_read_Some mem_write_Some del: drop_drop)
  also have "take off res @ f' (take 8 (drop off res)) @ drop (off + 8) res = upd_range g off (off + 8) res"
  proof (rule nth_equalityI)
    fix i assume "i < length (take off res @ f' (take 8 (drop off res)) @ drop (off + 8) res)"
    then have "i < length res" using assms(1,2) by simp
    then show "(take off res @ f' (take 8 (drop off res)) @ drop (off + 8) res) ! i = upd_range g off (off + 8) res ! i"
      using assms(1,2) assms(4) [of "i - off"] by (auto simp: nth_append nth_upd_range)
  qed (use assms(1,2) in simp)
  finally show ?thesis .
qed

lemma update_word_op:
  assumes "off + 8 \<le> length res" "off + 8 \<le> length p"
  shows "update_word he (\<lambda>a. word_op op a (obj_value he (take 8 (drop off p)))) res off =
    Some (upd_range (\<lambda>i x. word_op op x (p ! i)) off (off + 8) res)"
  by (rule update_word_ok [where f' = "\<lambda>a. map2 (word_op op) a (take 8 (drop off p))"])
    (use assms in \<open>simp_all add: word_op_bytes\<close>)

lemma update_word_not:
  "off + 8 \<le> length res \<Longrightarrow> update_word he (\<lambda>a. NOT a) res off = Some (upd_range (\<lambda>i x. NOT x) off (off + 8) res)"
  by (rule update_word_ok [where f' = "map (\<lambda>x. NOT x)"]) (simp_all add: word_not_bytes)

lemma fast_not_ok: "j + 32 \<le> length res \<Longrightarrow> fast_not he j res = Some (upd_range (\<lambda>i x. NOT x) j (j + 32) res)"
  using update_word_not [of j res he] update_word_not [of "j + 8" _ he] update_word_not [of "j + 16" _ he] update_word_not [of "j + 24" _ he]
  by (simp add: fast_not_def upd_range_append upd_range_four)

lemma fast_words_ok:
  "j + 32 \<le> length res \<Longrightarrow> \<forall>p\<in>set ps. j + 32 \<le> length p \<Longrightarrow>
    fast_words he op j ps res = Some (upd_range (\<lambda>i x. foldl (word_op op) x (map (\<lambda>p. p ! i) ps)) j (j + 32) res)"
proof (induction ps arbitrary: res)
  case Nil
  have "upd_range (\<lambda>i x. x) j (j + 32) res = res" by (rule nth_equalityI) (auto simp: nth_upd_range)
  then show ?case by simp
next
  case (Cons p ps)
  let ?f = "\<lambda>i x. word_op op x (p ! i)"
  have u: "update_word he (\<lambda>a. word_op op a (obj_value he (take 8 (drop off p)))) r off = Some (upd_range ?f off (off + 8) r)"
    if "off + 8 \<le> j + 32" "length r = length res" for off r
    using that Cons.prems by (intro update_word_op) auto
  have "fast_words he op j (p # ps) res = fast_words he op j ps (upd_range ?f j (j + 32) res)"
    using Cons.prems u [of j res] u [of "j + 8"] u [of "j + 16"] u [of "j + 24"]
      mem_read_Some [of j 8 p] mem_read_Some [of "j + 8" 8 p] mem_read_Some [of "j + 16" 8 p] mem_read_Some [of "j + 24" 8 p]
    by (simp add: upd_range_append upd_range_four)
  then show ?case using Cons.IH [of "upd_range ?f j (j + 32) res"] Cons.prems by (simp add: upd_range_compose)
qed

definition fast_value :: "bitop \<Rightarrow> byte list list \<Rightarrow> nat \<Rightarrow> byte \<Rightarrow> byte" where
  "fast_value op ps i x = (if op = BITOP_NOT then NOT x else foldl (word_op op) x (map (\<lambda>p. p ! i) ps))"

lemma bitop_fast_ok:
  "j + minlen \<le> length res \<Longrightarrow> \<forall>p\<in>set ps. j + minlen \<le> length p \<Longrightarrow>
    bitop_fast he op ps res j minlen = Some (upd_range (fast_value op ps) j (j + 32 * (minlen div 32)) res, j + 32 * (minlen div 32))"
proof (induction he op ps res j minlen rule: bitop_fast.induct)
  case (1 he op ps res j minlen)
  note unf = bitop_fast.simps [of he op ps res j minlen]
  show ?case
  proof (cases "32 \<le> minlen")
    case True
    let ?r = "upd_range (fast_value op ps) j (j + 32) res"
    have step: "(if op = BITOP_NOT then fast_not he j res else fast_words he op j ps res) = Some ?r"
    proof -
      have "j + 32 \<le> length res" "\<forall>p\<in>set ps. j + 32 \<le> length p" using True 1(2,3) by auto
      then show ?thesis using fast_not_ok [of j res he] fast_words_ok [of j res ps he op] by (simp add: fast_value_def [abs_def])
    qed
    have q: "32 * (minlen div 32) = 32 + 32 * ((minlen - 32) div 32)" using True by (simp add: le_div_geq)
    have "bitop_fast he op ps ?r (j + 32) (minlen - 32) =
        Some (upd_range (fast_value op ps) (j + 32) (j + 32 + 32 * ((minlen - 32) div 32)) ?r, j + 32 + 32 * ((minlen - 32) div 32))"
      using True 1(2,3) by (intro 1(1) [OF True step]) auto
    then show ?thesis unfolding unf q using True step by (simp add: upd_range_append add.assoc)
  next
    case False
    then show ?thesis unfolding unf by simp
  qed
qed

lemma bitop_slow_ok:
  "length res = maxlen \<Longrightarrow> j \<le> maxlen \<Longrightarrow>
    bitop_slow op srcs maxlen res j = Some (take j res @ map (bitop_byte op srcs) [j..<maxlen])"
proof (induction op srcs maxlen res j rule: bitop_slow.induct)
  case (1 op srcs maxlen res j)
  note unf = bitop_slow.simps [of op srcs maxlen res j]
  show ?case
  proof (cases "j < maxlen")
    case True
    have put: "put_byte res j (bitop_byte op srcs j) = Some (res[j := bitop_byte op srcs j])"
      using True 1(2) by (simp add: put_byte_def)
    have "bitop_slow op srcs maxlen (res[j := bitop_byte op srcs j]) (j + 1) =
        Some (take (j + 1) (res[j := bitop_byte op srcs j]) @ map (bitop_byte op srcs) [j + 1..<maxlen])"
      using True 1(2) by (intro 1(1) [OF True put]) auto
    then show ?thesis unfolding unf using True put 1(2) by (simp add: take_Suc_conv_app_nth upt_conv_Cons)
  next
    case False
    then show ?thesis unfolding unf using 1(2,3) by simp
  qed
qed

lemma bitop_compute_ok:
  assumes "srcs \<noteq> []" and "op = BITOP_NOT \<Longrightarrow> tl srcs = []"
    and "\<forall>p\<in>set srcs. minlen \<le> length p \<and> length p \<le> maxlen"
  shows "bitop_compute he op srcs maxlen minlen = Some (map (bitop_byte op srcs) [0..<maxlen])"
proof -
  obtain p ps where srcs: "srcs = p # ps" using assms(1) by (cases srcs) auto
  have le: "minlen \<le> length p" "length p \<le> maxlen" "\<forall>q\<in>set ps. minlen \<le> length q" using assms(3) srcs by auto
  show ?thesis
  proof (cases "minlen \<ge> 32 \<and> length srcs \<le> 16")
    case False
    then have "bitop_compute he op srcs maxlen minlen = bitop_slow op srcs maxlen (replicate maxlen 0) 0"
      by (auto simp: bitop_compute_def)
    then show ?thesis by (simp add: bitop_slow_ok)
  next
    case True
    let ?res = "take minlen p @ replicate (maxlen - minlen) 0"
    let ?j = "32 * (minlen div 32)"
    let ?r = "upd_range (fast_value op ps) 0 ?j ?res"
    have j: "?j \<le> minlen" by simp
    have copy: "mem_read p 0 minlen = Some (take minlen p)" "mem_write (replicate maxlen 0) 0 (take minlen p) = Some ?res"
      using le by (simp_all add: mem_read_def mem_write_def min_def)
    have "bitop_fast he op ps ?res 0 minlen = Some (?r, ?j)"
      using bitop_fast_ok [of 0 minlen ?res ps he op] le by simp
    then have run: "bitop_compute he op srcs maxlen minlen = bitop_slow op srcs maxlen ?r ?j"
      using True copy by (simp add: bitop_compute_def srcs)
    have "take ?j ?r = map (bitop_byte op srcs) [0..<?j]"
    proof (rule nth_equalityI)
      fix i assume "i < length (take ?j ?r)"
      then have i: "i < ?j" "i < minlen" using j by auto
      have other: "map (\<lambda>q. byte_or_zero q i) ps = map (\<lambda>q. q ! i) ps" using i le(3) by (auto simp: byte_or_zero_def)
      have "byte_or_zero p i = p ! i" using i le(1) by (simp add: byte_or_zero_def)
      then have "bitop_byte op srcs i = fast_value op ps i (p ! i)"
        using assms(2) unfolding bitop_byte_def fast_value_def srcs list.sel other by simp
      then show "take ?j ?r ! i = map (bitop_byte op srcs) [0..<?j] ! i"
        using i le(1,2) by (simp add: nth_upd_range nth_append)
    qed (use le in simp)
    moreover have "[0..<maxlen] = [0..<?j] @ [?j..<maxlen]" using le j upt_add_eq_append [of 0 ?j "maxlen - ?j"] by simp
    ultimately show ?thesis unfolding run using le j bitop_slow_ok [of ?r maxlen ?j op srcs] by simp
  qed
qed

lemma bitop_lookup_ok:
  assumes "wf_server s" and "\<forall>k\<in>set ks. keyspace s k \<noteq> Some OtherType"
  shows "length src = j \<Longrightarrow> \<forall>p\<in>set src. minlen \<le> length p \<and> length p \<le> maxlen \<Longrightarrow>
    \<exists>minlen'. bitop_lookup junk s ks j src maxlen minlen =
        Some (Some (src @ map (string_at s) ks, fold max (map (\<lambda>k. length (string_at s k)) ks) maxlen, minlen')) \<and>
      (\<forall>p\<in>set (src @ map (string_at s) ks).
        minlen' \<le> length p \<and> length p \<le> fold max (map (\<lambda>k. length (string_at s k)) ks) maxlen)"
  using assms(2)
proof (induction ks arbitrary: src j minlen maxlen)
  case Nil
  then show ?case by auto
next
  case (Cons k ks)
  show ?case
  proof (cases "keyspace s k")
    case None
    then have k: "string_at s k = []" by (simp add: string_at_def)
    show ?thesis using None Cons.IH [of "src @ [[]]" "Suc j" 0 maxlen] Cons.prems k by auto
  next
    case (Some ob)
    have "ob \<noteq> OtherType" using Some Cons.prems(3) by auto
    moreover have c: "string_at s k = contents ob" using Some by (simp add: string_at_def)
    moreover have "getDecodedObject junk ob = Some (contents ob)"
      using Some Cons.prems(3) contents_range [OF assms(1)] by (intro object_bytes(1)) auto
    moreover define n where "n = length (contents ob)"
    moreover have "(if n > maxlen then n else maxlen) = max n maxlen" by (simp add: max_def)
    ultimately have step: "bitop_lookup junk s (k # ks) j src maxlen minlen =
        bitop_lookup junk s ks (Suc j) (src @ [contents ob]) (max n maxlen) (if j = 0 \<or> n < minlen then n else minlen)"
      using Some by (cases ob) (simp_all add: Let_def)
    have inv: "\<forall>p\<in>set (src @ [contents ob]). (if j = 0 \<or> n < minlen then n else minlen) \<le> length p \<and> length p \<le> max n maxlen"
      using Cons.prems(1,2) n_def by (cases "j = 0") auto
    show ?thesis unfolding step
      using Cons.IH [of "src @ [contents ob]" "Suc j", OF _ inv] Cons.prems(1,3) c n_def by simp
  qed
qed

text \<open>What an operation means for one bit of each source.\<close>

definition bitop_spec :: "bitop \<Rightarrow> bool list \<Rightarrow> bool" where
  "bitop_spec op bs = (case op of BITOP_AND \<Rightarrow> (\<forall>b\<in>set bs. b) | BITOP_OR \<Rightarrow> (\<exists>b\<in>set bs. b)
     | BITOP_XOR \<Rightarrow> odd (length (filter id bs)) | BITOP_NOT \<Rightarrow> \<not> hd bs)"

lemma bit_foldl_op:
  fixes x :: byte
  shows "bit (foldl (word_op op) x ys) i = (case op of
    BITOP_AND \<Rightarrow> bit x i \<and> (\<forall>y\<in>set ys. bit y i) | BITOP_OR \<Rightarrow> bit x i \<or> (\<exists>y\<in>set ys. bit y i)
  | BITOP_XOR \<Rightarrow> bit x i \<noteq> odd (length (filter (\<lambda>y. bit y i) ys)) | BITOP_NOT \<Rightarrow> bit x i)"
  by (induction ys arbitrary: x) (auto simp: word_op_def bit_and_iff bit_or_iff bit_xor_iff split: bitop.split)

lemma bit_bitop_byte:
  assumes "srcs \<noteq> []" and "op = BITOP_NOT \<Longrightarrow> tl srcs = []" and "i < 8"
  shows "bit (bitop_byte op srcs j) i = bitop_spec op (map (\<lambda>p. bit (byte_or_zero p j) i) srcs)"
  using assms by (cases srcs; cases op)
    (auto simp: bitop_byte_def bitop_spec_def Let_def bit_foldl_op bit_not_iff filter_map comp_def)

lemma sbit_byte: "bit (byte_or_zero p (k div 8)) (7 - k mod 8) = sbit p k"
proof -
  have "length p \<le> k div 8 \<longleftrightarrow> \<not> k < 8 * length p" by (simp add: div_less_iff_less_mult mult.commute not_less [symmetric])
  then show ?thesis by (simp add: byte_or_zero_def sbit_def bit_at_def)
qed

lemma sbit_bitop:
  assumes "srcs \<noteq> []" and "op = BITOP_NOT \<Longrightarrow> tl srcs = []" and "k < 8 * n"
  shows "sbit (map (bitop_byte op srcs) [0..<n]) k = bitop_spec op (map (\<lambda>p. sbit p k) srcs)"
proof -
  have "k div 8 < n" using assms(3) by (simp add: div_less_iff_less_mult mult.commute)
  then have "sbit (map (bitop_byte op srcs) [0..<n]) k = bit (bitop_byte op srcs (k div 8)) (7 - k mod 8)"
    using assms(3) by (simp add: sbit_def bit_at_def)
  then show ?thesis using assms(1,2) by (simp add: bit_bitop_byte sbit_byte)
qed

lemma bitop_ok:
  assumes "wf_server s" and "bitop_name opname = Some op" and "keys \<noteq> []" and "op = BITOP_NOT \<Longrightarrow> length keys = 1"
    and "\<forall>k\<in>set keys. keyspace s k \<noteq> Some OtherType"
    and n: "n = fold max (map (\<lambda>k. length (string_at s k)) keys) 0"
  shows "bitopCommand junk he (cmd # opname # target # keys) s =
    Some (s\<lparr>keyspace := (keyspace s)(target := if n = 0 then None else Some (RawString (map (bitop_byte op (map (string_at s) keys)) [0..<n]))),
      dirty_count := dirty_count s + 1,
      call_log := call_log s @ (if n \<noteq> 0 then [SignalModifiedKey target, NotifyKeyspaceEvent NOTIFY_STRING ''set'' target]
        else if keyspace s target \<noteq> None then [SignalModifiedKey target, NotifyKeyspaceEvent NOTIFY_GENERIC ''del'' target] else []),
      replies := replies s @ [LongLong (int n)]\<rparr>)"
proof -
  let ?srcs = "map (string_at s) keys"
  obtain minlen where l: "bitop_lookup junk s keys 0 [] 0 0 = Some (Some (?srcs, n, minlen))"
    "\<forall>p\<in>set ?srcs. minlen \<le> length p \<and> length p \<le> n"
    using bitop_lookup_ok [OF assms(1,5), of "[]" 0 0 0 junk] n by auto
  have not: "op = BITOP_NOT \<Longrightarrow> tl ?srcs = []" using assms(4) by (cases keys) auto
  have c: "bitop_compute he op ?srcs n minlen = Some (map (bitop_byte op ?srcs) [0..<n])"
    using l(2) not assms(3) by (intro bitop_compute_ok) auto
  have one: "\<not> (op = BITOP_NOT \<and> length (cmd # opname # target # keys) \<noteq> 4)" using assms(4) by auto
  have start: "bitopCommand junk he (cmd # opname # target # keys) s = do {
      s \<leftarrow>
         (if n \<noteq> 0 then do {
            res \<leftarrow> bitop_compute he op ?srcs n minlen;
            let s = setKey target (RawString res) s;
            Some (calls [NotifyKeyspaceEvent NOTIFY_STRING ''set'' target] s) }
          else if keyspace s target \<noteq> None then
            Some (calls [SignalModifiedKey target, NotifyKeyspaceEvent NOTIFY_GENERIC ''del'' target]
              (s\<lparr>keyspace := (keyspace s)(target := None)\<rparr>))
          else Some s);
       let s = s\<lparr>dirty_count := dirty_count s + 1\<rparr>;
       Some (reply (LongLong (int n)) s) }"
  proof -
    have "arg (cmd # opname # target # keys) 1 = Some opname" "arg (cmd # opname # target # keys) 2 = Some target"
      "drop 3 (cmd # opname # target # keys) = keys" by (simp_all add: arg_def)
    then show ?thesis unfolding bitopCommand_def using l(1) assms(2) one
      by (simp only: Option.bind.bind_lunit option.case prod.case if_False)
  qed
  have "(keyspace s)(target := None) = keyspace s" if "keyspace s target = None" using that by auto
  then show ?thesis unfolding start c by (auto simp: setKey_def calls_def reply_def)
qed

subsection \<open>BITCOUNT and BITPOS\<close>

text \<open>A range of bytes: negative indexes count from the end, both ends are included.\<close>

definition from_end :: "nat \<Rightarrow> int \<Rightarrow> int" where
  "from_end len i = (if i < 0 then max 0 (int len + i) else i)"

definition byte_slice :: "byte list \<Rightarrow> int \<Rightarrow> int \<Rightarrow> byte list" where
  "byte_slice p start end = map ((!) p) (filter (\<lambda>i. from_end (length p) start \<le> int i \<and> int i \<le> from_end (length p) end) [0..<length p])"

lemma clip_range_eq: "clip_range start end (int len) = (from_end len start, min (from_end len end) (int len - 1))"
  by (auto simp: clip_range_def from_end_def Let_def max_def min_def)

lemma filter_upt_range: "filter (\<lambda>i. a \<le> i \<and> i < b) [0..<n] = [a..<min b n]"
proof (induction n)
  case (Suc n)
  show ?case
  proof (cases "n < b")
    case True
    then have "min b (Suc n) = Suc n" "min b n = n" by auto
    then show ?thesis using Suc True by auto
  next
    case False
    then show ?thesis using Suc by auto
  qed
qed simp

lemma slice_eq:
  assumes "0 \<le> a" "a \<le> b" "b < int (length p)"
  shows "mem_read p a (nat (b - a + 1)) = Some (map ((!) p) (filter (\<lambda>i. a \<le> int i \<and> int i \<le> b) [0..<length p]))"
proof -
  have "filter (\<lambda>i. a \<le> int i \<and> int i \<le> b) [0..<length p] = filter (\<lambda>i. nat a \<le> i \<and> i < nat (b + 1)) [0..<length p]"
    using assms by (intro filter_cong) auto
  also have "\<dots> = [nat a..<nat (b + 1)]" using assms by (simp add: filter_upt_range min_def)
  also have "map ((!) p) [nat a..<nat (b + 1)] = take (nat (b - a + 1)) (drop (nat a) p)"
    by (rule nth_equalityI) (use assms in auto)
  finally show ?thesis using assms by (auto simp: mem_read_def)
qed

lemma slice_clipped:
  "map ((!) p) (filter (\<lambda>i. from_end (length p) start \<le> int i \<and> int i \<le> min (from_end (length p) end) (int (length p) - 1)) [0..<length p]) =
    byte_slice p start end"
  unfolding byte_slice_def by (intro arg_cong [of _ _ "map _"] filter_cong) auto

lemma slice_empty: "from_end (length p) start > min (from_end (length p) end) (int (length p) - 1) \<Longrightarrow> byte_slice p start end = []"
  unfolding slice_clipped [symmetric] by (auto simp: filter_empty_conv)

lemma from_end_nonneg [simp]: "0 \<le> from_end len i"
  by (simp add: from_end_def)

lemma mem_read_length: "mem_read m off n = Some bs \<Longrightarrow> length bs = n"
  by (auto simp: mem_read_def split: if_splits)

lemma slice_read:
  assumes "from_end (length p) start \<le> min (from_end (length p) end) (int (length p) - 1)"
  shows "mem_read p (from_end (length p) start) (nat (min (from_end (length p) end) (int (length p) - 1) - from_end (length p) start + 1)) =
    Some (byte_slice p start end)"
  unfolding slice_clipped [symmetric] by (rule slice_eq) (use assms in auto)

lemma count_range_ok:
  "count_range he addr p (from_end (length p) start) (min (from_end (length p) end) (int (length p) - 1)) =
    Some (int (ones (bits_of (byte_slice p start end))))"
proof (cases "from_end (length p) start > min (from_end (length p) end) (int (length p) - 1)")
  case True
  then show ?thesis using slice_empty [OF True] by (simp add: count_range_def)
next
  case False
  then have "from_end (length p) start \<le> min (from_end (length p) end) (int (length p) - 1)" by (simp only: not_less)
  from slice_read [OF this] show ?thesis using False by (simp add: count_range_def redisPopcount_ok)
qed

definition pos_spec :: "byte list \<Rightarrow> int \<Rightarrow> int \<Rightarrow> bool \<Rightarrow> bool \<Rightarrow> int" where
  "pos_spec p start end b end_given =
     (let bs = bits_of (byte_slice p start end); base = 8 * from_end (length p) start in
      if b \<in> set bs then base + int (length (takeWhile (\<lambda>x. x \<noteq> b) bs))
      else if b \<or> end_given \<or> bs = [] then - 1 else base + int (length bs))"

lemma pos_range_ok:
  "pos_range he addr p b end_given (from_end (length p) start) (min (from_end (length p) end) (int (length p) - 1)) =
    Some (pos_spec p start end b end_given)"
proof (cases "from_end (length p) start > min (from_end (length p) end) (int (length p) - 1)")
  case True
  then show ?thesis using slice_empty [OF True] by (simp add: pos_range_def pos_spec_def)
next
  case False
  let ?a = "from_end (length p) start" and ?b = "min (from_end (length p) end) (int (length p) - 1)"
  have r: "mem_read p ?a (nat (?b - ?a + 1)) = Some (byte_slice p start end)"
    by (rule slice_read) (use False in \<open>simp only: not_less\<close>)
  have "length (byte_slice p start end) = nat (?b - ?a + 1)" by (rule mem_read_length [OF r])
  moreover have "0 \<le> ?b - ?a + 1" using False by linarith
  ultimately have len: "int (length (byte_slice p start end)) = ?b - ?a + 1" by (simp only: int_nat_eq if_True)
  have "0 < int (length (byte_slice p start end))" using len False by linarith
  then have ne: "bits_of (byte_slice p start end) \<noteq> []" by (simp add: length_greater_0_conv [symmetric] del: length_greater_0_conv)
  have lt: "length (takeWhile (\<lambda>x. x \<noteq> b) bs) < length bs" if "b \<in> set bs" for bs
    using that by (induction bs) auto
  show ?thesis
    unfolding pos_range_def Let_def r using False len ne lt [of "bits_of (byte_slice p start end)"]
    by (auto simp: redisBitpos_ok bitpos_spec_def pos_spec_def Let_def)
qed

lemma long_of: "string2ll a = Some v \<Longrightarrow> getLongFromObjectOrReply a msg = Inr v"
  using string2ll_ok [of a v] by (simp add: getLongFromObjectOrReply_def getLongLongFromObjectOrReply_def getLongLongFromObject_def)

lemma byte_slice_full: "byte_slice p 0 (- 1) = p"
proof -
  have "filter (\<lambda>i. from_end (length p) 0 \<le> int i \<and> int i \<le> from_end (length p) (- 1)) [0..<length p] = [0..<length p]"
    by (auto intro!: filter_True simp: from_end_def)
  then show ?thesis by (simp add: byte_slice_def map_nth)
qed

lemma whole_range: "from_end (length p) 0 = 0" "min (from_end (length p) (- 1)) (int (length p) - 1) = int (length p) - 1"
  by (auto simp: from_end_def)

lemma bitcount_ok:
  assumes "wf_server s" and "keyspace s key = Some ob" "ob \<noteq> OtherType" and p: "p = string_at s key"
  shows "bitcountCommand junk he addr [cmd, key] s = Some (reply (LongLong (int (ones (bits_of p)))) s)"
    and "string2ll a = Some start \<Longrightarrow> string2ll b = Some end \<Longrightarrow>
      bitcountCommand junk he addr [cmd, key, a, b] s =
        Some (reply (LongLong (int (if start < 0 \<and> end < start then 0 else ones (bits_of (byte_slice p start end))))) s)"
proof -
  have o: "getObjectReadOnlyString junk ob = Some p"
    using assms contents_range [OF assms(1)] by (subst object_bytes(2)) (auto simp: string_at_def)
  note full = byte_slice_full [of p]
  have "count_range he addr p 0 (int (length p) - 1) = Some (int (ones (bits_of p)))"
    using count_range_ok [of he addr p 0 "- 1"] full unfolding whole_range by simp
  then show "bitcountCommand junk he addr [cmd, key] s = Some (reply (LongLong (int (ones (bits_of p)))) s)"
    using assms(2,3) o by (cases ob) (simp_all add: bitcountCommand_def arg_def)
  show "bitcountCommand junk he addr [cmd, key, a, b] s =
        Some (reply (LongLong (int (if start < 0 \<and> end < start then 0 else ones (bits_of (byte_slice p start end))))) s)"
    if "string2ll a = Some start" "string2ll b = Some end"
    using assms(2,3) o that count_range_ok [of he addr p start "end"]
    by (cases ob) (auto simp: bitcountCommand_def arg_def long_of clip_range_eq)
qed

lemma bitpos_ok:
  assumes "wf_server s" and "keyspace s key = Some ob" "ob \<noteq> OtherType" and p: "p = string_at s key"
    and v: "string2ll v = Some (of_bool b)"
  shows "bitposCommand junk he addr [cmd, key, v] s = Some (reply (LongLong (pos_spec p 0 (- 1) b False)) s)"
    and "string2ll a = Some start \<Longrightarrow>
      bitposCommand junk he addr [cmd, key, v, a] s = Some (reply (LongLong (pos_spec p start (- 1) b False)) s)"
    and "string2ll a = Some start \<Longrightarrow> string2ll c = Some end \<Longrightarrow>
      bitposCommand junk he addr [cmd, key, v, a, c] s = Some (reply (LongLong (pos_spec p start end b True)) s)"
proof -
  have o: "getObjectReadOnlyString junk ob = Some p"
    using assms contents_range [OF assms(1)] by (subst object_bytes(2)) (auto simp: string_at_def)
  have bit: "getLongFromObjectOrReply v None = Inr (of_bool b)" by (rule long_of [OF v])
  have clip: "min (from_end (length p) (int (length p) - 1)) (int (length p) - 1) = min (from_end (length p) (- 1)) (int (length p) - 1)"
    by (auto simp: from_end_def)
  show "bitposCommand junk he addr [cmd, key, v] s = Some (reply (LongLong (pos_spec p 0 (- 1) b False)) s)"
    using assms(2,3) o bit pos_range_ok [of he addr p b False 0 "- 1"] unfolding whole_range
    by (cases ob; cases b) (simp_all add: bitposCommand_def arg_def)
  show "bitposCommand junk he addr [cmd, key, v, a] s = Some (reply (LongLong (pos_spec p start (- 1) b False)) s)"
    if "string2ll a = Some start"
    using assms(2,3) o bit that pos_range_ok [of he addr p b False start "- 1"]
    by (cases ob; cases b) (simp_all add: bitposCommand_def arg_def long_of clip clip_range_eq Let_def)
  show "bitposCommand junk he addr [cmd, key, v, a, c] s = Some (reply (LongLong (pos_spec p start end b True)) s)"
    if "string2ll a = Some start" "string2ll c = Some end"
    using assms(2,3) o bit that pos_range_ok [of he addr p b True start "end"]
    by (cases ob; cases b) (simp_all add: bitposCommand_def arg_def long_of clip_range_eq)
qed

subsection \<open>BITFIELD\<close>

text \<open>What the operations mean on an infinite array of bits: a field has a value, a write stores the
  low bits of a number in two's complement.\<close>

definition bits_value :: "bool \<Rightarrow> (nat \<Rightarrow> bool) \<Rightarrow> nat \<Rightarrow> nat \<Rightarrow> int" where
  "bits_value sign A off bits =
     (let u = horner_sum of_bool 2 (map (\<lambda>i. A (off + (bits - 1 - i))) [0..<bits])
      in if sign then signed_take_bit (bits - 1) u else u)"

definition bits_store :: "(nat \<Rightarrow> bool) \<Rightarrow> nat \<Rightarrow> nat \<Rightarrow> int \<Rightarrow> nat \<Rightarrow> bool" where
  "bits_store A off bits x = (\<lambda>k. if off \<le> k \<and> k < off + bits then bit x (bits - 1 - (k - off)) else A k)"

definition field_min :: "bool \<Rightarrow> nat \<Rightarrow> int" where
  "field_min sign bits = (if sign then - (2 ^ (bits - 1)) else 0)"

definition field_max :: "bool \<Rightarrow> nat \<Rightarrow> int" where
  "field_max sign bits = (if sign then 2 ^ (bits - 1) - 1 else 2 ^ bits - 1)"

definition field_wrap :: "bool \<Rightarrow> nat \<Rightarrow> int \<Rightarrow> int" where
  "field_wrap sign bits x = (if sign then signed_take_bit (bits - 1) x else x mod 2 ^ bits)"

definition field_spec :: "bitfieldOp \<Rightarrow> (nat \<Rightarrow> bool) \<Rightarrow> (nat \<Rightarrow> bool) \<times> reply_part" where
  \<comment> \<open>a negative number for an unsigned field is taken modulo 2 ^ 64\<close>
  "field_spec p A =
     (let old = bits_value (op_sign p) A (op_offset p) (op_bits p);
          x = (if opcode p = BITFIELDOP_INCRBY then old + op_i64 p
               else if op_sign p then op_i64 p else op_i64 p mod 2 ^ 64);
          (status, limit) = overflow_spec (field_min (op_sign p) (op_bits p)) (field_max (op_sign p) (op_bits p))
            (field_wrap (op_sign p) (op_bits p) x) x (op_owtype p);
          new = (case limit of None \<Rightarrow> x | Some y \<Rightarrow> y)
      in if opcode p = BITFIELDOP_GET then (A, LongLong old)
         else if status \<noteq> 0 \<and> op_owtype p = BFOVERFLOW_FAIL then (A, NullBulk)
         else (bits_store A (op_offset p) (op_bits p) new, LongLong (if opcode p = BITFIELDOP_INCRBY then new else old)))"

fun fields_spec :: "bitfieldOp list \<Rightarrow> (nat \<Rightarrow> bool) \<Rightarrow> (nat \<Rightarrow> bool) \<times> reply_part list" where
  "fields_spec [] A = (A, [])"
| "fields_spec (p # ps) A = (let (A, r) = field_spec p A; (A, rs) = fields_spec ps A in (A, r # rs))"

lemma bit_bits_value: "bit (bits_value False A off bits) i \<longleftrightarrow> i < bits \<and> A (off + (bits - 1 - i))"
  by (auto simp: bits_value_def bit_horner_sum_bit_iff)

lemma uint_field:
  assumes "bits \<le> 64" and "\<And>k. off \<le> k \<Longrightarrow> k < off + bits \<Longrightarrow> bit_at p k \<longleftrightarrow> A (off' + (k - off))"
  shows "uint (field p off bits) = bits_value False A off' bits"
  by (rule bit_eqI) (use assms in \<open>auto simp: bit_uint_iff bit_field bit_bits_value\<close>)

lemma signed_field_value:
  assumes "bits \<le> 64" and "\<And>k. off \<le> k \<Longrightarrow> k < off + bits \<Longrightarrow> bit_at p k \<longleftrightarrow> A (off' + (k - off))"
  shows "signed_field p off bits = bits_value True A off' bits"
  using uint_field [OF assms] by (simp add: signed_field_def bits_value_def)

lemma bits_value_range:
  assumes "0 < bits"
  shows "field_min sign bits \<le> bits_value sign A off bits" "bits_value sign A off bits \<le> field_max sign bits"
proof -
  have "take_bit bits (bits_value False A off bits) = bits_value False A off bits"
    by (rule bit_eqI) (auto simp: bit_take_bit_iff bit_bits_value)
  then have "0 \<le> bits_value False A off bits" "bits_value False A off bits < 2 ^ bits"
    by (metis take_bit_nonnegative, metis take_bit_int_less_exp)
  moreover have "- (2 ^ (bits - 1)) \<le> signed_take_bit (bits - 1) u" "signed_take_bit (bits - 1) u < 2 ^ (bits - 1)" for u :: int
    by (simp_all add: signed_take_bit_int_greater_eq_minus_exp signed_take_bit_int_less_exp)
  ultimately show "field_min sign bits \<le> bits_value sign A off bits" "bits_value sign A off bits \<le> field_max sign bits"
    by (cases sign; simp add: field_min_def field_max_def bits_value_def Let_def)+
qed

lemma sint_low: "uint (w :: u64) < 2 ^ 63 \<Longrightarrow> sint w = uint w"
proof -
  assume "uint w < 2 ^ 63"
  moreover have "- (2 ^ 63) \<le> uint w" by (rule order.trans [of _ 0]) simp_all
  ultimately show ?thesis using sint_word_of_int_id [of "uint w", where 'a = 64] by simp
qed

text \<open>Reading: the nine bytes of the buffer reach far enough.\<close>

lemma field_buffer_bits: "k < 72 \<Longrightarrow> bit_at (field_buffer src bt) k \<longleftrightarrow> sbit src (8 * bt + k)"
proof -
  assume k: "k < 72"
  then have "k div 8 < 9" by simp
  moreover have "(8 * bt + k) div 8 = bt + k div 8" "(8 * bt + k) mod 8 = k mod 8" by simp_all
  moreover have "bt + k div 8 < length src \<longleftrightarrow> 8 * bt + k < 8 * length src"
  proof -
    have "(8 * bt + k) div 8 < length src \<longleftrightarrow> 8 * bt + k < length src * 8" by (rule div_less_iff_less_mult) simp
    then show ?thesis by (simp add: mult.commute)
  qed
  ultimately show ?thesis by (auto simp: bit_at_def field_buffer_def sbit_def add.commute)
qed

lemma field_get_ok:
  assumes "0 < op_bits p" "op_bits p < 64"
  shows "field_get p src = Some (LongLong (bits_value (op_sign p) (sbit src) (op_offset p) (op_bits p)))"
proof -
  let ?bt = "op_offset p div 8" and ?bits = "op_bits p"
  let ?buf = "field_buffer src ?bt"
  have off: "op_offset p - ?bt * 8 = op_offset p mod 8" by (simp add: minus_div_mult_eq_mod)
  have "op_offset p mod 8 < 8" by simp
  then have len: "op_offset p mod 8 + ?bits \<le> 8 * length ?buf" using assms by (simp add: field_buffer_def)
  have at: "bit_at ?buf k \<longleftrightarrow> sbit src (op_offset p + (k - op_offset p mod 8))"
    if "op_offset p mod 8 \<le> k" "k < op_offset p mod 8 + ?bits" for k
  proof -
    have "8 * ?bt + k = op_offset p + (k - op_offset p mod 8)"
      using that(1) mult_div_mod_eq [of 8 "op_offset p"] by linarith
    moreover have "k < 72" using that(2) assms(2) \<open>op_offset p mod 8 < 8\<close> by linarith
    ultimately show ?thesis by (simp add: field_buffer_bits)
  qed
  have b64: "?bits \<le> 64" using assms by simp
  note u = uint_field [OF b64 at] and s = signed_field_value [OF b64 at]
  have "sint (field ?buf (op_offset p mod 8) ?bits) = bits_value False (sbit src) (op_offset p) ?bits"
  proof -
    have "(2 :: int) ^ ?bits \<le> 2 ^ 63" using assms by (intro power_increasing) auto
    then have "bits_value False (sbit src) (op_offset p) ?bits < 2 ^ 63"
      using bits_value_range(2) [OF assms(1), of False "sbit src" "op_offset p"] by (simp add: field_max_def)
    then show ?thesis using sint_low [of "field ?buf (op_offset p mod 8) ?bits"] u by simp
  qed
  then show ?thesis
    using getUnsignedBitfield_ok [OF len b64] getSignedBitfield_ok [OF len assms(1) b64] assms(2) s
    by (simp add: field_get_def byte_index off Let_def)
qed

text \<open>Writing.\<close>

lemma store_ok:
  assumes "off + bits \<le> 8 * length p" "bits \<le> 64"
  obtains p' where "setUnsignedBitfield p off bits (word_of_int x) = Some p'" "length p' = length p"
    "sbit p' = bits_store (sbit p) off bits x"
proof -
  obtain p' where p': "setUnsignedBitfield_loop bits p off (word_of_int x) = Some p'" "length p' = length p"
    "\<And>k. bit_at p' k \<longleftrightarrow> (if off \<le> k \<and> k < off + bits then bit (word_of_int x :: u64) (bits - 1 - (k - off)) else bit_at p k)"
    using setUnsignedBitfield_loop_ok [OF assms] by blast
  have "sbit p' = bits_store (sbit p) off bits x"
    by (rule ext) (use assms p'(2,3) in \<open>auto simp: sbit_def bits_store_def bit_word_of_int_iff\<close>)
  then show ?thesis using p'(1,2) by (intro that) (auto simp: setUnsignedBitfield_def)
qed

lemma overflow_spec_cases:
  assumes "overflow_spec lo hi w x ow = (st, lim)"
  shows "st = 0 \<Longrightarrow> lim = None \<and> lo \<le> x \<and> x \<le> hi" "st \<noteq> 0 \<Longrightarrow> ow \<noteq> BFOVERFLOW_FAIL \<Longrightarrow> lim \<noteq> None"
  using assms by (auto simp: overflow_spec_def split: if_splits owtype.splits)

definition field_op_ok :: "bitfieldOp \<Rightarrow> bool" where
  \<comment> \<open>fewer than 64 bits, and no value from the far end of 64 bits for a signed field\<close>
  "field_op_ok p \<longleftrightarrow> 0 < op_bits p \<and> op_bits p < 64 \<and> - (2 ^ 63) \<le> op_i64 p \<and> op_i64 p < 2 ^ 63 \<and>
     (op_sign p \<and> opcode p = BITFIELDOP_SET \<longrightarrow> 2 ^ (op_bits p - 1) - 1 - op_i64 p < 2 ^ 63)"

lemma signed_write_ok:
  assumes ok: "field_op_ok p" and sign: "op_sign p" and code: "opcode p \<noteq> BITFIELDOP_GET"
    and len: "op_offset p + op_bits p \<le> 8 * length q"
  shows "\<exists>q' r. signed_write uninit p q = Some (q', r) \<and> length q' = length q \<and> (sbit q', r) = field_spec p (sbit q)"
proof -
  let ?bits = "op_bits p" and ?off = "op_offset p"
  have b: "0 < ?bits" "?bits < 64" "?bits \<le> 64" using ok by (auto simp: field_op_ok_def)
  define old where "old = bits_value True (sbit q) ?off ?bits"
  have at: "bit_at q k \<longleftrightarrow> sbit q (?off + (k - ?off))" if "?off \<le> k" "k < ?off + ?bits" for k
    using that len by (simp add: sbit_def)
  have old: "getSignedBitfield q ?off ?bits = Some old"
    using getSignedBitfield_ok [OF len b(1,3)] signed_field_value [OF b(3) at] b(2) by (simp add: old_def)
  have P: "(2 :: int) ^ (?bits - 1) \<le> 2 ^ 62" using b by (intro power_increasing) auto
  have old_range: "- (2 ^ (?bits - 1)) \<le> old" "old < 2 ^ (?bits - 1)"
    using bits_value_range [OF b(1), of True "sbit q" ?off] by (auto simp: old_def field_min_def field_max_def)
  define v incr where "v = (if opcode p = BITFIELDOP_INCRBY then old else op_i64 p)"
    and "incr = (if opcode p = BITFIELDOP_INCRBY then op_i64 p else 0)"
  obtain st lim where sp: "overflow_spec (field_min True ?bits) (field_max True ?bits) (field_wrap True ?bits (v + incr)) (v + incr) (op_owtype p) = (st, lim)"
    by (metis surj_pair)
  have check: "checkSignedBitfieldOverflow v incr ?bits (op_owtype p) = Some (st, lim)"
  proof -
    have "checkSignedBitfieldOverflow v incr ?bits (op_owtype p) = Some (overflow_spec (- (2 ^ (?bits - 1))) (2 ^ (?bits - 1) - 1)
        (signed_take_bit (?bits - 1) (v + incr)) (v + incr) (op_owtype p))"
      using signed_overflow_ok [of ?bits incr v "op_owtype p"] b ok old_range P code sign
      by (cases "opcode p") (auto simp: v_def incr_def field_op_ok_def)
    then show ?thesis using sp by (simp add: field_min_def field_max_def field_wrap_def)
  qed
  define new where "new = (case lim of None \<Rightarrow> v + incr | Some y \<Rightarrow> y)"
  obtain q' where q': "setSignedBitfield q ?off ?bits new = Some q'" "length q' = length q" "sbit q' = bits_store (sbit q) ?off ?bits new"
    using store_ok [OF len b(3), of new] unfolding setSignedBitfield_def by metis
  have nowrap: "i64 (old + op_i64 p) = new" if "st = 0" "opcode p = BITFIELDOP_INCRBY"
    using overflow_spec_cases(1) [OF sp that(1)] that(2) P
    by (auto simp: new_def v_def incr_def field_min_def field_max_def intro!: i64_id)
  have run: "signed_write uninit p q = (if \<not> (st \<noteq> 0 \<and> op_owtype p = BFOVERFLOW_FAIL)
      then Some (q', LongLong (if opcode p = BITFIELDOP_INCRBY then new else old)) else Some (q, NullBulk))"
    using old check q'(1) nowrap overflow_spec_cases [OF sp] code
    by (cases "opcode p"; cases "st = 0"; cases lim) (auto simp: signed_write_def v_def incr_def new_def Let_def)
  have spec: "field_spec p (sbit q) = (if st \<noteq> 0 \<and> op_owtype p = BFOVERFLOW_FAIL then (sbit q, NullBulk)
      else (bits_store (sbit q) ?off ?bits new, LongLong (if opcode p = BITFIELDOP_INCRBY then new else old)))"
    using sp code sign unfolding new_def v_def incr_def old_def
    by (cases "opcode p"; cases lim) (auto simp: field_spec_def Let_def)
  show ?thesis unfolding run spec using q' by auto
qed

lemma overflow_spec_range:
  assumes "overflow_spec lo hi w x ow = (st, lim)" and "lo \<le> hi" "lo \<le> w" "w \<le> hi"
    and "st = 0 \<or> ow \<noteq> BFOVERFLOW_FAIL"
  shows "lo \<le> (case lim of None \<Rightarrow> x | Some y \<Rightarrow> y)" "(case lim of None \<Rightarrow> x | Some y \<Rightarrow> y) \<le> hi"
  using assms by (auto simp: overflow_spec_def split: if_splits owtype.splits)

lemma unsigned_write_ok:
  assumes ok: "field_op_ok p" and sign: "\<not> op_sign p" and code: "opcode p \<noteq> BITFIELDOP_GET"
    and len: "op_offset p + op_bits p \<le> 8 * length q"
  shows "\<exists>q' r. unsigned_write uninit p q = Some (q', r) \<and> length q' = length q \<and> (sbit q', r) = field_spec p (sbit q)"
proof -
  let ?bits = "op_bits p" and ?off = "op_offset p"
  have b: "0 < ?bits" "?bits < 64" "?bits \<le> 64" using ok by (auto simp: field_op_ok_def)
  have i: "- (2 ^ 63) \<le> op_i64 p" "op_i64 p < 2 ^ 63" using ok by (simp_all add: field_op_ok_def)
  have P: "(2 :: int) ^ ?bits \<le> 2 ^ 63" using b by (intro power_increasing) auto
  define old where "old = bits_value False (sbit q) ?off ?bits"
  have at: "bit_at q k \<longleftrightarrow> sbit q (?off + (k - ?off))" if "?off \<le> k" "k < ?off + ?bits" for k
    using that len by (simp add: sbit_def)
  let ?old = "field q ?off ?bits"
  have uold: "uint ?old = old" using uint_field [OF b(3) at] by (simp add: old_def)
  have old: "getUnsignedBitfield q ?off ?bits = Some ?old" by (rule getUnsignedBitfield_ok [OF len b(3)])
  have old_range: "0 \<le> old" "old < 2 ^ ?bits"
    using bits_value_range [OF b(1), of False "sbit q" ?off] by (auto simp: old_def field_min_def field_max_def)
  define v incr where "v = (if opcode p = BITFIELDOP_INCRBY then ?old else word_of_int (op_i64 p))"
    and "incr = (if opcode p = BITFIELDOP_INCRBY then op_i64 p else 0)"
  define x where "x = uint v + incr"
  obtain st lim where sp: "overflow_spec 0 (2 ^ ?bits - 1) (x mod 2 ^ ?bits) x (op_owtype p) = (st, lim)"
    by (metis surj_pair)
  have check: "map_option (map_prod id (map_option uint)) (checkUnsignedBitfieldOverflow v incr ?bits (op_owtype p)) = Some (st, lim)"
    unfolding sp [symmetric] x_def
    by (rule unsigned_overflow_ok) (use b i old_range uold in \<open>auto simp: v_def incr_def\<close>)
  then obtain limw where ck: "checkUnsignedBitfieldOverflow v incr ?bits (op_owtype p) = Some (st, limw)" "map_option uint limw = lim"
    by auto
  define new where "new = (case lim of None \<Rightarrow> x | Some y \<Rightarrow> y)"
  define w where "w = (if st \<noteq> 0 then (case limw of Some w \<Rightarrow> w | None \<Rightarrow> uninit) else v + word_of_int incr)"
  have w: "uint w = new" "sint w = new" "w = word_of_int new" if "\<not> (st \<noteq> 0 \<and> op_owtype p = BFOVERFLOW_FAIL)"
  proof -
    have r: "0 \<le> new" "new \<le> 2 ^ ?bits - 1"
      using overflow_spec_range [OF sp] that unfolding new_def by auto
    show u: "uint w = new"
    proof (cases "st = 0")
      case True
      then have "w = word_of_int x" "new = x"
        using overflow_spec_cases(1) [OF sp] by (simp_all add: w_def new_def x_def)
      then show ?thesis using r P by (simp add: uint_word_of_int_id)
    next
      case False
      then show ?thesis using overflow_spec_cases(2) [OF sp] ck(2) that by (cases limw) (auto simp: w_def new_def)
    qed
    then show "sint w = new" "w = word_of_int new" using r P sint_low [of w] by auto
  qed
  obtain q' where q': "setUnsignedBitfield q ?off ?bits (word_of_int new) = Some q'" "length q' = length q"
    "sbit q' = bits_store (sbit q) ?off ?bits new"
    using store_ok [OF len b(3), of new] by metis
  have sold: "sint ?old = old" using sint_low [of ?old] uold old_range P by simp
  have run: "unsigned_write uninit p q = (if \<not> (st \<noteq> 0 \<and> op_owtype p = BFOVERFLOW_FAIL)
      then Some (q', LongLong (if opcode p = BITFIELDOP_INCRBY then new else old)) else Some (q, NullBulk))"
  proof -
    have "unsigned_write uninit p q = (if \<not> (st \<noteq> 0 \<and> op_owtype p = BFOVERFLOW_FAIL) then do {
        q \<leftarrow> setUnsignedBitfield q ?off ?bits w; Some (q, LongLong (sint (if opcode p = BITFIELDOP_INCRBY then w else ?old))) }
        else Some (q, NullBulk))"
      using old ck(1) code by (cases "opcode p") (simp_all add: unsigned_write_def v_def incr_def w_def Let_def)
    then show ?thesis using w q'(1) sold by auto
  qed
  have spec: "field_spec p (sbit q) = (if st \<noteq> 0 \<and> op_owtype p = BFOVERFLOW_FAIL then (sbit q, NullBulk)
      else (bits_store (sbit q) ?off ?bits new, LongLong (if opcode p = BITFIELDOP_INCRBY then new else old)))"
  proof -
    have "x = (if opcode p = BITFIELDOP_INCRBY then old + op_i64 p else op_i64 p mod 2 ^ 64)"
      using uold by (simp add: x_def v_def incr_def uint_word_of_int)
    then show ?thesis using sp code sign unfolding new_def old_def
      by (cases "opcode p"; cases lim) (auto simp: field_spec_def Let_def field_min_def field_max_def field_wrap_def)
  qed
  show ?thesis unfolding run spec using q' by auto
qed

lemma bitfield_exec_ok:
  "\<forall>p\<in>set ops. field_op_ok p \<and> (opcode p \<noteq> BITFIELDOP_GET \<longrightarrow> op_offset p + op_bits p \<le> 8 * length q) \<Longrightarrow>
    \<exists>q' rs. bitfield_exec uninit ops q = Some (q', rs, length (filter (\<lambda>p. opcode p \<noteq> BITFIELDOP_GET) ops)) \<and>
      length q' = length q \<and> (sbit q', rs) = fields_spec ops (sbit q) \<and>
      ((\<forall>p\<in>set ops. opcode p = BITFIELDOP_GET) \<longrightarrow> q' = q)"
proof (induction ops arbitrary: q)
  case Nil
  then show ?case by simp
next
  case (Cons p ops)
  have ok: "field_op_ok p" using Cons.prems by simp
  show ?case
  proof (cases "opcode p = BITFIELDOP_GET")
    case True
    then have "field_get p q = Some (snd (field_spec p (sbit q)))" "fst (field_spec p (sbit q)) = sbit q"
      using ok field_get_ok [of p q] by (simp_all add: field_op_ok_def field_spec_def Let_def split_beta)
    moreover obtain q' rs where "bitfield_exec uninit ops q = Some (q', rs, length (filter (\<lambda>p. opcode p \<noteq> BITFIELDOP_GET) ops))"
      "length q' = length q" "(sbit q', rs) = fields_spec ops (sbit q)" "(\<forall>p\<in>set ops. opcode p = BITFIELDOP_GET) \<longrightarrow> q' = q"
      using Cons.IH [of q] Cons.prems by auto
    ultimately show ?thesis using True by (auto simp: split_beta Let_def prod_eq_iff)
  next
    case False
    then obtain q1 r where q1: "(if op_sign p then signed_write uninit p q else unsigned_write (word_of_int uninit) p q) = Some (q1, r)"
      "length q1 = length q" "(sbit q1, r) = field_spec p (sbit q)"
      using signed_write_ok [OF ok _ False, of q uninit] unsigned_write_ok [OF ok _ False, of q "word_of_int uninit"] Cons.prems
      by (cases "op_sign p") auto
    moreover have "opcode p = BITFIELDOP_SET \<or> opcode p = BITFIELDOP_INCRBY" using False by (cases "opcode p") auto
    moreover obtain q' rs where "bitfield_exec uninit ops q1 = Some (q', rs, length (filter (\<lambda>p. opcode p \<noteq> BITFIELDOP_GET) ops))"
      "length q' = length q1" "(sbit q', rs) = fields_spec ops (sbit q1)"
      using Cons.IH [of q1] Cons.prems q1(2) by auto
    ultimately show ?thesis using False by (auto simp: split_beta Let_def prod_eq_iff)
  qed
qed

text \<open>What the parser promises of the operations it collects.\<close>

definition parsed :: "bitfieldOp list \<Rightarrow> bool \<Rightarrow> nat \<Rightarrow> bool" where
  "parsed ops readonly hi \<longleftrightarrow>
     (\<forall>p\<in>set ops. 0 < op_bits p \<and> op_bits p \<le> 64 \<and> - (2 ^ 63) \<le> op_i64 p \<and> op_i64 p < 2 ^ 63 \<and>
       (opcode p \<noteq> BITFIELDOP_GET \<longrightarrow> op_offset p + op_bits p \<le> Suc hi)) \<and>
     (readonly \<longleftrightarrow> (\<forall>p\<in>set ops. opcode p = BITFIELDOP_GET))"

lemma parse_type: "getBitfieldTypeFromArgument p = Inr (sign, bits) \<Longrightarrow> 0 < bits \<and> bits \<le> 64"
  by (auto simp: getBitfieldTypeFromArgument_def Let_def split: if_splits option.splits)

lemma parse_number: "getLongLongFromObjectOrReply a msg = Inr v \<Longrightarrow> - (2 ^ 63) \<le> v \<and> v < 2 ^ 63"
  using string2ll_ok [of a v] by (auto simp: getLongLongFromObjectOrReply_def getLongLongFromObject_def LLONG_MIN_def LLONG_MAX_def split: option.splits)

lemma parsed_get: "parsed ops ro hi \<Longrightarrow> 0 < op_bits p \<and> op_bits p \<le> 64 \<Longrightarrow> op_i64 p = 0 \<Longrightarrow> opcode p = BITFIELDOP_GET \<Longrightarrow>
    parsed (ops @ [p]) ro hi"
  by (auto simp: parsed_def)

lemma parsed_write: "parsed ops ro hi \<Longrightarrow> 0 < op_bits p \<and> op_bits p \<le> 64 \<Longrightarrow> - (2 ^ 63) \<le> op_i64 p \<and> op_i64 p < 2 ^ 63 \<Longrightarrow>
    opcode p \<noteq> BITFIELDOP_GET \<Longrightarrow> parsed (ops @ [p]) False (max hi (op_offset p + op_bits p - 1))"
  by (fastforce simp: parsed_def)

lemma bitfield_parse_ok: "parsed ops ro hi \<Longrightarrow> bitfield_parse args ow ro hi ops = Inr (ops', ro', hi') \<Longrightarrow> parsed ops' ro' hi'"
proof (induction args ow ro hi ops rule: bitfield_parse.induct)
  case (1 owtype readonly hi ops)
  then show ?case by simp
next
  case (2 subcmd rest owtype readonly hi ops)
  show ?case
  proof (cases "opcode_name subcmd (length rest)")
    case None
    then show ?thesis using 2 by (auto split: if_splits option.splits)
  next
    case (Some opc)
    then obtain sign bits off where ty: "getBitfieldTypeFromArgument (rest ! 0) = Inr (sign, bits)"
      and o: "getBitOffsetFromArgument (rest ! 1) True bits = Inr off"
      using 2(5) by (auto split: sum.splits)
    let ?op = "\<lambda>v. \<lparr>op_offset = off, op_i64 = v, opcode = opc, op_owtype = owtype, op_bits = bits, op_sign = sign\<rparr>"
    note b = parse_type [OF ty]
    show ?thesis
    proof (cases "opc = BITFIELDOP_GET")
      case True
      then show ?thesis using 2(2) [OF Some ty refl o True] 2(4,5) Some ty o parsed_get [of ops readonly hi "?op 0"] b by simp
    next
      case False
      then obtain v where v: "getLongLongFromObjectOrReply (rest ! 2) None = Inr v"
        using 2(5) Some ty o by (auto split: sum.splits)
      have hi: "(if hi < off + bits - 1 then off + bits - 1 else hi) = max hi (off + bits - 1)" by (simp add: max_def)
      have "parsed (ops @ [?op v]) False (if hi < off + bits - 1 then off + bits - 1 else hi)"
        unfolding hi using 2(4) False parsed_write [of ops readonly hi "?op v"] b parse_number [OF v] by simp
      moreover have "bitfield_parse (drop 3 rest) owtype False (if hi < off + bits - 1 then off + bits - 1 else hi) (ops @ [?op v]) =
          Inr (ops', ro', hi')"
        using 2(5) Some ty o False v by (simp add: Let_def)
      ultimately show ?thesis by (rule 2(3) [OF Some ty refl o False refl v])
    qed
  qed
qed

lemma parsed_Nil: "parsed [] True 0" by (simp add: parsed_def)

lemma bitfield_ok:
  assumes "wf_server s" and "keyspace s key \<noteq> Some OtherType"
    and parse: "bitfield_parse args BFOVERFLOW_WRAP True 0 [] = Inr (ops, readonly, hi)"
    and ok: "\<forall>p\<in>set ops. op_bits p \<noteq> 64 \<and> (op_sign p \<and> opcode p = BITFIELDOP_SET \<longrightarrow> 2 ^ (op_bits p - 1) - 1 - op_i64 p < 2 ^ 63)"
    and changes: "changes = length (filter (\<lambda>p. opcode p \<noteq> BITFIELDOP_GET) ops)"
    and spec: "fields_spec ops (sbit (string_at s key)) = (A, rs)"
  shows "\<exists>s'. bitfieldCommand junk uninit (cmd # key # args) s = Some s' \<and>
    sbit (string_at s' key) = A \<and> replies s' = replies s @ MbulkHdr (length ops) # rs \<and>
    (\<forall>k. k \<noteq> key \<longrightarrow> keyspace s' k = keyspace s k) \<and> (changes = 0 \<longrightarrow> keyspace s' = keyspace s) \<and>
    dirty_count s' = dirty_count s + changes \<and>
    call_log s' = call_log s @ (if changes > 0 then [SignalModifiedKey key, NotifyKeyspaceEvent NOTIFY_STRING ''setbit'' key] else [])"
proof -
  have p: "parsed ops readonly hi" using bitfield_parse_ok [OF parsed_Nil parse] .
  have fok: "\<forall>p\<in>set ops. field_op_ok p" using p ok by (fastforce simp: parsed_def field_op_ok_def)
  have same: "string_at (s\<lparr>replies := r\<rparr>) = string_at s" for r by (simp add: string_at_def fun_eq_iff)
  show ?thesis
  proof (cases readonly)
    case True
    have get: "\<forall>p\<in>set ops. opcode p = BITFIELDOP_GET" using p True by (simp add: parsed_def)
    have src: "(case keyspace s key of None \<Rightarrow> Some (s, Some [])
        | Some OtherType \<Rightarrow> Some (reply wrongtypeerr s, None)
        | Some ob \<Rightarrow> do { src \<leftarrow> getObjectReadOnlyString junk ob; Some (s, Some src) }) = Some (s, Some (string_at s key))"
    proof (cases "keyspace s key")
      case (Some ob)
      then have "getObjectReadOnlyString junk ob = Some (contents ob)"
        using assms(1,2) contents_range by (intro object_bytes(2)) auto
      then show ?thesis using Some assms(2) by (cases ob) (auto simp: string_at_def)
    qed (simp add: string_at_def)
    obtain rs' where "bitfield_exec uninit ops (string_at s key) = Some (string_at s key, rs', changes)"
      "(sbit (string_at s key), rs') = fields_spec ops (sbit (string_at s key))"
      using bitfield_exec_ok [of ops "string_at s key" uninit] fok get changes by auto
    moreover have "changes = 0" using get changes by simp
    ultimately show ?thesis using spec True parse src
      by (simp add: bitfieldCommand_def arg_def reply_def same Let_def)
  next
    case False
    obtain q where q: "lookupStringForBitCommand junk key hi s = Some (s\<lparr>keyspace := (keyspace s)(key \<mapsto> RawString q)\<rparr>, Some q)"
      "hi < 8 * length q" "\<And>k. sbit q k \<longleftrightarrow> sbit (string_at s key) k"
      using lookup_ok [OF assms(1,2)] by metis
    have "sbit q = sbit (string_at s key)" using q(3) by blast
    moreover have "\<forall>p\<in>set ops. opcode p \<noteq> BITFIELDOP_GET \<longrightarrow> op_offset p + op_bits p \<le> 8 * length q"
      using p q(2) by (fastforce simp: parsed_def)
    ultimately obtain q' where "bitfield_exec uninit ops q = Some (q', rs, changes)" "sbit q' = A"
      using bitfield_exec_ok [of ops q uninit] fok changes spec by auto
    moreover have "changes > 0" using p False changes by (auto simp: parsed_def filter_empty_conv)
    ultimately show ?thesis using False parse q(1)
      by (simp add: bitfieldCommand_def arg_def reply_def calls_def string_at_def contents_def)
  qed
qed

subsection \<open>All commands\<close>

datatype bit_cmd = SETBIT | GETBIT | BITOP | BITCOUNT | BITPOS | BITFIELD

definition bit_command :: "(nat \<Rightarrow> byte) \<Rightarrow> byte_order \<Rightarrow> nat \<Rightarrow> int \<Rightarrow> bit_cmd \<Rightarrow> byte list list \<Rightarrow> bit_server \<Rightarrow> bit_server option" where
  "bit_command junk he addr uninit c argv s = (case c of
     SETBIT \<Rightarrow> setbitCommand junk argv s | GETBIT \<Rightarrow> getbitCommand junk argv s
   | BITOP \<Rightarrow> bitopCommand junk he argv s | BITCOUNT \<Rightarrow> bitcountCommand junk he addr argv s
   | BITPOS \<Rightarrow> bitposCommand junk he addr argv s | BITFIELD \<Rightarrow> bitfieldCommand junk uninit argv s)"

definition bit_arity :: "bit_cmd \<Rightarrow> nat \<Rightarrow> bool" where
  \<comment> \<open>of the command table: exact for SETBIT and GETBIT, a minimum otherwise\<close>
  "bit_arity c n = (case c of SETBIT \<Rightarrow> n = 4 | GETBIT \<Rightarrow> n = 3 | BITOP \<Rightarrow> n \<ge> 4 | BITCOUNT \<Rightarrow> n \<ge> 2 | BITPOS \<Rightarrow> n \<ge> 3 | BITFIELD \<Rightarrow> n \<ge> 2)"

definition keeps :: "byte list set \<Rightarrow> bit_server \<Rightarrow> bit_server \<Rightarrow> bool" where
  \<comment> \<open>well-formed, and objects of other types stay what they are, up to the keys X\<close>
  "keeps X s s' \<longleftrightarrow> wf_server s' \<and> (\<forall>k. keyspace s k = Some OtherType \<longrightarrow> k \<in> X \<or> keyspace s' k = Some OtherType)"

lemma keeps_same: "wf_server s \<Longrightarrow> keyspace s' = keyspace s \<Longrightarrow> keeps X s s'"
  by (simp add: keeps_def wf_server_def)

lemma keeps_reply [simp]: "wf_server s \<Longrightarrow> keeps X s (reply r s)"
  by (rule keeps_same) (simp_all add: reply_def)

lemma keeps_upd: "wf_server s \<Longrightarrow> keyspace s key \<noteq> Some OtherType \<Longrightarrow> keyspace s' = (keyspace s)(key \<mapsto> RawString p) \<Longrightarrow> keeps X s s'"
  by (auto simp: keeps_def wf_server_def)

lemma setbit_total:
  assumes "wf_server s" and "length argv = 4"
  shows "\<exists>s'. setbitCommand junk argv s = Some s' \<and> keeps {} s s'"
proof -
  obtain cmd key off val where argv: "argv = [cmd, key, off, val]" using assms(2) by (auto simp: numeral_eq_Suc length_Suc_conv)
  show ?thesis
  proof (cases "getBitOffsetFromArgument off False 0")
    case (Inr n)
    show ?thesis
    proof (cases "\<exists>on. getLongFromObjectOrReply val (Some ''bit is not an integer or out of range'') = Inr on \<and> on AND NOT 1 = 0")
      case True
      then obtain on where on: "getLongFromObjectOrReply val (Some ''bit is not an integer or out of range'') = Inr on" "on AND NOT 1 = 0" by blast
      show ?thesis
      proof (cases "keyspace s key = Some OtherType")
        case True
        then show ?thesis using assms(1) Inr on
          by (simp add: argv setbitCommand_def arg_def lookupStringForBitCommand_def Let_def)
      next
        case False
        obtain p where p: "lookupStringForBitCommand junk key n s = Some (s\<lparr>keyspace := (keyspace s)(key \<mapsto> RawString p)\<rparr>, Some p)"
          "n < 8 * length p" using lookup_ok [OF assms(1) False] by metis
        have i: "n div 8 < length p" using p(2) by (simp add: div_less_iff_less_mult mult.commute)
        show ?thesis using Inr on p(1) i keeps_upd [OF assms(1) False]
          by (simp add: argv setbitCommand_def arg_def get_byte_def put_byte_def byte_index Let_def reply_def calls_def)
      qed
    next
      case False
      then show ?thesis using assms(1) Inr
        by (auto simp: argv setbitCommand_def arg_def Let_def split: sum.split)
    qed
  qed (use assms(1) in \<open>simp add: argv setbitCommand_def arg_def\<close>)
qed

lemma getbit_total:
  assumes "wf_server s" and "length argv = 3"
  shows "\<exists>s'. getbitCommand junk argv s = Some s' \<and> keeps {} s s'"
proof -
  obtain cmd key off where argv: "argv = [cmd, key, off]" using assms(2) by (auto simp: numeral_eq_Suc length_Suc_conv)
  show ?thesis
  proof (cases "getBitOffsetFromArgument off False 0")
    case (Inr n)
    show ?thesis
    proof (cases "keyspace s key = Some OtherType")
      case True
      then show ?thesis using Inr assms(1) by (simp add: argv getbitCommand_def arg_def)
    next
      case False
      then show ?thesis using getbit_ok [OF assms(1) False Inr, where junk = junk and cmd = cmd] assms(1) by (simp add: argv)
    qed
  qed (use assms(1) in \<open>simp add: argv getbitCommand_def arg_def\<close>)
qed

lemma bitop_lookup_other: "wf_server s \<Longrightarrow> \<exists>k\<in>set ks. keyspace s k = Some OtherType \<Longrightarrow> bitop_lookup junk s ks j src maxlen minlen = Some None"
proof (induction ks arbitrary: j src maxlen minlen)
  case (Cons k ks)
  show ?case
  proof (cases "keyspace s k")
    case None
    then show ?thesis using Cons by simp
  next
    case (Some ob)
    then have "ob \<noteq> OtherType \<Longrightarrow> getDecodedObject junk ob = Some (contents ob)"
      using contents_range [OF Cons.prems(1)] by (intro object_bytes(1)) auto
    then show ?thesis using Some Cons by (cases ob) (auto simp: Let_def)
  qed
qed simp

lemma bitop_total:
  assumes "wf_server s" and "length argv \<ge> 4"
  shows "\<exists>s'. bitopCommand junk he argv s = Some s' \<and> keeps {argv ! 2} s s'"
proof -
  obtain cmd opname target keys where argv: "argv = cmd # opname # target # keys" and ne: "keys \<noteq> []"
    using assms(2) by (auto simp: numeral_eq_Suc Suc_le_length_iff)
  show ?thesis
  proof (cases "bitop_name opname")
    case None
    then show ?thesis using assms(1) by (simp add: argv bitopCommand_def arg_def)
  next
    case (Some op)
    show ?thesis
    proof (cases "op = BITOP_NOT \<and> length argv \<noteq> 4")
      case True
      then show ?thesis using Some assms(1) by (simp add: argv bitopCommand_def arg_def)
    next
      case False
      then have not: "op = BITOP_NOT \<Longrightarrow> length keys = 1" by (auto simp: argv)
      show ?thesis
      proof (cases "\<exists>k\<in>set keys. keyspace s k = Some OtherType")
        case True
        then have l: "bitop_lookup junk s keys 0 [] 0 0 = Some None" by (rule bitop_lookup_other [OF assms(1)])
        have "arg argv 1 = Some opname" "arg argv 2 = Some target" "drop 3 argv = keys" by (simp_all add: argv arg_def)
        then have "bitopCommand junk he argv s = Some (reply wrongtypeerr s)" unfolding bitopCommand_def using l Some False
          by (simp only: Option.bind.bind_lunit option.case if_False)
        then show ?thesis using assms(1) by simp
      next
        case no: False
        then show ?thesis
          using bitop_ok [OF assms(1) Some ne not _ refl, where junk = junk and he = he and cmd = cmd and target = target] assms(1)
          by (auto simp: argv keeps_def wf_server_def)
      qed
    qed
  qed
qed

lemma object_p: "wf_server s \<Longrightarrow> keyspace s key = Some ob \<Longrightarrow> ob \<noteq> OtherType \<Longrightarrow> getObjectReadOnlyString junk ob = Some (contents ob)"
  using contents_range [of s key] by (intro object_bytes(2)) auto

lemma count_full: "count_range he addr p 0 (int (length p) - 1) = Some (int (ones (bits_of p)))"
  using count_range_ok [of he addr p 0 "- 1"] byte_slice_full [of p] unfolding whole_range by simp

lemma bitcount_total:
  assumes "wf_server s" and "length argv \<ge> 2"
  shows "\<exists>s'. bitcountCommand junk he addr argv s = Some s' \<and> keeps {} s s'"
proof -
  obtain cmd key rest where argv: "argv = cmd # key # rest" using assms(2) by (auto simp: numeral_eq_Suc Suc_le_length_iff)
  show ?thesis
  proof (cases "keyspace s key")
    case None
    then show ?thesis using assms(1) by (simp add: argv bitcountCommand_def arg_def)
  next
    case (Some ob)
    show ?thesis
    proof (cases "ob = OtherType")
      case True
      then show ?thesis using Some assms(1) by (simp add: argv bitcountCommand_def arg_def)
    next
      case False
      note o = object_p [OF assms(1) Some False, of junk]
      show ?thesis using o Some False assms(1)
        by (cases ob) (auto simp: argv bitcountCommand_def arg_def clip_range_eq count_range_ok count_full Let_def split: sum.split)
    qed
  qed
qed

lemma bitpos_total:
  assumes "wf_server s" and "length argv \<ge> 3"
  shows "\<exists>s'. bitposCommand junk he addr argv s = Some s' \<and> keeps {} s s'"
proof -
  obtain cmd key v rest where argv: "argv = cmd # key # v # rest" using assms(2) by (auto simp: numeral_eq_Suc Suc_le_length_iff)
  show ?thesis
  proof (cases "\<exists>b. getLongFromObjectOrReply v None = Inr b \<and> (b = 0 \<or> b = 1)")
    case False
    then show ?thesis using assms(1) by (auto simp: argv bitposCommand_def arg_def split: sum.split)
  next
    case True
    then obtain b where b: "getLongFromObjectOrReply v None = Inr b" "b = 0 \<or> b = 1" by blast
    show ?thesis
    proof (cases "keyspace s key")
      case None
      then show ?thesis using assms(1) b by (simp add: argv bitposCommand_def arg_def)
    next
      case (Some ob)
      show ?thesis
      proof (cases "ob = OtherType")
        case True
        then show ?thesis using Some assms(1) b by (simp add: argv bitposCommand_def arg_def)
      next
        case False
        note o = object_p [OF assms(1) Some False, of junk]
        have full: "\<exists>n. pos_range he addr p c e 0 (int (length p) - 1) = Some n" for p c e
          using pos_range_ok [of he addr p c e 0 "- 1"] unfolding whole_range by blast
        show ?thesis using o Some False assms(1) b full [of "contents ob" "b \<noteq> 0" False]
          by (cases ob) (auto simp: argv bitposCommand_def arg_def clip_range_eq pos_range_ok Let_def split: sum.split)
      qed
    qed
  qed
qed

lemma signed_check_total: "0 < bits \<Longrightarrow> bits < 64 \<Longrightarrow> \<exists>r. checkSignedBitfieldOverflow v incr bits ow = Some r"
  by (cases ow) (auto simp: checkSignedBitfieldOverflow_def top_bit_eq shl_def Let_def)

lemma unsigned_check_total: "0 < bits \<Longrightarrow> bits < 64 \<Longrightarrow> \<exists>r. checkUnsignedBitfieldOverflow v incr bits ow = Some r"
  by (cases ow) (auto simp: checkUnsignedBitfieldOverflow_def shl_def Let_def)

lemma write_total:
  assumes "0 < op_bits p" "op_bits p < 64" and len: "op_offset p + op_bits p \<le> 8 * length q"
  shows "\<exists>q' r. signed_write uninit p q = Some (q', r) \<and> length q' = length q"
    and "\<exists>q' r. unsigned_write w p q = Some (q', r) \<and> length q' = length q"
proof -
  have b: "op_bits p \<le> 64" using assms by simp
  have set: "\<exists>q'. setUnsignedBitfield q (op_offset p) (op_bits p) x = Some q' \<and> length q' = length q" for x
    using setUnsignedBitfield_ok [OF len b, of x] by blast
  obtain r where r: "checkSignedBitfieldOverflow v i (op_bits p) ow = Some (r v i ow)" for v i ow
    using signed_check_total [OF assms(1,2)] by metis
  obtain u where u: "checkUnsignedBitfieldOverflow v i (op_bits p) ow = Some (u v i ow)" for v i ow
    using unsigned_check_total [OF assms(1,2)] by metis
  have g: "\<exists>v. getSignedBitfield q (op_offset p) (op_bits p) = Some v"
    using getSignedBitfield_ok [OF len assms(1) b] assms(2) by simp
  show "\<exists>q' r. signed_write uninit p q = Some (q', r) \<and> length q' = length q"
    using g set by (auto simp: signed_write_def r Let_def setSignedBitfield_def split_beta) (metis bind.bind_lunit)+
  show "\<exists>q' r. unsigned_write w p q = Some (q', r) \<and> length q' = length q"
    using set by (auto simp: unsigned_write_def u getUnsignedBitfield_ok [OF len b] Let_def split_beta) (metis bind.bind_lunit)+
qed

lemma bitfield_exec_total:
  "\<forall>p\<in>set ops. 0 < op_bits p \<and> op_bits p < 64 \<and> (opcode p \<noteq> BITFIELDOP_GET \<longrightarrow> op_offset p + op_bits p \<le> 8 * length q) \<Longrightarrow>
    \<exists>q' rs n. bitfield_exec uninit ops q = Some (q', rs, n)"
proof (induction ops arbitrary: q)
  case (Cons p ops)
  show ?case
  proof (cases "opcode p = BITFIELDOP_GET")
    case True
    moreover obtain q' rs n where "bitfield_exec uninit ops q = Some (q', rs, n)" using Cons.IH [of q] Cons.prems by auto
    ultimately show ?thesis using Cons.prems field_get_ok [of p q] by auto
  next
    case False
    then have len: "op_offset p + op_bits p \<le> 8 * length q" using Cons.prems by simp
    obtain q1 r where q1: "(if op_sign p then signed_write uninit p q else unsigned_write (word_of_int uninit) p q) = Some (q1, r)"
      "length q1 = length q"
      using write_total [OF _ _ len] Cons.prems by (cases "op_sign p") (simp, blast)+
    moreover have "opcode p = BITFIELDOP_SET \<or> opcode p = BITFIELDOP_INCRBY" using False by (cases "opcode p") auto
    moreover have "\<exists>q' rs n. bitfield_exec uninit ops q1 = Some (q', rs, n)" using Cons q1(2) by simp
    ultimately show ?thesis by auto
  qed
qed simp

lemma bitfield_total:
  assumes "wf_server s" and "length argv \<ge> 2"
    and "\<forall>ops ro hi. bitfield_parse (drop 2 argv) BFOVERFLOW_WRAP True 0 [] = Inr (ops, ro, hi) \<longrightarrow> (\<forall>p\<in>set ops. op_bits p \<noteq> 64)"
  shows "\<exists>s'. bitfieldCommand junk uninit argv s = Some s' \<and> keeps {} s s'"
proof -
  obtain cmd key args where argv: "argv = cmd # key # args" using assms(2) by (auto simp: numeral_eq_Suc Suc_le_length_iff)
  show ?thesis
  proof (cases "bitfield_parse args BFOVERFLOW_WRAP True 0 []")
    case (Inl e)
    then show ?thesis using assms(1) by (simp add: argv bitfieldCommand_def arg_def)
  next
    case (Inr r)
    then obtain ops ro hi where parse: "bitfield_parse args BFOVERFLOW_WRAP True 0 [] = Inr (ops, ro, hi)" by (cases r) auto
    have p: "parsed ops ro hi" using bitfield_parse_ok [OF parsed_Nil parse] .
    have bits: "\<forall>p\<in>set ops. 0 < op_bits p \<and> op_bits p < 64"
      using p assms(3) parse unfolding argv by (fastforce simp: parsed_def)
    show ?thesis
    proof (cases "keyspace s key = Some OtherType")
      case True
      then show ?thesis using assms(1) parse by (simp add: argv bitfieldCommand_def arg_def lookupStringForBitCommand_def Let_def)
    next
      case False
      show ?thesis
      proof (cases ro)
        case True
        have "\<forall>p\<in>set ops. opcode p = BITFIELDOP_GET" using p True by (simp add: parsed_def)
        then obtain q' rs n where x: "bitfield_exec uninit ops (string_at s key) = Some (q', rs, n)"
          using bitfield_exec_total [of ops "string_at s key" uninit] bits by auto
        have "(case keyspace s key of None \<Rightarrow> Some (s, Some [])
            | Some OtherType \<Rightarrow> Some (reply wrongtypeerr s, None)
            | Some ob \<Rightarrow> do { src \<leftarrow> getObjectReadOnlyString junk ob; Some (s, Some src) }) = Some (s, Some (string_at s key))"
          using False object_p [OF assms(1), of key _ junk] by (auto simp: string_at_def split: option.split robj.split)
        then show ?thesis using x parse True keeps_upd [OF assms(1) False] keeps_same [OF assms(1)]
          by (simp add: argv bitfieldCommand_def arg_def reply_def calls_def Let_def)
      next
        case wr: False
        obtain q where q: "lookupStringForBitCommand junk key hi s = Some (s\<lparr>keyspace := (keyspace s)(key \<mapsto> RawString q)\<rparr>, Some q)"
          "hi < 8 * length q" using lookup_ok [OF assms(1) False] by metis
        have "\<forall>p\<in>set ops. opcode p \<noteq> BITFIELDOP_GET \<longrightarrow> op_offset p + op_bits p \<le> 8 * length q"
          using p q(2) by (fastforce simp: parsed_def)
        then obtain q' rs n where "bitfield_exec uninit ops q = Some (q', rs, n)"
          using bitfield_exec_total [of ops q uninit] bits by auto
        then show ?thesis using q(1) parse wr keeps_upd [OF assms(1) False]
          by (simp add: argv bitfieldCommand_def arg_def reply_def calls_def Let_def)
      qed
    qed
  qed
qed

section \<open>Properties\<close>

lemma offset_of:
  assumes "n < 2 ^ 32"
  shows "getBitOffsetFromArgument (dec (int n)) False 0 = Inr n"
proof -
  have "string2ll (dec (int n)) = Some (int n)" using assms by (simp add: string2ll_ok LLONG_MIN_def LLONG_MAX_def)
  moreover have "drop_bit 3 n < 512 * 1024 * 1024" using assms by (simp add: drop_bit_eq_div)
  ultimately show ?thesis by (simp add: getBitOffsetFromArgument_def Let_def)
qed

text \<open>The multiplication of an offset after \<open>#\<close> by the width of the field wraps: the offset number
  2 ^ 58 of fields of 64 bits is taken for the offset 0 and not refused.\<close>

lemma hash_offset_wraps: "getBitOffsetFromArgument (35 # dec (2 ^ 58)) True 64 = Inr 0"
proof -
  have "string2ll (dec (2 ^ 58)) = Some (2 ^ 58)" by (simp add: string2ll_ok LLONG_MIN_def LLONG_MAX_def)
  moreover have "i64 (2 ^ 58 * 64) = 0" by (simp add: i64_def)
  ultimately show ?thesis by (simp add: getBitOffsetFromArgument_def Let_def)
qed

text \<open>Property C11. SETBIT with a valid offset and bit on a missing key or a string, integer encoded or not,
  replies the old bit, changes this bit and no other of the string continued with zeros, leaves
  other keys alone, reports the modification and counts it. Any GETBIT on the key afterwards
  replies the new bit at this offset and the old ones elsewhere.\<close>

theorem setbit_getbit:
  assumes "wf_server s" and "keyspace s key \<noteq> Some OtherType" and "getBitOffsetFromArgument off False 0 = Inr n"
    and "string2ll val = Some (of_bool v)"
  shows "\<exists>s'. setbitCommand junk [cmd, key, off, val] s = Some s' \<and> wf_server s' \<and>
    (\<forall>k. sbit (string_at s' key) k \<longleftrightarrow> (if k = n then v else sbit (string_at s key) k)) \<and>
    (\<forall>k. k \<noteq> key \<longrightarrow> keyspace s' k = keyspace s k) \<and>
    replies s' = replies s @ [LongLong (of_bool (sbit (string_at s key) n))] \<and> dirty_count s' = dirty_count s + 1 \<and>
    call_log s' = call_log s @ [SignalModifiedKey key, NotifyKeyspaceEvent NOTIFY_STRING ''setbit'' key] \<and>
    (\<forall>off2 k. getBitOffsetFromArgument off2 False 0 = Inr k \<longrightarrow>
      getbitCommand junk [cmd2, key, off2] s' =
        Some (reply (LongLong (of_bool (if k = n then v else sbit (string_at s key) k))) s'))"
proof -
  obtain p s' where set: "setbitCommand junk [cmd, key, off, val] s = Some s'"
    and p: "\<And>k. sbit p k \<longleftrightarrow> (if k = n then v else sbit (string_at s key) k)"
    and s': "s' = s\<lparr>keyspace := (keyspace s)(key \<mapsto> RawString p), dirty_count := dirty_count s + 1,
        call_log := call_log s @ [SignalModifiedKey key, NotifyKeyspaceEvent NOTIFY_STRING ''setbit'' key],
        replies := replies s @ [LongLong (of_bool (sbit (string_at s key) n))]\<rparr>"
    using setbit_ok [OF assms, where junk = junk and cmd = cmd] by metis
  have wf: "wf_server s'" using assms(1) by (auto simp: wf_server_def s')
  have at: "string_at s' key = p" "keyspace s' key \<noteq> Some OtherType" by (simp_all add: string_at_def contents_def s')
  have get: "getbitCommand junk [cmd2, key, off2] s' = Some (reply (LongLong (of_bool (if k = n then v else sbit (string_at s key) k))) s')"
    if "getBitOffsetFromArgument off2 False 0 = Inr k" for off2 k
    using getbit_ok [OF wf at(2) that, where junk = junk and cmd = cmd2] unfolding at(1) p .
  have rest: "\<forall>k. k \<noteq> key \<longrightarrow> keyspace s' k = keyspace s k" "replies s' = replies s @ [LongLong (of_bool (sbit (string_at s key) n))]"
    "dirty_count s' = dirty_count s + 1"
    "call_log s' = call_log s @ [SignalModifiedKey key, NotifyKeyspaceEvent NOTIFY_STRING ''setbit'' key]"
    by (simp_all add: s')
  show ?thesis using set wf p rest get unfolding at(1) [symmetric] by blast
qed

definition bit_demo :: bit_server where
  "bit_demo = \<lparr>keyspace = [[97] \<mapsto> IntString (- 12), [98] \<mapsto> RawString [0xF0, 0x0F]], dirty_count = 0, call_log = [], replies = []\<rparr>"

lemma demo_wf: "wf_server bit_demo"
  by (auto simp: wf_server_def bit_demo_def LLONG_MIN_def LLONG_MAX_def split: if_splits)

lemma demo_strings: "string_at bit_demo [97] = [45, 49, 50]" "string_at bit_demo [98] = [0xF0, 0x0F]" "string_at bit_demo [99] = []"
  by (simp_all add: string_at_def contents_def bit_demo_def dec_def dec_nat_big dec_nat_small)

theorem setbit_getbit_witness:
  "\<exists>s'. setbitCommand (\<lambda>_. 0) [[], [97], dec (int 100), [49]] bit_demo = Some s' \<and>
    replies s' = [LongLong 0] \<and> getbitCommand (\<lambda>_. 0) [[], [97], dec (int 100)] s' = Some (reply (LongLong 1) s') \<and>
    getbitCommand (\<lambda>_. 0) [[], [97], dec (int 2)] s' = Some (reply (LongLong 1) s')"
proof -
  have v: "string2ll [49] = Some (of_bool True)"
    by (simp add: string2ll_ok LLONG_MIN_def LLONG_MAX_def dec_def dec_nat_small)
  have k: "keyspace bit_demo [97] \<noteq> Some OtherType" "replies bit_demo = []" by (simp_all add: bit_demo_def)
  have b: "\<not> sbit [45, 49, 50] 100" "sbit [45, 49, 50] 2"
    by (simp_all add: sbit_def bit_at_def)
  have o: "getBitOffsetFromArgument (dec (int 100)) False 0 = Inr 100" "getBitOffsetFromArgument (dec (int 2)) False 0 = Inr 2"
    by (rule offset_of; simp)+
  obtain s' where "setbitCommand (\<lambda>_. 0) [[], [97], dec (int 100), [49]] bit_demo = Some s'"
    "replies s' = replies bit_demo @ [LongLong (of_bool (sbit [45, 49, 50] 100))]"
    "\<forall>off2 k. getBitOffsetFromArgument off2 False 0 = Inr k \<longrightarrow> getbitCommand (\<lambda>_. 0) [[], [97], off2] s' =
      Some (reply (LongLong (of_bool (if k = 100 then True else sbit [45, 49, 50] k))) s')"
    using setbit_getbit [OF demo_wf k(1) o(1) v, where junk = "\<lambda>_. 0" and cmd = "[]" and ?cmd2.0 = "[]"]
    unfolding demo_strings(1) by blast
  then show ?thesis using o k(2) b by auto
qed

text \<open>Property C10. BITOP stores under the target key a string as long as the longest source whose bit k is
  the conjunction, disjunction, parity or negation of the bits k of the sources, each continued
  with zeros; a missing source counts as empty and integer encoded ones by their decimal notation.
  The path that works on 32 bytes at a time gives the same bits on hosts of either byte order and
  stays in bounds. When all sources are empty the target is deleted. Other keys stay, the change
  of the target is reported to watching clients and to subscribers, and the reply is the length.\<close>

theorem bitop_correct:
  assumes "wf_server s" and "bitop_name opname = Some op" and "keys \<noteq> []" and "op = BITOP_NOT \<longrightarrow> length keys = 1"
    and "\<forall>k\<in>set keys. keyspace s k \<noteq> Some OtherType"
    and "n = fold max (map (\<lambda>k. length (string_at s k)) keys) 0"
  shows "\<exists>s'. bitopCommand junk he (cmd # opname # target # keys) s = Some s' \<and>
    keyspace s' target = (if n = 0 then None else Some (RawString (string_at s' target))) \<and> length (string_at s' target) = n \<and>
    (\<forall>k<8 * n. sbit (string_at s' target) k \<longleftrightarrow> bitop_spec op (map (\<lambda>key. sbit (string_at s key) k) keys)) \<and>
    (\<forall>k. k \<noteq> target \<longrightarrow> keyspace s' k = keyspace s k) \<and>
    replies s' = replies s @ [LongLong (int n)] \<and> dirty_count s' = dirty_count s + 1 \<and>
    call_log s' = call_log s @ (if n \<noteq> 0 then [SignalModifiedKey target, NotifyKeyspaceEvent NOTIFY_STRING ''set'' target]
      else if keyspace s target \<noteq> None then [SignalModifiedKey target, NotifyKeyspaceEvent NOTIFY_GENERIC ''del'' target] else [])"
proof -
  let ?srcs = "map (string_at s) keys"
  let ?res = "map (bitop_byte op ?srcs) [0..<n]"
  have not: "op = BITOP_NOT \<Longrightarrow> tl ?srcs = []" using assms(3,4) by (cases keys) auto
  have "sbit ?res k \<longleftrightarrow> bitop_spec op (map (\<lambda>key. sbit (string_at s key) k) keys)" if "k < 8 * n" for k
    using sbit_bitop [of ?srcs op k n] assms(3) not that by (simp add: comp_def)
  then show ?thesis
    using bitop_ok [OF assms(1-3) _ assms(5,6), where junk = junk and he = he and cmd = cmd and target = target] assms(4)
    by (auto simp: string_at_def contents_def)
qed

theorem bitop_correct_witness:
  "\<exists>s'. bitopCommand (\<lambda>_. 0) BigEndian [[], bytes_of ''xor'', [99], [97], [98]] bit_demo = Some s' \<and>
    length (string_at s' [99]) = 3 \<and> replies s' = [LongLong 3] \<and> sbit (string_at s' [99]) 0"
proof -
  have name: "bitop_name (bytes_of ''xor'') = Some BITOP_XOR" by code_simp
  have n: "3 = fold max (map (\<lambda>k. length (string_at bit_demo k)) [[97], [98]]) 0" by (simp add: demo_strings)
  have k: "\<forall>k\<in>set [[97], [98]]. keyspace bit_demo k \<noteq> Some OtherType" by (simp add: bit_demo_def)
  have "bitop_spec BITOP_XOR (map (\<lambda>key. sbit (string_at bit_demo key) 0) [[97], [98]])"
    by (simp add: demo_strings bitop_spec_def sbit_def bit_at_def)
  moreover have "replies bit_demo = []" by (simp add: bit_demo_def)
  ultimately show ?thesis
    using bitop_correct [OF demo_wf name _ _ k n, where junk = "\<lambda>_. 0" and he = BigEndian and cmd = "[]" and target = "[99]"]
    by auto
qed

text \<open>Property C9. BITFIELD whose arguments parse executes its operations in their order on the string as an
  array of bits that is continued with zeros: a reply and a new array for each operation as the
  specification says, with the value, the wrapped or saturated value, or a null for a refused
  operation. Other keys stay, a command that only reads changes nothing, and each SET and INCRBY
  counts as a change. The string is enlarged before the first operation so that all writes are in
  bounds. Excluded are fields of 64 bits, and SET of a signed value so low that its distance to
  the maximum does not fit 64 bits.\<close>

theorem bitfield_refines_bits:
  assumes "wf_server s" and "keyspace s key \<noteq> Some OtherType"
    and "bitfield_parse args BFOVERFLOW_WRAP True 0 [] = Inr (ops, readonly, hi)"
    and "\<forall>p\<in>set ops. op_bits p \<noteq> 64 \<and> (op_sign p \<and> opcode p = BITFIELDOP_SET \<longrightarrow> 2 ^ (op_bits p - 1) - 1 - op_i64 p < 2 ^ 63)"
    and "changes = length (filter (\<lambda>p. opcode p \<noteq> BITFIELDOP_GET) ops)"
    and "fields_spec ops (sbit (string_at s key)) = (A, rs)"
  shows "\<exists>s'. bitfieldCommand junk uninit (cmd # key # args) s = Some s' \<and>
    sbit (string_at s' key) = A \<and> replies s' = replies s @ MbulkHdr (length ops) # rs \<and>
    (\<forall>k. k \<noteq> key \<longrightarrow> keyspace s' k = keyspace s k) \<and> (changes = 0 \<longrightarrow> keyspace s' = keyspace s) \<and>
    dirty_count s' = dirty_count s + changes \<and>
    call_log s' = call_log s @ (if changes > 0 then [SignalModifiedKey key, NotifyKeyspaceEvent NOTIFY_STRING ''setbit'' key] else [])"
  by (rule bitfield_ok [OF assms])

definition demo_args :: "byte list list" where
  "demo_args = map bytes_of [''OVERFLOW'', ''sat'', ''INCRBY'', ''i5'', ''3'', ''100'', ''get'', ''u4'', ''#1'']"

definition demo_ops :: "bitfieldOp list" where
  "demo_ops =
     [\<lparr>op_offset = 3, op_i64 = 100, opcode = BITFIELDOP_INCRBY, op_owtype = BFOVERFLOW_SAT, op_bits = 5, op_sign = True\<rparr>,
      \<lparr>op_offset = 4, op_i64 = 0, opcode = BITFIELDOP_GET, op_owtype = BFOVERFLOW_SAT, op_bits = 4, op_sign = False\<rparr>]"

lemma demo_parse: "bitfield_parse demo_args BFOVERFLOW_WRAP True 0 [] = Inr (demo_ops, False, 7)"
proof -
  have names: "opcode_name (bytes_of ''OVERFLOW'') n = None" "3 \<le> n \<Longrightarrow> opcode_name (bytes_of ''INCRBY'') n = Some BITFIELDOP_INCRBY"
    "2 \<le> n \<Longrightarrow> opcode_name (bytes_of ''get'') n = Some BITFIELDOP_GET" "overflow_name (bytes_of ''sat'') = Some BFOVERFLOW_SAT"
    "strcaseeq (bytes_of ''OVERFLOW'') ''overflow''" for n
    by (simp_all add: opcode_name_def overflow_name_def strcaseeq_def bytes_of_def of_char_def byte_lower_def tolower_def)
  have numbers: "string2ll [51] = Some 3" "string2ll [49] = Some 1" "string2ll [52] = Some 4" "string2ll [53] = Some 5"
    "string2ll [49, 48, 48] = Some 100"
    by (simp_all add: string2ll_ok LLONG_MIN_def LLONG_MAX_def dec_def dec_nat_small dec_nat_big)
  have args: "getBitfieldTypeFromArgument (bytes_of ''i5'') = Inr (True, 5)" "getBitfieldTypeFromArgument (bytes_of ''u4'') = Inr (False, 4)"
    "getBitOffsetFromArgument (bytes_of ''3'') True 5 = Inr 3" "getBitOffsetFromArgument (bytes_of ''#1'') True 4 = Inr 4"
    "getLongLongFromObjectOrReply (bytes_of ''100'') None = Inr 100"
    by (simp_all add: getBitfieldTypeFromArgument_def getBitOffsetFromArgument_def getLongLongFromObjectOrReply_def getLongLongFromObject_def
        bytes_of_def of_char_def numbers i64_def Let_def)
  show ?thesis by (simp add: demo_args_def demo_ops_def names args)
qed

theorem bitfield_refines_bits_witness:
  "\<exists>s'. bitfieldCommand (\<lambda>_. 0) 0 ([] # [98] # demo_args) bit_demo = Some s' \<and>
    replies s' = [MbulkHdr 2, LongLong 15, LongLong 15] \<and> dirty_count s' = 1"
proof -
  have k: "keyspace bit_demo [98] \<noteq> Some OtherType" "replies bit_demo = []" "dirty_count bit_demo = 0"
    by (simp_all add: bit_demo_def)
  have "snd (fields_spec demo_ops (sbit [0xF0, 0x0F])) = [LongLong 15, LongLong 15]" by code_simp
  then obtain A where sp: "fields_spec demo_ops (sbit (string_at bit_demo [98])) = (A, [LongLong 15, LongLong 15])"
    unfolding demo_strings(2) by (metis prod.collapse)
  have ok: "\<forall>p\<in>set demo_ops. op_bits p \<noteq> 64 \<and>
      (op_sign p \<and> opcode p = BITFIELDOP_SET \<longrightarrow> 2 ^ (op_bits p - 1) - 1 - op_i64 p < (2 :: int) ^ 63)"
    and n: "1 = length (filter (\<lambda>p. opcode p \<noteq> BITFIELDOP_GET) demo_ops)" "length demo_ops = 2"
    by (simp_all add: demo_ops_def)
  show ?thesis
    using bitfield_refines_bits [OF demo_wf k(1) demo_parse ok n(1) sp, of "\<lambda>_. 0" 0 "[]"] k(2,3) n(2) by auto
qed

text \<open>Every bit command that is called with the number of arguments the command table asks for
  returns on every well-formed keyspace, whatever its arguments say and whatever the keys hold, with the
  exception of BITFIELD on fields of 64 bits: no access is out of bounds, no assertion fails and no panic
  is reached. The keyspace stays well-formed and a key of another type keeps its type and value,
  unless it is the target of BITOP.\<close>

lemma bit_commands_total:
  assumes "wf_server s" and "bit_arity c (length argv)"
    and "c = BITFIELD \<longrightarrow> (\<forall>ops ro hi. bitfield_parse (drop 2 argv) BFOVERFLOW_WRAP True 0 [] = Inr (ops, ro, hi) \<longrightarrow>
      (\<forall>p\<in>set ops. op_bits p \<noteq> 64))"
  shows "\<exists>s'. bit_command junk he addr uninit c argv s = Some s' \<and> wf_server s' \<and>
    (\<forall>k. keyspace s k = Some OtherType \<longrightarrow> (c = BITOP \<and> k = argv ! 2) \<or> keyspace s' k = Some OtherType)"
proof -
  have "\<exists>s'. bit_command junk he addr uninit c argv s = Some s' \<and> keeps (if c = BITOP then {argv ! 2} else {}) s s'"
    using assms setbit_total getbit_total bitop_total bitcount_total bitpos_total bitfield_total
    by (cases c) (simp_all add: bit_command_def bit_arity_def)
  then show ?thesis by (cases "c = BITOP") (auto simp: keeps_def)
qed

text \<open>BITCOUNT and BITPOS on a range of bytes of a string. BITCOUNT replies the number of ones in the range;
  with two negative indexes in the wrong order it replies 0. BITPOS replies the position, from
  the start of the string, of the first bit asked for in the range; without one it replies -1,
  or the position after the string when a 0 is asked for and no end was given.\<close>

lemma bit_ranges_correct:
  assumes "wf_server s" and "keyspace s key = Some ob" "ob \<noteq> OtherType" and "p = string_at s key"
    and "string2ll a = Some start" "string2ll c = Some end" and "string2ll v = Some (of_bool b)"
  shows "bitcountCommand junk he addr [cmd, key] s = Some (reply (LongLong (int (ones (bits_of p)))) s) \<and>
    bitcountCommand junk he addr [cmd, key, a, c] s =
      Some (reply (LongLong (int (if start < 0 \<and> end < start then 0 else ones (bits_of (byte_slice p start end))))) s) \<and>
    bitposCommand junk he addr [cmd, key, v] s = Some (reply (LongLong (pos_spec p 0 (- 1) b False)) s) \<and>
    bitposCommand junk he addr [cmd, key, v, a] s = Some (reply (LongLong (pos_spec p start (- 1) b False)) s) \<and>
    bitposCommand junk he addr [cmd, key, v, a, c] s = Some (reply (LongLong (pos_spec p start end b True)) s)"
  by (simp add: bitcount_ok [OF assms(1-4)] bitpos_ok [OF assms(1-4,7)] assms(5,6))

end
