(* ===== verification/Multi.thy ===== *)
theory Multi
  imports Redis_Prelude
begin

section \<open>Transactions: MULTI, EXEC, WATCH (multi.c)\<close>

text \<open>
  The server keeps, per database, which clients watch which key (\<open>db->watched_keys\<close>), and
  per client the list of keys it watches, its flags and its queue of commands. A command of
  the command table is a parameter \<open>proc\<close>: from the flags of the client, its database and the
  keyspace it gives the new keyspace, the keys it signals as modified, by how much it raises
  \<open>server.dirty\<close> and what it replies. The flags are an argument because some commands look at
  them: inside a transaction BLPOP, BRPOP and BRPOPLPUSH do not block and WAIT does not wait
  (t\_list.c, replication.c). A failed assertion is \<open>None\<close>. Databases are numbered; client ids
  stand for client pointers; the refcounts of the key objects are not represented. Keys have no
  time to live here, so a key does not vanish by itself.
\<close>

datatype client_flag = CLIENT_MULTI | CLIENT_DIRTY_CAS | CLIENT_DIRTY_EXEC

datatype ('k, 'cmd) queued = Unwatch | Flushdb | Flushall | Select nat | Swapdb nat nat | Table 'cmd

datatype ('k, 'cmd) request =
  Multi | Exec | Discard | Watch "'k list" | Command "('k, 'cmd) queued" | Rejected bool

record ('k, 'cmd) client =
  db :: nat
  flags :: "client_flag set"
  commands :: "('k, 'cmd) queued list"
  watched_keys :: "(nat \<times> 'k) list"

record ('k, 'v, 'cmd) server =
  client_list :: "nat list"
  clients :: "nat \<Rightarrow> ('k, 'cmd) client"
  db_watched_keys :: "nat \<Rightarrow> 'k \<rightharpoonup> nat list"
  keyspace :: "nat \<Rightarrow> 'k \<rightharpoonup> 'v"
  dirty :: nat
  propagated :: "('k, 'cmd) request list"

record ('k, 'v, 'cmd, 'r) command_table =
  proc :: "'cmd \<Rightarrow> client_flag set \<Rightarrow> nat \<Rightarrow> (nat \<Rightarrow> 'k \<rightharpoonup> 'v) \<Rightarrow> (nat \<Rightarrow> 'k \<rightharpoonup> 'v) \<times> (nat \<times> 'k) list \<times> nat \<times> 'r"
  write_flag :: "'cmd \<Rightarrow> bool" \<comment> \<open>neither CMD\_READONLY nor CMD\_ADMIN\<close>
  dbnum :: nat

datatype 'r reply =
  OK | QUEUED | Err string | NullMultiBulk | ExecAbort | Reply 'r | MultiBulk "'r reply list"

definition upd_client :: "nat \<Rightarrow> (('k, 'cmd) client \<Rightarrow> ('k, 'cmd) client) \<Rightarrow> ('k, 'v, 'cmd) server \<Rightarrow> ('k, 'v, 'cmd) server" where
  "upd_client c f s = s\<lparr>clients := (clients s)(c := f (clients s c))\<rparr>"

definition add_flag :: "client_flag \<Rightarrow> nat \<Rightarrow> ('k, 'v, 'cmd) server \<Rightarrow> ('k, 'v, 'cmd) server" where
  "add_flag fl c = upd_client c (\<lambda>cl. cl\<lparr>flags := insert fl (flags cl)\<rparr>)"

definition del_flags :: "client_flag set \<Rightarrow> nat \<Rightarrow> ('k, 'v, 'cmd) server \<Rightarrow> ('k, 'v, 'cmd) server" where
  "del_flags fls c = upd_client c (\<lambda>cl. cl\<lparr>flags := flags cl - fls\<rparr>)"

definition has_flag :: "('k, 'v, 'cmd) server \<Rightarrow> nat \<Rightarrow> client_flag \<Rightarrow> bool" where
  "has_flag s c fl \<longleftrightarrow> fl \<in> flags (clients s c)"

subsection \<open>Watched keys\<close>

definition set_watchers :: "nat \<Rightarrow> 'k \<Rightarrow> nat list option \<Rightarrow> ('k, 'v, 'cmd) server \<Rightarrow> ('k, 'v, 'cmd) server" where
  "set_watchers d k w s = s\<lparr>db_watched_keys := (db_watched_keys s)(d := (db_watched_keys s d)(k := w))\<rparr>"

definition watchForKey :: "nat \<Rightarrow> 'k \<Rightarrow> ('k, 'v, 'cmd) server \<Rightarrow> ('k, 'v, 'cmd) server" where
  "watchForKey c k s =
     (let d = db (clients s c) in
      if (d, k) \<in> set (watched_keys (clients s c)) then s
      else
        let ws = (case db_watched_keys s d k of None \<Rightarrow> [] | Some ws \<Rightarrow> ws) in
        upd_client c (\<lambda>cl. cl\<lparr>watched_keys := watched_keys cl @ [(d, k)]\<rparr>)
          (set_watchers d k (Some (ws @ [c])) s))"

fun unwatch_loop :: "nat \<Rightarrow> (nat \<times> 'k) list \<Rightarrow> ('k, 'v, 'cmd) server \<Rightarrow> ('k, 'v, 'cmd) server option" where
  \<comment> \<open>\<open>while((ln = listNext(&li)))\<close> over the nodes of c->watched_keys; the assertion and the
     deletion of a node that listSearchKey does not find are None\<close>
  "unwatch_loop c [] s = Some s"
| "unwatch_loop c ((d, k) # wks) s = do {
     ws \<leftarrow> db_watched_keys s d k;
     if c \<notin> set ws then None
     else do {
       let ws = remove1 c ws;
       let s = set_watchers d k (if ws = [] then None else Some ws) s;
       let s = upd_client c (\<lambda>cl. cl\<lparr>watched_keys := remove1 (d, k) (watched_keys cl)\<rparr>) s;
       unwatch_loop c wks s } }"

definition unwatchAllKeys :: "nat \<Rightarrow> ('k, 'v, 'cmd) server \<Rightarrow> ('k, 'v, 'cmd) server option" where
  "unwatchAllKeys c s = unwatch_loop c (watched_keys (clients s c)) s"

definition touchWatchedKey :: "nat \<times> 'k \<Rightarrow> ('k, 'v, 'cmd) server \<Rightarrow> ('k, 'v, 'cmd) server" where
  "touchWatchedKey dk s =
     (case dk of (d, k) \<Rightarrow>
        case db_watched_keys s d k of None \<Rightarrow> s | Some ws \<Rightarrow> fold (add_flag CLIENT_DIRTY_CAS) ws s)"

definition touchWatchedKeysOnFlush :: "nat option \<Rightarrow> ('k, 'v, 'cmd) server \<Rightarrow> ('k, 'v, 'cmd) server" where
  \<comment> \<open>None is dbid -1\<close>
  "touchWatchedKeysOnFlush dbid s =
     fold (\<lambda>c. fold (\<lambda>(d, k) s.
         if (dbid = None \<or> dbid = Some d) \<and> keyspace s d k \<noteq> None then add_flag CLIENT_DIRTY_CAS c s else s)
       (watched_keys (clients s c))) (client_list s) s"

subsection \<open>Commands\<close>

definition emptyDb :: "nat \<Rightarrow> nat option \<Rightarrow> ('k, 'v, 'cmd) server \<Rightarrow> ('k, 'v, 'cmd) server \<times> nat" where
  \<comment> \<open>the second component is the number of keys removed; \<open>num\<close> is server.dbnum\<close>
  "emptyDb num dbid s =
     (s\<lparr>keyspace := (\<lambda>d. if d < num \<and> (dbid = None \<or> dbid = Some d) then Map.empty else keyspace s d)\<rparr>,
      \<Sum>d<num. if dbid = None \<or> dbid = Some d then card (dom (keyspace s d)) else 0)"

definition unwatchCommand :: "nat \<Rightarrow> ('k, 'v, 'cmd) server \<Rightarrow> (('k, 'v, 'cmd) server \<times> 'r reply) option" where
  "unwatchCommand c s = do {
     s \<leftarrow> unwatchAllKeys c s;
     Some (del_flags {CLIENT_DIRTY_CAS} c s, OK) }"

definition flushdbCommand ::
  "('k, 'v, 'cmd, 'r) command_table \<Rightarrow> nat \<Rightarrow> ('k, 'v, 'cmd) server \<Rightarrow> ('k, 'v, 'cmd) server \<times> 'r reply" where
  "flushdbCommand tab c s =
     (let d = db (clients s c); (s, removed) = emptyDb (dbnum tab) (Some d) (touchWatchedKeysOnFlush (Some d) s)
      in (s\<lparr>dirty := dirty s + removed\<rparr>, OK))"

definition flushallCommand ::
  "('k, 'v, 'cmd, 'r) command_table \<Rightarrow> ('k, 'v, 'cmd) server \<Rightarrow> ('k, 'v, 'cmd) server \<times> 'r reply" where
  \<comment> \<open>without the child process and the snapshot it triggers\<close>
  "flushallCommand tab s =
     (let (s, removed) = emptyDb (dbnum tab) None (touchWatchedKeysOnFlush None s)
      in (s\<lparr>dirty := dirty s + removed + 1\<rparr>, OK))"

definition selectCommand ::
  "('k, 'v, 'cmd, 'r) command_table \<Rightarrow> nat \<Rightarrow> nat \<Rightarrow> ('k, 'v, 'cmd) server \<Rightarrow> ('k, 'v, 'cmd) server \<times> 'r reply" where
  "selectCommand tab c i s =
     (if i \<ge> dbnum tab then (s, Err ''DB index is out of range'')
      else (upd_client c (\<lambda>cl. cl\<lparr>db := i\<rparr>) s, OK))"

definition dbSwapDatabases :: "nat \<Rightarrow> nat \<Rightarrow> nat \<Rightarrow> ('k, 'v, 'cmd) server \<Rightarrow> ('k, 'v, 'cmd) server option" where
  \<comment> \<open>the dictionaries change places, \<open>watched_keys\<close> stays where it is; None is C\_ERR\<close>
  "dbSwapDatabases num id1 id2 s =
     (if id1 \<ge> num \<or> id2 \<ge> num then None
      else if id1 = id2 then Some s
      else Some (s\<lparr>keyspace := (keyspace s)(id1 := keyspace s id2, id2 := keyspace s id1)\<rparr>))"

definition swapdbCommand ::
  "('k, 'v, 'cmd, 'r) command_table \<Rightarrow> nat \<Rightarrow> nat \<Rightarrow> ('k, 'v, 'cmd) server \<Rightarrow> ('k, 'v, 'cmd) server \<times> 'r reply" where
  "swapdbCommand tab id1 id2 s =
     (case dbSwapDatabases (dbnum tab) id1 id2 s of
        None \<Rightarrow> (s, Err ''DB index is out of range'')
      | Some s \<Rightarrow> (s\<lparr>dirty := dirty s + 1\<rparr>, OK))"

definition table_proc ::
  "('k, 'v, 'cmd, 'r) command_table \<Rightarrow> nat \<Rightarrow> 'cmd \<Rightarrow> ('k, 'v, 'cmd) server \<Rightarrow> ('k, 'v, 'cmd) server \<times> 'r reply" where
  \<comment> \<open>a command of the table: its effect, then signalModifiedKey for the keys it changed\<close>
  "table_proc tab c cmd s =
     (case proc tab cmd (flags (clients s c)) (db (clients s c)) (keyspace s) of (ks, keys, dirt, r) \<Rightarrow>
        (fold touchWatchedKey keys (s\<lparr>keyspace := ks, dirty := dirty s + dirt\<rparr>), Reply r))"

fun queued_proc ::
  "('k, 'v, 'cmd, 'r) command_table \<Rightarrow> nat \<Rightarrow> ('k, 'cmd) queued \<Rightarrow> ('k, 'v, 'cmd) server \<Rightarrow>
     (('k, 'v, 'cmd) server \<times> 'r reply) option" where
  "queued_proc tab c Unwatch s = unwatchCommand c s"
| "queued_proc tab c Flushdb s = Some (flushdbCommand tab c s)"
| "queued_proc tab c Flushall s = Some (flushallCommand tab s)"
| "queued_proc tab c (Select i) s = Some (selectCommand tab c i s)"
| "queued_proc tab c (Swapdb id1 id2) s = Some (swapdbCommand tab id1 id2 s)"
| "queued_proc tab c (Table cmd) s = Some (table_proc tab c cmd s)"

definition propagate :: "('k, 'cmd) request \<Rightarrow> ('k, 'v, 'cmd) server \<Rightarrow> ('k, 'v, 'cmd) server" where
  "propagate q s = s\<lparr>propagated := propagated s @ [q]\<rparr>"

definition call :: "(('k, 'v, 'cmd) server \<Rightarrow> (('k, 'v, 'cmd) server \<times> 'r reply) option) \<Rightarrow> ('k, 'cmd) request \<Rightarrow>
    ('k, 'v, 'cmd) server \<Rightarrow> (('k, 'v, 'cmd) server \<times> 'r reply) option" where
  \<comment> \<open>run the procedure and propagate the command if it raised server.dirty; a command that
     forces or prevents its propagation or adds commands with alsoPropagate is not represented\<close>
  "call p q s = do {
     let before = dirty s;
     (s, r) \<leftarrow> p s;
     Some (if dirty s > before then propagate q s else s, r) }"

definition is_write :: "('k, 'v, 'cmd, 'r) command_table \<Rightarrow> ('k, 'cmd) queued \<Rightarrow> bool" where
  \<comment> \<open>the test on cmd->flags in execCommand: UNWATCH and SELECT are neither read only nor
     administrative commands\<close>
  "is_write tab q = (case q of Table cmd \<Rightarrow> write_flag tab cmd | _ \<Rightarrow> True)"

definition discardTransaction :: "nat \<Rightarrow> ('k, 'v, 'cmd) server \<Rightarrow> ('k, 'v, 'cmd) server option" where
  "discardTransaction c s = do {
     let s = upd_client c (\<lambda>cl. cl\<lparr>commands := []\<rparr>) s;
     let s = del_flags {CLIENT_MULTI, CLIENT_DIRTY_CAS, CLIENT_DIRTY_EXEC} c s;
     unwatchAllKeys c s }"

definition queueMultiCommand :: "nat \<Rightarrow> ('k, 'cmd) queued \<Rightarrow> ('k, 'v, 'cmd) server \<Rightarrow> ('k, 'v, 'cmd) server" where
  "queueMultiCommand c q = upd_client c (\<lambda>cl. cl\<lparr>commands := commands cl @ [q]\<rparr>)"

definition flagTransaction :: "nat \<Rightarrow> ('k, 'v, 'cmd) server \<Rightarrow> ('k, 'v, 'cmd) server" where
  "flagTransaction c s = (if has_flag s c CLIENT_MULTI then add_flag CLIENT_DIRTY_EXEC c s else s)"

definition multiCommand :: "nat \<Rightarrow> ('k, 'v, 'cmd) server \<Rightarrow> ('k, 'v, 'cmd) server \<times> 'r reply" where
  "multiCommand c s =
     (if has_flag s c CLIENT_MULTI then (s, Err ''MULTI calls can not be nested'')
      else (add_flag CLIENT_MULTI c s, OK))"

definition discardCommand :: "nat \<Rightarrow> ('k, 'v, 'cmd) server \<Rightarrow> (('k, 'v, 'cmd) server \<times> 'r reply) option" where
  "discardCommand c s =
     (if \<not> has_flag s c CLIENT_MULTI then Some (s, Err ''DISCARD without MULTI'')
      else do { s \<leftarrow> discardTransaction c s; Some (s, OK) })"

definition watchCommand :: "nat \<Rightarrow> 'k list \<Rightarrow> ('k, 'v, 'cmd) server \<Rightarrow> ('k, 'v, 'cmd) server \<times> 'r reply" where
  "watchCommand c ks s =
     (if has_flag s c CLIENT_MULTI then (s, Err ''WATCH inside MULTI is not allowed'')
      else (fold (watchForKey c) ks s, OK))"

fun exec_loop ::
  "('k, 'v, 'cmd, 'r) command_table \<Rightarrow> nat \<Rightarrow> ('k, 'cmd) queued list \<Rightarrow> bool \<Rightarrow> ('k, 'v, 'cmd) server \<Rightarrow>
     (('k, 'v, 'cmd) server \<times> bool \<times> 'r reply list) option" where
  \<comment> \<open>the flag is must_propagate\<close>
  "exec_loop tab c [] must s = Some (s, must, [])"
| "exec_loop tab c (q # qs) must s = do {
     let start = (\<not> must \<and> is_write tab q);
     let s = (if start then propagate Multi s else s);
     (s, r) \<leftarrow> call (queued_proc tab c q) (Command q) s;
     (s, must, rs) \<leftarrow> exec_loop tab c qs (must \<or> start) s;
     Some (s, must, r # rs) }"

definition execCommand ::
  "('k, 'v, 'cmd, 'r) command_table \<Rightarrow> nat \<Rightarrow> ('k, 'v, 'cmd) server \<Rightarrow> (('k, 'v, 'cmd) server \<times> 'r reply) option" where
  "execCommand tab c s =
     (if \<not> has_flag s c CLIENT_MULTI then Some (s, Err ''EXEC without MULTI'')
      else if has_flag s c CLIENT_DIRTY_CAS \<or> has_flag s c CLIENT_DIRTY_EXEC then do {
        let r = (if has_flag s c CLIENT_DIRTY_EXEC then ExecAbort else NullMultiBulk);
        s \<leftarrow> discardTransaction c s;
        Some (s, r) }
      else do {
        s \<leftarrow> unwatchAllKeys c s;
        (s, must, rs) \<leftarrow> exec_loop tab c (commands (clients s c)) False s;
        s \<leftarrow> discardTransaction c s;
        Some (if must then s\<lparr>dirty := dirty s + 1\<rparr> else s, MultiBulk rs) })"

definition processCommand ::
  "('k, 'v, 'cmd, 'r) command_table \<Rightarrow> nat \<Rightarrow> ('k, 'cmd) request \<Rightarrow> ('k, 'v, 'cmd) server \<Rightarrow>
     (('k, 'v, 'cmd) server \<times> 'r reply) option" where
  \<comment> \<open>\<open>Rejected\<close> is a request that fails one of the checks before execution; its argument says
     whether that check calls flagTransaction: those for a read only replica, for the Pub/Sub
     context and for the loading of the data set do not\<close>
  "processCommand tab c q s =
     (case q of
        Rejected flag \<Rightarrow> Some (if flag then flagTransaction c s else s, Err ''rejected'')
      | Multi \<Rightarrow> call (\<lambda>s. Some (multiCommand c s)) Multi s
      | Discard \<Rightarrow> call (discardCommand c) Discard s
      | Watch ks \<Rightarrow> call (\<lambda>s. Some (watchCommand c ks s)) (Watch ks) s
      | Exec \<Rightarrow> call (execCommand tab c) Exec s
      | Command qc \<Rightarrow>
          if has_flag s c CLIENT_MULTI then Some (queueMultiCommand c qc s, QUEUED)
          else call (queued_proc tab c qc) (Command qc) s)"

definition connect :: "nat \<Rightarrow> ('k, 'v, 'cmd) server \<Rightarrow> ('k, 'v, 'cmd) server" where
  \<comment> \<open>the transaction part of createClient\<close>
  "connect c s = (if c \<in> set (client_list s) then s
     else s\<lparr>client_list := client_list s @ [c],
       clients := (clients s)(c := \<lparr>db = 0, flags = {}, commands = [], watched_keys = []\<rparr>)\<rparr>)"

definition disconnect :: "nat \<Rightarrow> ('k, 'v, 'cmd) server \<Rightarrow> ('k, 'v, 'cmd) server option" where
  \<comment> \<open>the transaction part of freeClient\<close>
  "disconnect c s = do {
     s \<leftarrow> unwatchAllKeys c s;
     let s = upd_client c (\<lambda>cl. cl\<lparr>commands := []\<rparr>) s;
     Some (s\<lparr>client_list := remove1 c (client_list s)\<rparr>) }"


section \<open>Correctness of transactions\<close>

text \<open>\<open>watch_ok\<close>: the two indexes of watched keys, per client and per database, agree, hold no
  duplicates and no empty lists, and only connected clients watch keys.\<close>


abbreviation watching :: "('k, 'v, 'cmd) server \<Rightarrow> nat \<Rightarrow> (nat \<times> 'k) set" where
  "watching s c \<equiv> set (watched_keys (clients s c))"

definition watchers :: "('k, 'v, 'cmd) server \<Rightarrow> nat \<Rightarrow> 'k \<Rightarrow> nat list" where
  "watchers s d k = (case db_watched_keys s d k of None \<Rightarrow> [] | Some ws \<Rightarrow> ws)"

definition watch_ok :: "('k, 'v, 'cmd) server \<Rightarrow> bool" where
  "watch_ok s \<longleftrightarrow>
     (\<forall>c d k. (d, k) \<in> watching s c \<longleftrightarrow> c \<in> set (watchers s d k)) \<and>
     (\<forall>c. distinct (watched_keys (clients s c))) \<and>
     (\<forall>d k. distinct (watchers s d k) \<and> db_watched_keys s d k \<noteq> Some []) \<and>
     distinct (client_list s) \<and> (\<forall>c. c \<notin> set (client_list s) \<longrightarrow> watched_keys (clients s c) = [])"

lemma watch_okD:
  assumes "watch_ok s"
  shows "(d, k) \<in> watching s c \<longleftrightarrow> c \<in> set (watchers s d k)" "distinct (watched_keys (clients s c))"
    "distinct (watchers s d k)" "db_watched_keys s d k \<noteq> Some []" "distinct (client_list s)"
    "c \<notin> set (client_list s) \<Longrightarrow> watched_keys (clients s c) = []"
  using assms unfolding watch_ok_def by blast+

lemma watch_ok_cong:
  "watch_ok s \<Longrightarrow> db_watched_keys s' = db_watched_keys s \<Longrightarrow> client_list s' = client_list s \<Longrightarrow>
     (\<And>c. watched_keys (clients s' c) = watched_keys (clients s c)) \<Longrightarrow> watch_ok s'"
  by (simp add: watch_ok_def watchers_def)

subsection \<open>Touching keys\<close>

definition mark :: "(nat \<Rightarrow> bool) \<Rightarrow> ('k, 'v, 'cmd) server \<Rightarrow> ('k, 'v, 'cmd) server" where
  "mark P s = s\<lparr>clients := (\<lambda>c. if P c then (clients s c)\<lparr>flags := insert CLIENT_DIRTY_CAS (flags (clients s c))\<rparr>
     else clients s c)\<rparr>"

lemma mark_simps [simp]:
  "keyspace (mark P s) = keyspace s" "db_watched_keys (mark P s) = db_watched_keys s"
  "client_list (mark P s) = client_list s" "dirty (mark P s) = dirty s" "propagated (mark P s) = propagated s"
  "watched_keys (clients (mark P s) c) = watched_keys (clients s c)"
  "commands (clients (mark P s) c) = commands (clients s c)" "db (clients (mark P s) c) = db (clients s c)"
  "flags (clients (mark P s) c) = (if P c then insert CLIENT_DIRTY_CAS (flags (clients s c)) else flags (clients s c))"
  by (simp_all add: mark_def)

lemma mark_mark: "mark P (mark Q s) = mark (\<lambda>c. P c \<or> Q c) s"
  by (rule server.equality) (auto simp: mark_def fun_eq_iff)

lemma mark_cong: "(\<And>c. P c = Q c) \<Longrightarrow> mark P s = mark Q s"
  by (simp add: mark_def)

lemma mark_False: "mark (\<lambda>c. False) s = s"
  by (simp add: mark_def)

lemma add_flag_mark: "add_flag CLIENT_DIRTY_CAS c s = mark (\<lambda>c'. c' = c) s"
  by (auto simp: add_flag_def upd_client_def mark_def fun_eq_iff)

lemma fold_add_flag: "fold (add_flag CLIENT_DIRTY_CAS) ws s = mark (\<lambda>c. c \<in> set ws) s"
  by (induction ws arbitrary: s) (simp_all add: mark_False add_flag_mark mark_mark, auto intro!: mark_cong)

lemma touch_mark: "watch_ok s \<Longrightarrow> touchWatchedKey dk s = mark (\<lambda>c. dk \<in> watching s c) s"
proof -
  assume ok: "watch_ok s"
  obtain d k where dk: "dk = (d, k)" by (cases dk)
  have "(\<lambda>c. (d, k) \<in> watching s c) = (\<lambda>c. c \<in> set (watchers s d k))" using watch_okD(1) [OF ok] by blast
  then show ?thesis
    by (auto simp: touchWatchedKey_def dk watchers_def fold_add_flag mark_False split: option.split)
qed

lemma mark_ok: "watch_ok s \<Longrightarrow> watch_ok (mark P s)"
  by (erule watch_ok_cong) simp_all

lemma touch_all: "watch_ok s \<Longrightarrow> fold touchWatchedKey dks s = mark (\<lambda>c. \<exists>dk\<in>set dks. dk \<in> watching s c) s"
proof (induction dks arbitrary: s)
  case Nil
  then show ?case by (simp add: mark_False)
next
  case (Cons dk dks)
  then show ?case using Cons.IH [OF mark_ok [OF Cons.prems]]
    by (simp add: touch_mark mark_mark) (auto intro!: mark_cong)
qed

lemma flush_inner:
  "fold (\<lambda>(d, k) s. if (dbid = None \<or> dbid = Some d) \<and> keyspace s d k \<noteq> None then add_flag CLIENT_DIRTY_CAS c s else s) wks s =
   mark (\<lambda>c'. c' = c \<and> (\<exists>dk\<in>set wks. (dbid = None \<or> dbid = Some (fst dk)) \<and> keyspace s (fst dk) (snd dk) \<noteq> None)) s"
proof (induction wks arbitrary: s)
  case (Cons dk wks)
  then show ?case by (cases dk) (simp add: add_flag_mark mark_mark, auto intro!: mark_cong)
qed (simp add: mark_False)

lemma flush_mark:
  "touchWatchedKeysOnFlush dbid s =
   mark (\<lambda>c. c \<in> set (client_list s) \<and> (\<exists>dk\<in>watching s c. (dbid = None \<or> dbid = Some (fst dk)) \<and> keyspace s (fst dk) (snd dk) \<noteq> None)) s"
proof -
  define ex where "ex c t \<longleftrightarrow> (\<exists>dk\<in>watching s c. (dbid = None \<or> dbid = Some (fst dk)) \<and> keyspace t (fst dk) (snd dk) \<noteq> None)" for c and t :: "('a, 'b, 'c) server"
  define f :: "nat \<Rightarrow> ('a, 'b, 'c) server \<Rightarrow> ('a, 'b, 'c) server" where "f c = fold (\<lambda>(d, k) s.
         if (dbid = None \<or> dbid = Some d) \<and> keyspace s d k \<noteq> None then add_flag CLIENT_DIRTY_CAS c s else s)
       (watched_keys (clients s c))" for c
  have f: "f c t = mark (\<lambda>c'. c' = c \<and> ex c t) t" for c and t :: "('a, 'b, 'c) server"
    unfolding f_def ex_def by (rule flush_inner)
  have ex: "ex c (mark P t) = ex c t" for c P and t :: "('a, 'b, 'c) server" by (simp add: ex_def)
  have "fold f cs t = mark (\<lambda>c. c \<in> set cs \<and> ex c t) t" for cs and t :: "('a, 'b, 'c) server"
    by (induction cs arbitrary: t) (simp_all add: mark_False f ex mark_mark, auto intro!: mark_cong)
  from this [of "client_list s" s] show ?thesis unfolding touchWatchedKeysOnFlush_def f_def [abs_def] ex_def .
qed

subsection \<open>Watching and unwatching\<close>

lemma watchForKey_ok:
  assumes ok: "watch_ok s" and c: "c \<in> set (client_list s)"
  shows "watch_ok (watchForKey c k s)"
proof (cases "(db (clients s c), k) \<in> watching s c")
  case True
  then show ?thesis using ok by (simp add: watchForKey_def Let_def)
next
  case False
  let ?d = "db (clients s c)" and ?s = "watchForKey c k s"
  have new: "c \<notin> set (watchers s ?d k)" using False watch_okD(1) [OF ok] by blast
  have w: "watchers ?s d k' = (if d = ?d \<and> k' = k then watchers s ?d k @ [c] else watchers s d k')" for d k'
    using False by (auto simp: watchForKey_def Let_def watchers_def set_watchers_def upd_client_def)
  have "watched_keys (clients ?s c') = watched_keys (clients s c') @ (if c' = c then [(?d, k)] else [])" for c'
    using False by (simp add: watchForKey_def Let_def set_watchers_def upd_client_def)
  moreover have "client_list ?s = client_list s"
    by (simp add: watchForKey_def Let_def set_watchers_def upd_client_def)
  moreover have "db_watched_keys ?s d k' \<noteq> Some []" for d k'
    using False watch_okD(4) [OF ok] by (simp add: watchForKey_def Let_def set_watchers_def upd_client_def)
  ultimately show ?thesis
    unfolding watch_ok_def w using watch_okD [OF ok] new False c by (auto split: if_splits)
qed

lemma watchForKey_frame [simp]:
  "client_list (watchForKey c k s) = client_list s" "keyspace (watchForKey c k s) = keyspace s"
  "dirty (watchForKey c k s) = dirty s" "propagated (watchForKey c k s) = propagated s"
  "flags (clients (watchForKey c k s) c') = flags (clients s c')"
  "commands (clients (watchForKey c k s) c') = commands (clients s c')"
  "watching s c' \<subseteq> watching (watchForKey c k s) c'"
  by (auto simp: watchForKey_def Let_def set_watchers_def upd_client_def)

lemma unwatch_loop_ok:
  "watch_ok s \<Longrightarrow> watched_keys (clients s c) = wks \<Longrightarrow>
     \<exists>w. unwatch_loop c wks s = Some (s\<lparr>clients := (clients s)(c := (clients s c)\<lparr>watched_keys := []\<rparr>), db_watched_keys := w\<rparr>) \<and>
       watch_ok (s\<lparr>clients := (clients s)(c := (clients s c)\<lparr>watched_keys := []\<rparr>), db_watched_keys := w\<rparr>)"
proof (induction wks arbitrary: s)
  case Nil
  then have "s\<lparr>clients := (clients s)(c := (clients s c)\<lparr>watched_keys := []\<rparr>), db_watched_keys := db_watched_keys s\<rparr> = s"
    by (auto simp: fun_eq_iff intro!: arg_cong2 [where f = upd_client])
  then show ?case using Nil by (intro exI [of _ "db_watched_keys s"]) (simp only: unwatch_loop.simps)
next
  case (Cons dk wks)
  obtain d k where dk: "dk = (d, k)" by (cases dk)
  note ok = Cons.prems(1) and wk = Cons.prems(2) [unfolded dk]
  have "c \<in> set (watchers s d k)" using watch_okD(1) [OF ok, of d k c] wk by simp
  then obtain ws where ws: "db_watched_keys s d k = Some ws" "c \<in> set ws"
    by (cases "db_watched_keys s d k") (auto simp: watchers_def)
  define ws' where "ws' = remove1 c ws"
  define s1 where "s1 = upd_client c (\<lambda>cl. cl\<lparr>watched_keys := remove1 (d, k) (watched_keys cl)\<rparr>)
    (set_watchers d k (if ws' = [] then None else Some ws') s)"
  have w1: "watched_keys (clients s1 c) = wks" using wk by (simp add: s1_def upd_client_def set_watchers_def)
  have oth: "clients s1 c' = clients s c'" if "c' \<noteq> c" for c' using that by (simp add: s1_def upd_client_def set_watchers_def)
  have wa: "watchers s1 d' k' = (if d' = d \<and> k' = k then ws' else watchers s d' k')" for d' k'
    by (auto simp: s1_def watchers_def upd_client_def set_watchers_def)
  have dist: "distinct ws" "distinct ((d, k) # wks)"
    using watch_okD(2,3) [OF ok] ws(1) wk by (metis option.simps(5) watchers_def, metis)
  have ws'_set: "set ws' = set ws - {c}" using dist(1) by (simp add: ws'_def set_remove1_eq)
  have wat: "watchers s d k = ws" using ws by (simp add: watchers_def)
  have ok1: "watch_ok s1"
    unfolding watch_ok_def
  proof (intro conjI allI impI)
    fix c' d' k'
    show "(d', k') \<in> watching s1 c' \<longleftrightarrow> c' \<in> set (watchers s1 d' k')"
    proof (cases "c' = c")
      case True
      then show ?thesis using w1 wa dist(2) ws'_set watch_okD(1) [OF ok, of d' k' c] wk by auto
    next
      case False
      then show ?thesis using oth wa ws'_set watch_okD(1) [OF ok, of d' k' c'] wat by auto
    qed
    show "distinct (watched_keys (clients s1 c'))" using watch_okD(2) [OF ok] w1 oth dist(2) by (cases "c' = c") auto
    show "distinct (watchers s1 d' k')" using watch_okD(3) [OF ok] wa dist(1) by (auto simp: ws'_def)
    show "db_watched_keys s1 d' k' \<noteq> Some []"
      using watch_okD(4) [OF ok] by (auto simp: s1_def upd_client_def set_watchers_def)
    show "distinct (client_list s1)" using watch_okD(5) [OF ok] by (simp add: s1_def upd_client_def set_watchers_def)
    assume "c' \<notin> set (client_list s1)"
    then have "watched_keys (clients s c') = []"
      using watch_okD(6) [OF ok] by (simp add: s1_def upd_client_def set_watchers_def)
    then show "watched_keys (clients s1 c') = []" using wk oth by (cases "c' = c") auto
  qed
  have "unwatch_loop c (dk # wks) s = unwatch_loop c wks s1"
    using ws by (simp add: dk Let_def ws'_def s1_def)
  moreover have "s1\<lparr>clients := (clients s1)(c := (clients s1 c)\<lparr>watched_keys := []\<rparr>), db_watched_keys := w\<rparr> =
    s\<lparr>clients := (clients s)(c := (clients s c)\<lparr>watched_keys := []\<rparr>), db_watched_keys := w\<rparr>" for w
    by (simp add: s1_def upd_client_def set_watchers_def)
  ultimately show ?case using Cons.IH [OF ok1 w1] by (simp only:)
qed

lemma unwatchAllKeys_ok:
  assumes "watch_ok s"
  shows "\<exists>s'. unwatchAllKeys c s = Some s' \<and> watch_ok s' \<and> client_list s' = client_list s \<and> keyspace s' = keyspace s \<and>
    dirty s' = dirty s \<and> propagated s' = propagated s \<and>
    clients s' = (clients s)(c := (clients s c)\<lparr>watched_keys := []\<rparr>)"
  using unwatch_loop_ok [OF assms refl, of c] by (auto simp: unwatchAllKeys_def)

subsection \<open>Commands\<close>

definition signals :: "('k, 'v, 'cmd, 'r) command_table \<Rightarrow> 'cmd \<Rightarrow> bool" where
  \<comment> \<open>every key the command changes is passed to signalModifiedKey\<close>
  "signals tab cmd \<longleftrightarrow>
     (\<forall>fl d0 ks d k. case proc tab cmd fl d0 ks of (ks', keys, _, _) \<Rightarrow> ks' d k \<noteq> ks d k \<longrightarrow> (d, k) \<in> set keys)"

fun q_signals :: "('k, 'v, 'cmd, 'r) command_table \<Rightarrow> ('k, 'cmd) queued \<Rightarrow> bool" where
  \<comment> \<open>SWAPDB changes keys and signals none\<close>
  "q_signals tab (Table cmd) = signals tab cmd"
| "q_signals tab (Swapdb id1 id2) = False"
| "q_signals tab q = True"

definition queues_signal :: "('k, 'v, 'cmd, 'r) command_table \<Rightarrow> ('k, 'v, 'cmd) server \<Rightarrow> bool" where
  "queues_signal tab s \<longleftrightarrow> (\<forall>c. \<forall>q\<in>set (commands (clients s c)). q_signals tab q)"

fun request_signals :: "('k, 'v, 'cmd, 'r) command_table \<Rightarrow> ('k, 'cmd) request \<Rightarrow> bool" where
  "request_signals tab (Command q) = q_signals tab q"
| "request_signals tab r = True"

definition prot :: "nat \<Rightarrow> nat \<Rightarrow> 'k \<Rightarrow> ('k, 'v, 'cmd) server \<Rightarrow> ('k, 'v, 'cmd) server \<Rightarrow> bool" where
  \<comment> \<open>a watched key stays watched and is unchanged or the watcher is marked\<close>
  "prot w d k s s' \<longleftrightarrow> ((d, k) \<in> watching s w \<longrightarrow> (d, k) \<in> watching s' w \<and>
     (has_flag s' w CLIENT_DIRTY_CAS \<or> \<not> has_flag s w CLIENT_DIRTY_CAS \<and> keyspace s' d k = keyspace s d k))"

lemma prot_refl: "prot w d k s s"
  by (auto simp: prot_def)

lemma prot_trans: "prot w d k s s' \<Longrightarrow> prot w d k s' s'' \<Longrightarrow> prot w d k s s''"
  by (auto simp: prot_def)

lemma prot_frame:
  "watching s w \<subseteq> watching s' w \<Longrightarrow> keyspace s' = keyspace s \<Longrightarrow>
     has_flag s' w CLIENT_DIRTY_CAS = has_flag s w CLIENT_DIRTY_CAS \<Longrightarrow> prot w d k s s'"
  by (auto simp: prot_def)

definition good :: "('k, 'v, 'cmd) server \<Rightarrow> ('k, 'v, 'cmd) server \<Rightarrow> bool" where
  "good s s' \<longleftrightarrow> watch_ok s' \<and> client_list s' = client_list s \<and>
     (\<forall>c. set (commands (clients s' c)) \<subseteq> set (commands (clients s c)))"

lemma good_trans: "good s s' \<Longrightarrow> good s' s'' \<Longrightarrow> good s s''"
  by (simp add: good_def) blast

lemma good_queues: "good s s' \<Longrightarrow> queues_signal tab s \<Longrightarrow> queues_signal tab s'"
  by (simp add: good_def queues_signal_def) blast

lemma good_upd:
  "watch_ok s \<Longrightarrow> (\<And>cl. watched_keys (f cl) = watched_keys cl) \<Longrightarrow> (\<And>cl. set (commands (f cl)) \<subseteq> set (commands cl)) \<Longrightarrow>
     good s (upd_client c f s)"
  unfolding good_def by (auto intro: watch_ok_cong simp: upd_client_def)

lemma table_proc_ok:
  assumes ok: "watch_ok s"
  shows "good s (fst (table_proc tab c cmd s))" and "signals tab cmd \<Longrightarrow> prot w d k s (fst (table_proc tab c cmd s))"
proof -
  obtain ks keys n r where p: "proc tab cmd (flags (clients s c)) (db (clients s c)) (keyspace s) = (ks, keys, n, r)" by (metis prod_cases4)
  let ?s = "s\<lparr>keyspace := ks, dirty := dirty s + n\<rparr>"
  have ok': "watch_ok ?s" using ok by (rule watch_ok_cong) simp_all
  have t: "fst (table_proc tab c cmd s) = mark (\<lambda>c. \<exists>dk\<in>set keys. dk \<in> watching s c) ?s"
    using touch_all [OF ok'] by (simp add: table_proc_def p)
  show "good s (fst (table_proc tab c cmd s))" unfolding t good_def using mark_ok [OF ok'] by simp
  assume "signals tab cmd"
  then have "ks d k \<noteq> keyspace s d k \<longrightarrow> (d, k) \<in> set keys"
    unfolding signals_def using p by (metis (mono_tags, lifting) case_prod_conv)
  then show "prot w d k s (fst (table_proc tab c cmd s))" unfolding t prot_def has_flag_def by auto
qed

lemma flush_ok:
  assumes ok: "watch_ok s"
  shows "good s ((fst (emptyDb num dbid (touchWatchedKeysOnFlush dbid s)))\<lparr>dirty := n\<rparr>)"
    and "prot w d k s ((fst (emptyDb num dbid (touchWatchedKeysOnFlush dbid s)))\<lparr>dirty := n\<rparr>)"
proof -
  show "good s ((fst (emptyDb num dbid (touchWatchedKeysOnFlush dbid s)))\<lparr>dirty := n\<rparr>)"
    unfolding good_def flush_mark emptyDb_def using ok by (auto intro: watch_ok_cong)
  have "w \<in> set (client_list s)" if "(d, k) \<in> watching s w" using that watch_okD(6) [OF ok, of w]
    by (cases "w \<in> set (client_list s)") auto
  then show "prot w d k s ((fst (emptyDb num dbid (touchWatchedKeysOnFlush dbid s)))\<lparr>dirty := n\<rparr>)"
    unfolding prot_def has_flag_def flush_mark emptyDb_def by (force simp: mark_def)
qed

lemma upd_client_sel [simp]:
  "clients (upd_client c f s) = (clients s)(c := f (clients s c))" "keyspace (upd_client c f s) = keyspace s"
  "client_list (upd_client c f s) = client_list s" "dirty (upd_client c f s) = dirty s"
  "propagated (upd_client c f s) = propagated s" "db_watched_keys (upd_client c f s) = db_watched_keys s"
  by (simp_all add: upd_client_def)

lemma unwatch_good:
  assumes "watch_ok s"
  shows "\<exists>s'. unwatchAllKeys c s = Some s' \<and> good s s' \<and> keyspace s' = keyspace s \<and> dirty s' = dirty s \<and>
    propagated s' = propagated s \<and> clients s' = (clients s)(c := (clients s c)\<lparr>watched_keys := []\<rparr>)"
  using unwatchAllKeys_ok [OF assms, of c] by (auto simp: good_def)

lemma discardTransaction_ok:
  assumes ok: "watch_ok s"
  shows "\<exists>s'. discardTransaction c s = Some s' \<and> good s s' \<and> keyspace s' = keyspace s \<and> dirty s' = dirty s \<and>
    propagated s' = propagated s \<and> clients s' = (clients s)(c := (clients s c)\<lparr>watched_keys := [], commands := [],
      flags := flags (clients s c) - {CLIENT_MULTI, CLIENT_DIRTY_CAS, CLIENT_DIRTY_EXEC}\<rparr>)"
proof -
  let ?s = "del_flags {CLIENT_MULTI, CLIENT_DIRTY_CAS, CLIENT_DIRTY_EXEC} c (upd_client c (\<lambda>cl. cl\<lparr>commands := []\<rparr>) s)"
  have "watch_ok ?s" using ok unfolding del_flags_def by (rule watch_ok_cong) simp_all
  from unwatch_good [OF this, of c] obtain s' where s': "unwatchAllKeys c ?s = Some s'" "good ?s s'" "keyspace s' = keyspace ?s"
    "dirty s' = dirty ?s" "propagated s' = propagated ?s" "clients s' = (clients ?s)(c := (clients ?s c)\<lparr>watched_keys := []\<rparr>)"
    by blast
  then show ?thesis by (intro exI [of _ s']) (auto simp: discardTransaction_def Let_def good_def del_flags_def)
qed

lemma queued_proc_ok:
  assumes ok: "watch_ok s"
  shows "\<exists>s' r. queued_proc tab c q s = Some (s', r) \<and> good s s' \<and>
    (q_signals tab q \<longrightarrow> c \<noteq> w \<or> q \<noteq> Unwatch \<longrightarrow> prot w d k s s')"
proof (cases q)
  case Unwatch
  obtain s1 where s1: "unwatchAllKeys c s = Some s1" "good s s1" "keyspace s1 = keyspace s"
    "clients s1 = (clients s)(c := (clients s c)\<lparr>watched_keys := []\<rparr>)"
    using unwatch_good [OF ok, of c] by blast
  have g: "good s1 (del_flags {CLIENT_DIRTY_CAS} c s1)" using s1(2) unfolding del_flags_def by (intro good_upd) (auto simp: good_def)
  have "prot w d k s (del_flags {CLIENT_DIRTY_CAS} c s1)" if "c \<noteq> w"
    using that s1 by (intro prot_frame) (auto simp: del_flags_def has_flag_def)
  then show ?thesis using Unwatch s1(1) good_trans [OF s1(2) g] by (auto simp: unwatchCommand_def)
next
  case Flushdb
  then show ?thesis using flush_ok [OF ok, where num = "dbnum tab" and dbid = "Some (db (clients s c))"]
    by (auto simp: flushdbCommand_def Let_def split: prod.splits)
next
  case Flushall
  then show ?thesis using flush_ok [OF ok, where num = "dbnum tab" and dbid = None]
    by (auto simp: flushallCommand_def Let_def split: prod.splits)
next
  case (Select i)
  have "good s (upd_client c (\<lambda>cl. cl\<lparr>db := i\<rparr>) s)" using ok by (intro good_upd) simp_all
  moreover have "prot w d k s (upd_client c (\<lambda>cl. cl\<lparr>db := i\<rparr>) s)" by (intro prot_frame) (auto simp: has_flag_def)
  ultimately show ?thesis using Select ok prot_refl by (auto simp: selectCommand_def good_def)
next
  case (Swapdb id1 id2)
  then show ?thesis using ok
    by (auto simp: swapdbCommand_def dbSwapDatabases_def good_def intro: watch_ok_cong)
next
  case (Table cmd)
  then show ?thesis using table_proc_ok [OF ok, where tab = tab and c = c and cmd = cmd] by (cases "table_proc tab c cmd s") auto
qed

lemma good_refl: "watch_ok s \<Longrightarrow> good s s"
  by (simp add: good_def)

lemma goodD: "good s s' \<Longrightarrow> watch_ok s'"
  by (simp add: good_def)

lemma goodE: "good s s' \<Longrightarrow> watch_ok s' \<and> client_list s' = client_list s \<and> (queues_signal tab s \<longrightarrow> queues_signal tab s')"
  using good_queues by (auto simp: good_def)

lemma propagate_good: "watch_ok s \<Longrightarrow> good s (propagate q s)" and propagate_prot: "prot w d k s (propagate q s)"
  by (auto simp: good_def propagate_def prot_def has_flag_def intro: watch_ok_cong)

lemma call_ok:
  assumes "p s = Some (s1, r)" and "good s s1" and "P \<longrightarrow> prot w d k s s1"
  shows "\<exists>s'. call p q s = Some (s', r) \<and> good s s' \<and> (P \<longrightarrow> prot w d k s s')"
proof -
  have "good s (propagate q s1)" using good_trans [OF assms(2) propagate_good [OF goodD [OF assms(2)]]] .
  moreover have "P \<longrightarrow> prot w d k s (propagate q s1)" using assms(3) by (blast intro: prot_trans propagate_prot)
  ultimately show ?thesis using assms by (auto simp: call_def Let_def)
qed

lemma exec_loop_ok:
  "watch_ok s \<Longrightarrow> \<exists>s' m rs. exec_loop tab c qs must s = Some (s', m, rs) \<and> good s s' \<and>
     ((\<forall>q\<in>set qs. q_signals tab q) \<and> c \<noteq> w \<longrightarrow> prot w d k s s') \<and> length rs = length qs"
proof (induction qs arbitrary: must s)
  case Nil
  then show ?case by (auto simp: good_refl prot_refl)
next
  case (Cons q qs)
  define s0 where "s0 = (if \<not> must \<and> is_write tab q then propagate Multi s else s)"
  have s0: "good s s0" "prot w d k s s0"
    using Cons.prems propagate_good propagate_prot good_refl prot_refl by (auto simp: s0_def)
  obtain s1 r where s1: "queued_proc tab c q s0 = Some (s1, r)" "good s0 s1" "q_signals tab q \<and> c \<noteq> w \<longrightarrow> prot w d k s0 s1"
    using queued_proc_ok [OF goodD [OF s0(1)], of tab c q w d k] by blast
  obtain s2 where s2: "call (queued_proc tab c q) (Command q) s0 = Some (s2, r)" "good s0 s2"
    "q_signals tab q \<and> c \<noteq> w \<longrightarrow> prot w d k s0 s2"
    using call_ok [where p = "queued_proc tab c q", OF s1] by blast
  obtain s3 m rs where s3: "exec_loop tab c qs (must \<or> \<not> must \<and> is_write tab q) s2 = Some (s3, m, rs)" "good s2 s3"
    "(\<forall>q\<in>set qs. q_signals tab q) \<and> c \<noteq> w \<longrightarrow> prot w d k s2 s3" "length rs = length qs"
    using Cons.IH [OF goodD [OF s2(2)]] by blast
  have "exec_loop tab c (q # qs) must s = Some (s3, m, r # rs)"
    using s2(1) s3(1) by (simp add: s0_def [symmetric] Let_def)
  moreover have "good s s3" using s0(1) s2(2) s3(2) good_trans by blast
  moreover have "(\<forall>q\<in>set (q # qs). q_signals tab q) \<and> c \<noteq> w \<longrightarrow> prot w d k s s3"
    using s0(2) s2(3) s3(3) by (auto intro: prot_trans)
  ultimately show ?case using s3(4) by auto
qed

lemma discard_prot:
  assumes "discardTransaction c s = Some s'" "watch_ok s" "c \<noteq> w"
  shows "prot w d k s s'"
  using discardTransaction_ok [OF assms(2), of c] assms(1,3) by (intro prot_frame) (auto simp: has_flag_def)

lemma execCommand_ok:
  assumes ok: "watch_ok s"
  shows "\<exists>s' r. execCommand tab c s = Some (s', r) \<and> good s s' \<and> (queues_signal tab s \<and> c \<noteq> w \<longrightarrow> prot w d k s s')"
proof -
  obtain s1 where s1: "discardTransaction c s = Some s1" "good s s1" using discardTransaction_ok [OF ok, of c] by blast
  obtain u where u: "unwatchAllKeys c s = Some u" "good s u" "keyspace u = keyspace s" "clients u = (clients s)(c := (clients s c)\<lparr>watched_keys := []\<rparr>)"
    using unwatch_good [OF ok, of c] by blast
  obtain l m rs where l: "exec_loop tab c (commands (clients u c)) False u = Some (l, m, rs)" "good u l"
    "(\<forall>q\<in>set (commands (clients u c)). q_signals tab q) \<and> c \<noteq> w \<longrightarrow> prot w d k u l"
    using exec_loop_ok [OF goodD [OF u(2)]] by blast
  obtain e where e: "discardTransaction c l = Some e" "good l e"
    using discardTransaction_ok [OF goodD [OF l(2)], of c] by blast
  let ?e = "if m then e\<lparr>dirty := dirty e + 1\<rparr> else e"
  have ge: "good l ?e" using e(2) by (auto simp: good_def intro: watch_ok_cong)
  have "prot w d k s ?e" if "queues_signal tab s \<and> c \<noteq> w"
  proof -
    have "prot w d k s u" using that u by (intro prot_frame) (auto simp: has_flag_def)
    moreover have "prot w d k u l" using that l(3) good_queues [OF u(2)] by (auto simp: queues_signal_def)
    moreover have "prot w d k l e" using discard_prot [OF e(1) goodD [OF l(2)]] that by blast
    moreover have "prot w d k e ?e" by (intro prot_frame) (auto simp: has_flag_def)
    ultimately show ?thesis by (blast intro: prot_trans)
  qed
  moreover have "good s ?e" using u(2) l(2) ge good_trans by blast
  ultimately show ?thesis
    using s1 u(1) l(1) e(1) ok discard_prot [OF s1(1) ok] good_refl [OF ok]
    by (auto simp: execCommand_def Let_def prot_refl)
qed

lemma watch_many_ok:
  "watch_ok s \<Longrightarrow> c \<in> set (client_list s) \<Longrightarrow> good s (fold (watchForKey c) ks s) \<and> prot w d k s (fold (watchForKey c) ks s)"
proof (induction ks arbitrary: s)
  case Nil
  then show ?case by (simp add: good_refl prot_refl)
next
  case (Cons x ks)
  have 1: "watch_ok (watchForKey c x s)" using watchForKey_ok [OF Cons.prems] .
  have "prot w d k s (watchForKey c x s)" by (intro prot_frame) (simp_all add: has_flag_def)
  moreover have "good s (watchForKey c x s)" using 1 by (simp add: good_def)
  moreover have "c \<in> set (client_list (watchForKey c x s))" using Cons.prems(2) by simp
  from Cons.IH [OF 1 this] have "good (watchForKey c x s) (fold (watchForKey c) (x # ks) s)"
    "prot w d k (watchForKey c x s) (fold (watchForKey c) (x # ks) s)" by simp_all
  ultimately show ?case by (blast intro: good_trans prot_trans)
qed

definition releases :: "('k, 'cmd) request \<Rightarrow> bool" where
  \<comment> \<open>requests by which a client gives up its watched keys\<close>
  "releases q \<longleftrightarrow> q = Exec \<or> q = Discard \<or> q = Command Unwatch"

lemma multiCommand_ok:
  assumes "multiCommand c s = (s1, r)" and ok: "watch_ok s"
  shows "good s s1 \<and> prot w d k s s1"
proof (cases "has_flag s c CLIENT_MULTI")
  case True
  then show ?thesis using assms by (simp add: multiCommand_def good_refl prot_refl)
next
  case False
  have "good s (add_flag CLIENT_MULTI c s)" unfolding add_flag_def using ok by (intro good_upd) simp_all
  moreover have "prot w d k s (add_flag CLIENT_MULTI c s)" by (intro prot_frame) (auto simp: add_flag_def has_flag_def)
  ultimately show ?thesis using False assms(1) by (simp add: multiCommand_def)
qed

lemma watchCommand_ok:
  assumes "watchCommand c ks s = (s1, r)" and "watch_ok s" and "c \<in> set (client_list s)"
  shows "good s s1 \<and> prot w d k s s1"
  using assms watch_many_ok [OF assms(2,3)] by (auto simp: watchCommand_def good_refl prot_refl split: if_splits)

lemma processCommand_ok:
  assumes ok: "watch_ok s" and c: "c \<in> set (client_list s)"
  shows "\<exists>s' r. processCommand tab c q s = Some (s', r) \<and> watch_ok s' \<and> client_list s' = client_list s \<and>
    (queues_signal tab s \<and> request_signals tab q \<longrightarrow> queues_signal tab s' \<and> (c \<noteq> w \<or> \<not> releases q \<longrightarrow> prot w d k s s'))"
proof (cases q)
  case Multi
  obtain s1 and r :: "'d reply" where m: "multiCommand c s = (s1, r)" by (cases "multiCommand c s :: _ \<times> 'd reply")
  note mc = multiCommand_ok [OF m ok, of w d k]
  have "(\<lambda>s. Some (multiCommand c s)) s = Some (s1, r)" using m by simp
  from call_ok [where p = "\<lambda>s. Some (multiCommand c s)", OF this conjunct1 [OF mc], of True w d k] mc
  show ?thesis using Multi by (simp add: processCommand_def) (blast dest: goodE)
next
  case Exec
  obtain s1 r where "execCommand tab c s = Some (s1, r)" "good s s1" "queues_signal tab s \<and> c \<noteq> w \<longrightarrow> prot w d k s s1"
    using execCommand_ok [OF ok] by blast
  from call_ok [where p = "execCommand tab c", OF this] show ?thesis
    using Exec by (fastforce simp: processCommand_def releases_def dest: goodE)
next
  case Discard
  obtain s1 where s1: "discardTransaction c s = Some s1" "good s s1" using discardTransaction_ok [OF ok, of c] by blast
  have "\<exists>s2 (r :: 'd reply). discardCommand c s = Some (s2, r) \<and> good s s2 \<and> (c \<noteq> w \<longrightarrow> prot w d k s s2)"
    using s1 discard_prot [OF s1(1) ok] ok by (auto simp: discardCommand_def good_refl prot_refl)
  then obtain s2 and r :: "'d reply" where "discardCommand c s = Some (s2, r)" "good s s2" "c \<noteq> w \<longrightarrow> prot w d k s s2" by blast
  from call_ok [where p = "discardCommand c", OF this] show ?thesis
    using Discard by (fastforce simp: processCommand_def releases_def dest: goodE)
next
  case (Watch ks)
  obtain s1 and r :: "'d reply" where m: "watchCommand c ks s = (s1, r)" by (cases "watchCommand c ks s :: _ \<times> 'd reply")
  note wc = watchCommand_ok [OF m ok c, of w d k]
  have "(\<lambda>s. Some (watchCommand c ks s)) s = Some (s1, r)" using m by simp
  from call_ok [where p = "\<lambda>s. Some (watchCommand c ks s)", OF this conjunct1 [OF wc], of True w d k] wc
  show ?thesis using Watch by (simp add: processCommand_def) (blast dest: goodE)
next
  case (Command qc)
  show ?thesis
  proof (cases "has_flag s c CLIENT_MULTI")
    case True
    have "watch_ok (queueMultiCommand c qc s)" unfolding queueMultiCommand_def using ok by (rule watch_ok_cong) simp_all
    moreover have "queues_signal tab (queueMultiCommand c qc s)" if "queues_signal tab s" "q_signals tab qc"
      using that by (auto simp: queueMultiCommand_def queues_signal_def)
    moreover have "prot w d k s (queueMultiCommand c qc s)"
      by (intro prot_frame) (auto simp: queueMultiCommand_def has_flag_def)
    ultimately show ?thesis using True Command by (simp add: processCommand_def queueMultiCommand_def)
  next
    case False
    obtain s1 r where "queued_proc tab c qc s = Some (s1, r)" "good s s1"
      "q_signals tab qc \<and> (c \<noteq> w \<or> qc \<noteq> Unwatch) \<longrightarrow> prot w d k s s1"
      using queued_proc_ok [OF ok] by blast
    from call_ok [where p = "queued_proc tab c qc", OF this] show ?thesis
      using False Command by (fastforce simp: processCommand_def releases_def dest: goodE)
  qed
next
  case (Rejected flag)
  have "good s (flagTransaction c s)"
    using good_upd [OF ok, of "\<lambda>cl. cl\<lparr>flags := insert CLIENT_DIRTY_EXEC (flags cl)\<rparr>" c] ok
    by (auto simp: flagTransaction_def add_flag_def good_refl)
  moreover have "prot w d k s (flagTransaction c s)"
    by (intro prot_frame) (auto simp: flagTransaction_def add_flag_def has_flag_def)
  ultimately show ?thesis using Rejected ok by (auto simp: processCommand_def prot_refl dest: goodE)
qed

subsection \<open>Sequences of events\<close>

datatype ('k, 'cmd) event = Request nat "('k, 'cmd) request" | Connect nat | Disconnect nat

fun event_step :: "('k, 'v, 'cmd, 'r) command_table \<Rightarrow> ('k, 'cmd) event \<Rightarrow> ('k, 'v, 'cmd) server \<Rightarrow>
    ('k, 'v, 'cmd) server option" where
  "event_step tab (Request c q) s =
     (if c \<in> set (client_list s) then map_option fst (processCommand tab c q s) else Some s)"
| "event_step tab (Connect c) s = Some (connect c s)"
| "event_step tab (Disconnect c) s = (if c \<in> set (client_list s) then disconnect c s else Some s)"

fun event_run :: "('k, 'v, 'cmd, 'r) command_table \<Rightarrow> ('k, 'cmd) event list \<Rightarrow> ('k, 'v, 'cmd) server \<Rightarrow>
    ('k, 'v, 'cmd) server option" where
  "event_run tab [] s = Some s"
| "event_run tab (e # es) s = do { s \<leftarrow> event_step tab e s; event_run tab es s }"

fun gives_up :: "nat \<Rightarrow> ('k, 'cmd) event \<Rightarrow> bool" where
  "gives_up w (Request c q) \<longleftrightarrow> c = w \<and> releases q"
| "gives_up w (Connect c) \<longleftrightarrow> False"
| "gives_up w (Disconnect c) \<longleftrightarrow> c = w"

fun event_signals :: "('k, 'v, 'cmd, 'r) command_table \<Rightarrow> ('k, 'cmd) event \<Rightarrow> bool" where
  "event_signals tab (Request c q) = request_signals tab q"
| "event_signals tab e = True"

lemma connect_ok:
  assumes ok: "watch_ok s"
  shows "watch_ok (connect c s)" "prot w d k s (connect c s)" "queues_signal tab s \<Longrightarrow> queues_signal tab (connect c s)"
proof -
  show "queues_signal tab s \<Longrightarrow> queues_signal tab (connect c s)"
    by (auto simp: queues_signal_def connect_def)
  show "watch_ok (connect c s)"
  proof (cases "c \<in> set (client_list s)")
    case False
    then have nil: "watched_keys (clients s c) = []" using watch_okD(6) [OF ok] by blast
    have "watched_keys (clients (connect c s) c') = watched_keys (clients s c')" for c' using nil by (simp add: connect_def)
    moreover have "watchers (connect c s) = watchers s" by (simp add: fun_eq_iff watchers_def connect_def)
    moreover have "db_watched_keys (connect c s) = db_watched_keys s" by (simp add: connect_def)
    moreover have "client_list (connect c s) = client_list s @ [c]" using False by (simp add: connect_def)
    ultimately show ?thesis using ok False unfolding watch_ok_def by auto
  qed (use ok in \<open>simp add: connect_def\<close>)
  show "prot w d k s (connect c s)"
    using watch_okD(6) [OF ok, of c] by (auto simp: prot_def connect_def has_flag_def)
qed

lemma disconnect_ok:
  assumes ok: "watch_ok s"
  shows "\<exists>s'. disconnect c s = Some s' \<and> watch_ok s' \<and> (queues_signal tab s \<longrightarrow> queues_signal tab s') \<and>
    (c \<noteq> w \<longrightarrow> prot w d k s s')"
proof -
  obtain u where u: "unwatchAllKeys c s = Some u" "good s u" "keyspace u = keyspace s"
    "clients u = (clients s)(c := (clients s c)\<lparr>watched_keys := []\<rparr>)"
    using unwatch_good [OF ok, of c] by blast
  let ?s = "(upd_client c (\<lambda>cl. cl\<lparr>commands := []\<rparr>) u)\<lparr>client_list := remove1 c (client_list u)\<rparr>"
  have oku: "watch_ok u" using u(2) by (rule goodD)
  have wk: "watched_keys (clients ?s c') = watched_keys (clients u c')" for c' by simp
  have "watchers ?s = watchers u" by (simp add: fun_eq_iff watchers_def)
  moreover have "watched_keys (clients u c) = []" using u(4) by simp
  moreover have "set (client_list ?s) = set (client_list u) - {c}" "distinct (client_list ?s)"
    using watch_okD(5) [OF oku] by (simp_all add: set_remove1_eq)
  ultimately have "watch_ok ?s" using oku unfolding watch_ok_def wk by auto
  moreover have "prot w d k s ?s" if "c \<noteq> w"
    using that u by (intro prot_frame) (auto simp: has_flag_def)
  moreover have "queues_signal tab s \<longrightarrow> queues_signal tab ?s" using u(4) by (auto simp: queues_signal_def)
  ultimately show ?thesis using u(1) by (auto simp: disconnect_def Let_def)
qed

lemma event_step_ok:
  assumes ok: "watch_ok s"
  shows "\<exists>s'. event_step tab e s = Some s' \<and> watch_ok s' \<and>
    (queues_signal tab s \<and> event_signals tab e \<longrightarrow> queues_signal tab s' \<and> (\<not> gives_up w e \<longrightarrow> prot w d k s s'))"
proof (cases e)
  case (Request c q)
  show ?thesis
  proof (cases "c \<in> set (client_list s)")
    case True
    then show ?thesis using Request processCommand_ok [OF ok True, of tab q w d k] by auto
  qed (use Request ok in \<open>simp add: prot_refl\<close>)
next
  case (Connect c)
  then show ?thesis using connect_ok [OF ok] by auto
next
  case (Disconnect c)
  then show ?thesis using disconnect_ok [OF ok, of c tab w d k] ok by (auto simp: prot_refl)
qed

lemma event_run_ok:
  "watch_ok s \<Longrightarrow> \<exists>s'. event_run tab es s = Some s' \<and> watch_ok s' \<and>
     (queues_signal tab s \<and> (\<forall>e\<in>set es. event_signals tab e \<and> \<not> gives_up w e) \<longrightarrow> prot w d k s s')"
proof (induction es arbitrary: s)
  case (Cons e es)
  obtain s1 where s1: "event_step tab e s = Some s1" "watch_ok s1"
    "queues_signal tab s \<and> event_signals tab e \<longrightarrow> queues_signal tab s1 \<and> (\<not> gives_up w e \<longrightarrow> prot w d k s s1)"
    using event_step_ok [OF Cons.prems] by blast
  obtain s2 where s2: "event_run tab es s1 = Some s2" "watch_ok s2"
    "queues_signal tab s1 \<and> (\<forall>e\<in>set es. event_signals tab e \<and> \<not> gives_up w e) \<longrightarrow> prot w d k s1 s2"
    using Cons.IH [OF s1(2)] by blast
  have "queues_signal tab s \<and> (\<forall>e\<in>set (e # es). event_signals tab e \<and> \<not> gives_up w e) \<longrightarrow> prot w d k s s2"
    using s1(3) s2(3) by (auto intro: prot_trans)
  then show ?case using s1(1) s2(1,2) by auto
qed (simp add: prot_refl)

lemma exec_clean:
  assumes "execCommand tab c s = Some (s', MultiBulk rs)"
  shows "has_flag s c CLIENT_MULTI" "\<not> has_flag s c CLIENT_DIRTY_CAS" "\<not> has_flag s c CLIENT_DIRTY_EXEC"
  using assms by (auto simp: execCommand_def Let_def split: if_splits option.splits Option.bind_splits)

subsection \<open>EXEC runs the queue as one block\<close>

fun send_all :: "('k, 'v, 'cmd, 'r) command_table \<Rightarrow> nat \<Rightarrow> ('k, 'cmd) queued list \<Rightarrow> ('k, 'v, 'cmd) server \<Rightarrow>
    (('k, 'v, 'cmd) server \<times> 'r reply list) option" where
  \<comment> \<open>the commands sent one after the other, with nothing in between\<close>
  "send_all tab c [] s = Some (s, [])"
| "send_all tab c (q # qs) s = do {
     (s, r) \<leftarrow> processCommand tab c (Command q) s;
     (s, rs) \<leftarrow> send_all tab c qs s;
     Some (s, r # rs) }"

definition blind :: "('k, 'v, 'cmd, 'r) command_table \<Rightarrow> 'cmd \<Rightarrow> bool" where
  \<comment> \<open>the command does not look at the flags of the client: not BLPOP, BRPOP, BRPOPLPUSH or WAIT\<close>
  "blind tab cmd \<longleftrightarrow> (\<forall>fl fl' d ks. proc tab cmd fl d ks = proc tab cmd fl' d ks)"

definition similar :: "nat \<Rightarrow> ('k, 'v, 'cmd) server \<Rightarrow> ('k, 'v, 'cmd) server \<Rightarrow> bool" where
  "similar c s t \<longleftrightarrow> keyspace t = keyspace s \<and> db_watched_keys t = db_watched_keys s \<and> client_list t = client_list s \<and>
     dirty t = dirty s \<and> (\<forall>c'. c' \<noteq> c \<longrightarrow> clients t c' = clients s c') \<and> db (clients t c) = db (clients s c) \<and>
     watched_keys (clients s c) = [] \<and> watched_keys (clients t c) = [] \<and>
     flags (clients t c) = {} \<and> commands (clients t c) = []"

lemma similar_watched: "similar c s t \<Longrightarrow> watched_keys (clients t x) = watched_keys (clients s x)"
  by (cases "x = c") (auto simp: similar_def)

lemma similar_ok: "similar c s t \<Longrightarrow> watch_ok s \<Longrightarrow> watch_ok t"
  by (erule watch_ok_cong) (simp_all add: similar_watched, simp_all add: similar_def)

lemma similar_mark: "similar c s t \<Longrightarrow> (\<And>x. P x = Q x) \<Longrightarrow> \<not> Q c \<Longrightarrow> similar c (mark P s) (mark Q t)"
  by (auto simp: similar_def has_flag_def mark_def)

lemma similar_propagate: "similar c s t \<Longrightarrow> similar c (propagate q s) t" "similar c s t \<Longrightarrow> similar c s (propagate q t)"
  by (auto simp: similar_def propagate_def has_flag_def)

lemma queued_proc_sim:
  assumes sim: "similar c s t" and ok: "watch_ok s" and run: "queued_proc tab c q s = Some (s', r)"
    and blind: "\<And>cmd. q = Table cmd \<Longrightarrow> blind tab cmd"
  shows "\<exists>t'. queued_proc tab c q t = Some (t', r) \<and> similar c s' t'"
proof -
  note okt = similar_ok [OF sim ok] and wt = similar_watched [OF sim]
  have flush: "similar c ((fst (emptyDb num dbid (touchWatchedKeysOnFlush dbid s)))\<lparr>dirty := n\<rparr>)
    ((fst (emptyDb num dbid (touchWatchedKeysOnFlush dbid t)))\<lparr>dirty := n\<rparr>)"
    "snd (emptyDb num dbid (touchWatchedKeysOnFlush dbid t)) = snd (emptyDb num dbid (touchWatchedKeysOnFlush dbid s))"
    "dirty (fst (emptyDb num dbid (touchWatchedKeysOnFlush dbid t))) = dirty (fst (emptyDb num dbid (touchWatchedKeysOnFlush dbid s)))"
    for num dbid n
  proof -
    have "similar c (touchWatchedKeysOnFlush dbid s) (touchWatchedKeysOnFlush dbid t)"
      unfolding flush_mark using sim wt by (intro similar_mark [OF sim]) (simp_all add: similar_def)
    then have S: "similar c (touchWatchedKeysOnFlush dbid s) (touchWatchedKeysOnFlush dbid t)" .
    have K: "keyspace (touchWatchedKeysOnFlush dbid t) = keyspace (touchWatchedKeysOnFlush dbid s)"
      using S by (simp add: similar_def)
    show "snd (emptyDb num dbid (touchWatchedKeysOnFlush dbid t)) = snd (emptyDb num dbid (touchWatchedKeysOnFlush dbid s))"
      by (simp only: emptyDb_def snd_conv K)
    from S show "similar c ((fst (emptyDb num dbid (touchWatchedKeysOnFlush dbid s)))\<lparr>dirty := n\<rparr>)
      ((fst (emptyDb num dbid (touchWatchedKeysOnFlush dbid t)))\<lparr>dirty := n\<rparr>)"
      "dirty (fst (emptyDb num dbid (touchWatchedKeysOnFlush dbid t))) = dirty (fst (emptyDb num dbid (touchWatchedKeysOnFlush dbid s)))"
      unfolding similar_def emptyDb_def by auto
  qed
  show ?thesis
  proof (cases q)
    case Unwatch
    then show ?thesis using run sim
      by (auto simp: unwatchCommand_def unwatchAllKeys_def similar_def del_flags_def has_flag_def)
  next
    case Flushdb
    then show ?thesis using run flush [where num = "dbnum tab" and dbid = "Some (db (clients s c))"] sim
      by (auto simp: flushdbCommand_def Let_def split_beta similar_def [of c s t])
  next
    case Flushall
    then show ?thesis using run flush [where num = "dbnum tab" and dbid = None]
      by (auto simp: flushallCommand_def Let_def split_beta)
  next
    case (Select i)
    then show ?thesis using run sim by (auto simp: selectCommand_def similar_def has_flag_def split: if_splits)
  next
    case (Swapdb id1 id2)
    then show ?thesis using run sim
      by (auto simp: swapdbCommand_def dbSwapDatabases_def similar_def has_flag_def split: if_splits)
  next
    case (Table cmd)
    obtain ks keys n x where p: "proc tab cmd (flags (clients s c)) (db (clients s c)) (keyspace s) = (ks, keys, n, x)" by (metis prod_cases4)
    let ?s = "s\<lparr>keyspace := ks, dirty := dirty s + n\<rparr>" and ?t = "t\<lparr>keyspace := ks, dirty := dirty t + n\<rparr>"
    have oks: "watch_ok ?s" "watch_ok ?t" using ok okt by (auto intro: watch_ok_cong)
    have "similar c ?s ?t" using sim by (simp add: similar_def has_flag_def)
    then have "similar c (fold touchWatchedKey keys ?s) (fold touchWatchedKey keys ?t)"
      unfolding touch_all [OF oks(1)] touch_all [OF oks(2)] using wt sim by (intro similar_mark) (simp_all add: similar_def)
    moreover have "db (clients t c) = db (clients s c)" "keyspace t = keyspace s" using sim by (simp_all add: similar_def)
    moreover have "proc tab cmd (flags (clients t c)) (db (clients s c)) (keyspace s) = (ks, keys, n, x)"
      using blind [OF Table] p unfolding blind_def by metis
    ultimately show ?thesis using run Table p by (auto simp: table_proc_def)
  qed
qed

lemma exec_loop_sim:
  "similar c s t \<Longrightarrow> watch_ok s \<Longrightarrow> exec_loop tab c qs must s = Some (s', m, rs) \<Longrightarrow>
     (\<And>cmd. Table cmd \<in> set qs \<Longrightarrow> blind tab cmd) \<Longrightarrow>
     \<exists>t'. send_all tab c qs t = Some (t', rs) \<and> similar c s' t'"
proof (induction qs arbitrary: must s t s' rs)
  case (Cons q qs)
  define s0 where "s0 = (if \<not> must \<and> is_write tab q then propagate Multi s else s)"
  have s0: "similar c s0 t" "watch_ok s0"
    using Cons.prems(1,2) by (auto simp: s0_def intro: similar_propagate(1) goodD [OF propagate_good])
  obtain s1 r where s1: "queued_proc tab c q s0 = Some (s1, r)" "good s0 s1" using queued_proc_ok [OF s0(2)] by blast
  obtain t1 where t1: "queued_proc tab c q t = Some (t1, r)" "similar c s1 t1" using queued_proc_sim [OF s0 s1(1)] Cons.prems(4) by auto
  define s2 where "s2 = (if dirty s1 > dirty s0 then propagate (Command q) s1 else s1)"
  define t2 where "t2 = (if dirty t1 > dirty t then propagate (Command q) t1 else t1)"
  have c2: "call (queued_proc tab c q) (Command q) s0 = Some (s2, r)" using s1(1) by (simp add: call_def s2_def)
  have d2: "processCommand tab c (Command q) t = Some (t2, r)"
    using t1(1) Cons.prems(1) by (simp add: processCommand_def call_def t2_def similar_def has_flag_def)
  have sim2: "similar c s2 t2" using t1(2) by (auto simp: s2_def t2_def intro!: similar_propagate)
  have ok2: "watch_ok s2" using goodD [OF s1(2)] by (auto simp: s2_def intro: goodD [OF propagate_good])
  obtain rs' where rs: "exec_loop tab c qs (must \<or> \<not> must \<and> is_write tab q) s2 = Some (s', m, rs')" "rs = r # rs'"
    using Cons.prems(3) c2 by (auto simp: Let_def s0_def [symmetric] split: Option.bind_splits)
  from Cons.IH [OF sim2 ok2 rs(1)] show ?case using d2 rs(2) Cons.prems(4) by auto
qed auto

lemma unwatch_loop_watched:
  fixes s t :: "('k, 'v, 'cmd) server"
  shows "unwatch_loop c wks s = Some s' \<Longrightarrow> db_watched_keys t = db_watched_keys s \<Longrightarrow>
     \<exists>t'. unwatch_loop c wks t = Some t' \<and> db_watched_keys t' = db_watched_keys s'"
proof (induction wks arbitrary: s t)
  case (Cons dk wks)
  obtain d k where dk: "dk = (d, k)" by (cases dk)
  obtain ws where ws: "db_watched_keys s d k = Some ws" "c \<in> set ws"
    using Cons.prems(1) by (auto simp: dk split: Option.bind_splits if_splits)
  define f :: "('k, 'v, 'cmd) server \<Rightarrow> ('k, 'v, 'cmd) server" where
    "f s = upd_client c (\<lambda>cl. cl\<lparr>watched_keys := remove1 (d, k) (watched_keys cl)\<rparr>)
      (set_watchers d k (if remove1 c ws = [] then None else Some (remove1 c ws)) s)" for s
  have step: "unwatch_loop c (dk # wks) u = unwatch_loop c wks (f u)" if "db_watched_keys u d k = Some ws" for u
    using that ws(2) by (simp add: dk Let_def f_def)
  have "db_watched_keys (f t) = db_watched_keys (f s)" using Cons.prems(2) by (simp add: f_def set_watchers_def)
  from Cons.IH [OF _ this] show ?case using step [of s] step [of t] ws(1) Cons.prems by simp
qed simp

lemma exec_serial_ok:
  assumes ok: "watch_ok s" and multi: "has_flag s c CLIENT_MULTI"
    and clean: "\<not> has_flag s c CLIENT_DIRTY_CAS" "\<not> has_flag s c CLIENT_DIRTY_EXEC"
    and blind: "\<And>cmd. Table cmd \<in> set (commands (clients s c)) \<Longrightarrow> blind tab cmd"
  shows "\<exists>t t' s' rs. discardTransaction c s = Some t \<and> send_all tab c (commands (clients s c)) t = Some (t', rs) \<and>
    execCommand tab c s = Some (s', MultiBulk rs) \<and> keyspace s' = keyspace t' \<and> clients s' = clients t' \<and>
    client_list s' = client_list t' \<and> db_watched_keys s' = db_watched_keys t'"
proof -
  obtain u where u: "unwatchAllKeys c s = Some u" "good s u" "keyspace u = keyspace s" "dirty u = dirty s"
    "clients u = (clients s)(c := (clients s c)\<lparr>watched_keys := []\<rparr>)"
    using unwatch_good [OF ok, of c] by blast
  obtain t where t: "discardTransaction c s = Some t" "good s t" "keyspace t = keyspace s" "dirty t = dirty s"
    "clients t = (clients s)(c := (clients s c)\<lparr>watched_keys := [], commands := [],
      flags := flags (clients s c) - {CLIENT_MULTI, CLIENT_DIRTY_CAS, CLIENT_DIRTY_EXEC}\<rparr>)"
    using discardTransaction_ok [OF ok, of c] by blast
  have dbw: "db_watched_keys t = db_watched_keys u"
    using unwatch_loop_watched [OF u(1) [unfolded unwatchAllKeys_def],
        of "del_flags {CLIENT_MULTI, CLIENT_DIRTY_CAS, CLIENT_DIRTY_EXEC} c (upd_client c (\<lambda>cl. cl\<lparr>commands := []\<rparr>) s)"] t(1)
    by (auto simp: discardTransaction_def unwatchAllKeys_def Let_def del_flags_def)
  have fl: "fl - {CLIENT_MULTI, CLIENT_DIRTY_CAS, CLIENT_DIRTY_EXEC} = {}" for fl
    by (auto intro: client_flag.exhaust)
  have sim: "similar c u t"
    using dbw u t fl by (auto simp: similar_def good_def has_flag_def)
  have cu: "commands (clients u c) = commands (clients s c)" using u(5) by simp
  obtain l m rs where l: "exec_loop tab c (commands (clients u c)) False u = Some (l, m, rs)" "good u l"
    using exec_loop_ok [OF goodD [OF u(2)]] by blast
  obtain t' where t': "send_all tab c (commands (clients u c)) t = Some (t', rs)" "similar c l t'"
    using exec_loop_sim [OF sim goodD [OF u(2)] l(1)] blind cu by auto
  obtain e where e: "discardTransaction c l = Some e" "keyspace e = keyspace l" "good l e"
    "clients e = (clients l)(c := (clients l c)\<lparr>watched_keys := [], commands := [],
      flags := flags (clients l c) - {CLIENT_MULTI, CLIENT_DIRTY_CAS, CLIENT_DIRTY_EXEC}\<rparr>)"
    using discardTransaction_ok [OF goodD [OF l(2)], of c] by blast
  have w: "db_watched_keys e = db_watched_keys l"
    using e(1) t'(2) by (auto simp: discardTransaction_def unwatchAllKeys_def del_flags_def similar_def)
  let ?e = "if m then e\<lparr>dirty := dirty e + 1\<rparr> else e"
  have "clients e c' = clients t' c'" for c'
    using e(4) t'(2) fl by (cases "c' = c") (auto simp: similar_def intro!: client.equality)
  then have "clients ?e = clients t'" by (simp add: fun_eq_iff)
  moreover have "execCommand tab c s = Some (?e, MultiBulk rs)"
    using multi clean u(1) l(1) e(1) by (simp add: execCommand_def)
  moreover have "keyspace ?e = keyspace t'" "db_watched_keys ?e = db_watched_keys t'" "client_list ?e = client_list t'"
    using e(2,3) w t'(2) by (simp_all add: similar_def good_def)
  ultimately show ?thesis using t(1) t'(1) cu by auto
qed

subsection \<open>Propagation\<close>

definition clean_read :: "('k, 'v, 'cmd, 'r) command_table \<Rightarrow> 'cmd \<Rightarrow> bool" where
  \<comment> \<open>a command flagged read only or administrative that does not raise server.dirty\<close>
  "clean_read tab cmd \<longleftrightarrow> (\<forall>fl d ks. \<not> write_flag tab cmd \<longrightarrow> fst (snd (snd (proc tab cmd fl d ks))) = 0)"


definition set_prop :: "('k, 'cmd) request list \<Rightarrow> ('k, 'v, 'cmd) server \<Rightarrow> ('k, 'v, 'cmd) server" where
  "set_prop x s = s\<lparr>propagated := x\<rparr>"

lemma set_prop_simps [simp]:
  "keyspace (set_prop x s) = keyspace s" "db_watched_keys (set_prop x s) = db_watched_keys s"
  "client_list (set_prop x s) = client_list s" "dirty (set_prop x s) = dirty s" "propagated (set_prop x s) = x"
  "clients (set_prop x s) = clients s" "set_prop (propagated s) s = s" "set_prop x (set_prop y s) = set_prop x s"
  by (simp_all add: set_prop_def)














subsection \<open>The properties\<close>

definition server0 :: "(nat \<Rightarrow> 'k \<rightharpoonup> 'v) \<Rightarrow> ('k, 'v, 'cmd) server" where
  "server0 ks = \<lparr>client_list = [], clients = (\<lambda>_. \<lparr>db = 0, flags = {}, commands = [], watched_keys = []\<rparr>),
     db_watched_keys = (\<lambda>_. Map.empty), keyspace = ks, dirty = 0, propagated = []\<rparr>"

lemma server0_ok: "watch_ok (server0 ks)"
  by (simp add: watch_ok_def server0_def watchers_def)

text \<open>Property C19. From a server without clients every sequence of connections, disconnections
  and requests runs without a failed assertion, for any command table, and leaves the keys the
  clients watch and the clients each database notes for a key in agreement.\<close>

theorem multi_invariant:
  "\<exists>s. event_run tab es (server0 ks) = Some s \<and> watch_ok s"
  using event_run_ok [OF server0_ok [of ks], of tab es] by blast

text \<open>A command table with SET and GET for the witnesses.\<close>

definition demo_table :: "(nat, nat, nat \<times> nat option, nat option) command_table" where
  "demo_table = \<lparr>proc = (\<lambda>(k, v) fl d ks. case v of
       None \<Rightarrow> (ks, [], 0, ks d k)
     | Some x \<Rightarrow> (ks(d := (ks d)(k \<mapsto> x)), [(d, k)], 1, v)),
     write_flag = (\<lambda>(k, v). v \<noteq> None), dbnum = 16\<rparr>"

lemma demo_commands: "signals demo_table cmd" "blind demo_table cmd" "clean_read demo_table cmd"
  by (cases cmd; auto simp: signals_def blind_def clean_read_def demo_table_def split: option.splits)+

text \<open>Two clients, the first watching key 7 and with a queued SET.\<close>

definition demo_server :: "(nat, nat, nat \<times> nat option) server" where
  "demo_server = \<lparr>client_list = [1, 2],
     clients = (\<lambda>c. if c = 1 then \<lparr>db = 0, flags = {CLIENT_MULTI}, commands = [Table (7, Some 5), Table (7, None)],
         watched_keys = [(0, 7)]\<rparr>
       else \<lparr>db = 0, flags = {}, commands = [], watched_keys = []\<rparr>),
     db_watched_keys = (\<lambda>d. if d = 0 then [7 \<mapsto> [1]] else Map.empty), keyspace = (\<lambda>_. [7 \<mapsto> 3]), dirty = 0, propagated = []\<rparr>"

lemma demo_server_ok: "watch_ok demo_server"
  by (auto simp: watch_ok_def demo_server_def watchers_def)

text \<open>Property C6. Optimistic locking. If a client watches a key, does not give the key up
  (EXEC, DISCARD, UNWATCH, disconnection) while any other events happen, and its EXEC then
  runs the queued commands, the key has the value it had before these events. The commands
  that are queued at the start or sent in between signal the keys they change; the lemma
  \<open>swapdb_escapes_watch\<close> shows that SWAPDB, which does not, breaks the promise. A key that
  expires is outside the model.\<close>

theorem watch_protects:
  assumes "watch_ok s" and "queues_signal tab s" and "(d, k) \<in> set (watched_keys (clients s w))"
    and "\<forall>e\<in>set es. event_signals tab e \<and> \<not> gives_up w e" and "event_run tab es s = Some s'"
    and "execCommand tab w s' = Some (s'', MultiBulk rs)"
  shows "keyspace s' d k = keyspace s d k"
proof -
  have "prot w d k s s'" using event_run_ok [OF assms(1), of tab es w d k] assms(2,4,5) by auto
  with assms(3) exec_clean(2) [OF assms(6)] show ?thesis by (auto simp: prot_def)
qed

theorem watch_protects_witness:
  "\<exists>s' s'' rs. event_run demo_table [Request 2 (Command (Table (8, Some 1))), Connect 3, Disconnect 2] demo_server = Some s' \<and>
     execCommand demo_table 1 s' = Some (s'', MultiBulk rs) \<and> keyspace s' 0 7 = Some 3"
proof -
  let ?es = "[Request 2 (Command (Table (8, Some 1))), Connect 3, Disconnect 2] :: (nat, nat \<times> nat option) event list"
  obtain s' where s': "event_run demo_table ?es demo_server = Some s'" "watch_ok s'"
    using event_run_ok [OF demo_server_ok, of demo_table ?es] by blast
  have "has_flag s' 1 CLIENT_MULTI \<and> \<not> has_flag s' 1 CLIENT_DIRTY_CAS \<and> \<not> has_flag s' 1 CLIENT_DIRTY_EXEC"
    using s'(1) by (auto simp: demo_server_def demo_table_def processCommand_def call_def has_flag_def table_proc_def
      touchWatchedKey_def connect_def disconnect_def unwatchAllKeys_def propagate_def)
  then obtain s'' rs where e: "execCommand demo_table 1 s' = Some (s'', MultiBulk rs)"
    using exec_serial_ok [OF s'(2), of 1 demo_table] demo_commands(2) by blast
  have "queues_signal demo_table demo_server" by (simp add: queues_signal_def demo_server_def demo_commands(1))
  then have "keyspace s' 0 7 = keyspace demo_server 0 7"
    by (rule watch_protects [OF demo_server_ok _ _ _ s'(1) e]) (simp_all add: demo_server_def releases_def demo_commands(1))
  then show ?thesis using s'(1) e by (auto simp: demo_server_def)
qed

text \<open>SWAPDB replaces the value of a key without flagging the clients that watch it: for every
  server and every table, a client that watches a key keeps its flags when another client swaps
  the database of the key with one that holds another value.\<close>

lemma swapdb_escapes_watch:
  assumes "c \<in> set (client_list s)" and "\<not> has_flag s c CLIENT_MULTI"
    and "d < dbnum tab" and "d' < dbnum tab" and "keyspace s d' k \<noteq> keyspace s d k"
  shows "\<exists>s'. event_run tab [Request c (Command (Swapdb d d'))] s = Some s' \<and> keyspace s' d k \<noteq> keyspace s d k \<and>
    clients s' = clients s"
  using assms by (cases "d = d'") (auto simp: processCommand_def call_def swapdbCommand_def dbSwapDatabases_def propagate_def)

text \<open>Property C5. An EXEC that is not aborted replies with the replies of the queued commands
  and has the effect, on the keyspace, on the watched keys and on every client (this one leaves
  with nothing queued, nothing watched and its flags cleared), of leaving the transaction and then sending these commands one after the
  other with nothing in between. The queued commands of the table are ones that do not look at
  the flags of their client; BLPOP, BRPOP, BRPOPLPUSH and WAIT do and behave differently inside
  a transaction.\<close>

theorem exec_serial:
  assumes "watch_ok s" and "has_flag s c CLIENT_MULTI"
    and "\<not> has_flag s c CLIENT_DIRTY_CAS" and "\<not> has_flag s c CLIENT_DIRTY_EXEC"
    and "\<And>cmd. Table cmd \<in> set (commands (clients s c)) \<Longrightarrow> blind tab cmd"
  shows "\<exists>t t' s' rs. discardTransaction c s = Some t \<and> send_all tab c (commands (clients s c)) t = Some (t', rs) \<and>
    execCommand tab c s = Some (s', MultiBulk rs) \<and> keyspace s' = keyspace t' \<and> clients s' = clients t' \<and>
    client_list s' = client_list t' \<and> db_watched_keys s' = db_watched_keys t'"
  using exec_serial_ok [OF assms] .

theorem exec_serial_witness:
  "\<exists>s' rs. execCommand demo_table 1 demo_server = Some (s', MultiBulk rs) \<and> keyspace s' 0 7 = Some 5"
proof -
  have f: "has_flag demo_server 1 CLIENT_MULTI" "\<not> has_flag demo_server 1 CLIENT_DIRTY_CAS"
    "\<not> has_flag demo_server 1 CLIENT_DIRTY_EXEC" by (simp_all add: has_flag_def demo_server_def)
  show ?thesis using exec_serial [OF demo_server_ok f, of demo_table] demo_commands(2)
    by (auto simp: demo_server_def demo_table_def discardTransaction_def unwatchAllKeys_def set_watchers_def del_flags_def
        processCommand_def call_def has_flag_def table_proc_def touchWatchedKey_def propagate_def)
qed

text \<open>Property C33. An EXEC after a watched key was touched, or after an error while queueing,
  runs nothing: the keyspace, the dirty counter, the propagated commands and the other clients
  are as before, the client leaves the transaction with nothing queued and nothing watched, and
  the reply tells the two cases apart.\<close>

theorem exec_aborted:
  assumes "watch_ok s" and "has_flag s c CLIENT_MULTI"
    and "has_flag s c CLIENT_DIRTY_CAS \<or> has_flag s c CLIENT_DIRTY_EXEC"
  shows "\<exists>s'. execCommand tab c s = Some (s', if has_flag s c CLIENT_DIRTY_EXEC then ExecAbort else NullMultiBulk) \<and>
    watch_ok s' \<and> keyspace s' = keyspace s \<and> dirty s' = dirty s \<and> propagated s' = propagated s \<and>
    (\<forall>c'. c' \<noteq> c \<longrightarrow> clients s' c' = clients s c') \<and>
    commands (clients s' c) = [] \<and> watched_keys (clients s' c) = [] \<and>
    flags (clients s' c) \<inter> {CLIENT_MULTI, CLIENT_DIRTY_CAS, CLIENT_DIRTY_EXEC} = {}"
  using discardTransaction_ok [OF assms(1), of c] assms(2,3) by (auto simp: execCommand_def Let_def good_def)

theorem exec_aborted_witness:
  "\<exists>s'. execCommand demo_table 1 (add_flag CLIENT_DIRTY_CAS 1 demo_server) = Some (s', NullMultiBulk) \<and> keyspace s' 0 7 = Some 3"
proof -
  have "watch_ok (add_flag CLIENT_DIRTY_CAS 1 demo_server)" unfolding add_flag_mark by (rule mark_ok [OF demo_server_ok])
  from exec_aborted [OF this, of 1 demo_table] show ?thesis
    by (auto simp: has_flag_def add_flag_def demo_server_def)
qed



end
