(* ===== verification/Resp.thy ===== *)
theory Resp
  imports Sds_Format "HOL-Library.Sublist"
begin

section \<open>The request parser (networking.c) and the command encoder (aof.c)\<close>

text \<open>
  Clients send commands in the RESP format: an argument count and the arguments, each with
  its length. \<open>readQueryFromClient\<close> appends what \<open>read\<close> returned to the query buffer of the
  client and \<open>processInputBuffer\<close> executes the complete commands in it, keeping a partly
  received command in the fields \<open>multibulklen\<close>, \<open>bulklen\<close> and \<open>argv\<close>. The buffer is a string
  of theory Sds, with its operations and memory. The encoder is
  \<open>catAppendOnlyGenericCommand\<close>, which writes the append only file and feeds replicas.

  The client is an ordinary one (not a master or replica link) of a server that is not paused.
  Executing a command is recorded in \<open>executed\<close>; whether a command blocks its client is a
  parameter of the server. A client that was freed is \<open>Some None\<close>, a failed assertion or an
  access outside a block is \<open>None\<close>.
\<close>

definition PROTO_IOBUF_LEN :: int where "PROTO_IOBUF_LEN = 1024 * 16"
definition PROTO_INLINE_MAX_SIZE :: nat where "PROTO_INLINE_MAX_SIZE = 1024 * 64"
definition PROTO_MBULK_BIG_ARG :: int where "PROTO_MBULK_BIG_ARG = 1024 * 32"
definition PROTO_REQ_INLINE :: nat where "PROTO_REQ_INLINE = 1"
definition PROTO_REQ_MULTIBULK :: nat where "PROTO_REQ_MULTIBULK = 2"
definition OBJ_ENCODING_EMBSTR_SIZE_LIMIT :: nat where "OBJ_ENCODING_EMBSTR_SIZE_LIMIT = 44"

datatype proto_error =
    TooBigInline | UnbalancedQuotes | TooBigMbulkCount | InvalidMultibulkLength
  | TooBigBulkCount | ExpectedDollar byte | InvalidBulkLength

record server_conf =
  proto_max_bulk_len :: int
  client_max_querybuf_len :: nat
  blocks :: "byte list list \<Rightarrow> bool"

record client =
  querybuf :: sds
  reqtype :: nat
  multibulklen :: int
  bulklen :: int
  argv :: "sds list"
  argv_cap :: nat
  close_after_reply :: bool
  blocked :: bool
  errors :: "proto_error list"
  executed :: "byte list list list"

fun strchr_from :: "byte list \<Rightarrow> byte \<Rightarrow> nat option option" where
  \<comment> \<open>\<open>strchr(p, c)\<close> for a character that is not the terminator: \<open>Some None\<close> is NULL\<close>
  "strchr_from [] c = None"
| "strchr_from (x # p) c =
     (if x = c then Some (Some 0) else if x = 0 then Some None
      else map_option (map_option Suc) (strchr_from p c))"

definition signed_cast :: "nat \<Rightarrow> int" where
  "signed_cast n = (int n + 2 ^ 31) mod 2 ^ 32 - 2 ^ 31"

definition createEmbeddedStringObject :: "byte list \<Rightarrow> nat \<Rightarrow> sds option" where
  \<comment> \<open>the string of the object\<close>
  "createEmbeddedStringObject ptr len = do {
     x \<leftarrow> mem_read ptr 0 len;
     Some \<lparr>hdr = sdshdr8 (of_nat len) (of_nat len), buf = x @ [0]\<rparr> }"

definition createStringObject :: "(nat \<Rightarrow> byte) \<Rightarrow> byte list \<Rightarrow> nat \<Rightarrow> sds option" where
  "createStringObject junk ptr len =
     (if len \<le> OBJ_ENCODING_EMBSTR_SIZE_LIMIT then createEmbeddedStringObject ptr len
      else sdsnewlen junk (Some ptr) len)"

definition freeClientArgv :: "client \<Rightarrow> client" where
  "freeClientArgv c = c\<lparr>argv := []\<rparr>"

definition resetClient :: "client \<Rightarrow> client" where
  "resetClient c = (freeClientArgv c)\<lparr>reqtype := 0, multibulklen := 0, bulklen := - 1\<rparr>"

definition setProtocolError :: "proto_error \<Rightarrow> client \<Rightarrow> int \<Rightarrow> client option" where
  \<comment> \<open>with the error reply that every caller adds first; the log line is left out\<close>
  "setProtocolError e c pos = do {
     q \<leftarrow> sdsrange (querybuf c) pos (- 1);
     Some (c\<lparr>errors := errors c @ [e], close_after_reply := True, querybuf := q\<rparr>) }"

definition argv_push :: "client \<Rightarrow> sds \<Rightarrow> client option" where
  \<comment> \<open>\<open>c->argv[c->argc++] = o\<close> with the bound of the array\<close>
  "argv_push c o1 = (if length (argv c) < argv_cap c then Some (c\<lparr>argv := argv c @ [o1]\<rparr>) else None)"

subsection \<open>Inline requests\<close>

fun inline_args :: "sds list \<Rightarrow> client \<Rightarrow> client option" where
  \<comment> \<open>\<open>for (c->argc = 0, j = 0; j < argc; j++)\<close>: empty arguments are dropped\<close>
  "inline_args [] c = Some c"
| "inline_args (a # as) c =
     (if sdslen a \<noteq> 0 then do { c \<leftarrow> argv_push c a; inline_args as c } else inline_args as c)"

definition processInlineBuffer :: "(nat \<Rightarrow> byte) \<Rightarrow> client \<Rightarrow> (client \<times> bool) option" where
  "processInlineBuffer junk c = do {
     nl \<leftarrow> strchr_from (buf (querybuf c)) 10;
     case nl of
       None \<Rightarrow>
         (if sdslen (querybuf c) > PROTO_INLINE_MAX_SIZE
          then do { c \<leftarrow> setProtocolError TooBigInline c 0; Some (c, False) }
          else Some (c, False))
     | Some newline \<Rightarrow> do {
         newline \<leftarrow> (if newline \<noteq> 0 then do {
                         p \<leftarrow> rd (buf (querybuf c)) (int newline - 1);
                         Some (if p = 13 then newline - 1 else newline) }
                       else Some newline);
         let querylen = newline;
         aux \<leftarrow> sdsnewlen junk (Some (buf (querybuf c))) querylen;
         as \<leftarrow> sdssplitargs junk (buf aux);
         case as of
           None \<Rightarrow> do { c \<leftarrow> setProtocolError UnbalancedQuotes c 0; Some (c, False) }
         | Some as \<Rightarrow> do {
             q \<leftarrow> sdsrange (querybuf c) (int querylen + 2) (- 1);
             let c = c\<lparr>querybuf := q\<rparr>;
             let c = (if as \<noteq> [] then c\<lparr>argv_cap := length as\<rparr> else c);
             c \<leftarrow> inline_args as (c\<lparr>argv := []\<rparr>);
             Some (c, True) } } }"

subsection \<open>RESP requests\<close>

datatype mb_res =
    MbErr (mb_client: client)
  | MbBreak (mb_client: client) (mb_pos: int)
  | MbNext (mb_client: client) (mb_pos: int)

definition mb_bulklen :: "server_conf \<Rightarrow> (nat \<Rightarrow> byte) \<Rightarrow> client \<Rightarrow> int \<Rightarrow> mb_res option" where
  \<comment> \<open>the part of the loop body that reads the length of the next argument\<close>
  "mb_bulklen sv junk c pos =
     (if bulklen c \<noteq> - 1 then Some (MbNext c pos)
      else do {
        nl \<leftarrow> strchr_from (drop (nat pos) (buf (querybuf c))) 13;
        case nl of
          None \<Rightarrow>
            (if sdslen (querybuf c) > PROTO_INLINE_MAX_SIZE
             then do { c \<leftarrow> setProtocolError TooBigBulkCount c 0; Some (MbErr c) }
             else Some (MbBreak c pos))
        | Some k \<Rightarrow> do {
            let newline = pos + int k;
            if newline > signed_cast (sdslen (querybuf c)) - 2 then Some (MbBreak c pos)
            else do {
              d \<leftarrow> rd (buf (querybuf c)) pos;
              if d \<noteq> 36 then do { c \<leftarrow> setProtocolError (ExpectedDollar d) c pos; Some (MbErr c) }
              else do {
                s \<leftarrow> mem_read (buf (querybuf c)) (pos + 1) (nat (newline - (pos + 1)));
                let ok = string2ll s;
                case ok of
                  None \<Rightarrow> do { c \<leftarrow> setProtocolError InvalidBulkLength c pos; Some (MbErr c) }
                | Some ll \<Rightarrow>
                    if ll < 0 \<or> ll > proto_max_bulk_len sv
                    then do { c \<leftarrow> setProtocolError InvalidBulkLength c pos; Some (MbErr c) }
                    else do {
                      let pos = pos + (newline - pos) + 2;
                      (c, pos) \<leftarrow>
                        (if ll \<ge> PROTO_MBULK_BIG_ARG then do {
                           q \<leftarrow> sdsrange (querybuf c) pos (- 1);
                           let qblen = sdslen q;
                           q \<leftarrow> (if int qblen < ll + 2 then sdsMakeRoomFor junk q (nat (ll + 2 - int qblen))
                                else Some q);
                           Some (c\<lparr>querybuf := q\<rparr>, 0) }
                         else Some (c, pos));
                      Some (MbNext (c\<lparr>bulklen := ll\<rparr>) pos) } } } } })"

definition mb_arg :: "(nat \<Rightarrow> byte) \<Rightarrow> client \<Rightarrow> int \<Rightarrow> mb_res option" where
  \<comment> \<open>the part of the loop body that reads the argument itself\<close>
  "mb_arg junk c pos =
     (if ssize_to_size (int (sdslen (querybuf c)) - pos) < ssize_to_size (bulklen c + 2)
      then Some (MbBreak c pos)
      else do {
        (c, pos) \<leftarrow>
          (if pos = 0 \<and> bulklen c \<ge> PROTO_MBULK_BIG_ARG \<and>
              sdslen (querybuf c) = ssize_to_size (bulklen c + 2)
           then do {
             o1 \<leftarrow> sdsIncrLen (querybuf c) (- 2);
             c \<leftarrow> argv_push c o1;
             q \<leftarrow> sdsnewlen junk None (nat (bulklen c + 2));
             q \<leftarrow> sdsclear q;
             Some (c\<lparr>querybuf := q\<rparr>, 0) }
           else do {
             o1 \<leftarrow> createStringObject junk (drop (nat pos) (buf (querybuf c))) (nat (bulklen c));
             c \<leftarrow> argv_push c o1;
             Some (c, pos + bulklen c + 2) });
        Some (MbNext (c\<lparr>bulklen := - 1, multibulklen := multibulklen c - 1\<rparr>) pos) })"

definition mb_step :: "server_conf \<Rightarrow> (nat \<Rightarrow> byte) \<Rightarrow> client \<Rightarrow> int \<Rightarrow> mb_res option" where
  "mb_step sv junk c pos = do {
     r \<leftarrow> mb_bulklen sv junk c pos;
     case r of MbNext c pos \<Rightarrow> mb_arg junk c pos | _ \<Rightarrow> Some r }"

partial_function (option) mb_loop :: "server_conf \<Rightarrow> (nat \<Rightarrow> byte) \<Rightarrow> client \<Rightarrow> int \<Rightarrow> mb_res option" where
  \<comment> \<open>\<open>while (c->multibulklen)\<close>\<close>
  "mb_loop sv junk c pos =
     (if multibulklen c = 0 then Some (MbBreak c pos)
      else do {
        r \<leftarrow> mb_step sv junk c pos;
        if is_MbNext r then mb_loop sv junk (mb_client r) (mb_pos r) else Some r })"

definition mb_header :: "client \<Rightarrow> (client \<times> int \<times> bool option) option" where
  \<comment> \<open>the argument count, when it is not known yet: the client, \<open>pos\<close>, and the value to return
     at once\<close>
  "mb_header c =
     (if multibulklen c \<noteq> 0 then Some (c, 0, None)
      else if argv c \<noteq> [] then None
      else do {
        nl \<leftarrow> strchr_from (buf (querybuf c)) 13;
        case nl of
          None \<Rightarrow>
            (if sdslen (querybuf c) > PROTO_INLINE_MAX_SIZE
             then do { c \<leftarrow> setProtocolError TooBigMbulkCount c 0; Some (c, 0, Some False) }
             else Some (c, 0, Some False))
        | Some newline \<Rightarrow>
            if int newline > signed_cast (sdslen (querybuf c)) - 2 then Some (c, 0, Some False)
            else do {
              star \<leftarrow> rd (buf (querybuf c)) 0;
              if star \<noteq> 42 then None
              else do {
                s \<leftarrow> mem_read (buf (querybuf c)) 1 (newline - 1);
                case string2ll s of
                  None \<Rightarrow> do { c \<leftarrow> setProtocolError InvalidMultibulkLength c 0; Some (c, 0, Some False) }
                | Some ll \<Rightarrow>
                    if ll > 1024 * 1024
                    then do { c \<leftarrow> setProtocolError InvalidMultibulkLength c 0; Some (c, 0, Some False) }
                    else do {
                      let pos = int newline + 2;
                      if ll \<le> 0 then do {
                        q \<leftarrow> sdsrange (querybuf c) pos (- 1);
                        Some (c\<lparr>querybuf := q\<rparr>, pos, Some True) }
                      else Some (c\<lparr>multibulklen := ll, argv_cap := nat ll\<rparr>, pos, None) } } } })"

definition processMultibulkBuffer :: "server_conf \<Rightarrow> (nat \<Rightarrow> byte) \<Rightarrow> client \<Rightarrow> (client \<times> bool) option" where
  "processMultibulkBuffer sv junk c = do {
     (c, pos, ret) \<leftarrow> mb_header c;
     case ret of
       Some ok \<Rightarrow> Some (c, ok)
     | None \<Rightarrow>
         if multibulklen c \<le> 0 then None
         else do {
           r \<leftarrow> mb_loop sv junk c pos;
           case r of
             MbErr c \<Rightarrow> Some (c, False)
           | MbNext c pos \<Rightarrow> None
           | MbBreak c pos \<Rightarrow> do {
               c \<leftarrow> (if pos \<noteq> 0 then do { q \<leftarrow> sdsrange (querybuf c) pos (- 1); Some (c\<lparr>querybuf := q\<rparr>) }
                    else Some c);
               Some (c, multibulklen c = 0) } } }"

definition exec_command :: "server_conf \<Rightarrow> client \<Rightarrow> client" where
  \<comment> \<open>\<open>processCommand\<close> as the parser sees it: the argument vector is handed over, and the client may
     be blocked afterwards\<close>
  "exec_command sv c =
     (let as = map sds_val (argv c) in
      c\<lparr>executed := executed c @ [as], blocked := blocked c \<or> blocks sv as\<rparr>)"

partial_function (option) processInputBuffer :: "server_conf \<Rightarrow> (nat \<Rightarrow> byte) \<Rightarrow> client \<Rightarrow> client option" where
  "processInputBuffer sv junk c =
     (if sdslen (querybuf c) = 0 then Some c
      else if blocked c then Some c
      else if close_after_reply c then Some c
      else do {
        c0 \<leftarrow> rd (buf (querybuf c)) 0;
        let c = (if reqtype c = 0
                 then c\<lparr>reqtype := (if c0 = 42 then PROTO_REQ_MULTIBULK else PROTO_REQ_INLINE)\<rparr> else c);
        (c, ok) \<leftarrow>
          (if reqtype c = PROTO_REQ_INLINE then processInlineBuffer junk c
           else if reqtype c = PROTO_REQ_MULTIBULK then processMultibulkBuffer sv junk c
           else None);
        if \<not> ok then Some c
        else if argv c = [] then processInputBuffer sv junk (resetClient c)
        else processInputBuffer sv junk (resetClient (exec_command sv c)) })"

subsection \<open>Reading from the socket\<close>

definition read_len :: "client \<Rightarrow> int" where
  "read_len c =
     (if reqtype c = PROTO_REQ_MULTIBULK \<and> multibulklen c \<noteq> 0 \<and> bulklen c \<noteq> - 1 \<and>
         bulklen c \<ge> PROTO_MBULK_BIG_ARG
      then let remaining = to_ssize (bulklen c + 2 - int (sdslen (querybuf c))) in
        if remaining < PROTO_IOBUF_LEN then remaining else PROTO_IOBUF_LEN
      else PROTO_IOBUF_LEN)"

datatype read_result = ReadAgain | ReadError | ReadEof | ReadData "byte list"

definition readQueryFromClient :: "server_conf \<Rightarrow> (nat \<Rightarrow> byte) \<Rightarrow> client \<Rightarrow> read_result \<Rightarrow> client option option" where
  \<comment> \<open>\<open>Some None\<close>: the client was freed\<close>
  "readQueryFromClient sv junk c r = do {
     let qblen = sdslen (querybuf c);
     q \<leftarrow> sdsMakeRoomFor junk (querybuf c) (ssize_to_size (read_len c));
     let c = c\<lparr>querybuf := q\<rparr>;
     case r of
       ReadAgain \<Rightarrow> Some (Some c)
     | ReadError \<Rightarrow> Some None
     | ReadEof \<Rightarrow> Some None
     | ReadData x \<Rightarrow> do {
         b \<leftarrow> mem_write (buf q) (int qblen) x;
         q \<leftarrow> sdsIncrLen (q\<lparr>buf := b\<rparr>) (int (length x));
         let c = c\<lparr>querybuf := q\<rparr>;
         if sdslen q > client_max_querybuf_len sv then Some None
         else map_option Some (processInputBuffer sv junk c) } }"

subsection \<open>The encoder\<close>

definition count_line :: "(nat \<Rightarrow> byte) \<Rightarrow> byte \<Rightarrow> nat \<Rightarrow> (byte list \<times> nat) option" where
  \<comment> \<open>\<open>buf[0] = p; len = 1+ll2string(buf+1,sizeof(buf)-1,n); buf[len++] = '\r'; buf[len++] = '\n'\<close>
     for \<open>char buf[32]\<close>\<close>
  "count_line junk p n = do {
     let b = map junk [0..<32];
     b \<leftarrow> mem_write b 0 [p];
     (t, l) \<leftarrow> ll2string (drop 1 b) 31 (int n);
     let b = take 1 b @ t;
     let len = 1 + l;
     b \<leftarrow> mem_write b (int len) [13];
     b \<leftarrow> mem_write b (int len + 1) [10];
     Some (b, len + 2) }"

fun cat_args :: "(nat \<Rightarrow> byte) \<Rightarrow> sds \<Rightarrow> sds list \<Rightarrow> sds option" where
  "cat_args junk dst [] = Some dst"
| "cat_args junk dst (a # as) = do {
     (b, len) \<leftarrow> count_line junk 36 (sdslen a);
     dst \<leftarrow> sdscatlen junk dst b len;
     dst \<leftarrow> sdscatlen junk dst (buf a) (sdslen a);
     dst \<leftarrow> sdscatlen junk dst [13, 10, 0] 2;
     cat_args junk dst as }"

definition catAppendOnlyGenericCommand :: "(nat \<Rightarrow> byte) \<Rightarrow> sds \<Rightarrow> sds list \<Rightarrow> sds option" where
  "catAppendOnlyGenericCommand junk dst as = do {
     (b, len) \<leftarrow> count_line junk 42 (length as);
     dst \<leftarrow> sdscatlen junk dst b len;
     cat_args junk dst as }"

subsection \<open>Lines and numbers in the buffer\<close>

lemma strchr_hit: "c \<notin> set h \<Longrightarrow> 0 \<notin> set h \<Longrightarrow> strchr_from (h @ c # t) c = Some (Some (length h))"
  by (induction h) auto

lemma strchr_miss: "c \<notin> set h \<Longrightarrow> 0 \<notin> set h \<Longrightarrow> c \<noteq> 0 \<Longrightarrow> strchr_from (h @ 0 # t) c = Some None"
  by (induction h) auto

lemma string2ll_dec_nat: "int n \<le> LLONG_MAX \<Longrightarrow> string2ll (dec_nat n) = Some (int n)"
  by (simp add: string2ll_ok dec_def LLONG_MIN_def)

definition enc_arg :: "byte list \<Rightarrow> byte list" where
  "enc_arg a = 36 # dec_nat (length a) @ [13, 10] @ a @ [13, 10]"

definition enc_cmd :: "byte list list \<Rightarrow> byte list" where
  "enc_cmd as = 42 # dec_nat (length as) @ [13, 10] @ concat (map enc_arg as)"

lemma sdsrange_drop:
  assumes rep: "sds_rep s v" and p: "p \<le> length v" and small: "length v < 2 ^ 61"
  shows "\<exists>s'. sdsrange s (int p) (- 1) = Some s' \<and> sds_rep s' (drop p v)"
proof -
  have "range_val (int p) (- 1) v = drop p v"
    using p by (cases v) (auto simp: range_val_def Let_def max_def)
  then show ?thesis using sdsrange_ok [OF rep, of "int p" "- 1"] p small by simp
qed

lemma sds_rep_buf_drop: "sds_rep s v \<Longrightarrow> p \<le> length v \<Longrightarrow> \<exists>z. drop p (buf s) = drop p v @ 0 # z"
  by (auto simp: sds_rep_def)

lemma sds_rep_rd: "sds_rep s v \<Longrightarrow> p < length v \<Longrightarrow> rd (buf s) (int p) = Some (v ! p)"
  by (auto simp: sds_rep_def rd_def nth_append)

lemma sds_rep_read:
  assumes "sds_rep s v" and "p + n \<le> length v"
  shows "mem_read (buf s) (int p) n = Some (take n (drop p v))"
  using assms by (auto simp: sds_rep_def mem_read_def)

lemma signed_cast_small: "n < 2 ^ 31 \<Longrightarrow> signed_cast n = int n"
  by (simp add: signed_cast_def)

lemma createStringObject_ok:
  assumes "n \<le> length p" and "n \<le> 2 ^ 61"
  shows "\<exists>s. createStringObject junk p n = Some s \<and> sds_rep s (take n p)"
proof (cases "n \<le> OBJ_ENCODING_EMBSTR_SIZE_LIMIT")
  case True
  then have "n < 256" by (simp add: OBJ_ENCODING_EMBSTR_SIZE_LIMIT_def)
  then show ?thesis using assms True
    by (auto simp: createStringObject_def createEmbeddedStringObject_def mem_read_def sds_rep_def
        sdslen_def sdsalloc_def unat_of_nat)
next
  case False
  then show ?thesis using assms sdsnewlen_ok [of n p junk] by (simp add: createStringObject_def)
qed

text \<open>A header line \<open>p n \r \n\<close> at position \<open>pos\<close> of the buffer, of which \<open>u\<close> has been received.\<close>

definition header :: "byte \<Rightarrow> nat \<Rightarrow> byte list" where
  "header p n = p # dec_nat n"

lemma header_clean: "p \<noteq> 13 \<Longrightarrow> p \<noteq> 0 \<Longrightarrow> 13 \<notin> set (header p n) \<and> 0 \<notin> set (header p n)"
  using dec_nat_clean by (auto simp: header_def)

lemma header_split:
  assumes u: "u @ F = header p n @ [13, 10] @ T"
  obtains (short) G where "header p n = u @ G" "F = G @ [13, 10] @ T"
    | (cr) "u = header p n @ [13]" "F = 10 # T"
    | (full) u' where "u = header p n @ [13, 10] @ u'" "T = u' @ F"
proof -
  obtain w where "(u = header p n @ w \<and> w @ F = [13, 10] @ T) \<or> (u @ w = header p n \<and> F = w @ [13, 10] @ T)"
    using append_eq_append_conv2 [THEN iffD1, OF u] by blast
  then consider (a) G where "header p n = u @ G" "F = G @ [13, 10] @ T"
    | (b) w where "u = header p n @ w" "[13, 10] @ T = w @ F"
    by metis
  then show thesis
  proof cases
    case a
    then show thesis by (rule short)
  next
    case b
    show thesis
    proof (cases w)
      case Nil
      then show thesis using b short [of "[]"] by simp
    next
      case (Cons x w')
      then have x: "x = 13" "10 # T = w' @ F" using b(2) by auto
      show thesis
      proof (cases w')
        case Nil
        then show thesis using cr b Cons x by simp
      next
        case (Cons y u')
        then show thesis using full [of u'] b \<open>w = x # w'\<close> x by auto
      qed
    qed
  qed
qed

subsection \<open>One argument\<close>

definition limits :: "server_conf \<Rightarrow> bool" where
  \<comment> \<open>bounds that every sensible configuration satisfies; the default is 512 MB and 1 GB\<close>
  "limits sv \<longleftrightarrow> PROTO_MBULK_BIG_ARG \<le> proto_max_bulk_len sv \<and> proto_max_bulk_len sv < 2 ^ 30 \<and>
     proto_max_bulk_len sv + 2 \<le> int (client_max_querybuf_len sv) \<and>
     PROTO_INLINE_MAX_SIZE \<le> client_max_querybuf_len sv"

definition arg_ok :: "server_conf \<Rightarrow> byte list \<Rightarrow> bool" where
  "arg_ok sv a \<longleftrightarrow> int (length a) \<le> proto_max_bulk_len sv"

abbreviation rest_of :: "byte list \<Rightarrow> int \<Rightarrow> byte list" where
  "rest_of v pos \<equiv> drop (nat pos) v"

lemma mb_bulklen_wait:
  assumes rep: "sds_rep (querybuf c) v" and b: "bulklen c = - 1" and pos: "0 \<le> pos" "nat pos \<le> length v"
    and len: "length v \<le> PROTO_INLINE_MAX_SIZE"
    and u: "rest_of v pos @ F = enc_arg a @ T" and short: "length (rest_of v pos) < length (header 36 (length a)) + 2"
  shows "mb_bulklen sv junk c pos = Some (MbBreak c pos)"
proof -
  obtain z where z: "drop (nat pos) (buf (querybuf c)) = rest_of v pos @ 0 # z"
    using sds_rep_buf_drop [OF rep pos(2)] by blast
  have sl: "sdslen (querybuf c) = length v" using rep by (simp add: sds_rep_def)
  have cl: "13 \<notin> set (header 36 (length a))" "0 \<notin> set (header 36 (length a))" using header_clean by auto
  have "rest_of v pos @ F = header 36 (length a) @ [13, 10] @ (a @ [13, 10] @ T)"
    using u by (simp add: enc_arg_def header_def)
  then show ?thesis
  proof (cases rule: header_split)
    case (short G)
    then have "13 \<notin> set (rest_of v pos)" "0 \<notin> set (rest_of v pos)" using cl by auto
    then show ?thesis using b z sl len by (simp add: mb_bulklen_def strchr_miss)
  next
    case cr
    have "strchr_from (drop (nat pos) (buf (querybuf c))) 13 = Some (Some (length (header 36 (length a))))"
      using strchr_hit [OF cl, of "0 # z"] by (simp add: z cr)
    moreover have "length v = nat pos + length (header 36 (length a)) + 1"
      using arg_cong [OF cr(1), of length] pos by simp
    moreover have "signed_cast (length v) = int (length v)"
      using len by (intro signed_cast_small) (simp add: PROTO_INLINE_MAX_SIZE_def)
    ultimately show ?thesis using b sl pos by (simp add: mb_bulklen_def Let_def)
  next
    case (full u')
    then show ?thesis using short by simp
  qed
qed

lemma mb_bulklen_read:
  assumes rep: "sds_rep (querybuf c) v" and b: "bulklen c = - 1" and pos: "0 \<le> pos" "nat pos \<le> length v"
    and len: "length v < 2 ^ 31" and sv: "limits sv" "arg_ok sv a"
    and u: "rest_of v pos = header 36 (length a) @ [13, 10] @ u'"
  shows "\<exists>q pos'. mb_bulklen sv junk c pos = Some (MbNext (c\<lparr>querybuf := q, bulklen := int (length a)\<rparr>) pos') \<and>
    0 \<le> pos' \<and> (\<exists>v'. sds_rep q v' \<and> nat pos' \<le> length v' \<and> rest_of v' pos' = u' \<and> length v' \<le> length v \<and>
      (int (length a) < PROTO_MBULK_BIG_ARG \<longrightarrow> v' = v))"
proof -
  let ?h = "header 36 (length a)"
  obtain z where z: "drop (nat pos) (buf (querybuf c)) = rest_of v pos @ 0 # z"
    using sds_rep_buf_drop [OF rep pos(2)] by blast
  have sl: "sdslen (querybuf c) = length v" using rep by (simp add: sds_rep_def)
  have cl: "13 \<notin> set ?h" "0 \<notin> set ?h" using header_clean by auto
  have nl: "strchr_from (drop (nat pos) (buf (querybuf c))) 13 = Some (Some (length ?h))"
    using strchr_hit [OF cl] by (simp add: z u)
  have lv: "length v = nat pos + length ?h + 2 + length u'"
    using arg_cong [OF u, of length] pos by simp
  have sc: "signed_cast (length v) = int (length v)"
    using len by (rule signed_cast_small)
  have vp: "v ! nat pos = 36"
    using arg_cong [OF u, of hd] lv by (simp add: hd_drop_conv_nth header_def)
  have rd: "rd (buf (querybuf c)) pos = Some 36"
    using sds_rep_rd [OF rep, of "nat pos"] lv pos vp by simp
  have "mem_read (buf (querybuf c)) (int (nat pos + 1)) (length (dec_nat (length a))) =
      Some (take (length (dec_nat (length a))) (drop (nat pos + 1) v))"
    using lv by (intro sds_rep_read [OF rep]) (simp add: header_def)
  moreover have "drop (nat pos + 1) v = dec_nat (length a) @ [13, 10] @ u'"
    using arg_cong [OF u, of tl] by (simp add: header_def tl_drop drop_Suc)
  ultimately have rdn: "mem_read (buf (querybuf c)) (pos + 1) (nat (pos + int (length ?h) - (pos + 1))) = Some (dec_nat (length a))"
    using pos by (simp add: header_def add.commute)
  have ll: "string2ll (dec_nat (length a)) = Some (int (length a))"
    using sv by (intro string2ll_dec_nat) (simp add: limits_def arg_ok_def LLONG_MAX_def)
  let ?p = "pos + int (length ?h) + 2"
  have p: "nat ?p \<le> length v" "rest_of v ?p = u'"
  proof -
    have "nat ?p = nat pos + (length ?h + 2)" using pos by simp
    then show "nat ?p \<le> length v" using lv by simp
    have "rest_of v ?p = drop (length ?h + 2) (rest_of v pos)"
      using \<open>nat ?p = nat pos + (length ?h + 2)\<close> by (simp add: add.commute)
    then show "rest_of v ?p = u'" by (simp add: u)
  qed
  have small: "length v < 2 ^ 61" using len by simp
  obtain q pos' v' where q: "(if int (length a) \<ge> PROTO_MBULK_BIG_ARG then do {
       q \<leftarrow> sdsrange (querybuf c) ?p (- 1);
       let qblen = sdslen q;
       q \<leftarrow> (if int qblen < int (length a) + 2 then sdsMakeRoomFor junk q (nat (int (length a) + 2 - int qblen)) else Some q);
       Some (c\<lparr>querybuf := q\<rparr>, 0) } else Some (c, ?p)) = Some (c\<lparr>querybuf := q\<rparr>, pos')"
     "0 \<le> pos'" "sds_rep q v'" "nat pos' \<le> length v'" "rest_of v' pos' = u'" "length v' \<le> length v"
     "int (length a) < PROTO_MBULK_BIG_ARG \<longrightarrow> v' = v"
  proof (cases "int (length a) \<ge> PROTO_MBULK_BIG_ARG")
    case False
    then show thesis using that [of "querybuf c" ?p v] p pos rep by simp
  next
    case True
    have "int (nat ?p) = ?p" using pos by simp
    then obtain q1 where q1: "sdsrange (querybuf c) ?p (- 1) = Some q1" "sds_rep q1 u'"
      using sdsrange_drop [OF rep p(1) small] p(2) by auto
    have sl1: "sdslen q1 = length u'" using q1(2) by (simp add: sds_rep_def)
    obtain q2 where q2: "(if int (length u') < int (length a) + 2 then sdsMakeRoomFor junk q1 (nat (int (length a) + 2 - int (length u'))) else Some q1) = Some q2"
      "sds_rep q2 u'"
    proof (cases "int (length u') < int (length a) + 2")
      case lt: True
      have "length u' + nat (int (length a) + 2 - int (length u')) = length a + 2" using lt by linarith
      moreover have "length a + 2 \<le> 2 ^ 61" using sv by (simp add: limits_def arg_ok_def)
      ultimately have "length u' + nat (int (length a) + 2 - int (length u')) \<le> 2 ^ 61" by simp
      from sdsMakeRoomFor_ok [OF q1(2) this, of junk] show thesis using that lt by auto
    next
      case False
      then show thesis using that q1(2) by simp
    qed
    show thesis
    proof (rule that [of q2 0 u'])
      show "(if int (length a) \<ge> PROTO_MBULK_BIG_ARG then do {
       q \<leftarrow> sdsrange (querybuf c) ?p (- 1);
       let qblen = sdslen q;
       q \<leftarrow> (if int qblen < int (length a) + 2 then sdsMakeRoomFor junk q (nat (int (length a) + 2 - int qblen)) else Some q);
       Some (c\<lparr>querybuf := q\<rparr>, 0) } else Some (c, ?p)) = Some (c\<lparr>querybuf := q2\<rparr>, 0)"
        using True q2(1) by (simp only: q1(1) Let_def sl1 if_True Option.bind.simps)
    qed (use q2 lv True in auto)
  qed
  have "mb_bulklen sv junk c pos = do {
      (c, pos) \<leftarrow> Some (c\<lparr>querybuf := q\<rparr>, pos'); Some (MbNext (c\<lparr>bulklen := int (length a)\<rparr>) pos) }"
  proof -
    have e: "\<not> (bulklen c \<noteq> - 1)" "\<not> (pos + int (length ?h) > int (length v) - 2)" "\<not> (int (length a) < 0 \<or> int (length a) > proto_max_bulk_len sv)"
      "pos + (pos + int (length ?h) - pos) + 2 = ?p" "\<not> (36 \<noteq> (36 :: byte))"
      using b lv pos sv by (auto simp: arg_ok_def)
    show ?thesis unfolding mb_bulklen_def
      by (simp only: e if_False nl Option.bind.simps option.case sl sc rd rdn Let_def ll q(1) [unfolded Let_def])
  qed
  then have "mb_bulklen sv junk c pos = Some (MbNext (c\<lparr>querybuf := q, bulklen := int (length a)\<rparr>) pos')" by simp
  then show ?thesis using q(2-7) by blast
qed

lemma mb_arg_wait:
  assumes rep: "sds_rep (querybuf c) v" and b: "bulklen c = int (length a)" and pos: "0 \<le> pos" "nat pos \<le> length v"
    and small: "length v < 2 ^ 61" "length a < 2 ^ 61" and short: "length (rest_of v pos) < length a + 2"
  shows "mb_arg junk c pos = Some (MbBreak c pos)"
proof -
  have "sdslen (querybuf c) = length v" using rep by (simp add: sds_rep_def)
  moreover have "ssize_to_size (int (length v) - pos) = length v - nat pos"
    using pos small by (subst ssize_to_size_small) auto
  moreover have "ssize_to_size (int (length a) + 2) = length a + 2"
    using small by (subst ssize_to_size_small) auto
  ultimately show ?thesis using b short by (simp add: mb_arg_def)
qed

lemma mb_arg_read:
  assumes rep: "sds_rep (querybuf c) v" and b: "bulklen c = int (length a)" and pos: "0 \<le> pos" "nat pos \<le> length v"
    and small: "length v < 2 ^ 60" and u: "rest_of v pos = a @ [13, 10] @ u'" and cap: "length (argv c) < argv_cap c"
  shows "\<exists>q o1 pos' v'. mb_arg junk c pos = Some (MbNext (c\<lparr>querybuf := q, argv := argv c @ [o1], bulklen := - 1,
      multibulklen := multibulklen c - 1\<rparr>) pos') \<and> sds_rep o1 a \<and> sds_rep q v' \<and> 0 \<le> pos' \<and> nat pos' \<le> length v' \<and>
      rest_of v' pos' = u' \<and> length v' \<le> length v \<and>
      (pos = 0 \<and> int (length a) \<ge> PROTO_MBULK_BIG_ARG \<and> length v = length a + 2 \<longrightarrow> v' = []) \<and>
      (int (length a) < PROTO_MBULK_BIG_ARG \<longrightarrow> v' = v)"
proof -
  have lv: "length v = nat pos + length a + 2 + length u'" using arg_cong [OF u, of length] pos by simp
  have sl: "sdslen (querybuf c) = length v" using rep by (simp add: sds_rep_def)
  have s1: "ssize_to_size (int (length v) - pos) = length v - nat pos"
    using pos small by (subst ssize_to_size_small) auto
  have s2: "ssize_to_size (int (length a) + 2) = length a + 2"
    using small lv by (subst ssize_to_size_small) auto
  have s3: "ssize_to_size (2 + int (length a)) = length a + 2" using s2 by (simp add: add.commute)
  have nlt: "\<not> length v - nat pos < length a + 2" using lv by simp
  show ?thesis
  proof (cases "pos = 0 \<and> int (length a) \<ge> PROTO_MBULK_BIG_ARG \<and> length v = length a + 2")
    case True
    then have v: "v = a @ [13, 10]" "u' = []" using u lv by auto
    obtain o1 where o1: "sdsIncrLen (querybuf c) (- 2) = Some o1" "sds_rep o1 a"
      using sdsIncrLen_shrink_ok [of "querybuf c" a "[13, 10]"] rep v by auto
    obtain q0 where q0: "sdsnewlen junk None (length a + 2) = Some q0" "sds_rep q0 (replicate (length a + 2) 0)"
      using sdsnewlen_null_ok [of "length a + 2" junk] small lv by auto
    obtain q where q: "sdsclear q0 = Some q" "sds_rep q []" using sdsclear_ok [OF q0(2)] by blast
    have n: "nat (int (length a) + 2) = length a + 2" by simp
    have "mb_arg junk c pos = Some (MbNext (c\<lparr>querybuf := q, argv := argv c @ [o1], bulklen := - 1,
      multibulklen := multibulklen c - 1\<rparr>) 0)"
      using True b cap o1(1) q0(1) q(1) by (simp add: mb_arg_def sl s1 s2 s3 nlt argv_push_def n)
    then show ?thesis using o1(2) q(2) v
      by (intro exI [of _ q] exI [of _ o1] exI [of _ 0] exI [of _ "[]"]) (use True in simp)
  next
    case False
    obtain z where z: "drop (nat pos) (buf (querybuf c)) = rest_of v pos @ 0 # z"
      using sds_rep_buf_drop [OF rep pos(2)] by blast
    obtain o1 where o1: "createStringObject junk (drop (nat pos) (buf (querybuf c))) (length a) = Some o1" "sds_rep o1 a"
      using createStringObject_ok [of "length a" "drop (nat pos) (buf (querybuf c))" junk] small lv by (auto simp: z u)
    have "mb_arg junk c pos = Some (MbNext (c\<lparr>querybuf := querybuf c, argv := argv c @ [o1], bulklen := - 1,
      multibulklen := multibulklen c - 1\<rparr>) (pos + int (length a) + 2))"
      using False b cap o1(1) nlt by (auto simp: mb_arg_def sl s1 s2 argv_push_def)
    moreover have "nat (pos + int (length a) + 2) = nat pos + (length a + 2)" using pos by simp
    moreover have "drop (nat pos + (length a + 2)) v = u'"
      using arg_cong [OF u, of "drop (length a + 2)"] by (simp add: add.commute)
    ultimately show ?thesis using o1(2) rep lv pos False
      by (intro exI [of _ "querybuf c"] exI [of _ o1] exI [of _ "pos + int (length a) + 2"] exI [of _ v]) auto
  qed
qed

subsection \<open>The loop over the arguments\<close>

definition pend :: "int \<Rightarrow> byte list list \<Rightarrow> byte list" where
  \<comment> \<open>what is still to be received of the current command\<close>
  "pend b todo = (if b = - 1 then concat (map enc_arg todo)
     else hd todo @ [13, 10] @ concat (map enc_arg (tl todo)))"

definition mb_inv :: "server_conf \<Rightarrow> client \<Rightarrow> byte list \<Rightarrow> int \<Rightarrow> byte list list \<Rightarrow> byte list list \<Rightarrow> byte list \<Rightarrow> byte list \<Rightarrow> bool" where
  "mb_inv sv c v pos ds todo F T \<longleftrightarrow>
     sds_rep (querybuf c) v \<and> 0 \<le> pos \<and> nat pos \<le> length v \<and> list_all2 sds_rep (argv c) ds \<and>
     multibulklen c = int (length todo) \<and> argv_cap c = length ds + length todo \<and> list_all (arg_ok sv) todo \<and>
     rest_of v pos @ F = pend (bulklen c) todo @ T \<and>
     (if bulklen c = - 1 then length v \<le> PROTO_INLINE_MAX_SIZE
      else todo \<noteq> [] \<and> bulklen c = int (length (hd todo)) \<and>
        (length v \<le> PROTO_INLINE_MAX_SIZE \<or>
         (pos = 0 \<and> bulklen c \<ge> PROTO_MBULK_BIG_ARG \<and> length v \<le> length (hd todo) + 2)))"

definition stuck :: "int \<Rightarrow> byte list list \<Rightarrow> byte list \<Rightarrow> bool" where
  "stuck b todo u \<longleftrightarrow> (if todo = [] then b = - 1
     else if b = - 1 then length u < length (header 36 (length (hd todo))) + 2
     else length u < length (hd todo) + 2)"

definition frame :: "client \<Rightarrow> client \<Rightarrow> bool" where
  "frame c c' \<longleftrightarrow> reqtype c' = reqtype c \<and> close_after_reply c' = close_after_reply c \<and> blocked c' = blocked c \<and>
     errors c' = errors c \<and> executed c' = executed c"

lemma frame_trans: "frame a b \<Longrightarrow> frame b c \<Longrightarrow> frame a c"
  by (simp add: frame_def)

lemma arg_ok_small: "limits sv \<Longrightarrow> arg_ok sv a \<Longrightarrow> length a < 2 ^ 30"
  by (simp add: limits_def arg_ok_def)

lemma mb_inv_small: "limits sv \<Longrightarrow> mb_inv sv c v pos ds todo F T \<Longrightarrow> length v < 2 ^ 60"
  by (cases todo) (auto simp: mb_inv_def PROTO_INLINE_MAX_SIZE_def dest!: arg_ok_small split: if_splits)

lemma mb_bulklen_ok:
  assumes sv: "limits sv" and inv: "mb_inv sv c v pos ds (a # todo) F T"
  shows "(stuck (bulklen c) (a # todo) (rest_of v pos) \<and> bulklen c = - 1 \<and> mb_bulklen sv junk c pos = Some (MbBreak c pos)) \<or>
    (\<exists>c' v' pos'. mb_bulklen sv junk c pos = Some (MbNext c' pos') \<and> frame c c' \<and> bulklen c' = int (length a) \<and>
       mb_inv sv c' v' pos' ds (a # todo) F T)"
proof (cases "bulklen c = - 1")
  case False
  then show ?thesis using inv by (intro disjI2 exI [of _ c] exI [of _ v] exI [of _ pos])
      (auto simp: mb_bulklen_def frame_def mb_inv_def)
next
  case True
  let ?T = "concat (map enc_arg todo) @ T"
  have i: "sds_rep (querybuf c) v" "0 \<le> pos" "nat pos \<le> length v" "length v \<le> PROTO_INLINE_MAX_SIZE"
    "rest_of v pos @ F = enc_arg a @ ?T" "arg_ok sv a"
    using inv True by (auto simp: mb_inv_def pend_def)
  show ?thesis
  proof (cases "length (rest_of v pos) < length (header 36 (length a)) + 2")
    case short: True
    then show ?thesis using mb_bulklen_wait [OF i(1) True i(2-5) short] True by (auto simp: stuck_def)
  next
    case False
    have "rest_of v pos @ F = header 36 (length a) @ [13, 10] @ (a @ [13, 10] @ ?T)"
      using i(5) by (simp add: enc_arg_def header_def)
    then obtain u' where u': "rest_of v pos = header 36 (length a) @ [13, 10] @ u'" "a @ [13, 10] @ ?T = u' @ F"
      using False by (cases rule: header_split) auto
    obtain q pos' v' where r: "mb_bulklen sv junk c pos = Some (MbNext (c\<lparr>querybuf := q, bulklen := int (length a)\<rparr>) pos')"
      "0 \<le> pos'" "sds_rep q v'" "nat pos' \<le> length v'" "rest_of v' pos' = u'" "length v' \<le> length v"
    proof -
      have "length v < 2 ^ 31" using i(4) by (simp add: PROTO_INLINE_MAX_SIZE_def)
      from mb_bulklen_read [OF i(1) True i(2,3) this sv i(6) u'(1), of junk] show thesis using that by blast
    qed
    have "mb_inv sv (c\<lparr>querybuf := q, bulklen := int (length a)\<rparr>) v' pos' ds (a # todo) F T"
      using inv r i(4) u'(2) by (auto simp: mb_inv_def pend_def)
    then show ?thesis using r(1) by (intro disjI2) (auto simp: frame_def)
  qed
qed

lemma mb_arg_ok:
  assumes sv: "limits sv" and inv: "mb_inv sv c v pos ds (a # todo) F T" and b: "bulklen c = int (length a)"
  shows "(stuck (bulklen c) (a # todo) (rest_of v pos) \<and> mb_arg junk c pos = Some (MbBreak c pos)) \<or>
    (\<exists>c' v' pos'. mb_arg junk c pos = Some (MbNext c' pos') \<and> frame c c' \<and> mb_inv sv c' v' pos' (ds @ [a]) todo F T)"
proof (cases "length (rest_of v pos) < length a + 2")
  case True
  have "length v < 2 ^ 61" "length a < 2 ^ 61"
    using mb_inv_small [OF sv inv] arg_ok_small [OF sv, of a] inv by (auto simp: mb_inv_def)
  then show ?thesis using mb_arg_wait [of c v a pos junk] inv b True by (auto simp: mb_inv_def stuck_def)
next
  case False
  have e: "rest_of v pos @ F = a @ [13, 10] @ concat (map enc_arg todo) @ T"
    using inv b by (auto simp: mb_inv_def pend_def)
  define u' where "u' = drop (length a + 2) (rest_of v pos)"
  have t2: "take (length a + 2) (rest_of v pos) = a @ [13, 10]"
    using arg_cong [OF e, of "take (length a + 2)"] False by simp
  then have u': "rest_of v pos = a @ [13, 10] @ u'"
    unfolding u'_def by (metis append.assoc append_take_drop_id)
  have e2: "u' @ F = concat (map enc_arg todo) @ T" using e u' by simp
  have i: "sds_rep (querybuf c) v" "0 \<le> pos" "nat pos \<le> length v" "length (argv c) < argv_cap c"
    using inv by (auto simp: mb_inv_def dest: list_all2_lengthD)
  obtain q o1 pos' v' where r: "mb_arg junk c pos = Some (MbNext (c\<lparr>querybuf := q, argv := argv c @ [o1], bulklen := - 1,
      multibulklen := multibulklen c - 1\<rparr>) pos')" "sds_rep o1 a" "sds_rep q v'" "0 \<le> pos'" "nat pos' \<le> length v'"
      "rest_of v' pos' = u'" "length v' \<le> length v"
      "pos = 0 \<and> int (length a) \<ge> PROTO_MBULK_BIG_ARG \<and> length v = length a + 2 \<longrightarrow> v' = []"
    using mb_arg_read [OF i(1) b i(2,3) mb_inv_small [OF sv inv] u' i(4), of junk] by blast
  have lv: "length v = nat pos + length a + 2 + length u'" using arg_cong [OF u', of length] i(3) by simp
  have "length v' \<le> PROTO_INLINE_MAX_SIZE"
    using inv b r(7,8) lv by (auto simp: mb_inv_def)
  then have "mb_inv sv (c\<lparr>querybuf := q, argv := argv c @ [o1], bulklen := - 1, multibulklen := multibulklen c - 1\<rparr>)
      v' pos' (ds @ [a]) todo F T"
    using inv r e2 by (auto simp: mb_inv_def pend_def intro: list_all2_appendI)
  then show ?thesis using r(1) by (intro disjI2) (auto simp: frame_def)
qed

lemma mb_loop_ok:
  assumes sv: "limits sv"
  shows "mb_inv sv c v pos ds todo F T \<Longrightarrow> \<exists>c' v' pos' ds' todo'. mb_loop sv junk c pos = Some (MbBreak c' pos') \<and> frame c c' \<and>
    ds' @ todo' = ds @ todo \<and> mb_inv sv c' v' pos' ds' todo' F T \<and> stuck (bulklen c') todo' (rest_of v' pos')"
proof (induction todo arbitrary: c v pos ds)
  case Nil
  then have "multibulklen c = 0" "bulklen c = - 1" by (auto simp: mb_inv_def split: if_splits)
  then show ?case using Nil
    by (intro exI [of _ c] exI [of _ v] exI [of _ pos] exI [of _ ds] exI [of _ "[]"])
      (simp add: mb_loop.simps frame_def stuck_def)
next
  case (Cons a todo)
  have m: "multibulklen c \<noteq> 0" using Cons.prems by (simp add: mb_inv_def)
  from mb_bulklen_ok [OF sv Cons.prems, of junk] show ?case
  proof (elim disjE exE conjE)
    assume w: "stuck (bulklen c) (a # todo) (rest_of v pos)" "mb_bulklen sv junk c pos = Some (MbBreak c pos)"
    then have "mb_loop sv junk c pos = Some (MbBreak c pos)"
      using m by (subst mb_loop.simps) (simp add: mb_step_def)
    then show ?thesis using w(1) Cons.prems
      by (intro exI [of _ c] exI [of _ v] exI [of _ pos] exI [of _ ds] exI [of _ "a # todo"]) (simp add: frame_def)
  next
    fix c1 v1 pos1 assume r: "mb_bulklen sv junk c pos = Some (MbNext c1 pos1)" "frame c c1" "bulklen c1 = int (length a)"
      "mb_inv sv c1 v1 pos1 ds (a # todo) F T"
    from mb_arg_ok [OF sv r(4,3), of junk] show ?thesis
    proof (elim disjE exE conjE)
      assume w: "stuck (bulklen c1) (a # todo) (rest_of v1 pos1)" "mb_arg junk c1 pos1 = Some (MbBreak c1 pos1)"
      then have "mb_loop sv junk c pos = Some (MbBreak c1 pos1)"
        using m r(1) by (subst mb_loop.simps) (simp add: mb_step_def)
      then show ?thesis using w r by blast
    next
      fix c2 v2 pos2 assume r2: "mb_arg junk c1 pos1 = Some (MbNext c2 pos2)" "frame c1 c2" "mb_inv sv c2 v2 pos2 (ds @ [a]) todo F T"
      have "mb_loop sv junk c pos = mb_loop sv junk c2 pos2"
        using m r(1) r2(1) by (subst mb_loop.simps) (simp add: mb_step_def)
      moreover obtain c' v' pos' ds' todo' where "mb_loop sv junk c2 pos2 = Some (MbBreak c' pos')" "frame c2 c'"
        "ds' @ todo' = (ds @ [a]) @ todo" "mb_inv sv c' v' pos' ds' todo' F T" "stuck (bulklen c') todo' (rest_of v' pos')"
        using Cons.IH [OF r2(3)] by blast
      moreover have "frame c c'" using r(2) r2(2) \<open>frame c2 c'\<close> frame_trans by blast
      ultimately show ?thesis
        by (intro exI [of _ c'] exI [of _ v'] exI [of _ pos'] exI [of _ ds'] exI [of _ todo']) simp
    qed
  qed
qed

subsection \<open>Whole commands\<close>

definition cmd_ok :: "server_conf \<Rightarrow> byte list list \<Rightarrow> bool" where
  "cmd_ok sv as \<longleftrightarrow> as \<noteq> [] \<and> length as \<le> 1024 * 1024 \<and> list_all (arg_ok sv) as"

abbreviation enc_all :: "byte list list list \<Rightarrow> byte list" where
  "enc_all cmds \<equiv> concat (map enc_cmd cmds)"

lemma mb_header_wait:
  assumes rep: "sds_rep (querybuf c) v" and c: "multibulklen c = 0" "argv c = []"
    and len: "length v \<le> PROTO_INLINE_MAX_SIZE" and u: "v @ F = enc_cmd as @ T"
    and short: "length v < length (header 42 (length as)) + 2"
  shows "mb_header c = Some (c, 0, Some False)"
proof -
  obtain z where z: "buf (querybuf c) = v @ 0 # z" using rep by (auto simp: sds_rep_def)
  have sl: "sdslen (querybuf c) = length v" using rep by (simp add: sds_rep_def)
  have cl: "13 \<notin> set (header 42 (length as))" "0 \<notin> set (header 42 (length as))" using header_clean by auto
  have "v @ F = header 42 (length as) @ [13, 10] @ (concat (map enc_arg as) @ T)"
    using u by (simp add: enc_cmd_def header_def)
  then show ?thesis
  proof (cases rule: header_split)
    case (short G)
    then have "13 \<notin> set v" "0 \<notin> set v" using cl by auto
    then show ?thesis using c z sl len by (simp add: mb_header_def strchr_miss)
  next
    case cr
    have "strchr_from (buf (querybuf c)) 13 = Some (Some (length (header 42 (length as))))"
      using strchr_hit [OF cl, of "0 # z"] by (simp add: z cr)
    moreover have "signed_cast (length v) = int (length v)"
      using len by (intro signed_cast_small) (simp add: PROTO_INLINE_MAX_SIZE_def)
    ultimately show ?thesis using c sl cr by (simp add: mb_header_def Let_def)
  next
    case (full u')
    then show ?thesis using short by simp
  qed
qed

lemma mb_header_read:
  assumes rep: "sds_rep (querybuf c) v" and c: "multibulklen c = 0" "argv c = []" "bulklen c = - 1"
    and len: "length v \<le> PROTO_INLINE_MAX_SIZE" and ok: "cmd_ok sv as" and u: "v @ F = enc_cmd as @ T"
    and full: "\<not> length v < length (header 42 (length as)) + 2"
  shows "\<exists>pos. mb_header c = Some (c\<lparr>multibulklen := int (length as), argv_cap := length as\<rparr>, pos, None) \<and>
    mb_inv sv (c\<lparr>multibulklen := int (length as), argv_cap := length as\<rparr>) v pos [] as F T"
proof -
  let ?h = "header 42 (length as)"
  have "v @ F = ?h @ [13, 10] @ (concat (map enc_arg as) @ T)" using u by (simp add: enc_cmd_def header_def)
  then obtain u' where u': "v = ?h @ [13, 10] @ u'" "concat (map enc_arg as) @ T = u' @ F"
    using full by (cases rule: header_split) auto
  obtain z where z: "buf (querybuf c) = v @ 0 # z" using rep by (auto simp: sds_rep_def)
  have sl: "sdslen (querybuf c) = length v" using rep by (simp add: sds_rep_def)
  have cl: "13 \<notin> set ?h" "0 \<notin> set ?h" using header_clean by auto
  have nl: "strchr_from (buf (querybuf c)) 13 = Some (Some (length ?h))"
    using strchr_hit [OF cl] by (simp add: z u'(1))
  have sc: "signed_cast (length v) = int (length v)"
    using len by (intro signed_cast_small) (simp add: PROTO_INLINE_MAX_SIZE_def)
  have rd: "rd (buf (querybuf c)) 0 = Some 42" by (simp add: z u'(1) header_def)
  have rdn: "mem_read (buf (querybuf c)) 1 (length ?h - 1) = Some (dec_nat (length as))"
    using sds_rep_read [OF rep, of 1 "length ?h - 1"] by (simp add: u'(1) header_def)
  have ll: "string2ll (dec_nat (length as)) = Some (int (length as))"
    using ok by (intro string2ll_dec_nat) (simp add: cmd_ok_def LLONG_MAX_def)
  have as: "length as > 0" "int (length as) \<le> 1024 * 1024" using ok by (auto simp: cmd_ok_def)
  have "mb_header c = Some (c\<lparr>multibulklen := int (length as), argv_cap := length as\<rparr>, int (length ?h) + 2, None)"
  proof -
    have e: "\<not> (int (length ?h) > int (length v) - 2)" "\<not> (int (length as) > 1024 * 1024)" "\<not> (int (length as) \<le> 0)"
      "\<not> (multibulklen c \<noteq> 0)" "\<not> (argv c \<noteq> [])" "\<not> (42 \<noteq> (42 :: byte))"
      using c as u'(1) by auto
    show ?thesis unfolding mb_header_def
      by (simp only: e if_False nl sl sc rd rdn ll Let_def Option.bind.simps option.case nat_int)
  qed
  moreover have "nat (int (length ?h) + 2) = length ?h + 2" by simp
  moreover have "mb_inv sv (c\<lparr>multibulklen := int (length as), argv_cap := length as\<rparr>) v (int (length ?h) + 2) [] as F T"
    using rep c len ok u' calculation(2) by (simp add: mb_inv_def pend_def cmd_ok_def)
  ultimately show ?thesis by blast
qed

definition idle :: "client \<Rightarrow> byte list \<Rightarrow> byte list \<Rightarrow> byte list \<Rightarrow> bool" where
  "idle c v F T \<longleftrightarrow> sds_rep (querybuf c) v \<and> multibulklen c = 0 \<and> bulklen c = - 1 \<and> argv c = [] \<and>
     length v \<le> PROTO_INLINE_MAX_SIZE \<and> v @ F = T"

lemma mb_inv_trim:
  assumes sv: "limits sv" and inv: "mb_inv sv c v pos ds todo F T"
  shows "\<exists>c'. (if pos \<noteq> 0 then do { q \<leftarrow> sdsrange (querybuf c) pos (- 1); Some (c\<lparr>querybuf := q\<rparr>) } else Some c) = Some c' \<and>
    frame c c' \<and> mb_inv sv c' (rest_of v pos) 0 ds todo F T \<and> bulklen c' = bulklen c \<and> multibulklen c' = multibulklen c"
proof (cases "pos = 0")
  case True
  then show ?thesis using inv by (simp add: frame_def)
next
  case False
  have "nat pos \<le> length v" "0 \<le> pos" "sds_rep (querybuf c) v" using inv by (auto simp: mb_inv_def)
  moreover have "length v < 2 ^ 61" using mb_inv_small [OF sv inv] by simp
  ultimately obtain q where q: "sdsrange (querybuf c) pos (- 1) = Some q" "sds_rep q (rest_of v pos)"
    using sdsrange_drop [of "querybuf c" v "nat pos"] by auto
  then show ?thesis using False inv by (auto simp: frame_def mb_inv_def)
qed

lemma multibulk_from_inv:
  assumes sv: "limits sv" and inv: "mb_inv sv c v pos ds todo F T" and todo: "todo \<noteq> []"
    and hd: "mb_header c0 = Some (c, pos, None)"
  shows "\<exists>c' v' ds' todo'. processMultibulkBuffer sv junk c0 = Some (c', todo' = []) \<and> frame c c' \<and>
    ds' @ todo' = ds @ todo \<and> mb_inv sv c' v' 0 ds' todo' F T \<and> stuck (bulklen c') todo' v'"
proof -
  obtain c1 v1 pos1 ds' todo' where l: "mb_loop sv junk c pos = Some (MbBreak c1 pos1)" "frame c c1"
    "ds' @ todo' = ds @ todo" "mb_inv sv c1 v1 pos1 ds' todo' F T" "stuck (bulklen c1) todo' (rest_of v1 pos1)"
    using mb_loop_ok [OF sv inv, of junk] by blast
  obtain c' where t: "(if pos1 \<noteq> 0 then do { q \<leftarrow> sdsrange (querybuf c1) pos1 (- 1); Some (c1\<lparr>querybuf := q\<rparr>) } else Some c1) = Some c'"
    "frame c1 c'" "mb_inv sv c' (rest_of v1 pos1) 0 ds' todo' F T" "bulklen c' = bulklen c1"
    using mb_inv_trim [OF sv l(4)] by blast
  have "multibulklen c' = int (length todo')" using t(3) by (simp add: mb_inv_def)
  moreover have "\<not> multibulklen c \<le> 0" using inv todo by (simp add: mb_inv_def)
  ultimately have "processMultibulkBuffer sv junk c0 = Some (c', todo' = [])"
    using hd l(1) t(1) by (simp add: processMultibulkBuffer_def)
  moreover have "frame c c'" using l(2) t(2) frame_trans by blast
  moreover have "stuck (bulklen c') todo' (rest_of v1 pos1)" using l(5) t(4) by simp
  ultimately show ?thesis using l(3) t(3) by blast
qed

text \<open>The state of a connection between two steps: the commands executed, a command that is
  partly received, and the encodings of the ones to come.\<close>

definition conn :: "server_conf \<Rightarrow> client \<Rightarrow> byte list \<Rightarrow> byte list \<Rightarrow> byte list list \<Rightarrow> byte list list \<Rightarrow> byte list list list \<Rightarrow> bool" where
  "conn sv c v F ds todo cmds \<longleftrightarrow>
     \<not> blocked c \<and> \<not> close_after_reply c \<and> errors c = [] \<and> list_all (cmd_ok sv) cmds \<and>
     (if todo = [] then ds = [] \<and> idle c v F (enc_all cmds) \<and> (reqtype c = 0 \<or> reqtype c = PROTO_REQ_MULTIBULK)
      else mb_inv sv c v 0 ds todo F (enc_all cmds) \<and> reqtype c = PROTO_REQ_MULTIBULK)"

definition waits :: "client \<Rightarrow> byte list \<Rightarrow> byte list list \<Rightarrow> byte list list list \<Rightarrow> bool" where
  "waits c v todo cmds \<longleftrightarrow>
     (if todo = [] then cmds = [] \<or> length v < length (header 42 (length (hd cmds))) + 2
      else stuck (bulklen c) todo v)"

definition all_cmds :: "client \<Rightarrow> byte list list \<Rightarrow> byte list list list \<Rightarrow> byte list list list" where
  "all_cmds c cur cmds = executed c @ (if cur = [] then [] else [cur]) @ cmds"

lemma conn_rep: "conn sv c v F ds todo cmds \<Longrightarrow> sds_rep (querybuf c) v"
  by (auto simp: conn_def idle_def mb_inv_def split: if_splits)

lemma enc_cmd_hd: "v @ F = enc_cmd as @ T \<Longrightarrow> v \<noteq> [] \<Longrightarrow> hd v = 42"
  by (cases v) (auto simp: enc_cmd_def)

lemma list_all2_val: "list_all2 sds_rep ts as \<Longrightarrow> map sds_val ts = as"
  by (simp add: list_all2_sds_rep)

lemma exec_reset:
  assumes "mb_inv sv c v 0 as [] F (enc_all cmds)" and "frame c0 c" and "as \<noteq> []"
    and "\<not> blocked c0" "\<not> close_after_reply c0" "errors c0 = []" "list_all (cmd_ok sv) cmds" "\<not> blocks sv as"
  shows "argv c \<noteq> [] \<and> conn sv (resetClient (exec_command sv c)) v F [] [] cmds \<and>
    executed (resetClient (exec_command sv c)) = executed c0 @ [as]"
proof -
  have i: "sds_rep (querybuf c) v" "list_all2 sds_rep (argv c) as" "v @ F = enc_all cmds" "length v \<le> PROTO_INLINE_MAX_SIZE"
    using assms(1) by (auto simp: mb_inv_def pend_def split: if_splits)
  then have "map sds_val (argv c) = as" by (simp add: list_all2_val)
  then show ?thesis using assms i
    by (auto simp: conn_def idle_def resetClient_def freeClientArgv_def exec_command_def frame_def Let_def)
qed

lemma rd_hd: "sds_rep s v \<Longrightarrow> v \<noteq> [] \<Longrightarrow> rd (buf s) 0 = Some (hd v)"
  by (cases v) (auto simp: sds_rep_def)

lemma input_step:
  assumes "sdslen (querybuf c) \<noteq> 0" "\<not> blocked c" "\<not> close_after_reply c" "rd (buf (querybuf c)) 0 = Some x"
    "reqtype c = PROTO_REQ_MULTIBULK \<or> (reqtype c = 0 \<and> x = 42)"
  shows "processInputBuffer sv junk c = do {
      (c, ok) \<leftarrow> processMultibulkBuffer sv junk (c\<lparr>reqtype := PROTO_REQ_MULTIBULK\<rparr>);
      if \<not> ok then Some c
      else if argv c = [] then processInputBuffer sv junk (resetClient c)
      else processInputBuffer sv junk (resetClient (exec_command sv c)) }"
proof -
  have "PROTO_REQ_MULTIBULK \<noteq> PROTO_REQ_INLINE" "PROTO_REQ_MULTIBULK \<noteq> 0"
    by (simp_all add: PROTO_REQ_MULTIBULK_def PROTO_REQ_INLINE_def)
  moreover have "(if reqtype c = 0 then c\<lparr>reqtype := (if x = 42 then PROTO_REQ_MULTIBULK else PROTO_REQ_INLINE)\<rparr> else c)
      = c\<lparr>reqtype := PROTO_REQ_MULTIBULK\<rparr>"
    using assms(5) by (cases c) (auto simp: PROTO_REQ_MULTIBULK_def)
  ultimately show ?thesis using assms
    by (subst processInputBuffer.simps) (simp only: Let_def if_False Option.bind.simps, simp)
qed

lemma processInputBuffer_ok:
  assumes sv: "limits sv" and nb: "\<And>as. \<not> blocks sv as"
  shows "conn sv c v F ds todo cmds \<Longrightarrow>
    \<exists>c' v' ds' todo' cmds'. processInputBuffer sv junk c = Some c' \<and> conn sv c' v' F ds' todo' cmds' \<and>
      waits c' v' todo' cmds' \<and> all_cmds c' (ds' @ todo') cmds' = all_cmds c (ds @ todo) cmds"
proof (induction "length cmds + (if todo = [] then 0 else 1)" arbitrary: c v ds todo cmds rule: less_induct)
  case less
  note conn = less.prems
  have sl: "sdslen (querybuf c) = length v" using conn_rep [OF conn] by (simp add: sds_rep_def)
  have fl: "\<not> blocked c" "\<not> close_after_reply c" "errors c = []" "list_all (cmd_ok sv) cmds" using conn by (auto simp: conn_def)
  have T: "\<exists>c' v' ds' todo' cmds'. processInputBuffer sv junk c = Some c' \<and> conn sv c' v' F ds' todo' cmds' \<and>
      waits c' v' todo' cmds' \<and> all_cmds c' (ds' @ todo') cmds' = all_cmds c (ds @ todo) cmds"
    if "v \<noteq> []" and rt: "reqtype c = PROTO_REQ_MULTIBULK \<or> (reqtype c = 0 \<and> hd v = 42)"
      and hdr: "mb_header (c\<lparr>reqtype := PROTO_REQ_MULTIBULK\<rparr>) = Some (c1, pos, None)" and inv: "mb_inv sv c1 v1 pos ds1 todo1 F (enc_all cmds1)"
      and fr: "frame (c\<lparr>reqtype := PROTO_REQ_MULTIBULK\<rparr>) c1" and t1: "todo1 \<noteq> []"
      and cm: "all_cmds c (ds1 @ todo1) cmds1 = all_cmds c (ds @ todo) cmds" "list_all (cmd_ok sv) cmds1"
      and ms: "length cmds1 < length cmds + (if todo = [] then 0 else 1)"
    for c1 pos v1 ds1 todo1 cmds1
  proof -
    obtain c2 v2 ds2 todo2 where r: "processMultibulkBuffer sv junk (c\<lparr>reqtype := PROTO_REQ_MULTIBULK\<rparr>) = Some (c2, todo2 = [])"
      "frame c1 c2" "ds2 @ todo2 = ds1 @ todo1" "mb_inv sv c2 v2 0 ds2 todo2 F (enc_all cmds1)" "stuck (bulklen c2) todo2 v2"
      using multibulk_from_inv [OF sv inv t1 hdr, of junk] by blast
    have f2: "frame (c\<lparr>reqtype := PROTO_REQ_MULTIBULK\<rparr>) c2" using fr r(2) frame_trans by blast
    have rd0: "rd (buf (querybuf c)) 0 = Some (hd v)" using rd_hd [OF conn_rep [OF conn] that(1)] .
    have step: "processInputBuffer sv junk c = (if \<not> todo2 = [] then Some c2
      else if argv c2 = [] then processInputBuffer sv junk (resetClient c2)
      else processInputBuffer sv junk (resetClient (exec_command sv c2)))"
      using input_step [OF _ fl(1,2) rd0 rt, of sv junk] sl that(1) r(1) by simp
    show ?thesis
    proof (cases "todo2 = []")
      case False
      have "conn sv c2 v2 F ds2 todo2 cmds1"
        using False r(4) f2 fl cm(2) by (simp add: conn_def frame_def)
      moreover have "waits c2 v2 todo2 cmds1" using False r(5) by (simp add: waits_def)
      moreover have "all_cmds c2 (ds2 @ todo2) cmds1 = all_cmds c (ds @ todo) cmds"
        using cm(1) r(3) f2 by (simp add: all_cmds_def frame_def)
      ultimately show ?thesis using step False by auto
    next
      case True
      then have d2: "ds2 = ds1 @ todo1" using r(3) by simp
      have inv2: "mb_inv sv c2 v2 0 ds2 [] F (enc_all cmds1)" using r(4) True by simp
      have ne: "ds2 \<noteq> []" using d2 t1 by simp
      have flr: "\<not> blocked (c\<lparr>reqtype := PROTO_REQ_MULTIBULK\<rparr>)" "\<not> close_after_reply (c\<lparr>reqtype := PROTO_REQ_MULTIBULK\<rparr>)"
        "errors (c\<lparr>reqtype := PROTO_REQ_MULTIBULK\<rparr>) = []" using fl by auto
      note ex = exec_reset [OF inv2 f2 ne flr cm(2) nb]
      let ?c3 = "resetClient (exec_command sv c2)"
      have "\<exists>c' v' ds' todo' cmds'. processInputBuffer sv junk ?c3 = Some c' \<and> conn sv c' v' F ds' todo' cmds' \<and>
        waits c' v' todo' cmds' \<and> all_cmds c' (ds' @ todo') cmds' = all_cmds ?c3 ([] @ []) cmds1"
        by (rule less.hyps [of cmds1 "[]"]) (use ms ex in auto)
      moreover have "all_cmds ?c3 ([] @ []) cmds1 = all_cmds c (ds @ todo) cmds"
        using ex cm(1) ne d2 by (auto simp: all_cmds_def split: if_splits)
      ultimately show ?thesis using step True ex by auto
    qed
  qed
  show ?case
  proof (cases "todo = []")
    case False
    then have i: "mb_inv sv c v 0 ds todo F (enc_all cmds)" "reqtype c = PROTO_REQ_MULTIBULK" using conn by (auto simp: conn_def)
    show ?thesis
    proof (cases "v = []")
      case True
      have "processInputBuffer sv junk c = Some c" using sl True by (subst processInputBuffer.simps) simp
      moreover have "waits c v todo cmds"
        using False True i(1) by (auto simp: waits_def stuck_def)
      ultimately show ?thesis using conn by blast
    next
      case v: False
      have "multibulklen c \<noteq> 0" using i(1) False by (simp add: mb_inv_def)
      then have h: "mb_header (c\<lparr>reqtype := PROTO_REQ_MULTIBULK\<rparr>) = Some (c\<lparr>reqtype := PROTO_REQ_MULTIBULK\<rparr>, 0, None)"
        by (simp add: mb_header_def)
      have inv: "mb_inv sv (c\<lparr>reqtype := PROTO_REQ_MULTIBULK\<rparr>) v 0 ds todo F (enc_all cmds)"
        using i(1) by (auto simp: mb_inv_def)
      show ?thesis by (rule T [OF v _ h inv]) (use i False fl(4) in \<open>auto simp: frame_def\<close>)
    qed
  next
    case True
    then have i: "idle c v F (enc_all cmds)" "ds = []" "reqtype c = 0 \<or> reqtype c = PROTO_REQ_MULTIBULK"
      using conn by (auto simp: conn_def)
    show ?thesis
    proof (cases cmds)
      case Nil
      then have "v = []" using i(1) by (simp add: idle_def)
      then have "processInputBuffer sv junk c = Some c" using sl by (subst processInputBuffer.simps) simp
      moreover have "waits c v todo cmds" using True Nil by (simp add: waits_def)
      ultimately show ?thesis using conn by blast
    next
      case (Cons as cmds1)
      have u: "v @ F = enc_cmd as @ enc_all cmds1" using i(1) Cons by (simp add: idle_def)
      let ?c = "c\<lparr>reqtype := PROTO_REQ_MULTIBULK\<rparr>"
      have id: "sds_rep (querybuf ?c) v" "multibulklen ?c = 0" "argv ?c = []" "bulklen ?c = - 1" "length v \<le> PROTO_INLINE_MAX_SIZE"
        using i(1) by (auto simp: idle_def)
      show ?thesis
      proof (cases "length v < length (header 42 (length as)) + 2")
        case short: True
        have w: "waits c v todo cmds" "waits ?c v todo cmds" using True Cons short by (auto simp: waits_def)
        show ?thesis
        proof (cases "v = []")
          case True
          have "processInputBuffer sv junk c = Some c" using sl True by (subst processInputBuffer.simps) simp
          then show ?thesis using conn w by blast
        next
          case v: False
          have rd0: "rd (buf (querybuf c)) 0 = Some (hd v)" using rd_hd [OF conn_rep [OF conn] v] .
          have "processMultibulkBuffer sv junk ?c = Some (?c, False)"
            using mb_header_wait [OF id(1-3,5) u short] by (simp add: processMultibulkBuffer_def)
          then have "processInputBuffer sv junk c = Some ?c"
            using input_step [OF _ fl(1,2) rd0, of sv junk] sl v i(3) enc_cmd_hd [OF u v] by auto
          moreover have "conn sv ?c v F ds todo cmds" using conn True by (simp add: conn_def idle_def)
          moreover have "all_cmds ?c (ds @ todo) cmds = all_cmds c (ds @ todo) cmds" by (simp add: all_cmds_def)
          ultimately show ?thesis using w(2) by blast
        qed
      next
        case full: False
        have v: "v \<noteq> []" using full by auto
        have ok: "cmd_ok sv as" "list_all (cmd_ok sv) cmds1" using fl(4) Cons by auto
        obtain pos where h: "mb_header ?c = Some (?c\<lparr>multibulklen := int (length as), argv_cap := length as\<rparr>, pos, None)"
          "mb_inv sv (?c\<lparr>multibulklen := int (length as), argv_cap := length as\<rparr>) v pos [] as F (enc_all cmds1)"
          using mb_header_read [OF id ok(1) u full] by blast
        show ?thesis
          by (rule T [OF v _ h]) (use i Cons ok True enc_cmd_hd [OF u v] in \<open>auto simp: frame_def all_cmds_def cmd_ok_def\<close>)
      qed
    qed
  qed
qed

subsection \<open>Reading in pieces\<close>

lemma header_length: "n < 10 ^ 19 \<Longrightarrow> length (header p n) \<le> 20"
  using dec_nat_length_le [of n 18] by (simp add: header_def)

lemma conn_append:
  \<comment> \<open>appending what the next read may return\<close>
  assumes sv: "limits sv" and conn: "conn sv c v (x @ F) ds todo cmds" and w: "waits c v todo cmds"
    and x: "int (length x) \<le> read_len c" and q: "sds_rep q (v @ x)"
  shows "conn sv (c\<lparr>querybuf := q\<rparr>) (v @ x) F ds todo cmds"
proof (cases "todo = []")
  case True
  have i: "idle c v (x @ F) (enc_all cmds)" "reqtype c = 0 \<or> reqtype c = PROTO_REQ_MULTIBULK"
    using conn True by (auto simp: conn_def)
  have rl: "read_len c = PROTO_IOBUF_LEN" using i(1) by (auto simp: read_len_def idle_def)
  have "length v \<le> 22"
  proof (cases cmds)
    case Nil
    then show ?thesis using i(1) by (simp add: idle_def)
  next
    case (Cons as cs)
    then have "cmd_ok sv as" using conn by (auto simp: conn_def)
    then have "length (header 42 (length as)) \<le> 20" by (intro header_length) (simp add: cmd_ok_def)
    then show ?thesis using w True Cons by (simp add: waits_def)
  qed
  then have "length (v @ x) \<le> PROTO_INLINE_MAX_SIZE"
    using x rl by (simp add: PROTO_INLINE_MAX_SIZE_def PROTO_IOBUF_LEN_def)
  then show ?thesis using conn True q by (simp add: conn_def idle_def)
next
  case False
  have i: "mb_inv sv c v 0 ds todo (x @ F) (enc_all cmds)" "reqtype c = PROTO_REQ_MULTIBULK"
    using conn False by (auto simp: conn_def)
  have st: "stuck (bulklen c) todo v" using w False by (simp add: waits_def)
  obtain a todo' where t: "todo = a # todo'" using False by (cases todo) auto
  have a: "arg_ok sv a" "length a < 2 ^ 30" using i(1) t arg_ok_small [OF sv, of a] by (auto simp: mb_inv_def)
  have rl: "read_len c \<le> PROTO_IOBUF_LEN" by (simp add: read_len_def Let_def)
  have bnd: "if bulklen c = - 1 then length (v @ x) \<le> PROTO_INLINE_MAX_SIZE
      else length (v @ x) \<le> PROTO_INLINE_MAX_SIZE \<or>
         (bulklen c \<ge> PROTO_MBULK_BIG_ARG \<and> length (v @ x) \<le> length a + 2)"
  proof (cases "bulklen c = - 1")
    case True
    have "length (header 36 (length a)) \<le> 20" using a(2) by (intro header_length) simp
    then have "length v \<le> 22" using st t True by (simp add: stuck_def)
    then show ?thesis using True x rl by (simp add: PROTO_INLINE_MAX_SIZE_def PROTO_IOBUF_LEN_def)
  next
    case b: False
    then have bl: "bulklen c = int (length a)" "length v < length a + 2"
      using i(1) st t by (auto simp: mb_inv_def stuck_def)
    show ?thesis
    proof (cases "bulklen c \<ge> PROTO_MBULK_BIG_ARG")
      case False
      then show ?thesis using b bl x rl
        by (simp add: PROTO_INLINE_MAX_SIZE_def PROTO_IOBUF_LEN_def PROTO_MBULK_BIG_ARG_def)
    next
      case True
      have "sdslen (querybuf c) = length v" using i(1) by (simp add: mb_inv_def sds_rep_def)
      moreover have "to_ssize (int (length a) + 2 - int (length v)) = int (length a) + 2 - int (length v)"
        using a(2) bl(2) by (intro to_ssize_small) auto
      moreover have "multibulklen c \<noteq> 0" using i(1) t by (simp add: mb_inv_def)
      ultimately have "read_len c \<le> int (length a) + 2 - int (length v)"
        using True b bl(1) i(2) by (simp add: read_len_def Let_def)
      then show ?thesis using True b x by simp
    qed
  qed
  have "mb_inv sv (c\<lparr>querybuf := q\<rparr>) (v @ x) 0 ds todo F (enc_all cmds)"
    using i(1) q bnd t by (auto simp: mb_inv_def split: if_splits)
  then show ?thesis using conn False by (simp add: conn_def)
qed

lemma read_len_pos:
  assumes sv: "limits sv" and conn: "conn sv c v F ds todo cmds" and w: "waits c v todo cmds"
  shows "0 < read_len c \<and> read_len c \<le> PROTO_IOBUF_LEN"
proof (cases "todo = []")
  case True
  then have "read_len c = PROTO_IOBUF_LEN" using conn by (auto simp: conn_def read_len_def idle_def)
  then show ?thesis by (simp add: PROTO_IOBUF_LEN_def)
next
  case False
  have i: "mb_inv sv c v 0 ds todo F (enc_all cmds)" using conn False by (auto simp: conn_def)
  obtain a todo' where t: "todo = a # todo'" using False by (cases todo) auto
  have "stuck (bulklen c) todo v" using w False by (simp add: waits_def)
  then have "bulklen c \<noteq> - 1 \<Longrightarrow> bulklen c = int (length a) \<and> length v < length a + 2"
    using i t by (auto simp: mb_inv_def stuck_def)
  moreover have "sdslen (querybuf c) = length v" using i by (simp add: mb_inv_def sds_rep_def)
  moreover have "length a < 2 ^ 30" using i t arg_ok_small [OF sv, of a] by (auto simp: mb_inv_def)
  ultimately show ?thesis
    by (auto simp: read_len_def Let_def PROTO_IOBUF_LEN_def to_ssize_small)
qed

lemma conn_small: "limits sv \<Longrightarrow> conn sv c v F ds todo cmds \<Longrightarrow> length v \<le> client_max_querybuf_len sv \<and> length v < 2 ^ 60"
proof -
  assume sv: "limits sv" and c: "conn sv c v F ds todo cmds"
  have "length v \<le> PROTO_INLINE_MAX_SIZE \<or> int (length v) \<le> proto_max_bulk_len sv + 2"
  proof (cases todo)
    case Nil
    then show ?thesis using c by (simp add: conn_def idle_def)
  next
    case (Cons a todo')
    then show ?thesis using c by (auto simp: conn_def mb_inv_def arg_ok_def split: if_splits)
  qed
  then show ?thesis using sv by (auto simp: limits_def PROTO_INLINE_MAX_SIZE_def)
qed

lemma readQuery_ok:
  assumes sv: "limits sv" and nb: "\<And>as. \<not> blocks sv as" and conn: "conn sv c v (x @ F) ds todo cmds"
    and w: "waits c v todo cmds" and x: "x \<noteq> []" "int (length x) \<le> read_len c"
  shows "\<exists>c' v' ds' todo' cmds'. readQueryFromClient sv junk c (ReadData x) = Some (Some c') \<and>
    conn sv c' v' F ds' todo' cmds' \<and> waits c' v' todo' cmds' \<and> all_cmds c' (ds' @ todo') cmds' = all_cmds c (ds @ todo) cmds"
proof -
  have rep: "sds_rep (querybuf c) v" using conn by (rule conn_rep)
  have rl: "0 < read_len c" "read_len c \<le> PROTO_IOBUF_LEN" using read_len_pos [OF sv conn w] by auto
  have small: "length v < 2 ^ 60" using conn_small [OF sv conn] by simp
  let ?n = "nat (read_len c)"
  have n: "ssize_to_size (read_len c) = ?n" using rl by (intro ssize_to_size_small) (auto simp: PROTO_IOBUF_LEN_def)
  have room: "length v + ?n \<le> 2 ^ 61" using rl small by (simp add: PROTO_IOBUF_LEN_def)
  obtain q1 where q1: "sdsMakeRoomFor junk (querybuf c) ?n = Some q1" "sds_rep q1 v" "length v + ?n \<le> sdsalloc q1"
    using sdsMakeRoomFor_ok [OF rep room, of junk] by blast
  have lx: "length x \<le> ?n" using x by linarith
  then have "length v + length x \<le> length (buf q1)" using q1(2,3) by (auto simp: sds_rep_def)
  then obtain b where b: "mem_write (buf q1) (int (length v)) x = Some b" by (simp add: mem_write_def)
  obtain q where q: "sdsIncrLen (q1\<lparr>buf := b\<rparr>) (int (length x)) = Some q" "sds_rep q (v @ x)"
    using sdsIncrLen_grow_ok [OF q1(2) x(1) _ b] lx q1(3) by auto
  have c1: "conn sv (c\<lparr>querybuf := q\<rparr>) (v @ x) F ds todo cmds"
    using conn_append [OF sv conn w x(2) q(2)] .
  have "sdslen q = length (v @ x)" using q(2) by (simp add: sds_rep_def)
  then have mx: "\<not> sdslen q > client_max_querybuf_len sv" using conn_small [OF sv c1] by simp
  have sl: "sdslen (querybuf c) = length v" using rep by (simp add: sds_rep_def)
  have "readQueryFromClient sv junk c (ReadData x) = map_option Some (processInputBuffer sv junk (c\<lparr>querybuf := q\<rparr>))"
    using q1(1) b q(1) mx by (simp add: readQueryFromClient_def Let_def n sl)
  moreover have "all_cmds (c\<lparr>querybuf := q\<rparr>) (ds @ todo) cmds = all_cmds c (ds @ todo) cmds" by (simp add: all_cmds_def)
  ultimately show ?thesis using processInputBuffer_ok [OF sv nb c1, of junk] by auto
qed

lemma waits_end:
  assumes "conn sv c v [] ds todo cmds" and "waits c v todo cmds"
  shows "todo = [] \<and> cmds = [] \<and> v = []"
proof (cases todo)
  case Nil
  then have v: "v = enc_all cmds" using assms(1) by (simp add: conn_def idle_def)
  have "cmds = []"
  proof (rule ccontr)
    assume "cmds \<noteq> []"
    then obtain as cs where "cmds = as # cs" by (cases cmds) auto
    then show False using assms(2) Nil v by (simp add: waits_def enc_cmd_def header_def)
  qed
  then show ?thesis using Nil v by simp
next
  case (Cons a todo')
  then have "v = pend (bulklen c) todo @ enc_all cmds" "stuck (bulklen c) todo v"
    using assms by (auto simp: conn_def mb_inv_def waits_def)
  then show ?thesis using Cons by (auto simp: pend_def stuck_def enc_arg_def header_def split: if_splits)
qed

fun session :: "server_conf \<Rightarrow> (nat \<Rightarrow> byte) \<Rightarrow> client \<Rightarrow> byte list \<Rightarrow> nat list \<Rightarrow> (client \<times> byte list) option" where
  \<comment> \<open>the readable events of a socket that carries \<open>F\<close>: at the event \<open>n\<close> the kernel has \<open>n\<close> bytes ready;
     None if the client is freed or the server fails\<close>
  "session sv junk c F [] = Some (c, F)"
| "session sv junk c F (n # ns) = (
     let x = take (min n (nat (read_len c))) F;
         r = (if x = [] then ReadAgain else ReadData x) in
     case readQueryFromClient sv junk c r of
       Some (Some c) \<Rightarrow> session sv junk c (drop (length x) F) ns
     | _ \<Rightarrow> None)"

lemma session_ok:
  assumes sv: "limits sv" and nb: "\<And>as. \<not> blocks sv as"
  shows "conn sv c v F ds todo cmds \<Longrightarrow> waits c v todo cmds \<Longrightarrow>
    \<exists>c' F' v' ds' todo' cmds'. session sv junk c F ns = Some (c', F') \<and> conn sv c' v' F' ds' todo' cmds' \<and>
      waits c' v' todo' cmds' \<and> all_cmds c' (ds' @ todo') cmds' = all_cmds c (ds @ todo) cmds"
proof (induction ns arbitrary: c v F ds todo cmds)
  case Nil
  then show ?case by auto
next
  case (Cons n ns)
  define x where "x = take (min n (nat (read_len c))) F"
  have rl: "0 < read_len c" "read_len c \<le> PROTO_IOBUF_LEN" using read_len_pos [OF sv Cons.prems] by auto
  have F: "F = x @ drop (length x) F" by (simp add: x_def min_def)
  show ?case
  proof (cases "x = []")
    case False
    have lx: "int (length x) \<le> read_len c" using rl by (auto simp: x_def min_def)
    have cx: "conn sv c v (x @ drop (length x) F) ds todo cmds" using Cons.prems(1) F by simp
    obtain c1 v1 ds1 todo1 cmds1 where r: "readQueryFromClient sv junk c (ReadData x) = Some (Some c1)"
      "conn sv c1 v1 (drop (length x) F) ds1 todo1 cmds1" "waits c1 v1 todo1 cmds1"
      "all_cmds c1 (ds1 @ todo1) cmds1 = all_cmds c (ds @ todo) cmds"
      using readQuery_ok [OF sv nb cx Cons.prems(2) False lx, of junk] by blast
    have "session sv junk c F (n # ns) = session sv junk c1 (drop (length x) F) ns"
      using r(1) False by (simp add: x_def [symmetric])
    then show ?thesis using Cons.IH [OF r(2,3)] r(4) by auto
  next
    case True
    have rep: "sds_rep (querybuf c) v" using Cons.prems(1) by (rule conn_rep)
    have small: "length v < 2 ^ 60" using conn_small [OF sv Cons.prems(1)] by simp
    have n: "ssize_to_size (read_len c) = nat (read_len c)" using rl by (intro ssize_to_size_small) (auto simp: PROTO_IOBUF_LEN_def)
    have room: "length v + nat (read_len c) \<le> 2 ^ 61" using rl small by (simp add: PROTO_IOBUF_LEN_def)
    obtain q where q: "sdsMakeRoomFor junk (querybuf c) (nat (read_len c)) = Some q" "sds_rep q v"
      using sdsMakeRoomFor_ok [OF rep room, of junk] by blast
    let ?c = "c\<lparr>querybuf := q\<rparr>"
    have "readQueryFromClient sv junk c ReadAgain = Some (Some ?c)" using q(1) by (simp add: readQueryFromClient_def n)
    then have "session sv junk c F (n # ns) = session sv junk ?c F ns" using True by (simp add: x_def [symmetric])
    moreover have "conn sv ?c v F ds todo cmds"
      using conn_append [OF sv, of c v "[]" F ds todo cmds q] Cons.prems q(2) rl by simp
    moreover have "waits ?c v todo cmds" using Cons.prems(2) by (auto simp: waits_def split: if_splits)
    moreover have "all_cmds ?c (ds @ todo) cmds = all_cmds c (ds @ todo) cmds" by (simp add: all_cmds_def)
    ultimately show ?thesis using Cons.IH [of ?c v F ds todo cmds] by auto
  qed
qed

subsection \<open>The encoder\<close>

lemma count_line_ok:
  assumes "n < 10 ^ 18"
  shows "\<exists>b. count_line junk p n = Some (b, length (header p n @ [13, 10])) \<and>
    length (header p n @ [13, 10]) \<le> length b \<and> take (length (header p n @ [13, 10])) b = header p n @ [13, 10]"
proof -
  let ?d = "dec_nat n" let ?m = "map junk [1..<32]"
  have up: "[0..<32] = 0 # [1..<32]" by (simp add: upt_conv_Cons)
  have w0: "mem_write (map junk [0..<32]) 0 [p] = Some (p # ?m)" by (simp add: up mem_write_def)
  have ld: "length ?d \<le> 19" using dec_nat_length_le [of n 18] assms by simp
  have ll: "ll2string ?m 31 (int n) = Some (?d @ 0 # drop (Suc (length ?d)) ?m, length ?d)"
    using ll2string_ok [of "int n" 31 ?m] assms ld by (simp add: dec_def LLONG_MIN_def LLONG_MAX_def)
  obtain y r where y: "drop (Suc (length ?d)) (map junk [Suc 0..<32]) = [y] @ r"
    using ld by (cases "drop (Suc (length ?d)) (map junk [Suc 0..<32])") auto
  have w1: "mem_write (p # ?d @ [0] @ [y] @ r) (int (1 + length ?d)) [13] = Some (p # ?d @ [13] @ [y] @ r)"
    using mem_write_at [of "p # ?d" "1 + length ?d" "[0]" "[13]" "[y] @ r"] by simp
  have w2: "mem_write (p # ?d @ [13] @ [y] @ r) (int (1 + length ?d) + 1) [10] = Some (p # ?d @ [13] @ [10] @ r)"
    using mem_write_at [of "p # ?d @ [13]" "length ?d + 2" "[y]" "[10]" r] by (simp add: add.commute)
  have "count_line junk p n = Some (p # ?d @ [13] @ [10] @ r, 1 + length ?d + 2)"
    using w0 w1 w2 ll by (simp add: count_line_def Let_def y)
  then show ?thesis by (simp add: header_def)
qed

lemma cat_line_ok:
  assumes rep: "sds_rep dst v" and n: "n < 10 ^ 18" and small: "length v + length (header p n) + 2 \<le> 2 ^ 61"
  shows "\<exists>dst'. do { (b, len) \<leftarrow> count_line junk p n; sdscatlen junk dst b len } = Some dst' \<and>
    sds_rep dst' (v @ header p n @ [13, 10])"
proof -
  obtain b where b: "count_line junk p n = Some (b, length (header p n @ [13, 10]))"
    "length (header p n @ [13, 10]) \<le> length b" "take (length (header p n @ [13, 10])) b = header p n @ [13, 10]"
    using count_line_ok [OF n, of junk p] by blast
  show ?thesis using sdscatlen_ok [OF rep b(2), of junk] small b(1,3) by simp
qed

lemma enc_arg_length: "length (enc_arg a) = length (header 36 (length a)) + length a + 4"
  by (simp add: enc_arg_def header_def)

lemma cat_args_ok:
  assumes "sds_rep dst v" and "list_all2 sds_rep ts as" and "length v + length (concat (map enc_arg as)) < 2 ^ 58"
  shows "\<exists>dst'. cat_args junk dst ts = Some dst' \<and> sds_rep dst' (v @ concat (map enc_arg as))"
  using assms
proof (induction ts arbitrary: dst v as)
  case Nil
  then show ?case by simp
next
  case (Cons t ts)
  then obtain a as' where as: "as = a # as'" "sds_rep t a" "list_all2 sds_rep ts as'" by (auto simp: list_all2_Cons1)
  have sz: "length v + length (header 36 (length a)) + length a + 4 + length (concat (map enc_arg as')) < 2 ^ 58"
    using Cons.prems(3) as(1) by (simp add: enc_arg_length)
  have la: "length a < 10 ^ 18" using sz by simp
  have t: "sdslen t = length a" "length a \<le> length (buf t)" "take (length a) (buf t) = a" using as(2) by (auto simp: sds_rep_def)
  have s1: "length v + length (header 36 (length a)) + 2 \<le> 2 ^ 61" using sz by simp
  obtain d1 where d1: "do { (b, len) \<leftarrow> count_line junk 36 (length a); sdscatlen junk dst b len } = Some d1"
    "sds_rep d1 (v @ header 36 (length a) @ [13, 10])"
    using cat_line_ok [OF Cons.prems(1) la s1, of junk] by blast
  obtain d2 where d2: "sdscatlen junk d1 (buf t) (length a) = Some d2" "sds_rep d2 (v @ header 36 (length a) @ [13, 10] @ a)"
    using sdscatlen_ok [OF d1(2) t(2), of junk] sz t(3) by auto
  obtain d3 where d3: "sdscatlen junk d2 [13, 10, 0] 2 = Some d3" "sds_rep d3 (v @ enc_arg a)"
    using sdscatlen_ok [OF d2(2), of 2 "[13, 10, 0]" junk] sz by (auto simp: enc_arg_def header_def)
  have "length (v @ enc_arg a) + length (concat (map enc_arg as')) < 2 ^ 58" using Cons.prems(3) as(1) by simp
  from Cons.IH [OF d3(2) as(3) this] obtain d4 where
    d4: "cat_args junk d3 ts = Some d4" "sds_rep d4 ((v @ enc_arg a) @ concat (map enc_arg as'))" by blast
  have "cat_args junk dst (t # ts) = do { d \<leftarrow> do { (b, len) \<leftarrow> count_line junk 36 (length a); sdscatlen junk dst b len };
      d \<leftarrow> sdscatlen junk d (buf t) (length a); d \<leftarrow> sdscatlen junk d [13, 10, 0] 2; cat_args junk d ts }"
    by (simp add: t(1) case_prod_unfold)
  then show ?case using d1(1) d2(1) d3(1) d4 as(1) by simp
qed

lemma catAppendOnly_ok:
  assumes rep: "sds_rep dst v" and ts: "list_all2 sds_rep ts as" and small: "length v + length (enc_cmd as) < 2 ^ 58"
  shows "\<exists>dst'. catAppendOnlyGenericCommand junk dst ts = Some dst' \<and> sds_rep dst' (v @ enc_cmd as)"
proof -
  have len: "length ts = length as" using ts by (rule list_all2_lengthD)
  have "length as \<le> length (concat (map enc_arg as))" by (induction as) (auto simp: enc_arg_def)
  then have la: "length as < 10 ^ 18" "length v + length (header 42 (length as)) + 2 \<le> 2 ^ 61"
    "length (v @ header 42 (length as) @ [13, 10]) + length (concat (map enc_arg as)) < 2 ^ 58"
    using small by (auto simp: enc_cmd_def header_def)
  obtain d1 where d1: "do { (b, len) \<leftarrow> count_line junk 42 (length as); sdscatlen junk dst b len } = Some d1"
    "sds_rep d1 (v @ header 42 (length as) @ [13, 10])"
    using cat_line_ok [OF rep la(1,2), of junk] by blast
  obtain d2 where d2: "cat_args junk d1 ts = Some d2" "sds_rep d2 ((v @ header 42 (length as) @ [13, 10]) @ concat (map enc_arg as))"
    using cat_args_ok [OF d1(2) ts la(3), of junk] by blast
  have "catAppendOnlyGenericCommand junk dst ts = do { d \<leftarrow> do { (b, len) \<leftarrow> count_line junk 42 (length as); sdscatlen junk dst b len };
      cat_args junk d ts }"
    by (simp add: catAppendOnlyGenericCommand_def len case_prod_unfold)
  then show ?thesis using d1(1) d2 by (simp add: enc_cmd_def header_def)
qed


lemma encode_all_ok:
  assumes "sds_rep dst v" and "list_all2 (list_all2 sds_rep) tss cmds" and "length v + length (enc_all cmds) < 2 ^ 58"
  shows "\<exists>dst'. emit_all (catAppendOnlyGenericCommand junk) dst tss = Some dst' \<and> sds_rep dst' (v @ enc_all cmds)"
  using assms
proof (induction tss arbitrary: dst v cmds)
  case Nil
  then show ?case by simp
next
  case (Cons ts tss)
  then obtain as cmds' where cm: "cmds = as # cmds'" "list_all2 sds_rep ts as" "list_all2 (list_all2 sds_rep) tss cmds'"
    by (auto simp: list_all2_Cons1)
  obtain d1 where d1: "catAppendOnlyGenericCommand junk dst ts = Some d1" "sds_rep d1 (v @ enc_cmd as)"
    using catAppendOnly_ok [OF Cons.prems(1) cm(2), of junk] Cons.prems(3) cm(1) by auto
  then show ?case using Cons.IH [OF d1(2) cm(3)] Cons.prems(3) cm(1) by auto
qed

lemma session_progress:
  assumes sv: "limits sv" and nb: "\<And>as. \<not> blocks sv as"
  shows "conn sv c v F ds todo cmds \<Longrightarrow> waits c v todo cmds \<Longrightarrow> list_all (\<lambda>n. n \<ge> 1) ns \<Longrightarrow>
    session sv junk c F ns = Some (c', F') \<Longrightarrow> length F' \<le> length F - length ns"
proof (induction ns arbitrary: c v F ds todo cmds)
  case (Cons n ns)
  obtain c1 F1 v1 ds1 todo1 cmds1 where s: "session sv junk c F [n] = Some (c1, F1)" "conn sv c1 v1 F1 ds1 todo1 cmds1"
    "waits c1 v1 todo1 cmds1"
    using session_ok [OF sv nb Cons.prems(1,2), of junk "[n]"] by blast
  define x where "x = take (min n (nat (read_len c))) F"
  define r where "r = (if x = [] then ReadAgain else ReadData x)"
  have r: "readQueryFromClient sv junk c r = Some (Some c1)" and "F1 = drop (length x) F"
    using s(1) by (auto simp: Let_def x_def [symmetric] r_def [symmetric] split: option.splits)
  then have F1: "F1 = drop (length x) F" "session sv junk c F (n # ns) = session sv junk c1 F1 ns"
    by (simp_all only: session.simps Let_def x_def [symmetric] r_def [symmetric] option.case)
  have "0 < min n (nat (read_len c))" using read_len_pos [OF sv Cons.prems(1,2)] Cons.prems(3) by auto
  then have "length F1 \<le> length F - 1" by (cases F) (auto simp: F1(1) x_def)
  moreover have "length F' \<le> length F1 - length ns"
    using Cons.IH [OF s(2,3)] Cons.prems(3,4) F1(2) by simp
  ultimately show ?case by simp
qed simp

definition fresh_client :: "client \<Rightarrow> bool" where
  "fresh_client c \<longleftrightarrow> sds_ok (querybuf c) \<and> sds_val (querybuf c) = [] \<and> reqtype c = 0 \<and> multibulklen c = 0 \<and>
     bulklen c = - 1 \<and> argv c = [] \<and> \<not> blocked c \<and> \<not> close_after_reply c \<and> errors c = [] \<and> executed c = []"

lemma fresh_conn:
  "fresh_client c \<Longrightarrow> list_all (cmd_ok sv) cmds \<Longrightarrow> conn sv c [] (enc_all cmds) [] [] cmds \<and> waits c [] [] cmds"
  by (simp add: fresh_client_def conn_def idle_def waits_def sds_rep_iff)

lemma all_cmds_prefix: "all_cmds c' cur cmds' = cmds \<Longrightarrow> prefix (executed c') cmds"
  by (auto simp: all_cmds_def prefix_def)

text \<open>Property C4. Round trip through the encoder of the append only file and the request
  parser, whatever pieces the network delivers: a client that receives the encoded commands is
  never freed or sent an error, at every moment the commands executed are a prefix of the ones
  encoded, with their arguments unchanged, and as many events as the stream has bytes are
  enough to execute all of them.\<close>
theorem resp_roundtrip:
  assumes "limits sv" and "\<forall>as. \<not> blocks sv as" and "fresh_client c"
    and "list_all (list_all sds_ok) tss" and "list_all (cmd_ok sv) (map (map sds_val) tss)"
    and "length (enc_all (map (map sds_val) tss)) < 2 ^ 58"
  shows "\<exists>s0 s. sdsempty junk = Some s0 \<and> emit_all (catAppendOnlyGenericCommand junk) s0 tss = Some s \<and>
    (\<forall>ns. \<exists>c' F'. session sv junk c (sds_val s) ns = Some (c', F') \<and> errors c' = [] \<and>
       prefix (executed c') (map (map sds_val) tss) \<and>
       (list_all (\<lambda>n. n \<ge> 1) ns \<and> length ns \<ge> length (sds_val s) \<longrightarrow> executed c' = map (map sds_val) tss))"
proof -
  let ?cmds = "map (map sds_val) tss"
  have nb: "\<And>as. \<not> blocks sv as" using assms(2) by blast
  obtain s0 where s0: "sdsempty junk = Some s0" "sds_rep s0 []" using sdsempty_ok by blast
  have "list_all2 (list_all2 sds_rep) tss ?cmds"
    using assms(4) by (induction tss) (auto simp: list_all2_sds_rep)
  then obtain s where s: "emit_all (catAppendOnlyGenericCommand junk) s0 tss = Some s" "sds_rep s (enc_all ?cmds)"
    using encode_all_ok [OF s0(2), of tss ?cmds junk] assms(6) by auto
  have sval: "sds_val s = enc_all ?cmds" using s(2) by (simp add: sds_rep_iff)
  note fc = fresh_conn [OF assms(3,5)]
  have ac: "all_cmds c ([] @ []) ?cmds = ?cmds" using assms(3) by (simp add: all_cmds_def fresh_client_def)
  have "\<exists>c' F'. session sv junk c (sds_val s) ns = Some (c', F') \<and> errors c' = [] \<and> prefix (executed c') ?cmds \<and>
    (list_all (\<lambda>n. n \<ge> 1) ns \<and> length ns \<ge> length (sds_val s) \<longrightarrow> executed c' = ?cmds)" for ns
  proof -
    obtain c' F' v' ds' todo' cmds' where r: "session sv junk c (sds_val s) ns = Some (c', F')" "conn sv c' v' F' ds' todo' cmds'"
      "waits c' v' todo' cmds'" "all_cmds c' (ds' @ todo') cmds' = ?cmds"
      using session_ok [OF assms(1) nb fc [THEN conjunct1] fc [THEN conjunct2], of junk ns] unfolding sval ac by blast
    have "executed c' = ?cmds" if n: "list_all (\<lambda>n. n \<ge> 1) ns" "length ns \<ge> length (sds_val s)"
    proof -
      have "length F' \<le> length (sds_val s) - length ns"
        using session_progress [OF assms(1) nb fc [THEN conjunct1] fc [THEN conjunct2] n(1), of junk c' F'] r(1) unfolding sval by blast
      then have "F' = []" using n(2) by simp
      then have "todo' = [] \<and> cmds' = []" using waits_end [of sv c' v' ds' todo' cmds'] r(2,3) by simp
      moreover from this have "ds' = []" using r(2) by (simp add: conn_def)
      ultimately show ?thesis using r(4) by (simp add: all_cmds_def)
    qed
    moreover have "errors c' = []" using r(2) by (simp add: conn_def)
    ultimately show ?thesis using r(1) all_cmds_prefix [OF r(4)] by blast
  qed
  then show ?thesis using s0(1) s(1) by blast
qed


definition demo_conf :: server_conf where
  "demo_conf = \<lparr>proto_max_bulk_len = 512 * 1024 * 1024, client_max_querybuf_len = 1024 * 1024 * 1024, blocks = (\<lambda>_. False)\<rparr>"

definition demo_client :: client where
  "demo_client = \<lparr>querybuf = \<lparr>hdr = sdshdr8 0 0, buf = [0]\<rparr>, reqtype = 0, multibulklen = 0, bulklen = - 1, argv = [],
     argv_cap = 0, close_after_reply = False, blocked = False, errors = [], executed = []\<rparr>"

lemma demo_limits: "limits demo_conf" "\<forall>as. \<not> blocks demo_conf as" "fresh_client demo_client"
  by (simp_all add: limits_def demo_conf_def PROTO_MBULK_BIG_ARG_def PROTO_INLINE_MAX_SIZE_def fresh_client_def
      demo_client_def sds_ok_def sds_val_def sdslen_def sdsalloc_def)

theorem resp_roundtrip_witness:
  "\<exists>s0 s. sdsempty (\<lambda>_. 1) = Some s0 \<and>
    emit_all (catAppendOnlyGenericCommand (\<lambda>_. 1)) s0 [[\<lparr>hdr = sdshdr8 2 2, buf = [13, 10, 0]\<rparr>]] = Some s \<and>
    (\<exists>c' F'. session demo_conf (\<lambda>_. 1) demo_client (sds_val s) (replicate (length (sds_val s)) 1) = Some (c', F') \<and>
       executed c' = [[[13, 10]]])"
proof -
  let ?tss = "[[\<lparr>hdr = sdshdr8 2 2, buf = [13, 10, 0]\<rparr>]]"
  have v: "map (map sds_val) ?tss = [[[13, 10]]]" by (simp add: sds_val_def sdslen_def)
  have "list_all (list_all sds_ok) ?tss" by (simp add: sds_ok_def sdslen_def sdsalloc_def)
  moreover have "list_all (cmd_ok demo_conf) [[[13, 10]]]" by (simp add: cmd_ok_def arg_ok_def demo_conf_def)
  moreover have "length (enc_all [[[13, 10]]]) < 2 ^ 58" by (simp add: enc_cmd_def enc_arg_def dec_nat_small)
  ultimately obtain s0 s where s: "sdsempty (\<lambda>_. 1) = Some s0" "emit_all (catAppendOnlyGenericCommand (\<lambda>_. 1)) s0 ?tss = Some s"
    "\<forall>ns. \<exists>c' F'. session demo_conf (\<lambda>_. 1) demo_client (sds_val s) ns = Some (c', F') \<and> errors c' = [] \<and>
       prefix (executed c') [[[13, 10]]] \<and>
       (list_all (\<lambda>n. n \<ge> 1) ns \<and> length ns \<ge> length (sds_val s) \<longrightarrow> executed c' = [[[13, 10]]])"
    using resp_roundtrip [OF demo_limits, of ?tss "\<lambda>_. 1"] unfolding v by blast
  have "list_all (\<lambda>n. n \<ge> 1) (replicate (length (sds_val s)) (1 :: nat))" by (simp add: list_all_iff)
  moreover have "length (replicate (length (sds_val s)) (1 :: nat)) \<ge> length (sds_val s)" by simp
  ultimately show ?thesis using s(1,2) s(3) [THEN spec, of "replicate (length (sds_val s)) 1"] by blast
qed

subsection \<open>Two defects\<close>

lemma mb_loop_small_arg:
  assumes sv: "limits sv" "arg_ok sv a" and rep: "sds_rep (querybuf c) v" and b: "bulklen c = - 1" and pos: "0 \<le> pos" "nat pos \<le> length v"
    and len: "length v < 2 ^ 31" and u: "rest_of v pos = enc_arg a @ u'" and small: "int (length a) < PROTO_MBULK_BIG_ARG"
    and cap: "length (argv c) < argv_cap c" and m: "multibulklen c \<noteq> 0"
  shows "\<exists>o1 q pos'. mb_loop sv junk c pos = mb_loop sv junk (c\<lparr>querybuf := q, argv := argv c @ [o1], bulklen := - 1,
      multibulklen := multibulklen c - 1\<rparr>) pos' \<and> sds_rep q v \<and> 0 \<le> pos' \<and> nat pos' \<le> length v \<and> rest_of v pos' = u'"
proof -
  have u1: "rest_of v pos = header 36 (length a) @ [13, 10] @ (a @ [13, 10] @ u')" using u by (simp add: enc_arg_def header_def)
  obtain q1 pos1 where r1: "mb_bulklen sv junk c pos = Some (MbNext (c\<lparr>querybuf := q1, bulklen := int (length a)\<rparr>) pos1)"
    "0 \<le> pos1" "sds_rep q1 v" "nat pos1 \<le> length v" "rest_of v pos1 = a @ [13, 10] @ u'"
    using mb_bulklen_read [OF rep b pos len sv u1, of junk] small by blast
  let ?c1 = "c\<lparr>querybuf := q1, bulklen := int (length a)\<rparr>"
  have "sds_rep (querybuf ?c1) v" "bulklen ?c1 = int (length a)" "length (argv ?c1) < argv_cap ?c1" "length v < 2 ^ 60"
    using r1 cap len by simp_all
  from mb_arg_read [OF this(1,2) r1(2,4) this(4) r1(5) this(3), of junk]
  obtain q o1 pos' where r2: "mb_arg junk ?c1 pos1 = Some (MbNext (?c1\<lparr>querybuf := q, argv := argv ?c1 @ [o1], bulklen := - 1,
      multibulklen := multibulklen ?c1 - 1\<rparr>) pos')" "sds_rep q v" "0 \<le> pos'" "nat pos' \<le> length v" "rest_of v pos' = u'"
    using small by blast
  have "mb_loop sv junk c pos = mb_loop sv junk (c\<lparr>querybuf := q, argv := argv c @ [o1], bulklen := - 1,
      multibulklen := multibulklen c - 1\<rparr>) pos'"
    using m r1(1) r2(1) by (subst mb_loop.simps) (simp add: mb_step_def)
  then show ?thesis using r2(2-5) by blast
qed

lemma mb_loop_small_args:
  assumes sv: "limits sv"
  shows "sds_rep (querybuf c) v \<Longrightarrow> bulklen c = - 1 \<Longrightarrow> 0 \<le> pos \<Longrightarrow> nat pos \<le> length v \<Longrightarrow> length v < 2 ^ 31 \<Longrightarrow>
    rest_of v pos = concat (map enc_arg as) @ u' \<Longrightarrow> list_all (\<lambda>a. arg_ok sv a \<and> int (length a) < PROTO_MBULK_BIG_ARG) as \<Longrightarrow>
    length (argv c) + length as \<le> argv_cap c \<Longrightarrow> multibulklen c > int (length as) \<Longrightarrow>
    \<exists>c' pos'. mb_loop sv junk c pos = mb_loop sv junk c' pos' \<and> frame c c' \<and> sds_rep (querybuf c') v \<and> bulklen c' = - 1 \<and>
      0 \<le> pos' \<and> nat pos' \<le> length v \<and> rest_of v pos' = u' \<and> multibulklen c' \<noteq> 0"
proof (induction as arbitrary: c pos)
  case Nil
  then show ?case by (intro exI [of _ c] exI [of _ pos]) (simp add: frame_def)
next
  case (Cons a as)
  obtain o1 q pos1 where r: "mb_loop sv junk c pos = mb_loop sv junk (c\<lparr>querybuf := q, argv := argv c @ [o1], bulklen := - 1,
      multibulklen := multibulklen c - 1\<rparr>) pos1" "sds_rep q v" "0 \<le> pos1" "nat pos1 \<le> length v"
      "rest_of v pos1 = concat (map enc_arg as) @ u'"
    using mb_loop_small_arg [OF sv _ Cons.prems(1-5), of a "concat (map enc_arg as) @ u'" junk] Cons.prems(6-9) by auto
  let ?c = "c\<lparr>querybuf := q, argv := argv c @ [o1], bulklen := - 1, multibulklen := multibulklen c - 1\<rparr>"
  have "\<exists>c' pos'. mb_loop sv junk ?c pos1 = mb_loop sv junk c' pos' \<and> frame ?c c' \<and> sds_rep (querybuf c') v \<and> bulklen c' = - 1 \<and>
      0 \<le> pos' \<and> nat pos' \<le> length v \<and> rest_of v pos' = u' \<and> multibulklen c' \<noteq> 0"
    using r Cons.prems by (intro Cons.IH) auto
  then show ?case unfolding r(1) by (auto simp: frame_def)
qed

text \<open>Property C35. The parser refuses a valid request when much of it is in the buffer: with
  more than 64 KB of received arguments, all below 32 KB, and the length of the next argument cut
  after its first byte, it reports a too big bulk count and closes the connection, since the
  limit is compared with the whole buffer. Such a buffer arises while a client is blocked.\<close>
theorem resp_spurious_error:
  assumes "limits sv" and "cmd_ok sv (as1 @ as2)" and "as2 \<noteq> []"
    and "list_all (\<lambda>a. int (length a) < PROTO_MBULK_BIG_ARG) as1"
    and "v = header 42 (length (as1 @ as2)) @ [13, 10] @ concat (map enc_arg as1) @ [36]"
    and "PROTO_INLINE_MAX_SIZE < length v" and "length v < 2 ^ 31"
    and "sds_ok (querybuf c)" and "sds_val (querybuf c) = v" and "multibulklen c = 0" and "bulklen c = - 1" and "argv c = []"
  shows "prefix v (enc_cmd (as1 @ as2)) \<and>
    (\<exists>c'. processMultibulkBuffer sv junk c = Some (c', False) \<and> errors c' = errors c @ [TooBigBulkCount] \<and> close_after_reply c')"
proof
  obtain a as' where as2: "as2 = a # as'" using assms(3) by (cases as2) auto
  show "prefix v (enc_cmd (as1 @ as2))" unfolding assms(5) as2
    by (auto simp: enc_cmd_def header_def enc_arg_def prefix_def)
  have rep: "sds_rep (querybuf c) v" using assms(8,9) by (simp add: sds_rep_iff)
  let ?h = "header 42 (length (as1 @ as2))" and ?n = "length (as1 @ as2)"
  let ?c = "c\<lparr>multibulklen := int ?n, argv_cap := ?n\<rparr>"
  have sl: "sdslen (querybuf c) = length v" using rep by (simp add: sds_rep_def)
  obtain z where z: "buf (querybuf c) = v @ 0 # z" using rep by (auto simp: sds_rep_def)
  have cl: "13 \<notin> set ?h" "0 \<notin> set ?h" using header_clean by auto
  have nl: "strchr_from (buf (querybuf c)) 13 = Some (Some (length ?h))" using strchr_hit [OF cl] by (simp add: z assms(5))
  have sc: "signed_cast (length v) = int (length v)" using assms(7) by (rule signed_cast_small)
  have rd: "rd (buf (querybuf c)) 0 = Some 42" by (simp add: z assms(5) header_def)
  have rdn: "mem_read (buf (querybuf c)) 1 (length ?h - 1) = Some (dec_nat ?n)"
    using sds_rep_read [OF rep, of 1 "length ?h - 1"] by (simp add: assms(5) header_def)
  have ll: "string2ll (dec_nat ?n) = Some (int ?n)"
    using assms(2) by (intro string2ll_dec_nat) (simp add: cmd_ok_def LLONG_MAX_def)
  have hdr: "mb_header c = Some (?c, int (length ?h) + 2, None)"
  proof -
    have e: "\<not> (int (length ?h) > int (length v) - 2)" "\<not> (int ?n > 1024 * 1024)" "\<not> (int ?n \<le> 0)"
      "\<not> (multibulklen c \<noteq> 0)" "\<not> (argv c \<noteq> [])" "\<not> (42 \<noteq> (42 :: byte))"
      using assms as2 by (auto simp: cmd_ok_def)
    show ?thesis unfolding mb_header_def
      by (simp only: e if_False nl sl sc rd rdn ll Let_def Option.bind.simps option.case nat_int)
  qed
  have n: "nat (int (length ?h) + 2) = length ?h + 2" by simp
  have rest: "rest_of v (int (length ?h) + 2) = concat (map enc_arg as1) @ [36]" unfolding n assms(5) by simp
  have ok: "list_all (\<lambda>a. arg_ok sv a \<and> int (length a) < PROTO_MBULK_BIG_ARG) as1"
    using assms(2,4) by (auto simp: cmd_ok_def list_all_iff)
  have lh: "nat (int (length ?h) + 2) \<le> length v" unfolding n assms(5) by simp
  obtain c' pos' where l: "mb_loop sv junk ?c (int (length ?h) + 2) = mb_loop sv junk c' pos'" "frame ?c c'"
    "sds_rep (querybuf c') v" "bulklen c' = - 1" "0 \<le> pos'" "nat pos' \<le> length v" "rest_of v pos' = [36]" "multibulklen c' \<noteq> 0"
    using mb_loop_small_args [OF assms(1), of ?c v "int (length ?h) + 2" as1 "[36]" junk] rep assms(7,10-12) rest ok lh as2 by auto
  obtain z' where z': "drop (nat pos') (buf (querybuf c')) = [36] @ 0 # z'"
    using sds_rep_buf_drop [OF l(3,6)] l(7) by auto
  have sl': "sdslen (querybuf c') = length v" using l(3) by (simp add: sds_rep_def)
  obtain q where q: "sdsrange (querybuf c') 0 (- 1) = Some q"
    using sdsrange_drop [OF l(3), of 0] assms(7) by auto
  let ?e = "c'\<lparr>errors := errors c' @ [TooBigBulkCount], close_after_reply := True, querybuf := q\<rparr>"
  have "mb_bulklen sv junk c' pos' = Some (MbErr ?e)"
    using l(4) z' sl' assms(6) q by (simp add: mb_bulklen_def setProtocolError_def)
  then have "mb_loop sv junk c' pos' = Some (MbErr ?e)"
    using l(8) by (subst mb_loop.simps) (simp add: mb_step_def)
  moreover have "\<not> multibulklen ?c \<le> 0" using as2 by simp
  ultimately have "processMultibulkBuffer sv junk c = Some (?e, False)"
    using hdr l(1) by (simp add: processMultibulkBuffer_def)
  then show "\<exists>c'. processMultibulkBuffer sv junk c = Some (c', False) \<and> errors c' = errors c @ [TooBigBulkCount] \<and> close_after_reply c'"
    using l(2) by (intro exI [of _ ?e]) (simp add: frame_def)
qed


lemma wide_rep: "length v < 2 ^ 32 \<Longrightarrow> sds_rep \<lparr>hdr = sdshdr32 (of_nat (length v)) (of_nat (length v)), buf = v @ [0]\<rparr> v"
  by (simp add: sds_rep_def sdslen_def sdsalloc_def unat_of_nat)

lemma length_dec_nat_32767: "length (dec_nat 32767) = 5" using dec_nat_length [of 4 32767] by simp

theorem resp_spurious_error_witness:
  "\<exists>as1 as2 v c. prefix v (enc_cmd (as1 @ as2)) \<and>
    (\<exists>c'. processMultibulkBuffer demo_conf (\<lambda>_. 1) c = Some (c', False) \<and> errors c' = [TooBigBulkCount] \<and> close_after_reply c')"
proof -
  let ?a = "replicate 32767 (65 :: byte)"
  let ?v = "header 42 (length ([?a, ?a] @ [[]])) @ [13, 10] @ concat (map enc_arg [?a, ?a]) @ [36]"
  let ?q = "\<lparr>hdr = sdshdr32 (of_nat (length ?v)) (of_nat (length ?v)), buf = ?v @ [0]\<rparr>"
  have lv: "length ?v = 65559"
    by (simp add: header_def enc_arg_def dec_nat_small length_dec_nat_32767)
  have q: "sds_ok ?q" "sds_val ?q = ?v"
    using wide_rep [of ?v] lv by (simp_all only: sds_rep_iff) simp_all
  have ok: "cmd_ok demo_conf ([?a, ?a] @ [[]])" by (simp add: cmd_ok_def arg_ok_def demo_conf_def)
  have small: "list_all (\<lambda>a. int (length a) < PROTO_MBULK_BIG_ARG) [?a, ?a]" by (simp add: PROTO_MBULK_BIG_ARG_def)
  let ?c = "demo_client\<lparr>querybuf := ?q\<rparr>"
  have "prefix ?v (enc_cmd ([?a, ?a] @ [[]])) \<and>
    (\<exists>c'. processMultibulkBuffer demo_conf (\<lambda>_. 1) ?c = Some (c', False) \<and> errors c' = errors ?c @ [TooBigBulkCount] \<and> close_after_reply c')"
    by (rule resp_spurious_error [OF demo_limits(1) ok _ small refl])
      (use lv q in \<open>simp_all add: PROTO_INLINE_MAX_SIZE_def demo_client_def\<close>)
  moreover have "errors ?c = []" by (simp add: demo_client_def)
  ultimately show ?thesis by (metis append_Nil)
qed

subsubsection \<open>Inline requests that end in a bare line feed\<close>

definition plain :: "byte \<Rightarrow> bool" where
  "plain c \<longleftrightarrow> c \<noteq> 0 \<and> \<not> isspace c \<and> c \<noteq> 34 \<and> c \<noteq> 39"

lemma plain_not: "plain c \<Longrightarrow> c \<noteq> 0 \<and> c \<noteq> 32 \<and> c \<noteq> 10 \<and> c \<noteq> 13 \<and> c \<noteq> 9 \<and> c \<noteq> 34 \<and> c \<noteq> 39"
  by (auto simp: plain_def isspace_def)

lemma token_plain:
  assumes "sds_rep cur w" and "length w + length u \<le> 2 ^ 61" and "list_all plain u"
  shows "\<exists>cur'. splitargs_token junk False False (u @ 0 # z) cur = Some (Some (0 # z, cur')) \<and> sds_rep cur' (w @ u)"
  using assms
proof (induction u arbitrary: cur w)
  case Nil
  have "splitargs_step junk False False (0 # z) cur = Some (Some (False, False, True, 0 # z, cur))"
    by (simp add: splitargs_step_def)
  from splitargs_token_step [OF this] show ?case using Nil.prems(1) by (simp add: Let_def)
next
  case (Cons c u)
  note c = plain_not [of c]
  obtain cur1 where cur1: "sdscatlen junk cur (c # u @ 0 # z) 1 = Some cur1" "sds_rep cur1 (w @ [c])"
    using cat_one [OF Cons.prems(1), of junk c "u @ 0 # z"] Cons.prems(2) by auto
  have st: "splitargs_step junk False False (c # u @ 0 # z) cur = Some (Some (False, False, False, c # u @ 0 # z, cur1))"
    using c Cons.prems(3) cur1(1) by (simp add: splitargs_step_def)
  have "splitargs_token junk False False (c # u @ 0 # z) cur = splitargs_token junk False False (u @ 0 # z) cur1"
    using splitargs_token_step [OF st] c Cons.prems(3) by (simp add: Let_def)
  then show ?case using Cons.IH [OF cur1(2)] Cons.prems(2,3) by auto
qed

lemma splitargs_plain:
  assumes "list_all plain w" and "w \<noteq> []" and "length w \<le> 2 ^ 61"
  shows "\<exists>t. sdssplitargs junk (w @ 0 # z) = Some (Some [t]) \<and> sds_rep t w"
proof -
  obtain c u where w: "w = c # u" using assms(2) by (cases w) auto
  obtain s0 where s0: "sdsempty junk = Some s0" "sds_rep s0 []" using sdsempty_ok by blast
  obtain t where t: "splitargs_token junk False False (w @ 0 # z) s0 = Some (Some (0 # z, t))" "sds_rep t w"
    using token_plain [OF s0(2), of w junk z] assms by auto
  have sb: "skip_blanks (w @ 0 # z) = Some (w @ 0 # z)" using w assms(1) by (simp add: plain_def)
  have "splitargs_loop junk (0 # z) [t] = Some (Some [t])" by (subst splitargs_loop.simps) simp
  moreover have "splitargs_loop junk (w @ 0 # z) [] = splitargs_loop junk (0 # z) [t]"
    using sb t(1) s0(1) w assms(1) by (subst splitargs_loop.simps) (simp add: plain_def)
  ultimately show ?thesis using t(2) by (auto simp: sdssplitargs_def)
qed

lemma inline_line_feed:
  assumes rep: "sds_rep (querybuf c) (w @ 10 # r)" and w: "list_all plain w" "w \<noteq> []" and small: "length (w @ 10 # r) < 2 ^ 61"
  shows "\<exists>c' t. processInlineBuffer junk c = Some (c', True) \<and> frame c c' \<and> argv c' = [t] \<and> sds_val t = w \<and>
    sds_rep (querybuf c') (tl r)"
proof -
  obtain z where z: "buf (querybuf c) = (w @ 10 # r) @ 0 # z" using rep by (auto simp: sds_rep_def)
  have cl: "10 \<notin> set w" "0 \<notin> set w" using w(1) plain_not by (auto simp: list_all_iff)
  have nl: "strchr_from (buf (querybuf c)) 10 = Some (Some (length w))"
    using strchr_hit [OF cl, of "r @ 0 # z"] by (simp add: z)
  have i: "int (length w) - 1 = int (length w - 1)" using w(2) by (cases w) auto
  have lw: "w ! (length w - 1) \<noteq> 13" using w plain_not [of "w ! (length w - 1)"] by (auto simp: list_all_length)
  have r1: "rd (buf (querybuf c)) (int (length w) - 1) = Some (w ! (length w - 1))"
    unfolding i using w(2) by (subst rd_Some) (auto simp: z nth_append)
  have tk: "take (length w) (buf (querybuf c)) = w" by (simp add: z)
  obtain aux where aux: "sdsnewlen junk (Some (buf (querybuf c))) (length w) = Some aux" "sds_rep aux w"
    using sdsnewlen_ok [of "length w" "buf (querybuf c)" junk] small tk by (auto simp: z)
  obtain za where za: "buf aux = w @ 0 # za" using aux(2) by (auto simp: sds_rep_def)
  obtain t where t: "sdssplitargs junk (buf aux) = Some (Some [t])" "sds_rep t w"
    using splitargs_plain [OF w, of junk za] small by (auto simp: za)
  have rv: "range_val (int (length w) + 2) (- 1) (w @ 10 # r) = tl r"
    by (cases r) (auto simp: range_val_def Let_def max_def nat_add_distrib)
  obtain q where q: "sdsrange (querybuf c) (int (length w) + 2) (- 1) = Some q" "sds_rep q (tl r)"
    using sdsrange_ok [OF rep, of "int (length w) + 2" "- 1"] small rv by auto
  have tl: "sdslen t \<noteq> 0" using t(2) w(2) by (simp add: sds_rep_def)
  let ?c = "c\<lparr>querybuf := q, argv_cap := 1, argv := [t]\<rparr>"
  have "processInlineBuffer junk c = Some (?c, True)"
    using nl r1 lw w(2) aux(1) t(1) q(1) tl by (simp add: processInlineBuffer_def Let_def argv_push_def)
  then show ?thesis using t(2) q(2) by (intro exI [of _ ?c] exI [of _ t]) (simp add: frame_def sds_rep_iff)
qed

lemma inline_step:
  assumes rep: "sds_rep (querybuf c) (w @ 10 # r)" and w: "list_all plain w" "w \<noteq> []" "hd w \<noteq> 42" and small: "length (w @ 10 # r) < 2 ^ 61"
    and c: "\<not> blocked c" "\<not> close_after_reply c" "reqtype c = 0" and nb: "\<And>as. \<not> blocks sv as"
  shows "\<exists>c'. processInputBuffer sv junk c = processInputBuffer sv junk c' \<and> sds_rep (querybuf c') (tl r) \<and>
    \<not> blocked c' \<and> \<not> close_after_reply c' \<and> reqtype c' = 0 \<and> executed c' = executed c @ [[w]]"
proof -
  let ?c = "c\<lparr>reqtype := PROTO_REQ_INLINE\<rparr>"
  obtain c1 t where r: "processInlineBuffer junk ?c = Some (c1, True)" "frame ?c c1" "argv c1 = [t]" "sds_val t = w" "sds_rep (querybuf c1) (tl r)"
    using inline_line_feed [of ?c w r junk] rep w small by auto
  have sl: "sdslen (querybuf c) \<noteq> 0" using rep by (simp add: sds_rep_def)
  have rd: "rd (buf (querybuf c)) 0 = Some (hd w)" using rd_hd [OF rep] w(2) by simp
  have "processInputBuffer sv junk c = processInputBuffer sv junk (resetClient (exec_command sv c1))"
    using sl c rd w(3) r(1,3) by (subst processInputBuffer.simps) (simp add: Let_def)
  moreover have "sds_rep (querybuf (resetClient (exec_command sv c1))) (tl r)"
    using r(5) by (simp add: resetClient_def freeClientArgv_def exec_command_def Let_def)
  moreover have "\<not> blocked (resetClient (exec_command sv c1))" "\<not> close_after_reply (resetClient (exec_command sv c1))"
    "reqtype (resetClient (exec_command sv c1)) = 0" "executed (resetClient (exec_command sv c1)) = executed c @ [[w]]"
    using r c nb by (auto simp: resetClient_def freeClientArgv_def exec_command_def Let_def frame_def)
  ultimately show ?thesis by blast
qed

text \<open>Of two inline requests that end in a bare line feed and arrive together, the
  second loses its first byte: the code accepts the line feed alone as the end of a line but
  always skips two bytes.\<close>
lemma inline_line_feed_loses_byte:
  assumes "sds_ok (querybuf c)" and "sds_val (querybuf c) = w1 @ 10 # (x # w2) @ [10]" and "length w1 + length w2 < 2 ^ 60"
    and "list_all plain w1" "w1 \<noteq> []" "hd w1 \<noteq> 42" and "list_all plain w2" "w2 \<noteq> []" "hd w2 \<noteq> 42"
    and "\<not> blocked c" "\<not> close_after_reply c" "reqtype c = 0" and "\<forall>as. \<not> blocks sv as"
  shows "\<exists>c'. processInputBuffer sv junk c = Some c' \<and> executed c' = executed c @ [[w1], [w2]]"
proof -
  have nb: "\<And>as. \<not> blocks sv as" using assms(13) by blast
  have rep: "sds_rep (querybuf c) (w1 @ 10 # (x # w2) @ [10])" using assms(1,2) by (simp add: sds_rep_iff)
  obtain c1 where c1: "processInputBuffer sv junk c = processInputBuffer sv junk c1" "sds_rep (querybuf c1) (w2 @ [10])"
    "\<not> blocked c1" "\<not> close_after_reply c1" "reqtype c1 = 0" "executed c1 = executed c @ [[w1]]"
    using inline_step [OF rep assms(4-6) _ assms(10-12) nb, of junk] assms(3) by auto
  obtain c2 where c2: "processInputBuffer sv junk c1 = processInputBuffer sv junk c2" "sds_rep (querybuf c2) []"
    "executed c2 = executed c1 @ [[w2]]"
    using inline_step [OF c1(2) assms(7-9) _ c1(3-5) nb, of junk] assms(3) by auto
  have "sdslen (querybuf c2) = 0" using c2(2) by (simp add: sds_rep_def)
  then have "processInputBuffer sv junk c2 = Some c2" by (subst processInputBuffer.simps) simp
  then show ?thesis using c1 c2 by simp
qed

end
