(* ===== verification/Adlist.thy ===== *)
theory Adlist
  imports Redis_Prelude
begin

section \<open>Doubly linked lists (adlist.c)\<close>

text \<open>
  The nodes live in a heap: a partial function from addresses to nodes, where an address that is
  not allocated has no node and the NULL pointer is None. Reading or writing through NULL or
  through a freed address gives None. \<open>new\<close> is the allocator: the address that zmalloc returns
  in a heap. The values of the nodes are abstract; \<open>freed\<close> is the sequence of values that were
  handed to the free method of a list. zmalloc does not return NULL, it aborts.
\<close>

record 'a listNode =
  prev :: "nat option"
  nxt :: "nat option"
  val :: 'a

record 'a mem =
  nodes :: "nat \<rightharpoonup> 'a listNode"
  freed :: "'a list"

record 'a adlist =
  head :: "nat option"
  tail :: "nat option"
  dup :: "('a \<Rightarrow> 'a option) option"
  free :: bool \<comment> \<open>whether a free method is set\<close>
  match :: "('a \<Rightarrow> 'a \<Rightarrow> bool) option"
  len :: u64

datatype direction = AL_START_HEAD | AL_START_TAIL

record listIter =
  iter_next :: "nat option"
  direction :: direction

definition malloc :: "('a mem \<Rightarrow> nat) \<Rightarrow> 'a \<Rightarrow> 'a mem \<Rightarrow> nat \<times> 'a mem" where
  \<comment> \<open>a new node with its value; its pointers are not initialised and are stored before they are read\<close>
  "malloc new v m = (new m, m\<lparr>nodes := (nodes m)(new m \<mapsto> \<lparr>prev = None, nxt = None, val = v\<rparr>)\<rparr>)"

definition deref :: "'a mem \<Rightarrow> nat option \<Rightarrow> 'a listNode option" where
  "deref m p = do { a \<leftarrow> p; nodes m a }"

definition set_node :: "nat option \<Rightarrow> ('a listNode \<Rightarrow> 'a listNode) \<Rightarrow> 'a mem \<Rightarrow> 'a mem option" where
  "set_node p f m = do { a \<leftarrow> p; n \<leftarrow> nodes m a; Some (m\<lparr>nodes := (nodes m)(a \<mapsto> f n)\<rparr>) }"

definition set_prev :: "nat option \<Rightarrow> nat option \<Rightarrow> 'a mem \<Rightarrow> 'a mem option" where
  "set_prev p q = set_node p (\<lambda>n. n\<lparr>prev := q\<rparr>)"

definition set_next :: "nat option \<Rightarrow> nat option \<Rightarrow> 'a mem \<Rightarrow> 'a mem option" where
  "set_next p q = set_node p (\<lambda>n. n\<lparr>nxt := q\<rparr>)"

definition zfree :: "nat \<Rightarrow> 'a mem \<Rightarrow> 'a mem option" where
  "zfree a m = (if nodes m a = None then None else Some (m\<lparr>nodes := (nodes m)(a := None)\<rparr>))"

definition free_value :: "'a adlist \<Rightarrow> 'a \<Rightarrow> 'a mem \<Rightarrow> 'a mem" where
  "free_value l v m = (if free l then m\<lparr>freed := freed m @ [v]\<rparr> else m)"

definition listCreate :: "'a adlist" where
  "listCreate = \<lparr>head = None, tail = None, dup = None, free = False, match = None, len = 0\<rparr>"

fun empty_loop :: "'a adlist \<Rightarrow> nat \<Rightarrow> nat option \<Rightarrow> 'a mem \<Rightarrow> 'a mem option" where
  \<comment> \<open>\<open>while(len--)\<close>\<close>
  "empty_loop l 0 current m = Some m"
| "empty_loop l (Suc n) current m = do {
     c \<leftarrow> current;
     node \<leftarrow> nodes m c;
     m \<leftarrow> zfree c (free_value l (val node) m);
     empty_loop l n (nxt node) m }"

definition listEmpty :: "'a adlist \<Rightarrow> 'a mem \<Rightarrow> ('a adlist \<times> 'a mem) option" where
  "listEmpty l m = do {
     m \<leftarrow> empty_loop l (unat (len l)) (head l) m;
     Some (l\<lparr>head := None, tail := None, len := 0\<rparr>, m) }"

definition listRelease :: "'a adlist \<Rightarrow> 'a mem \<Rightarrow> 'a mem option" where
  "listRelease l m = do { (_, m) \<leftarrow> listEmpty l m; Some m }"

definition listAddNodeHead :: "('a mem \<Rightarrow> nat) \<Rightarrow> 'a adlist \<Rightarrow> 'a \<Rightarrow> 'a mem \<Rightarrow> ('a adlist \<times> 'a mem) option" where
  "listAddNodeHead new l v m = do {
     let (node, m) = malloc new v m;
     (l, m) \<leftarrow>
       (if len l = 0 then do {
          let l = l\<lparr>head := Some node, tail := Some node\<rparr>;
          m \<leftarrow> set_next (Some node) None m;
          m \<leftarrow> set_prev (Some node) None m;
          Some (l, m) }
        else do {
          m \<leftarrow> set_prev (Some node) None m;
          m \<leftarrow> set_next (Some node) (head l) m;
          m \<leftarrow> set_prev (head l) (Some node) m;
          Some (l\<lparr>head := Some node\<rparr>, m) });
     Some (l\<lparr>len := len l + 1\<rparr>, m) }"

definition listAddNodeTail :: "('a mem \<Rightarrow> nat) \<Rightarrow> 'a adlist \<Rightarrow> 'a \<Rightarrow> 'a mem \<Rightarrow> ('a adlist \<times> 'a mem) option" where
  "listAddNodeTail new l v m = do {
     let (node, m) = malloc new v m;
     (l, m) \<leftarrow>
       (if len l = 0 then do {
          let l = l\<lparr>head := Some node, tail := Some node\<rparr>;
          m \<leftarrow> set_next (Some node) None m;
          m \<leftarrow> set_prev (Some node) None m;
          Some (l, m) }
        else do {
          m \<leftarrow> set_prev (Some node) (tail l) m;
          m \<leftarrow> set_next (Some node) None m;
          m \<leftarrow> set_next (tail l) (Some node) m;
          Some (l\<lparr>tail := Some node\<rparr>, m) });
     Some (l\<lparr>len := len l + 1\<rparr>, m) }"

definition listInsertNode ::
  "('a mem \<Rightarrow> nat) \<Rightarrow> 'a adlist \<Rightarrow> nat option \<Rightarrow> 'a \<Rightarrow> bool \<Rightarrow> 'a mem \<Rightarrow> ('a adlist \<times> 'a mem) option" where
  "listInsertNode new l old_node v after m = do {
     let (node, m) = malloc new v m;
     (l, m) \<leftarrow>
       (if after then do {
          m \<leftarrow> set_prev (Some node) old_node m;
          o1 \<leftarrow> deref m old_node;
          m \<leftarrow> set_next (Some node) (nxt o1) m;
          Some (if tail l = old_node then l\<lparr>tail := Some node\<rparr> else l, m) }
        else do {
          m \<leftarrow> set_next (Some node) old_node m;
          o1 \<leftarrow> deref m old_node;
          m \<leftarrow> set_prev (Some node) (prev o1) m;
          Some (if head l = old_node then l\<lparr>head := Some node\<rparr> else l, m) });
     n1 \<leftarrow> deref m (Some node);
     m \<leftarrow> (if prev n1 \<noteq> None then set_next (prev n1) (Some node) m else Some m);
     m \<leftarrow> (if nxt n1 \<noteq> None then set_prev (nxt n1) (Some node) m else Some m);
     Some (l\<lparr>len := len l + 1\<rparr>, m) }"

definition listDelNode :: "'a adlist \<Rightarrow> nat option \<Rightarrow> 'a mem \<Rightarrow> ('a adlist \<times> 'a mem) option" where
  "listDelNode l node m = do {
     a \<leftarrow> node;
     n1 \<leftarrow> nodes m a;
     (l, m) \<leftarrow> (if prev n1 \<noteq> None then do { m \<leftarrow> set_next (prev n1) (nxt n1) m; Some (l, m) }
                else Some (l\<lparr>head := nxt n1\<rparr>, m));
     (l, m) \<leftarrow> (if nxt n1 \<noteq> None then do { m \<leftarrow> set_prev (nxt n1) (prev n1) m; Some (l, m) }
                else Some (l\<lparr>tail := prev n1\<rparr>, m));
     m \<leftarrow> zfree a (free_value l (val n1) m);
     Some (l\<lparr>len := len l - 1\<rparr>, m) }"

definition listGetIterator :: "'a adlist \<Rightarrow> direction \<Rightarrow> listIter" where
  "listGetIterator l dir = \<lparr>iter_next = (if dir = AL_START_HEAD then head l else tail l), direction = dir\<rparr>"

definition listRewind :: "'a adlist \<Rightarrow> listIter" where
  "listRewind l = \<lparr>iter_next = head l, direction = AL_START_HEAD\<rparr>"

definition listRewindTail :: "'a adlist \<Rightarrow> listIter" where
  "listRewindTail l = \<lparr>iter_next = tail l, direction = AL_START_TAIL\<rparr>"

definition listNext :: "listIter \<Rightarrow> 'a mem \<Rightarrow> (nat option \<times> listIter) option" where
  "listNext it m = do {
     let current = iter_next it;
     if current \<noteq> None then do {
       n1 \<leftarrow> deref m current;
       Some (current, it\<lparr>iter_next := (if direction it = AL_START_HEAD then nxt n1 else prev n1)\<rparr>) }
     else Some (current, it) }"

partial_function (option) dup_loop ::
  "('a mem \<Rightarrow> nat) \<Rightarrow> listIter \<Rightarrow> 'a adlist \<Rightarrow> 'a mem \<Rightarrow> ('a adlist option \<times> 'a mem) option" where
  "dup_loop new it copy m = do {
     (node, it) \<leftarrow> listNext it m;
     if node = None then Some (Some copy, m)
     else do {
       n1 \<leftarrow> deref m node;
       case (case dup copy of Some d \<Rightarrow> d (val n1) | None \<Rightarrow> Some (val n1)) of
         None \<Rightarrow> do { m \<leftarrow> listRelease copy m; Some (None, m) }
       | Some v \<Rightarrow> do {
           (copy, m) \<leftarrow> listAddNodeTail new copy v m;
           dup_loop new it copy m } } }"

definition listDup :: "('a mem \<Rightarrow> nat) \<Rightarrow> 'a adlist \<Rightarrow> 'a mem \<Rightarrow> ('a adlist option \<times> 'a mem) option" where
  "listDup new orig m =
     dup_loop new (listRewind orig) (listCreate\<lparr>dup := dup orig, free := free orig, match := match orig\<rparr>) m"

partial_function (option) search_loop :: "'a adlist \<Rightarrow> 'a \<Rightarrow> listIter \<Rightarrow> 'a mem \<Rightarrow> nat option option" where
  "search_loop l key it m = do {
     (node, it) \<leftarrow> listNext it m;
     if node = None then Some None
     else do {
       n1 \<leftarrow> deref m node;
       if (case match l of Some f \<Rightarrow> f (val n1) key | None \<Rightarrow> key = val n1) then Some node
       else search_loop l key it m } }"

definition listSearchKey :: "'a adlist \<Rightarrow> 'a \<Rightarrow> 'a mem \<Rightarrow> nat option option" where
  "listSearchKey l key m = search_loop l key (listRewind l) m"

fun walk :: "('a listNode \<Rightarrow> nat option) \<Rightarrow> nat \<Rightarrow> nat option \<Rightarrow> 'a mem \<Rightarrow> nat option option" where
  \<comment> \<open>\<open>while(index-- && n) n = n->next\<close>\<close>
  "walk step 0 n m = Some n"
| "walk step (Suc i) n m =
     (if n = None then Some None else do { n1 \<leftarrow> deref m n; walk step i (step n1) m })"

definition listIndex :: "'a adlist \<Rightarrow> int \<Rightarrow> 'a mem \<Rightarrow> nat option option" where
  "listIndex l index m =
     (if index < 0 then walk prev (nat (- index - 1)) (tail l) m else walk nxt (nat index) (head l) m)"

definition listRotate :: "'a adlist \<Rightarrow> 'a mem \<Rightarrow> ('a adlist \<times> 'a mem) option" where
  "listRotate l m =
     (if len l \<le> 1 then Some (l, m)
      else do {
        let t = tail l;
        t1 \<leftarrow> deref m t;
        let l = l\<lparr>tail := prev t1\<rparr>;
        m \<leftarrow> set_next (tail l) None m;
        m \<leftarrow> set_prev (head l) t m;
        m \<leftarrow> set_prev t None m;
        m \<leftarrow> set_next t (head l) m;
        Some (l\<lparr>head := t\<rparr>, m) })"

definition listJoin :: "'a adlist \<Rightarrow> 'a adlist \<Rightarrow> 'a mem \<Rightarrow> ('a adlist \<times> 'a adlist \<times> 'a mem) option" where
  "listJoin l o2 m = do {
     m \<leftarrow> (if head o2 \<noteq> None then set_prev (head o2) (tail l) m else Some m);
     (l, m) \<leftarrow> (if tail l \<noteq> None then do { m \<leftarrow> set_next (tail l) (head o2) m; Some (l, m) }
                else Some (l\<lparr>head := head o2\<rparr>, m));
     let l = (if tail o2 \<noteq> None then l\<lparr>tail := tail o2\<rparr> else l);
     let l = l\<lparr>len := len l + len o2\<rparr>;
     Some (l, o2\<lparr>head := None, tail := None, len := 0\<rparr>, m) }"

subsection \<open>Segments of the heap\<close>

definition fst_of :: "(nat \<times> 'a) list \<Rightarrow> nat option \<Rightarrow> nat option" where
  "fst_of xs q = (case xs of [] \<Rightarrow> q | x # _ \<Rightarrow> Some (fst x))"

definition lst_of :: "nat option \<Rightarrow> (nat \<times> 'a) list \<Rightarrow> nat option" where
  "lst_of p xs = (if xs = [] then p else Some (fst (last xs)))"

fun seg :: "(nat \<rightharpoonup> 'a listNode) \<Rightarrow> nat option \<Rightarrow> (nat \<times> 'a) list \<Rightarrow> nat option \<Rightarrow> bool" where
  \<comment> \<open>the addresses and values of a chain of nodes between two pointers\<close>
  "seg h p [] q \<longleftrightarrow> True"
| "seg h p (x # xs) q \<longleftrightarrow>
     h (fst x) = Some \<lparr>prev = p, nxt = fst_of xs q, val = snd x\<rparr> \<and> seg h (Some (fst x)) xs q"

lemma ends_simps [simp]:
  "fst_of [] q = q" "fst_of (x # xs) q = Some (fst x)" "lst_of p [] = p" "lst_of p (xs @ [x]) = Some (fst x)"
  "fst_of (xs @ ys) q = fst_of xs (fst_of ys q)" "lst_of p (xs @ ys) = lst_of (lst_of p xs) ys"
  "lst_of p (x # xs) = lst_of (Some (fst x)) xs"
  by (auto simp: fst_of_def lst_of_def split: list.splits)

lemma seg_append [simp]: "seg h p (xs @ ys) q \<longleftrightarrow> seg h p xs (fst_of ys q) \<and> seg h (lst_of p xs) ys q"
  by (induction xs arbitrary: p) auto

lemma seg_upd [simp]: "a \<notin> fst ` set xs \<Longrightarrow> seg (h(a := n)) p xs q \<longleftrightarrow> seg h p xs q"
  by (induction xs arbitrary: p) auto

lemma seg_cong: "(\<And>a. a \<in> fst ` set xs \<Longrightarrow> h' a = h a) \<Longrightarrow> seg h' p xs q \<longleftrightarrow> seg h p xs q"
  by (induction xs arbitrary: p) auto

lemma seg_dom: "seg h p xs q \<Longrightarrow> fst ` set xs \<subseteq> dom h"
  by (induction xs arbitrary: p) auto

definition rep :: "'a mem \<Rightarrow> 'a adlist \<Rightarrow> (nat \<times> 'a) list \<Rightarrow> bool" where
  "rep m l xs \<longleftrightarrow> seg (nodes m) None xs None \<and> distinct (map fst xs) \<and> head l = fst_of xs None \<and>
     tail l = lst_of None xs \<and> len l = of_nat (length xs) \<and> length xs < 2 ^ 64"

definition frame :: "nat set \<Rightarrow> 'a mem \<Rightarrow> 'a mem \<Rightarrow> bool" where
  \<comment> \<open>nothing changed outside a set of addresses\<close>
  "frame A m m' \<longleftrightarrow> (\<forall>a. a \<notin> A \<longrightarrow> nodes m' a = nodes m a)"

abbreviation addrs :: "(nat \<times> 'a) list \<Rightarrow> nat set" where
  "addrs xs \<equiv> fst ` set xs"

lemma rep_frame:
  assumes "rep m l xs" and "frame A m m'" and "A \<inter> addrs xs = {}"
  shows "rep m' l xs"
proof -
  have "seg (nodes m') None xs None \<longleftrightarrow> seg (nodes m) None xs None"
    using assms(2,3) by (intro seg_cong) (auto simp: frame_def)
  then show ?thesis using assms(1) by (simp add: rep_def)
qed

lemma adlist_len: "rep m l xs \<Longrightarrow> len l = 0 \<longleftrightarrow> xs = []" "rep m l xs \<Longrightarrow> unat (len l) = length xs"
proof -
  assume r: "rep m l xs"
  then show u: "unat (len l) = length xs" by (simp add: rep_def unat_of_nat take_bit_nat_eq_self)
  then show "len l = 0 \<longleftrightarrow> xs = []" by (metis length_0_conv unat_eq_zero)
qed

lemmas node_ops = set_prev_def set_next_def set_node_def deref_def malloc_def zfree_def Let_def

lemma add_head_ok:
  assumes r: "rep m l xs" and n: "nodes m (new m) = None" and s: "Suc (length xs) < 2 ^ 64"
  shows "\<exists>l' m'. listAddNodeHead new l v m = Some (l', m') \<and> rep m' l' ((new m, v) # xs) \<and>
    frame (insert (new m) (addrs xs)) m m' \<and> freed m' = freed m \<and> dup l' = dup l \<and> free l' = free l \<and> match l' = match l"
proof -
  have f: "new m \<notin> addrs xs" using r n seg_dom [of "nodes m" None xs None] by (auto simp: rep_def)
  show ?thesis
  proof (cases xs)
    case Nil
    then show ?thesis using r f adlist_len(1) [OF r]
      by (simp add: listAddNodeHead_def node_ops rep_def frame_def)
  next
    case (Cons x ys)
    have "len l \<noteq> 0" using adlist_len(1) [OF r] Cons by simp
    then show ?thesis using r f s Cons
      by (auto simp: listAddNodeHead_def node_ops rep_def frame_def fun_upd_twist)
  qed
qed

lemma add_tail_ok:
  assumes r: "rep m l xs" and n: "nodes m (new m) = None" and s: "Suc (length xs) < 2 ^ 64"
  shows "\<exists>l' m'. listAddNodeTail new l v m = Some (l', m') \<and> rep m' l' (xs @ [(new m, v)]) \<and>
    frame (insert (new m) (addrs xs)) m m' \<and> freed m' = freed m \<and> dup l' = dup l \<and> free l' = free l \<and> match l' = match l"
proof -
  have f: "new m \<notin> addrs xs" using r n seg_dom [of "nodes m" None xs None] by (auto simp: rep_def)
  show ?thesis
  proof (cases xs rule: rev_cases)
    case Nil
    then show ?thesis using r f adlist_len(1) [OF r]
      by (simp add: listAddNodeTail_def node_ops rep_def frame_def)
  next
    case (snoc ys x)
    have "len l \<noteq> 0" using adlist_len(1) [OF r] snoc by simp
    then show ?thesis using r f s snoc
      by (auto simp: listAddNodeTail_def node_ops rep_def frame_def fun_upd_twist)
  qed
qed

lemma insert_ok:
  assumes r: "rep m l (ps @ (a, w) # qs)" and n: "nodes m (new m) = None" and s: "Suc (length (ps @ (a, w) # qs)) < 2 ^ 64"
  shows "\<exists>l' m'. listInsertNode new l (Some a) v after m = Some (l', m') \<and>
    rep m' l' (if after then ps @ (a, w) # (new m, v) # qs else ps @ (new m, v) # (a, w) # qs) \<and>
    frame (insert (new m) (addrs (ps @ (a, w) # qs))) m m' \<and> freed m' = freed m \<and>
    dup l' = dup l \<and> free l' = free l \<and> match l' = match l"
proof -
  have f: "new m \<notin> addrs (ps @ (a, w) # qs)"
    using r n seg_dom [of "nodes m" None "ps @ (a, w) # qs" None] by (auto simp: rep_def)
  show ?thesis
  proof (cases after)
    case True
    show ?thesis
    proof (cases qs)
      case Nil
      then show ?thesis using r f s True
        by (auto simp: listInsertNode_def node_ops rep_def frame_def fun_upd_twist image_Un)
    next
      case (Cons c qs')
      moreover have "lst_of (Some (fst c)) qs' \<noteq> Some a" using r Cons by (cases qs' rule: rev_cases) (auto simp: rep_def)
      ultimately show ?thesis using r f s True
        by (auto simp: listInsertNode_def node_ops rep_def frame_def fun_upd_twist image_Un)
    qed
  next
    case False
    show ?thesis
    proof (cases ps rule: rev_cases)
      case Nil
      then show ?thesis using r f s False
        by (auto simp: listInsertNode_def node_ops rep_def frame_def fun_upd_twist image_Un)
    next
      case (snoc ps' c)
      moreover have "fst_of ps' (Some (fst c)) \<noteq> Some a" using r snoc by (cases ps') (auto simp: rep_def)
      ultimately show ?thesis using r f s False
        by (auto simp: listInsertNode_def node_ops rep_def frame_def fun_upd_twist image_Un)
    qed
  qed
qed

lemma del_ok:
  assumes r: "rep m l (ps @ (a, v) # qs)"
  shows "\<exists>l' m'. listDelNode l (Some a) m = Some (l', m') \<and> rep m' l' (ps @ qs) \<and>
    frame (addrs (ps @ (a, v) # qs)) m m' \<and> nodes m' a = None \<and> freed m' = freed m @ (if free l then [v] else []) \<and>
    free l' = free l \<and> match l' = match l \<and> dup l' = dup l"
proof (cases ps rule: rev_cases)
  case Nil
  then show ?thesis using r
    by (cases qs) (auto simp: listDelNode_def node_ops rep_def frame_def free_value_def fun_upd_twist)
next
  case (snoc ps' b)
  then show ?thesis using r
    by (cases qs) (auto simp: listDelNode_def node_ops rep_def frame_def free_value_def fun_upd_twist)
qed

lemma empty_loop_ok:
  "seg (nodes m) p xs None \<Longrightarrow> distinct (map fst xs) \<Longrightarrow>
   \<exists>m'. empty_loop l (length xs) (fst_of xs None) m = Some m' \<and> frame (addrs xs) m m' \<and>
     (\<forall>a \<in> addrs xs. nodes m' a = None) \<and> freed m' = freed m @ (if free l then map snd xs else [])"
proof (induction xs arbitrary: m p)
  case (Cons x xs)
  let ?m1 = "free_value l (snd x) m" let ?m2 = "?m1\<lparr>nodes := (nodes m)(fst x := None)\<rparr>"
  have s: "seg (nodes ?m2) (Some (fst x)) xs None" using Cons.prems by simp
  obtain m' where m': "empty_loop l (length xs) (fst_of xs None) ?m2 = Some m'" "frame (addrs xs) ?m2 m'"
    "\<forall>a \<in> addrs xs. nodes m' a = None" "freed m' = freed ?m2 @ (if free l then map snd xs else [])"
    using Cons.IH [OF s] Cons.prems by auto
  have z: "zfree (fst x) ?m1 = Some ?m2" using Cons.prems by (simp add: zfree_def free_value_def)
  have "nodes m' (fst x) = None" using m'(2) Cons.prems by (auto simp: frame_def)
  then show ?case using m' z Cons.prems by (auto simp: frame_def free_value_def)
qed (simp add: frame_def)

lemma listEmpty_ok:
  assumes r: "rep m l xs"
  shows "\<exists>l' m'. listEmpty l m = Some (l', m') \<and> rep m' l' [] \<and> frame (addrs xs) m m' \<and> (\<forall>a \<in> addrs xs. nodes m' a = None) \<and>
    freed m' = freed m @ (if free l then map snd xs else []) \<and> free l' = free l \<and> match l' = match l \<and> dup l' = dup l"
proof -
  obtain m' where m': "empty_loop l (length xs) (fst_of xs None) m = Some m'" "frame (addrs xs) m m'"
    "\<forall>a \<in> addrs xs. nodes m' a = None" "freed m' = freed m @ (if free l then map snd xs else [])"
    using empty_loop_ok [of m None xs l] r by (auto simp: rep_def)
  have "listEmpty l m = Some (l\<lparr>head := None, tail := None, len := 0\<rparr>, m')"
    using m'(1) r adlist_len(2) [OF r] by (simp add: listEmpty_def rep_def)
  moreover have "rep m' (l\<lparr>head := None, tail := None, len := 0\<rparr>) []" by (simp add: rep_def)
  ultimately show ?thesis using m' by auto
qed

lemma rotate_ok:
  assumes r: "rep m l xs"
  shows "\<exists>l' m'. listRotate l m = Some (l', m') \<and> rep m' l' (if xs = [] then [] else last xs # butlast xs) \<and>
    frame (addrs xs) m m' \<and> freed m' = freed m \<and> free l' = free l \<and> match l' = match l \<and> dup l' = dup l"
proof (cases "length xs \<le> 1")
  case True
  then have "len l \<le> 1" using adlist_len(2) [OF r] by (simp add: word_le_nat_alt)
  moreover have "(if xs = [] then [] else last xs # butlast xs) = xs" using True by (cases xs) auto
  ultimately show ?thesis using r by (simp add: listRotate_def frame_def)
next
  case False
  then obtain x ys b where xs: "xs = x # ys @ [b]" by (cases xs; cases "tl xs" rule: rev_cases) auto
  have big: "\<not> len l \<le> 1" using adlist_len(2) [OF r] False by (simp add: word_le_nat_alt)
  have ne: "fst b \<noteq> fst x" using r by (auto simp: rep_def xs)
  have bl: "(if xs = [] then [] else last xs # butlast xs) = b # x # ys" by (simp add: xs butlast_append)
  have "\<exists>l' m'. listRotate l m = Some (l', m') \<and> rep m' l' (b # x # ys) \<and>
    frame (addrs xs) m m' \<and> freed m' = freed m \<and> free l' = free l \<and> match l' = match l \<and> dup l' = dup l"
  proof (cases ys rule: rev_cases)
    case Nil
    then show ?thesis using r ne big
      by (auto simp: xs listRotate_def node_ops rep_def frame_def)
  next
    case (snoc zs c)
    then show ?thesis using r ne big
      by (auto simp: xs listRotate_def node_ops rep_def frame_def)
  qed
  then show ?thesis by (simp only: bl)
qed

lemma listJoin_ok:
  assumes r: "rep m l xs" and r2: "rep m o2 ys" and d: "addrs xs \<inter> addrs ys = {}" and s: "length xs + length ys < 2 ^ 64"
  shows "\<exists>l' o' m'. listJoin l o2 m = Some (l', o', m') \<and> rep m' l' (xs @ ys) \<and> rep m' o' [] \<and>
    frame (addrs (xs @ ys)) m m' \<and> freed m' = freed m \<and>
    dup l' = dup l \<and> free l' = free l \<and> match l' = match l \<and> dup o' = dup o2 \<and> free o' = free o2 \<and> match o' = match o2"
proof (cases ys)
  case Nil
  then show ?thesis using r r2 s
    by (cases xs rule: rev_cases) (auto simp: listJoin_def node_ops rep_def frame_def)
next
  case (Cons y ys')
  then show ?thesis using r r2 s d
    by (cases xs rule: rev_cases; cases ys' rule: rev_cases)
      (auto simp: listJoin_def node_ops rep_def frame_def)
qed


subsection \<open>Walking through a list\<close>

lemma walk_next_ok:
  "seg (nodes m) p xs None \<Longrightarrow> walk nxt i (fst_of xs None) m = Some (if i < length xs then Some (fst (xs ! i)) else None)"
proof (induction xs arbitrary: p i)
  case Nil
  then show ?case by (cases i) auto
next
  case (Cons x xs)
  then show ?case by (cases i) (auto simp: deref_def)
qed

lemma walk_prev_ok:
  "seg (nodes m) None xs q \<Longrightarrow> walk prev i (lst_of None xs) m =
     Some (if i < length xs then Some (fst (xs ! (length xs - 1 - i))) else None)"
proof (induction xs arbitrary: q i rule: rev_induct)
  case Nil
  then show ?case by (cases i) auto
next
  case (snoc x xs)
  then show ?case by (cases i) (auto simp: deref_def nth_append)
qed

definition list_pos :: "int \<Rightarrow> nat \<Rightarrow> nat option" where
  \<comment> \<open>which position an index means: from the end if it is negative\<close>
  "list_pos i n = (let j = (if i < 0 then int n + i else i) in if 0 \<le> j \<and> j < int n then Some (nat j) else None)"

lemma listIndex_ok:
  assumes r: "rep m l xs"
  shows "listIndex l i m = Some (map_option (\<lambda>k. fst (xs ! k)) (list_pos i (length xs)))"
proof (cases "i < 0")
  case True
  have e: "length xs - 1 - nat (- i - 1) = nat (int (length xs) + i)"
    "nat (- i - 1) < length xs \<longleftrightarrow> 0 \<le> int (length xs) + i" using True by linarith+
  show ?thesis using True walk_prev_ok [of m xs None "nat (- i - 1)"] r e
    by (auto simp: listIndex_def list_pos_def rep_def Let_def)
next
  case False
  then show ?thesis using walk_next_ok [of m None xs "nat i"] r
    by (auto simp: listIndex_def list_pos_def rep_def)
qed

definition matches :: "'a adlist \<Rightarrow> 'a \<Rightarrow> 'a \<Rightarrow> bool" where
  "matches l key v = (case match l of Some f \<Rightarrow> f v key | None \<Rightarrow> key = v)"

lemma search_loop_ok:
  "seg (nodes m) p xs None \<Longrightarrow> search_loop l key \<lparr>iter_next = fst_of xs None, direction = AL_START_HEAD\<rparr> m =
     Some (map_option fst (List.find (\<lambda>x. matches l key (snd x)) xs))"
proof (induction xs arbitrary: p)
  case Nil
  show ?case by (subst search_loop.simps) (simp add: listNext_def)
next
  case (Cons x xs)
  then show ?case by (subst search_loop.simps; cases "match l") (auto simp: listNext_def deref_def matches_def)
qed

lemma listSearchKey_ok:
  "rep m l xs \<Longrightarrow> listSearchKey l key m = Some (map_option fst (List.find (\<lambda>x. matches l key (snd x)) xs))"
  using search_loop_ok [of m None xs l key] by (simp add: listSearchKey_def listRewind_def rep_def)

lemma next_after_delete:
  \<comment> \<open>an iterator survives the deletion of the node it returned\<close>
  assumes r: "rep m l (ps @ (a, v) # qs)"
    and it: "listNext \<lparr>iter_next = Some a, direction = AL_START_HEAD\<rparr> m = Some (Some a, it)"
  shows "it = \<lparr>iter_next = fst_of qs None, direction = AL_START_HEAD\<rparr>"
  using r it by (auto simp: listNext_def deref_def rep_def)


subsection \<open>Copies\<close>

fun dup_values :: "('a \<Rightarrow> 'a option) option \<Rightarrow> 'a list \<Rightarrow> 'a list \<times> bool" where
  \<comment> \<open>the values copied, and whether all of them were\<close>
  "dup_values d [] = ([], True)"
| "dup_values d (v # vs) =
     (case (case d of Some f \<Rightarrow> f v | None \<Rightarrow> Some v) of
        None \<Rightarrow> ([], False)
      | Some w \<Rightarrow> (case dup_values d vs of (ws, ok) \<Rightarrow> (w # ws, ok)))"

definition dup_post :: "'a mem \<Rightarrow> 'a adlist \<Rightarrow> (nat \<times> 'a) list \<Rightarrow> 'a list \<times> bool \<Rightarrow> 'a adlist option \<Rightarrow> 'a mem \<Rightarrow> bool" where
  \<comment> \<open>copying is finished: the copy has its old elements \<open>ys\<close> and the new ones, or it is gone\<close>
  "dup_post m copy ys vals r m' \<longleftrightarrow> (\<forall>a \<in> dom (nodes m) - addrs ys. nodes m' a = nodes m a) \<and>
     (if snd vals
      then \<exists>c zs. r = Some c \<and> rep m' c (ys @ zs) \<and> map snd zs = fst vals \<and> addrs zs \<inter> dom (nodes m) = {} \<and>
        dom (nodes m') = dom (nodes m) \<union> addrs zs \<and> freed m' = freed m \<and>
        free c = free copy \<and> match c = match copy \<and> dup c = dup copy
      else r = None \<and> dom (nodes m') = dom (nodes m) - addrs ys \<and>
        freed m' = freed m @ (if free copy then map snd ys @ fst vals else []))"

lemma rep_dom: "rep m l xs \<Longrightarrow> addrs xs \<subseteq> dom (nodes m)"
  using seg_dom [of "nodes m" None xs None] by (simp add: rep_def)

lemma frame_dom:
  assumes "frame A m m'" and "\<And>a. a \<in> A \<Longrightarrow> nodes m' a \<noteq> None \<longleftrightarrow> a \<in> B" and "B \<subseteq> A"
  shows "dom (nodes m') = (dom (nodes m) - A) \<union> B"
proof (rule set_eqI)
  fix a
  show "a \<in> dom (nodes m') \<longleftrightarrow> a \<in> (dom (nodes m) - A) \<union> B"
    using assms(1,3) assms(2) [of a] by (cases "a \<in> A") (auto simp: frame_def)
qed

lemma dup_post_step:
  assumes fr: "frame (insert p (addrs ys)) m m1" and r1: "rep m1 c1 (ys @ [(p, v)])" and p: "p \<notin> dom (nodes m)"
    and ys: "addrs ys \<subseteq> dom (nodes m)" and c1: "dup c1 = dup copy" "free c1 = free copy" "match c1 = match copy" "freed m1 = freed m"
    and post: "dup_post m1 c1 (ys @ [(p, v)]) (ws, ok) r m'"
  shows "dup_post m copy ys (v # ws, ok) r m'"
proof -
  have "addrs (ys @ [(p, v)]) \<subseteq> dom (nodes m1)" using rep_dom [OF r1] .
  then have "nodes m1 a \<noteq> None \<longleftrightarrow> a \<in> insert p (addrs ys)" if "a \<in> insert p (addrs ys)" for a using that by auto
  then have d1: "dom (nodes m1) = insert p (dom (nodes m))"
    using frame_dom [OF fr, of "insert p (addrs ys)"] ys by auto
  have same: "nodes m1 a = nodes m a" if "a \<in> dom (nodes m) - addrs ys" for a
    using fr that p by (auto simp: frame_def)
  have keep: "\<forall>a \<in> dom (nodes m) - addrs ys. nodes m' a = nodes m a"
  proof
    fix a assume a: "a \<in> dom (nodes m) - addrs ys"
    then have "a \<in> dom (nodes m1) - addrs (ys @ [(p, v)])" using d1 p by auto
    then have "nodes m' a = nodes m1 a" using post unfolding dup_post_def by blast
    then show "nodes m' a = nodes m a" using same [OF a] by simp
  qed
  show ?thesis
  proof (cases ok)
    case True
    obtain c zs where z: "r = Some c" "rep m' c (ys @ (p, v) # zs)" "map snd zs = ws" "addrs zs \<inter> dom (nodes m1) = {}"
        "dom (nodes m') = dom (nodes m1) \<union> addrs zs" "freed m' = freed m" "free c = free copy" "match c = match copy" "dup c = dup copy"
      using post True c1 by (auto simp: dup_post_def)
    then show ?thesis using True keep d1 p unfolding dup_post_def
      by (simp only: snd_conv if_True) (rule conjI, rule keep, rule exI [of _ c], rule exI [of _ "(p, v) # zs"], auto)
  next
    case False
    then show ?thesis using post keep d1 p c1 ys by (auto simp: dup_post_def)
  qed
qed

lemma dup_loop_ok:
  assumes fresh: "\<And>m'. finite (dom (nodes m')) \<Longrightarrow> nodes m' (new m') = None"
  shows "seg (nodes m) p xs None \<Longrightarrow> rep m copy ys \<Longrightarrow> addrs xs \<inter> addrs ys = {} \<Longrightarrow> finite (dom (nodes m)) \<Longrightarrow>
    length xs + length ys < 2 ^ 64 \<Longrightarrow>
    \<exists>r m'. dup_loop new \<lparr>iter_next = fst_of xs None, direction = AL_START_HEAD\<rparr> copy m = Some (r, m') \<and>
      dup_post m copy ys (dup_values (dup copy) (map snd xs)) r m'"
proof (induction xs arbitrary: p copy ys m)
  case Nil
  show ?case
    by (subst dup_loop.simps) (use Nil in \<open>auto simp: listNext_def dup_post_def intro!: exI [of _ "[]"]\<close>)
next
  case (Cons x xs)
  let ?it = "\<lparr>iter_next = fst_of xs None, direction = AL_START_HEAD\<rparr>"
  have nx: "listNext \<lparr>iter_next = Some (fst x), direction = AL_START_HEAD\<rparr> m = Some (Some (fst x), ?it)"
    and dx: "deref m (Some (fst x)) = Some \<lparr>prev = p, nxt = fst_of xs None, val = snd x\<rparr>"
    using Cons.prems(1) by (simp_all add: listNext_def deref_def)
  define w where "w = (case dup copy of Some d \<Rightarrow> d (snd x) | None \<Rightarrow> Some (snd x))"
  have wx: "(case dup copy of Some d \<Rightarrow> d (val \<lparr>prev = p, nxt = fst_of xs None, val = snd x\<rparr>)
      | None \<Rightarrow> Some (val \<lparr>prev = p, nxt = fst_of xs None, val = snd x\<rparr>)) = w"
    by (simp add: w_def split: option.split)
  show ?case
  proof (cases w)
    case None
    obtain l' m' where e: "listEmpty copy m = Some (l', m')" "frame (addrs ys) m m'" "\<forall>a \<in> addrs ys. nodes m' a = None"
      "freed m' = freed m @ (if free copy then map snd ys else [])"
      using listEmpty_ok [OF Cons.prems(2)] by blast
    have "dup_loop new \<lparr>iter_next = fst_of (x # xs) None, direction = AL_START_HEAD\<rparr> copy m = Some (None, m')"
      using None e(1) by (subst dup_loop.simps) (simp add: nx dx wx listRelease_def)
    moreover have "dom (nodes m') = dom (nodes m) - addrs ys" using frame_dom [OF e(2), of "{}"] e(3) by simp
    moreover have "dup_values (dup copy) (map snd (x # xs)) = ([], False)" using None by (simp add: w_def)
    ultimately show ?thesis using e(2,4) by (simp add: dup_post_def frame_def)
  next
    case (Some v)
    have n: "nodes m (new m) = None" using fresh [OF Cons.prems(4)] .
    obtain c1 m1 where a: "listAddNodeTail new copy v m = Some (c1, m1)" "rep m1 c1 (ys @ [(new m, v)])"
      "frame (insert (new m) (addrs ys)) m m1" "freed m1 = freed m" "dup c1 = dup copy" "free c1 = free copy" "match c1 = match copy"
      using add_tail_ok [of m copy ys new v, OF Cons.prems(2) n] Cons.prems(5) by auto
    have xd: "addrs (x # xs) \<subseteq> dom (nodes m)" using seg_dom [OF Cons.prems(1)] .
    have away: "b \<notin> insert (new m) (addrs ys)" if "b \<in> addrs xs" for b using that xd n Cons.prems(3) by (auto simp: domIff)
    then have "seg (nodes m1) (Some (fst x)) xs None \<longleftrightarrow> seg (nodes m) (Some (fst x)) xs None"
      using a(3) by (intro seg_cong) (auto simp: frame_def)
    then have s1: "seg (nodes m1) (Some (fst x)) xs None" using Cons.prems(1) by simp
    have "dom (nodes m1) \<subseteq> insert (new m) (addrs ys) \<union> dom (nodes m)" using a(3) by (auto simp: frame_def dom_def)
    then have f1: "finite (dom (nodes m1))" using Cons.prems(4) finite_subset by fastforce
    obtain r m' where IH: "dup_loop new ?it c1 m1 = Some (r, m')"
      "dup_post m1 c1 (ys @ [(new m, v)]) (dup_values (dup copy) (map snd xs)) r m'"
      using Cons.IH [OF s1 a(2) _ f1] away Cons.prems(5) a(5) by auto
    have "dup_loop new \<lparr>iter_next = fst_of (x # xs) None, direction = AL_START_HEAD\<rparr> copy m = Some (r, m')"
      using Some IH(1) a(1) by (subst dup_loop.simps) (simp add: nx dx wx)
    moreover obtain ws ok where vals: "dup_values (dup copy) (map snd xs) = (ws, ok)" by fastforce
    then have "dup_post m copy ys (v # ws, ok) r m'"
      using dup_post_step [OF a(3,2) _ rep_dom [OF Cons.prems(2)] a(5,6,7,4)] n IH(2) by auto
    moreover have "dup_values (dup copy) (map snd (x # xs)) = (v # ws, ok)" using Some vals by (simp add: w_def)
    ultimately show ?thesis by metis
  qed
qed

lemma listDup_ok:
  assumes "\<And>m'. finite (dom (nodes m')) \<Longrightarrow> nodes m' (new m') = None" and "rep m l xs" and "finite (dom (nodes m))"
  shows "\<exists>r m'. listDup new l m = Some (r, m') \<and> dup_post m l [] (dup_values (dup l) (map snd xs)) r m'"
proof -
  let ?c = "listCreate\<lparr>dup := dup l, free := free l, match := match l\<rparr>"
  have "rep m ?c []" by (simp add: rep_def listCreate_def)
  moreover have "dup_post m ?c [] v r m' = dup_post m l [] v r m'" for v r m' by (simp add: dup_post_def)
  ultimately show ?thesis using dup_loop_ok [OF assms(1), of m None xs ?c "[]"] assms(2,3)
    by (simp add: listDup_def listRewind_def rep_def)
qed


subsection \<open>Two lists in one heap\<close>

text \<open>A program with two lists that share a heap: it edits the first one, exchanges them, joins
  them and copies the first into the second. Both have the methods of a template \<open>t\<close>.\<close>

datatype 'a list_op = AddHead 'a | AddTail 'a | Insert int 'a bool | Del int | DelKey 'a | Rotate | Empty | Swap | Join | Dup

type_synonym 'a pool = "'a mem \<times> 'a adlist \<times> 'a adlist"

fun list_step :: "('a mem \<Rightarrow> nat) \<Rightarrow> 'a adlist \<Rightarrow> 'a list_op \<Rightarrow> 'a pool \<Rightarrow> 'a pool option" where
  "list_step new t (AddHead v) (m, a, b) = do { (a, m) \<leftarrow> listAddNodeHead new a v m; Some (m, a, b) }"
| "list_step new t (AddTail v) (m, a, b) = do { (a, m) \<leftarrow> listAddNodeTail new a v m; Some (m, a, b) }"
| "list_step new t (Insert i v after) (m, a, b) = do {
     n \<leftarrow> listIndex a i m;
     if n = None then Some (m, a, b) else do { (a, m) \<leftarrow> listInsertNode new a n v after m; Some (m, a, b) } }"
| "list_step new t (Del i) (m, a, b) = do {
     n \<leftarrow> listIndex a i m;
     if n = None then Some (m, a, b) else do { (a, m) \<leftarrow> listDelNode a n m; Some (m, a, b) } }"
| "list_step new t (DelKey k) (m, a, b) = do {
     n \<leftarrow> listSearchKey a k m;
     if n = None then Some (m, a, b) else do { (a, m) \<leftarrow> listDelNode a n m; Some (m, a, b) } }"
| "list_step new t Rotate (m, a, b) = do { (a, m) \<leftarrow> listRotate a m; Some (m, a, b) }"
| "list_step new t Empty (m, a, b) = do { (a, m) \<leftarrow> listEmpty a m; Some (m, a, b) }"
| "list_step new t Swap (m, a, b) = Some (m, b, a)"
| "list_step new t Join (m, a, b) = do { (a, b, m) \<leftarrow> listJoin a b m; Some (m, a, b) }"
| "list_step new t Dup (m, a, b) = do {
     m \<leftarrow> listRelease b m;
     (r, m) \<leftarrow> listDup new a m;
     Some (m, a, case r of Some c \<Rightarrow> c | None \<Rightarrow> t) }"

definition insert_at :: "nat \<Rightarrow> 'a \<Rightarrow> 'a list \<Rightarrow> 'a list" where
  "insert_at k v xs = take k xs @ v # drop k xs"

definition remove_at :: "nat \<Rightarrow> 'a list \<Rightarrow> 'a list" where
  "remove_at k xs = take k xs @ drop (Suc k) xs"

definition find_pos :: "('a \<Rightarrow> bool) \<Rightarrow> 'a list \<Rightarrow> nat option" where
  "find_pos P xs = (let k = length (takeWhile (\<lambda>x. \<not> P x) xs) in if k < length xs then Some k else None)"

definition drop_value :: "'a adlist \<Rightarrow> nat option \<Rightarrow> 'a list \<times> 'a list \<times> 'a list \<Rightarrow> 'a list \<times> 'a list \<times> 'a list" where
  "drop_value t k s = (case s of (xs, ys, fs) \<Rightarrow>
     case k of None \<Rightarrow> s | Some k \<Rightarrow> (remove_at k xs, ys, fs @ (if free t then [xs ! k] else [])))"

fun spec_step :: "'a adlist \<Rightarrow> 'a list_op \<Rightarrow> 'a list \<times> 'a list \<times> 'a list \<Rightarrow> 'a list \<times> 'a list \<times> 'a list" where
  \<comment> \<open>the same program on lists; the third component is the log of freed values\<close>
  "spec_step t (AddHead v) (xs, ys, fs) = (v # xs, ys, fs)"
| "spec_step t (AddTail v) (xs, ys, fs) = (xs @ [v], ys, fs)"
| "spec_step t (Insert i v after) (xs, ys, fs) =
     (case list_pos i (length xs) of None \<Rightarrow> (xs, ys, fs)
      | Some k \<Rightarrow> (insert_at (if after then Suc k else k) v xs, ys, fs))"
| "spec_step t (Del i) (xs, ys, fs) = drop_value t (list_pos i (length xs)) (xs, ys, fs)"
| "spec_step t (DelKey k) (xs, ys, fs) = drop_value t (find_pos (matches t k) xs) (xs, ys, fs)"
| "spec_step t Rotate (xs, ys, fs) = ((if xs = [] then [] else last xs # butlast xs), ys, fs)"
| "spec_step t Empty (xs, ys, fs) = ([], ys, fs @ (if free t then xs else []))"
| "spec_step t Swap (xs, ys, fs) = (ys, xs, fs)"
| "spec_step t Join (xs, ys, fs) = (xs @ ys, [], fs)"
| "spec_step t Dup (xs, ys, fs) =
     (let fs = fs @ (if free t then ys else []); (ws, ok) = dup_values (dup t) xs in
      if ok then (xs, ws, fs) else (xs, [], fs @ (if free t then ws else [])))"

definition methods :: "'a adlist \<Rightarrow> 'a adlist \<Rightarrow> bool" where
  "methods t l \<longleftrightarrow> dup l = dup t \<and> free l = free t \<and> match l = match t"

definition pool_rep :: "'a adlist \<Rightarrow> 'a pool \<Rightarrow> (nat \<times> 'a) list \<Rightarrow> (nat \<times> 'a) list \<Rightarrow> bool" where
  \<comment> \<open>the nodes of the two lists are all the nodes that are allocated\<close>
  "pool_rep t s xs ys \<longleftrightarrow> (case s of (m, a, b) \<Rightarrow>
     rep m a xs \<and> rep m b ys \<and> addrs xs \<inter> addrs ys = {} \<and> dom (nodes m) = addrs xs \<union> addrs ys \<and> methods t a \<and> methods t b)"

lemma pool_step:
  assumes p: "pool_rep t (m, a, b) xs ys" and r: "rep m' a' xs'" and f: "frame A m m'" and m: "methods t a'"
    and A: "addrs xs \<subseteq> A" "addrs xs' \<subseteq> A" "A \<inter> addrs ys = {}" and gone: "\<And>x. x \<in> A \<Longrightarrow> x \<notin> addrs xs' \<Longrightarrow> nodes m' x = None"
  shows "pool_rep t (m', a', b) xs' ys"
proof -
  have "nodes m' x \<noteq> None \<longleftrightarrow> x \<in> addrs xs'" if "x \<in> A" for x using gone [OF that] rep_dom [OF r] by (cases "x \<in> addrs xs'") auto
  then have "dom (nodes m') = (dom (nodes m) - A) \<union> addrs xs'" using frame_dom [OF f _ A(2)] by blast
  then have "dom (nodes m') = addrs xs' \<union> addrs ys" using p A by (auto simp: pool_rep_def)
  moreover have "rep m' b ys" using p rep_frame [OF _ f A(3)] by (simp add: pool_rep_def)
  moreover have "addrs xs' \<inter> addrs ys = {}" using A by blast
  ultimately show ?thesis using p r m by (simp add: pool_rep_def)
qed

definition simulated ::
  "('a mem \<Rightarrow> nat) \<Rightarrow> 'a adlist \<Rightarrow> 'a list_op \<Rightarrow> 'a pool \<Rightarrow> (nat \<times> 'a) list \<Rightarrow> (nat \<times> 'a) list \<Rightarrow> bool" where
  "simulated new t oper s xs ys \<longleftrightarrow> (\<exists>s' xs' ys'. list_step new t oper s = Some s' \<and> pool_rep t s' xs' ys' \<and>
     (map snd xs', map snd ys', freed (fst s')) = spec_step t oper (map snd xs, map snd ys, freed (fst s)))"

lemma find_pos_find:
  "map_option fst (List.find (\<lambda>x. P (snd x)) xs) = map_option (\<lambda>k. fst (xs ! k)) (find_pos P (map snd xs))"
proof (induction xs)
  case (Cons x xs)
  then show ?case by (cases "P (snd x)") (auto simp: find_pos_def Let_def split: if_splits)
qed (simp add: find_pos_def)

lemma find_pos_less: "find_pos P xs = Some k \<Longrightarrow> k < length xs"
  by (simp add: find_pos_def Let_def split: if_splits)

lemma list_pos_less: "list_pos i n = Some k \<Longrightarrow> k < n"
  by (auto simp: list_pos_def Let_def split: if_splits)

lemma pool_len:
  assumes "pool_rep t (m, a, b) xs ys"
  shows "finite (dom (nodes m))" "rep m a xs" "rep m b ys" "methods t a" "addrs xs \<inter> addrs ys = {}" "dom (nodes m) = addrs xs \<union> addrs ys"
  using assms by (simp_all add: pool_rep_def)

lemma pool_fresh:
  assumes "pool_rep t (m, a, b) xs ys" and "nodes m p = None"
  shows "insert p (addrs xs) \<inter> addrs ys = {}"
proof -
  have "p \<notin> dom (nodes m)" using assms(2) by auto
  then show ?thesis using pool_len(5,6) [OF assms(1)] by auto
qed

lemma map_snd_remove_at: "map snd (take k xs @ drop (Suc k) xs) = remove_at k (map snd xs)"
  by (simp add: remove_at_def take_map drop_map)

lemma delete_pos_ok:
  assumes p: "pool_rep t (m, a, b) xs ys" and k: "k < length xs"
  shows "\<exists>a' m'. listDelNode a (Some (fst (xs ! k))) m = Some (a', m') \<and>
    pool_rep t (m', a', b) (take k xs @ drop (Suc k) xs) ys \<and> freed m' = freed m @ (if free t then [snd (xs ! k)] else [])"
proof -
  define ps qs x where "ps = take k xs" and "qs = drop (Suc k) xs" and "x = xs ! k"
  have xs: "xs = ps @ (fst x, snd x) # qs" using k by (simp add: id_take_nth_drop ps_def qs_def x_def)
  obtain a' m' where d: "listDelNode a (Some (fst x)) m = Some (a', m')" "rep m' a' (ps @ qs)"
    "frame (addrs xs) m m'" "nodes m' (fst x) = None" "freed m' = freed m @ (if free a then [snd x] else [])"
    "free a' = free a" "match a' = match a" "dup a' = dup a"
    using del_ok [of m a ps "fst x" "snd x" qs, folded xs, OF pool_len(2) [OF p]] by blast
  have sub: "addrs xs = insert (fst x) (addrs (ps @ qs))" by (subst xs) auto
  have "pool_rep t (m', a', b) (ps @ qs) ys"
    by (rule pool_step [OF p d(2) d(3)]) (use d(4-8) pool_len(4,5) [OF p] sub in \<open>auto simp: methods_def\<close>)
  then show ?thesis using d pool_len(4) [OF p] by (simp add: methods_def ps_def qs_def x_def)
qed

lemma delete_simulated:
  assumes p: "pool_rep t (m, a, b) xs ys" and k: "\<And>i. k = Some i \<Longrightarrow> i < length xs"
  shows "\<exists>s' xs' ys'. (if map_option (\<lambda>k. fst (xs ! k)) k = None then Some (m, a, b)
      else do { (a, m) \<leftarrow> listDelNode a (map_option (\<lambda>k. fst (xs ! k)) k) m; Some (m, a, b) }) = Some s' \<and> pool_rep t s' xs' ys' \<and>
    (map snd xs', map snd ys', freed (fst s')) = drop_value t k (map snd xs, map snd ys, freed m)"
proof (cases k)
  case None
  then show ?thesis using p by (auto simp: drop_value_def)
next
  case (Some i)
  obtain a' m' where d: "listDelNode a (Some (fst (xs ! i))) m = Some (a', m')"
    "pool_rep t (m', a', b) (take i xs @ drop (Suc i) xs) ys" "freed m' = freed m @ (if free t then [snd (xs ! i)] else [])"
    using delete_pos_ok [OF p k [OF Some]] by blast
  show ?thesis
    by (rule exI [of _ "(m', a', b)"], rule exI [of _ "take i xs @ drop (Suc i) xs"], rule exI [of _ ys])
      (use Some d k [OF Some] in \<open>simp add: drop_value_def map_snd_remove_at del: map_append\<close>)
qed

lemma add_simulated:
  assumes fresh: "\<And>m'. finite (dom (nodes m')) \<Longrightarrow> nodes m' (new m') = None"
    and p: "pool_rep t (m, a, b) xs ys" and s: "Suc (length xs) < 2 ^ 64"
  shows "simulated new t (AddHead v) (m, a, b) xs ys" "simulated new t (AddTail v) (m, a, b) xs ys"
proof -
  note n = fresh [OF pool_len(1) [OF p]] and r = pool_len(2) [OF p]
  have f: "insert (new m) (addrs xs) \<inter> addrs ys = {}" by (rule pool_fresh [OF p n])
  obtain a1 m1 where h: "listAddNodeHead new a v m = Some (a1, m1)" "rep m1 a1 ((new m, v) # xs)"
    "frame (insert (new m) (addrs xs)) m m1" "freed m1 = freed m" "dup a1 = dup a" "free a1 = free a" "match a1 = match a"
    using add_head_ok [of m a xs new v, OF r n s] by auto
  have "pool_rep t (m1, a1, b) ((new m, v) # xs) ys"
    by (rule pool_step [OF p h(2,3)]) (use h(5-7) f pool_len(4) [OF p] in \<open>auto simp: methods_def\<close>)
  then show "simulated new t (AddHead v) (m, a, b) xs ys" using h(1,4) by (force simp: simulated_def)
  obtain a2 m2 where l: "listAddNodeTail new a v m = Some (a2, m2)" "rep m2 a2 (xs @ [(new m, v)])"
    "frame (insert (new m) (addrs xs)) m m2" "freed m2 = freed m" "dup a2 = dup a" "free a2 = free a" "match a2 = match a"
    using add_tail_ok [of m a xs new v, OF r n s] by auto
  have "pool_rep t (m2, a2, b) (xs @ [(new m, v)]) ys"
    by (rule pool_step [OF p l(2,3)]) (use l(5-7) f pool_len(4) [OF p] in \<open>auto simp: methods_def\<close>)
  then show "simulated new t (AddTail v) (m, a, b) xs ys" using l(1,4) by (force simp: simulated_def)
qed

lemma insert_simulated:
  assumes fresh: "\<And>m'. finite (dom (nodes m')) \<Longrightarrow> nodes m' (new m') = None"
    and p: "pool_rep t (m, a, b) xs ys" and s: "Suc (length xs) < 2 ^ 64"
  shows "simulated new t (Insert i v after) (m, a, b) xs ys"
proof (cases "list_pos i (length xs)")
  case None
  then show ?thesis using p listIndex_ok [OF pool_len(2) [OF p], of i] by (auto simp: simulated_def)
next
  case (Some k)
  note n = fresh [OF pool_len(1) [OF p]] and r = pool_len(2) [OF p]
  have f: "insert (new m) (addrs xs) \<inter> addrs ys = {}" by (rule pool_fresh [OF p n])
  have xs: "xs = take k xs @ (fst (xs ! k), snd (xs ! k)) # drop (Suc k) xs"
    using list_pos_less [OF Some] by (simp add: id_take_nth_drop)
  define ps qs x where "ps = take k xs" and "qs = drop (Suc k) xs" and "x = xs ! k"
  have xs': "xs = ps @ (fst x, snd x) # qs" using xs by (simp add: ps_def qs_def x_def)
  define zs where "zs = insert_at (if after then Suc k else k) (new m, v) xs"
  have zs: "zs = (if after then take k xs @ (fst (xs ! k), snd (xs ! k)) # (new m, v) # drop (Suc k) xs
      else take k xs @ (new m, v) # (fst (xs ! k), snd (xs ! k)) # drop (Suc k) xs)"
    using list_pos_less [OF Some] by (simp add: zs_def insert_at_def take_Suc_conv_app_nth Cons_nth_drop_Suc)
  obtain a1 m1 where h: "listInsertNode new a (Some (fst (xs ! k))) v after m = Some (a1, m1)" "rep m1 a1 zs"
    "frame (insert (new m) (addrs xs)) m m1" "freed m1 = freed m" "dup a1 = dup a" "free a1 = free a" "match a1 = match a"
    using insert_ok [of m a ps "fst x" "snd x" qs new v after, folded xs', OF r n s] zs
    by (auto simp: ps_def qs_def x_def split: if_splits)
  have "set zs = insert (new m, v) (set xs)" using set_take_drop [of "if after then Suc k else k" xs] by (auto simp: zs_def insert_at_def)
  then have "addrs zs = insert (new m) (addrs xs)" by simp
  then have "pool_rep t (m1, a1, b) zs ys"
    by (intro pool_step [OF p h(2,3)]) (use h(5-7) f pool_len(4) [OF p] in \<open>auto simp: methods_def\<close>)
  moreover have "map snd zs = insert_at (if after then Suc k else k) v (map snd xs)"
    by (simp add: zs_def insert_at_def take_map drop_map)
  moreover have "list_step new t (Insert i v after) (m, a, b) = Some (m1, a1, b)"
    using listIndex_ok [OF r, of i] Some h(1) by simp
  ultimately show ?thesis unfolding simulated_def using h(4) Some by (intro exI conjI) (assumption, assumption, simp)
qed

lemma dup_simulated:
  assumes fresh: "\<And>m'. finite (dom (nodes m')) \<Longrightarrow> nodes m' (new m') = None" and t: "head t = None" "tail t = None" "len t = 0"
    and p: "pool_rep t (m, a, b) xs ys"
  shows "simulated new t Dup (m, a, b) xs ys"
proof -
  note r = pool_len(2) [OF p] and mt = pool_len(4) [OF p]
  have mb: "methods t b" using p by (simp add: pool_rep_def)
  obtain l1 m1 where 1: "listEmpty b m = Some (l1, m1)" "frame (addrs ys) m m1" "\<forall>x \<in> addrs ys. nodes m1 x = None"
    "freed m1 = freed m @ (if free b then map snd ys else [])" using listEmpty_ok [OF pool_len(3) [OF p]] by blast
  have r1: "rep m1 a xs" using rep_frame [OF r 1(2)] pool_len(5) [OF p] by blast
  have d1: "dom (nodes m1) = addrs xs" using frame_dom [OF 1(2), of "{}"] 1(3) pool_len(5,6) [OF p] by auto
  obtain res m2 where 2: "listDup new a m1 = Some (res, m2)" "dup_post m1 a [] (dup_values (dup a) (map snd xs)) res m2"
    using listDup_ok [OF fresh r1] d1 by auto
  have "frame (- dom (nodes m1)) m1 m2" using 2(2) by (auto simp: dup_post_def frame_def)
  then have r2: "rep m2 a xs" using rep_frame [OF r1] d1 by blast
  have step: "list_step new t Dup (m, a, b) = Some (m2, a, case res of Some c \<Rightarrow> c | None \<Rightarrow> t)"
    using 1(1) 2(1) by (simp add: listRelease_def)
  obtain ws ok where v: "dup_values (dup t) (map snd xs) = (ws, ok)" by fastforce
  have da: "dup a = dup t" "free a = free t" "match a = match t" "free b = free t" using mt mb by (simp_all add: methods_def)
  show ?thesis
  proof (cases ok)
    case True
    obtain c zs where c: "res = Some c" "rep m2 c zs" "map snd zs = ws" "addrs zs \<inter> dom (nodes m1) = {}"
        "dom (nodes m2) = dom (nodes m1) \<union> addrs zs" "freed m2 = freed m1" "methods t c"
      using 2(2) True v da by (auto simp: dup_post_def methods_def)
    then have "pool_rep t (m2, a, c) xs zs" using r2 d1 mt by (auto simp: pool_rep_def)
    then show ?thesis unfolding simulated_def
      by (intro exI [of _ "(m2, a, c)"] exI [of _ xs] exI [of _ zs]) (use step c 1(4) v True da in simp)
  next
    case False
    then have c: "res = None" "dom (nodes m2) = dom (nodes m1)" "freed m2 = freed m1 @ (if free t then ws else [])"
      using 2(2) v da by (auto simp: dup_post_def)
    moreover have "rep m2 t []" using t by (simp add: rep_def)
    ultimately have "pool_rep t (m2, a, t) xs []" using r2 d1 mt by (auto simp: pool_rep_def methods_def)
    then show ?thesis unfolding simulated_def
      by (intro exI [of _ "(m2, a, t)"] exI [of _ xs] exI [of _ "[]"]) (use step c 1(4) v False da in simp)
  qed
qed

lemma join_simulated:
  assumes p: "pool_rep t (m, a, b) xs ys" and s: "length xs + length ys < 2 ^ 64"
  shows "simulated new t Join (m, a, b) xs ys"
proof -
  have mb: "methods t b" using p by (simp add: pool_rep_def)
  obtain a' b' m' where j: "listJoin a b m = Some (a', b', m')" "rep m' a' (xs @ ys)" "rep m' b' []"
    "frame (addrs (xs @ ys)) m m'" "freed m' = freed m" "methods t a'" "methods t b'"
    using listJoin_ok [OF pool_len(2,3,5) [OF p] s] pool_len(4) [OF p] mb unfolding methods_def by metis
  have "nodes m' x \<noteq> None \<longleftrightarrow> x \<in> addrs (xs @ ys)" if "x \<in> addrs (xs @ ys)" for x
    using that rep_dom [OF j(2)] by auto
  then have "dom (nodes m') = addrs (xs @ ys)"
    using frame_dom [OF j(4), of "addrs (xs @ ys)"] pool_len(6) [OF p] by (simp add: image_Un)
  then have "pool_rep t (m', a', b') (xs @ ys) []" using j by (simp add: pool_rep_def)
  then show ?thesis unfolding simulated_def
    by (intro exI [of _ "(m', a', b')"] exI [of _ "xs @ ys"] exI [of _ "[]"]) (use j in simp)
qed

lemma edit_simulated:
  assumes p: "pool_rep t (m, a, b) xs ys"
  shows "simulated new t Rotate (m, a, b) xs ys" "simulated new t Empty (m, a, b) xs ys" "simulated new t Swap (m, a, b) xs ys"
proof -
  note r = pool_len(2) [OF p] and mt = pool_len(4) [OF p]
  define rs where "rs = (if xs = [] then [] else last xs # butlast xs)"
  obtain a1 m1 where h: "listRotate a m = Some (a1, m1)" "rep m1 a1 rs" "frame (addrs xs) m m1" "freed m1 = freed m"
    "methods t a1" using rotate_ok [OF r] mt unfolding rs_def methods_def by metis
  have rsx: "set rs = set xs" by (cases xs rule: rev_cases) (auto simp: rs_def)
  have "pool_rep t (m1, a1, b) rs ys"
    by (rule pool_step [OF p h(2,3,5)]) (use rsx pool_len(5) [OF p] in auto)
  moreover have "map snd rs = (if map snd xs = [] then [] else last (map snd xs) # butlast (map snd xs))"
    by (simp add: rs_def last_map map_butlast)
  ultimately show "simulated new t Rotate (m, a, b) xs ys" unfolding simulated_def
    by (intro exI [of _ "(m1, a1, b)"] exI [of _ rs] exI [of _ ys]) (use h in simp)
  obtain a2 m2 where e: "listEmpty a m = Some (a2, m2)" "rep m2 a2 []" "frame (addrs xs) m m2" "\<forall>x \<in> addrs xs. nodes m2 x = None"
    "freed m2 = freed m @ (if free a then map snd xs else [])" "free a2 = free a" "match a2 = match a" "dup a2 = dup a"
    using listEmpty_ok [OF r] by blast
  have mt2: "methods t a2" "free a = free t" using e(6-8) mt by (simp_all add: methods_def)
  have "pool_rep t (m2, a2, b) [] ys"
    by (rule pool_step [OF p e(2,3) mt2(1)]) (use e(4) pool_len(5) [OF p] in auto)
  then show "simulated new t Empty (m, a, b) xs ys" unfolding simulated_def
    by (intro exI [of _ "(m2, a2, b)"] exI [of _ "[]"] exI [of _ ys]) (use e mt2 in simp)
  have "pool_rep t (m, b, a) ys xs" using p by (auto simp: pool_rep_def)
  then show "simulated new t Swap (m, a, b) xs ys" unfolding simulated_def
    by (intro exI [of _ "(m, b, a)"] exI [of _ ys] exI [of _ xs]) simp
qed

lemma list_step_ok:
  assumes fresh: "\<And>m'. finite (dom (nodes m')) \<Longrightarrow> nodes m' (new m') = None" and t: "head t = None" "tail t = None" "len t = 0"
    and p: "pool_rep t (m, a, b) xs ys" and s: "Suc (length xs + length ys) < 2 ^ 64"
  shows "simulated new t oper (m, a, b) xs ys"
proof (cases oper)
  case (Del i)
  then show ?thesis using delete_simulated [OF p, of "list_pos i (length xs)"] listIndex_ok [OF pool_len(2) [OF p], of i] list_pos_less
    by (simp add: simulated_def)
next
  case (DelKey k)
  have "matches a k = matches t k" using pool_len(4) [OF p] by (simp add: matches_def methods_def fun_eq_iff)
  then show ?thesis
    using DelKey delete_simulated [OF p, of "find_pos (matches t k) (map snd xs)"] find_pos_less [of "matches t k" "map snd xs"]
      listSearchKey_ok [OF pool_len(2) [OF p], of k] find_pos_find [of "matches t k" xs]
    by (simp add: simulated_def)
qed (use add_simulated [OF fresh p] insert_simulated [OF fresh p] dup_simulated [OF fresh t p] join_simulated [OF p] edit_simulated [OF p] s in auto)

fun list_run :: "('a mem \<Rightarrow> nat) \<Rightarrow> 'a adlist \<Rightarrow> 'a list_op list \<Rightarrow> 'a pool \<Rightarrow> 'a pool option" where
  "list_run new t [] s = Some s"
| "list_run new t (x # ops) s = do { s \<leftarrow> list_step new t x s; list_run new t ops s }"

fun spec_run :: "'a adlist \<Rightarrow> 'a list_op list \<Rightarrow> 'a list \<times> 'a list \<times> 'a list \<Rightarrow> 'a list \<times> 'a list \<times> 'a list" where
  "spec_run t [] s = s"
| "spec_run t (x # ops) s = spec_run t ops (spec_step t x s)"

fun run_fits :: "'a adlist \<Rightarrow> 'a list_op list \<Rightarrow> 'a list \<times> 'a list \<times> 'a list \<Rightarrow> bool" where
  \<comment> \<open>the lists stay smaller than the range of their length field\<close>
  "run_fits t [] s \<longleftrightarrow> True"
| "run_fits t (x # ops) s \<longleftrightarrow> Suc (length (fst s) + length (fst (snd s))) < 2 ^ 64 \<and> run_fits t ops (spec_step t x s)"

lemma list_run_ok:
  assumes fresh: "\<And>m'. finite (dom (nodes m')) \<Longrightarrow> nodes m' (new m') = None" and t: "head t = None" "tail t = None" "len t = 0"
  shows "pool_rep t s xs ys \<Longrightarrow> run_fits t ops (map snd xs, map snd ys, freed (fst s)) \<Longrightarrow>
    \<exists>s' xs' ys'. list_run new t ops s = Some s' \<and> pool_rep t s' xs' ys' \<and>
      (map snd xs', map snd ys', freed (fst s')) = spec_run t ops (map snd xs, map snd ys, freed (fst s))"
proof (induction ops arbitrary: s xs ys)
  case (Cons x ops)
  obtain m a b where s: "s = (m, a, b)" by (cases s)
  obtain s1 xs1 ys1 where 1: "list_step new t x s = Some s1" "pool_rep t s1 xs1 ys1"
    "(map snd xs1, map snd ys1, freed (fst s1)) = spec_step t x (map snd xs, map snd ys, freed (fst s))"
    using list_step_ok [OF fresh t, of m a b xs ys x] Cons.prems unfolding simulated_def s by auto
  then show ?case using Cons.IH [OF 1(2)] Cons.prems(2) by simp
qed auto

text \<open>Property C17. Any program of list operations on two lists in one heap runs without following
  a NULL or freed pointer, has on the values the effect of the same program on sequences, hands
  exactly the removed values to the free method, and at its end the nodes of the two lists are
  exactly the allocated nodes.\<close>
theorem adlist_refines_list:
  assumes "\<And>m'. finite (dom (nodes m')) \<Longrightarrow> nodes m' (new m') = None" and "head t = None" "tail t = None" "len t = 0"
    and "run_fits t ops ([], [], [])"
  shows "\<exists>m a b xs ys. list_run new t ops (\<lparr>nodes = Map.empty, freed = []\<rparr>, t, t) = Some (m, a, b) \<and> pool_rep t (m, a, b) xs ys \<and>
    (map snd xs, map snd ys, freed m) = spec_run t ops ([], [], [])"
proof -
  let ?s = "(\<lparr>nodes = Map.empty, freed = []\<rparr>, t, t)"
  have "pool_rep t ?s [] []" using assms(2-4) by (simp add: pool_rep_def rep_def methods_def)
  then show ?thesis using list_run_ok [OF assms(1-4), of ?s "[]" "[]" ops] assms(5) by fastforce
qed

definition fresh_addr :: "'a mem \<Rightarrow> nat" where
  "fresh_addr m = (if dom (nodes m) = {} then 0 else Suc (Max (dom (nodes m))))"

lemma fresh_addr_ok: "finite (dom (nodes m)) \<Longrightarrow> nodes m (fresh_addr m) = None"
proof -
  assume f: "finite (dom (nodes m))"
  have "Suc (Max (dom (nodes m))) \<notin> dom (nodes m)" using Max_ge [OF f, of "Suc (Max (dom (nodes m)))"] by linarith
  then have "fresh_addr m \<notin> dom (nodes m)" by (auto simp: fresh_addr_def)
  then show "nodes m (fresh_addr m) = None" by auto
qed

theorem adlist_refines_list_witness:
  "\<exists>m a b xs ys. list_run fresh_addr listCreate [AddTail (3 :: nat), AddHead 1, Insert (- 1) 2 False, Dup, DelKey 2, Join, Rotate]
      (\<lparr>nodes = Map.empty, freed = []\<rparr>, listCreate, listCreate) = Some (m, a, b) \<and>
    pool_rep listCreate (m, a, b) xs ys \<and> (map snd xs, map snd ys, freed m) = ([3, 1, 3, 1, 2], [], [])"
proof -
  let ?ops = "[AddTail (3 :: nat), AddHead 1, Insert (- 1) 2 False, Dup, DelKey 2, Join, Rotate]"
  have "spec_run listCreate ?ops ([], [], []) = ([3, 1, 3, 1, 2], [], [])"
    by (simp add: listCreate_def list_pos_def insert_at_def drop_value_def find_pos_def matches_def remove_at_def)
  moreover have "run_fits listCreate ?ops ([], [], [])"
    by (simp add: listCreate_def list_pos_def insert_at_def drop_value_def find_pos_def matches_def remove_at_def)
  ultimately show ?thesis
    using adlist_refines_list [of fresh_addr listCreate ?ops, OF fresh_addr_ok] by (simp add: listCreate_def)
qed

end
