(* ===== verification/Zskiplist.thy ===== *)
theory Zskiplist
  imports Redis_Prelude
begin

section \<open>Skip lists of sorted sets (t\_zset.c)\<close>

text \<open>
  A skip list orders pairs of a score and an element. Its nodes live in a heap; a node has an
  array of levels, each with a pointer to the next node that reaches this level and the number of
  elements the pointer skips (\<open>span\<close>, 32 bits). The first node is a header without element.
  Scores are the doubles other than NaN in their order and elements are strings in the order of
  \<open>sdscmp\<close> (lexicographic on bytes, as \<open>Sds\<close> shows); both are linearly ordered types here. None is
  a pointer that is NULL or freed, an access behind the level array, a failed assertion or a loop
  that does not end. \<open>new\<close> is the allocator, \<open>junk\<close> what it leaves in the levels of a new node,
  and \<open>rnd\<close> the sequence of results of random().
\<close>

record ('s, 'e) znode =
  ele :: "'e option"
  score :: 's
  backward :: "nat option"
  level :: "(nat option \<times> u32) list" \<comment> \<open>forward and span\<close>

record zskiplist =
  header :: nat
  tail :: "nat option"
  zlength :: u64
  zlevel :: nat

type_synonym ('s, 'e) zheap = "nat \<rightharpoonup> ('s, 'e) znode"

definition ZSKIPLIST_MAXLEVEL :: nat where "ZSKIPLIST_MAXLEVEL = 32"

definition lv :: "('s, 'e) zheap \<Rightarrow> nat \<Rightarrow> nat \<Rightarrow> (nat option \<times> u32) option" where
  \<comment> \<open>\<open>x->level[i]\<close>\<close>
  "lv h x i = do { n \<leftarrow> h x; if i < length (level n) then Some (level n ! i) else None }"

definition set_lv :: "nat \<Rightarrow> nat \<Rightarrow> nat option \<times> u32 \<Rightarrow> ('s, 'e) zheap \<Rightarrow> ('s, 'e) zheap option" where
  "set_lv x i v h = do {
     n \<leftarrow> h x;
     if i < length (level n) then Some (h(x \<mapsto> n\<lparr>level := (level n)[i := v]\<rparr>)) else None }"

definition set_backward :: "nat \<Rightarrow> nat option \<Rightarrow> ('s, 'e) zheap \<Rightarrow> ('s, 'e) zheap option" where
  "set_backward x b h = do { n \<leftarrow> h x; Some (h(x \<mapsto> n\<lparr>backward := b\<rparr>)) }"

definition zslCreateNode :: "(nat \<Rightarrow> nat option \<times> u32) \<Rightarrow> nat option \<Rightarrow> (('s, 'e) zheap \<Rightarrow> nat) \<Rightarrow>
    nat \<Rightarrow> 's \<Rightarrow> 'e option \<Rightarrow> ('s, 'e) zheap \<Rightarrow> nat \<times> ('s, 'e) zheap" where
  "zslCreateNode junk junkb new lvl s e h =
     (new h, h(new h \<mapsto> \<lparr>ele = e, score = s, backward = junkb, level = map junk [0..<lvl]\<rparr>))"

fun for_loop :: "(nat \<Rightarrow> 'h \<Rightarrow> 'h option) \<Rightarrow> nat list \<Rightarrow> 'h \<Rightarrow> 'h option" where
  "for_loop f [] h = Some h"
| "for_loop f (i # is) h = do { h \<leftarrow> f i h; for_loop f is h }"

definition zslCreate :: "(nat \<Rightarrow> nat option \<times> u32) \<Rightarrow> nat option \<Rightarrow> (('s :: zero, 'e) zheap \<Rightarrow> nat) \<Rightarrow>
    ('s, 'e) zheap \<Rightarrow> (zskiplist \<times> ('s, 'e) zheap) option" where
  "zslCreate junk junkb new h = do {
     let (x, h) = zslCreateNode junk junkb new ZSKIPLIST_MAXLEVEL 0 None h;
     h \<leftarrow> for_loop (\<lambda>j. set_lv x j (None, 0)) [0..<ZSKIPLIST_MAXLEVEL] h;
     h \<leftarrow> set_backward x None h;
     Some (\<lparr>header = x, tail = None, zlength = 0, zlevel = 1\<rparr>, h) }"

definition zslFreeNode :: "nat \<Rightarrow> ('s, 'e) zheap \<Rightarrow> ('s, 'e) zheap option" where
  "zslFreeNode x h = (if h x = None then None else Some (h(x := None)))"

partial_function (option) free_loop :: "nat option \<Rightarrow> ('s, 'e) zheap \<Rightarrow> ('s, 'e) zheap option" where
  "free_loop node h = (case node of None \<Rightarrow> Some h
     | Some x \<Rightarrow> do { (f, _) \<leftarrow> lv h x 0; h \<leftarrow> zslFreeNode x h; free_loop f h })"

definition zslFree :: "zskiplist \<Rightarrow> ('s, 'e) zheap \<Rightarrow> ('s, 'e) zheap option" where
  "zslFree z h = do {
     (node, _) \<leftarrow> lv h (header z) 0;
     h \<leftarrow> zslFreeNode (header z) h;
     free_loop node h }"

partial_function (option) random_loop :: "(nat \<Rightarrow> nat) \<Rightarrow> nat \<Rightarrow> nat \<Rightarrow> nat option" where
  \<comment> \<open>\<open>(random()&0xFFFF) < (ZSKIPLIST_P * 0xFFFF)\<close>, with the bound 16383.75\<close>
  "random_loop rnd k l = (if 100 * (rnd k mod 65536) < 1638375 then random_loop rnd (k + 1) (l + 1) else Some l)"

definition zslRandomLevel :: "(nat \<Rightarrow> nat) \<Rightarrow> nat option" where
  "zslRandomLevel rnd = do {
     l \<leftarrow> random_loop rnd 0 1;
     Some (if l < ZSKIPLIST_MAXLEVEL then l else ZSKIPLIST_MAXLEVEL) }"

subsection \<open>Searching\<close>

partial_function (option) zsl_walk ::
  "('s, 'e) zheap \<Rightarrow> (('s, 'e) znode \<Rightarrow> 'w::len word \<Rightarrow> bool) \<Rightarrow> nat \<Rightarrow> nat \<Rightarrow> 'w word \<Rightarrow> (nat \<times> 'w word) option" where
  \<comment> \<open>\<open>while (x->level[i].forward && cond) { rank += x->level[i].span; x = x->level[i].forward; }\<close>: the
     loop that every search has; the condition sees the next node and the rank behind it\<close>
  "zsl_walk h cond i x rank = do {
     (f, sp) \<leftarrow> lv h x i;
     case f of None \<Rightarrow> Some (x, rank)
     | Some y \<Rightarrow> do {
         n \<leftarrow> h y;
         if cond n (rank + ucast sp) then zsl_walk h cond i y (rank + ucast sp) else Some (x, rank) } }"

fun zsl_descend ::
  "('s, 'e) zheap \<Rightarrow> (('s, 'e) znode \<Rightarrow> 'w::len word \<Rightarrow> bool) \<Rightarrow> nat \<Rightarrow> nat \<Rightarrow> 'w word \<Rightarrow> (nat \<times> 'w word) list option" where
  \<comment> \<open>\<open>for (i = zsl->level-1; i >= 0; i--)\<close>: the values of \<open>update[i]\<close> and \<open>rank[i]\<close>, by level\<close>
  "zsl_descend h cond 0 x rank = Some []"
| "zsl_descend h cond (Suc i) x rank = do {
     (x, rank) \<leftarrow> zsl_walk h cond i x rank;
     us \<leftarrow> zsl_descend h cond i x rank;
     Some (us @ [(x, rank)]) }"

definition node_before :: "'s::linorder \<Rightarrow> 'e::linorder \<Rightarrow> ('s, 'e) znode \<Rightarrow> 'w::len word \<Rightarrow> bool" where
  \<comment> \<open>the comparison of zslInsert and zslDelete\<close>
  "node_before s e n r \<longleftrightarrow>
     score n < s \<or> score n = s \<and> (case ele n of None \<Rightarrow> False | Some e' \<Rightarrow> e' < e)"

subsection \<open>Insertion and deletion\<close>

definition grow_level :: "zskiplist \<Rightarrow> nat \<Rightarrow> (nat \<times> u32) list \<Rightarrow> ('s, 'e) zheap \<Rightarrow> ((nat \<times> u32) list \<times> ('s, 'e) zheap) option" where
  "grow_level z lvl us h = do {
     h \<leftarrow> for_loop (\<lambda>i h. do { (f, _) \<leftarrow> lv h (header z) i; set_lv (header z) i (f, ucast (zlength z)) h }) [zlevel z..<lvl] h;
     Some (us @ map (\<lambda>_. (header z, 0)) [zlevel z..<lvl], h) }"

definition link_level :: "(nat \<times> u32) list \<Rightarrow> nat \<Rightarrow> nat \<Rightarrow> ('s, 'e) zheap \<Rightarrow> ('s, 'e) zheap option" where
  "link_level us x i h = do {
     let (u, r) = us ! i;
     let r0 = snd (us ! 0);
     (f, sp) \<leftarrow> lv h u i;
     h \<leftarrow> set_lv x i (f, sp - (r0 - r)) h;
     set_lv u i (Some x, (r0 - r) + 1) h }"

definition bump_span :: "(nat \<times> u32) list \<Rightarrow> nat \<Rightarrow> ('s, 'e) zheap \<Rightarrow> ('s, 'e) zheap option" where
  "bump_span us i h = do {
     let (u, _) = us ! i;
     (f, sp) \<leftarrow> lv h u i;
     set_lv u i (f, sp + 1) h }"

definition zslInsert :: "(nat \<Rightarrow> nat option \<times> u32) \<Rightarrow> nat option \<Rightarrow> (nat \<Rightarrow> nat) \<Rightarrow> (('s, 'e) zheap \<Rightarrow> nat) \<Rightarrow>
    zskiplist \<Rightarrow> 's::linorder \<Rightarrow> 'e::linorder \<Rightarrow> ('s, 'e) zheap \<Rightarrow> (nat \<times> zskiplist \<times> ('s, 'e) zheap) option" where
  "zslInsert junk junkb rnd new z s e h = do {
     us \<leftarrow> zsl_descend h (node_before s e) (zlevel z) (header z) (0 :: u32);
     lvl \<leftarrow> zslRandomLevel rnd;
     (us, h) \<leftarrow> (if lvl > zlevel z then grow_level z lvl us h else Some (us, h));
     let z = (if lvl > zlevel z then z\<lparr>zlevel := lvl\<rparr> else z);
     let (x, h) = zslCreateNode junk junkb new lvl s (Some e) h;
     h \<leftarrow> for_loop (link_level us x) [0..<lvl] h;
     h \<leftarrow> for_loop (bump_span us) [lvl..<zlevel z] h;
     let u0 = fst (us ! 0);
     h \<leftarrow> set_backward x (if u0 = header z then None else Some u0) h;
     (f, _) \<leftarrow> lv h x 0;
     (z, h) \<leftarrow> (case f of
        Some y \<Rightarrow> do { h \<leftarrow> set_backward y (Some x) h; Some (z, h) }
      | None \<Rightarrow> Some (z\<lparr>tail := Some x\<rparr>, h));
     Some (x, z\<lparr>zlength := zlength z + 1\<rparr>, h) }"

definition unlink_level :: "nat list \<Rightarrow> nat \<Rightarrow> nat \<Rightarrow> ('s, 'e) zheap \<Rightarrow> ('s, 'e) zheap option" where
  "unlink_level us x i h = do {
     let u = us ! i;
     (f, sp) \<leftarrow> lv h u i;
     if f = Some x then do {
       (xf, xsp) \<leftarrow> lv h x i;
       set_lv u i (xf, sp + (xsp - 1)) h }
     else set_lv u i (f, sp - 1) h }"

fun lower_level :: "('s, 'e) zheap \<Rightarrow> nat \<Rightarrow> nat \<Rightarrow> nat option" where
  \<comment> \<open>\<open>while(zsl->level > 1 && zsl->header->level[zsl->level-1].forward == NULL) zsl->level--\<close>\<close>
  "lower_level h hx 0 = Some 0"
| "lower_level h hx (Suc l) =
     (if l = 0 then Some (Suc l)
      else do {
        (f, _) \<leftarrow> lv h hx l;
        if f = None then lower_level h hx l else Some (Suc l) })"

definition zslDeleteNode :: "zskiplist \<Rightarrow> nat \<Rightarrow> nat list \<Rightarrow> ('s, 'e) zheap \<Rightarrow> (zskiplist \<times> ('s, 'e) zheap) option" where
  "zslDeleteNode z x us h = do {
     h \<leftarrow> for_loop (unlink_level us x) [0..<zlevel z] h;
     n \<leftarrow> h x;
     (f, _) \<leftarrow> lv h x 0;
     (z, h) \<leftarrow> (case f of
        Some y \<Rightarrow> do { h \<leftarrow> set_backward y (backward n) h; Some (z, h) }
      | None \<Rightarrow> Some (z\<lparr>tail := backward n\<rparr>, h));
     l \<leftarrow> lower_level h (header z) (zlevel z);
     Some (z\<lparr>zlevel := l, zlength := zlength z - 1\<rparr>, h) }"

definition zslDelete :: "bool \<Rightarrow> zskiplist \<Rightarrow> 's::linorder \<Rightarrow> 'e::linorder \<Rightarrow> ('s, 'e) zheap \<Rightarrow>
    (nat option \<times> zskiplist \<times> ('s, 'e) zheap) option" where
  \<comment> \<open>\<open>keep\<close>: the caller passes \<open>node\<close>, which is set to the unlinked node, otherwise the node is freed; the
     result is 0 (None) or 1 with the node\<close>
  "zslDelete keep z s e h = do {
     us \<leftarrow> zsl_descend h (node_before s e) (zlevel z) (header z) (0 :: u32);
     (f, _) \<leftarrow> lv h (fst (us ! 0)) 0;
     case f of
       None \<Rightarrow> Some (None, z, h)
     | Some x \<Rightarrow> do {
         n \<leftarrow> h x;
         if s = score n \<and> ele n = Some e then do {
           (z, h) \<leftarrow> zslDeleteNode z x (map fst us) h;
           h \<leftarrow> (if keep then Some h else zslFreeNode x h);
           Some (Some x, z, h) }
         else Some (None, z, h) } }"

subsection \<open>The list a skip list stands for\<close>

record ('s, 'e) ent =
  ad :: nat
  sc :: 's
  el :: 'e
  ht :: nat

fun link :: "nat \<Rightarrow> ('s, 'e) ent list \<Rightarrow> nat option \<times> u32" where
  \<comment> \<open>forward and span at level \<open>i\<close> of a node that is followed by the list\<close>
  "link i [] = (None, 0)"
| "link i (e # rest) = (if i < ht e then (Some (ad e), 1) else (fst (link i rest), 1 + snd (link i rest)))"

lemma link_skip: "\<forall>e \<in> set as. ht e \<le> i \<Longrightarrow> link i (as @ bs) = (fst (link i bs), of_nat (length as) + snd (link i bs))"
  by (induction as) (auto simp: not_less add.assoc)

lemma link_stop: "\<exists>e \<in> set as. i < ht e \<Longrightarrow> link i (as @ bs) = link i as"
proof (induction as)
  case (Cons a as)
  show ?case
  proof (cases "i < ht a")
    case False
    then have "\<exists>e \<in> set as. i < ht e" using Cons.prems by auto
    then show ?thesis using Cons.IH False by simp
  qed simp
qed simp

lemma link_nil: "\<forall>e \<in> set as. ht e \<le> i \<Longrightarrow> link i as = (None, of_nat (length as))"
  using link_skip [of as i "[]"] by simp

fun lastpos :: "nat \<Rightarrow> ('s, 'e) ent list \<Rightarrow> nat \<Rightarrow> nat" where
  \<comment> \<open>the last position up to \<open>k\<close> that reaches level \<open>i\<close>; position 0 is the header\<close>
  "lastpos i es 0 = 0"
| "lastpos i es (Suc k) = (if i < ht (es ! k) then Suc k else lastpos i es k)"

definition hgt :: "nat \<Rightarrow> ('s, 'e) ent list \<Rightarrow> nat \<Rightarrow> nat" where
  "hgt l es p = (case p of 0 \<Rightarrow> l | Suc q \<Rightarrow> ht (es ! q))"

definition at :: "nat \<Rightarrow> ('s, 'e) ent list \<Rightarrow> nat \<Rightarrow> nat" where
  "at x es p = (case p of 0 \<Rightarrow> x | Suc q \<Rightarrow> ad (es ! q))"

lemma pos_simps [simp]:
  "hgt l es 0 = l" "hgt l es (Suc q) = ht (es ! q)" "at x es 0 = x" "at x es (Suc q) = ad (es ! q)"
  by (simp_all add: hgt_def at_def)

lemma lastpos_le: "lastpos i es k \<le> k"
  by (induction k) auto

lemma lastpos_hgt: "i < l \<Longrightarrow> i < hgt l es (lastpos i es k)"
  by (induction k) auto

lemma lastpos_above: "lastpos i es k \<le> q \<Longrightarrow> q < k \<Longrightarrow> ht (es ! q) \<le> i"
proof (induction k)
  case (Suc k)
  then show ?case using lastpos_le [of i es k] by (cases "q = k") (auto split: if_splits)
qed simp

lemma lastpos_max: "p \<le> k \<Longrightarrow> i < hgt l es p \<Longrightarrow> p \<le> lastpos i es k"
proof (induction k)
  case (Suc k)
  then show ?case by (cases "p = Suc k") auto
qed simp

lemma lastpos_mono: "i \<le> j \<Longrightarrow> lastpos j es k \<le> lastpos i es k"
proof (induction k)
  case (Suc k)
  then show ?case using lastpos_le [of j es k] by auto
qed simp

lemma lastpos_full: "(\<forall>e \<in> set es. 0 < ht e) \<Longrightarrow> k \<le> length es \<Longrightarrow> lastpos 0 es k = k"
  by (cases k) auto

lemma lastpos_take: "k \<le> length as \<Longrightarrow> lastpos i (as @ bs) k = lastpos i as k"
  by (induction k) (auto simp: nth_append)

definition key_less :: "('s::linorder, 'e::linorder) ent \<Rightarrow> ('s, 'e) ent \<Rightarrow> bool" where
  "key_less a b \<longleftrightarrow> sc a < sc b \<or> sc a = sc b \<and> el a < el b"

definition node_ok :: "('s, 'e) zheap \<Rightarrow> nat \<Rightarrow> 'e option \<Rightarrow> 's \<Rightarrow> nat \<Rightarrow> nat option \<Rightarrow> bool" where
  "node_ok h x e s n b \<longleftrightarrow> (\<exists>nd. h x = Some nd \<and> ele nd = e \<and> score nd = s \<and> length (level nd) = n \<and> backward nd = b)"

definition prev_ad :: "('s, 'e) ent list \<Rightarrow> nat \<Rightarrow> nat option" where
  "prev_ad es p = (case p of 0 \<Rightarrow> None | Suc q \<Rightarrow> Some (ad (es ! q)))"

definition links_ok :: "('s, 'e) zheap \<Rightarrow> nat \<Rightarrow> nat \<Rightarrow> ('s, 'e) ent list \<Rightarrow> bool" where
  "links_ok h x l es \<longleftrightarrow> (\<forall>p \<le> length es. \<forall>i < hgt l es p. lv h (at x es p) i = Some (link i (drop p es)))"

definition heads_ok :: "('s, 'e) zheap \<Rightarrow> nat \<Rightarrow> nat \<Rightarrow> bool" where
  \<comment> \<open>the header of a list of level \<open>l\<close>: its higher levels are empty\<close>
  "heads_ok h x l \<longleftrightarrow> (\<exists>s. node_ok h x None s 32 None) \<and> (\<forall>i. l \<le> i \<and> i < 32 \<longrightarrow> (\<exists>sp. lv h x i = Some (None, sp)))"

definition shape_ok :: "zskiplist \<Rightarrow> ('s::linorder, 'e::linorder) ent list \<Rightarrow> bool" where
  "shape_ok z es \<longleftrightarrow> distinct (map ad es) \<and> header z \<notin> ad ` set es \<and> sorted_wrt key_less es \<and>
     (\<forall>e \<in> set es. 0 < ht e \<and> ht e \<le> zlevel z) \<and> 0 < zlevel z \<and> zlevel z \<le> 32 \<and>
     tail z = prev_ad es (length es) \<and> zlength z = of_nat (length es) \<and> length es < 2 ^ 32"

definition zrep :: "('s::linorder, 'e::linorder) zheap \<Rightarrow> zskiplist \<Rightarrow> ('s, 'e) ent list \<Rightarrow> bool" where
  "zrep h z es \<longleftrightarrow> shape_ok z es \<and> heads_ok h (header z) (zlevel z) \<and> links_ok h (header z) (zlevel z) es \<and>
     (\<forall>q < length es. node_ok h (ad (es ! q)) (Some (el (es ! q))) (sc (es ! q)) (ht (es ! q)) (prev_ad es q))"

subsection \<open>Walking\<close>

definition upto_pos :: "('s, 'e) zheap \<Rightarrow> ('s, 'e) ent list \<Rightarrow> (('s, 'e) znode \<Rightarrow> 'w::len word \<Rightarrow> bool) \<Rightarrow> nat \<Rightarrow> bool" where
  \<comment> \<open>a condition that holds exactly for the first \<open>k\<close> nodes\<close>
  "upto_pos h es cond k \<longleftrightarrow> k \<le> length es \<and>
     (\<forall>q < length es. \<forall>n. h (ad (es ! q)) = Some n \<longrightarrow> cond n (of_nat (Suc q)) = (q < k))"

lemma link_next:
  assumes "p \<le> q" and "q < length es" and "i < ht (es ! q)" and "\<And>r. p \<le> r \<Longrightarrow> r < q \<Longrightarrow> ht (es ! r) \<le> i"
  shows "link i (drop p es) = (Some (ad (es ! q)), of_nat (Suc q - p))"
proof -
  have "drop p es = take (q - p) (drop p es) @ es ! q # drop (Suc q) es"
    using assms(1,2) by (metis Cons_nth_drop_Suc append_take_drop_id drop_drop le_add_diff_inverse2)
  moreover have "\<forall>e \<in> set (take (q - p) (drop p es)). ht e \<le> i" using assms(2,4) by (auto simp: in_set_conv_nth)
  ultimately have "link i (drop p es) = (Some (ad (es ! q)), of_nat (length (take (q - p) (drop p es))) + 1)"
    using assms(3) link_skip [of "take (q - p) (drop p es)" i "es ! q # drop (Suc q) es"] by simp
  then show ?thesis using assms(1,2) by (simp add: Suc_diff_le add.commute)
qed

lemma zsl_walk_ok:
  fixes cond :: "('s::linorder, 'e::linorder) znode \<Rightarrow> 'w::len word \<Rightarrow> bool"
  assumes z: "zrep h z es" and c: "upto_pos h es cond k" and w: "32 \<le> LENGTH('w)"
  shows "p \<le> k \<Longrightarrow> i < hgt (zlevel z) es p \<Longrightarrow>
    zsl_walk h cond i (at (header z) es p) (of_nat p) =
      Some (at (header z) es (lastpos i es k), of_nat (lastpos i es k))"
proof (induction "k - p" arbitrary: p rule: less_induct)
  case less
  have k: "k \<le> length es" using c by (simp add: upto_pos_def)
  have lvp: "lv h (at (header z) es p) i = Some (link i (drop p es))"
    using z less.prems k by (auto simp: zrep_def links_ok_def)
  show ?case
  proof (cases "\<exists>q. p \<le> q \<and> q < length es \<and> i < ht (es ! q)")
    case False
    have "ht (es ! (p + r)) \<le> i" if "r < length es - p" for r
    proof -
      have "p \<le> p + r" "p + r < length es" using that by simp_all
      then show ?thesis using False by (meson not_less)
    qed
    then have "\<forall>e \<in> set (drop p es). ht e \<le> i" by (auto simp: in_set_conv_nth)
    moreover have "lastpos i es k = p"
    proof (rule antisym)
      show "p \<le> lastpos i es k" using lastpos_max [OF less.prems] .
      show "lastpos i es k \<le> p"
      proof (rule ccontr)
        assume "\<not> lastpos i es k \<le> p"
        then obtain q where q: "lastpos i es k = Suc q" "p \<le> q" by (cases "lastpos i es k") auto
        then have "i < ht (es ! q)" using lastpos_hgt [of i "Suc i" es k] by simp
        moreover have "q < length es" using q lastpos_le [of i es k] k by simp
        ultimately show False using False q(2) by blast
      qed
    qed
    ultimately show ?thesis by (subst zsl_walk.simps) (simp add: lvp link_nil)
  next
    case True
    define q where "q = (LEAST q. p \<le> q \<and> q < length es \<and> i < ht (es ! q))"
    have q: "p \<le> q" "q < length es" "i < ht (es ! q)" using LeastI_ex [OF True] by (auto simp: q_def)
    have below: "ht (es ! r) \<le> i" if "p \<le> r" "r < q" for r
    proof -
      have "r < length es" using that(2) q(2) by simp
      then show ?thesis using not_less_Least [of r "\<lambda>q. p \<le> q \<and> q < length es \<and> i < ht (es ! q)"] that by (auto simp: q_def not_less)
    qed
    have l: "link i (drop p es) = (Some (ad (es ! q)), of_nat (Suc q - p))" by (rule link_next [OF q below])
    obtain n where n: "h (ad (es ! q)) = Some n" using z q(2) by (auto simp: zrep_def node_ok_def)
    have "length es < 2 ^ 32" using z by (simp add: zrep_def shape_ok_def)
    then have u: "ucast (of_nat (Suc q - p) :: u32) = (of_nat (Suc q - p) :: 'w word)"
      using q(2) by (simp add: unsigned_of_nat take_bit_nat_eq_self)
    have tot: "(of_nat p :: 'w word) + ucast (of_nat (Suc q - p) :: u32) = of_nat (Suc q)"
      unfolding u using q(1) by (simp flip: of_nat_add)
    have cq: "cond n (of_nat (Suc q)) = (q < k)" using c q(2) n by (simp add: upto_pos_def)
    show ?thesis
    proof (cases "q < k")
      case True
      have "zsl_walk h cond i (at (header z) es p) (of_nat p) = zsl_walk h cond i (at (header z) es (Suc q)) (of_nat (Suc q))"
        using True cq by (subst zsl_walk.simps) (simp add: lvp l n tot del: of_nat_Suc)
      also have "\<dots> = Some (at (header z) es (lastpos i es k), of_nat (lastpos i es k))"
        using less.hyps [of "Suc q"] True q by simp
      finally show ?thesis .
    next
      case False
      have "lastpos i es k = p"
      proof (rule antisym)
        show "p \<le> lastpos i es k" using lastpos_max [OF less.prems] .
        show "lastpos i es k \<le> p"
        proof (rule ccontr)
          assume "\<not> lastpos i es k \<le> p"
          then obtain r where r: "lastpos i es k = Suc r" "p \<le> r" by (cases "lastpos i es k") auto
          then have "i < ht (es ! r)" using lastpos_hgt [of i "Suc i" es k] by simp
          moreover have "r < q" using r lastpos_le [of i es k] False by simp
          ultimately show False using below [OF r(2)] by simp
        qed
      qed
      then show ?thesis using False cq by (subst zsl_walk.simps) (simp add: lvp l n tot del: of_nat_Suc)
    qed
  qed
qed

lemma zsl_descend_ok:
  fixes cond :: "('s::linorder, 'e::linorder) znode \<Rightarrow> 'w::len word \<Rightarrow> bool"
  assumes z: "zrep h z es" and c: "upto_pos h es cond k" and w: "32 \<le> LENGTH('w)"
  shows "p \<le> k \<Longrightarrow> n \<le> hgt (zlevel z) es p \<Longrightarrow>
    zsl_descend h cond n (at (header z) es p) (of_nat p) =
      Some (map (\<lambda>i. (at (header z) es (lastpos i es k), of_nat (lastpos i es k))) [0..<n])"
proof (induction n arbitrary: p)
  case (Suc n)
  have "n < hgt (zlevel z) es p" using Suc.prems by simp
  note w1 = zsl_walk_ok [OF z c w Suc.prems(1) this]
  have "n \<le> hgt (zlevel z) es (lastpos n es k)"
  proof (cases "lastpos n es k")
    case 0
    then have "p = 0" using lastpos_max [OF Suc.prems(1), of n "zlevel z" es] Suc.prems(2) by simp
    then show ?thesis using 0 Suc.prems(2) by simp
  next
    case (Suc r)
    then show ?thesis using lastpos_hgt [of n "Suc n" es k] by simp
  qed
  then show ?case using Suc.IH [OF lastpos_le, of n es] w1 by simp
qed simp

lemma search_ok:
  fixes cond :: "('s::linorder, 'e::linorder) znode \<Rightarrow> 'w::len word \<Rightarrow> bool"
  assumes z: "zrep h z es" and c: "upto_pos h es cond k" and w: "32 \<le> LENGTH('w)"
  shows "zsl_descend h cond (zlevel z) (header z) 0 =
      Some (map (\<lambda>i. (at (header z) es (lastpos i es k), of_nat (lastpos i es k))) [0..<zlevel z])"
  using zsl_descend_ok [OF assms, of 0 "zlevel z"] by simp

subsection \<open>Changing levels\<close>

definition same_nodes :: "('s, 'e) zheap \<Rightarrow> ('s, 'e) zheap \<Rightarrow> bool" where
  \<comment> \<open>only the contents of levels differ\<close>
  "same_nodes h h' \<longleftrightarrow> (\<forall>x e s n b. node_ok h' x e s n b = node_ok h x e s n b) \<and> dom h' = dom h"

lemma same_nodes_refl [simp]: "same_nodes h h"
  by (simp add: same_nodes_def)

lemma same_nodes_trans: "same_nodes h h' \<Longrightarrow> same_nodes h' h'' \<Longrightarrow> same_nodes h h''"
  by (simp add: same_nodes_def)

lemma set_lv_ok:
  assumes "lv h x i = Some v0"
  shows "\<exists>h'. set_lv x i v h = Some h' \<and> same_nodes h h' \<and>
    (\<forall>y j. lv h' y j = (if y = x \<and> j = i then Some v else lv h y j))"
proof -
  obtain n where n: "h x = Some n" "i < length (level n)" using assms by (auto simp: lv_def bind_eq_Some_conv split: if_splits)
  let ?h' = "h(x \<mapsto> n\<lparr>level := (level n)[i := v]\<rparr>)"
  have "same_nodes h ?h'" using n by (auto simp: same_nodes_def node_ok_def)
  moreover have "\<forall>y j. lv ?h' y j = (if y = x \<and> j = i then Some v else lv h y j)" using n by (auto simp: lv_def)
  ultimately show ?thesis using n by (simp add: set_lv_def)
qed

lemma for_levels:
  \<comment> \<open>a loop over levels whose step changes only its own level\<close>
  assumes step: "\<And>i h. i \<in> set is \<Longrightarrow> same_nodes h0 h \<Longrightarrow> (\<forall>y. lv h y i = lv h0 y i) \<Longrightarrow>
      \<exists>h'. f i h = Some h' \<and> same_nodes h h' \<and> (\<forall>y j. lv h' y j = (if j = i then g i y else lv h y j))"
  shows "distinct is \<Longrightarrow> same_nodes h0 h \<Longrightarrow> (\<forall>i \<in> set is. \<forall>y. lv h y i = lv h0 y i) \<Longrightarrow>
    \<exists>h'. for_loop f is h = Some h' \<and> same_nodes h0 h' \<and> (\<forall>y j. lv h' y j = (if j \<in> set is then g j y else lv h y j))"
  using step
proof (induction "is" arbitrary: h)
  case (Cons i "is")
  obtain h1 where 1: "f i h = Some h1" "same_nodes h h1" "\<forall>y j. lv h1 y j = (if j = i then g i y else lv h y j)"
    using Cons.prems(4) [of i h] Cons.prems(2,3) by auto
  have s1: "same_nodes h0 h1" using Cons.prems(2) 1(2) by (rule same_nodes_trans)
  have l1: "\<forall>j \<in> set is. \<forall>y. lv h1 y j = lv h0 y j" using 1(3) Cons.prems(1,3) by auto
  obtain h2 where 2: "for_loop f is h1 = Some h2" "same_nodes h0 h2" "\<forall>y j. lv h2 y j = (if j \<in> set is then g j y else lv h1 y j)"
    using Cons.IH [OF _ s1 l1] Cons.prems(1,4) by auto
  show ?case using 1 2 Cons.prems(1) by auto
qed simp

definition insert_ent :: "nat \<Rightarrow> ('s, 'e) ent \<Rightarrow> ('s, 'e) ent list \<Rightarrow> ('s, 'e) ent list" where
  "insert_ent k e es = take k es @ e # drop k es"

lemma insert_ent_simps [simp]:
  assumes "k \<le> length es"
  shows "length (insert_ent k e es) = Suc (length es)" "set (insert_ent k e es) = insert e (set es)"
  using assms set_take_drop [of k es] by (auto simp: insert_ent_def)

lemma insert_ent_nth:
  assumes "k \<le> length es" and "q \<le> length es"
  shows "insert_ent k e es ! q = (if q < k then es ! q else if q = k then e else es ! (q - 1))"
  using assms by (auto simp: insert_ent_def nth_append nth_Cons' min_def)

lemma insert_ent_drop: "k \<le> length es \<Longrightarrow> k < p \<Longrightarrow> drop p (insert_ent k e es) = drop (p - 1) es"
  by (simp add: insert_ent_def drop_Cons' min_def)

lemma insert_ent_lastpos: "k \<le> length es \<Longrightarrow> lastpos i (insert_ent k e es) k = lastpos i es k"
  using lastpos_take [of k "take k es" i "e # drop k es"] lastpos_take [of k "take k es" i "drop k es"]
  by (simp add: insert_ent_def)

lemma link_before:
  assumes k: "k \<le> length es" and p: "p < lastpos i es k"
  shows "link i (drop p (insert_ent k e es)) = link i (drop p es)"
proof -
  obtain q where q: "lastpos i es k = Suc q" "p \<le> q" using p by (cases "lastpos i es k") auto
  then have "q < k" "i < ht (es ! q)" using lastpos_le [of i es k] lastpos_hgt [of i "Suc i" es k] by auto
  then have "take k es ! q \<in> set (drop p (take k es))" "i < ht (take k es ! q)"
    using q k by (auto simp: in_set_conv_nth intro!: exI [of _ "q - p"])
  then have ex: "\<exists>e \<in> set (drop p (take k es)). i < ht e" by blast
  have "p \<le> k" using p lastpos_le [of i es k] by simp
  then have "drop p (insert_ent k e es) = drop p (take k es) @ e # drop k es" "drop p es = drop p (take k es) @ drop k es"
    using k by (simp_all add: insert_ent_def) (metis append_take_drop_id drop_append drop_take length_take min.absorb2 diff_is_0_eq drop_0)
  then show ?thesis using link_stop [OF ex] by simp
qed

lemma link_update:
  assumes k: "k \<le> length es" and p: "p = lastpos i es k"
  shows "link i (drop p es) = (fst (link i (drop k es)), of_nat (k - p) + snd (link i (drop k es)))"
    and "link i (drop p (insert_ent k e es)) =
      (if i < ht e then (Some (ad e), of_nat (k - p) + 1) else (fst (link i (drop k es)), of_nat (k - p) + (1 + snd (link i (drop k es)))))"
proof -
  have pk: "p \<le> k" using p lastpos_le [of i es k] by simp
  have low: "\<forall>e \<in> set (drop p (take k es)). ht e \<le> i"
    using lastpos_above [of i es k] p k by (auto simp: in_set_conv_nth)
  have "drop p (insert_ent k e es) = drop p (take k es) @ e # drop k es" "drop p es = drop p (take k es) @ drop k es"
    using pk k by (simp_all add: insert_ent_def) (metis append_take_drop_id drop_append drop_take length_take min.absorb2 diff_is_0_eq drop_0)
  moreover have "length (drop p (take k es)) = k - p" using k by simp
  ultimately show "link i (drop p es) = (fst (link i (drop k es)), of_nat (k - p) + snd (link i (drop k es)))"
    "link i (drop p (insert_ent k e es)) =
      (if i < ht e then (Some (ad e), of_nat (k - p) + 1) else (fst (link i (drop k es)), of_nat (k - p) + (1 + snd (link i (drop k es)))))"
    using link_skip [OF low] by simp_all
qed

lemma at_mem: "q < length es \<Longrightarrow> ad (es ! q) \<in> ad ` set es"
  by simp

lemma at_inj:
  assumes "distinct (map ad es)" and "x \<notin> ad ` set es" and "p \<le> length es" and "q \<le> length es"
  shows "at x es p = at x es q \<longleftrightarrow> p = q"
proof -
  have out: "x \<noteq> ad (es ! b)" if "b < length es" for b using at_mem [OF that] assms(2) by metis
  have inj: "ad (es ! a) = ad (es ! b) \<longleftrightarrow> a = b" if "a < length es" "b < length es" for a b
    using that assms(1) nth_eq_iff_index_eq [of "map ad es" a b] by simp
  show ?thesis using assms(3,4) out inj out [symmetric] by (cases p; cases q) simp_all
qed

lemma at_not:
  assumes "y \<notin> ad ` set es" and "x \<noteq> y" and "p \<le> length es"
  shows "at x es p \<noteq> y"
proof (cases p)
  case (Suc q)
  then have "ad (es ! q) \<in> ad ` set es" using assms(3) by (intro at_mem) simp
  then show ?thesis using assms(1) Suc by (metis pos_simps(4))
qed (use assms(2) in simp)

lemma insert_at_pos:
  assumes "k \<le> length es" and "p \<le> Suc (length es)"
  shows "at x (insert_ent k e es) p = (if p \<le> k then at x es p else if p = Suc k then ad e else at x es (p - 1))"
    and "hgt l (insert_ent k e es) p = (if p \<le> k then hgt l es p else if p = Suc k then ht e else hgt l es (p - 1))"
  using assms by (cases p; auto simp: insert_ent_nth at_def hgt_def split: nat.splits)+

lemma links_insert:
  assumes d: "distinct (map ad es)" "x \<notin> ad ` set es" "x \<noteq> ad e" "ad e \<notin> ad ` set es"
    and k: "k \<le> length es" and l: "ht e \<le> l"
    and old: "links_ok h x l es"
    and new: "\<And>y j. j < l \<Longrightarrow> lv h' y j =
      (if j < ht e \<and> y = ad e then Some (link j (drop k es))
       else if y = at x es (lastpos j es k) then Some (link j (drop (lastpos j es k) (insert_ent k e es)))
       else lv h y j)"
    and top: "\<forall>f \<in> set es. ht f \<le> l"
  shows "links_ok h' x l (insert_ent k e es)"
  unfolding links_ok_def
proof (intro allI impI)
  fix p i
  assume p: "p \<le> length (insert_ent k e es)" and i: "i < hgt l (insert_ent k e es) p"
  have p': "p \<le> Suc (length es)" using p k by simp
  note pos = insert_at_pos [OF k p']
  have lp: "lastpos i es k \<le> length es" using lastpos_le [of i es k] k by simp
  have ne: "at x es q \<noteq> ad e" if "q \<le> length es" for q by (rule at_not [OF d(4,3) that])
  have il: "i < l" using i pos(2) [of l e] l top k p' by (cases p) (auto simp: hgt_def split: if_splits nat.splits intro: less_le_trans)
  consider "p \<le> k" | "p = Suc k" | "Suc k < p" by linarith
  then show "lv h' (at x (insert_ent k e es) p) i = Some (link i (drop p (insert_ent k e es)))"
  proof cases
    case 1
    then have hp: "i < hgt l es p" using i pos(2) by simp
    have a: "at x (insert_ent k e es) p = at x es p" using 1 pos(1) by simp
    show ?thesis
    proof (cases "p = lastpos i es k")
      case True
      then show ?thesis unfolding a using new [OF il, of "at x es p"] ne [OF lp] by simp
    next
      case False
      then have "p < lastpos i es k" using lastpos_max [OF 1 hp] by simp
      moreover have "at x es p \<noteq> at x es (lastpos i es k)" using at_inj [OF d(1,2) _ lp, of p] 1 k False by simp
      ultimately show ?thesis unfolding a
        using new [OF il, of "at x es p"] ne [of p] 1 k old hp link_before [OF k, of p i e] by (simp add: links_ok_def)
    qed
  next
    case 2
    then show ?thesis using i pos new [OF il, of "ad e"] insert_ent_drop [OF k, of p e] by simp
  next
    case 3
    then have q: "p - 1 \<le> length es" "k < p - 1" using p' by simp_all
    moreover have "at x es (p - 1) \<noteq> at x es (lastpos i es k)"
      using at_inj [OF d(1,2) q(1) lp] q(2) lastpos_le [of i es k] by simp
    ultimately show ?thesis using 3 i pos new [OF il, of "at x es (p - 1)"] ne [OF q(1)] insert_ent_drop [OF k, of p e] old
      by (simp add: links_ok_def)
  qed
qed

subsection \<open>Insertion\<close>

definition path :: "nat \<Rightarrow> ('s, 'e) ent list \<Rightarrow> nat \<Rightarrow> nat \<Rightarrow> (nat \<times> 'w::len word) list" where
  \<comment> \<open>the arrays update and rank of a search for position \<open>k\<close>\<close>
  "path x es k l = map (\<lambda>i. (at x es (lastpos i es k), of_nat (lastpos i es k))) [0..<l]"

lemma path_nth: "i < l \<Longrightarrow> path x es k l ! i = (at x es (lastpos i es k), of_nat (lastpos i es k))"
  by (simp add: path_def)

lemma not_header: "shape_ok z es \<Longrightarrow> q < length es \<Longrightarrow> ad (es ! q) \<noteq> header z"
  unfolding shape_ok_def by (metis at_mem)

lemma lv_exists: "node_ok h x e s n b \<Longrightarrow> i < n \<Longrightarrow> \<exists>v. lv h x i = Some v"
  by (auto simp: node_ok_def lv_def)

lemma lastpos_low: "\<forall>e \<in> set es. ht e \<le> i \<Longrightarrow> k \<le> length es \<Longrightarrow> lastpos i es k = 0"
proof (induction k)
  case (Suc k)
  then have "\<not> i < ht (es ! k)" "k \<le> length es" using nth_mem [of k es] by (metis Suc_le_eq not_less, simp)
  then show ?case using Suc.IH Suc.prems by (simp only: lastpos.simps if_False)
qed simp

lemma prepare_ok:
  assumes z: "zrep h z es" and k: "k \<le> length es" and lvl: "lvl \<le> 32"
  defines "L \<equiv> (if lvl > zlevel z then lvl else zlevel z)"
  shows "\<exists>h1. (if lvl > zlevel z then grow_level z lvl (path (header z) es k (zlevel z)) h else Some (path (header z) es k (zlevel z), h)) =
      Some (path (header z) es k L, h1) \<and> same_nodes h h1 \<and> links_ok h1 (header z) L es \<and> heads_ok h1 (header z) L"
proof (cases "lvl > zlevel z")
  case False
  then show ?thesis using z by (simp add: L_def zrep_def)
next
  case True
  let ?x = "header z" and ?f = "\<lambda>i h. do { (f, _) \<leftarrow> lv h (header z) i; set_lv (header z) i (f, ucast (zlength z)) h }"
  have top: "\<forall>e \<in> set es. ht e \<le> i" if "zlevel z \<le> i" for i using z that by (fastforce simp: zrep_def shape_ok_def)
  have "\<exists>h'. for_loop ?f [zlevel z..<lvl] h = Some h' \<and> same_nodes h h' \<and>
      (\<forall>y j. lv h' y j = (if j \<in> set [zlevel z..<lvl] then (if y = ?x then Some (None, ucast (zlength z)) else lv h y j) else lv h y j))"
  proof (rule for_levels [where h0 = h])
    fix i h'
    assume i: "i \<in> set [zlevel z..<lvl]" and e: "\<forall>y. lv h' y i = lv h y i"
    then obtain sp where sp: "lv h' ?x i = Some (None, sp)" using z lvl by (fastforce simp: zrep_def heads_ok_def)
    then show "\<exists>h''. ?f i h' = Some h'' \<and> same_nodes h' h'' \<and>
        (\<forall>y j. lv h'' y j = (if j = i then (if y = ?x then Some (None, ucast (zlength z)) else lv h y i) else lv h' y j))"
      using set_lv_ok [OF sp, of "(None, ucast (zlength z))"] e by auto
  qed simp_all
  then obtain h1 where h1: "for_loop ?f [zlevel z..<lvl] h = Some h1" "same_nodes h h1"
    "\<And>y j. lv h1 y j = (if zlevel z \<le> j \<and> j < lvl \<and> y = ?x then Some (None, ucast (zlength z)) else lv h y j)"
    by auto
  have "(path ?x es k lvl :: (nat \<times> u32) list) = path ?x es k (zlevel z) @ map (\<lambda>i. (at ?x es (lastpos i es k), of_nat (lastpos i es k))) [zlevel z..<lvl]"
    using True upt_add_eq_append [of 0 "zlevel z" "lvl - zlevel z"] by (simp add: path_def)
  also have "map (\<lambda>i. (at ?x es (lastpos i es k), of_nat (lastpos i es k))) [zlevel z..<lvl] = map (\<lambda>_. (?x, 0)) [zlevel z..<lvl]"
    using lastpos_low [OF top k] by simp
  finally have us: "grow_level z lvl (path ?x es k (zlevel z)) h = Some (path ?x es k lvl, h1)" using h1(1) by (simp add: grow_level_def)
  have "links_ok h1 ?x lvl es" unfolding links_ok_def
  proof (intro allI impI)
    fix p i assume p: "p \<le> length es" and i: "i < hgt lvl es p"
    show "lv h1 (at ?x es p) i = Some (link i (drop p es))"
    proof (cases p)
      case 0
      have "ucast (zlength z) = (of_nat (length es) :: u32)" using z by (simp add: zrep_def shape_ok_def unsigned_of_nat take_bit_nat_eq_self)
      then show ?thesis using 0 i h1(3) z link_nil [OF top] by (auto simp: zrep_def links_ok_def)
    next
      case (Suc q)
      then have "ad (es ! q) \<noteq> ?x" using z p not_header [of z es q] by (simp add: zrep_def)
      then show ?thesis using Suc p i h1(3) z by (auto simp: zrep_def links_ok_def)
    qed
  qed
  moreover have "heads_ok h1 ?x lvl" using z h1(2,3) True by (simp add: zrep_def heads_ok_def same_nodes_def)
  ultimately show ?thesis using True us h1(2) by (simp add: L_def)
qed

lemma link_loops_ok:
  assumes d: "distinct (map ad es)" "hx \<notin> ad ` set es" and pos: "\<forall>f \<in> set es. 0 < ht f" and k: "k \<le> length es"
    and links: "links_ok h1 hx l es" and x: "h1 (ad e) = None" and lt: "0 < ht e" "ht e \<le> l"
    and nd: "length (level nd) = ht e"
  defines "us \<equiv> path hx es k l"
  shows "\<exists>h3 h4. for_loop (link_level us (ad e)) [0..<ht e] (h1(ad e \<mapsto> nd)) = Some h3 \<and> for_loop (bump_span us) [ht e..<l] h3 = Some h4 \<and>
    same_nodes (h1(ad e \<mapsto> nd)) h4 \<and> (\<forall>y j. lv h4 y j =
      (if j < ht e \<and> y = ad e then Some (link j (drop k es))
       else if j < l \<and> y = at hx es (lastpos j es k) then Some (link j (drop (lastpos j es k) (insert_ent k e es)))
       else lv (h1(ad e \<mapsto> nd)) y j))"
proof -
  let ?h2 = "h1(ad e \<mapsto> nd)" and ?u = "\<lambda>i. at hx es (lastpos i es k)"
  have u: "lv h1 (?u i) i = Some (link i (drop (lastpos i es k) es))" if "i < l" for i
  proof -
    have "lastpos i es k \<le> length es" "i < hgt l es (lastpos i es k)"
      using lastpos_le [of i es k] k lastpos_hgt [OF that] by simp_all
    then show ?thesis using links unfolding links_ok_def by blast
  qed
  have ux: "?u i \<noteq> ad e" if "i < l" for i using u [OF that] x by (auto simp: lv_def)
  have u2: "lv ?h2 (?u i) i = Some (link i (drop (lastpos i es k) es))" if "i < l" for i
    using u [OF that] ux [OF that] by (simp add: lv_def)
  have l0: "0 < l" using lt by simp
  have r0: "snd (us ! 0) = of_nat k" using lastpos_full [OF pos k] l0 by (simp add: us_def path_nth)
  have diff: "(of_nat k :: u32) - of_nat (lastpos i es k) = of_nat (k - lastpos i es k)" for i
    using lastpos_le [of i es k] by simp
  have "\<exists>h3. for_loop (link_level us (ad e)) [0..<ht e] ?h2 = Some h3 \<and> same_nodes ?h2 h3 \<and>
      (\<forall>y j. lv h3 y j = (if j \<in> set [0..<ht e] then (if y = ad e then Some (link j (drop k es))
         else if y = ?u j then Some (link j (drop (lastpos j es k) (insert_ent k e es))) else lv ?h2 y j) else lv ?h2 y j))"
  proof (rule for_levels [where h0 = ?h2])
    fix i h
    assume i: "i \<in> set [0..<ht e]" and s: "same_nodes ?h2 h" and eq: "\<forall>y. lv h y i = lv ?h2 y i"
    then have il: "i < l" "i < ht e" using lt by auto
    have ui: "lv h (?u i) i = Some (link i (drop (lastpos i es k) es))" using eq u2 [OF il(1)] by simp
    obtain v0 where "lv h (ad e) i = Some v0" using eq nd il(2) by (auto simp: lv_def)
    from set_lv_ok [OF this, of "link i (drop k es)"] obtain h' where h': "set_lv (ad e) i (link i (drop k es)) h = Some h'" "same_nodes h h'"
      "\<forall>y j. lv h' y j = (if y = ad e \<and> j = i then Some (link i (drop k es)) else lv h y j)" by blast
    have "lv h' (?u i) i = Some (link i (drop (lastpos i es k) es))" using h'(3) ui ux [OF il(1)] by simp
    from set_lv_ok [OF this, of "(Some (ad e), of_nat (k - lastpos i es k) + 1)"] obtain h'' where
      h'': "set_lv (?u i) i (Some (ad e), of_nat (k - lastpos i es k) + 1) h' = Some h''" "same_nodes h' h''"
      "\<forall>y j. lv h'' y j = (if y = ?u i \<and> j = i then Some (Some (ad e), of_nat (k - lastpos i es k) + 1) else lv h' y j)" by blast
    note lu = link_update [OF k refl, of i]
    have "link_level us (ad e) i h = Some h''"
      using ui h'(1) h''(1) il r0 diff by (simp add: link_level_def us_def path_nth lu(1))
    then show "\<exists>h''. link_level us (ad e) i h = Some h'' \<and> same_nodes h h'' \<and>
        (\<forall>y j. lv h'' y j = (if j = i then (if y = ad e then Some (link i (drop k es))
         else if y = ?u i then Some (link i (drop (lastpos i es k) (insert_ent k e es))) else lv ?h2 y i) else lv h y j))"
      using h'(2,3) h''(2,3) same_nodes_trans eq il ux [OF il(1)] lu(2) [of e] by auto
  qed simp_all
  then obtain h3 where h3: "for_loop (link_level us (ad e)) [0..<ht e] ?h2 = Some h3" "same_nodes ?h2 h3"
    "\<And>y j. lv h3 y j = (if j < ht e \<and> y = ad e then Some (link j (drop k es))
       else if j < ht e \<and> y = ?u j then Some (link j (drop (lastpos j es k) (insert_ent k e es))) else lv ?h2 y j)"
    by auto
  have "\<exists>h4. for_loop (bump_span us) [ht e..<l] h3 = Some h4 \<and> same_nodes h3 h4 \<and>
      (\<forall>y j. lv h4 y j = (if j \<in> set [ht e..<l] then (if y = ?u j then Some (link j (drop (lastpos j es k) (insert_ent k e es))) else lv h3 y j) else lv h3 y j))"
  proof (rule for_levels [where h0 = h3])
    fix i h
    assume i: "i \<in> set [ht e..<l]" and eq: "\<forall>y. lv h y i = lv h3 y i"
    then have il: "i < l" "\<not> i < ht e" by auto
    note lu = link_update [OF k refl, of i]
    have ui: "lv h (?u i) i = Some (link i (drop (lastpos i es k) es))" using eq u2 [OF il(1)] h3(3) il by simp
    from set_lv_ok [OF ui, of "link i (drop (lastpos i es k) (insert_ent k e es))"] obtain h' where
      h': "set_lv (?u i) i (link i (drop (lastpos i es k) (insert_ent k e es))) h = Some h'" "same_nodes h h'"
      "\<forall>y j. lv h' y j = (if y = ?u i \<and> j = i then Some (link i (drop (lastpos i es k) (insert_ent k e es))) else lv h y j)" by blast
    have "bump_span us i h = Some h'"
      using ui h'(1) il by (simp add: bump_span_def us_def path_nth lu add.commute add.left_commute)
    then show "\<exists>h'. bump_span us i h = Some h' \<and> same_nodes h h' \<and>
        (\<forall>y j. lv h' y j = (if j = i then (if y = ?u i then Some (link i (drop (lastpos i es k) (insert_ent k e es))) else lv h3 y i) else lv h y j))"
      using h'(2,3) eq by auto
  qed simp_all
  then obtain h4 where h4: "for_loop (bump_span us) [ht e..<l] h3 = Some h4" "same_nodes h3 h4"
    "\<And>y j. lv h4 y j = (if ht e \<le> j \<and> j < l \<and> y = ?u j then Some (link j (drop (lastpos j es k) (insert_ent k e es))) else lv h3 y j)"
    by auto
  have "same_nodes ?h2 h4" using h3(2) h4(2) by (rule same_nodes_trans)
  moreover have "lv h4 y j = (if j < ht e \<and> y = ad e then Some (link j (drop k es))
       else if j < l \<and> y = ?u j then Some (link j (drop (lastpos j es k) (insert_ent k e es)))
       else lv ?h2 y j)" for y j
    using lt by (cases "j < ht e") (auto simp: h4(3) h3(3))
  ultimately show ?thesis using h3(1) h4(1) by blast
qed

lemma set_backward_ok:
  assumes "node_ok h x e s n b"
  shows "\<exists>h'. set_backward x b' h = Some h' \<and> lv h' = lv h \<and> dom h' = dom h \<and> node_ok h' x e s n b' \<and>
    (\<forall>y e s n b. y \<noteq> x \<longrightarrow> node_ok h' y e s n b = node_ok h y e s n b)"
proof -
  obtain nd where nd: "h x = Some nd" "ele nd = e" "score nd = s" "length (level nd) = n" using assms by (auto simp: node_ok_def)
  let ?h' = "h(x \<mapsto> nd\<lparr>backward := b'\<rparr>)"
  have "lv ?h' = lv h" using nd by (auto simp: fun_eq_iff lv_def)
  moreover have "node_ok ?h' x e s n b'" using nd by (simp add: node_ok_def)
  moreover have "\<forall>y e s n b. y \<noteq> x \<longrightarrow> node_ok ?h' y e s n b = node_ok h y e s n b" by (simp add: node_ok_def)
  ultimately show ?thesis using nd by (auto simp: set_backward_def)
qed

lemma upto_pos_pred:
  fixes cond :: "('s::linorder, 'e::linorder) znode \<Rightarrow> 'w::len word \<Rightarrow> bool"
  assumes z: "zrep h z es" and c: "\<And>n w q. q < length es \<Longrightarrow> ele n = Some (el (es ! q)) \<Longrightarrow> score n = sc (es ! q) \<Longrightarrow> cond n w = P (es ! q)"
    and P: "\<And>a b. a \<in> set es \<Longrightarrow> b \<in> set es \<Longrightarrow> key_less a b \<Longrightarrow> P b \<Longrightarrow> P a"
  shows "upto_pos h es cond (length (takeWhile P es))"
  unfolding upto_pos_def
proof (intro conjI allI impI)
  let ?k = "length (takeWhile P es)"
  show "?k \<le> length es" by (rule length_takeWhile_le)
  fix q n assume q: "q < length es" and n: "h (ad (es ! q)) = Some n"
  have "ele n = Some (el (es ! q))" "score n = sc (es ! q)" using z q n by (auto simp: zrep_def node_ok_def)
  then have "cond n (of_nat (Suc q)) = P (es ! q)" by (rule c [OF q])
  also have "P (es ! q) \<longleftrightarrow> q < ?k"
  proof
    assume p: "P (es ! q)"
    show "q < ?k"
    proof (rule ccontr)
      assume "\<not> q < ?k"
      then have k: "?k \<le> q" by simp
      then have nk: "\<not> P (es ! ?k)" using q nth_length_takeWhile [of P es] by simp
      then have "?k \<noteq> q" using p by metis
      then have "key_less (es ! ?k) (es ! q)" using z k q by (auto simp: zrep_def shape_ok_def sorted_wrt_iff_nth_less)
      then show False using P [of "es ! ?k" "es ! q"] k q p nk by simp
    qed
  qed (use takeWhile_nth [of q P es] set_takeWhileD [of "es ! q" P es] nth_mem [of q "takeWhile P es"] in simp)
  finally show "cond n (of_nat (Suc q)) = (q < ?k)" .
qed

definition before :: "'s::linorder \<Rightarrow> 'e::linorder \<Rightarrow> ('s, 'e) ent \<Rightarrow> bool" where
  "before s e a \<longleftrightarrow> sc a < s \<or> sc a = s \<and> el a < e"

lemma before_upto: "zrep h z es \<Longrightarrow> upto_pos h es (node_before s e) (length (takeWhile (before s e) es))"
  by (rule upto_pos_pred) (auto simp: node_before_def before_def key_less_def)

lemma random_loop_ge: "random_loop rnd k l = Some m \<Longrightarrow> l \<le> m"
proof (rule random_loop.raw_induct [where P = "\<lambda>rnd k l m. l \<le> m"])
  fix loop :: "(nat \<Rightarrow> nat) \<Rightarrow> nat \<Rightarrow> nat \<Rightarrow> nat option" and rnd k l m
  assume "\<And>rnd k l m. loop rnd k l = Some m \<Longrightarrow> l \<le> m"
    and "(if 100 * (rnd k mod 65536) < 1638375 then loop rnd (k + 1) (l + 1) else Some l) = Some m"
  then show "l \<le> m" by (fastforce split: if_splits)
qed

lemma zslRandomLevel_range: "zslRandomLevel rnd = Some l \<Longrightarrow> 0 < l \<and> l \<le> 32"
  using random_loop_ge [of rnd 0 1] by (auto simp: zslRandomLevel_def ZSKIPLIST_MAXLEVEL_def bind_eq_Some_conv)

lemma random_loop_returns: "65536 \<le> 4 * (rnd (k + j) mod 65536) \<Longrightarrow> \<exists>m. random_loop rnd k l = Some m"
proof (induction j arbitrary: k l)
  case 0
  then show ?case by (subst random_loop.simps) simp
next
  case (Suc j)
  then show ?case using Suc.IH [of "k + 1" "l + 1"] by (subst random_loop.simps) auto
qed

definition down_closed :: "('s::linorder, 'e::linorder) ent list \<Rightarrow> (('s, 'e) ent \<Rightarrow> bool) \<Rightarrow> bool" where
  "down_closed es P \<longleftrightarrow> (\<forall>a \<in> set es. \<forall>b \<in> set es. key_less a b \<longrightarrow> P b \<longrightarrow> P a)"

lemma dropWhile_not:
  assumes "sorted_wrt key_less es" and "down_closed es P" and "a \<in> set (dropWhile P es)"
  shows "\<not> P a"
  using assms
proof (induction es)
  case (Cons b es)
  then show ?case by (auto simp: down_closed_def split: if_splits)
qed simp

lemma before_down: "down_closed es (before s e)"
  by (auto simp: before_def key_less_def down_closed_def)

lemma sorted_insert:
  assumes s: "sorted_wrt key_less es" and new: "\<forall>a \<in> set es. \<not> (sc a = s \<and> el a = e)"
    and x: "sc x = s" "el x = e"
  shows "sorted_wrt key_less (insert_ent (length (takeWhile (before s e) es)) x es)"
proof -
  let ?t = "takeWhile (before s e) es" and ?d = "dropWhile (before s e) es"
  have "take (length ?t) es = ?t" "drop (length ?t) es = ?d" 
    by (rule takeWhile_eq_take [symmetric], rule dropWhile_eq_drop [symmetric])
  moreover have "sorted_wrt key_less ?t" "sorted_wrt key_less ?d" "\<forall>a \<in> set ?t. \<forall>b \<in> set ?d. key_less a b"
    using s takeWhile_dropWhile_id [of "before s e" es] sorted_wrt_append [of key_less ?t ?d] by simp_all
  moreover have "key_less a x" if "a \<in> set ?t" for a
    using set_takeWhileD [OF that] x by (simp add: before_def key_less_def)
  moreover have "key_less x a" if "a \<in> set ?d" for a
  proof -
    have "\<not> before s e a" using s before_down that by (rule dropWhile_not)
    moreover have "a \<in> set es" using that by (rule set_dropWhileD)
    ultimately show ?thesis using new x by (auto simp: before_def key_less_def)
  qed
  ultimately show ?thesis unfolding insert_ent_def sorted_wrt_append by simp
qed

lemma prev_ad_insert:
  assumes "k \<le> length es" and "p \<le> Suc (length es)"
  shows "prev_ad (insert_ent k e es) p = (if p \<le> k then prev_ad es p else if p = Suc k then Some (ad e) else prev_ad es (p - 1))"
  using assms by (cases p) (auto simp: insert_ent_nth prev_ad_def split: nat.splits)

definition nodes_ok :: "('s, 'e) zheap \<Rightarrow> (nat \<Rightarrow> nat option) \<Rightarrow> ('s, 'e) ent list \<Rightarrow> bool" where
  \<comment> \<open>the nodes of the list, with their backward pointers\<close>
  "nodes_ok h b es \<longleftrightarrow> (\<forall>q < length es. node_ok h (ad (es ! q)) (Some (el (es ! q))) (sc (es ! q)) (ht (es ! q)) (b q))"

lemma nodes_insert:
  assumes k: "k \<le> length es"
  shows "nodes_ok h (prev_ad (insert_ent k e es)) (insert_ent k e es) \<longleftrightarrow>
    node_ok h (ad e) (Some (el e)) (sc e) (ht e) (prev_ad es k) \<and>
    nodes_ok h (\<lambda>q. if q = k then Some (ad e) else prev_ad es q) es" (is "?l \<longleftrightarrow> ?e \<and> ?r")
proof -
  let ?n = "\<lambda>f b. node_ok h (ad f) (Some (el f)) (sc f) (ht f) b" and ?i = "insert_ent k e es"
  have old: "?i ! q = es ! q \<and> prev_ad ?i q = prev_ad es q" if "q < k" for q
    using that k by (simp add: insert_ent_nth prev_ad_insert)
  have here: "?i ! k = e \<and> prev_ad ?i k = prev_ad es k" using k by (simp add: insert_ent_nth prev_ad_insert)
  have later: "?i ! Suc q = es ! q \<and> prev_ad ?i (Suc q) = (if q = k then Some (ad e) else prev_ad es q)" if "k \<le> q" "q < length es" for q
    using that k by (simp add: insert_ent_nth prev_ad_insert)
  show ?thesis
  proof (intro iffI conjI)
    assume l: ?l
    show ?e using l k here unfolding nodes_ok_def by (metis insert_ent_simps(1) le_imp_less_Suc)
    show ?r unfolding nodes_ok_def
    proof (intro allI impI)
      fix q assume q: "q < length es"
      show "?n (es ! q) (if q = k then Some (ad e) else prev_ad es q)"
      proof (cases "q < k")
        case True
        then show ?thesis using l old [OF True] k q unfolding nodes_ok_def by (auto dest!: spec [of _ q])
      next
        case False
        then show ?thesis using l later [of q] k q unfolding nodes_ok_def by (auto dest!: spec [of _ "Suc q"])
      qed
    qed
  next
    assume r: "?e \<and> ?r"
    show ?l unfolding nodes_ok_def
    proof (intro allI impI)
      fix q assume "q < length ?i"
      then have q: "q \<le> length es" using k by simp
      consider "q < k" | "q = k" | "k < q" by linarith
      then show "?n (?i ! q) (prev_ad ?i q)"
      proof cases
        case 1
        then show ?thesis using r old [OF 1] k unfolding nodes_ok_def by (auto dest!: spec [of _ q])
      next
        case 3
        then have "?i ! q = es ! (q - 1)" "prev_ad ?i q = (if q - 1 = k then Some (ad e) else prev_ad es (q - 1))"
          using later [of "q - 1"] q by auto
        moreover have "q - 1 < length es" using 3 q by simp
        ultimately show ?thesis using r unfolding nodes_ok_def by (auto dest!: spec [of _ "q - 1"])
      qed (use r here in simp)
    qed
  qed
qed

lemma zrep_nodes: "zrep h z es \<longleftrightarrow> shape_ok z es \<and> heads_ok h (header z) (zlevel z) \<and> links_ok h (header z) (zlevel z) es \<and> nodes_ok h (prev_ad es) es"
  by (simp add: zrep_def nodes_ok_def)

lemma at_prev: "shape_ok z es \<Longrightarrow> k \<le> length es \<Longrightarrow> (if at (header z) es k = header z then None else Some (at (header z) es k)) = prev_ad es k"
  using not_header [of z es] by (cases k) (auto simp: prev_ad_def)

definition fresh_new :: "(('s, 'e) zheap \<Rightarrow> nat) \<Rightarrow> bool" where
  \<comment> \<open>the allocator returns an address that is not in use\<close>
  "fresh_new new \<longleftrightarrow> (\<forall>h. finite (dom h) \<longrightarrow> h (new h) = None)"

lemma heads_same: "heads_ok h x l \<Longrightarrow> same_nodes h h' \<Longrightarrow> (\<And>i. l \<le> i \<Longrightarrow> lv h' x i = lv h x i) \<Longrightarrow> heads_ok h' x l"
  by (simp add: heads_ok_def same_nodes_def)

lemma heads_new: "heads_ok h x l \<Longrightarrow> y \<noteq> x \<Longrightarrow> heads_ok (h(y := nd)) x l"
  by (simp add: heads_ok_def node_ok_def lv_def)

lemma heads_back: "heads_ok h x l \<Longrightarrow> lv h' = lv h \<Longrightarrow> (\<And>e s n b. node_ok h' x e s n b = node_ok h x e s n b) \<Longrightarrow> heads_ok h' x l"
  by (simp add: heads_ok_def)

lemma links_cong: "links_ok h x l es \<Longrightarrow> lv h' = lv h \<Longrightarrow> links_ok h' x l es"
  by (simp add: links_ok_def)

lemma nodes_same: "nodes_ok h b es \<Longrightarrow> same_nodes h h' \<Longrightarrow> nodes_ok h' b es"
  by (simp add: nodes_ok_def same_nodes_def)

lemma nodes_new: "nodes_ok h b es \<Longrightarrow> x \<notin> ad ` set es \<Longrightarrow> nodes_ok (h(x := nd)) b es"
  unfolding nodes_ok_def node_ok_def by (metis at_mem fun_upd_other)

lemma shape_insert:
  assumes sh: "shape_ok z es" and k: "k = length (takeWhile (before (sc e) (el e)) es)"
    and new: "\<forall>a \<in> set es. \<not> (sc a = sc e \<and> el a = el e)"
    and e: "ad e \<notin> ad ` set es" "ad e \<noteq> header z" "0 < ht e" "ht e \<le> 32" and n: "Suc (length es) < 2 ^ 32"
    and L: "L = (if ht e > zlevel z then ht e else zlevel z)"
  shows "shape_ok (z\<lparr>zlevel := L, tail := (if k < length es then tail z else Some (ad e)), zlength := zlength z + 1\<rparr>) (insert_ent k e es)"
proof -
  have kl: "k \<le> length es" unfolding k by (rule length_takeWhile_le)
  have "distinct (map ad (insert_ent k e es))"
  proof -
    have "distinct (map ad (take k es) @ map ad (drop k es))" using sh by (simp add: shape_ok_def flip: map_append)
    moreover have "ad e \<notin> ad ` set (take k es)" "ad e \<notin> ad ` set (drop k es)"
      using e(1) by (auto dest: in_set_takeD in_set_dropD)
    ultimately show ?thesis by (auto simp: insert_ent_def)
  qed
  moreover have "sorted_wrt key_less (insert_ent k e es)"
    unfolding k using sh new by (intro sorted_insert) (simp_all add: shape_ok_def)
  moreover have "prev_ad (insert_ent k e es) (Suc (length es)) = (if k < length es then tail z else Some (ad e))"
    using prev_ad_insert [OF kl, of "Suc (length es)" e] sh kl by (auto simp: shape_ok_def)
  ultimately show ?thesis using sh e n L kl unfolding shape_ok_def by (auto intro: le_trans less_le_trans)
qed

lemma relink_backward:
  \<comment> \<open>the node behind the removed one gets its backward pointer\<close>
  assumes nodes: "nodes_ok h (\<lambda>q. if q = k then b else prev_ad es q) es" and k: "k < length es" and d: "distinct (map ad es)"
  shows "\<exists>h'. set_backward (ad (es ! k)) b' h = Some h' \<and> lv h' = lv h \<and> dom h' = dom h \<and>
    nodes_ok h' (\<lambda>q. if q = k then b' else prev_ad es q) es \<and>
    (\<forall>y e s n b. y \<notin> ad ` set es \<longrightarrow> node_ok h' y e s n b = node_ok h y e s n b)"
proof -
  let ?y = "ad (es ! k)"
  have "node_ok h ?y (Some (el (es ! k))) (sc (es ! k)) (ht (es ! k)) b" using nodes k by (auto simp: nodes_ok_def)
  from set_backward_ok [OF this, of b'] obtain h' where h': "set_backward ?y b' h = Some h'" "lv h' = lv h" "dom h' = dom h"
    "node_ok h' ?y (Some (el (es ! k))) (sc (es ! k)) (ht (es ! k)) b'" "\<And>y e s n b. y \<noteq> ?y \<Longrightarrow> node_ok h' y e s n b = node_ok h y e s n b" by blast
  have "q \<noteq> k \<Longrightarrow> q < length es \<Longrightarrow> ad (es ! q) \<noteq> ?y" for q using d k nth_eq_iff_index_eq [of "map ad es" q k] by simp
  then have "nodes_ok h' (\<lambda>q. if q = k then b' else prev_ad es q) es" using nodes h'(4,5) by (auto simp: nodes_ok_def)
  moreover have "\<forall>y e s n b. y \<notin> ad ` set es \<longrightarrow> node_ok h' y e s n b = node_ok h y e s n b" using h'(5) at_mem [OF k] by metis
  ultimately show ?thesis using h'(1,2,3) by blast
qed

lemma relink_ok:
  assumes nodes: "nodes_ok h (\<lambda>q. if q = k then b else prev_ad es q) es" and d: "distinct (map ad es)"
  shows "\<exists>h'. (if k < length es then set_backward (ad (es ! k)) b' h else Some h) = Some h' \<and> lv h' = lv h \<and> dom h' = dom h \<and>
    nodes_ok h' (\<lambda>q. if q = k then b' else prev_ad es q) es \<and>
    (\<forall>y e s n b. y \<notin> ad ` set es \<longrightarrow> node_ok h' y e s n b = node_ok h y e s n b)"
proof (cases "k < length es")
  case True
  then show ?thesis using relink_backward [OF nodes True d, of b'] by simp
next
  case False
  then show ?thesis using nodes by (auto simp: nodes_ok_def)
qed

lemma nodes_prev: "nodes_ok h (\<lambda>q. if q = k then prev_ad es k else prev_ad es q) es = nodes_ok h (prev_ad es) es"
  by (rule arg_cong [where f = "\<lambda>b. nodes_ok h b es"]) auto

lemma link_first: "\<forall>f \<in> set es. 0 < ht f \<Longrightarrow> k \<le> length es \<Longrightarrow> fst (link 0 (drop k es)) = (if k < length es then Some (ad (es ! k)) else None)"
  by (auto simp flip: Cons_nth_drop_Suc)

lemma insert_links_ok:
  assumes sh: "shape_ok z es" and k: "k \<le> length es" and nodes: "nodes_ok h1 (prev_ad es) es"
    and links: "links_ok h1 (header z) L es" and heads: "heads_ok h1 (header z) L"
    and x: "h1 (ad e) = None" "ad e \<notin> ad ` set es" "ad e \<noteq> header z" and lvl: "0 < ht e" "ht e \<le> L" "zlevel z \<le> L"
    and nd: "length (level nd) = ht e" "ele nd = Some (el e)" "score nd = sc e"
  shows "\<exists>h3 h4. for_loop (link_level (path (header z) es k L) (ad e)) [0..<ht e] (h1(ad e \<mapsto> nd)) = Some h3 \<and>
    for_loop (bump_span (path (header z) es k L)) [ht e..<L] h3 = Some h4 \<and> dom h4 = insert (ad e) (dom h1) \<and>
    links_ok h4 (header z) L (insert_ent k e es) \<and> heads_ok h4 (header z) L \<and> nodes_ok h4 (prev_ad es) es \<and>
    node_ok h4 (ad e) (Some (el e)) (sc e) (ht e) (backward nd) \<and> lv h4 (ad e) 0 = Some (link 0 (drop k es))"
proof -
  let ?h2 = "h1(ad e \<mapsto> nd)"
  have d: "distinct (map ad es)" "header z \<notin> ad ` set es" "\<forall>f \<in> set es. 0 < ht f" using sh by (simp_all add: shape_ok_def)
  obtain h3 h4 where h4: "for_loop (link_level (path (header z) es k L) (ad e)) [0..<ht e] ?h2 = Some h3"
      "for_loop (bump_span (path (header z) es k L)) [ht e..<L] h3 = Some h4" "same_nodes ?h2 h4"
      "\<And>y j. lv h4 y j = (if j < ht e \<and> y = ad e then Some (link j (drop k es))
       else if j < L \<and> y = at (header z) es (lastpos j es k) then Some (link j (drop (lastpos j es k) (insert_ent k e es)))
       else lv ?h2 y j)"
    using link_loops_ok [OF d k links x(1) lvl(1,2) nd(1)] by blast
  have "links_ok h4 (header z) L (insert_ent k e es)"
  proof (rule links_insert [OF d(1,2) _ x(2) k lvl(2) links])
    show "\<forall>f \<in> set es. ht f \<le> L" using sh lvl(3) by (auto simp: shape_ok_def)
  qed (use x h4(4) nd(1) in \<open>auto simp: lv_def\<close>)
  moreover have "heads_ok h4 (header z) L" using heads_new [OF heads x(3)] h4(3)
    by (rule heads_same) (use x(3) lvl(2) h4(4) in auto)
  moreover have "nodes_ok h4 (prev_ad es) es" using nodes_new [OF nodes x(2)] h4(3) by (rule nodes_same)
  moreover have "node_ok h4 (ad e) (Some (el e)) (sc e) (ht e) (backward nd)" using h4(3) nd by (simp add: same_nodes_def node_ok_def)
  moreover have "lv h4 (ad e) 0 = Some (link 0 (drop k es))" using h4(4) lvl(1) by simp
  moreover have "dom h4 = insert (ad e) (dom h1)" using h4(3) by (simp add: same_nodes_def)
  ultimately show ?thesis using h4(1,2) by blast
qed

lemma insert_backward_ok:
  \<comment> \<open>the last part of zslInsert: the backward pointers of the new node and of the one behind it\<close>
  assumes sh: "shape_ok z es" and k: "k \<le> length es" and links: "links_ok h (header z) L (insert_ent k e es)"
    and heads: "heads_ok h (header z) L" and nodes: "nodes_ok h (prev_ad es) es"
    and x: "node_ok h (ad e) (Some (el e)) (sc e) (ht e) b" "ad e \<notin> ad ` set es" "ad e \<noteq> header z"
  shows "\<exists>h5 h6. set_backward (ad e) (prev_ad es k) h = Some h5 \<and> lv h5 = lv h \<and>
    (if k < length es then set_backward (ad (es ! k)) (Some (ad e)) h5 else Some h5) = Some h6 \<and> dom h6 = dom h \<and>
    links_ok h6 (header z) L (insert_ent k e es) \<and> heads_ok h6 (header z) L \<and> nodes_ok h6 (prev_ad (insert_ent k e es)) (insert_ent k e es)"
proof -
  have d: "distinct (map ad es)" "header z \<notin> ad ` set es" using sh by (simp_all add: shape_ok_def)
  obtain h5 where h5: "set_backward (ad e) (prev_ad es k) h = Some h5" "lv h5 = lv h" "dom h5 = dom h"
      "node_ok h5 (ad e) (Some (el e)) (sc e) (ht e) (prev_ad es k)" "\<And>y e' s n b. y \<noteq> ad e \<Longrightarrow> node_ok h5 y e' s n b = node_ok h y e' s n b"
    using set_backward_ok [OF x(1), of "prev_ad es k"] by blast
  have "ad (es ! q) \<noteq> ad e" if "q < length es" for q using x(2) at_mem [OF that] by metis
  then have "nodes_ok h5 (prev_ad es) es" using nodes h5(5) by (simp add: nodes_ok_def)
  then have "nodes_ok h5 (\<lambda>q. if q = k then prev_ad es k else prev_ad es q) es" by (simp only: nodes_prev)
  from relink_ok [OF this d(1), of "Some (ad e)"] obtain h6 where
    h6: "(if k < length es then set_backward (ad (es ! k)) (Some (ad e)) h5 else Some h5) = Some h6" "lv h6 = lv h5" "dom h6 = dom h5"
      "nodes_ok h6 (\<lambda>q. if q = k then Some (ad e) else prev_ad es q) es"
      "\<And>y e s n b. y \<notin> ad ` set es \<Longrightarrow> node_ok h6 y e s n b = node_ok h5 y e s n b" by blast
  have "links_ok h6 (header z) L (insert_ent k e es)" using links by (rule links_cong) (simp add: h6(2) h5(2))
  moreover have "heads_ok h6 (header z) L" using heads by (rule heads_back) (use h6(2,5) h5(2,5) d(2) x(3) in simp_all)
  moreover have "nodes_ok h6 (prev_ad (insert_ent k e es)) (insert_ent k e es)"
    using nodes_insert [OF k, of h6 e] h6(4,5) h5(4) x(2) by simp
  ultimately show ?thesis using h5(1-3) h6(1,3) by auto
qed

lemma zrep_fresh:
  assumes "zrep h z es" and "x \<notin> dom h"
  shows "x \<noteq> header z" "x \<notin> ad ` set es"
proof -
  show "x \<noteq> header z" using assms by (auto simp: zrep_def heads_ok_def node_ok_def)
  show "x \<notin> ad ` set es"
  proof
    assume "x \<in> ad ` set es"
    then obtain q where "q < length es" "x = ad (es ! q)" by (auto simp: in_set_conv_nth)
    then show False using assms by (auto simp: zrep_def node_ok_def)
  qed
qed

lemma zslInsert_ok:
  assumes z: "zrep h z es" and f: "finite (dom h)" and nw: "fresh_new new" and rl: "zslRandomLevel rnd = Some lvl"
    and new: "\<forall>a \<in> set es. \<not> (sc a = s \<and> el a = e)" and n: "Suc (length es) < 2 ^ 32"
  shows "\<exists>x z' h'. zslInsert junk junkb rnd new z s e h = Some (x, z', h') \<and> x \<notin> dom h \<and> dom h' = insert x (dom h) \<and>
    header z' = header z \<and> zrep h' z' (insert_ent (length (takeWhile (before s e) es)) \<lparr>ad = x, sc = s, el = e, ht = lvl\<rparr> es)"
proof -
  define k where "k = length (takeWhile (before s e) es)"
  have k: "k \<le> length es" unfolding k_def by (rule length_takeWhile_le)
  define L where "L = (if lvl > zlevel z then lvl else zlevel z)"
  have lvl: "0 < lvl" "lvl \<le> 32" "lvl \<le> L" "zlevel z \<le> L" using zslRandomLevel_range [OF rl] by (auto simp: L_def)
  have sh: "shape_ok z es" using z by (simp add: zrep_def)
  have search: "zsl_descend h (node_before s e) (zlevel z) (header z) (0 :: u32) = Some (path (header z) es k (zlevel z))"
    using search_ok [OF z before_upto [OF z, of s e], where ?'w = 32] by (simp add: path_def k_def)
  obtain h1 where h1: "(if lvl > zlevel z then grow_level z lvl (path (header z) es k (zlevel z)) h else Some (path (header z) es k (zlevel z), h)) =
      Some (path (header z) es k L, h1)" "same_nodes h h1" "links_ok h1 (header z) L es" "heads_ok h1 (header z) L"
    using prepare_ok [OF z k lvl(2)] unfolding L_def by blast
  have nodes1: "nodes_ok h1 (prev_ad es) es" using z h1(2) nodes_same by (auto simp: zrep_nodes)
  define x where "x = new h1"
  define E where "E = \<lparr>ad = x, sc = s, el = e, ht = lvl\<rparr>"
  have E: "ad E = x" "sc E = s" "el E = e" "ht E = lvl" by (simp_all add: E_def)
  have d1: "dom h1 = dom h" using h1(2) by (simp add: same_nodes_def)
  have x: "h1 x = None" "x \<notin> dom h" using nw f d1 unfolding x_def fresh_new_def by (metis, metis domIff)
  note xf = zrep_fresh [OF z x(2)]
  let ?nd = "\<lparr>ele = Some e, score = s, backward = junkb, level = map junk [0..<lvl]\<rparr>"
  obtain h3 h4 where h4: "for_loop (link_level (path (header z) es k L) x) [0..<lvl] (h1(x \<mapsto> ?nd)) = Some h3"
      "for_loop (bump_span (path (header z) es k L)) [lvl..<L] h3 = Some h4" "dom h4 = insert x (dom h1)"
      "links_ok h4 (header z) L (insert_ent k E es)" "heads_ok h4 (header z) L" "nodes_ok h4 (prev_ad es) es"
      "node_ok h4 x (Some e) s lvl junkb" "lv h4 x 0 = Some (link 0 (drop k es))"
    using insert_links_ok [OF sh k nodes1 h1(3,4), of E ?nd, unfolded E] x(1) xf lvl by auto
  obtain h5 h6 where h6: "set_backward x (prev_ad es k) h4 = Some h5" "lv h5 = lv h4"
      "(if k < length es then set_backward (ad (es ! k)) (Some x) h5 else Some h5) = Some h6" "dom h6 = dom h4"
      "links_ok h6 (header z) L (insert_ent k E es)" "heads_ok h6 (header z) L" "nodes_ok h6 (prev_ad (insert_ent k E es)) (insert_ent k E es)"
    using insert_backward_ok [OF sh k h4(4-6), unfolded E, OF h4(7) xf(2,1)] by blast
  let ?z = "z\<lparr>zlevel := L, tail := (if k < length es then tail z else Some x), zlength := zlength z + 1\<rparr>"
  have "shape_ok ?z (insert_ent k E es)"
    using shape_insert [OF sh, of k E L, unfolded E, OF k_def new xf(2,1) lvl(1,2) n L_def] .
  then have "zrep h6 ?z (insert_ent k E es)" using h6(5-7) by (simp add: zrep_nodes)
  moreover have "zslInsert junk junkb rnd new z s e h = Some (x, ?z, h6)"
  proof -
    have zL: "(if lvl > zlevel z then z\<lparr>zlevel := lvl\<rparr> else z) = z\<lparr>zlevel := L\<rparr>" by (simp add: L_def)
    have u0: "fst ((path (header z) es k L :: (nat \<times> u32) list) ! 0) = at (header z) es k"
      using lvl lastpos_full [OF _ k] sh by (simp add: path_nth shape_ok_def)
    have "lv h5 x 0 = Some (link 0 (drop k es))" using h4(8) h6(2) by simp
    moreover have "fst (link 0 (drop k es)) = (if k < length es then Some (ad (es ! k)) else None)"
      using sh by (intro link_first [OF _ k]) (simp add: shape_ok_def)
    ultimately show ?thesis using h6(1,3) unfolding zslInsert_def search
      by (simp add: rl h1(1) zL zslCreateNode_def flip: x_def, cases "link 0 (drop k es)"; cases "k < length es")
        (simp_all add: h4(1,2) u0 at_prev [OF sh k] Let_def flip: x_def)
  qed
  ultimately show ?thesis using x(2) h6(4) h4(3) d1 unfolding k_def E_def by auto
qed

subsection \<open>Deletion\<close>

lemma link_target: "fst (link i xs) = Some a \<Longrightarrow> a \<in> ad ` set xs"
  by (induction xs) (auto split: if_splits)

lemma links_at: "links_ok h x l es \<Longrightarrow> p \<le> length es \<Longrightarrow> i < hgt l es p \<Longrightarrow> lv h (at x es p) i = Some (link i (drop p es))"
  by (simp add: links_ok_def)

lemma links_delete:
  assumes d: "distinct (map ad es)" "x \<notin> ad ` set es" and k: "k \<le> length es"
    and old: "links_ok h x l (insert_ent k e es)"
    and new: "\<And>y j. j < l \<Longrightarrow> lv h' y j =
      (if y = at x es (lastpos j es k) then Some (link j (drop (lastpos j es k) es)) else lv h y j)"
    and top: "\<forall>f \<in> set es. ht f \<le> l"
  shows "links_ok h' x l es"
  unfolding links_ok_def
proof (intro allI impI)
  fix p i
  assume p: "p \<le> length es" and i: "i < hgt l es p"
  have il: "i < l" using i top p by (cases p) (auto intro: less_le_trans)
  have lp: "lastpos i es k \<le> length es" using lastpos_le [of i es k] k by simp
  show "lv h' (at x es p) i = Some (link i (drop p es))"
  proof (cases "p = lastpos i es k")
    case False
    then have same: "lv h' (at x es p) i = lv h (at x es p) i" using new [OF il] at_inj [OF d p lp] by simp
    show ?thesis
    proof (cases "p \<le> k")
      case True
      then have "p < lastpos i es k" using lastpos_max [OF True i] False by simp
      moreover have "lv h (at x es p) i = Some (link i (drop p (insert_ent k e es)))"
        using links_at [OF old, of p i] insert_at_pos [OF k, of p] True p i k by simp
      ultimately show ?thesis using same link_before [OF k, of p i e] by simp
    next
      case False
      then have "lv h (at x es p) i = Some (link i (drop (Suc p) (insert_ent k e es)))"
        using links_at [OF old, of "Suc p" i] insert_at_pos [OF k, of "Suc p" x e] insert_at_pos [OF k, of "Suc p" l e] p i k
        by (simp del: pos_simps)
      then show ?thesis using same insert_ent_drop [OF k, of "Suc p" e] False by simp
    qed
  qed (use new [OF il] in simp)
qed

lemma unlink_loop_ok:
  assumes sh: "distinct (map ad es)" "hx \<notin> ad ` set es" "hx \<noteq> ad e" "ad e \<notin> ad ` set es" and k: "k \<le> length es"
    and links: "links_ok h hx l (insert_ent k e es)"
    and us: "\<forall>i < l. us ! i = at hx es (lastpos i es k)"
  shows "\<exists>h'. for_loop (unlink_level us (ad e)) [0..<l] h = Some h' \<and> same_nodes h h' \<and>
    (\<forall>y j. lv h' y j = (if j < l \<and> y = at hx es (lastpos j es k) then Some (link j (drop (lastpos j es k) es)) else lv h y j))"
proof -
  let ?u = "\<lambda>i. at hx es (lastpos i es k)"
  have "\<exists>h'. for_loop (unlink_level us (ad e)) [0..<l] h = Some h' \<and> same_nodes h h' \<and>
    (\<forall>y j. lv h' y j = (if j \<in> set [0..<l] then (if y = ?u j then Some (link j (drop (lastpos j es k) es)) else lv h y j) else lv h y j))"
  proof (rule for_levels [where h0 = h])
    fix i h1
    assume i: "i \<in> set [0..<l]" and eq: "\<forall>y. lv h1 y i = lv h y i"
    have lk: "lastpos i es k \<le> k" by (rule lastpos_le)
    have hg: "i < hgt l es (lastpos i es k)" using i by (intro lastpos_hgt) simp
    have u: "lv h1 (?u i) i = Some (link i (drop (lastpos i es k) (insert_ent k e es)))"
      using links_at [OF links, of "lastpos i es k" i] insert_at_pos [OF k, of "lastpos i es k"] lk k hg eq by simp
    have x: "lv h1 (ad e) i = Some (link i (drop k es))" if "i < ht e"
      using links_at [OF links, of "Suc k" i] insert_at_pos [OF k, of "Suc k"] insert_ent_drop [OF k, of "Suc k" e] that k eq by simp
    have nx: "fst (link i (drop k es)) \<noteq> Some (ad e)"
      using link_target [of i "drop k es" "ad e"] sh(4) by (auto dest: in_set_dropD)
    note lu = link_update [OF k refl, of i]
    from set_lv_ok [OF u, of "link i (drop (lastpos i es k) es)"] obtain h2 where
      h2: "set_lv (?u i) i (link i (drop (lastpos i es k) es)) h1 = Some h2" "same_nodes h1 h2"
        "\<forall>y j. lv h2 y j = (if y = ?u i \<and> j = i then Some (link i (drop (lastpos i es k) es)) else lv h1 y j)" by blast
    have "unlink_level us (ad e) i h1 = Some h2"
      using i us u x nx h2(1) by (cases "i < ht e"; cases "link i (drop k es)") (simp_all add: unlink_level_def lu algebra_simps)
    then show "\<exists>h2. unlink_level us (ad e) i h1 = Some h2 \<and> same_nodes h1 h2 \<and>
      (\<forall>y j. lv h2 y j = (if j = i then (if y = ?u i then Some (link i (drop (lastpos i es k) es)) else lv h y i) else lv h1 y j))"
      using h2(2,3) eq by auto
  qed simp_all
  then show ?thesis by auto
qed

lemma link_empty: "fst (link i xs) = None \<longleftrightarrow> (\<forall>e \<in> set xs. ht e \<le> i)"
  by (induction xs) auto

lemma lower_level_ok:
  assumes "\<And>i. i < l \<Longrightarrow> lv h x i = Some (link i es)" and "\<forall>e \<in> set es. ht e \<le> l" and "0 < l"
  shows "\<exists>l'. lower_level h x l = Some l' \<and> 0 < l' \<and> l' \<le> l \<and> (\<forall>e \<in> set es. ht e \<le> l')"
  using assms
proof (induction l)
  case (Suc l)
  have l: "lv h x l = Some (link l es)" using Suc.prems(1) by simp
  show ?case
  proof (cases "0 < l \<and> fst (link l es) = None")
    case True
    then have "lower_level h x (Suc l) = lower_level h x l" using l by (cases "link l es") simp
    moreover have "\<forall>e \<in> set es. ht e \<le> l" using True link_empty by blast
    ultimately show ?thesis using Suc.IH Suc.prems(1) True by fastforce
  next
    case False
    then have "lower_level h x (Suc l) = Some (Suc l)" using l by (cases "link l es") auto
    then show ?thesis using Suc.prems by simp
  qed
qed simp

lemma zrep_free:
  assumes "zrep h z es" and "x \<notin> ad ` set es" and "x \<noteq> header z"
  shows "zrep (h(x := None)) z es"
proof -
  have "links_ok (h(x := None)) (header z) (zlevel z) es" unfolding links_ok_def
  proof (intro allI impI)
    fix p i assume pi: "p \<le> length es" "i < hgt (zlevel z) es p"
    have "at (header z) es p \<noteq> x" using at_not [OF assms(2) assms(3) [symmetric] pi(1)] .
    then show "lv (h(x := None)) (at (header z) es p) i = Some (link i (drop p es))"
      using assms(1) pi by (simp add: zrep_def links_ok_def lv_def)
  qed
  then show ?thesis using assms nodes_new [of h "prev_ad es" es x] heads_new [of h "header z" "zlevel z" x] by (simp add: zrep_nodes)
qed

lemma shape_delete:
  assumes sh: "shape_ok z (insert_ent k e es)" and k: "k \<le> length es"
    and l: "0 < l" "l \<le> 32" "\<forall>f \<in> set es. ht f \<le> l"
  shows "distinct (map ad es)" "header z \<notin> ad ` set es" "header z \<noteq> ad e" "ad e \<notin> ad ` set es"
    "\<forall>f \<in> set es. 0 < ht f \<and> ht f \<le> zlevel z" "0 < zlevel z" "zlevel z \<le> 32" "0 < ht e"
    "shape_ok (z\<lparr>tail := (if k < length es then tail z else prev_ad es k), zlevel := l, zlength := zlength z - 1\<rparr>) es"
proof -
  let ?i = "insert_ent k e es"
  have split: "es = take k es @ drop k es" by simp
  have "distinct (map ad (take k es) @ ad e # map ad (drop k es))" using sh by (simp add: shape_ok_def insert_ent_def)
  then have "distinct (map ad (take k es) @ map ad (drop k es)) \<and> ad e \<notin> set (map ad (take k es) @ map ad (drop k es))" by auto
  then show d: "distinct (map ad es)" and "ad e \<notin> ad ` set es" by (simp_all flip: map_append)
  show h: "header z \<notin> ad ` set es" and "header z \<noteq> ad e" and ht: "\<forall>f \<in> set es. 0 < ht f \<and> ht f \<le> zlevel z"
    and "0 < zlevel z" and "zlevel z \<le> 32" and "0 < ht e"
    using sh k by (auto simp: shape_ok_def)
  have "sorted_wrt key_less (take k es @ drop k es)"
    using sh unfolding shape_ok_def insert_ent_def by (simp only: sorted_wrt_append) auto
  then have "sorted_wrt key_less es" by simp
  moreover have "prev_ad es (length es) = (if k < length es then tail z else prev_ad es k)"
    using sh k prev_ad_insert [OF k, of "Suc (length es)" e] by (auto simp: shape_ok_def)
  ultimately show "shape_ok (z\<lparr>tail := (if k < length es then tail z else prev_ad es k), zlevel := l, zlength := zlength z - 1\<rparr>) es"
    using sh k l d h ht by (simp add: shape_ok_def)
qed

lemma heads_lower:
  assumes "heads_ok h x l" and "\<And>i. i < l \<Longrightarrow> lv h x i = Some (link i es)" and "\<forall>e \<in> set es. ht e \<le> l'"
  shows "heads_ok h x l'"
proof -
  have "\<exists>sp. lv h x i = Some (None, sp)" if "l' \<le> i" "i < 32" for i
  proof (cases "i < l")
    case True
    have "\<forall>e \<in> set es. ht e \<le> i" using assms(3) that(1) by fastforce
    then show ?thesis using assms(2) [OF True] link_nil [of es i] by simp
  qed (use assms(1) that in \<open>auto simp: heads_ok_def\<close>)
  then show ?thesis using assms(1) by (simp add: heads_ok_def)
qed

lemma zslDeleteNode_ok:
  assumes z: "zrep h z (insert_ent k e es)" and k: "k \<le> length es"
    and us: "\<forall>i < zlevel z. us ! i = at (header z) es (lastpos i es k)"
  shows "\<exists>z' h'. zslDeleteNode z (ad e) us h = Some (z', h') \<and> zrep h' z' es \<and> header z' = header z \<and>
    zlevel z' \<le> zlevel z \<and> dom h' = dom h \<and> (\<exists>n. h' (ad e) = Some n \<and> ele n = Some (el e))"
proof -
  have sh: "shape_ok z (insert_ent k e es)" and links: "links_ok h (header z) (zlevel z) (insert_ent k e es)"
    and heads: "heads_ok h (header z) (zlevel z)" using z by (simp_all add: zrep_def)
  have nodes: "node_ok h (ad e) (Some (el e)) (sc e) (ht e) (prev_ad es k)" "nodes_ok h (\<lambda>q. if q = k then Some (ad e) else prev_ad es q) es"
    using z nodes_insert [OF k] by (simp_all add: zrep_nodes)
  have l: "0 < zlevel z" "zlevel z \<le> 32" "\<forall>f \<in> set es. ht f \<le> zlevel z" using sh k by (auto simp: shape_ok_def)
  note sd = shape_delete [OF sh k]
  note s = sd(1-8) [OF l]
  obtain h1 where h1: "for_loop (unlink_level us (ad e)) [0..<zlevel z] h = Some h1" "same_nodes h h1"
    "\<And>y j. lv h1 y j = (if j < zlevel z \<and> y = at (header z) es (lastpos j es k) then Some (link j (drop (lastpos j es k) es)) else lv h y j)"
    using unlink_loop_ok [OF s(1-4) k links us] by blast
  have links1: "links_ok h1 (header z) (zlevel z) es"
    by (rule links_delete [OF s(1,2) k links _ l(3)]) (simp add: h1(3))
  have hl: "lv h1 (header z) i = Some (link i es)" if "i < zlevel z" for i using links_at [OF links1, of 0 i] that by simp
  obtain l' where l': "lower_level h1 (header z) (zlevel z) = Some l'" "0 < l'" "l' \<le> zlevel z" "\<forall>f \<in> set es. ht f \<le> l'"
    using lower_level_ok [OF hl l(3,1)] by blast
  have heads1: "heads_ok h1 (header z) l'"
  proof (rule heads_lower [OF _ hl l'(4)])
    show "heads_ok h1 (header z) (zlevel z)" using heads h1(2) by (rule heads_same) (simp add: h1(3))
  qed simp
  have links': "links_ok h1 (header z) l' es" using links1 l'(3) unfolding links_ok_def hgt_def by (auto split: nat.splits)
  have ax: "at (header z) es p \<noteq> ad e" if "p \<le> k" for p using at_not [OF s(4,3)] that k by simp
  have x0: "lv h1 (ad e) 0 = Some (link 0 (drop k es))"
    using h1(3) ax [OF lastpos_le, of 0 es] links_at [OF links, of "Suc k" 0] insert_at_pos [OF k, of "Suc k"] insert_ent_drop [OF k, of "Suc k" e] s(8) k by simp
  have x1: "node_ok h1 (ad e) (Some (el e)) (sc e) (ht e) (prev_ad es k)" using nodes(1) h1(2) by (simp add: same_nodes_def)
  then obtain n where n: "h1 (ad e) = Some n" "backward n = prev_ad es k" by (auto simp: node_ok_def)
  have nodes1: "nodes_ok h1 (\<lambda>q. if q = k then Some (ad e) else prev_ad es q) es" using nodes(2) h1(2) by (rule nodes_same)
  let ?z = "z\<lparr>tail := (if k < length es then tail z else prev_ad es k), zlevel := l', zlength := zlength z - 1\<rparr>"
  have shz: "shape_ok ?z es" using sd(9) l' l(2) by simp
  obtain h2 where h2: "(if k < length es then set_backward (ad (es ! k)) (prev_ad es k) h1 else Some h1) = Some h2" "lv h2 = lv h1" "dom h2 = dom h1"
      "nodes_ok h2 (prev_ad es) es" "\<And>e s n b. node_ok h2 (header z) e s n b = node_ok h1 (header z) e s n b"
      "\<And>e' s n b. node_ok h2 (ad e) e' s n b = node_ok h1 (ad e) e' s n b"
    using relink_ok [OF nodes1 s(1), of "prev_ad es k"] s(2,4) unfolding nodes_prev by blast
  have "lower_level h2 (header z) l = lower_level h1 (header z) l" for l by (induction l) (simp_all add: h2(2) cong del: if_weak_cong)
  then have "zslDeleteNode z (ad e) us h = Some (?z, h2)"
    using h1(1) n x0 l'(1) h2(1) link_first [of es k] s(5) k
    by (cases "link 0 (drop k es)"; cases "k < length es") (simp_all add: zslDeleteNode_def)
  moreover have "zrep h2 ?z es"
    using shz links_cong [OF links' h2(2)] heads_back [OF heads1 h2(2,5)] h2(4) by (simp add: zrep_nodes)
  moreover have "\<exists>n. h2 (ad e) = Some n \<and> ele n = Some (el e)" 
  proof -
    have "node_ok h2 (ad e) (Some (el e)) (sc e) (ht e) (prev_ad es k)" using x1 h2(6) by simp
    then show ?thesis by (auto simp: node_ok_def)
  qed
  ultimately show ?thesis using l'(3) h2(3) h1(2) by (simp add: same_nodes_def)
qed

lemma insert_ent_mid: "insert_ent (length as) b (as @ bs) = as @ b # bs"
  by (simp add: insert_ent_def)

lemma at_append: "p \<le> length as \<Longrightarrow> at x (as @ bs) p = at x as p"
  by (cases p) (auto simp: nth_append)

lemma update_valid:
  \<comment> \<open>the nodes before position \<open>length as\<close> do not depend on what follows\<close>
  "at x (as @ bs) (lastpos i (as @ bs) (length as)) = at x as (lastpos i as (length as))"
  using at_append [OF lastpos_le] by (simp add: lastpos_take)

lemma delete_free_ok:
  assumes z: "zrep h z (as @ b # bs)" and us: "\<forall>i < zlevel z. us ! i = at (header z) as (lastpos i as (length as))"
  shows "\<exists>z' h'. zslDeleteNode z (ad b) us h = Some (z', h') \<and> zslFreeNode (ad b) h' = Some (h'(ad b := None)) \<and>
    zrep h' z' (as @ bs) \<and> zrep (h'(ad b := None)) z' (as @ bs) \<and> header z' = header z \<and> zlevel z' \<le> zlevel z \<and> dom h' = dom h \<and>
    (\<exists>n. h' (ad b) = Some n \<and> ele n = Some (el b))"
proof -
  have "zrep h z (insert_ent (length as) b (as @ bs))" using z by (simp add: insert_ent_mid)
  moreover have "\<forall>i < zlevel z. us ! i = at (header z) (as @ bs) (lastpos i (as @ bs) (length as))"
    using us by (simp add: update_valid)
  ultimately obtain z' h' where h': "zslDeleteNode z (ad b) us h = Some (z', h')" "zrep h' z' (as @ bs)" "header z' = header z"
    "zlevel z' \<le> zlevel z" "dom h' = dom h" "\<exists>n. h' (ad b) = Some n \<and> ele n = Some (el b)"
    using zslDeleteNode_ok [of h z "length as" b "as @ bs" us] by auto
  have b: "ad b \<notin> ad ` set (as @ bs)" "ad b \<noteq> header z" using z by (auto simp: zrep_def shape_ok_def)
  then show ?thesis using h' zrep_free [OF h'(2), of "ad b"] by (auto simp: zslFreeNode_def)
qed

definition first_ad :: "('s, 'e) ent list \<Rightarrow> nat option" where
  "first_ad es = (case es of [] \<Rightarrow> None | e # _ \<Rightarrow> Some (ad e))"

lemma first_link: "zrep h z (as @ bs) \<Longrightarrow> \<exists>sp. lv h (at (header z) as (length as)) 0 = Some (first_ad bs, sp)"
proof -
  assume z: "zrep h z (as @ bs)"
  have "0 < hgt (zlevel z) (as @ bs) (length as)"
    using z by (cases as rule: rev_cases) (auto simp: zrep_def shape_ok_def nth_append)
  then have "lv h (at (header z) as (length as)) 0 = Some (link 0 bs)"
    using z links_at [of h "header z" "zlevel z" "as @ bs" "length as" 0] at_append [of "length as" as "header z" bs] by (simp add: zrep_def)
  moreover have "\<exists>sp. link 0 bs = (first_ad bs, sp)" using z by (cases bs) (auto simp: first_ad_def zrep_def shape_ok_def)
  ultimately show ?thesis by auto
qed

lemma zrep_node:
  assumes "zrep h z (as @ b # bs)"
  shows "\<exists>n. h (ad b) = Some n \<and> ele n = Some (el b) \<and> score n = sc b"
  using assms by (auto simp: zrep_def node_ok_def dest!: spec [of _ "length as"])


lemma search_split:
  fixes cond :: "('s::linorder, 'e::linorder) znode \<Rightarrow> 'w::len word \<Rightarrow> bool"
  assumes z: "zrep h z (as @ bs)" and c: "upto_pos h (as @ bs) cond (length as)" and w: "32 \<le> LENGTH('w)"
  shows "\<exists>us. zsl_descend h cond (zlevel z) (header z) 0 = Some us \<and> us ! 0 = (at (header z) as (length as), of_nat (length as)) \<and>
    (\<forall>i < zlevel z. map fst us ! i = at (header z) as (lastpos i as (length as)))"
proof -
  let ?us = "path (header z) (as @ bs) (length as) (zlevel z) :: (nat \<times> 'w word) list"
  have l: "0 < zlevel z" and ht: "\<forall>f \<in> set (as @ bs). 0 < ht f" using z by (auto simp: zrep_def shape_ok_def)
  have "zsl_descend h cond (zlevel z) (header z) 0 = Some ?us" using search_ok [OF z c w] by (simp add: path_def)
  moreover have "?us ! 0 = (at (header z) as (length as), of_nat (length as))"
    using l lastpos_full [OF ht, of "length as"] at_append [of "length as" as "header z" bs] by (simp add: path_nth)
  moreover have "\<forall>i < zlevel z. map fst ?us ! i = at (header z) as (lastpos i as (length as))"
    by (simp add: path_def update_valid)
  ultimately show ?thesis by blast
qed

lemma zslDelete_search:
  assumes z: "zrep h z (as @ bs)" and a: "\<And>a. a \<in> set as \<Longrightarrow> before s e a" and b: "bs \<noteq> [] \<Longrightarrow> \<not> before s e (hd bs)"
  shows "\<exists>us sp. zsl_descend h (node_before s e) (zlevel z) (header z) (0 :: u32) = Some us \<and> lv h (fst (us ! 0)) 0 = Some (first_ad bs, sp) \<and>
    (\<forall>i < zlevel z. map fst us ! i = at (header z) as (lastpos i as (length as)))"
proof -
  have "takeWhile (before s e) (as @ bs) = as" using a b by (cases bs) (simp_all add: takeWhile_append2)
  then have "upto_pos h (as @ bs) (node_before s e :: _ \<Rightarrow> u32 \<Rightarrow> bool) (length as)" using before_upto [OF z, of s e] by metis
  from search_split [OF z this] first_link [OF z] show ?thesis by auto
qed

lemma zslDelete_found:
  assumes z: "zrep h z (as @ b # bs)"
  shows "\<exists>z' h'. zslDelete keep z (sc b) (el b) h = Some (Some (ad b), z', if keep then h' else h'(ad b := None)) \<and>
    zrep h' z' (as @ bs) \<and> zrep (h'(ad b := None)) z' (as @ bs) \<and> header z' = header z \<and> dom h' = dom h \<and>
    (\<exists>n. h' (ad b) = Some n \<and> ele n = Some (el b))"
proof -
  have "sorted_wrt key_less (as @ b # bs)" using z by (simp add: zrep_def shape_ok_def)
  then have "before (sc b) (el b) a" if "a \<in> set as" for a
    using that unfolding sorted_wrt_append by (auto simp: before_def key_less_def)
  then obtain us sp where us: "zsl_descend h (node_before (sc b) (el b)) (zlevel z) (header z) (0 :: u32) = Some us"
    "lv h (fst (us ! 0)) 0 = Some (first_ad (b # bs), sp)" "\<forall>i < zlevel z. map fst us ! i = at (header z) as (lastpos i as (length as))"
    using zslDelete_search [OF z, of "sc b" "el b"] by (auto simp: before_def)
  obtain n where n: "h (ad b) = Some n" "ele n = Some (el b)" "score n = sc b" using zrep_node [OF z] by blast
  obtain z2 h2 where d: "zslDeleteNode z (ad b) (map fst us) h = Some (z2, h2)" "zslFreeNode (ad b) h2 = Some (h2(ad b := None))"
    "zrep h2 z2 (as @ bs)" "zrep (h2(ad b := None)) z2 (as @ bs)" "header z2 = header z" "dom h2 = dom h"
    "\<exists>n. h2 (ad b) = Some n \<and> ele n = Some (el b)" using delete_free_ok [OF z us(3)] by blast
  have "zslDelete keep z (sc b) (el b) h = Some (Some (ad b), z2, if keep then h2 else h2(ad b := None))"
    using us(1,2) n d(1,2) by (simp add: zslDelete_def first_ad_def)
  then show ?thesis using d(3-7) by auto
qed

lemma zslDelete_absent:
  assumes z: "zrep h z es" and nx: "\<forall>a \<in> set es. \<not> (sc a = s \<and> el a = e)"
  shows "zslDelete keep z s e h = Some (None, z, h)"
proof -
  let ?as = "takeWhile (before s e) es" and ?bs = "dropWhile (before s e) es"
  have z': "zrep h z (?as @ ?bs)" using z by simp
  obtain us sp where us: "zsl_descend h (node_before s e) (zlevel z) (header z) (0 :: u32) = Some us"
    "lv h (fst (us ! 0)) 0 = Some (first_ad ?bs, sp)"
    using zslDelete_search [OF z', of s e] hd_dropWhile [of "before s e" es] set_takeWhileD [of _ "before s e" es] by blast
  show ?thesis
  proof (cases "first_ad ?bs")
    case None
    then show ?thesis using us by (simp add: zslDelete_def)
  next
    case (Some x)
    then obtain b bs where b: "?bs = b # bs" "x = ad b" by (auto simp: first_ad_def split: list.splits)
    obtain n where n: "h (ad b) = Some n" "ele n = Some (el b)" "score n = sc b" using zrep_node [of h z ?as b bs] z' b by auto
    have "b \<in> set es" using b(1) set_dropWhileD [of b "before s e" es] by simp
    then have "\<not> (sc b = s \<and> el b = e)" using nx by blast
    then show ?thesis using us n b(2) Some by (auto simp: zslDelete_def)
  qed
qed

subsection \<open>Creating and freeing\<close>

lemma zslCreate_ok:
  fixes h :: "('s::{linorder,zero}, 'e::linorder) zheap"
  assumes f: "finite (dom h)" and nw: "fresh_new new"
  shows "\<exists>z h'. zslCreate junk junkb new h = Some (z, h') \<and> zrep h' z [] \<and> header z \<notin> dom h \<and> dom h' = insert (header z) (dom h)"
proof -
  let ?x = "new h" and ?nd = "\<lparr>ele = None, score = 0, backward = junkb, level = map junk [0..<32]\<rparr> :: ('s, 'e) znode"
  let ?h1 = "h(new h \<mapsto> ?nd)"
  have x: "h ?x = None" using f nw by (simp add: fresh_new_def)
  have lv1: "\<exists>v. lv ?h1 ?x i = Some v" if "i < 32" for i using that by (simp add: lv_def)
  have "\<exists>h2. for_loop (\<lambda>j. set_lv ?x j (None, 0)) [0..<32] ?h1 = Some h2 \<and> same_nodes ?h1 h2 \<and>
    (\<forall>y j. lv h2 y j = (if j \<in> set [0..<32] then (if y = ?x then Some (None, 0) else lv ?h1 y j) else lv ?h1 y j))"
  proof (rule for_levels [where h0 = ?h1])
    fix i h'
    assume "i \<in> set [0..<32]" and e: "\<forall>y. lv h' y i = lv ?h1 y i"
    then obtain v where "lv h' ?x i = Some v" using lv1 [of i] by auto
    from set_lv_ok [OF this, of "(None, 0)"] show "\<exists>h''. set_lv ?x i (None, 0) h' = Some h'' \<and> same_nodes h' h'' \<and>
      (\<forall>y j. lv h'' y j = (if j = i then (if y = ?x then Some (None, 0) else lv ?h1 y i) else lv h' y j))" using e by auto
  qed simp_all
  then obtain h2 where h2: "for_loop (\<lambda>j. set_lv ?x j (None, 0)) [0..<32] ?h1 = Some h2" "same_nodes ?h1 h2"
    "\<And>j. j < 32 \<Longrightarrow> lv h2 ?x j = Some (None, 0)" by auto
  have "node_ok h2 ?x None 0 32 junkb" using h2(2) by (simp add: same_nodes_def node_ok_def)
  from set_backward_ok [OF this, of None] obtain h3 where h3: "set_backward ?x None h2 = Some h3" "lv h3 = lv h2" "dom h3 = dom h2"
    "node_ok h3 ?x None 0 32 None" by blast
  let ?z = "\<lparr>header = ?x, tail = None, zlength = 0, zlevel = 1\<rparr>"
  have "zslCreate junk junkb new h = Some (?z, h3)"
    using h2(1) h3(1) by (simp add: zslCreate_def zslCreateNode_def ZSKIPLIST_MAXLEVEL_def)
  moreover have "zrep h3 ?z []"
    using h3(2,4) h2(3) by (auto simp: zrep_def shape_ok_def heads_ok_def links_ok_def prev_ad_def)
  ultimately show ?thesis using x h3(3) h2(2) by (auto simp: same_nodes_def)
qed

lemma free_loop_ok:
  assumes "distinct (map ad bs)" and "\<And>q. q < length bs \<Longrightarrow> \<exists>sp. lv h (ad (bs ! q)) 0 = Some (first_ad (drop (Suc q) bs), sp)"
  shows "free_loop (first_ad bs) h = Some (h |` (- ad ` set bs))"
  using assms
proof (induction bs arbitrary: h)
  case Nil
  then show ?case by (subst free_loop.simps) (simp add: first_ad_def restrict_map_def)
next
  case (Cons b bs)
  obtain sp where sp: "lv h (ad b) 0 = Some (first_ad bs, sp)" using Cons.prems(2) [of 0] by auto
  then obtain nd where b: "h (ad b) = Some nd" by (auto simp: lv_def bind_eq_Some_conv)
  have "\<exists>sp. lv (h(ad b := None)) (ad (bs ! q)) 0 = Some (first_ad (drop (Suc q) bs), sp)" if q: "q < length bs" for q
  proof -
    have "ad (bs ! q) \<noteq> ad b" using Cons.prems(1) at_mem [OF q] by (metis distinct.simps(2) list.map(2) list.set_map)
    then show ?thesis using Cons.prems(2) [of "Suc q"] q by (simp add: lv_def)
  qed
  then have "free_loop (first_ad bs) (h(ad b := None)) = Some (h(ad b := None) |` (- ad ` set bs))" using Cons by simp
  moreover have "h(ad b := None) |` (- ad ` set bs) = h |` (- ad ` set (b # bs))" by (auto simp: restrict_map_def)
  moreover have "free_loop (first_ad (b # bs)) h = free_loop (first_ad bs) (h(ad b := None))"
    using sp b by (subst free_loop.simps) (simp add: first_ad_def zslFreeNode_def)
  ultimately show ?case by simp
qed

lemma zslFree_ok:
  assumes z: "zrep h z es"
  shows "zslFree z h = Some (h |` (- insert (header z) (ad ` set es)))"
proof -
  have sh: "distinct (map ad es)" "header z \<notin> ad ` set es" using z by (auto simp: zrep_def shape_ok_def)
  obtain sp where sp: "lv h (header z) 0 = Some (first_ad es, sp)" using first_link [of h z "[]" es] z by auto
  have hd: "h (header z) \<noteq> None" using sp by (auto simp: lv_def bind_eq_Some_conv)
  have "\<exists>sp. lv (h(header z := None)) (ad (es ! q)) 0 = Some (first_ad (drop (Suc q) es), sp)" if q: "q < length es" for q
  proof -
    have "ad (es ! q) \<noteq> header z" using z not_header [OF _ q] by (simp add: zrep_def)
    moreover have "\<exists>sp. lv h (ad (es ! q)) 0 = Some (first_ad (drop (Suc q) es), sp)"
      using first_link [of h z "take (Suc q) es" "drop (Suc q) es"] z q by simp
    ultimately show ?thesis by (simp add: lv_def)
  qed
  from free_loop_ok [OF sh(1) this] have "free_loop (first_ad es) (h(header z := None)) = Some (h(header z := None) |` (- ad ` set es))" .
  moreover have "h(header z := None) |` (- ad ` set es) = h |` (- insert (header z) (ad ` set es))" by (auto simp: restrict_map_def)
  ultimately show ?thesis using sp hd by (simp add: zslFree_def zslFreeNode_def)
qed

end
