(* ===== verification/Zset_Range.thy ===== *)
theory Zset_Range
  imports Zskiplist
begin

section \<open>Ranks and ranges of sorted sets (t\_zset.c)\<close>

text \<open>
  The searches of a skip list by rank, by score and by element, and the deletion of ranges, which
  removes the elements from the dictionary of the sorted set too (a map here). Every loop over the
  levels is \<open>zsl_descend\<close> with the condition of the source; \<open>removed\<close> and \<open>traversed\<close> have 64 bits,
  the bounds of a range of ranks 32. The lemmas give each operation in terms of the list of
  entries that \<open>Zskiplist\<close> assigns to a heap: a range of scores or of elements is a filter of
  it, a rank is a position.
\<close>

subsection \<open>Ranks\<close>

definition node_upto :: "'s::linorder \<Rightarrow> 'e::linorder \<Rightarrow> ('s, 'e) znode \<Rightarrow> 'w::len word \<Rightarrow> bool" where
  \<comment> \<open>the comparison of zslGetRank\<close>
  "node_upto s e n r \<longleftrightarrow>
     score n < s \<or> score n = s \<and> (case ele n of None \<Rightarrow> False | Some e' \<Rightarrow> e' \<le> e)"

fun rank_loop :: "('s::linorder, 'e::linorder) zheap \<Rightarrow> 's \<Rightarrow> 'e \<Rightarrow> nat \<Rightarrow> nat \<Rightarrow> u64 \<Rightarrow> u64 option" where
  "rank_loop h s e 0 x rank = Some 0"
| "rank_loop h s e (Suc i) x rank = do {
     (x, rank) \<leftarrow> zsl_walk h (node_upto s e) i x rank;
     n \<leftarrow> h x;
     if ele n = Some e then Some rank else rank_loop h s e i x rank }"

definition zslGetRank :: "zskiplist \<Rightarrow> 's::linorder \<Rightarrow> 'e::linorder \<Rightarrow> ('s, 'e) zheap \<Rightarrow> u64 option" where
  "zslGetRank z s e h = rank_loop h s e (zlevel z) (header z) 0"

fun element_loop :: "('s, 'e) zheap \<Rightarrow> u64 \<Rightarrow> nat \<Rightarrow> nat \<Rightarrow> u64 \<Rightarrow> nat option option" where
  "element_loop h rank 0 x traversed = Some None"
| "element_loop h rank (Suc i) x traversed = do {
     (x, traversed) \<leftarrow> zsl_walk h (\<lambda>_ t. t \<le> rank) i x traversed;
     if traversed = rank then Some (Some x) else element_loop h rank i x traversed }"

definition zslGetElementByRank :: "zskiplist \<Rightarrow> u64 \<Rightarrow> ('s, 'e) zheap \<Rightarrow> nat option option" where
  "zslGetElementByRank z rank h = element_loop h rank (zlevel z) (header z) 0"

subsection \<open>Ranges\<close>

record 's zrangespec =
  rmin :: 's
  rmax :: 's
  minex :: bool
  maxex :: bool

definition zslValueGteMin :: "'s::linorder \<Rightarrow> 's zrangespec \<Rightarrow> bool" where
  "zslValueGteMin v spec = (if minex spec then v > rmin spec else v \<ge> rmin spec)"

definition zslValueLteMax :: "'s::linorder \<Rightarrow> 's zrangespec \<Rightarrow> bool" where
  "zslValueLteMax v spec = (if maxex spec then v < rmax spec else v \<le> rmax spec)"

definition zslIsInRange :: "zskiplist \<Rightarrow> 's::linorder zrangespec \<Rightarrow> ('s, 'e) zheap \<Rightarrow> bool option" where
  "zslIsInRange z rg h =
     (if rmin rg > rmax rg \<or> rmin rg = rmax rg \<and> (minex rg \<or> maxex rg) then Some False
      else case tail z of
        None \<Rightarrow> Some False
      | Some t \<Rightarrow> do {
          n \<leftarrow> h t;
          if \<not> zslValueGteMin (score n) rg then Some False
          else do {
            (f, _) \<leftarrow> lv h (header z) 0;
            case f of
              None \<Rightarrow> Some False
            | Some x \<Rightarrow> do { n \<leftarrow> h x; Some (zslValueLteMax (score n) rg) } } })"

definition zslFirstInRange :: "zskiplist \<Rightarrow> 's::linorder zrangespec \<Rightarrow> ('s, 'e) zheap \<Rightarrow> nat option option" where
  "zslFirstInRange z rg h = do {
     b \<leftarrow> zslIsInRange z rg h;
     if \<not> b then Some None
     else do {
       us \<leftarrow> zsl_descend h (\<lambda>n _. \<not> zslValueGteMin (score n) rg) (zlevel z) (header z) (0 :: u32);
       (f, _) \<leftarrow> lv h (fst (us ! 0)) 0;
       x \<leftarrow> f;
       n \<leftarrow> h x;
       Some (if \<not> zslValueLteMax (score n) rg then None else Some x) } }"

definition zslLastInRange :: "zskiplist \<Rightarrow> 's::linorder zrangespec \<Rightarrow> ('s, 'e) zheap \<Rightarrow> nat option option" where
  "zslLastInRange z rg h = do {
     b \<leftarrow> zslIsInRange z rg h;
     if \<not> b then Some None
     else do {
       us \<leftarrow> zsl_descend h (\<lambda>n _. zslValueLteMax (score n) rg) (zlevel z) (header z) (0 :: u32);
       let x = fst (us ! 0);
       n \<leftarrow> h x;
       Some (if \<not> zslValueGteMin (score n) rg then None else Some x) } }"

partial_function (option) delete_loop ::
  "(('s, 'e) znode \<Rightarrow> u64 \<Rightarrow> bool) \<Rightarrow> nat list \<Rightarrow> nat option \<Rightarrow> u64 \<Rightarrow> u64 \<Rightarrow> zskiplist \<Rightarrow> ('e \<rightharpoonup> nat) \<Rightarrow> ('s, 'e) zheap \<Rightarrow>
     (u64 \<times> zskiplist \<times> ('e \<rightharpoonup> nat) \<times> ('s, 'e) zheap) option" where
  \<comment> \<open>the deletion loop of the three range deletions; the condition sees the node and \<open>traversed\<close>\<close>
  "delete_loop cond us x traversed removed z d h =
     (case x of
        None \<Rightarrow> Some (removed, z, d, h)
      | Some y \<Rightarrow> do {
          n \<leftarrow> h y;
          if cond n traversed then do {
            (f, _) \<leftarrow> lv h y 0;
            (z, h) \<leftarrow> zslDeleteNode z y us h;
            e \<leftarrow> ele n;
            let d = d(e := None);
            h \<leftarrow> zslFreeNode y h;
            delete_loop cond us f (traversed + 1) (removed + 1) z d h }
          else Some (removed, z, d, h) })"

definition zslDeleteRangeByScore :: "zskiplist \<Rightarrow> 's::linorder zrangespec \<Rightarrow> ('e \<rightharpoonup> nat) \<Rightarrow> ('s, 'e) zheap \<Rightarrow>
    (u64 \<times> zskiplist \<times> ('e \<rightharpoonup> nat) \<times> ('s, 'e) zheap) option" where
  "zslDeleteRangeByScore z rg d h = do {
     us \<leftarrow> zsl_descend h (\<lambda>n _. if minex rg then score n \<le> rmin rg else score n < rmin rg) (zlevel z) (header z) (0 :: u64);
     (f, _) \<leftarrow> lv h (fst (us ! 0)) 0;
     delete_loop (\<lambda>n _. if maxex rg then score n < rmax rg else score n \<le> rmax rg) (map fst us) f 0 0 z d h }"

definition zslDeleteRangeByRank :: "zskiplist \<Rightarrow> u32 \<Rightarrow> u32 \<Rightarrow> ('e \<rightharpoonup> nat) \<Rightarrow> ('s, 'e) zheap \<Rightarrow>
    (u64 \<times> zskiplist \<times> ('e \<rightharpoonup> nat) \<times> ('s, 'e) zheap) option" where
  "zslDeleteRangeByRank z start end1 d h = do {
     us \<leftarrow> zsl_descend h (\<lambda>_ t. t < ucast start) (zlevel z) (header z) (0 :: u64);
     (f, _) \<leftarrow> lv h (fst (us ! 0)) 0;
     delete_loop (\<lambda>_ traversed. traversed \<le> ucast end1) (map fst us) f (snd (us ! 0) + 1) 0 z d h }"

subsection \<open>Lexicographic ranges\<close>

text \<open>The bounds of a lexicographic range are strings or the two shared objects \<open>minstring\<close> and
  \<open>maxstring\<close>, told apart by their addresses; these are strings as well, with the contents
  \<open>mins\<close> and \<open>maxs\<close>. \<open>cmp\<close> is \<open>sdscmp\<close> on the contents.\<close>

datatype 'e lex = MinString | MaxString | Str 'e

record 'e zlexrangespec =
  lmin :: "'e lex"
  lmax :: "'e lex"
  lminex :: bool
  lmaxex :: bool

fun lex_text :: "'e \<Rightarrow> 'e \<Rightarrow> 'e lex \<Rightarrow> 'e" where
  "lex_text mins maxs MinString = mins"
| "lex_text mins maxs MaxString = maxs"
| "lex_text mins maxs (Str e) = e"

definition sdscmplex :: "('e \<Rightarrow> 'e \<Rightarrow> int) \<Rightarrow> 'e lex \<Rightarrow> 'e lex \<Rightarrow> int" where
  "sdscmplex cmp a b =
     (case (a, b) of
        (Str x, Str y) \<Rightarrow> cmp x y
      | _ \<Rightarrow> if a = b then 0
             else if a = MinString \<or> b = MaxString then - 1
             else 1)"

definition zslLexValueGteMin :: "('e \<Rightarrow> 'e \<Rightarrow> int) \<Rightarrow> 'e \<Rightarrow> 'e zlexrangespec \<Rightarrow> bool" where
  "zslLexValueGteMin cmp v spec =
     (if lminex spec then sdscmplex cmp (Str v) (lmin spec) > 0 else sdscmplex cmp (Str v) (lmin spec) \<ge> 0)"

definition zslLexValueLteMax :: "('e \<Rightarrow> 'e \<Rightarrow> int) \<Rightarrow> 'e \<Rightarrow> 'e zlexrangespec \<Rightarrow> bool" where
  "zslLexValueLteMax cmp v spec =
     (if lmaxex spec then sdscmplex cmp (Str v) (lmax spec) < 0 else sdscmplex cmp (Str v) (lmax spec) \<le> 0)"

definition lex_node :: "('e \<Rightarrow> bool) \<Rightarrow> ('s, 'e) znode \<Rightarrow> bool" where
  \<comment> \<open>a test on the element of a node that is not the header\<close>
  "lex_node P n = (case ele n of None \<Rightarrow> False | Some e \<Rightarrow> P e)"

definition zslIsInLexRange :: "('e \<Rightarrow> 'e \<Rightarrow> int) \<Rightarrow> 'e \<Rightarrow> 'e \<Rightarrow> zskiplist \<Rightarrow> 'e zlexrangespec \<Rightarrow> ('s, 'e) zheap \<Rightarrow> bool option" where
  "zslIsInLexRange cmp mins maxs z rg h =
     (if sdscmplex cmp (lmin rg) (lmax rg) > 1 \<or>
         cmp (lex_text mins maxs (lmin rg)) (lex_text mins maxs (lmax rg)) = 0 \<and> (lminex rg \<or> lmaxex rg) then Some False
      else case tail z of
        None \<Rightarrow> Some False
      | Some t \<Rightarrow> do {
          n \<leftarrow> h t;
          e \<leftarrow> ele n;
          if \<not> zslLexValueGteMin cmp e rg then Some False
          else do {
            (f, _) \<leftarrow> lv h (header z) 0;
            case f of
              None \<Rightarrow> Some False
            | Some x \<Rightarrow> do { n \<leftarrow> h x; e \<leftarrow> ele n; Some (zslLexValueLteMax cmp e rg) } } })"

definition zslFirstInLexRange :: "('e \<Rightarrow> 'e \<Rightarrow> int) \<Rightarrow> 'e \<Rightarrow> 'e \<Rightarrow> zskiplist \<Rightarrow> 'e zlexrangespec \<Rightarrow> ('s, 'e) zheap \<Rightarrow> nat option option" where
  "zslFirstInLexRange cmp mins maxs z rg h = do {
     b \<leftarrow> zslIsInLexRange cmp mins maxs z rg h;
     if \<not> b then Some None
     else do {
       us \<leftarrow> zsl_descend h (\<lambda>n _. lex_node (\<lambda>e. \<not> zslLexValueGteMin cmp e rg) n) (zlevel z) (header z) (0 :: u32);
       (f, _) \<leftarrow> lv h (fst (us ! 0)) 0;
       x \<leftarrow> f;
       n \<leftarrow> h x;
       e \<leftarrow> ele n;
       Some (if \<not> zslLexValueLteMax cmp e rg then None else Some x) } }"

definition zslLastInLexRange :: "('e \<Rightarrow> 'e \<Rightarrow> int) \<Rightarrow> 'e \<Rightarrow> 'e \<Rightarrow> zskiplist \<Rightarrow> 'e zlexrangespec \<Rightarrow> ('s, 'e) zheap \<Rightarrow> nat option option" where
  "zslLastInLexRange cmp mins maxs z rg h = do {
     b \<leftarrow> zslIsInLexRange cmp mins maxs z rg h;
     if \<not> b then Some None
     else do {
       us \<leftarrow> zsl_descend h (\<lambda>n _. lex_node (\<lambda>e. zslLexValueLteMax cmp e rg) n) (zlevel z) (header z) (0 :: u32);
       let x = fst (us ! 0);
       n \<leftarrow> h x;
       e \<leftarrow> ele n;
       Some (if \<not> zslLexValueGteMin cmp e rg then None else Some x) } }"

definition zslDeleteRangeByLex :: "('e \<Rightarrow> 'e \<Rightarrow> int) \<Rightarrow> zskiplist \<Rightarrow> 'e zlexrangespec \<Rightarrow> ('e \<rightharpoonup> nat) \<Rightarrow> ('s, 'e) zheap \<Rightarrow>
    (u64 \<times> zskiplist \<times> ('e \<rightharpoonup> nat) \<times> ('s, 'e) zheap) option" where
  "zslDeleteRangeByLex cmp z rg d h = do {
     us \<leftarrow> zsl_descend h (\<lambda>n _. lex_node (\<lambda>e. \<not> zslLexValueGteMin cmp e rg) n) (zlevel z) (header z) (0 :: u64);
     (f, _) \<leftarrow> lv h (fst (us ! 0)) 0;
     delete_loop (\<lambda>n _. lex_node (\<lambda>e. zslLexValueLteMax cmp e rg) n) (map fst us) f 0 0 z d h }"

subsection \<open>Parsing of ranges\<close>

text \<open>An argument of a command is an integer or a string. \<open>strtod\<close> returns a number, None for NaN,
  and the rest of the string.\<close>

datatype zarg = IntArg int | StrArg "byte list"

definition parse_bound :: "(byte list \<Rightarrow> 's option \<times> byte list) \<Rightarrow> (int \<Rightarrow> 's) \<Rightarrow> zarg \<Rightarrow> ('s \<times> bool) option" where
  \<comment> \<open>one of the two bounds, and whether it is open\<close>
  "parse_bound strtod of_long a =
     (case a of
        IntArg i \<Rightarrow> Some (of_long i, False)
      | StrArg v \<Rightarrow>
          (let ex = ((v @ [0]) ! 0 = 40);
               (d, rest) = strtod (if ex then tl v else v) in
           if (rest @ [0]) ! 0 \<noteq> 0 then None
           else case d of None \<Rightarrow> None | Some x \<Rightarrow> Some (x, ex)))"

definition zslParseRange :: "(byte list \<Rightarrow> 's option \<times> byte list) \<Rightarrow> (int \<Rightarrow> 's) \<Rightarrow> zarg \<Rightarrow> zarg \<Rightarrow> 's zrangespec option" where
  "zslParseRange strtod of_long a b = do {
     (x, ex) \<leftarrow> parse_bound strtod of_long a;
     (y, ey) \<leftarrow> parse_bound strtod of_long b;
     Some \<lparr>rmin = x, rmax = y, minex = ex, maxex = ey\<rparr> }"

definition zslParseLexRangeItem :: "byte list \<Rightarrow> (byte list lex \<times> bool) option" where
  "zslParseLexRangeItem v =
     (let c = v @ [0] in
      if c ! 0 = 43 then (if c ! 1 \<noteq> 0 then None else Some (MaxString, False))
      else if c ! 0 = 45 then (if c ! 1 \<noteq> 0 then None else Some (MinString, False))
      else if c ! 0 = 40 then Some (Str (tl v), True)
      else if c ! 0 = 91 then Some (Str (tl v), False)
      else None)"

definition zslParseLexRange :: "zarg \<Rightarrow> zarg \<Rightarrow> byte list zlexrangespec option" where
  "zslParseLexRange a b =
     (case (a, b) of
        (StrArg v, StrArg w) \<Rightarrow> do {
          (x, ex) \<leftarrow> zslParseLexRangeItem v;
          (y, ey) \<leftarrow> zslParseLexRangeItem w;
          Some \<lparr>lmin = x, lmax = y, lminex = ex, lmaxex = ey\<rparr> }
      | _ \<Rightarrow> None)"

fun lex_item :: "byte list lex \<Rightarrow> bool \<Rightarrow> byte list" where
  \<comment> \<open>the notation of a bound\<close>
  "lex_item MinString ex = [45]"
| "lex_item MaxString ex = [43]"
| "lex_item (Str v) ex = (if ex then 40 else 91) # v"

lemma lex_range_notation:
  \<comment> \<open>every range can be written, the infinite bounds closed\<close>
  assumes "lmin rg \<in> {MinString, MaxString} \<longrightarrow> \<not> lminex rg" and "lmax rg \<in> {MinString, MaxString} \<longrightarrow> \<not> lmaxex rg"
  shows "zslParseLexRange (StrArg (lex_item (lmin rg) (lminex rg))) (StrArg (lex_item (lmax rg) (lmaxex rg))) = Some rg"
  using assms by (cases "lmin rg"; cases "lmax rg") (auto simp: zslParseLexRange_def zslParseLexRangeItem_def)

lemma range_notation:
  \<comment> \<open>an open bound is a parenthesis before the notation of its number\<close>
  assumes "strtod v = (Some x, [])" and "strtod w = (Some y, [])"
    and "(w @ [0]) ! 0 \<noteq> 40"
  shows "zslParseRange strtod of_long (StrArg (40 # v)) (StrArg w) = Some \<lparr>rmin = x, rmax = y, minex = True, maxex = False\<rparr>"
  using assms by (simp add: zslParseRange_def parse_bound_def)

subsection \<open>Deleting ranges\<close>

lemma delete_loop_ok:
  fixes cond :: "('s::linorder, 'e::linorder) znode \<Rightarrow> u64 \<Rightarrow> bool"
  assumes "zrep h z (as @ bs)" and "\<forall>i < zlevel z. us ! i = at (header z) as (lastpos i as (length as))"
    and "m \<le> length bs"
    and "\<And>j n. j < length bs \<Longrightarrow> j \<le> m \<Longrightarrow> ele n = Some (el (bs ! j)) \<Longrightarrow> score n = sc (bs ! j) \<Longrightarrow> cond n (t + of_nat j) = (j < m)"
  shows "\<exists>z' h'. delete_loop cond us (first_ad bs) t r z d h = Some (r + of_nat m, z', d |` (- el ` set (take m bs)), h') \<and>
    zrep h' z' (as @ drop m bs) \<and> header z' = header z \<and> dom h' = dom h - ad ` set (take m bs)"
  using assms
proof (induction bs arbitrary: h z m t r d)
  case Nil
  then show ?case by (subst delete_loop.simps) (auto simp: first_ad_def)
next
  case (Cons b bs)
  obtain n where n: "h (ad b) = Some n" "ele n = Some (el b)" "score n = sc b" using zrep_node [OF Cons.prems(1)] by blast
  have c: "cond n t = (0 < m)" using Cons.prems(4) [of 0 n] n by simp
  show ?case
  proof (cases m)
    case 0
    then show ?thesis using c n Cons.prems(1) by (subst delete_loop.simps) (auto simp: first_ad_def)
  next
    case (Suc m')
    obtain sp where sp: "lv h (ad b) 0 = Some (first_ad bs, sp)"
      using first_link [of h z "as @ [b]" bs] Cons.prems(1) by (auto simp: nth_append)
    obtain z1 h1 where 1: "zslDeleteNode z (ad b) us h = Some (z1, h1)" "zslFreeNode (ad b) h1 = Some (h1(ad b := None))"
      "zrep (h1(ad b := None)) z1 (as @ bs)" "header z1 = header z" "zlevel z1 \<le> zlevel z" "dom h1 = dom h"
      using delete_free_ok [OF Cons.prems(1,2)] by blast
    have u1: "\<forall>i < zlevel z1. us ! i = at (header z1) as (lastpos i as (length as))" using Cons.prems(2) 1(4,5) by simp
    have "\<exists>z' h'. delete_loop cond us (first_ad bs) (t + 1) (r + 1) z1 (d(el b := None)) (h1(ad b := None)) =
        Some (r + 1 + of_nat m', z', d(el b := None) |` (- el ` set (take m' bs)), h') \<and>
      zrep h' z' (as @ drop m' bs) \<and> header z' = header z1 \<and> dom h' = dom (h1(ad b := None)) - ad ` set (take m' bs)"
    proof (rule Cons.IH [OF 1(3) u1])
      fix j and n :: "('s, 'e) znode" assume j: "j < length bs" "j \<le> m'" "ele n = Some (el (bs ! j))" "score n = sc (bs ! j)"
      show "cond n (t + 1 + of_nat j) = (j < m')" using Cons.prems(4) [of "Suc j" n] j Suc by (simp add: add.assoc)
    qed (use Cons.prems(3) Suc in simp)
    moreover have "delete_loop cond us (first_ad (b # bs)) t r z d h = delete_loop cond us (first_ad bs) (t + 1) (r + 1) z1 (d(el b := None)) (h1(ad b := None))"
      using c Suc n sp 1(1,2) by (subst delete_loop.simps) (simp add: first_ad_def)
    moreover have "d(el b := None) |` (- el ` set (take m' bs)) = d |` (- el ` set (take m (b # bs)))"
      using Suc by (auto simp: restrict_map_def)
    ultimately show ?thesis using Suc 1(4,6) by (auto simp: add.assoc)
  qed
qed

lemma filter_range:
  assumes s: "sorted_wrt key_less es" and P: "down_closed es P" and Q: "down_closed es Q"
  shows "takeWhile P es @ dropWhile Q (dropWhile P es) = filter (\<lambda>a. P a \<or> \<not> Q a) es"
    and "takeWhile Q (dropWhile P es) = filter (\<lambda>a. \<not> P a \<and> Q a) es"
proof -
  let ?a = "takeWhile P es" and ?b = "dropWhile P es"
  let ?m = "takeWhile Q ?b" and ?c = "dropWhile Q ?b"
  have es: "es = ?a @ ?m @ ?c" by simp
  have sb: "sorted_wrt key_less ?b" using s takeWhile_dropWhile_id [of P es] sorted_wrt_append [of key_less ?a ?b] by simp
  have Qb: "down_closed ?b Q" using Q by (auto simp: down_closed_def dest: set_dropWhileD)
  have a: "P x" if "x \<in> set ?a" for x using set_takeWhileD [OF that] by simp
  have nb: "\<not> P x" if "x \<in> set ?b" for x using dropWhile_not [OF s P that] .
  have m: "\<not> P x \<and> Q x" if "x \<in> set ?m" for x using set_takeWhileD [OF that] nb by auto
  have c: "\<not> P x \<and> \<not> Q x" if "x \<in> set ?c" for x using dropWhile_not [OF sb Qb that] nb [OF set_dropWhileD [OF that]] by simp
  have "filter (\<lambda>a. P a \<or> \<not> Q a) ?a = ?a" "filter (\<lambda>a. P a \<or> \<not> Q a) ?c = ?c" by (rule filter_True, use a c in blast)+
  moreover have "filter (\<lambda>a. P a \<or> \<not> Q a) ?m = []" by (rule filter_False, use m in blast)
  ultimately have "filter (\<lambda>a. P a \<or> \<not> Q a) (?a @ ?m @ ?c) = ?a @ ?c" by (simp only: filter_append append_Nil)
  then show "takeWhile P es @ dropWhile Q (dropWhile P es) = filter (\<lambda>a. P a \<or> \<not> Q a) es" by simp
  have "filter (\<lambda>a. \<not> P a \<and> Q a) ?a = []" "filter (\<lambda>a. \<not> P a \<and> Q a) ?c = []" by (rule filter_False, use a c in blast)+
  moreover have "filter (\<lambda>a. \<not> P a \<and> Q a) ?m = ?m" by (rule filter_True, use m in blast)
  ultimately have "filter (\<lambda>a. \<not> P a \<and> Q a) (?a @ ?m @ ?c) = ?m" by (simp only: filter_append append_Nil append_Nil2)
  then show "takeWhile Q (dropWhile P es) = filter (\<lambda>a. \<not> P a \<and> Q a) es" by simp
qed

lemma delete_range_ok:
  fixes cond :: "('s::linorder, 'e::linorder) znode \<Rightarrow> u64 \<Rightarrow> bool"
  assumes z: "zrep h z es" and P: "down_closed es P" and Q: "down_closed es Q"
    and c1: "\<And>n w a. a \<in> set es \<Longrightarrow> ele n = Some (el a) \<Longrightarrow> score n = sc a \<Longrightarrow> cond n w = P a"
    and c2: "\<And>n w a. a \<in> set es \<Longrightarrow> ele n = Some (el a) \<Longrightarrow> score n = sc a \<Longrightarrow> cond' n w = Q a"
  shows "\<exists>z' h'. (do {
       us \<leftarrow> zsl_descend h cond (zlevel z) (header z) (0 :: u64);
       (f, _) \<leftarrow> lv h (fst (us ! 0)) 0;
       delete_loop cond' (map fst us) f 0 0 z d h }) =
     Some (of_nat (length (filter (\<lambda>a. \<not> P a \<and> Q a) es)), z', d |` (- el ` set (filter (\<lambda>a. \<not> P a \<and> Q a) es)), h') \<and>
     zrep h' z' (filter (\<lambda>a. P a \<or> \<not> Q a) es) \<and> header z' = header z \<and>
     dom h' = dom h - ad ` set (filter (\<lambda>a. \<not> P a \<and> Q a) es)"
proof -
  let ?as = "takeWhile P es" and ?bs = "dropWhile P es"
  have s: "sorted_wrt key_less es" using z by (simp add: zrep_def shape_ok_def)
  note fr = filter_range [OF s P Q]
  have z': "zrep h z (?as @ ?bs)" using z by simp
  have "upto_pos h es cond (length ?as)"
    by (rule upto_pos_pred [OF z]) (use c1 P in \<open>auto simp: down_closed_def\<close>)
  then have "upto_pos h (?as @ ?bs) cond (length ?as)" by simp
  from search_split [OF z' this] obtain us where us: "zsl_descend h cond (zlevel z) (header z) 0 = Some us"
    "us ! 0 = (at (header z) ?as (length ?as), of_nat (length ?as))" "\<forall>i < zlevel z. map fst us ! i = at (header z) ?as (lastpos i ?as (length ?as))"
    by auto
  obtain sp where sp: "lv h (at (header z) ?as (length ?as)) 0 = Some (first_ad ?bs, sp)" using first_link [OF z'] by blast
  have "\<exists>z' h'. delete_loop cond' (map fst us) (first_ad ?bs) 0 0 z d h =
      Some (0 + of_nat (length (takeWhile Q ?bs)), z', d |` (- el ` set (take (length (takeWhile Q ?bs)) ?bs)), h') \<and>
    zrep h' z' (?as @ drop (length (takeWhile Q ?bs)) ?bs) \<and> header z' = header z \<and> dom h' = dom h - ad ` set (take (length (takeWhile Q ?bs)) ?bs)"
  proof (rule delete_loop_ok [OF z' us(3) length_takeWhile_le])
    fix j and n :: "('s, 'e) znode"
    assume j: "j < length ?bs" "j \<le> length (takeWhile Q ?bs)" "ele n = Some (el (?bs ! j))" "score n = sc (?bs ! j)"
    have "cond' n (0 + of_nat j) = Q (?bs ! j)" using c2 j(3,4) set_dropWhileD [OF nth_mem [OF j(1)]] by blast
    also have "Q (?bs ! j) = (j < length (takeWhile Q ?bs))"
      using j(1,2) nth_length_takeWhile [of Q ?bs] takeWhile_nth [of j Q ?bs] set_takeWhileD [OF nth_mem, of j Q ?bs]
      by (cases "j = length (takeWhile Q ?bs)") auto
    finally show "cond' n (0 + of_nat j) = (j < length (takeWhile Q ?bs))" .
  qed
  then have "\<exists>z' h'. delete_loop cond' (map fst us) (first_ad ?bs) 0 0 z d h =
      Some (of_nat (length (takeWhile Q ?bs)), z', d |` (- el ` set (takeWhile Q ?bs)), h') \<and>
    zrep h' z' (?as @ dropWhile Q ?bs) \<and> header z' = header z \<and> dom h' = dom h - ad ` set (takeWhile Q ?bs)"
    unfolding takeWhile_eq_take [symmetric] dropWhile_eq_drop [symmetric] by auto
  then show ?thesis unfolding us(1) using us(2) sp by (simp add: fr del: set_filter)
qed

definition in_range :: "'s::linorder zrangespec \<Rightarrow> 's \<Rightarrow> bool" where
  "in_range rg v \<longleftrightarrow> zslValueGteMin v rg \<and> zslValueLteMax v rg"

lemma range_down:
  "down_closed es (\<lambda>a. \<not> zslValueGteMin (sc a) rg)" "down_closed es (\<lambda>a. zslValueLteMax (sc a) rg)"
  by (auto simp: down_closed_def key_less_def zslValueGteMin_def zslValueLteMax_def)

lemma zslDeleteRangeByScore_ok:
  assumes z: "zrep h z es"
  shows "\<exists>z' h'. zslDeleteRangeByScore z rg d h =
      Some (of_nat (length (filter (in_range rg \<circ> sc) es)), z', d |` (- el ` set (filter (in_range rg \<circ> sc) es)), h') \<and>
    zrep h' z' (filter (\<lambda>a. \<not> in_range rg (sc a)) es) \<and> header z' = header z \<and>
    dom h' = dom h - ad ` set (filter (in_range rg \<circ> sc) es)"
proof -
  let ?P = "\<lambda>a :: ('a, 'b) ent. \<not> zslValueGteMin (sc a) rg" and ?Q = "\<lambda>a :: ('a, 'b) ent. zslValueLteMax (sc a) rg"
  have "(\<lambda>a. \<not> ?P a \<and> ?Q a) = in_range rg \<circ> sc" "(\<lambda>a. ?P a \<or> \<not> ?Q a) = (\<lambda>a. \<not> in_range rg (sc a))"
    by (auto simp: in_range_def)
  note run = delete_range_ok [OF z range_down [where rg = rg], unfolded this]
  show ?thesis unfolding zslDeleteRangeByScore_def by (rule run) (auto simp: zslValueGteMin_def zslValueLteMax_def)
qed

definition cmp_ok :: "('e::linorder \<Rightarrow> 'e \<Rightarrow> int) \<Rightarrow> bool" where
  \<comment> \<open>what sdscmp promises: the sign of its result\<close>
  "cmp_ok cmp \<longleftrightarrow> (\<forall>x y. (cmp x y < 0 \<longleftrightarrow> x < y) \<and> (cmp x y = 0 \<longleftrightarrow> x = y))"

fun lex_above :: "'e::linorder zlexrangespec \<Rightarrow> 'e \<Rightarrow> bool" where
  "lex_above rg v = (case lmin rg of MinString \<Rightarrow> True | MaxString \<Rightarrow> False | Str m \<Rightarrow> if lminex rg then m < v else m \<le> v)"

fun lex_below :: "'e::linorder zlexrangespec \<Rightarrow> 'e \<Rightarrow> bool" where
  "lex_below rg v = (case lmax rg of MinString \<Rightarrow> False | MaxString \<Rightarrow> True | Str m \<Rightarrow> if lmaxex rg then v < m else v \<le> m)"

definition in_lex :: "'e::linorder zlexrangespec \<Rightarrow> 'e \<Rightarrow> bool" where
  "in_lex rg v \<longleftrightarrow> lex_above rg v \<and> lex_below rg v"

lemma cmp_cases:
  assumes "cmp_ok cmp"
  shows "cmp x y < 0 \<longleftrightarrow> x < y" "cmp x y = 0 \<longleftrightarrow> x = y" "cmp x y > 0 \<longleftrightarrow> y < x" "cmp x y \<le> 0 \<longleftrightarrow> x \<le> y" "cmp x y \<ge> 0 \<longleftrightarrow> y \<le> x"
proof -
  show 1: "cmp x y < 0 \<longleftrightarrow> x < y" and 2: "cmp x y = 0 \<longleftrightarrow> x = y" using assms by (auto simp: cmp_ok_def)
  show 3: "cmp x y > 0 \<longleftrightarrow> y < x"
    using 1 2 linorder_less_linear [of "cmp x y" 0] linorder_less_linear [of x y] by auto
  show "cmp x y \<le> 0 \<longleftrightarrow> x \<le> y" "cmp x y \<ge> 0 \<longleftrightarrow> y \<le> x" using 1 3 by (simp_all flip: not_less)
qed

lemma lex_bounds:
  assumes "cmp_ok cmp"
  shows "zslLexValueGteMin cmp v rg = lex_above rg v" "zslLexValueLteMax cmp v rg = lex_below rg v"
  using cmp_cases [OF assms] by (auto simp: zslLexValueGteMin_def zslLexValueLteMax_def sdscmplex_def split: lex.splits)

lemma lex_down:
  assumes "\<forall>a \<in> set es. sc a = s"
  shows "down_closed es (\<lambda>a. \<not> lex_above rg (el a))" "down_closed es (\<lambda>a. lex_below rg (el a))"
  using assms by (auto simp: down_closed_def key_less_def split: lex.splits if_splits)

lemma zslDeleteRangeByLex_ok:
  assumes z: "zrep h z es" and eq: "\<forall>a \<in> set es. sc a = s" and c: "cmp_ok cmp"
  shows "\<exists>z' h'. zslDeleteRangeByLex cmp z rg d h =
      Some (of_nat (length (filter (in_lex rg \<circ> el) es)), z', d |` (- el ` set (filter (in_lex rg \<circ> el) es)), h') \<and>
    zrep h' z' (filter (\<lambda>a. \<not> in_lex rg (el a)) es) \<and> header z' = header z \<and>
    dom h' = dom h - ad ` set (filter (in_lex rg \<circ> el) es)"
proof -
  let ?P = "\<lambda>a :: ('a, 'b) ent. \<not> lex_above rg (el a)" and ?Q = "\<lambda>a :: ('a, 'b) ent. lex_below rg (el a)"
  have "(\<lambda>a. \<not> ?P a \<and> ?Q a) = in_lex rg \<circ> el" "(\<lambda>a. ?P a \<or> \<not> ?Q a) = (\<lambda>a. \<not> in_lex rg (el a))"
    by (auto simp: in_lex_def fun_eq_iff)
  note run = delete_range_ok [OF z lex_down [OF eq, where rg = rg], unfolded this]
  show ?thesis unfolding zslDeleteRangeByLex_def lex_bounds [OF c] by (rule run) (simp_all add: lex_node_def)
qed

lemma zslDeleteRangeByRank_ok:
  fixes start end1 :: u32
  assumes z: "zrep h z es" and len: "length es < 2 ^ 32"
  defines "k \<equiv> min (unat start - 1) (length es)"
  defines "m \<equiv> min (unat end1) (length es) - k"
  shows "\<exists>z' h'. zslDeleteRangeByRank z start end1 d h = Some (of_nat m, z', d |` (- el ` set (take m (drop k es))), h') \<and>
    zrep h' z' (take k es @ drop (k + m) es) \<and> header z' = header z \<and> dom h' = dom h - ad ` set (take m (drop k es))"
proof -
  let ?as = "take k es" and ?bs = "drop k es"
  have z': "zrep h z (?as @ ?bs)" using z by simp
  have la: "length ?as = k" by (simp add: k_def)
  have u: "unat w < 2 ^ 32" for w :: u32 by (rule order_less_le_trans [OF unsigned_less]) simp
  have less: "((of_nat j :: u64) < ucast w) = (j < unat w)" "((of_nat j :: u64) \<le> ucast w) = (j \<le> unat w)" if "j < 2 ^ 33" for j and w :: u32
    using that u [of w] by (simp_all add: word_less_nat_alt word_le_nat_alt unsigned_ucast_eq unat_of_nat take_bit_nat_eq_self)
  have "upto_pos h (?as @ ?bs) (\<lambda>_ t. t < (ucast start :: u64)) (length ?as)"
    unfolding upto_pos_def
  proof (intro conjI allI impI)
    fix q n assume "q < length (?as @ ?bs)"
    then have q: "q < length es" by simp
    then show "((of_nat (Suc q) :: u64) < ucast start) = (q < length ?as)" using less(1) [of "Suc q" start] len by (simp only: la) (auto simp: k_def)
  qed simp
  from search_split [OF z' this] obtain us where us: "zsl_descend h (\<lambda>_ t. t < (ucast start :: u64)) (zlevel z) (header z) 0 = Some us"
    "us ! 0 = (at (header z) ?as (length ?as), of_nat (length ?as))" "\<forall>i < zlevel z. map fst us ! i = at (header z) ?as (lastpos i ?as (length ?as))"
    by auto
  obtain sp where sp: "lv h (at (header z) ?as (length ?as)) 0 = Some (first_ad ?bs, sp)" using first_link [OF z'] by blast
  have ml: "m \<le> length ?bs" by (auto simp: m_def)
  have "\<exists>z' h'. delete_loop (\<lambda>_ t. t \<le> (ucast end1 :: u64)) (map fst us) (first_ad ?bs) (of_nat (length ?as) + 1) 0 z d h =
      Some (0 + of_nat m, z', d |` (- el ` set (take m ?bs)), h') \<and>
    zrep h' z' (?as @ drop m ?bs) \<and> header z' = header z \<and> dom h' = dom h - ad ` set (take m ?bs)"
  proof (rule delete_loop_ok [OF z' us(3) ml])
    fix j assume j: "j < length ?bs"
    have "(of_nat (length ?as) + 1 + of_nat j :: u64) = of_nat (Suc (k + j))" unfolding la by simp
    then show "((of_nat (length ?as) + 1 + of_nat j :: u64) \<le> ucast end1) = (j < m)"
      using less(2) [of "Suc (k + j)" end1] j len by (simp only:) (auto simp: m_def k_def)
  qed
  then show ?thesis using us(1,2) sp unfolding zslDeleteRangeByRank_def by (auto simp: add.commute)
qed

subsection \<open>Ranks are positions\<close>

lemma walk_step:
  \<comment> \<open>one level of a search from position \<open>p\<close>, and where the next level starts\<close>
  fixes cond :: "('s::linorder, 'e::linorder) znode \<Rightarrow> 'w::len word \<Rightarrow> bool"
  assumes z: "zrep h z es" and c: "upto_pos h es cond k" and w: "32 \<le> LENGTH('w)" and p: "p \<le> k" "Suc n \<le> hgt (zlevel z) es p"
  shows "zsl_walk h cond n (at (header z) es p) (of_nat p) = Some (at (header z) es (lastpos n es k), of_nat (lastpos n es k))"
    and "n \<le> hgt (zlevel z) es (lastpos n es k)"
proof -
  have "n < hgt (zlevel z) es p" using p(2) by simp
  then show "zsl_walk h cond n (at (header z) es p) (of_nat p) = Some (at (header z) es (lastpos n es k), of_nat (lastpos n es k))"
    by (rule zsl_walk_ok [OF z c w p(1)])
  show "n \<le> hgt (zlevel z) es (lastpos n es k)"
  proof (cases "lastpos n es k")
    case 0
    then have "p = 0" using lastpos_max [OF p(1), of n "zlevel z" es] p(2) by simp
    then show ?thesis using 0 p(2) by simp
  next
    case (Suc r)
    then show ?thesis using lastpos_hgt [of n "Suc n" es k] by simp
  qed
qed

lemma zrep_ele:
  assumes z: "zrep h z es" and p: "p \<le> length es"
  shows "\<exists>n. h (at (header z) es p) = Some n \<and> ele n = (case p of 0 \<Rightarrow> None | Suc q \<Rightarrow> Some (el (es ! q)))"
proof (cases p)
  case 0
  then show ?thesis using z by (auto simp: zrep_def heads_ok_def node_ok_def)
next
  case (Suc q)
  then have "node_ok h (ad (es ! q)) (Some (el (es ! q))) (sc (es ! q)) (ht (es ! q)) (prev_ad es q)" using z p by (simp add: zrep_def)
  then show ?thesis using Suc by (auto simp: node_ok_def)
qed

lemma lastpos_zero: "zrep h z es \<Longrightarrow> k \<le> length es \<Longrightarrow> lastpos 0 es k = k"
  by (rule lastpos_full) (simp_all add: zrep_def shape_ok_def)

lemma rank_loop_ok:
  assumes z: "zrep h z es" and c: "upto_pos h es (node_upto s e :: _ \<Rightarrow> u64 \<Rightarrow> bool) k"
    and u: "\<And>q. q < k \<Longrightarrow> el (es ! q) = e \<Longrightarrow> Suc q = k"
  shows "p \<le> k \<Longrightarrow> n \<le> hgt (zlevel z) es p \<Longrightarrow> rank_loop h s e n (at (header z) es p) (of_nat p) =
    Some (if 0 < n \<and> 0 < k \<and> el (es ! (k - 1)) = e then of_nat k else 0)"
proof (induction n arbitrary: p)
  case (Suc n)
  have k: "k \<le> length es" using c by (simp add: upto_pos_def)
  have ws: "zsl_walk h (node_upto s e) n (at (header z) es p) (of_nat p :: u64) = Some (at (header z) es (lastpos n es k), of_nat (lastpos n es k))"
    "n \<le> hgt (zlevel z) es (lastpos n es k)" using walk_step [OF z c _ Suc.prems] by simp_all
  have lk: "lastpos n es k \<le> length es" using lastpos_le [of n es k] k by simp
  obtain nd where nd: "h (at (header z) es (lastpos n es k)) = Some nd" "ele nd = (case lastpos n es k of 0 \<Rightarrow> None | Suc q \<Rightarrow> Some (el (es ! q)))"
    using zrep_ele [OF z lk] by blast
  have hit: "ele nd = Some e \<Longrightarrow> lastpos n es k = k \<and> 0 < k \<and> el (es ! (k - 1)) = e"
    using nd(2) u [of "lastpos n es k - 1"] lastpos_le [of n es k] by (auto split: nat.splits)
  show ?case
  proof (cases "ele nd = Some e")
    case True
    then show ?thesis using ws(1) nd(1) hit by simp
  next
    case False
    then have "\<not> (n = 0 \<and> 0 < k \<and> el (es ! (k - 1)) = e)" using nd(2) lastpos_zero [OF z k] by (auto split: nat.splits)
    then show ?thesis using Suc.IH [OF lastpos_le ws(2)] ws(1) nd(1) False by auto
  qed
qed simp

definition upto_key :: "'s::linorder \<Rightarrow> 'e::linorder \<Rightarrow> ('s, 'e) ent \<Rightarrow> bool" where
  "upto_key s e a \<longleftrightarrow> sc a < s \<or> sc a = s \<and> el a \<le> e"

lemma upto_down: "down_closed es (upto_key s e)"
  by (auto simp: upto_key_def key_less_def down_closed_def)

lemma upto_upto: "zrep h z es \<Longrightarrow> upto_pos h es (node_upto s e) (length (takeWhile (upto_key s e) es))"
  by (rule upto_pos_pred) (auto simp: node_upto_def upto_key_def key_less_def)

lemma takeWhile_upto:
  assumes s: "sorted_wrt key_less es" and q: "q < length es"
  shows "length (takeWhile (upto_key (sc (es ! q)) (el (es ! q))) es) = Suc q"
proof -
  have "takeWhile (upto_key (sc (es ! q)) (el (es ! q))) es = take (Suc q) es"
  proof (rule takeWhile_eq_take_P_nth)
    fix i assume i: "i < Suc q" "i < length es"
    then have "i = q \<or> key_less (es ! i) (es ! q)" using s q by (auto simp: sorted_wrt_iff_nth_less less_Suc_eq)
    then show "upto_key (sc (es ! q)) (el (es ! q)) (es ! i)" by (auto simp: upto_key_def key_less_def)
  next
    assume "Suc q < length es"
    then have "key_less (es ! q) (es ! Suc q)" using s by (simp add: sorted_wrt_iff_nth_less)
    then show "\<not> upto_key (sc (es ! q)) (el (es ! q)) (es ! Suc q)" by (auto simp: upto_key_def key_less_def)
  qed
  then show ?thesis using q by simp
qed

lemma zslGetRank_found:
  assumes z: "zrep h z es" and d: "distinct (map el es)" and q: "q < length es"
  shows "zslGetRank z (sc (es ! q)) (el (es ! q)) h = Some (of_nat (Suc q))"
proof -
  have s: "sorted_wrt key_less es" and l: "0 < zlevel z" using z by (auto simp: zrep_def shape_ok_def)
  note k = takeWhile_upto [OF s q]
  have "Suc j = Suc q" if "j < Suc q" "el (es ! j) = el (es ! q)" for j
    using d that q nth_eq_iff_index_eq [of "map el es" j q] by simp
  from rank_loop_ok [OF z upto_upto [OF z, of "sc (es ! q)" "el (es ! q)", unfolded k] this, of 0 "zlevel z"]
  show ?thesis using l by (simp add: zslGetRank_def)
qed

lemma zslGetRank_absent:
  assumes z: "zrep h z es" and e: "e \<notin> el ` set es"
  shows "zslGetRank z s e h = Some 0"
proof -
  have ne: "el (es ! j) \<noteq> e" if "j < length es" for j using e that by (metis image_eqI nth_mem)
  define k where "k = length (takeWhile (upto_key s e) es)"
  have k: "k \<le> length es" unfolding k_def by (rule length_takeWhile_le)
  have "\<not> (0 < k \<and> el (es ! (k - 1)) = e)" using ne [of "k - 1"] k by (cases k) auto
  moreover have "rank_loop h s e (zlevel z) (header z) 0 = Some (if 0 < zlevel z \<and> 0 < k \<and> el (es ! (k - 1)) = e then of_nat k else 0)"
    using rank_loop_ok [OF z upto_upto [OF z, of s e, folded k_def], of 0 "zlevel z"] ne k by auto
  ultimately show ?thesis by (auto simp: zslGetRank_def)
qed

lemma element_loop_ok:
  assumes z: "zrep h z es" and c: "upto_pos h es (\<lambda>_ t. t \<le> (r :: u64)) k" and r: "of_nat k = r \<longleftrightarrow> unat r = k"
  shows "p \<le> k \<Longrightarrow> n \<le> hgt (zlevel z) es p \<Longrightarrow> element_loop h r n (at (header z) es p) (of_nat p) =
    Some (if 0 < n \<and> unat r = k then Some (at (header z) es k) else None)"
proof (induction n arbitrary: p)
  case (Suc n)
  have k: "k \<le> length es" using c by (simp add: upto_pos_def)
  have len: "length es < 2 ^ 32" using z by (simp add: zrep_def shape_ok_def)
  have ws: "zsl_walk h (\<lambda>_ t. t \<le> r) n (at (header z) es p) (of_nat p :: u64) = Some (at (header z) es (lastpos n es k), of_nat (lastpos n es k))"
    "n \<le> hgt (zlevel z) es (lastpos n es k)" using walk_step [OF z c _ Suc.prems] by simp_all
  have lk: "lastpos n es k \<le> k" by (rule lastpos_le)
  have ru: "unat (of_nat (lastpos n es k) :: u64) = lastpos n es k" using lk k len by (simp add: unat_of_nat take_bit_nat_eq_self)
  show ?case
  proof (cases "of_nat (lastpos n es k) = r")
    case True
    then have "unat r = lastpos n es k" using ru by simp
    moreover have "lastpos n es k = k"
    proof (rule ccontr)
      assume "lastpos n es k \<noteq> k"
      then have j: "lastpos n es k < k" using lk by simp
      have "k - 1 < length es" using k j by simp
      moreover obtain nd where "h (ad (es ! (k - 1))) = Some nd" using z calculation by (auto simp: zrep_def node_ok_def)
      ultimately have "(of_nat (Suc (k - 1)) :: u64) \<le> r" using c j unfolding upto_pos_def by (metis Suc_diff_1 diff_less less_nat_zero_code not_gr_zero zero_less_one)
      then have "k \<le> unat r" using j k len by (simp add: word_le_nat_alt unat_of_nat take_bit_nat_eq_self)
      then show False using \<open>unat r = lastpos n es k\<close> j by simp
    qed
    ultimately show ?thesis using ws(1) True by simp
  next
    case False
    have "\<not> (n = 0 \<and> unat r = k)" using False lastpos_zero [OF z k] r by auto
    then show ?thesis using Suc.IH [OF lk ws(2)] ws(1) False by auto
  qed
qed simp

lemma zslGetElementByRank_ok:
  assumes z: "zrep h z es"
  shows "zslGetElementByRank z r h = Some (if unat r \<le> length es then Some (at (header z) es (unat r)) else None)"
proof -
  let ?k = "min (unat r) (length es)"
  have len: "length es < 2 ^ 32" and l: "0 < zlevel z" using z by (auto simp: zrep_def shape_ok_def)
  have le: "((of_nat j :: u64) \<le> r) = (j \<le> unat r)" "unat (of_nat j :: u64) = j" if "j \<le> length es" for j
    using that len by (simp_all add: word_le_nat_alt unat_of_nat take_bit_nat_eq_self)
  have "upto_pos h es (\<lambda>_ t. t \<le> r) ?k" unfolding upto_pos_def using le(1) by (auto simp del: of_nat_Suc)
  moreover have "of_nat ?k = r \<longleftrightarrow> unat r = ?k" 
  proof
    assume "unat r = ?k"
    then have "of_nat ?k = (of_nat (unat r) :: u64)" by simp
    then show "of_nat ?k = r" by simp
  qed (use le(2) [of ?k] in auto)
  ultimately show ?thesis using element_loop_ok [OF z, of r ?k 0 "zlevel z"] l by (auto simp: zslGetElementByRank_def min_def)
qed

subsection \<open>The first and the last node of a range\<close>

lemma first_search:
  fixes cond :: "('s::linorder, 'e::linorder) znode \<Rightarrow> u32 \<Rightarrow> bool"
  assumes z: "zrep h z es" and P: "down_closed es P" and Q: "down_closed es Q" and ne: "es \<noteq> []" "\<not> P (last es)"
    and c: "\<And>n w a. a \<in> set es \<Longrightarrow> ele n = Some (el a) \<Longrightarrow> score n = sc a \<Longrightarrow> cond n w = P a"
  shows "\<exists>us sp b. zsl_descend h cond (zlevel z) (header z) 0 = Some us \<and> lv h (fst (us ! 0)) 0 = Some (Some (ad b), sp) \<and>
    b \<in> set es \<and> first_ad (filter (\<lambda>a. \<not> P a \<and> Q a) es) = (if Q b then Some (ad b) else None)"
proof -
  let ?as = "takeWhile P es" and ?bs = "dropWhile P es"
  have s: "sorted_wrt key_less es" using z by (simp add: zrep_def shape_ok_def)
  have z': "zrep h z (?as @ ?bs)" using z by simp
  have "upto_pos h es cond (length ?as)"
    by (rule upto_pos_pred [OF z]) (use c P in \<open>auto simp: down_closed_def\<close>)
  then have "upto_pos h (?as @ ?bs) cond (length ?as)" by simp
  from search_split [OF z' this] obtain us where us: "zsl_descend h cond (zlevel z) (header z) 0 = Some us"
    "us ! 0 = (at (header z) ?as (length ?as), of_nat (length ?as))" by auto
  obtain sp where sp: "lv h (at (header z) ?as (length ?as)) 0 = Some (first_ad ?bs, sp)" using first_link [OF z'] by blast
  have "?bs \<noteq> []" using ne last_in_set [of es] by (auto simp: dropWhile_eq_Nil_conv)
  then obtain b bs where b: "?bs = b # bs" by (cases ?bs) auto
  have "takeWhile Q ?bs = filter (\<lambda>a. \<not> P a \<and> Q a) es" using filter_range(2) [OF s P Q] .
  moreover have "first_ad (takeWhile Q ?bs) = (if Q b then Some (ad b) else None)" unfolding b by (simp add: first_ad_def)
  moreover have "b \<in> set es" using b set_dropWhileD [of b P es] by simp
  moreover have "first_ad ?bs = Some (ad b)" unfolding b by (simp add: first_ad_def)
  ultimately show ?thesis using us sp by auto
qed

lemma last_search:
  fixes cond :: "('s::linorder, 'e::linorder) znode \<Rightarrow> u32 \<Rightarrow> bool"
  assumes z: "zrep h z es" and P: "down_closed es P" and Q: "down_closed es Q" and ne: "es \<noteq> []" "Q (hd es)"
    and c: "\<And>n w a. a \<in> set es \<Longrightarrow> ele n = Some (el a) \<Longrightarrow> score n = sc a \<Longrightarrow> cond n w = Q a"
  shows "\<exists>us b. zsl_descend h cond (zlevel z) (header z) 0 = Some us \<and> fst (us ! 0) = ad b \<and>
    b \<in> set es \<and> first_ad (rev (filter (\<lambda>a. \<not> P a \<and> Q a) es)) = (if P b then None else Some (ad b))"
proof -
  let ?as = "takeWhile Q es" and ?bs = "dropWhile Q es"
  have s: "sorted_wrt key_less es" using z by (simp add: zrep_def shape_ok_def)
  have z': "zrep h z (?as @ ?bs)" using z by simp
  have "upto_pos h es cond (length ?as)"
    by (rule upto_pos_pred [OF z]) (use c Q in \<open>auto simp: down_closed_def\<close>)
  then have "upto_pos h (?as @ ?bs) cond (length ?as)" by simp
  from search_split [OF z' this] obtain us where us: "zsl_descend h cond (zlevel z) (header z) 0 = Some us"
    "us ! 0 = (at (header z) ?as (length ?as), of_nat (length ?as))" by auto
  have "?as \<noteq> []" using ne by (cases es) auto
  then obtain cs b where b: "?as = cs @ [b]" by (cases ?as rule: rev_cases) auto
  then have "at (header z) ?as (length ?as) = ad b" by simp
  moreover have be: "b \<in> set es" "Q b" using b set_takeWhileD [of b Q es] by auto
  moreover have "filter (\<lambda>a. \<not> P a \<and> Q a) es = filter (\<lambda>a. \<not> P a) (cs @ [b])"
  proof -
    have "filter (\<lambda>a. \<not> P a \<and> Q a) ?bs = []" using dropWhile_not [OF s Q] by (auto simp: filter_empty_conv)
    moreover have "filter (\<lambda>a. \<not> P a \<and> Q a) ?as = filter (\<lambda>a. \<not> P a) ?as" by (rule filter_cong) (auto dest: set_takeWhileD)
    ultimately have "filter (\<lambda>a. \<not> P a \<and> Q a) (?as @ ?bs) = filter (\<lambda>a. \<not> P a) ?as" by (simp only: filter_append append_Nil2)
    then have "filter (\<lambda>a. \<not> P a \<and> Q a) es = filter (\<lambda>a. \<not> P a) ?as" by (simp only: takeWhile_dropWhile_id)
    then show ?thesis unfolding b .
  qed
  moreover have "filter (\<lambda>a. \<not> P a) cs = []" if "P b"
  proof -
    have "sorted_wrt key_less ?as" using s sorted_wrt_append [of key_less ?as ?bs] by simp
    then have "sorted_wrt key_less (cs @ [b])" unfolding b .
    then have "key_less a b" "a \<in> set es" if "a \<in> set cs" for a
      using that b set_takeWhileD [of a Q es] unfolding sorted_wrt_append by auto
    then show ?thesis using P be(1) \<open>P b\<close> by (auto simp: filter_empty_conv down_closed_def)
  qed
  ultimately show ?thesis using us by (auto simp: first_ad_def)
qed

lemma ends:
  \<comment> \<open>the two nodes that the test for an empty range reads\<close>
  assumes z: "zrep h z es"
  shows "tail z = first_ad (rev es)" "\<exists>sp. lv h (header z) 0 = Some (first_ad es, sp)"
    "a \<in> set es \<Longrightarrow> \<exists>n. h (ad a) = Some n \<and> ele n = Some (el a) \<and> score n = sc a"
proof -
  have "tail z = prev_ad es (length es)" using z by (simp add: zrep_def shape_ok_def)
  then show "tail z = first_ad (rev es)" by (cases es rule: rev_cases) (auto simp: prev_ad_def first_ad_def)
  show "\<exists>sp. lv h (header z) 0 = Some (first_ad es, sp)" using first_link [of h z "[]" es] z by simp
  show "\<exists>n. h (ad a) = Some n \<and> ele n = Some (el a) \<and> score n = sc a" if "a \<in> set es"
    using that zrep_node z by (metis in_set_conv_decomp)
qed

lemma zslIsInRange_ok:
  assumes z: "zrep h z es"
  shows "\<exists>b. zslIsInRange z rg h = Some b \<and>
    (if b then es \<noteq> [] \<and> zslValueGteMin (sc (last es)) rg \<and> zslValueLteMax (sc (hd es)) rg else filter (in_range rg \<circ> sc) es = [])"
proof -
  note e = ends [OF z]
  have none: "filter (in_range rg \<circ> sc) es = []"
    if "rmin rg > rmax rg \<or> rmin rg = rmax rg \<and> (minex rg \<or> maxex rg)"
    using that by (auto simp: filter_empty_conv in_range_def zslValueGteMin_def zslValueLteMax_def split: if_splits)
  have so: "sorted_wrt key_less es" using z by (simp add: zrep_def shape_ok_def)
  show ?thesis
  proof (cases es)
    case Nil
    then show ?thesis using e(1) by (intro exI [of _ False]) (simp add: zslIsInRange_def first_ad_def)
  next
    case (Cons a as)
    then have ne: "es \<noteq> []" by simp
    obtain bs b where b: "es = bs @ [b]" using append_butlast_last_id [OF ne] by metis
    have m: "a \<in> set es" "b \<in> set es" using Cons by simp (simp add: b)
    obtain na nb where n: "h (ad a) = Some na" "score na = sc a" "h (ad b) = Some nb" "score nb = sc b"
      using e(3) [OF m(1)] e(3) [OF m(2)] by blast
    have le: "sc a \<le> sc x" "sc x \<le> sc b" if "x \<in> set es" for x
    proof -
      show "sc a \<le> sc x" using so that Cons by (auto simp: key_less_def)
      show "sc x \<le> sc b" using so that unfolding b by (auto simp: key_less_def sorted_wrt_append)
    qed
    have low: "filter (in_range rg \<circ> sc) es = []" if "\<not> zslValueGteMin (sc b) rg"
      using that le(2) by (fastforce simp: filter_empty_conv in_range_def zslValueGteMin_def split: if_splits)
    have high: "filter (in_range rg \<circ> sc) es = []" if "\<not> zslValueLteMax (sc a) rg"
      using that le(1) by (fastforce simp: filter_empty_conv in_range_def zslValueLteMax_def split: if_splits)
    obtain sp where sp: "lv h (header z) 0 = Some (Some (ad a), sp)" using e(2) Cons by (auto simp: first_ad_def)
    have t: "tail z = Some (ad b)" using e(1) b by (simp add: first_ad_def)
    have l: "last es = b" "hd es = a" by (simp add: b, simp add: Cons)
    let ?no = "rmin rg > rmax rg \<or> rmin rg = rmax rg \<and> (minex rg \<or> maxex rg)"
    let ?b = "\<not> ?no \<and> zslValueGteMin (sc b) rg \<and> zslValueLteMax (sc a) rg"
    have "zslIsInRange z rg h = Some ?b" using n sp t by (simp add: zslIsInRange_def)
    moreover have "\<not> ?b \<Longrightarrow> filter (in_range rg \<circ> sc) es = []" using none low high by blast
    ultimately show ?thesis using l ne by (intro exI [of _ ?b]) simp
  qed
qed

lemma zslFirstInRange_ok:
  assumes z: "zrep h z es"
  shows "zslFirstInRange z rg h = Some (first_ad (filter (in_range rg \<circ> sc) es))"
proof -
  obtain b where b: "zslIsInRange z rg h = Some b"
    "if b then es \<noteq> [] \<and> zslValueGteMin (sc (last es)) rg \<and> zslValueLteMax (sc (hd es)) rg else filter (in_range rg \<circ> sc) es = []"
    using zslIsInRange_ok [OF z] by blast
  show ?thesis
  proof (cases b)
    case True
    have eq: "(\<lambda>a. \<not> \<not> zslValueGteMin (sc a) rg \<and> zslValueLteMax (sc a) rg) = in_range rg \<circ> sc" by (auto simp: in_range_def)
    obtain us sp x where us: "zsl_descend h (\<lambda>n _. \<not> zslValueGteMin (score n) rg) (zlevel z) (header z) (0 :: u32) = Some us"
      "lv h (fst (us ! 0)) 0 = Some (Some (ad x), sp)" "x \<in> set es"
      "first_ad (filter (in_range rg \<circ> sc) es) = (if zslValueLteMax (sc x) rg then Some (ad x) else None)"
      using first_search [OF z range_down [of es rg], unfolded eq, of "\<lambda>n _. \<not> zslValueGteMin (score n) rg"] b(2) True by auto
    then show ?thesis using b(1) True ends(3) [OF z us(3)] by (auto simp: zslFirstInRange_def)
  qed (use b in \<open>simp add: zslFirstInRange_def first_ad_def\<close>)
qed

lemma zslLastInRange_ok:
  assumes z: "zrep h z es"
  shows "zslLastInRange z rg h = Some (first_ad (rev (filter (in_range rg \<circ> sc) es)))"
proof -
  obtain b where b: "zslIsInRange z rg h = Some b"
    "if b then es \<noteq> [] \<and> zslValueGteMin (sc (last es)) rg \<and> zslValueLteMax (sc (hd es)) rg else filter (in_range rg \<circ> sc) es = []"
    using zslIsInRange_ok [OF z] by blast
  show ?thesis
  proof (cases b)
    case True
    have eq: "(\<lambda>a. \<not> \<not> zslValueGteMin (sc a) rg \<and> zslValueLteMax (sc a) rg) = in_range rg \<circ> sc" by (auto simp: in_range_def)
    obtain us x where us: "zsl_descend h (\<lambda>n _. zslValueLteMax (score n) rg) (zlevel z) (header z) (0 :: u32) = Some us"
      "fst (us ! 0) = ad x" "x \<in> set es"
      "first_ad (rev (filter (in_range rg \<circ> sc) es)) = (if \<not> zslValueGteMin (sc x) rg then None else Some (ad x))"
      using last_search [OF z range_down [of es rg], unfolded eq, of "\<lambda>n _. zslValueLteMax (score n) rg"] b(2) True by auto
    then show ?thesis using b(1) True ends(3) [OF z us(3)] by (auto simp: zslLastInRange_def)
  qed (use b in \<open>simp add: zslLastInRange_def first_ad_def\<close>)
qed

definition lex_clear :: "'e \<Rightarrow> 'e \<Rightarrow> 'e zlexrangespec \<Rightarrow> bool" where
  \<comment> \<open>the two shared objects differ and no open bound has the text of the one at the other end\<close>
  "lex_clear mins maxs rg \<longleftrightarrow> mins \<noteq> maxs \<and> \<not> (lmin rg = MinString \<and> lmax rg = Str mins \<and> lmaxex rg) \<and>
     \<not> (lmin rg = MinString \<and> lmax rg = Str mins \<and> lminex rg) \<and>
     \<not> (lmin rg = Str maxs \<and> lmax rg = MaxString \<and> (lminex rg \<or> lmaxex rg))"

lemma lex_empty:
  assumes "cmp_ok cmp" and "lex_clear mins maxs rg"
    and "sdscmplex cmp (lmin rg) (lmax rg) > 1 \<or>
      cmp (lex_text mins maxs (lmin rg)) (lex_text mins maxs (lmax rg)) = 0 \<and> (lminex rg \<or> lmaxex rg)"
  shows "\<not> in_lex rg v"
proof (cases "lmin rg"; cases "lmax rg")
  fix x y assume xy: "lmin rg = Str x" "lmax rg = Str y"
  from assms(3) have "1 < cmp x y \<or> cmp x y = 0 \<and> (lminex rg \<or> lmaxex rg)" by (simp add: xy sdscmplex_def)
  then have "y < x \<or> x = y \<and> (lminex rg \<or> lmaxex rg)" using cmp_cases(2,3) [OF assms(1), of x y] by auto
  then show ?thesis by (auto simp: in_lex_def xy)
qed (use assms cmp_cases(2) [OF assms(1)] in \<open>auto simp: in_lex_def sdscmplex_def lex_clear_def\<close>)

lemma zslIsInLexRange_ok:
  assumes z: "zrep h z es" and eq: "\<forall>a \<in> set es. sc a = s" and c: "cmp_ok cmp" and cl: "lex_clear mins maxs rg"
  shows "\<exists>b. zslIsInLexRange cmp mins maxs z rg h = Some b \<and>
    (if b then es \<noteq> [] \<and> lex_above rg (el (last es)) \<and> lex_below rg (el (hd es)) else filter (in_lex rg \<circ> el) es = [])"
proof (cases es)
  case Nil
  then show ?thesis using ends(1) [OF z] by (intro exI [of _ False]) (simp add: zslIsInLexRange_def first_ad_def)
next
  case (Cons a as)
  then have ne: "es \<noteq> []" by simp
  obtain bs b where b: "es = bs @ [b]" using append_butlast_last_id [OF ne] by metis
  have so: "sorted_wrt key_less es" using z by (simp add: zrep_def shape_ok_def)
  have m: "a \<in> set es" "b \<in> set es" using Cons by simp (simp add: b)
  obtain na nb where n: "h (ad a) = Some na" "ele na = Some (el a)" "h (ad b) = Some nb" "ele nb = Some (el b)"
    using ends(3) [OF z m(1)] ends(3) [OF z m(2)] by blast
  have le: "el a \<le> el x" "el x \<le> el b" if "x \<in> set es" for x
  proof -
    have "x = a \<or> key_less a x" using so that Cons by auto
    then show "el a \<le> el x" using eq that m by (auto simp: key_less_def)
    have "x = b \<or> key_less x b" using so that unfolding b by (auto simp: sorted_wrt_append)
    then show "el x \<le> el b" using eq that m by (auto simp: key_less_def)
  qed
  have low: "filter (in_lex rg \<circ> el) es = []" if "\<not> lex_above rg (el b)"
    using that le(2) by (fastforce simp: filter_empty_conv in_lex_def split: if_splits lex.splits)
  have high: "filter (in_lex rg \<circ> el) es = []" if "\<not> lex_below rg (el a)"
    using that le(1) by (fastforce simp: filter_empty_conv in_lex_def split: if_splits lex.splits)
  obtain sp where sp: "lv h (header z) 0 = Some (Some (ad a), sp)" using ends(2) [OF z] Cons by (auto simp: first_ad_def)
  have t: "tail z = Some (ad b)" using ends(1) [OF z] b by (simp add: first_ad_def)
  have l: "last es = b" "hd es = a" by (simp add: b, simp add: Cons)
  let ?no = "sdscmplex cmp (lmin rg) (lmax rg) > 1 \<or>
      cmp (lex_text mins maxs (lmin rg)) (lex_text mins maxs (lmax rg)) = 0 \<and> (lminex rg \<or> lmaxex rg)"
  let ?b = "\<not> ?no \<and> lex_above rg (el b) \<and> lex_below rg (el a)"
  have "zslIsInLexRange cmp mins maxs z rg h = Some ?b" using n sp t unfolding zslIsInLexRange_def lex_bounds [OF c] by simp
  moreover have "\<not> ?b \<Longrightarrow> filter (in_lex rg \<circ> el) es = []" using lex_empty [OF c cl] low high by (auto simp: filter_empty_conv)
  ultimately show ?thesis using l ne by (intro exI [of _ ?b]) simp
qed

lemma zslFirstInLexRange_ok:
  assumes z: "zrep h z es" and eq: "\<forall>a \<in> set es. sc a = s" and c: "cmp_ok cmp" and cl: "lex_clear mins maxs rg"
  shows "zslFirstInLexRange cmp mins maxs z rg h = Some (first_ad (filter (in_lex rg \<circ> el) es))"
proof -
  obtain b where b: "zslIsInLexRange cmp mins maxs z rg h = Some b"
    "if b then es \<noteq> [] \<and> lex_above rg (el (last es)) \<and> lex_below rg (el (hd es)) else filter (in_lex rg \<circ> el) es = []"
    using zslIsInLexRange_ok [OF assms] by blast
  show ?thesis
  proof (cases b)
    case True
    have eqs: "(\<lambda>a. \<not> \<not> lex_above rg (el a) \<and> lex_below rg (el a)) = in_lex rg \<circ> el" by (auto simp: in_lex_def fun_eq_iff)
    obtain us sp x where us: "zsl_descend h (\<lambda>n _. lex_node (\<lambda>e. \<not> lex_above rg e) n) (zlevel z) (header z) (0 :: u32) = Some us"
      "lv h (fst (us ! 0)) 0 = Some (Some (ad x), sp)" "x \<in> set es"
      "first_ad (filter (in_lex rg \<circ> el) es) = (if lex_below rg (el x) then Some (ad x) else None)"
      using first_search [OF z lex_down [OF eq, of rg], unfolded eqs, of "\<lambda>n _. lex_node (\<lambda>e. \<not> lex_above rg e) n"] b(2) True
      by (auto simp: lex_node_def simp del: lex_above.simps lex_below.simps)
    show ?thesis using b(1) True ends(3) [OF z us(3)] us unfolding zslFirstInLexRange_def lex_bounds [OF c]
      by (auto simp del: lex_above.simps lex_below.simps)
  qed (use b in \<open>simp add: zslFirstInLexRange_def first_ad_def\<close>)
qed

lemma zslLastInLexRange_ok:
  assumes z: "zrep h z es" and eq: "\<forall>a \<in> set es. sc a = s" and c: "cmp_ok cmp" and cl: "lex_clear mins maxs rg"
  shows "zslLastInLexRange cmp mins maxs z rg h = Some (first_ad (rev (filter (in_lex rg \<circ> el) es)))"
proof -
  obtain b where b: "zslIsInLexRange cmp mins maxs z rg h = Some b"
    "if b then es \<noteq> [] \<and> lex_above rg (el (last es)) \<and> lex_below rg (el (hd es)) else filter (in_lex rg \<circ> el) es = []"
    using zslIsInLexRange_ok [OF assms] by blast
  show ?thesis
  proof (cases b)
    case True
    have eqs: "(\<lambda>a. \<not> \<not> lex_above rg (el a) \<and> lex_below rg (el a)) = in_lex rg \<circ> el" by (auto simp: in_lex_def fun_eq_iff)
    obtain us x where us: "zsl_descend h (\<lambda>n _. lex_node (\<lambda>e. lex_below rg e) n) (zlevel z) (header z) (0 :: u32) = Some us"
      "fst (us ! 0) = ad x" "x \<in> set es"
      "first_ad (rev (filter (in_lex rg \<circ> el) es)) = (if \<not> lex_above rg (el x) then None else Some (ad x))"
      using last_search [OF z lex_down [OF eq, of rg], unfolded eqs, of "\<lambda>n _. lex_node (\<lambda>e. lex_below rg e) n"] b(2) True
      by (auto simp: lex_node_def simp del: lex_above.simps lex_below.simps)
    show ?thesis using b(1) True ends(3) [OF z us(3)] us unfolding zslLastInLexRange_def lex_bounds [OF c]
      by (auto simp del: lex_above.simps lex_below.simps)
  qed (use b in \<open>simp add: zslLastInLexRange_def first_ad_def\<close>)
qed

lemma lex_unclear_hides:
  \<comment> \<open>when an open bound has the text of the shared object at the other end the searches find
     nothing, whatever the list holds\<close>
  assumes "cmp_ok cmp" and "mins \<noteq> maxs" and "\<not> lex_clear mins maxs rg"
  shows "zslFirstInLexRange cmp mins maxs z rg h = Some None" "zslLastInLexRange cmp mins maxs z rg h = Some None"
proof -
  have "zslIsInLexRange cmp mins maxs z rg h = Some False"
    using assms cmp_cases(2) [OF assms(1)] by (auto simp: lex_clear_def zslIsInLexRange_def)
  then show "zslFirstInLexRange cmp mins maxs z rg h = Some None" "zslLastInLexRange cmp mins maxs z rg h = Some None"
    by (simp_all add: zslFirstInLexRange_def zslLastInLexRange_def)
qed

lemma rank_wrong_score:
  \<comment> \<open>a search by a score above the stored one returns the rank of the element\<close>
  assumes z: "zrep h z [a]" and s: "sc a < s"
  shows "zslGetRank z s (el a) h = Some 1"
proof -
  have "takeWhile (upto_key s (el a)) [a] = [a]" using s by (simp add: upto_key_def)
  then have "upto_pos h [a] (node_upto s (el a) :: _ \<Rightarrow> u64 \<Rightarrow> bool) 1" using upto_upto [OF z, of s "el a"] by simp
  from rank_loop_ok [OF z this, of 0 "zlevel z"] show ?thesis using z by (simp add: zslGetRank_def zrep_def shape_ok_def)
qed

subsection \<open>Properties\<close>

definition sample_heap :: "(nat, nat) zheap" where
  \<comment> \<open>a list of two elements for the examples\<close>
  "sample_heap = [0 \<mapsto> \<lparr>ele = None, score = 0, backward = None, level = (Some 1, 1) # (Some 2, 2) # replicate 30 (None, 0)\<rparr>,
     1 \<mapsto> \<lparr>ele = Some 8, score = 5, backward = None, level = [(Some 2, 1)]\<rparr>,
     2 \<mapsto> \<lparr>ele = Some 3, score = 6, backward = Some 1, level = [(None, 0), (None, 0)]\<rparr>]"

definition sample_list :: zskiplist where
  "sample_list = \<lparr>header = 0, tail = Some 2, zlength = 2, zlevel = 2\<rparr>"

definition sample_ents :: "(nat, nat) ent list" where
  "sample_ents = [\<lparr>ad = 1, sc = 5, el = 8, ht = 1\<rparr>, \<lparr>ad = 2, sc = 6, el = 3, ht = 2\<rparr>]"

lemma sample_rep: "zrep sample_heap sample_list sample_ents"
proof -
  have two: "p \<le> 2 \<longleftrightarrow> p = 0 \<or> p = 1 \<or> p = 2" "p < 2 \<longleftrightarrow> p = 0 \<or> p = 1" for p :: nat by auto
  have "links_ok sample_heap 0 2 sample_ents"
    unfolding links_ok_def
  proof (intro allI impI)
    fix p i assume p: "p \<le> length sample_ents" and i: "i < hgt 2 sample_ents p"
    have "p = 0 \<or> p = Suc 0 \<or> p = Suc (Suc 0)" using p by (auto simp: sample_ents_def)
    then show "lv sample_heap (at 0 sample_ents p) i = Some (link i (drop p sample_ents))"
      using i by (elim disjE) (auto simp: sample_ents_def lv_def sample_heap_def less_Suc_eq numeral_2_eq_2)
  qed
  moreover have "heads_ok sample_heap 0 2"
    by (auto simp: heads_ok_def node_ok_def lv_def sample_heap_def nth_Cons' intro!: exI)
  moreover have "shape_ok sample_list sample_ents"
    by (simp add: shape_ok_def sample_list_def sample_ents_def key_less_def prev_ad_def)
  ultimately show ?thesis
    by (auto simp: zrep_def sample_list_def sample_ents_def sample_heap_def two node_ok_def prev_ad_def less_Suc_eq)
qed

text \<open>Property C23. \<open>zslFirstInRange\<close> and \<open>zslLastInRange\<close> return the first and the last node
  of the elements whose score is in the range, NULL exactly when there is none, whatever bounds
  are open and whether or not the range is empty by itself.\<close>
theorem zsl_range_ends:
  assumes "zrep h z es"
  shows "zslFirstInRange z rg h = Some (first_ad (filter (\<lambda>a. in_range rg (sc a)) es)) \<and>
    zslLastInRange z rg h = Some (first_ad (rev (filter (\<lambda>a. in_range rg (sc a)) es)))"
  using zslFirstInRange_ok [OF assms, of rg] zslLastInRange_ok [OF assms, of rg] by (simp add: comp_def)

theorem zsl_range_ends_witness:
  "zslFirstInRange sample_list \<lparr>rmin = 5, rmax = 9, minex = True, maxex = False\<rparr> sample_heap = Some (Some 2) \<and>
   zslLastInRange sample_list \<lparr>rmin = 5, rmax = 6, minex = False, maxex = True\<rparr> sample_heap = Some (Some 1)"
  using zsl_range_ends [OF sample_rep, of "\<lparr>rmin = 5, rmax = 9, minex = True, maxex = False\<rparr>"]
    zsl_range_ends [OF sample_rep, of "\<lparr>rmin = 5, rmax = 6, minex = False, maxex = True\<rparr>"]
  by (simp add: sample_ents_def in_range_def zslValueGteMin_def zslValueLteMax_def first_ad_def)

text \<open>Property C24. Rank and element are inverse to each other: \<open>zslGetRank\<close> counts the spans
  along its search path and returns the position of an element from 1, with which
  \<open>zslGetElementByRank\<close> finds its node again; behind the end it finds none.\<close>
theorem zsl_rank_roundtrip:
  assumes "zrep h z es" and "distinct (map el es)"
  shows "(\<forall>q < length es. zslGetRank z (sc (es ! q)) (el (es ! q)) h = Some (of_nat (Suc q)) \<and>
      zslGetElementByRank z (of_nat (Suc q)) h = Some (Some (ad (es ! q)))) \<and>
    (\<forall>r. length es < unat r \<longrightarrow> zslGetElementByRank z r h = Some None)"
proof -
  have "unat (of_nat (Suc q) :: u64) = Suc q" if "q < length es" for q
  proof -
    have "length es < 2 ^ 32" using assms(1) by (simp add: zrep_def shape_ok_def)
    then show ?thesis using that by (simp add: unat_of_nat take_bit_nat_eq_self del: of_nat_Suc)
  qed
  then show ?thesis using zslGetRank_found [OF assms] zslGetElementByRank_ok [OF assms(1)] by (simp del: of_nat_Suc)
qed

theorem zsl_rank_roundtrip_witness:
  "zslGetRank sample_list 6 3 sample_heap = Some 2 \<and> zslGetElementByRank sample_list 2 sample_heap = Some (Some 2) \<and>
   zslGetElementByRank sample_list 3 sample_heap = Some None"
proof -
  have "distinct (map el sample_ents)" by (simp add: sample_ents_def)
  from zsl_rank_roundtrip [OF sample_rep this] have r:
    "\<forall>q < length sample_ents. zslGetRank sample_list (sc (sample_ents ! q)) (el (sample_ents ! q)) sample_heap = Some (of_nat (Suc q)) \<and>
      zslGetElementByRank sample_list (of_nat (Suc q)) sample_heap = Some (Some (ad (sample_ents ! q)))"
    "\<forall>r. length sample_ents < unat r \<longrightarrow> zslGetElementByRank sample_list r sample_heap = Some None" by blast+
  show ?thesis using r(1) [rule_format, of 1] r(2) [rule_format, of 3] by (simp add: sample_ents_def)
qed

definition lex_heap :: "(nat, nat) zheap" where
  "lex_heap = [0 \<mapsto> \<lparr>ele = None, score = 0, backward = None, level = (Some 1, 1) # replicate 31 (None, 0)\<rparr>,
     1 \<mapsto> \<lparr>ele = Some 3, score = 5, backward = None, level = [(None, 0)]\<rparr>]"

definition lex_list :: zskiplist where
  "lex_list = \<lparr>header = 0, tail = Some 1, zlength = 1, zlevel = 1\<rparr>"

lemma lex_rep: "zrep lex_heap lex_list [\<lparr>ad = 1, sc = 5, el = 3, ht = 1\<rparr>]"
proof -
  have "heads_ok lex_heap 0 1"
    by (auto simp: heads_ok_def node_ok_def lv_def lex_heap_def nth_Cons' intro!: exI)
  then show ?thesis
    by (auto simp: zrep_def shape_ok_def links_ok_def lex_list_def lex_heap_def node_ok_def prev_ad_def lv_def le_Suc_eq key_less_def)
qed

text \<open>Property C38. In a sorted set of equal scores, with two different texts for the shared objects
  minstring and maxstring, \<open>zslFirstInLexRange\<close> and \<open>zslLastInLexRange\<close> return the first and the
  last node in the range of elements, except when one bound is infinite and the other one has the
  text of the shared object that stands for it, one of the two being open: \<open>-\<close> to \<open>(minstring\<close>
  and \<open>(maxstring\<close> to \<open>+\<close>. For these ranges both return NULL whatever the list holds. In all
  cases \<open>zslDeleteRangeByLex\<close> removes as many elements as are in the range.\<close>
theorem zsl_lex_search:
  fixes es :: "('s::linorder, 'e::linorder) ent list"
  assumes "zrep h z es" and "\<forall>a \<in> set es. sc a = s" and "cmp_ok cmp" and "mins \<noteq> maxs"
  shows "(if lex_clear mins maxs rg
     then zslFirstInLexRange cmp mins maxs z rg h = Some (first_ad (filter (\<lambda>a. in_lex rg (el a)) es)) \<and>
       zslLastInLexRange cmp mins maxs z rg h = Some (first_ad (rev (filter (\<lambda>a. in_lex rg (el a)) es)))
     else zslFirstInLexRange cmp mins maxs z rg h = Some None \<and> zslLastInLexRange cmp mins maxs z rg h = Some None) \<and>
    (\<exists>z' d' h'. zslDeleteRangeByLex cmp z rg d h = Some (of_nat (length (filter (\<lambda>a. in_lex rg (el a)) es)), z', d', h'))"
  using zslFirstInLexRange_ok [OF assms(1-3), of mins maxs rg] zslLastInLexRange_ok [OF assms(1-3), of mins maxs rg]
    lex_unclear_hides [OF assms(3,4), of rg z h] zslDeleteRangeByLex_ok [OF assms(1-3), of rg d]
  by (auto simp: comp_def)

theorem zsl_lex_search_witness:
  "zslFirstInLexRange (\<lambda>x y. int x - int y) 7 2 lex_list \<lparr>lmin = Str 3, lmax = Str 6, lminex = False, lmaxex = True\<rparr> lex_heap = Some (Some 1) \<and>
   zslLastInLexRange (\<lambda>x y. int x - int y) 7 2 lex_list \<lparr>lmin = MinString, lmax = Str 7, lminex = False, lmaxex = True\<rparr> lex_heap = Some None \<and>
   zslFirstInLexRange (\<lambda>x y. int x - int y) 7 2 lex_list \<lparr>lmin = Str 2, lmax = MaxString, lminex = True, lmaxex = False\<rparr> lex_heap = Some None \<and>
   (\<exists>z' d' h'. zslDeleteRangeByLex (\<lambda>x y. int x - int y) lex_list \<lparr>lmin = MinString, lmax = Str 7, lminex = False, lmaxex = True\<rparr> [3 \<mapsto> 1] lex_heap =
     Some (1, z', d', h')) \<and>
   (\<exists>z' d' h'. zslDeleteRangeByLex (\<lambda>x y. int x - int y) lex_list \<lparr>lmin = Str 2, lmax = MaxString, lminex = True, lmaxex = False\<rparr> [3 \<mapsto> 1] lex_heap =
     Some (1, z', d', h'))"
proof -
  have c: "cmp_ok (\<lambda>x y. int x - int y)" by (auto simp: cmp_ok_def)
  have s: "\<forall>a \<in> set [\<lparr>ad = 1, sc = 5, el = 3 :: nat, ht = 1\<rparr>]. sc a = (5 :: nat)" by simp
  have n: "(7 :: nat) \<noteq> 2" by simp
  note t = zsl_lex_search [OF lex_rep s c n]
  show ?thesis
    using t [of "\<lparr>lmin = Str 3, lmax = Str 6, lminex = False, lmaxex = True\<rparr>" "[3 \<mapsto> 1]"]
      t [of "\<lparr>lmin = MinString, lmax = Str 7, lminex = False, lmaxex = True\<rparr>" "[3 \<mapsto> 1]"]
      t [of "\<lparr>lmin = Str 2, lmax = MaxString, lminex = True, lmaxex = False\<rparr>" "[3 \<mapsto> 1]"]
    by (simp add: lex_clear_def in_lex_def first_ad_def)
qed

end
