(* ===== verification/Zset.thy ===== *)
theory Zset
  imports Zset_Range Containers
begin

section \<open>Sorted sets over skip lists (t\_zset.c)\<close>

text \<open>
  A sorted set in its skip list encoding: a dictionary from an element to the score inside its
  node (the address of the node here) and the skip list. The dictionary is a map: that a hash
  table implements one, whatever it rehashes or resizes, is what \<open>Dict\<close> shows. The functions of
  the common API are their skip list branches. \<open>add\<close> is the addition of doubles, None a NaN,
  which the functions also take as an argument.
\<close>

record 'e zset =
  zdict :: "'e \<rightharpoonup> nat"
  zsl :: zskiplist

definition ZADD_INCR :: u32 where "ZADD_INCR = 1"
definition ZADD_NX :: u32 where "ZADD_NX = 2"
definition ZADD_XX :: u32 where "ZADD_XX = 4"
definition ZADD_NOP :: u32 where "ZADD_NOP = 8"
definition ZADD_NAN :: u32 where "ZADD_NAN = 16"
definition ZADD_ADDED :: u32 where "ZADD_ADDED = 32"
definition ZADD_UPDATED :: u32 where "ZADD_UPDATED = 64"

definition createZsetObject :: "(nat \<Rightarrow> nat option \<times> u32) \<Rightarrow> nat option \<Rightarrow> (('s :: zero, 'e) zheap \<Rightarrow> nat) \<Rightarrow>
    ('s, 'e) zheap \<Rightarrow> ('e zset \<times> ('s, 'e) zheap) option" where
  "createZsetObject junk junkb new h = do {
     (z, h) \<leftarrow> zslCreate junk junkb new h;
     Some (\<lparr>zdict = Map.empty, zsl = z\<rparr>, h) }"

definition freeZsetObject :: "'e zset \<Rightarrow> ('s, 'e) zheap \<Rightarrow> ('s, 'e) zheap option" where
  "freeZsetObject zs h = zslFree (zsl zs) h"

definition zsetLength :: "'e zset \<Rightarrow> u32" where
  "zsetLength zs = ucast (zlength (zsl zs))"

definition zsetScore :: "'e zset \<Rightarrow> 'e \<Rightarrow> ('s, 'e) zheap \<Rightarrow> 's option option" where
  "zsetScore zs e h =
     (case zdict zs e of
        None \<Rightarrow> Some None
      | Some x \<Rightarrow> do { n \<leftarrow> h x; Some (Some (score n)) })"

definition zsetAdd :: "(nat \<Rightarrow> nat option \<times> u32) \<Rightarrow> nat option \<Rightarrow> (('s, 'e) zheap \<Rightarrow> nat) \<Rightarrow> ('s \<Rightarrow> 's \<Rightarrow> 's option) \<Rightarrow>
    (nat \<Rightarrow> nat) \<Rightarrow> 'e zset \<Rightarrow> 's::linorder option \<Rightarrow> 'e::linorder \<Rightarrow> u32 \<Rightarrow> ('s, 'e) zheap \<Rightarrow>
    ((int \<times> u32 \<times> 's option) \<times> 'e zset \<times> ('s, 'e) zheap) option" where
  \<comment> \<open>the return value, the flags, what is stored in newscore, and the state\<close>
  "zsetAdd junk junkb new add rnd zs sco e fl h =
     (let incr = fl AND ZADD_INCR \<noteq> 0; nx = fl AND ZADD_NX \<noteq> 0; xx = fl AND ZADD_XX \<noteq> 0 in
      case sco of
        None \<Rightarrow> Some ((0, ZADD_NAN, None), zs, h)
      | Some s \<Rightarrow>
         (case zdict zs e of
            Some x \<Rightarrow>
              if nx then Some ((1, ZADD_NOP, None), zs, h)
              else do {
                n \<leftarrow> h x;
                let curscore = score n;
                case (if incr then add s curscore else Some s) of
                  None \<Rightarrow> Some ((0, ZADD_NAN, None), zs, h)
                | Some s \<Rightarrow> do {
                    let newscore = (if incr then Some s else None);
                    if s \<noteq> curscore then do {
                      (r, z, h) \<leftarrow> zslDelete True (zsl zs) curscore e h;
                      node \<leftarrow> r;
                      n \<leftarrow> h node;
                      ne \<leftarrow> ele n;
                      (x, z, h) \<leftarrow> zslInsert junk junkb rnd new z s ne h;
                      h \<leftarrow> zslFreeNode node h;
                      Some ((1, ZADD_UPDATED, newscore), \<lparr>zdict = (zdict zs)(e \<mapsto> x), zsl = z\<rparr>, h) }
                    else Some ((1, 0, newscore), zs, h) } }
          | None \<Rightarrow>
              if \<not> xx then do {
                (x, z, h) \<leftarrow> zslInsert junk junkb rnd new (zsl zs) s e h;
                Some ((1, ZADD_ADDED, Some s), \<lparr>zdict = (zdict zs)(e \<mapsto> x), zsl = z\<rparr>, h) }
              else Some ((1, ZADD_NOP, None), zs, h)))"

definition zsetDel :: "'e zset \<Rightarrow> 'e::linorder \<Rightarrow> ('s::linorder, 'e) zheap \<Rightarrow> (bool \<times> 'e zset \<times> ('s, 'e) zheap) option" where
  "zsetDel zs e h =
     (case zdict zs e of
        None \<Rightarrow> Some (False, zs, h)
      | Some x \<Rightarrow> do {
          n \<leftarrow> h x;
          (r, z, h) \<leftarrow> zslDelete False (zsl zs) (score n) e h;
          _ \<leftarrow> r;
          Some (True, \<lparr>zdict = (zdict zs)(e := None), zsl = z\<rparr>, h) })"

definition zsetRank :: "'e zset \<Rightarrow> 'e::linorder \<Rightarrow> bool \<Rightarrow> ('s::linorder, 'e) zheap \<Rightarrow> int option" where
  "zsetRank zs e rev1 h = do {
     let llen = (ucast (zsetLength zs) :: u64);
     case zdict zs e of
       None \<Rightarrow> Some (- 1)
     | Some x \<Rightarrow> do {
         n \<leftarrow> h x;
         rank \<leftarrow> zslGetRank (zsl zs) (score n) e h;
         if rank = 0 then None
         else Some (if rev1 then sint (llen - rank) else sint (rank - 1)) } }"

definition zremrangeRank :: "'e zset \<Rightarrow> int \<Rightarrow> int \<Rightarrow> ('s::linorder, 'e::linorder) zheap \<Rightarrow> (u64 \<times> 'e zset \<times> ('s, 'e) zheap) option" where
  \<comment> \<open>steps 2 and 3 of zremrangeGenericCommand for ranks\<close>
  "zremrangeRank zs start end1 h =
     (let llen = uint (zsetLength zs);
          start = (if start < 0 then llen + start else start);
          end1 = (if end1 < 0 then llen + end1 else end1);
          start = (if start < 0 then 0 else start) in
      if start > end1 \<or> start \<ge> llen then Some (0, zs, h)
      else let end1 = (if end1 \<ge> llen then llen - 1 else end1) in
        do {
          (n, z, d, h) \<leftarrow> zslDeleteRangeByRank (zsl zs) (of_int (start + 1)) (of_int (end1 + 1)) (zdict zs) h;
          Some (n, \<lparr>zdict = d, zsl = z\<rparr>, h) })"

definition zremrangeScore :: "'e zset \<Rightarrow> 's zrangespec \<Rightarrow> ('s::linorder, 'e::linorder) zheap \<Rightarrow> (u64 \<times> 'e zset \<times> ('s, 'e) zheap) option" where
  "zremrangeScore zs rg h = do {
     (n, z, d, h) \<leftarrow> zslDeleteRangeByScore (zsl zs) rg (zdict zs) h;
     Some (n, \<lparr>zdict = d, zsl = z\<rparr>, h) }"

subsection \<open>The invariant\<close>

definition idx :: "(('s, 'e) ent \<Rightarrow> 'v) \<Rightarrow> ('s, 'e) ent list \<Rightarrow> 'e \<rightharpoonup> 'v" where
  "idx f es = map_of (map (\<lambda>a. (el a, f a)) es)"

definition zset_rep :: "nat set \<Rightarrow> 'e::linorder zset \<times> ('s::linorder, 'e) zheap \<Rightarrow> ('s, 'e) ent list \<Rightarrow> bool" where
  \<comment> \<open>the dictionary and the list hold the same elements and the heap holds their nodes and \<open>B\<close>\<close>
  "zset_rep B c es \<longleftrightarrow> zrep (snd c) (zsl (fst c)) es \<and> distinct (map el es) \<and> zdict (fst c) = idx ad es \<and>
     dom (snd c) = B \<union> insert (header (zsl (fst c))) (ad ` set es) \<and> finite B \<and> header (zsl (fst c)) \<notin> B \<and> ad ` set es \<inter> B = {}"

definition zset_abs :: "'e zset \<times> ('s, 'e) zheap \<Rightarrow> 'e \<rightharpoonup> 's" where
  \<comment> \<open>the scores that the dictionary refers to\<close>
  "zset_abs c e = (case zdict (fst c) e of None \<Rightarrow> None | Some x \<Rightarrow> map_option score (snd c x))"

lemma idx_iff: "distinct (map el es) \<Longrightarrow> idx f es e = Some v \<longleftrightarrow> (\<exists>a \<in> set es. el a = e \<and> f a = v)"
  unfolding idx_def by (subst map_of_eq_Some_iff) (auto simp: comp_def)

lemma idx_None: "idx f es e = None \<longleftrightarrow> e \<notin> el ` set es"
  unfolding idx_def by (simp add: map_of_eq_None_iff image_image)

lemma idx_dom: "dom (idx f es) = el ` set es"
  by (auto simp: dom_def) (metis idx_None not_None_eq image_eqI)+

lemma map_ext_Some: "(\<And>k v. m k = Some v \<longleftrightarrow> m' k = Some v) \<Longrightarrow> m = m'"
  by (rule ext) (metis not_None_eq)

lemma distinct_insert:
  assumes "k \<le> length es"
  shows "distinct (map el (insert_ent k e es)) \<longleftrightarrow> distinct (map el es) \<and> el e \<notin> el ` set es"
proof -
  have "distinct (map el (take k es) @ map el (drop k es)) = distinct (map el es)" by (simp flip: map_append)
  moreover have "set es = set (take k es) \<union> set (drop k es)" by (metis append_take_drop_id set_append)
  ultimately show ?thesis by (auto simp: insert_ent_def)
qed

lemma idx_insert:
  assumes "k \<le> length es" and "distinct (map el es)" and "el e \<notin> el ` set es"
  shows "idx f (insert_ent k e es) = (idx f es)(el e \<mapsto> f e)"
proof (rule map_ext_Some)
  have "el a \<noteq> el e" if "a \<in> set es" for a using assms(3) that by (metis image_eqI)
  then show "idx f (insert_ent k e es) x = Some v \<longleftrightarrow> ((idx f es)(el e \<mapsto> f e)) x = Some v" for x v
    using assms distinct_insert [OF assms(1), of e] by (auto simp: idx_iff)
qed

lemma idx_remove:
  assumes "distinct (map el (as @ b # bs))"
  shows "idx f (as @ bs) = (idx f (as @ b # bs))(el b := None)"
proof (rule map_ext_Some)
  have "distinct (map el (as @ bs))" using assms by auto
  moreover have "el a \<noteq> el b" if "a \<in> set as \<union> set bs" for a using assms that by (auto simp: image_iff dest: sym)
  ultimately show "idx f (as @ bs) k = Some v \<longleftrightarrow> ((idx f (as @ b # bs))(el b := None)) k = Some v" for k v
    using idx_iff [OF assms, of f] by (auto simp: idx_iff)
qed

lemma idx_filter:
  assumes "distinct (map el es)"
  shows "idx f (filter (\<lambda>a. \<not> P a) es) = idx f es |` (- el ` set (filter P es))"
proof (rule map_ext_Some)
  fix k v
  have "distinct (map el (filter (\<lambda>a. \<not> P a) es))" using assms by (rule distinct_map_filter)
  moreover have "a = b" if "a \<in> set es" "b \<in> set es" "el a = el b" for a b
    using assms that by (auto simp: distinct_map inj_on_def)
  ultimately show "idx f (filter (\<lambda>a. \<not> P a) es) k = Some v \<longleftrightarrow> (idx f es |` (- el ` set (filter P es))) k = Some v"
    using assms by (auto simp: idx_iff restrict_map_def)
qed

lemma entry_split:
  assumes r: "zset_rep B c es" and e: "zdict (fst c) e = Some x"
  shows "\<exists>as b bs n. es = as @ b # bs \<and> el b = e \<and> ad b = x \<and> snd c x = Some n \<and> score n = sc b \<and> ele n = Some e"
proof -
  have d: "distinct (map el es)" and z: "zrep (snd c) (zsl (fst c)) es" using r by (auto simp: zset_rep_def)
  obtain b where b: "b \<in> set es" "el b = e" "ad b = x" using r e idx_iff [OF d, of ad e x] by (auto simp: zset_rep_def)
  then show ?thesis using ends(3) [OF z b(1)] split_list [OF b(1)] by blast
qed

lemma zset_absI:
  assumes r: "zset_rep B c es"
  shows "zset_abs c = idx sc es"
proof
  fix e
  have d: "distinct (map el es)" and i: "zdict (fst c) = idx ad es" using r by (auto simp: zset_rep_def)
  show "zset_abs c e = idx sc es e"
  proof (cases "zdict (fst c) e")
    case None
    then show ?thesis using i idx_None by (metis option.case(1) zset_abs_def)
  next
    case (Some x)
    obtain as b bs n where b: "es = as @ b # bs" "el b = e" "snd c x = Some n" "score n = sc b" using entry_split [OF r Some] by blast
    have "b \<in> set es" using b(1) by simp
    then have "idx sc es e = Some (sc b)" using idx_iff [OF d, of sc e "sc b"] b(2) by blast
    then show ?thesis using Some b by (simp add: zset_abs_def)
  qed
qed

subsection \<open>Adding and removing\<close>

lemma zset_rep_keep:
  assumes r: "zset_rep B (zs, h) (as @ b # bs)" and z: "zrep h' z' (as @ bs)" and e: "header z' = header (zsl zs)" "dom h' = dom h"
  shows "zset_rep (insert (ad b) B) (\<lparr>zdict = (zdict zs)(el b := None), zsl = z'\<rparr>, h') (as @ bs)"
proof -
  have d: "distinct (map el (as @ b # bs))" using r by (simp add: zset_rep_def)
  have "ad b \<notin> ad ` set (as @ bs)" "header (zsl zs) \<noteq> ad b"
    using r by (auto simp: zset_rep_def zrep_def shape_ok_def)
  then show ?thesis using r z e idx_remove [OF d, of ad] d by (auto simp: zset_rep_def)
qed

lemma zset_rep_free:
  assumes r: "zset_rep (insert x B) (zs, h) es" and x: "x \<notin> B"
  shows "zset_rep B (zs, h(x := None)) es"
proof -
  have "x \<noteq> header (zsl zs)" "x \<notin> ad ` set es" using r by (auto simp: zset_rep_def)
  moreover from this have "zrep (h(x := None)) (zsl zs) es" using r zrep_free [of h "zsl zs" es x] by (simp add: zset_rep_def)
  ultimately show ?thesis using r x by (auto simp: zset_rep_def)
qed

lemma zset_rep_remove:
  assumes r: "zset_rep B (zs, h) (as @ b # bs)" and z: "zrep h' z' (as @ bs)" and e: "header z' = header (zsl zs)" "dom h' = dom h"
  shows "zset_rep B (\<lparr>zdict = (zdict zs)(el b := None), zsl = z'\<rparr>, h'(ad b := None)) (as @ bs)"
  using zset_rep_free [OF zset_rep_keep [OF r z e]] r by (auto simp: zset_rep_def)

lemma zset_rep_insert:
  assumes r: "zset_rep B (zs, h) es" and k: "k \<le> length es" and z: "zrep h' z' (insert_ent k b es)" and e: "header z' = header (zsl zs)"
    and dm: "dom h' = insert (ad b) (dom h)" "ad b \<notin> dom h" and n: "el b \<notin> el ` set es"
  shows "zset_rep B (\<lparr>zdict = (zdict zs)(el b \<mapsto> ad b), zsl = z'\<rparr>, h') (insert_ent k b es)"
  using r z e dm n k idx_insert [OF k, of b ad] distinct_insert [OF k, of b] by (auto simp: zset_rep_def)

lemma zset_rep_bound: "zset_rep B c es \<Longrightarrow> card (dom (zset_abs c)) = length es"
  using zset_absI [of B c es] distinct_card [of "map el es"] by (simp add: idx_dom zset_rep_def)

lemma zset_rep_finite: "zset_rep B (zs, h) es \<Longrightarrow> finite (dom h)"
  by (auto simp: zset_rep_def)

lemma insert_zset_ok:
  assumes r: "zset_rep B (zs, h) es" and e: "e \<notin> el ` set es" and nw: "fresh_new new" and rl: "zslRandomLevel rnd = Some lvl"
    and n: "Suc (length es) < 2 ^ 32"
  shows "\<exists>x z' h' es'. zslInsert junk junkb rnd new (zsl zs) s e h = Some (x, z', h') \<and>
    zset_rep B (\<lparr>zdict = (zdict zs)(e \<mapsto> x), zsl = z'\<rparr>, h') es' \<and> idx sc es' = (idx sc es)(e \<mapsto> s)"
proof -
  let ?k = "length (takeWhile (before s e) es)"
  have k: "?k \<le> length es" by (rule length_takeWhile_le)
  have z: "zrep h (zsl zs) es" and d: "distinct (map el es)" using r by (simp_all add: zset_rep_def)
  have new: "\<forall>a \<in> set es. \<not> (sc a = s \<and> el a = e)" using e by (metis image_eqI)
  obtain x z' h' where x: "zslInsert junk junkb rnd new (zsl zs) s e h = Some (x, z', h')" "x \<notin> dom h" "dom h' = insert x (dom h)"
    "header z' = header (zsl zs)" "zrep h' z' (insert_ent ?k \<lparr>ad = x, sc = s, el = e, ht = lvl\<rparr> es)"
    using zslInsert_ok [OF z zset_rep_finite [OF r] nw rl new n] by blast
  have "zset_rep B (\<lparr>zdict = (zdict zs)(e \<mapsto> x), zsl = z'\<rparr>, h') (insert_ent ?k \<lparr>ad = x, sc = s, el = e, ht = lvl\<rparr> es)"
    using zset_rep_insert [OF r k x(5,4)] x(2,3) e by simp
  then show ?thesis using x(1) idx_insert [OF k d, of "\<lparr>ad = x, sc = s, el = e, ht = lvl\<rparr>" sc] e by auto
qed

lemma zsetDel_ok:
  assumes r: "zset_rep B (zs, h) es"
  shows "\<exists>c' es'. zsetDel zs e h = Some (zset_abs (zs, h) e \<noteq> None, c') \<and> zset_rep B c' es' \<and> idx sc es' = (idx sc es)(e := None)"
proof (cases "zdict zs e")
  case None
  then have "e \<notin> el ` set es" using r idx_None by (metis fst_conv zset_rep_def)
  then have "idx sc es = (idx sc es)(e := None)" using idx_None [of sc es e] by (simp add: fun_upd_idem)
  then show ?thesis using None r by (auto simp: zsetDel_def zset_abs_def)
next
  case (Some x)
  obtain as b bs n where b: "es = as @ b # bs" "el b = e" "ad b = x" "h x = Some n" "score n = sc b"
    using entry_split [OF r, of e x] Some by auto
  have r': "zset_rep B (zs, h) (as @ b # bs)" using r b(1) by simp
  then have z: "zrep h (zsl zs) (as @ b # bs)" and d: "distinct (map el (as @ b # bs))" by (simp_all add: zset_rep_def)
  obtain z' h' where z': "zslDelete False (zsl zs) (sc b) (el b) h = Some (Some (ad b), z', h'(ad b := None))"
    "zrep h' z' (as @ bs)" "header z' = header (zsl zs)" "dom h' = dom h" using zslDelete_found [OF z, of False] by auto
  have "zsetDel zs e h = Some (True, \<lparr>zdict = (zdict zs)(e := None), zsl = z'\<rparr>, h'(ad b := None))"
    using Some b z'(1) by (simp add: zsetDel_def)
  moreover have "zset_rep B (\<lparr>zdict = (zdict zs)(e := None), zsl = z'\<rparr>, h'(ad b := None)) (as @ bs)"
    using zset_rep_remove [OF r' z'(2-4)] b(2) by simp
  ultimately show ?thesis using idx_remove [OF d, of sc] b Some by (auto simp: zset_abs_def)
qed

lemma update_zset_ok:
  \<comment> \<open>remove and insert again with another score\<close>
  assumes r: "zset_rep B (zs, h) (as @ b # bs)" and nw: "fresh_new new" and rl: "zslRandomLevel rnd = Some lvl"
  shows "\<exists>z1 h1 n x z2 h2 es'. zslDelete True (zsl zs) (sc b) (el b) h = Some (Some (ad b), z1, h1) \<and> h1 (ad b) = Some n \<and> ele n = Some (el b) \<and>
    zslInsert junk junkb rnd new z1 s (el b) h1 = Some (x, z2, h2) \<and> zslFreeNode (ad b) h2 = Some (h2(ad b := None)) \<and>
    zset_rep B (\<lparr>zdict = (zdict zs)(el b \<mapsto> x), zsl = z2\<rparr>, h2(ad b := None)) es' \<and> idx sc es' = (idx sc (as @ b # bs))(el b \<mapsto> s)"
proof -
  have z: "zrep h (zsl zs) (as @ b # bs)" and d: "distinct (map el (as @ b # bs))" using r by (simp_all add: zset_rep_def)
  obtain z1 h1 n where d1: "zslDelete True (zsl zs) (sc b) (el b) h = Some (Some (ad b), z1, h1)" "zrep h1 z1 (as @ bs)"
    "header z1 = header (zsl zs)" "dom h1 = dom h" "h1 (ad b) = Some n" "ele n = Some (el b)" using zslDelete_found [OF z, of True] by auto
  have k: "zset_rep (insert (ad b) B) (\<lparr>zdict = (zdict zs)(el b := None), zsl = z1\<rparr>, h1) (as @ bs)" by (rule zset_rep_keep [OF r d1(2-4)])
  have ne: "el b \<notin> el ` set (as @ bs)" using d by auto
  have len: "Suc (length (as @ bs)) < 2 ^ 32" using z by (simp add: zrep_def shape_ok_def)
  obtain x z2 h2 es' where i: "zslInsert junk junkb rnd new z1 s (el b) h1 = Some (x, z2, h2)"
    "zset_rep (insert (ad b) B) (\<lparr>zdict = (zdict zs)(el b \<mapsto> x), zsl = z2\<rparr>, h2) es'" "idx sc es' = (idx sc (as @ bs))(el b \<mapsto> s)"
    using insert_zset_ok [OF k ne nw rl len, of junk junkb s] by auto
  have "ad b \<in> dom h2" using i(2) by (auto simp: zset_rep_def)
  then have "zslFreeNode (ad b) h2 = Some (h2(ad b := None))" by (auto simp: zslFreeNode_def)
  moreover have "ad b \<notin> B" using r by (auto simp: zset_rep_def)
  moreover have "idx sc es' = (idx sc (as @ b # bs))(el b \<mapsto> s)" using i(3) idx_remove [OF d, of sc] by simp
  ultimately show ?thesis using d1(1,5,6) i(1) zset_rep_free [OF i(2)] by blast
qed

subsection \<open>The specification\<close>

definition zadd_spec :: "('s \<Rightarrow> 's \<Rightarrow> 's option) \<Rightarrow> u32 \<Rightarrow> 's option \<Rightarrow> 'e \<Rightarrow> ('e \<rightharpoonup> 's) \<Rightarrow> ('e \<rightharpoonup> 's) \<times> int \<times> u32 \<times> 's option" where
  "zadd_spec add fl sco e m =
     (case sco of
        None \<Rightarrow> (m, 0, ZADD_NAN, None)
      | Some s \<Rightarrow>
         (case m e of
            None \<Rightarrow> if fl AND ZADD_XX \<noteq> 0 then (m, 1, ZADD_NOP, None) else (m(e \<mapsto> s), 1, ZADD_ADDED, Some s)
          | Some s0 \<Rightarrow>
              if fl AND ZADD_NX \<noteq> 0 then (m, 1, ZADD_NOP, None)
              else if fl AND ZADD_INCR \<noteq> 0 then
                (case add s s0 of
                   None \<Rightarrow> (m, 0, ZADD_NAN, None)
                 | Some s1 \<Rightarrow> (m(e \<mapsto> s1), 1, if s1 = s0 then 0 else ZADD_UPDATED, Some s1))
              else (m(e \<mapsto> s), 1, if s = s0 then 0 else ZADD_UPDATED, None)))"

lemma zsetAdd_ok:
  assumes r: "zset_rep B (zs, h) es" and nw: "fresh_new new" and rl: "zslRandomLevel rnd = Some lvl" and n: "Suc (length es) < 2 ^ 32"
  shows "\<exists>c' es'. zsetAdd junk junkb new add rnd zs sco e fl h = Some (snd (zadd_spec add fl sco e (zset_abs (zs, h))), c') \<and>
    zset_rep B c' es' \<and> idx sc es' = fst (zadd_spec add fl sco e (zset_abs (zs, h)))"
proof (cases "sco = None \<or> zset_abs (zs, h) e \<noteq> None \<and> fl AND ZADD_NX \<noteq> 0 \<or> zset_abs (zs, h) e = None \<and> fl AND ZADD_XX \<noteq> 0")
  case True
  have "zdict zs e = None \<longleftrightarrow> zset_abs (zs, h) e = None"
    using r zset_absI [OF r] idx_None by (metis fst_conv zset_rep_def)
  then have "zsetAdd junk junkb new add rnd zs sco e fl h = Some (snd (zadd_spec add fl sco e (zset_abs (zs, h))), zs, h)"
    "fst (zadd_spec add fl sco e (zset_abs (zs, h))) = zset_abs (zs, h)"
    using True by (auto simp: zsetAdd_def zadd_spec_def split: option.splits)
  then show ?thesis using r zset_absI [OF r] by auto
next
  case False
  then obtain s where s: "sco = Some s" by auto
  show ?thesis
  proof (cases "zdict zs e")
    case None
    then have e: "e \<notin> el ` set es" using r idx_None by (metis fst_conv zset_rep_def)
    have a: "zset_abs (zs, h) e = None" using None by (simp add: zset_abs_def)
    obtain x z' h' es' where i: "zslInsert junk junkb rnd new (zsl zs) s e h = Some (x, z', h')"
      "zset_rep B (\<lparr>zdict = (zdict zs)(e \<mapsto> x), zsl = z'\<rparr>, h') es'" "idx sc es' = (idx sc es)(e \<mapsto> s)"
      using insert_zset_ok [OF r e nw rl n, of junk junkb s] by blast
    have "zadd_spec add fl sco e (zset_abs (zs, h)) = ((zset_abs (zs, h))(e \<mapsto> s), 1, ZADD_ADDED, Some s)"
      using False s a by (simp add: zadd_spec_def)
    moreover have "zsetAdd junk junkb new add rnd zs sco e fl h = Some ((1, ZADD_ADDED, Some s), \<lparr>zdict = (zdict zs)(e \<mapsto> x), zsl = z'\<rparr>, h')"
      using False s a None i(1) by (simp add: zsetAdd_def)
    ultimately show ?thesis using i(2,3) zset_absI [OF r] by auto
  next
    case (Some x)
    obtain as b bs n where b: "es = as @ b # bs" "el b = e" "ad b = x" "h x = Some n" "score n = sc b"
      using entry_split [OF r, of e x] Some by auto
    have r': "zset_rep B (zs, h) (as @ b # bs)" using r b(1) by simp
    have a: "zset_abs (zs, h) e = Some (sc b)" using Some b by (simp add: zset_abs_def)
    have m: "zset_abs (zs, h) = idx sc es" by (rule zset_absI [OF r])
    define t ns where "t = (if fl AND ZADD_INCR \<noteq> 0 then add s (sc b) else Some s)" and "ns = (\<lambda>s :: 'b. if fl AND ZADD_INCR \<noteq> 0 then Some s else None)"
    have spec: "zadd_spec add fl sco e (zset_abs (zs, h)) = (case t of None \<Rightarrow> (zset_abs (zs, h), 0, ZADD_NAN, None)
        | Some s1 \<Rightarrow> ((zset_abs (zs, h))(e \<mapsto> s1), 1, if s1 = sc b then 0 else ZADD_UPDATED, ns s1))"
      using False s a by (auto simp: zadd_spec_def t_def ns_def split: option.splits)
    have run: "zsetAdd junk junkb new add rnd zs sco e fl h = (case t of None \<Rightarrow> Some ((0, ZADD_NAN, None), zs, h)
        | Some s1 \<Rightarrow>
            if s1 = sc b then Some ((1, 0, ns s1), zs, h)
            else do {
              (r, z, h) \<leftarrow> zslDelete True (zsl zs) (sc b) e h;
              node \<leftarrow> r;
              n \<leftarrow> h node;
              ne \<leftarrow> ele n;
              (x, z, h) \<leftarrow> zslInsert junk junkb rnd new z s1 ne h;
              h \<leftarrow> zslFreeNode node h;
              Some ((1, ZADD_UPDATED, ns s1), \<lparr>zdict = (zdict zs)(e \<mapsto> x), zsl = z\<rparr>, h) })"
    proof -
      have "fl AND ZADD_NX = 0" using False a by simp
      then show ?thesis using s Some b(4,5) by (cases t) (auto simp: zsetAdd_def t_def ns_def Let_def)
    qed
    show ?thesis
    proof (cases t)
      case None
      then show ?thesis using run spec r m by auto
    next
      case s1: (Some s1)
      show ?thesis
      proof (cases "s1 = sc b")
        case True
        then have "(zset_abs (zs, h))(e \<mapsto> s1) = zset_abs (zs, h)" using a by (simp add: fun_upd_idem)
        then show ?thesis using run spec s1 r m True by auto
      next
        case neq: False
        obtain z1 h1 n1 x' z2 h2 es' where u: "zslDelete True (zsl zs) (sc b) (el b) h = Some (Some (ad b), z1, h1)" "h1 (ad b) = Some n1"
          "ele n1 = Some (el b)" "zslInsert junk junkb rnd new z1 s1 (el b) h1 = Some (x', z2, h2)" "zslFreeNode (ad b) h2 = Some (h2(ad b := None))"
          "zset_rep B (\<lparr>zdict = (zdict zs)(el b \<mapsto> x'), zsl = z2\<rparr>, h2(ad b := None)) es'" "idx sc es' = (idx sc (as @ b # bs))(el b \<mapsto> s1)"
          using update_zset_ok [OF r' nw rl, of junk junkb s1] by blast
        have "zsetAdd junk junkb new add rnd zs sco e fl h =
            Some ((1, ZADD_UPDATED, ns s1), \<lparr>zdict = (zdict zs)(el b \<mapsto> x'), zsl = z2\<rparr>, h2(ad b := None))"
          using run s1 neq u(1-5) b(2) by simp
        then show ?thesis using spec s1 neq u(6,7) m b(1,2) by auto
      qed
    qed
  qed
qed

subsection \<open>Ranks and ranges\<close>

definition precedes :: "('e::linorder \<rightharpoonup> 's::linorder) \<Rightarrow> 'e \<Rightarrow> 'e set" where
  \<comment> \<open>the members before a member in the order by score, then element\<close>
  "precedes m e = {e' \<in> dom m. the (m e') < the (m e) \<or> the (m e') = the (m e) \<and> e' < e}"

definition follows :: "('e::linorder \<rightharpoonup> 's::linorder) \<Rightarrow> 'e \<Rightarrow> 'e set" where
  "follows m e = {e' \<in> dom m. the (m e) < the (m e') \<or> the (m e') = the (m e) \<and> e < e'}"

lemma idx_nth: "distinct (map el es) \<Longrightarrow> a \<in> set es \<Longrightarrow> idx f es (el a) = Some (f a)"
  using idx_iff [of es f "el a" "f a"] by blast

lemma rank_sets:
  assumes d: "distinct (map el es)" and s: "sorted_wrt key_less es" and q: "q < length es"
  shows "precedes (idx sc es) (el (es ! q)) = el ` set (take q es)" "follows (idx sc es) (el (es ! q)) = el ` set (drop (Suc q) es)"
proof -
  let ?b = "es ! q"
  have es: "es = take q es @ ?b # drop (Suc q) es" using q by (rule id_take_nth_drop)
  have b: "?b \<in> set es" using q by simp
  have lt: "key_less a ?b" if "a \<in> set (take q es)" for a
    using s that q by (auto simp: sorted_wrt_iff_nth_less in_set_conv_nth)
  have gt: "key_less ?b a" if "a \<in> set (drop (Suc q) es)" for a
    using s that q by (auto simp: sorted_wrt_iff_nth_less in_set_conv_nth)
  have mem: "set es = insert ?b (set (take q es) \<union> set (drop (Suc q) es))" by (subst es) auto
  have pre: "el a \<in> precedes (idx sc es) (el ?b) \<longleftrightarrow> key_less a ?b" "el a \<in> follows (idx sc es) (el ?b) \<longleftrightarrow> key_less ?b a" if "a \<in> set es" for a
    using that by (auto simp: precedes_def follows_def idx_nth [OF d] b key_less_def idx_dom)
  have asym: "key_less a c \<Longrightarrow> \<not> key_less c a" "\<not> key_less a a" for a c :: "('b, 'a) ent" by (auto simp: key_less_def)
  have sub: "precedes (idx sc es) (el ?b) \<subseteq> el ` set es" "follows (idx sc es) (el ?b) \<subseteq> el ` set es"
    by (auto simp: precedes_def follows_def idx_dom)
  have in1: "key_less a ?b \<longleftrightarrow> a \<in> set (take q es)" and in2: "key_less ?b a \<longleftrightarrow> a \<in> set (drop (Suc q) es)" if "a \<in> set es" for a
    using that lt [of a] gt [of a] asym(2) [of ?b] asym(1) [of a ?b] unfolding mem by blast+
  have "set (take q es) \<subseteq> set es" "set (drop (Suc q) es) \<subseteq> set es" by (simp_all add: set_take_subset set_drop_subset)
  then show "precedes (idx sc es) (el ?b) = el ` set (take q es)" "follows (idx sc es) (el ?b) = el ` set (drop (Suc q) es)"
    using sub pre in1 in2 by blast+
qed

lemma rank_card:
  assumes d: "distinct (map el es)" and s: "sorted_wrt key_less es" and q: "q < length es"
  shows "card (precedes (idx sc es) (el (es ! q))) = q" "card (follows (idx sc es) (el (es ! q))) = length es - Suc q"
proof -
  have "card (el ` set (take q es)) = length (take q es)" "card (el ` set (drop (Suc q) es)) = length (drop (Suc q) es)"
    using d distinct_card [of "map el (take q es)"] distinct_card [of "map el (drop (Suc q) es)"] distinct_take [OF d, of q] distinct_drop [OF d, of "Suc q"]
    by (simp_all add: take_map drop_map)
  then show "card (precedes (idx sc es) (el (es ! q))) = q" "card (follows (idx sc es) (el (es ! q))) = length es - Suc q"
    unfolding rank_sets [OF assms] using q by simp_all
qed

lemma length_words:
  assumes r: "zset_rep B (zs, h) es"
  shows "zsetLength zs = of_nat (length es)" "uint (zsetLength zs) = int (length es)" "ucast (zsetLength zs) = (of_nat (length es) :: u64)"
proof -
  have l: "zlength (zsl zs) = of_nat (length es)" "length es < 2 ^ 32" using r by (simp_all add: zset_rep_def zrep_def shape_ok_def)
  then show 1: "zsetLength zs = of_nat (length es)" by (simp add: zsetLength_def unsigned_of_nat take_bit_nat_eq_self)
  show "uint (zsetLength zs) = int (length es)" "ucast (zsetLength zs) = (of_nat (length es) :: u64)"
    using l(2) unfolding 1 by (simp_all add: unsigned_of_nat take_bit_nat_eq_self)
qed

lemma zsetRank_ok:
  assumes r: "zset_rep B (zs, h) es"
  shows "zsetRank zs e rv h = Some (if zset_abs (zs, h) e = None then - 1
    else int (card (if rv then follows (zset_abs (zs, h)) e else precedes (zset_abs (zs, h)) e)))"
proof (cases "zdict zs e")
  case None
  then show ?thesis by (simp add: zsetRank_def zset_abs_def)
next
  case (Some x)
  obtain as b bs n where b: "es = as @ b # bs" "el b = e" "ad b = x" "h x = Some n" "score n = sc b"
    using entry_split [OF r, of e x] Some by auto
  let ?q = "length as"
  have q: "?q < length es" "es ! ?q = b" using b(1) by simp_all
  have z: "zrep h (zsl zs) es" and d: "distinct (map el es)" and s: "sorted_wrt key_less es" and len: "length es < 2 ^ 32"
    using r by (simp_all add: zset_rep_def zrep_def shape_ok_def)
  have rk: "zslGetRank (zsl zs) (sc b) e h = Some (of_nat (Suc ?q))" using zslGetRank_found [OF z d q(1)] unfolding q(2) b(2) .
  have nz: "(of_nat (Suc ?q) :: u64) \<noteq> 0" using q(1) len by (simp add: word_unat_eq_iff unat_of_nat take_bit_nat_eq_self del: of_nat_Suc)
  have si: "sint (of_nat j :: u64) = int j" if "j < 2 ^ 32" for j
    using that by (simp add: signed_of_nat signed_take_bit_int_eq_self)
  have "(of_nat (length es) :: u64) - of_nat (Suc ?q) = of_nat (length es - Suc ?q)" using q(1) by (subst of_nat_diff) simp_all
  then have run: "zsetRank zs e rv h = Some (if rv then int (length es - Suc ?q) else int ?q)"
    using Some b rk nz length_words(3) [OF r] q(1) len si [of "length es - Suc ?q"] si [of ?q] by (simp add: zsetRank_def)
  have "zset_abs (zs, h) e \<noteq> None" using Some b(4) by (simp add: zset_abs_def)
  then show ?thesis using run rank_card [OF d s q(1)] unfolding q(2) b(2) zset_absI [OF r] by simp
qed

lemma zset_rep_filter:
  assumes r: "zset_rep B (zs, h) es" and z: "zrep h' z' (filter (\<lambda>a. \<not> P a) es)" and e: "header z' = header (zsl zs)"
    and dm: "dom h' = dom h - ad ` set (filter P es)"
  shows "zset_rep B (\<lparr>zdict = zdict zs |` (- el ` set (filter P es)), zsl = z'\<rparr>, h') (filter (\<lambda>a. \<not> P a) es)"
proof -
  have d: "distinct (map el es)" "distinct (map ad es)" "header (zsl zs) \<notin> ad ` set es" using r by (simp_all add: zset_rep_def zrep_def shape_ok_def)
  have inj: "a = b" if "a \<in> set es" "b \<in> set es" "ad a = ad b" for a b using d(2) that by (auto simp: distinct_map inj_on_def)
  have hd: "header (zsl zs) \<notin> ad ` set (filter P es)" using d(3) by auto
  have split: "ad ` set es = ad ` set (filter P es) \<union> ad ` set (filter (\<lambda>a. \<not> P a) es)" by auto
  have dis: "ad ` set (filter P es) \<inter> ad ` set (filter (\<lambda>a. \<not> P a) es) = {}" using inj by auto
  have "dom h' = B \<union> insert (header (zsl zs)) (ad ` set (filter (\<lambda>a. \<not> P a) es))"
  proof -
    have diff: "(B \<union> insert x (X \<union> Y)) - X = B \<union> insert x Y" if "x \<notin> X" "X \<inter> Y = {}" "X \<inter> B = {}" for x :: nat and X Y using that by blast
    have "dom h = B \<union> insert (header (zsl zs)) (ad ` set es)" "ad ` set (filter P es) \<inter> B = {}" using r by (auto simp: zset_rep_def)
    then show ?thesis unfolding dm using diff [OF hd dis] by (simp only: split)
  qed
  moreover have "idx ad (filter (\<lambda>a. \<not> P a) es) = zdict zs |` (- el ` set (filter P es))"
    using idx_filter [OF d(1), of ad P] r by (simp add: zset_rep_def)
  moreover have "distinct (map el (filter (\<lambda>a. \<not> P a) es))" using d(1) by (rule distinct_map_filter)
  moreover have "finite B \<and> header (zsl zs) \<notin> B \<and> ad ` set (filter (\<lambda>a. \<not> P a) es) \<inter> B = {}" using r by (auto simp: zset_rep_def)
  ultimately show ?thesis using z e by (simp add: zset_rep_def del: set_filter)
qed

lemma filter_card:
  assumes "distinct (map el es)"
  shows "length (filter P es) = card (el ` set (filter P es))"
  using distinct_card [OF distinct_map_filter [OF assms, of P]] by simp

lemma zremrangeScore_ok:
  fixes rg :: "'s::linorder zrangespec"
  assumes r: "zset_rep B (zs, h) es"
  defines "D \<equiv> {e \<in> dom (zset_abs (zs, h)). in_range rg (the (zset_abs (zs, h) e))}"
  shows "\<exists>c' es'. zremrangeScore zs rg h = Some (of_nat (card D), c') \<and> zset_rep B c' es' \<and> idx sc es' = zset_abs (zs, h) |` (- D)"
proof -
  have z: "zrep h (zsl zs) es" and d: "distinct (map el es)" using r by (simp_all add: zset_rep_def)
  let ?P = "\<lambda>a. in_range rg (sc a)"
  have D: "D = el ` set (filter ?P es)"
    unfolding D_def zset_absI [OF r] idx_dom by (auto simp: idx_nth [OF d])
  have P: "in_range rg \<circ> sc = ?P" by auto
  obtain z' h' where z': "zslDeleteRangeByScore (zsl zs) rg (zdict zs) h =
      Some (of_nat (length (filter ?P es)), z', zdict zs |` (- el ` set (filter ?P es)), h')"
    "zrep h' z' (filter (\<lambda>a. \<not> ?P a) es)" "header z' = header (zsl zs)" "dom h' = dom h - ad ` set (filter ?P es)"
    using zslDeleteRangeByScore_ok [OF z, of rg "zdict zs", unfolded P] by blast
  then show ?thesis using zset_rep_filter [OF r z'(2-4)] filter_card [OF d, of ?P] idx_filter [OF d, of sc ?P] zset_absI [OF r]
    unfolding D by (auto simp: zremrangeScore_def)
qed

definition zremrank_set :: "int \<Rightarrow> int \<Rightarrow> ('e::linorder \<rightharpoonup> 's::linorder) \<Rightarrow> 'e set" where
  \<comment> \<open>the members whose 0-based rank is between two indices, negative ones from the end\<close>
  "zremrank_set start end1 m =
     (let llen = int (card (dom m));
          s = (if start < 0 then max 0 (llen + start) else start);
          t = (if end1 < 0 then llen + end1 else end1) in
      {e \<in> dom m. s \<le> int (card (precedes m e)) \<and> int (card (precedes m e)) \<le> t})"

lemma middle_filter:
  assumes d: "distinct (as @ ms @ bs)"
  shows "filter (\<lambda>a. a \<in> set ms) (as @ ms @ bs) = ms" "filter (\<lambda>a. a \<notin> set ms) (as @ ms @ bs) = as @ bs"
proof -
  have "filter (\<lambda>a. a \<in> set ms) as = []" "filter (\<lambda>a. a \<in> set ms) bs = []" by (rule filter_False, use d in auto)+
  moreover have "filter (\<lambda>a. a \<notin> set ms) as = as" "filter (\<lambda>a. a \<notin> set ms) bs = bs" by (rule filter_True, use d in auto)+
  ultimately show "filter (\<lambda>a. a \<in> set ms) (as @ ms @ bs) = ms" "filter (\<lambda>a. a \<notin> set ms) (as @ ms @ bs) = as @ bs" by simp_all
qed

lemma slice_filter:
  assumes "distinct es"
  shows "filter (\<lambda>a. a \<in> set (take m (drop k es))) es = take m (drop k es)"
    and "filter (\<lambda>a. a \<notin> set (take m (drop k es))) es = take k es @ drop (k + m) es"
proof -
  have es: "take k es @ take m (drop k es) @ drop (k + m) es = es" by (metis add.commute append_take_drop_id drop_drop)
  from middle_filter [of "take k es" "take m (drop k es)" "drop (k + m) es", unfolded es, OF assms]
  show "filter (\<lambda>a. a \<in> set (take m (drop k es))) es = take m (drop k es)"
    "filter (\<lambda>a. a \<notin> set (take m (drop k es))) es = take k es @ drop (k + m) es" .
qed

lemma idx_dom_nth: "e \<in> dom (idx f es) \<longleftrightarrow> (\<exists>q < length es. e = el (es ! q))"
  unfolding idx_dom by (metis image_iff in_set_conv_nth)

lemma slice_rank:
  assumes d: "distinct (map el es)" and s: "sorted_wrt key_less es" and km: "k + m \<le> length es"
  shows "{e \<in> dom (idx sc es). k \<le> card (precedes (idx sc es) e) \<and> card (precedes (idx sc es) e) < k + m} = el ` set (take m (drop k es))"
proof -
  have "a \<in> set (take m (drop k es)) \<longleftrightarrow> (\<exists>q. k \<le> q \<and> q < k + m \<and> a = es ! q)" for a
  proof
    assume "a \<in> set (take m (drop k es))"
    then obtain i where "i < m" "a = es ! (k + i)" using km by (auto simp: in_set_conv_nth)
    then show "\<exists>q. k \<le> q \<and> q < k + m \<and> a = es ! q" by (intro exI [of _ "k + i"]) simp
  next
    assume "\<exists>q. k \<le> q \<and> q < k + m \<and> a = es ! q"
    then obtain q where q: "k \<le> q" "q < k + m" "a = es ! q" by blast
    then have "take m (drop k es) ! (q - k) = a" "q - k < length (take m (drop k es))" using km by auto
    then show "a \<in> set (take m (drop k es))" by (metis nth_mem)
  qed
  then have "el ` set (take m (drop k es)) = {e. \<exists>q. k \<le> q \<and> q < k + m \<and> e = el (es ! q)}" by auto
  moreover have "{e \<in> dom (idx sc es). k \<le> card (precedes (idx sc es) e) \<and> card (precedes (idx sc es) e) < k + m} =
      {e. \<exists>q. k \<le> q \<and> q < k + m \<and> e = el (es ! q)}"
  proof -
    have "q < length es" if "q < k + m" for q using that km by simp
    then show ?thesis unfolding idx_dom_nth using rank_card(1) [OF d s] by auto
  qed
  ultimately show ?thesis by simp
qed

lemma rank_less:
  assumes "distinct (map el es)" and "sorted_wrt key_less es" and "e \<in> dom (idx sc es)"
  shows "card (precedes (idx sc es) e) < length es"
  using assms rank_card(1) [OF assms(1,2)] by (auto simp: idx_dom_nth)

lemma zremrangeRank_ok:
  fixes start end1 :: int
  assumes r: "zset_rep B (zs, h) es"
  defines "D \<equiv> zremrank_set start end1 (zset_abs (zs, h))"
  shows "\<exists>c' es'. zremrangeRank zs start end1 h = Some (of_nat (card D), c') \<and> zset_rep B c' es' \<and> idx sc es' = zset_abs (zs, h) |` (- D)"
proof -
  have z: "zrep h (zsl zs) es" and d: "distinct (map el es)" and so: "sorted_wrt key_less es" and len: "length es < 2 ^ 32"
    using r by (simp_all add: zset_rep_def zrep_def shape_ok_def)
  define s where "s = (if start < 0 then max 0 (int (length es) + start) else start)"
  define t where "t = (if end1 < 0 then int (length es) + end1 else end1)"
  have ab: "zset_abs (zs, h) = idx sc es" by (rule zset_absI [OF r])
  have cd: "card (dom (idx sc es)) = length es" using zset_rep_bound [OF r] by (simp add: ab)
  have D: "D = {e \<in> dom (idx sc es). s \<le> int (card (precedes (idx sc es) e)) \<and> int (card (precedes (idx sc es) e)) \<le> t}"
    by (simp add: D_def zremrank_set_def ab cd s_def t_def Let_def)
  have s0: "0 \<le> s" by (auto simp: s_def)
  have run: "zremrangeRank zs start end1 h = (if s > t \<or> s \<ge> int (length es) then Some (0, zs, h)
      else do {
        (n, z, d, h) \<leftarrow> zslDeleteRangeByRank (zsl zs) (of_int (s + 1)) (of_int ((if t \<ge> int (length es) then int (length es) - 1 else t) + 1)) (zdict zs) h;
        Some (n, \<lparr>zdict = d, zsl = z\<rparr>, h) })"
    unfolding zremrangeRank_def length_words(2) [OF r] Let_def s_def t_def by (simp add: max_def)
  show ?thesis
  proof (cases "s > t \<or> s \<ge> int (length es)")
    case True
    have "D = {}" using True rank_less [OF d so] unfolding D by force
    then show ?thesis using run True r ab by (auto simp: restrict_map_def)
  next
    case False
    define t1 where "t1 = (if t \<ge> int (length es) then int (length es) - 1 else t)"
    define k m where "k = nat s" and "m = nat (t1 + 1) - nat s"
    have b: "s \<le> t1" "t1 < int (length es)" "s < int (length es)" using False s0 by (auto simp: t1_def)
    then have km: "k + m \<le> length es" "k + m = nat (t1 + 1)" using s0 by (auto simp: k_def m_def)
    have un: "unat (of_int j :: u32) = nat j" if "0 \<le> j" "j \<le> int (length es)" for j
      using that len by (simp add: unsigned_of_int take_bit_int_eq_self)
    have kk: "min (unat (of_int (s + 1) :: u32) - 1) (length es) = k" "min (unat (of_int (t1 + 1) :: u32)) (length es) - k = m"
      using un [of "s + 1"] un [of "t1 + 1"] b s0 km by (auto simp: k_def m_def)
    have DS: "D = el ` set (take m (drop k es))"
    proof -
      have "(s \<le> int c \<and> int c \<le> t) = (k \<le> c \<and> c < k + m)" if "c < length es" for c
        using that b s0 km(2) by (auto simp: k_def t1_def split: if_splits)
      then show ?thesis unfolding D slice_rank [OF d so km(1), symmetric] using rank_less [OF d so] by blast
    qed
    let ?P = "\<lambda>a. a \<in> set (take m (drop k es))"
    have de: "distinct es" using d by (simp add: distinct_map)
    note sl = slice_filter [OF de, of m k]
    obtain z' h' where z': "zslDeleteRangeByRank (zsl zs) (of_int (s + 1)) (of_int (t1 + 1)) (zdict zs) h =
        Some (of_nat m, z', zdict zs |` (- el ` set (filter ?P es)), h')"
      "zrep h' z' (filter (\<lambda>a. \<not> ?P a) es)" "header z' = header (zsl zs)" "dom h' = dom h - ad ` set (filter ?P es)"
      using zslDeleteRangeByRank_ok [OF z len, of "of_int (s + 1)" "of_int (t1 + 1)" "zdict zs", unfolded kk] unfolding sl by blast
    have "card D = m"
    proof -
      have "distinct (map el (take m (drop k es)))" using d by (simp add: distinct_drop flip: take_map drop_map)
      then show ?thesis using km(1) distinct_card [of "map el (take m (drop k es))"] unfolding DS by simp
    qed
    then have "zremrangeRank zs start end1 h = Some (of_nat (card D), \<lparr>zdict = zdict zs |` (- el ` set (filter ?P es)), zsl = z'\<rparr>, h')"
      using run False z'(1) unfolding t1_def by simp
    then show ?thesis using zset_rep_filter [OF r z'(2-4)] idx_filter [OF d, of sc ?P] unfolding DS ab sl(1) by blast
  qed
qed

subsection \<open>Any sequence of operations\<close>

datatype ('s, 'e) zop =
    ZAdd u32 "'s option" 'e "nat \<Rightarrow> nat" \<comment> \<open>flags, score, element, results of random()\<close>
  | ZRem 'e
  | ZScore 'e
  | ZCard
  | ZRank 'e bool
  | ZRemRangeByScore "'s zrangespec"
  | ZRemRangeByRank int int

datatype 's zreply = Added int u32 "'s option" | Removed bool | Score "'s option" | Card u32 | Rank int | Deleted u64

fun zset_exec :: "(nat \<Rightarrow> nat option \<times> u32) \<Rightarrow> nat option \<Rightarrow> (('s, 'e) zheap \<Rightarrow> nat) \<Rightarrow> ('s \<Rightarrow> 's \<Rightarrow> 's option) \<Rightarrow>
    'e::linorder zset \<times> ('s::linorder, 'e) zheap \<Rightarrow> ('s, 'e) zop \<Rightarrow> (('e zset \<times> ('s, 'e) zheap) \<times> 's zreply) option" where
  "zset_exec junk junkb new add (zs, h) (ZAdd fl s e rnd) =
     do { ((r, fl, ns), c) \<leftarrow> zsetAdd junk junkb new add rnd zs s e fl h; Some (c, Added r fl ns) }"
| "zset_exec junk junkb new add (zs, h) (ZRem e) = do { (b, c) \<leftarrow> zsetDel zs e h; Some (c, Removed b) }"
| "zset_exec junk junkb new add (zs, h) (ZScore e) = do { s \<leftarrow> zsetScore zs e h; Some ((zs, h), Score s) }"
| "zset_exec junk junkb new add (zs, h) ZCard = Some ((zs, h), Card (zsetLength zs))"
| "zset_exec junk junkb new add (zs, h) (ZRank e rv) = do { k \<leftarrow> zsetRank zs e rv h; Some ((zs, h), Rank k) }"
| "zset_exec junk junkb new add (zs, h) (ZRemRangeByScore rg) = do { (n, c) \<leftarrow> zremrangeScore zs rg h; Some (c, Deleted n) }"
| "zset_exec junk junkb new add (zs, h) (ZRemRangeByRank s t) = do { (n, c) \<leftarrow> zremrangeRank zs s t h; Some (c, Deleted n) }"

fun zset_spec :: "('s \<Rightarrow> 's \<Rightarrow> 's option) \<Rightarrow> ('s::linorder, 'e::linorder) zop \<Rightarrow> ('e \<rightharpoonup> 's) \<Rightarrow> ('e \<rightharpoonup> 's) \<times> 's zreply" where
  "zset_spec add (ZAdd fl s e rnd) m = (let (m', r, fl, ns) = zadd_spec add fl s e m in (m', Added r fl ns))"
| "zset_spec add (ZRem e) m = (m(e := None), Removed (m e \<noteq> None))"
| "zset_spec add (ZScore e) m = (m, Score (m e))"
| "zset_spec add ZCard m = (m, Card (of_nat (card (dom m))))"
| "zset_spec add (ZRank e rv) m = (m, Rank (if m e = None then - 1 else int (card (if rv then follows m e else precedes m e))))"
| "zset_spec add (ZRemRangeByScore rg) m = (let D = {e \<in> dom m. in_range rg (the (m e))} in (m |` (- D), Deleted (of_nat (card D))))"
| "zset_spec add (ZRemRangeByRank s t) m = (let D = zremrank_set s t m in (m |` (- D), Deleted (of_nat (card D))))"

fun zop_ok :: "('s, 'e) zop \<Rightarrow> bool" where
  \<comment> \<open>the random level of a new node is found\<close>
  "zop_ok (ZAdd fl s e rnd) = (zslRandomLevel rnd \<noteq> None)"
| "zop_ok _ = True"

definition zset_inv :: "nat set \<Rightarrow> 'e::linorder zset \<times> ('s::linorder, 'e) zheap \<Rightarrow> bool" where
  "zset_inv B c \<longleftrightarrow> (\<exists>es. zset_rep B c es)"

lemma zset_inv_step:
  assumes "zset_rep B c es'" and "idx sc es' = m"
  shows "zset_inv B c \<and> zset_abs c = m"
  using assms zset_absI [OF assms(1)] by (auto simp: zset_inv_def)

lemma zset_exec_law:
  assumes i: "zset_inv B c" and ok: "zop_ok op" and n: "card (dom (zset_abs c)) < 2 ^ 32 - 2" and nw: "fresh_new new"
  shows "\<exists>c'. zset_exec junk junkb new add c op = Some (c', snd (zset_spec add op (zset_abs c))) \<and> zset_inv B c' \<and>
    zset_abs c' = fst (zset_spec add op (zset_abs c))"
proof -
  obtain es where r: "zset_rep B c es" using i by (auto simp: zset_inv_def)
  obtain zs h where c: "c = (zs, h)" by (cases c)
  note r' = r [unfolded c]
  have m: "zset_abs (zs, h) = idx sc es" by (rule zset_absI [OF r'])
  let ?G = "\<exists>c'. zset_exec junk junkb new add (zs, h) op = Some (c', snd (zset_spec add op (zset_abs (zs, h)))) \<and> zset_inv B c' \<and>
        zset_abs c' = fst (zset_spec add op (zset_abs (zs, h)))"
  have ?G
  proof (cases op)
    case (ZAdd fl s e rnd)
    then obtain lvl where "zslRandomLevel rnd = Some lvl" using ok by auto
    moreover have "Suc (length es) < 2 ^ 32" using n zset_rep_bound [OF r] by simp
    ultimately obtain c' es' where a: "zsetAdd junk junkb new add rnd zs s e fl h = Some (snd (zadd_spec add fl s e (zset_abs (zs, h))), c')"
      "zset_rep B c' es'" "idx sc es' = fst (zadd_spec add fl s e (zset_abs (zs, h)))"
      using zsetAdd_ok [OF r' nw, of rnd lvl junk junkb add s e fl] by blast
    have "zset_inv B c' \<and> zset_abs c' = fst (zadd_spec add fl s e (zset_abs (zs, h)))" by (rule zset_inv_step [OF a(2,3)])
    then show ?G
      using a(1) ZAdd by (cases "zadd_spec add fl s e (zset_abs (zs, h))") auto
  next
    case (ZRem e)
    then show ?G
      using zsetDel_ok [OF r', of e] zset_inv_step m by fastforce
  next
    case (ZScore e)
    have "zsetScore zs e h = Some (zset_abs (zs, h) e)"
      using entry_split [OF r', of e] by (cases "zdict zs e") (auto simp: zsetScore_def zset_abs_def)
    then show ?G
      using ZScore i c by simp
  next
    case ZCard
    then show ?G
      using length_words(1) [OF r'] zset_rep_bound [OF r'] i c by simp
  next
    case (ZRank e rv)
    then show ?G
      using zsetRank_ok [OF r', of e rv] i c by simp
  next
    case (ZRemRangeByScore rg)
    obtain c' es' where a: "zremrangeScore zs rg h = Some (of_nat (card ({e \<in> dom (zset_abs (zs, h)). in_range rg (the (zset_abs (zs, h) e))})), c')" "zset_rep B c' es'" "idx sc es' = zset_abs (zs, h) |` (- {e \<in> dom (zset_abs (zs, h)). in_range rg (the (zset_abs (zs, h) e))})"
      using zremrangeScore_ok [OF r', of rg] by blast
    then show ?G
      using zset_inv_step [OF a(2,3)] ZRemRangeByScore by (simp add: Let_def)
  next
    case (ZRemRangeByRank s t)
    obtain c' es' where a: "zremrangeRank zs s t h = Some (of_nat (card (zremrank_set s t (zset_abs (zs, h)))), c')" "zset_rep B c' es'" "idx sc es' = zset_abs (zs, h) |` (- zremrank_set s t (zset_abs (zs, h)))"
      using zremrangeRank_ok [OF r', of s t] by blast
    then show ?G
      using zset_inv_step [OF a(2,3)] ZRemRangeByRank by (simp add: Let_def)
  qed
  then show ?thesis using c by simp
qed

lemma zset_inv_finite: "zset_inv B c \<Longrightarrow> finite (dom (zset_abs c))"
  using zset_absI by (fastforce simp: zset_inv_def idx_dom)

lemma zset_spec_card: "finite (dom m) \<Longrightarrow> card (dom (fst (zset_spec add op m))) \<le> Suc (card (dom m))"
proof -
  assume f: "finite (dom m)"
  have sub: "card (dom m') \<le> Suc (card (dom m))" if "dom m' \<subseteq> insert e (dom m)" for m' :: "'a \<rightharpoonup> 'b" and e
    using card_mono [OF _ that] f card_insert_le_m1 [of "Suc (card (dom m))" "dom m" e] by (simp add: card_insert_if split: if_splits)
  have "\<exists>e. dom (fst (zset_spec add op m)) \<subseteq> insert e (dom m)"
  proof (cases op)
    case (ZAdd fl s e rnd)
    then show ?thesis by (intro exI [of _ e]) (auto simp: zadd_spec_def split: option.splits if_splits)
  qed (auto simp: Let_def)
  then show ?thesis using sub by blast
qed

lemma createZset_ok:
  fixes h :: "('s::{linorder,zero}, 'e::linorder) zheap"
  assumes f: "finite (dom h)" and nw: "fresh_new new"
  shows "\<exists>c. createZsetObject junk junkb new h = Some c \<and> zset_inv (dom h) c \<and> zset_abs c = Map.empty"
proof -
  obtain z h' where z: "zslCreate junk junkb new h = Some (z, h')" "zrep h' z []" "header z \<notin> dom h" "dom h' = insert (header z) (dom h)"
    using zslCreate_ok [OF f nw] by blast
  then have "zset_rep (dom h) (\<lparr>zdict = Map.empty, zsl = z\<rparr>, h') []" using f by (auto simp: zset_rep_def idx_def)
  then show ?thesis using z(1) zset_inv_step [of "dom h" _ "[]"] by (auto simp: createZsetObject_def idx_def)
qed

lemma freeZset_ok:
  assumes "zset_inv B (zs, h)"
  shows "\<exists>h'. freeZsetObject zs h = Some h' \<and> dom h' = B"
proof -
  obtain es where r: "zset_rep B (zs, h) es" using assms by (auto simp: zset_inv_def)
  then have "zslFree (zsl zs) h = Some (h |` (- insert (header (zsl zs)) (ad ` set es)))" by (intro zslFree_ok) (simp add: zset_rep_def)
  moreover have "dom (h |` (- insert (header (zsl zs)) (ad ` set es))) = B" using r by (auto simp: zset_rep_def)
  ultimately show ?thesis by (simp add: freeZsetObject_def)
qed

interpretation zset_machine: bounded_machine "\<lambda>c. fresh_new new \<and> zset_inv B c" zset_abs "2 ^ 32 - 2" zop_ok "zset_exec junk junkb new add" "zset_spec add"
  for new B junk junkb add
  by unfold_locales (use zset_inv_finite zset_exec_law zset_spec_card in \<open>blast+\<close>)

subsection \<open>Properties\<close>

definition next_free :: "('s, 'e) zheap \<Rightarrow> nat" where
  \<comment> \<open>an allocator for the examples\<close>
  "next_free h = Suc (Max (insert 0 (dom h)))"

lemma next_free_fresh: "fresh_new next_free"
proof -
  have "h (next_free h) = None" if f: "finite (dom h)" for h :: "('a, 'b) zheap"
  proof (rule ccontr)
    assume "h (next_free h) \<noteq> None"
    then have "next_free h \<le> Max (insert 0 (dom h))" using f by (intro Max_ge) auto
    then show False by (simp add: next_free_def)
  qed
  then show ?thesis by (simp add: fresh_new_def)
qed

text \<open>Property C2. A new sorted set behaves under any sequence of at most \<open>2 ^ 32 - 2\<close> operations
  (ZADD with all its flags, ZREM, ZSCORE, ZCARD, ZRANK, ZREVRANK, ZREMRANGEBYSCORE,
  ZREMRANGEBYRANK) like the same sequence on a finite map from elements to scores: every
  operation returns with the reply of the map, and the scores that the dictionary points to are
  those of the map. The allocator returns unused addresses and the random level of every new node
  is found.\<close>
theorem zset_refines_map:
  fixes h :: "('s::{linorder,zero}, 'e::linorder) zheap"
  assumes "finite (dom h)" and "fresh_new new" and "\<forall>c \<in> set ops. zop_ok c" and "length ops \<le> 2 ^ 32 - 2"
  shows "\<exists>c0 c. createZsetObject junk junkb new h = Some c0 \<and>
    run_ops (zset_exec junk junkb new add) ops c0 = Some (c, snd (runs (zset_spec add) ops Map.empty)) \<and>
    zset_abs c = fst (runs (zset_spec add) ops Map.empty)"
proof -
  obtain c0 where c0: "createZsetObject junk junkb new h = Some c0" "zset_inv (dom h) c0" "zset_abs c0 = Map.empty"
    using createZset_ok [OF assms(1,2)] by blast
  then show ?thesis using zset_machine.run_ops_law [of new "dom h" c0 ops junk junkb add] assms(2-4) by auto
qed

lemma one_level: "zslRandomLevel (\<lambda>_. 65535) = Some 1"
  by (simp add: zslRandomLevel_def ZSKIPLIST_MAXLEVEL_def, subst random_loop.simps) simp

theorem zset_refines_map_witness:
  "\<exists>c0 c. createZsetObject (\<lambda>_. (None, 7)) None next_free Map.empty = Some c0 \<and>
    run_ops (zset_exec (\<lambda>_. (None, 7)) None next_free (\<lambda>a b. Some (a + b)))
      [ZAdd 0 (Some (5 :: nat)) (1 :: nat) (\<lambda>_. 65535), ZAdd 0 (Some 4) 2 (\<lambda>_. 65535), ZAdd ZADD_INCR (Some 3) 2 (\<lambda>_. 65535), ZRank 2 False,
       ZAdd ZADD_NX (Some 9) 1 (\<lambda>_. 65535), ZRem 3, ZScore 2] c0 =
      Some (c, [Added 1 ZADD_ADDED (Some 5), Added 1 ZADD_ADDED (Some 4), Added 1 ZADD_UPDATED (Some 7), Rank 1,
        Added 1 ZADD_NOP None, Removed False, Score (Some 7)]) \<and> zset_abs c = [1 \<mapsto> 5, 2 \<mapsto> 7]"
proof -
  let ?ops = "[ZAdd 0 (Some (5 :: nat)) (1 :: nat) (\<lambda>_. 65535), ZAdd 0 (Some 4) 2 (\<lambda>_. 65535), ZAdd ZADD_INCR (Some 3) 2 (\<lambda>_. 65535), ZRank 2 False,
       ZAdd ZADD_NX (Some 9) 1 (\<lambda>_. 65535), ZRem 3, ZScore 2]"
  have "precedes [1 \<mapsto> 5 :: nat, 2 \<mapsto> 7] (2 :: nat) = {1 :: nat}" by (auto simp: precedes_def)
  moreover have "[1 \<mapsto> 5, 2 \<mapsto> 7](3 := None) = [1 :: nat \<mapsto> 5 :: nat, 2 \<mapsto> 7]" by auto
  ultimately have "runs (zset_spec (\<lambda>a b. Some (a + b))) ?ops Map.empty = ([1 \<mapsto> 5, 2 \<mapsto> 7], [Added 1 ZADD_ADDED (Some 5), Added 1 ZADD_ADDED (Some 4), Added 1 ZADD_UPDATED (Some 7), Rank 1,
        Added 1 ZADD_NOP None, Removed False, Score (Some 7)])"
    by (simp add: zadd_spec_def ZADD_INCR_def ZADD_XX_def ZADD_NX_def)
  then show ?thesis
    using zset_refines_map [of "Map.empty :: (nat, nat) zheap" next_free ?ops "\<lambda>_. (None, 7)" None "\<lambda>a b. Some (a + b)"] next_free_fresh one_level by simp
qed

text \<open>Property C20. Freeing a sorted set after any sequence of operations releases exactly the
  nodes that the set allocated: none is left over, none is freed twice and no other block is
  touched.\<close>
theorem zset_no_leak:
  fixes h :: "('s::{linorder,zero}, 'e::linorder) zheap"
  assumes "finite (dom h)" and "fresh_new new" and "\<forall>c \<in> set ops. zop_ok c" and "length ops \<le> 2 ^ 32 - 2"
    and "createZsetObject junk junkb new h = Some c0" and "run_ops (zset_exec junk junkb new add) ops c0 = Some ((zs, h1), rs)"
  shows "\<exists>h2. freeZsetObject zs h1 = Some h2 \<and> dom h2 = dom h"
proof -
  have "zset_inv (dom h) c0" "zset_abs c0 = Map.empty" using createZset_ok [OF assms(1,2), of junk junkb] assms(5) by auto
  then have "zset_inv (dom h) (zs, h1)"
    using zset_machine.run_ops_law [of new "dom h" c0 ops junk junkb add] assms(2-4,6) by auto
  then show ?thesis by (rule freeZset_ok)
qed

theorem zset_no_leak_witness:
  "\<exists>c0 zs h1 rs h2. createZsetObject (\<lambda>_. (None, 7)) None next_free Map.empty = Some c0 \<and>
    run_ops (zset_exec (\<lambda>_. (None, 7)) None next_free (\<lambda>a b. Some (a + b)))
      [ZAdd 0 (Some (5 :: nat)) (1 :: nat) (\<lambda>_. 65535), ZAdd 0 (Some 4) 1 (\<lambda>_. 65535)] c0 = Some ((zs, h1), rs) \<and>
    freeZsetObject zs h1 = Some h2 \<and> dom h2 = {}"
proof -
  let ?ops = "[ZAdd 0 (Some (5 :: nat)) (1 :: nat) (\<lambda>_. 65535), ZAdd 0 (Some 4) 1 (\<lambda>_. 65535)]"
  have f: "finite (dom (Map.empty :: (nat, nat) zheap))" and ok: "\<forall>c \<in> set ?ops. zop_ok c" "length ?ops \<le> 2 ^ 32 - 2" using one_level by simp_all
  obtain c0 where c0: "createZsetObject (\<lambda>_. (None, 7)) None next_free Map.empty = Some c0" "zset_inv {} c0" "zset_abs c0 = (Map.empty :: nat \<rightharpoonup> nat)"
    using createZset_ok [OF f next_free_fresh, of "\<lambda>_. (None, 7)" None] by auto
  obtain zs h1 rs where r: "run_ops (zset_exec (\<lambda>_. (None, 7)) None next_free (\<lambda>a b. Some (a + b))) ?ops c0 = Some ((zs, h1), rs)"
    using zset_machine.run_ops_law [of next_free "{}" c0 ?ops "\<lambda>_. (None, 7)" None "\<lambda>a b. Some (a + b)"] c0(2,3) ok next_free_fresh by fastforce
  from zset_no_leak [OF f next_free_fresh ok c0(1) r] show ?thesis using c0(1) r by auto
qed

end
