(* ===== verification/Spec2Isabelle.thy ===== *)
theory Spec2Isabelle
  imports Endianconv Intset Dict_Scan Dict_Iter Bitops Glob Multi Resp Crc Pubsub Adlist Zset
begin

text \<open>
  \<^bold>\<open>A verification of the Redis server that the shop runs on.\<close>

  The repository holds a Java shop, the proxy in front of its databases, and the C sources of
  the in-memory store it keeps sessions, stock and queues in: Redis 4.0.9 under
  \<open>src/tools/redis-4.0.9/src\<close>. This library models that server from its lowest layer up. All
  file names below are relative to that directory.

  \<^bold>\<open>How the parts interact.\<close> A client sends requests over a socket. \<open>networking.c\<close> collects the
  bytes in a dynamic string (\<open>sds.c\<close>), cuts them into arguments (numbers with \<open>util.c\<close>) and
  hands the command to \<open>processCommand\<close> (\<open>server.c\<close>), which queues it in a transaction
  (\<open>multi.c\<close>), refuses it in the subscriber mode (\<open>pubsub.c\<close>) or runs it. The keyspace is a
  dictionary (\<open>dict.c\<close>); sets of integers are sorted arrays (\<open>intset.c\<close>) stored in a fixed
  byte order (\<open>endianconv.c\<close>); sorted sets pair a dictionary with a skip list (\<open>t_zset.c\<close>);
  strings can be addressed as arrays of bits (\<open>bitops.c\<close>); modified keys are reported to watching
  transactions and, through \<open>notify.c\<close>, to subscribers, whose patterns \<open>stringmatchlen\<close> of \<open>util.c\<close> decides. Commands
  that changed data are encoded again for replicas and for the append only file (\<open>aof.c\<close>).
  In a cluster the checksum of a key selects its slot (\<open>crc16.c\<close>, \<open>cluster.c\<close>).

  \<^bold>\<open>Conventions.\<close> A function that can fail in C returns an \<open>option\<close>: \<open>None\<close> is a read or write
  out of bounds, a NULL or freed pointer, an undefined shift, a failed assertion or a loop that does not end, so
  that a theorem with a result \<open>Some\<close> also states memory safety and termination. Error returns
  of the code are ordinary values. Machine integers keep their width (\<open>w word\<close>, or the
  wrap-around written out). What the allocator leaves in fresh memory is a parameter \<open>junk\<close>,
  the allocator of list nodes a parameter \<open>new\<close>, the hash function and the callbacks of a
  dictionary are fields of its type, the byte order of the host is a parameter, and a command
  of the command table is a parameter of the transactions. Scores are any linear order (doubles
  without NaN) with a partial addition, random() is a sequence, and strtod is a parameter. An entry
  of a dictionary is identified by its key, and the address of a block is a parameter where
  alignment or a fingerprint depends on it. Loops are structural or well-founded
  recursions, or partial functions into \<open>option\<close>; no fuel is used.

  \<^bold>\<open>The theories.\<close>
  \<^item> \<open>Redis_Prelude\<close>: memory blocks, byte encodings of words, the shared lemma collections.
  \<^item> \<open>Containers\<close>: the contracts \<open>bounded_set\<close>, \<open>bounded_map\<close> and, more general, \<open>bounded_machine\<close>
    (a finite map under any kind of operations) as locales, with what their clients can conclude
    from them.
  \<^item> \<open>Endianconv\<close> (\<open>endianconv.c\<close>): byte swapping in place and of values, involutions.
  \<^item> \<open>Intset\<close> (\<open>intset.c\<close>): the sorted array with 16, 32 or 64 bit elements. Insertion with
    upgrade of the encoding, deletion, search; it implements \<open>bounded_set\<close>; the stored bytes do
    not depend on the host; beyond 2 ^ 29 - 1 elements the 32 bit size wraps.
  \<^item> \<open>Dict\<close> (\<open>dict.c\<close>): the two chained tables, incremental rehashing, expansion and shrinking,
    all operations that change entries. It implements \<open>bounded_map\<close> under any mix of operations
    and rehash steps; rehashing ends.
  \<^item> \<open>Dict_Scan\<close> (\<open>dictScan\<close>): the reversed binary cursor. Elements present all the time are
    returned by a complete scan, under a condition on shrinking that the code does not ensure
    and without which a scan misses an element.
  \<^item> \<open>Dict_Iter\<close> (\<open>dict.c\<close>): iterators, safe ones under changes of the dictionary and unsafe ones with
    their fingerprint, random and sampled entries, lookup by pointer and hash, release. A safe
    iterator sees every entry that is there all the time, and no dangling one; sampling is bounded.
  \<^item> \<open>Util\<close> (\<open>util.c\<close>): decimal conversion in both directions is exact.
  \<^item> \<open>Glob\<close> (\<open>stringmatchlen\<close>): equal to a recursive definition of pattern matching for
    non-empty strings; what happens for the empty string.
  \<^item> \<open>Sds\<close> and \<open>Sds_Format\<close> (\<open>sds.c\<close>, \<open>sds.h\<close>): strings with headers of five widths, refining
    byte lists; formatted appends, splitting and joining, quoting and its inverse.
  \<^item> \<open>Resp\<close> (\<open>networking.c\<close>, \<open>aof.c\<close>): the query buffer and both request formats. Whatever
    \<open>catAppendOnlyGenericCommand\<close> encodes is executed again, however the bytes are split over
    reads; two situations in which valid input is misread.
  \<^item> \<open>Multi\<close> (\<open>multi.c\<close> with parts of \<open>server.c\<close> and \<open>db.c\<close>): transactions with optimistic
    locking: the indexes of watched keys, aborts, serial execution and propagation. What a command
    of the table must satisfy for these is a hypothesis on the commands in question (\<open>signals\<close>,
    \<open>blind\<close>, \<open>clean_read\<close>), because SWAPDB, the blocking pops and PFCOUNT do not satisfy it.
  \<^item> \<open>Crc\<close> (\<open>crc16.c\<close>, \<open>crc64.c\<close>, \<open>keyHashSlot\<close>): the tables against polynomial division, and
    the slot of a key.
  \<^item> \<open>Pubsub\<close> (\<open>pubsub.c\<close>, \<open>notify.c\<close>): subscriptions and their inverse indexes, delivery of
    messages, keyspace events and the text of their classes.
  \<^item> \<open>Bitfield\<close> and \<open>Bitcount\<close> (\<open>bitops.c\<close>): counting and searching bits a word at a time against the
    block as a sequence of bits; integers of any width at any bit offset, and when they overflow.
  \<^item> \<open>Bitops\<close> (\<open>bitops.c\<close> with parts of \<open>object.c\<close> and \<open>db.c\<close>): SETBIT, GETBIT, BITOP, BITCOUNT,
    BITPOS and BITFIELD on a keyspace, against strings as arrays of bits that are continued with
    zeros; all of them return on every input, but for BITFIELD on 64 bits.
  \<^item> \<open>Adlist\<close> (\<open>adlist.c\<close>): doubly linked lists on an explicit heap, against sequences, with the
    allocated nodes accounted for.
  \<^item> \<open>Zskiplist\<close>, \<open>Zset_Range\<close> and \<open>Zset\<close> (\<open>t_zset.c\<close>): skip lists on an explicit heap, with the
    spans and backward pointers of every node, stand for a sorted list of entries; insertion,
    deletion, ranks, ranges by score, rank and element; the sorted set with its dictionary of
    pointers to scores implements \<open>bounded_machine\<close> for a map from elements to scores, and what
    it allocated is released. The ranges of elements up to the string minstring and from the string
    maxstring on are taken for empty.

  \<^bold>\<open>Bounds.\<close> Strings are shorter than 2 ^ 61 bytes, so that the doubling of \<open>sdsMakeRoomFor\<close> does not
  wrap; an integer set has fewer than 2 ^ 29 elements, because its blob length is 32 bits; a
  dictionary has fewer than 2 ^ 62 entries; a list fewer than 2 ^ 64 nodes; a sorted set
  fewer than 2 ^ 32 elements, the width of a span. Where the code reaches
  such a bound the theorems say what happens (\<open>intsetAdd_size_overflow\<close>). Counters and lengths
  that are an \<open>int\<close> in C are unbounded in some places: the arguments of \<open>stringmatchlen\<close>, the key
  length of \<open>keyHashSlot\<close>, the number of arguments of \<open>sdssplitargs\<close>, the token array of
  \<open>sdssplitlen\<close>, and in \<open>dictRehash\<close> and \<open>dictRehashMilliseconds\<close> the empty visits and the number of
  rehashed buckets. These definitions describe the code below 2 ^ 31, and \<open>sdssplitlen\<close> up to
  1342177280 tokens, beyond which the doubling of its array size overflows. The signed additions of
  the overflow checks of bit fields wrap around.

  \<^bold>\<open>Not modelled.\<close> The commands over the data types other than those on bits, the compact list encodings (the ziplist
  branches of sorted sets included), unions and intersections of sorted sets, radix trees, expiration and eviction, persistence, replication, the rest of the cluster,
  sentinel, scripting and modules, and everything whose content is operating system calls (event
  loop, sockets, threads, files), text output or configuration. Of partly modelled files:
  \<open>memtoll\<close>, \<open>ld2string\<close> and \<open>d2string\<close>
  (floating point), the rewriting and loading of the append only file, in \<open>call\<close> the flags that
  force or prevent the propagation of a command and \<open>alsoPropagate\<close>, and in \<open>processInputBuffer\<close> the
  clients that are freed or blocked by their command. The vendored libraries,
  the Java services and the proxy are outside this library.
\<close>

end
